(* ===== verification/XE_Prelude.thy ===== *)
theory XE_Prelude
  imports Main "HOL-Library.Word"
begin

text \<open>
  Shared vocabulary of the XEKernelOS development: the fixed-width integers of
  \<^verbatim>\<open>src/src/lib/types.h\<close>, C strings, little-endian byte memory, the kinds of
  fault an operation of the kernel can run into, and the generic facts on words,
  lists and memory that the component theories use.
\<close>

unbundle bit_operations_syntax

named_theorems wf_intros
named_theorems frame_simps

section \<open>Machine integers\<close>

type_synonym u8 = "8 word"
type_synonym u16 = "16 word"
type_synonym u32 = "32 word"

text \<open>Faults: what the C++ code leaves undefined or where it stops the machine.\<close>

datatype fault = NullDeref | OutOfBounds | UseAfterFree | Halted

section \<open>C strings\<close>

text \<open>A C string is the list of its bytes before the terminating NUL. Reading at the
  position of the terminator gives 0, as it does in the program.\<close>

type_synonym cstr = "u8 list"

definition chr_at :: "cstr \<Rightarrow> nat \<Rightarrow> u8" where
  "chr_at s i = (if i < length s then s ! i else 0)"

definition c_string :: "cstr \<Rightarrow> bool" where
  "c_string s = list_all (\<lambda>c. c \<noteq> 0) s"

definition bytes_of :: "string \<Rightarrow> cstr" where
  "bytes_of s = map of_char s"

lemma chr_at_Cons_0 [simp]: "chr_at (c # s) 0 = c"
  by (simp add: chr_at_def)

lemma chr_at_Cons_Suc [simp]: "chr_at (c # s) (Suc i) = chr_at s i"
  by (simp add: chr_at_def)

lemma chr_at_Nil [simp]: "chr_at [] i = 0"
  by (simp add: chr_at_def)

lemma c_string_Nil [simp]: "c_string []"
  by (simp add: c_string_def)

lemma c_string_Cons [simp]: "c_string (c # s) \<longleftrightarrow> c \<noteq> 0 \<and> c_string s"
  by (simp add: c_string_def)

lemma chr_at_zero_iff: "c_string s \<Longrightarrow> chr_at s i = 0 \<longleftrightarrow> length s \<le> i"
  by (auto simp: chr_at_def c_string_def list_all_length)

lemma c_string_take [intro]: "c_string s \<Longrightarrow> c_string (take n s)"
  by (auto simp: c_string_def list_all_iff dest: in_set_takeD)

lemma c_string_drop [intro]: "c_string s \<Longrightarrow> c_string (drop n s)"
  by (auto simp: c_string_def list_all_iff dest: in_set_dropD)

section \<open>Words\<close>

lemma unat_less_of_nat_add:
  assumes "unat (a :: 'a::len word) + n < 2 ^ LENGTH('a)"
  shows "unat (a + of_nat n) = unat a + n"
  using assms by (simp add: unat_word_ariths unsigned_of_nat take_bit_nat_eq_self
      take_bit_nat_def)

lemma unat_plus_one:
  assumes "i < (t :: 'a::len word)"
  shows "unat (i + 1) = unat i + 1"
proof -
  have "unat i < unat t" "unat t < 2 ^ LENGTH('a)"
    using assms by (simp_all add: word_less_nat_alt)
  then have "unat i + 1 < 2 ^ LENGTH('a)" by linarith
  then show ?thesis using unat_less_of_nat_add [of i 1] by simp
qed

lemma unat_and_mask: "unat (a AND mask n :: 'a::len word) = unat a mod 2 ^ n"
  by (simp only: take_bit_eq_mask [symmetric] unsigned_take_bit_eq) (simp add: take_bit_eq_mod)

lemma unat_and_not_mask: "unat (e AND NOT (mask n) :: 'a::len word) = unat e div 2 ^ n * 2 ^ n"
proof -
  have "(e AND NOT (mask n)) + (e AND mask n) = (e AND NOT (mask n)) OR (e AND mask n)"
    by (rule disjunctive_add) (auto simp: bit_simps)
  also have "\<dots> = e" by (rule bit_word_eqI) (auto simp: bit_simps)
  finally have "e AND NOT (mask n) = e - (e AND mask n)" by (metis add_diff_cancel_right')
  moreover have "unat (e AND mask n) = unat e mod 2 ^ n" by (rule unat_and_mask)
  moreover have "e AND mask n \<le> e" by (rule word_and_le2)
  ultimately have "unat (e AND NOT (mask n)) = unat e - unat e mod 2 ^ n" by (simp add: unat_sub)
  then show ?thesis by (simp add: minus_mod_eq_div_mult)
qed

text \<open>A value below 2 GiB is the same as a signed integer.\<close>

lemma sint_small: "unat (a :: u32) < 2 ^ 31 \<Longrightarrow> sint a = int (unat a)"
proof -
  assume a: "unat a < 2 ^ 31"
  have "0 \<le> uint a" "uint a < 2 ^ 31" using a by (simp, metis of_nat_unat of_nat_less_iff of_nat_numeral of_nat_power)
  then have "signed_take_bit 31 (uint a) = uint a"
    by (intro signed_take_bit_int_eq_self) linarith+
  then show ?thesis by (simp add: sint_uint)
qed

section \<open>Byte memory\<close>

text \<open>Physical memory as the CPU sees it: one byte per address, 32-bit accesses in
  little-endian order.\<close>

type_synonym mem = "u32 \<Rightarrow> u8"

definition ld16 :: "mem \<Rightarrow> u32 \<Rightarrow> u16" where
  "ld16 m a = word_cat (m (a + 1)) (m a)"

definition ld32 :: "mem \<Rightarrow> u32 \<Rightarrow> u32" where
  "ld32 m a = word_cat (word_cat (m (a + 3)) (m (a + 2)) :: u16) (word_cat (m (a + 1)) (m a) :: u16)"

definition st32 :: "mem \<Rightarrow> u32 \<Rightarrow> u32 \<Rightarrow> mem" where
  "st32 m a v = m(a := ucast v, a + 1 := ucast (drop_bit 8 v),
     a + 2 := ucast (drop_bit 16 v), a + 3 := ucast (drop_bit 24 v))"

lemma word_cat4_ucast:
  "word_cat (word_cat (ucast (drop_bit 24 v) :: u8) (ucast (drop_bit 16 v) :: u8) :: u16)
     (word_cat (ucast (drop_bit 8 v) :: u8) (ucast v :: u8) :: u16) = (v :: u32)"
  by (rule bit_word_eqI) (auto simp: bit_word_cat_iff bit_ucast_iff bit_drop_bit_eq)

lemma ld32_st32_same: "ld32 (st32 m a v) a = v"
proof -
  have "a + 1 \<noteq> a" "a + 2 \<noteq> a" "a + 3 \<noteq> a" "a + 2 \<noteq> a + 1" "a + 3 \<noteq> a + 1" "a + 3 \<noteq> a + 2"
    by simp_all
  then show ?thesis
    by (simp add: ld32_def st32_def word_cat4_ucast)
qed

text \<open>Word accesses at 4-byte aligned addresses do not overlap.\<close>

definition aligned4 :: "u32 \<Rightarrow> bool" where
  "aligned4 a = (a AND 3 = 0)"

lemma aligned4_iff: "aligned4 a \<longleftrightarrow> 4 dvd unat a"
proof -
  have "unat (a AND 3) = unat a mod 4"
    using unat_and_mask [of a 2] by (simp add: mask_eq_exp_minus_1)
  then show ?thesis
    by (simp add: aligned4_def dvd_eq_mod_eq_0 unat_eq_zero [symmetric])
qed

lemma aligned4_off_neq:
  assumes "aligned4 a" "aligned4 b" "a \<noteq> b" "i < 4" "j < 4"
  shows "a + of_nat i \<noteq> b + of_nat j"
proof
  assume eq: "a + of_nat i = b + of_nat j"
  have lim: "unat x + k < 2 ^ 32" if "aligned4 x" "k < 4" for x :: u32 and k
    using that unsigned_less [of x, where 'a = nat] by (auto simp: aligned4_iff elim!: dvdE)
  have "unat (a + of_nat i) = unat a + i" "unat (b + of_nat j) = unat b + j"
    using lim assms by (simp_all add: unat_less_of_nat_add)
  with eq have "unat a + i = unat b + j" by simp
  moreover obtain p q where "unat a = 4 * p" "unat b = 4 * q"
    using assms(1,2) by (auto simp: aligned4_iff elim!: dvdE)
  ultimately have "p = q" using assms(4,5) by linarith
  with \<open>unat a = 4 * p\<close> \<open>unat b = 4 * q\<close> show False
    using assms(3) by (simp add: word_unat_eq_iff)
qed

lemma ld32_st32_other:
  assumes "aligned4 a" "aligned4 b" "a \<noteq> b"
  shows "ld32 (st32 m a v) b = ld32 m b"
proof -
  note d = aligned4_off_neq [OF assms]
  have off: "b + of_nat j \<notin> {a, a + 1, a + 2, a + 3}" if "j < 4" for j
    using d [of 0 j] d [of 1 j] d [of 2 j] d [of 3 j] that by auto
  show ?thesis
    using off [of 0] off [of 1] off [of 2] off [of 3]
    by (simp add: ld32_def st32_def)
qed

end
