(* ===== verification/XE_List.thy ===== *)
theory XE_List
  imports XE_Prelude
begin

text \<open>
  The intrusive circular doubly linked list of \<^verbatim>\<open>src/src/lib/list.h\<close>, on an explicit
  pointer store. A \<^verbatim>\<open>struct list_head\<close> at address \<open>p\<close> is the pair of fields
  \<open>next_of h p\<close> and \<open>prev_of h p\<close>; the operations are the assignments of the header
  file, in its order, so that aliasing (an entry that is its own neighbour) behaves as in
  the program. \<open>dll\<close> is the abstraction: the ring from \<open>head\<close> holds exactly the entries
  of a list. The lemmas show that the operations implement append and removal, and that
  iteration visits the entries in order and ends.
\<close>

record lheap =
  next_of :: "u32 \<Rightarrow> u32"
  prev_of :: "u32 \<Rightarrow> u32"

definition set_next :: "u32 \<Rightarrow> u32 \<Rightarrow> lheap \<Rightarrow> lheap" where
  "set_next p v h = h\<lparr>next_of := (next_of h)(p := v)\<rparr>"

definition set_prev :: "u32 \<Rightarrow> u32 \<Rightarrow> lheap \<Rightarrow> lheap" where
  "set_prev p v h = h\<lparr>prev_of := (prev_of h)(p := v)\<rparr>"

definition list_init :: "u32 \<Rightarrow> lheap \<Rightarrow> lheap" where
  "list_init l h = set_prev l l (set_next l l h)"

definition list_add_between :: "u32 \<Rightarrow> u32 \<Rightarrow> u32 \<Rightarrow> lheap \<Rightarrow> lheap" where
  "list_add_between node prev nxt h =
     (let h1 = set_prev nxt node h;
          h2 = set_next node nxt h1;
          h3 = set_prev node prev h2
      in set_next prev node h3)"

definition list_add :: "u32 \<Rightarrow> u32 \<Rightarrow> lheap \<Rightarrow> lheap" where
  "list_add node head h = list_add_between node head (next_of h head) h"

definition list_add_tail :: "u32 \<Rightarrow> u32 \<Rightarrow> lheap \<Rightarrow> lheap" where
  "list_add_tail node head h = list_add_between node (prev_of h head) head h"

definition list_del :: "u32 \<Rightarrow> lheap \<Rightarrow> lheap" where
  "list_del entry h =
     (let h1 = set_next (prev_of h entry) (next_of h entry) h;
          h2 = set_prev (next_of h1 entry) (prev_of h1 entry) h1;
          h3 = set_next entry 0 h2
      in set_prev entry 0 h3)"

definition list_empty :: "u32 \<Rightarrow> lheap \<Rightarrow> bool" where
  "list_empty head h = (next_of h head = head)"

text \<open>\<^verbatim>\<open>list_for_each\<close> as the sequence of positions its body sees; the loop is unbounded in
  the program, so it is bounded by fuel here and \<open>None\<close> means it is still running.\<close>

fun list_walk :: "nat \<Rightarrow> u32 \<Rightarrow> u32 \<Rightarrow> lheap \<Rightarrow> u32 list option" where
  "list_walk 0 pos head h = None"
| "list_walk (Suc n) pos head h =
     (if pos = head then Some []
      else map_option (\<lambda>ps. pos # ps) (list_walk n (next_of h pos) head h))"

definition list_for_each :: "nat \<Rightarrow> u32 \<Rightarrow> lheap \<Rightarrow> u32 list option" where
  "list_for_each n head h = list_walk n (next_of h head) head h"

definition container_of :: "u32 \<Rightarrow> u32 \<Rightarrow> u32" where
  "container_of ptr offset = ptr - offset"

section \<open>The list a ring represents\<close>

text \<open>\<open>dseg n p a xs b\<close>: following \<open>n\<close> from \<open>a\<close> one meets exactly \<open>xs\<close> and then \<open>b\<close>,
  and every link is mirrored by \<open>p\<close>.\<close>

fun dseg :: "(u32 \<Rightarrow> u32) \<Rightarrow> (u32 \<Rightarrow> u32) \<Rightarrow> u32 \<Rightarrow> u32 list \<Rightarrow> u32 \<Rightarrow> bool" where
  "dseg n p a [] b = (n a = b \<and> p b = a)"
| "dseg n p a (x # xs) b = (n a = x \<and> p x = a \<and> dseg n p x xs b)"

definition dll :: "lheap \<Rightarrow> u32 \<Rightarrow> u32 list \<Rightarrow> bool" where
  "dll h head xs = (distinct (head # xs) \<and> dseg (next_of h) (prev_of h) head xs head)"

lemma dseg_append:
  "dseg n p a (xs @ y # ys) b \<longleftrightarrow> dseg n p a xs y \<and> dseg n p y ys b"
  by (induction xs arbitrary: a) auto

lemma dseg_upd_next:
  "c \<noteq> a \<Longrightarrow> c \<notin> set xs \<Longrightarrow> dseg (n(c := v)) p a xs b = dseg n p a xs b"
  by (induction xs arbitrary: a) auto

lemma dseg_upd_prev:
  "c \<noteq> b \<Longrightarrow> c \<notin> set xs \<Longrightarrow> dseg n (p(c := v)) a xs b = dseg n p a xs b"
  by (induction xs arbitrary: a) auto

lemma dseg_prev_last: "dseg n p a xs b \<Longrightarrow> p b = last (a # xs)"
  by (induction xs arbitrary: a) auto

lemma dseg_next_hd: "dseg n p a xs b \<Longrightarrow> n a = hd (xs @ [b])"
  by (cases xs) auto

lemma dseg_walk:
  "dseg n p a xs b \<Longrightarrow> b \<notin> set xs \<Longrightarrow> length xs < k \<Longrightarrow> n = next_of h \<Longrightarrow>
     list_walk k (n a) b h = Some xs"
  by (induction xs arbitrary: a k; case_tac k; auto)

lemmas list_op_defs = list_add_between_def set_next_def set_prev_def Let_def

lemma dll_init: "dll (list_init l h) l []"
  by (simp add: dll_def list_init_def list_op_defs)

lemma dll_empty_iff: "dll h head xs \<Longrightarrow> list_empty head h \<longleftrightarrow> xs = []"
  by (cases xs) (auto simp: dll_def list_empty_def)

lemma dll_for_each:
  "dll h head xs \<Longrightarrow> length xs < k \<Longrightarrow> list_for_each k head h = Some xs"
  unfolding dll_def list_for_each_def by (rule dseg_walk) auto

lemma dll_first: "dll h head (x # xs) \<Longrightarrow> next_of h head = x"
  by (simp add: dll_def)

lemma dseg_snoc:
  assumes "dseg n p a xs b" "node \<notin> set (a # b # xs)" "distinct (a # xs)" "b \<notin> set xs"
  shows "dseg (n(node := b, last (a # xs) := node)) (p(b := node, node := last (a # xs))) a
           (xs @ [node]) b"
proof (cases xs rule: rev_cases)
  case Nil
  with assms show ?thesis by auto
next
  case (snoc ys z)
  with assms have "dseg n p a ys z" "z \<noteq> a" "z \<notin> set ys" "a \<notin> set ys" "z \<noteq> b" "b \<notin> set ys"
    by (auto simp: dseg_append)
  with snoc assms(2) show ?thesis
    by (auto simp: dseg_append dseg_upd_next dseg_upd_prev)
qed

lemma dseg_unlink:
  assumes "dseg n p a xs e" "dseg n p e ys b" "distinct (a # xs @ ys)" "b \<notin> set (xs @ ys)"
    "e \<notin> set (a # b # xs @ ys)"
  shows "dseg (n(last (a # xs) := hd (ys @ [b]))) (p(hd (ys @ [b]) := last (a # xs))) a (xs @ ys) b"
proof (cases xs rule: rev_cases)
  case Nil
  with assms show ?thesis
    by (cases ys) (auto simp: dseg_upd_next dseg_upd_prev)
next
  case (snoc us z)
  with assms have seg: "dseg n p a us z" and "n z = e"
    by (auto simp: dseg_append)
  from snoc assms have d: "z \<noteq> a" "z \<notin> set us" "z \<noteq> b" "z \<notin> set ys" by auto
  show ?thesis
  proof (cases ys)
    case Nil
    with seg d snoc assms(3,4) show ?thesis
      by (auto simp: dseg_append dseg_upd_next dseg_upd_prev)
  next
    case (Cons y vs)
    with seg d snoc assms show ?thesis
      by (auto simp: dseg_append dseg_upd_next dseg_upd_prev)
  qed
qed

section \<open>The operations implement append and removal\<close>

lemma dll_add_tail:
  assumes "dll h head xs" "node \<notin> set (head # xs)"
  shows "dll (list_add_tail node head h) head (xs @ [node])"
proof -
  from assms(1) have seg: "dseg (next_of h) (prev_of h) head xs head" and dist: "distinct (head # xs)"
    by (auto simp: dll_def)
  from seg have "prev_of h head = last (head # xs)" by (rule dseg_prev_last)
  with dseg_snoc [OF seg _ dist, of node] assms(2) dist show ?thesis
    by (auto simp: dll_def list_add_tail_def list_op_defs)
qed

lemma dll_add:
  assumes "dll h head xs" "node \<notin> set (head # xs)"
  shows "dll (list_add node head h) head (node # xs)"
  using assms by (cases xs) (auto simp: dll_def list_add_def list_op_defs dseg_upd_next dseg_upd_prev)

lemma dll_del:
  assumes "dll h head (xs @ e # ys)"
  shows "dll (list_del e h) head (xs @ ys)"
proof -
  let ?n = "next_of h" and ?p = "prev_of h"
  let ?l = "last (head # xs)" and ?r = "hd (ys @ [head])"
  from assms have segs: "dseg ?n ?p head xs e" "dseg ?n ?p e ys head"
    and dist: "distinct (head # xs @ ys)" "e \<notin> set (head # head # xs @ ys)" "head \<notin> set (xs @ ys)"
    by (auto simp: dll_def dseg_append)
  from segs have pe: "?p e = ?l" and ne: "?n e = ?r"
    by (auto dest: dseg_prev_last dseg_next_hd)
  have "e \<noteq> ?l" "e \<noteq> ?r" using dist by (cases xs rule: rev_cases; cases ys; auto)+
  then have "next_of (list_del e h) = ?n(?l := ?r, e := 0)" "prev_of (list_del e h) = ?p(?r := ?l, e := 0)"
    by (auto simp: list_del_def list_op_defs pe ne)
  with dseg_unlink [OF segs dist(1,3,2)] dist show ?thesis
    by (auto simp: dll_def dseg_upd_next dseg_upd_prev)
qed

text \<open>A removed entry is recognisable: the guard \<^verbatim>\<open>if (t->list.next)\<close> of the task code reads 0.\<close>

lemma list_del_unlinked [simp]:
  "next_of (list_del e h) e = 0" "prev_of (list_del e h) e = 0"
  by (simp_all add: list_del_def list_op_defs)

lemma dll_linked: "dll h head xs \<Longrightarrow> x \<in> set xs \<Longrightarrow> 0 \<notin> set (head # xs) \<Longrightarrow> next_of h x \<noteq> 0"
proof -
  assume a: "dll h head xs" "x \<in> set xs" "0 \<notin> set (head # xs)"
  then obtain ys zs where "xs = ys @ x # zs" by (auto simp: in_set_conv_decomp)
  with a show ?thesis by (cases zs) (auto simp: dll_def dseg_append)
qed

text \<open>Operations on one ring leave a ring with other nodes alone.\<close>

lemma dseg_cong:
  "\<forall>x \<in> insert a (set xs). n' x = n x \<Longrightarrow> \<forall>x \<in> insert b (set xs). p' x = p x \<Longrightarrow>
     dseg n' p' a xs b = dseg n p a xs b"
  by (induction xs arbitrary: a) auto

lemma dll_frame_add_tail:
  assumes "dll h head xs" "dll h other zs" "set (head # xs) \<inter> set (other # zs) = {}"
    "node \<notin> set (other # zs)"
  shows "dll (list_add_tail node head h) other zs"
proof -
  from assms(1) have "prev_of h head = last (head # xs)"
    by (auto simp: dll_def dest: dseg_prev_last)
  then have "prev_of h head \<in> set (head # xs)"
    by (metis last_in_set list.distinct(1))
  with assms show ?thesis
    unfolding dll_def by (subst dseg_cong [of _ _ _ "next_of h" _ _ "prev_of h"])
      (auto simp: list_add_tail_def list_op_defs)
qed

lemma dll_frame_del:
  assumes "dll h head xs" "e \<in> set xs" "dll h other zs" "set (head # xs) \<inter> set (other # zs) = {}"
  shows "dll (list_del e h) other zs"
proof -
  from assms(2) obtain us vs where xs: "xs = us @ e # vs" by (auto simp: in_set_conv_decomp)
  with assms(1) have "prev_of h e \<in> set (head # xs)" "next_of h e \<in> set (head # xs)"
    by (cases us rule: rev_cases; cases vs; auto simp: dll_def dseg_append)+
  with assms show ?thesis
    unfolding dll_def by (subst dseg_cong [of _ _ _ "next_of h" _ _ "prev_of h"])
      (auto simp: list_del_def list_op_defs)
qed

section \<open>The queue contract\<close>

text \<open>What a client of the list (the scheduler's ready queue, the task chain, the zombie
  chain) relies on: entries are appended at the tail and removed from anywhere.\<close>

locale entry_queue =
  fixes rep :: "'s \<Rightarrow> 'k \<Rightarrow> 'a list \<Rightarrow> bool"
    and fresh :: "'k \<Rightarrow> 'a list \<Rightarrow> 'a \<Rightarrow> bool"
    and add_tail :: "'a \<Rightarrow> 'k \<Rightarrow> 's \<Rightarrow> 's"
    and del :: "'a \<Rightarrow> 's \<Rightarrow> 's"
  assumes rep_add_tail: "rep s q xs \<Longrightarrow> fresh q xs x \<Longrightarrow> rep (add_tail x q s) q (xs @ [x])"
    and rep_del: "rep s q (xs @ x # ys) \<Longrightarrow> rep (del x s) q (xs @ ys)"
    and rep_fresh: "rep s q (xs @ x # ys) \<Longrightarrow> fresh q (xs @ ys) x"
begin

text \<open>Taking an entry out and queueing it again moves it behind all others.\<close>

lemma requeue: "rep s q (xs @ x # ys) \<Longrightarrow> rep (add_tail x q (del x s)) q (xs @ ys @ [x])"
  using rep_add_tail [OF rep_del rep_fresh] by fastforce

fun rotations :: "nat \<Rightarrow> 'a list \<Rightarrow> 'k \<Rightarrow> 's \<Rightarrow> 's" where
  "rotations 0 xs q s = s"
| "rotations (Suc n) xs q s = rotations n (rotate1 xs) q (add_tail (hd xs) q (del (hd xs) s))"

lemma rep_rotations: "rep s q xs \<Longrightarrow> xs \<noteq> [] \<Longrightarrow> rep (rotations n xs q s) q (rotate n xs)"
proof (induction n arbitrary: s xs)
  case 0
  then show ?case by simp
next
  case (Suc n)
  then obtain y ys where xs: "xs = y # ys" by (cases xs) auto
  with Suc.prems(1) have "rep (add_tail y q (del y s)) q (ys @ [y])"
    using requeue [of s q "[]" y ys] by simp
  with Suc.IH [of _ "rotate1 xs"] xs show ?case
    by (simp add: rotate1_rotate_swap)
qed

text \<open>Round robin: as many requeues as there are entries restore the order.\<close>

lemma round_robin: "rep s q xs \<Longrightarrow> xs \<noteq> [] \<Longrightarrow> rep (rotations (length xs) xs q s) q xs"
  using rep_rotations [of s q xs "length xs"] by simp

end

interpretation lq: entry_queue dll "\<lambda>head xs x. x \<notin> set (head # xs)" list_add_tail list_del
proof
  fix h head and xs :: "u32 list" and x ys
  show "dll h head xs \<Longrightarrow> x \<notin> set (head # xs) \<Longrightarrow> dll (list_add_tail x head h) head (xs @ [x])"
    by (rule dll_add_tail)
  show "dll h head (xs @ x # ys) \<Longrightarrow> dll (list_del x h) head (xs @ ys)"
    by (rule dll_del)
  show "dll h head (xs @ x # ys) \<Longrightarrow> x \<notin> set (head # xs @ ys)"
    by (auto simp: dll_def)
qed

text \<open>C13. On a ring that represents \<open>xs\<close> (the ready queue, say), removing an entry \<open>x\<close>
  and appending it again with the pointer operations of list.h gives a ring that represents
  the same entries with \<open>x\<close> last, in both directions (\<open>dll\<close> asks for the \<open>next\<close> and the \<open>prev\<close> links);
  iterating over it visits exactly those entries and ends.\<close>

theorem list_requeue_correct:
  assumes "dll h head (xs @ x # ys)" "length (xs @ ys) + 1 < k"
  shows "dll (list_add_tail x head (list_del x h)) head (xs @ ys @ [x]) \<and>
    list_for_each k head (list_add_tail x head (list_del x h)) = Some (xs @ ys @ [x])"
  using lq.requeue [OF assms(1)] dll_for_each [OF lq.requeue [OF assms(1)]] assms(2) by simp

theorem list_requeue_correct_witness:
  "let h = list_add_tail 32 8 (list_add_tail 24 8 (list_add_tail 16 8 (list_init 8 \<lparr>next_of = \<lambda>_. 0, prev_of = \<lambda>_. 0\<rparr>)))
   in dll h 8 ([16] @ 24 # [32]) \<and> prev_of (list_add_tail 24 8 (list_del 24 h)) 8 = 24 \<and>
      list_for_each 5 8 (list_add_tail 24 8 (list_del 24 h)) = Some [16, 32, 24]"
proof -
  let ?h = "list_add_tail 32 8 (list_add_tail 24 8 (list_add_tail 16 8 (list_init 8 \<lparr>next_of = \<lambda>_. 0, prev_of = \<lambda>_. 0\<rparr>)))"
  have d: "dll ?h 8 ([16] @ 24 # [32])"
    by (simp add: dll_def list_init_def list_add_tail_def list_op_defs)
  show ?thesis
    using d list_requeue_correct [OF d, of 5] by (simp add: dll_def)
qed

text \<open>A node that is queued a second time while it is still the last entry becomes its
  own successor: iteration over the queue never ends, whatever the bound. This is the
  failure the scheduler's rule \<^emph>\<open>a running task is never on the ready queue\<close> prevents.\<close>

theorem list_double_add_diverges:
  assumes "dll h head (xs @ [x])"
  shows "list_for_each k head (list_add_tail x head h) = None"
proof -
  let ?h = "list_add_tail x head h"
  from assms have seg: "dseg (next_of h) (prev_of h) head xs x" and last: "prev_of h head = x"
    and dist: "x \<noteq> head" "x \<notin> set xs" "head \<notin> set xs" "distinct xs"
    by (auto simp: dll_def dseg_append)
  have nx: "next_of ?h = (next_of h)(x := x)"
    by (auto simp: list_add_tail_def list_op_defs last)
  have loop: "list_walk j x head ?h = None" for j
    by (induction j) (auto simp: nx dist)
  have "list_walk j (next_of h a) head ?h = None"
    if "dseg (next_of h) (prev_of h) a ys x" "set ys \<subseteq> set xs" "a \<noteq> x" for a ys j
    using that
  proof (induction ys arbitrary: a j)
    case Nil
    then show ?case using loop by auto
  next
    case (Cons y ys)
    show ?case
    proof (cases j)
      case (Suc i)
      from Cons.prems dist have "y \<noteq> x" "next_of h a = y" "y \<noteq> head" by auto
      with Cons Suc show ?thesis by (auto simp: nx)
    qed simp
  qed
  from this [OF seg] dist show ?thesis
    by (auto simp: list_for_each_def nx)
qed

theorem list_double_add_diverges_witness:
  "let h = list_add_tail 16 8 (list_init 8 \<lparr>next_of = \<lambda>_. 0, prev_of = \<lambda>_. 0\<rparr>)
   in dll h 8 ([] @ [16]) \<and> list_for_each 100 8 (list_add_tail 16 8 h) = None"
proof -
  let ?h = "list_add_tail 16 8 (list_init 8 \<lparr>next_of = \<lambda>_. 0, prev_of = \<lambda>_. 0\<rparr>)"
  have d: "dll ?h 8 ([] @ [16])"
    by (simp add: dll_def list_init_def list_add_tail_def list_op_defs)
  show ?thesis
    using d list_double_add_diverges [OF d, of 100] by simp
qed

end
