(* ===== verification/XE_Heap.thy ===== *)
theory XE_Heap
  imports XE_Prelude
begin

text \<open>
  The kernel heap of \<^verbatim>\<open>src/src/lib/heap.cpp\<close>: first-fit allocation over a doubly linked
  chain of block headers. A \<^verbatim>\<open>header_t\<close> at address \<open>a\<close> is the five fields
  \<open>h_magic h a\<close>, \dots, \<open>h_used h a\<close> of the store; \<open>kmalloc\<close> and \<open>kfree\<close> perform the
  header writes of the source in its order. The scan loop of \<open>kmalloc\<close> follows \<open>h_next\<close>
  without a bound, so it is a \<^theory_text>\<open>partial_function (option)\<close> and \<open>None\<close> is non-termination.
  \<open>heap_inv\<close> is the abstraction to the list of blocks that tiles the heap; the lemmas show
  that the pointer code implements first fit with splitting and coalescing on that list.
\<close>

definition HEAP_MAGIC :: u32 where "HEAP_MAGIC = 0xDEADBEEF"
definition HEADER_SIZE :: u32 where "HEADER_SIZE = 20"
definition heap_start :: u32 where "heap_start = 0x01000000"
definition heap_end :: u32 where "heap_end = 0x01F00000"

record hheap =
  h_magic :: "u32 \<Rightarrow> u32"
  h_size :: "u32 \<Rightarrow> u32"
  h_next :: "u32 \<Rightarrow> u32"
  h_prev :: "u32 \<Rightarrow> u32"
  h_used :: "u32 \<Rightarrow> u8"

definition set_magic :: "u32 \<Rightarrow> u32 \<Rightarrow> hheap \<Rightarrow> hheap" where
  "set_magic a v h = h\<lparr>h_magic := (h_magic h)(a := v)\<rparr>"
definition set_size :: "u32 \<Rightarrow> u32 \<Rightarrow> hheap \<Rightarrow> hheap" where
  "set_size a v h = h\<lparr>h_size := (h_size h)(a := v)\<rparr>"
definition set_hnext :: "u32 \<Rightarrow> u32 \<Rightarrow> hheap \<Rightarrow> hheap" where
  "set_hnext a v h = h\<lparr>h_next := (h_next h)(a := v)\<rparr>"
definition set_hprev :: "u32 \<Rightarrow> u32 \<Rightarrow> hheap \<Rightarrow> hheap" where
  "set_hprev a v h = h\<lparr>h_prev := (h_prev h)(a := v)\<rparr>"
definition set_used :: "u32 \<Rightarrow> u8 \<Rightarrow> hheap \<Rightarrow> hheap" where
  "set_used a v h = h\<lparr>h_used := (h_used h)(a := v)\<rparr>"

definition heap_init :: "hheap \<Rightarrow> hheap" where
  "heap_init h0 =
     (let h1 = set_magic heap_start HEAP_MAGIC h0;
          h2 = set_size heap_start (heap_end - heap_start) h1;
          h3 = set_hnext heap_start 0 h2;
          h4 = set_hprev heap_start 0 h3
      in set_used heap_start 0 h4)"

text \<open>The split inside \<open>kmalloc\<close>: carve \<open>needed\<close> bytes off the front of \<open>cur\<close>.\<close>

definition split_block :: "u32 \<Rightarrow> u32 \<Rightarrow> hheap \<Rightarrow> hheap" where
  "split_block cur needed h =
     (let new_h = cur + needed;
          h1 = set_magic new_h HEAP_MAGIC h;
          h2 = set_size new_h (h_size h1 cur - needed) h1;
          h3 = set_hnext new_h (h_next h2 cur) h2;
          h4 = set_hprev new_h cur h3;
          h5 = set_used new_h 0 h4;
          h6 = (if h_next h5 cur \<noteq> 0 then set_hprev (h_next h5 cur) new_h h5 else h5);
          h7 = set_hnext cur new_h h6
      in set_size cur needed h7)"

partial_function (option) kmalloc_scan :: "u32 \<Rightarrow> u32 \<Rightarrow> hheap \<Rightarrow> (u32 \<times> hheap) option" where
  "kmalloc_scan needed cur h =
     (if cur = 0 then Some (0, h)
      else if h_magic h cur \<noteq> HEAP_MAGIC then Some (0, h)
      else if h_used h cur = 0 \<and> needed \<le> h_size h cur then
        (let h1 = (if needed + HEADER_SIZE + 16 \<le> h_size h cur
                   then split_block cur needed h else h)
         in Some (cur + HEADER_SIZE, set_used cur 1 h1))
      else kmalloc_scan needed (h_next h cur) h)"

definition kmalloc :: "u32 \<Rightarrow> hheap \<Rightarrow> (u32 \<times> hheap) option" where
  "kmalloc sz h =
     (if sz = 0 then Some (0, h)
      else let needed = sz + HEADER_SIZE;
               needed' = (if needed < HEADER_SIZE + 16 then HEADER_SIZE + 16 else needed)
           in kmalloc_scan needed' heap_start h)"

text \<open>The two merges of \<open>kfree\<close>: absorb a free successor, then be absorbed by a free
  predecessor.\<close>

definition coalesce_next :: "u32 \<Rightarrow> hheap \<Rightarrow> hheap" where
  "coalesce_next b h =
     (let n = h_next h b in
      if n \<noteq> 0 \<and> h_used h n = 0 \<and> h_magic h n = HEAP_MAGIC then
        (let g1 = set_size b (h_size h b + h_size h n) h;
             g2 = set_hnext b (h_next g1 (h_next g1 b)) g1
         in if h_next g2 b \<noteq> 0 then set_hprev (h_next g2 b) b g2 else g2)
      else h)"

definition coalesce_prev :: "u32 \<Rightarrow> hheap \<Rightarrow> hheap" where
  "coalesce_prev b h =
     (let p = h_prev h b in
      if p \<noteq> 0 \<and> h_used h p = 0 \<and> h_magic h p = HEAP_MAGIC then
        (let g1 = set_size p (h_size h p + h_size h b) h;
             g2 = set_hnext p (h_next g1 b) g1
         in if h_next g2 b \<noteq> 0 then set_hprev (h_next g2 b) (h_prev g2 b) g2 else g2)
      else h)"

definition kfree :: "u32 \<Rightarrow> hheap \<Rightarrow> hheap" where
  "kfree ptr h =
     (if ptr = 0 then h
      else let b = ptr - HEADER_SIZE in
        if h_magic h b \<noteq> HEAP_MAGIC then h
        else coalesce_prev b (coalesce_next b (set_used b 0 h)))"

lemmas heap_set_defs = set_magic_def set_size_def set_hnext_def set_hprev_def set_used_def
lemmas heap_consts = HEAP_MAGIC_def HEADER_SIZE_def heap_start_def heap_end_def

section \<open>The blocks of the heap\<close>

record blk =
  addr :: u32
  bsize :: u32
  bused :: bool

text \<open>\<open>chain h prev cur bs\<close>: the header chain from \<open>cur\<close> is \<open>bs\<close>, with the back links set.\<close>

fun chain :: "hheap \<Rightarrow> u32 \<Rightarrow> u32 \<Rightarrow> blk list \<Rightarrow> bool" where
  "chain h prev cur [] = (cur = 0)"
| "chain h prev cur (b # bs) =
     (cur = addr b \<and> cur \<noteq> 0 \<and> h_magic h cur = HEAP_MAGIC \<and> h_size h cur = bsize b \<and>
      (h_used h cur = 0) = (\<not> bused b) \<and> h_prev h cur = prev \<and> chain h cur (h_next h cur) bs)"

text \<open>\<open>tiles lo bs hi\<close>: the blocks cover \<open>lo .. hi\<close> without gap or overlap, each big enough
  for a header and 16 bytes.\<close>

fun tiles :: "nat \<Rightarrow> blk list \<Rightarrow> nat \<Rightarrow> bool" where
  "tiles lo [] hi = (lo = hi)"
| "tiles lo (b # bs) hi = (unat (addr b) = lo \<and> 36 \<le> unat (bsize b) \<and> tiles (lo + unat (bsize b)) bs hi)"

fun coalesced :: "blk list \<Rightarrow> bool" where
  "coalesced (b # c # bs) = ((bused b \<or> bused c) \<and> coalesced (c # bs))"
| "coalesced _ = True"

definition heap_inv :: "hheap \<Rightarrow> blk list \<Rightarrow> bool" where
  "heap_inv h bs = (chain h 0 heap_start bs \<and> tiles (unat heap_start) bs (unat heap_end) \<and> coalesced bs)"

text \<open>The reference allocator on the block list.\<close>

fun first_fit :: "u32 \<Rightarrow> blk list \<Rightarrow> (u32 \<times> blk list) option" where
  "first_fit n [] = None"
| "first_fit n (b # bs) =
     (if \<not> bused b \<and> n \<le> bsize b then
        (if n + HEADER_SIZE + 16 \<le> bsize b
         then Some (addr b, \<lparr>addr = addr b, bsize = n, bused = True\<rparr> #
                            \<lparr>addr = addr b + n, bsize = bsize b - n, bused = False\<rparr> # bs)
         else Some (addr b, b\<lparr>bused := True\<rparr> # bs))
      else map_option (\<lambda>(a, bs'). (a, b # bs')) (first_fit n bs))"

fun merge_next :: "blk \<Rightarrow> blk list \<Rightarrow> blk list" where
  "merge_next b [] = [b]"
| "merge_next b (c # cs) = (if bused c then b # c # cs else b\<lparr>bsize := bsize b + bsize c\<rparr> # cs)"

text \<open>\<open>release xs b ys\<close>: free block \<open>b\<close> between \<open>xs\<close> and \<open>ys\<close>.\<close>

definition absorb_prev :: "blk list \<Rightarrow> blk list \<Rightarrow> blk list" where
  "absorb_prev xs zs =
     (if xs \<noteq> [] \<and> \<not> bused (last xs) then butlast xs @ merge_next (last xs) zs else xs @ zs)"

definition release :: "blk list \<Rightarrow> blk \<Rightarrow> blk list \<Rightarrow> blk list" where
  "release xs b ys = absorb_prev xs (merge_next (b\<lparr>bused := False\<rparr>) ys)"

section \<open>Facts on chains and tilings\<close>

fun hseg :: "hheap \<Rightarrow> u32 \<Rightarrow> u32 \<Rightarrow> blk list \<Rightarrow> u32 \<Rightarrow> u32 \<Rightarrow> bool" where
  "hseg h prev cur [] prev' cur' = (prev = prev' \<and> cur = cur')"
| "hseg h prev cur (b # bs) prev' cur' =
     (cur = addr b \<and> cur \<noteq> 0 \<and> h_magic h cur = HEAP_MAGIC \<and> h_size h cur = bsize b \<and>
      (h_used h cur = 0) = (\<not> bused b) \<and> h_prev h cur = prev \<and>
      hseg h cur (h_next h cur) bs prev' cur')"

lemma chain_append:
  "chain h p c (xs @ ys) \<longleftrightarrow> (\<exists>p' c'. hseg h p c xs p' c' \<and> chain h p' c' ys)"
  by (induction xs arbitrary: p c) auto

lemma hseg_append:
  "hseg h p c (xs @ ys) p' c' \<longleftrightarrow> (\<exists>q d. hseg h p c xs q d \<and> hseg h q d ys p' c')"
  by (induction xs arbitrary: p c) auto

definition same_at :: "u32 set \<Rightarrow> hheap \<Rightarrow> hheap \<Rightarrow> bool" where
  "same_at A h h' = (\<forall>x \<in> A. h_magic h' x = h_magic h x \<and> h_size h' x = h_size h x \<and>
     h_next h' x = h_next h x \<and> h_prev h' x = h_prev h x \<and> h_used h' x = h_used h x)"

lemma chain_cong: "same_at (addr ` set bs) h h' \<Longrightarrow> chain h' p c bs = chain h p c bs"
  by (induction bs arbitrary: p c) (auto simp: same_at_def)

lemma hseg_cong: "same_at (addr ` set bs) h h' \<Longrightarrow> hseg h' p c bs p' c' = hseg h p c bs p' c'"
  by (induction bs arbitrary: p c) (auto simp: same_at_def)

lemma tiles_append: "tiles lo (xs @ ys) hi \<longleftrightarrow> (\<exists>mid. tiles lo xs mid \<and> tiles mid ys hi)"
  by (induction xs arbitrary: lo) auto

lemma tiles_le: "tiles lo bs hi \<Longrightarrow> lo \<le> hi"
  by (induction bs arbitrary: lo) fastforce+

lemma tiles_block_le:
  "tiles lo bs hi \<Longrightarrow> b \<in> set bs \<Longrightarrow> lo \<le> unat (addr b) \<and> unat (addr b) + unat (bsize b) \<le> hi"
  by (induction bs arbitrary: lo) (fastforce dest: tiles_le)+

lemma tiles_block_size: "tiles lo bs hi \<Longrightarrow> b \<in> set bs \<Longrightarrow> 36 \<le> unat (bsize b)"
  by (induction bs arbitrary: lo) auto

lemma tiles_distinct: "tiles lo bs hi \<Longrightarrow> distinct (map addr bs)"
proof (induction bs arbitrary: lo)
  case (Cons b bs)
  then have "distinct (map addr bs)" by auto
  moreover have "addr b \<notin> addr ` set bs"
    using tiles_block_le [of "lo + unat (bsize b)" bs hi] Cons.prems by fastforce
  ultimately show ?case by simp
qed simp

lemma tiles_disjoint:
  assumes "tiles lo bs hi" "b \<in> set bs" "c \<in> set bs" "addr b \<noteq> addr c"
  shows "unat (addr b) + unat (bsize b) \<le> unat (addr c) \<or> unat (addr c) + unat (bsize c) \<le> unat (addr b)"
  using assms
proof (induction bs arbitrary: lo)
  case (Cons a bs)
  then have t: "tiles (lo + unat (bsize a)) bs hi" "unat (addr a) = lo" by auto
  then show ?case
    using Cons tiles_block_le [OF t(1), of b] tiles_block_le [OF t(1), of c] by auto
qed simp

section \<open>kmalloc implements first fit\<close>

text \<open>Sizes are far below the word size, so the comparisons and the address of the split
  block do not wrap.\<close>

lemma split_no_wrap:
  fixes n sz :: u32
  assumes "n \<le> sz" "unat sz \<le> 0x02000000"
  shows "n + HEADER_SIZE + 16 \<le> sz \<longleftrightarrow> unat n + 36 \<le> unat sz"
proof -
  have "unat (36 + n) = unat n + 36"
    using assms by (simp add: unat_word_ariths word_le_nat_alt)
  then show ?thesis by (simp add: HEADER_SIZE_def word_le_nat_alt)
qed

lemma first_fit_tiles:
  assumes "first_fit n bs = Some (a, bs')" "tiles lo bs hi" "hi \<le> 0x02000000" "36 \<le> unat n"
  shows "tiles lo bs' hi"
  using assms
proof (induction bs arbitrary: lo a bs')
  case (Cons b bs)
  from Cons.prems have bl: "unat (bsize b) \<le> 0x02000000" "unat (addr b) \<le> 0x02000000"
      and rest: "tiles (lo + unat (bsize b)) bs hi"
    using tiles_block_le [of lo "b # bs" hi b] by auto
  show ?case
  proof (cases "\<not> bused b \<and> n \<le> bsize b")
    case True
    then have "unat n \<le> unat (bsize b)" by (simp add: word_le_nat_alt)
    then have un: "unat (bsize b - n) = unat (bsize b) - unat n" "unat (addr b + n) = unat (addr b) + unat n"
      using bl by (auto simp: unat_sub word_le_nat_alt unat_word_ariths)
    with True Cons.prems rest show ?thesis
      using split_no_wrap [of n "bsize b"] bl
      by (auto split: if_splits)
  next
    case False
    with Cons.prems obtain cs where "first_fit n bs = Some (a, cs)" "bs' = b # cs"
      by auto
    with Cons show ?thesis by auto
  qed
qed simp

lemma first_fit_coalesced:
  "first_fit n bs = Some (a, bs') \<Longrightarrow> coalesced bs \<Longrightarrow> coalesced bs'"
proof (induction bs arbitrary: a bs' rule: coalesced.induct)
  case (1 b c bs)
  then show ?case
    by (cases "bused c"; auto split: if_splits prod.splits)
qed (auto split: if_splits)

lemma split_block_chain:
  assumes ch: "chain h p c (b # bs)" and ti: "tiles lo (b # bs) hi" "hi \<le> 0x02000000"
    and n: "36 \<le> unat n" "unat n + 36 \<le> unat (bsize b)"
  shows "chain (set_used c 1 (split_block c n h)) p c
     (\<lparr>addr = addr b, bsize = n, bused = True\<rparr> # \<lparr>addr = addr b + n, bsize = bsize b - n, bused = False\<rparr> # bs)"
    (is "chain ?h p c _")
    and "same_at {x. unat x < lo} h (set_used c 1 (split_block c n h))"
proof -
  from ch have c: "c = addr b" "c \<noteq> 0" by auto
  have bl: "unat (addr b) = lo" "lo + unat (bsize b) \<le> hi"
    using ti(1) tiles_block_le [of lo "b # bs" hi b] by auto
  have nw: "unat (c + n) = lo + unat n"
    using bl c n ti(2) by (simp add: unat_word_ariths)
  have far: "lo + unat (bsize b) \<le> unat (addr d)" if "d \<in> set bs" for d
    using tiles_block_le [of "lo + unat (bsize b)" bs hi d] ti(1) that by auto
  have "unat c = lo" using bl c by simp
  then have "unat c < unat (c + n)" using nw n(1) by linarith
  then have cn: "c \<noteq> c + n" "c + n \<noteq> 0" by auto
  have out: "addr d \<noteq> c" "addr d \<noteq> c + n" if "d \<in> set bs" for d
    using far [OF that] nw n bl c by auto
  show "same_at {x. unat x < lo} h ?h"
    using bl c nw far [of "hd bs"] ch
    by (cases bs) (auto simp: same_at_def split_block_def heap_set_defs Let_def)
  show "chain ?h p c (\<lparr>addr = addr b, bsize = n, bused = True\<rparr> # \<lparr>addr = addr b + n, bsize = bsize b - n, bused = False\<rparr> # bs)"
  proof (cases bs)
    case Nil
    with ch c cn show ?thesis by (auto simp: split_block_def heap_set_defs Let_def)
  next
    case (Cons d ds)
    from ti(1) have "distinct (map addr (b # bs))" by (rule tiles_distinct)
    then have "\<forall>x \<in> set ds. addr x \<noteq> addr d" using Cons by (auto simp: image_iff)
    then have "same_at (addr ` set ds) h ?h"
      using out Cons ch by (auto simp: same_at_def split_block_def heap_set_defs Let_def)
    then have "chain ?h q e ds = chain h q e ds" for q e by (rule chain_cong)
    with Cons ch c cn out [of d] show ?thesis
      by (auto simp: split_block_def heap_set_defs Let_def)
  qed
qed

lemma use_block_chain:
  assumes "chain h p c (b # bs)" "tiles lo (b # bs) hi"
  shows "chain (set_used c 1 h) p c (b\<lparr>bused := True\<rparr> # bs)"
    and "same_at {x. unat x < lo} h (set_used c 1 h)"
proof -
  from assms have "\<forall>x \<in> set bs. addr x \<noteq> addr b"
    using tiles_distinct [OF assms(2)] by (auto simp: image_iff)
  then have "same_at (addr ` set bs) h (set_used c 1 h)"
    using assms(1) by (auto simp: same_at_def heap_set_defs)
  then have "chain (set_used c 1 h) q e bs = chain h q e bs" for q e by (rule chain_cong)
  with assms(1) show "chain (set_used c 1 h) p c (b\<lparr>bused := True\<rparr> # bs)"
    by (auto simp: heap_set_defs)
  show "same_at {x. unat x < lo} h (set_used c 1 h)"
    using assms by (auto simp: same_at_def heap_set_defs)
qed

lemma kmalloc_scan_first_fit:
  assumes "chain h p c bs" "tiles lo bs hi" "hi \<le> 0x02000000" "36 \<le> unat n"
  shows "case first_fit n bs of
      None \<Rightarrow> kmalloc_scan n c h = Some (0, h)
    | Some (a, bs') \<Rightarrow> \<exists>h'. kmalloc_scan n c h = Some (a + HEADER_SIZE, h') \<and>
        chain h' p c bs' \<and> same_at {x. unat x < lo} h h'"
  using assms
proof (induction bs arbitrary: p c lo)
  case Nil
  then show ?case by (simp add: kmalloc_scan.simps)
next
  case (Cons b bs)
  then have c: "c = addr b" "c \<noteq> 0" "h_magic h c = HEAP_MAGIC" "h_size h c = bsize b"
      "(h_used h c = 0) = (\<not> bused b)" and tl: "chain h c (h_next h c) bs"
    and ti: "unat (addr b) = lo" "tiles (lo + unat (bsize b)) bs hi" "36 \<le> unat (bsize b)"
    by auto
  have sz: "unat (bsize b) \<le> 0x02000000"
    using tiles_block_le [OF Cons.prems(2), of b] Cons.prems(3) by simp
  show ?case
  proof (cases "\<not> bused b \<and> n \<le> bsize b")
    case True
    then have nb: "n + HEADER_SIZE + 16 \<le> bsize b \<longleftrightarrow> unat n + 36 \<le> unat (bsize b)"
      using split_no_wrap sz by blast
    show ?thesis
    proof (cases "unat n + 36 \<le> unat (bsize b)")
      case fits: True
      with split_block_chain [OF Cons.prems(1-4) fits] True c nb show ?thesis
        by (simp add: kmalloc_scan.simps Let_def del: chain.simps)
    next
      case False
      with use_block_chain [OF Cons.prems(1,2)] True c nb show ?thesis
        by (simp add: kmalloc_scan.simps Let_def del: chain.simps)
    qed
  next
    case False
    then have step: "kmalloc_scan n c h = kmalloc_scan n (h_next h c) h"
      using c by (subst kmalloc_scan.simps) auto
    note IH = Cons.IH [OF tl ti(2) Cons.prems(3,4)]
    show ?thesis
    proof (cases "first_fit n bs")
      case None
      with IH step False show ?thesis by auto
    next
      case (Some r)
      obtain a bs' where r: "r = (a, bs')" by (cases r)
      with IH Some obtain h' where h': "kmalloc_scan n (h_next h c) h = Some (a + HEADER_SIZE, h')"
          "chain h' c (h_next h c) bs'" "same_at {x. unat x < lo + unat (bsize b)} h h'"
        by auto
      from h'(3) ti c have "chain h' p c (b # bs')" "same_at {x. unat x < lo} h h'"
        using h'(2) Cons.prems(1) by (auto simp: same_at_def)
      with Some r h' step False show ?thesis by auto
    qed
  qed
qed

section \<open>kfree implements release\<close>

lemma merge_next_addr_hd: "addr (hd (merge_next b ys)) = addr b"
  by (cases ys) auto

lemma coalesce_next_chain:
  assumes "chain h p c (xs @ b # ys)" "distinct (map addr (xs @ b # ys))" "\<not> bused b"
  shows "chain (coalesce_next (addr b) h) p c (xs @ merge_next b ys)"
proof (cases "ys \<noteq> [] \<and> \<not> bused (hd ys)")
  case False
  with assms(1) have "coalesce_next (addr b) h = h" "merge_next b ys = b # ys"
    by (cases ys; auto simp: chain_append coalesce_next_def Let_def)+
  with assms(1) show ?thesis by simp
next
  case True
  then obtain d zs where ys: "ys = d # zs" "\<not> bused d" by (cases ys) auto
  let ?h = "coalesce_next (addr b) h"
  from assms(1) ys obtain q where xs: "hseg h p c xs q (addr b)"
    and b: "addr b \<noteq> 0" "h_magic h (addr b) = HEAP_MAGIC" "h_size h (addr b) = bsize b"
      "h_used h (addr b) = 0" "h_prev h (addr b) = q" "h_next h (addr b) = addr d"
    and d: "addr d \<noteq> 0" "h_magic h (addr d) = HEAP_MAGIC" "h_size h (addr d) = bsize d"
      "h_used h (addr d) = 0" and zs: "chain h (addr d) (h_next h (addr d)) zs"
    using assms(3) by (auto simp: chain_append)
  from assms(2) ys have nb: "\<forall>x \<in> set xs. addr x \<noteq> addr b" "\<forall>x \<in> set zs. addr x \<noteq> addr b" "addr b \<noteq> addr d"
      "\<forall>x \<in> set xs. \<forall>y \<in> set zs. addr x \<noteq> addr y" "distinct (map addr zs)"
    by (auto simp: image_iff)
  have h: "?h = (let g = set_hnext (addr b) (h_next h (addr d)) (set_size (addr b) (bsize b + bsize d) h)
                 in if h_next h (addr d) \<noteq> 0 then set_hprev (h_next h (addr d)) (addr b) g else g)"
    using b d nb by (auto simp: coalesce_next_def heap_set_defs Let_def)
  have hd_zs: "h_next h (addr d) = 0 \<and> zs = [] \<or> (\<exists>z ws. zs = z # ws \<and> h_next h (addr d) = addr z)"
    using zs by (cases zs) auto
  have "same_at (addr ` set xs) h ?h"
    using hd_zs nb by (auto simp: h same_at_def heap_set_defs Let_def)
  then have xs': "hseg ?h p c xs q (addr b)" using xs by (simp add: hseg_cong)
  have zs': "chain ?h (addr b) (h_next h (addr d)) zs"
  proof (cases zs)
    case Nil
    with zs show ?thesis by simp
  next
    case (Cons z ws)
    with nb(5) have "\<forall>x \<in> set ws. addr x \<noteq> addr z" by (auto simp: image_iff)
    with Cons nb hd_zs have "same_at (addr ` set ws) h ?h"
      by (auto simp: h same_at_def heap_set_defs Let_def)
    then have "chain ?h u v ws = chain h u v ws" for u v by (rule chain_cong)
    with Cons zs nb show ?thesis by (auto simp: h heap_set_defs Let_def)
  qed
  have "chain ?h q (addr b) (merge_next b ys)"
    using ys b d zs' nb assms(3) hd_zs by (auto simp: h heap_set_defs Let_def)
  with xs' show ?thesis by (auto simp: chain_append)
qed

lemma hseg_end: "hseg h p c (xs @ [a]) q d \<Longrightarrow> q = addr a \<and> d = h_next h (addr a)"
  by (auto simp: hseg_append)

lemma coalesce_prev_chain:
  assumes "chain h 0 c (xs @ b # ys)" "distinct (map addr (xs @ b # ys))"
  shows "chain (coalesce_prev (addr b) h) 0 c
     (if xs \<noteq> [] \<and> \<not> bused (last xs)
      then butlast xs @ (last xs)\<lparr>bsize := bsize (last xs) + bsize b\<rparr> # ys else xs @ b # ys)"
proof (cases "xs \<noteq> [] \<and> \<not> bused (last xs)")
  case False
  have "coalesce_prev (addr b) h = h"
    using False assms(1)
    by (cases xs rule: rev_cases) (auto simp: chain_append hseg_append coalesce_prev_def Let_def)
  with False assms(1) show ?thesis by auto
next
  case True
  then obtain us a where xs: "xs = us @ [a]" "\<not> bused a" by (cases xs rule: rev_cases) auto
  let ?h = "coalesce_prev (addr b) h"
  define q where "q = h_prev h (addr a)"
  from assms(1) xs have us: "hseg h 0 c us q (addr a)"
    and a: "addr a \<noteq> 0" "h_magic h (addr a) = HEAP_MAGIC" "h_size h (addr a) = bsize a"
      "h_used h (addr a) = 0" "h_prev h (addr a) = q" "h_next h (addr a) = addr b"
    and b: "h_size h (addr b) = bsize b" "h_prev h (addr b) = addr a"
    and ys: "chain h (addr b) (h_next h (addr b)) ys"
    by (auto simp: chain_append hseg_append q_def)
  from assms(2) xs have nb: "\<forall>x \<in> set us. addr x \<noteq> addr a" "\<forall>x \<in> set ys. addr x \<noteq> addr a" "addr b \<noteq> addr a"
      "\<forall>x \<in> set ys. addr x \<noteq> addr b" "\<forall>x \<in> set us. \<forall>y \<in> set ys. addr x \<noteq> addr y" "distinct (map addr ys)"
    by (auto simp: image_iff)
  have h: "?h = (let g = set_hnext (addr a) (h_next h (addr b)) (set_size (addr a) (bsize a + bsize b) h)
                 in if h_next h (addr b) \<noteq> 0 then set_hprev (h_next h (addr b)) (addr a) g else g)"
    using a b nb by (auto simp: coalesce_prev_def heap_set_defs Let_def)
  have hd_ys: "h_next h (addr b) = 0 \<and> ys = [] \<or> (\<exists>z ws. ys = z # ws \<and> h_next h (addr b) = addr z)"
    using ys by (cases ys) auto
  have "same_at (addr ` set us) h ?h"
    using hd_ys nb by (auto simp: h same_at_def heap_set_defs Let_def)
  then have us': "hseg ?h 0 c us q (addr a)" using us by (simp add: hseg_cong)
  have ys': "chain ?h (addr a) (h_next h (addr b)) ys"
  proof (cases ys)
    case Nil
    with ys show ?thesis by simp
  next
    case (Cons z ws)
    with nb have "\<forall>x \<in> set ws. addr x \<noteq> addr z" by (auto simp: image_iff)
    with Cons nb hd_ys have "same_at (addr ` set ws) h ?h"
      by (auto simp: h same_at_def heap_set_defs Let_def)
    then have "chain ?h u v ws = chain h u v ws" for u v by (rule chain_cong)
    with Cons ys nb show ?thesis by (auto simp: h heap_set_defs Let_def)
  qed
  have "chain ?h q (addr a) (a\<lparr>bsize := bsize a + bsize b\<rparr> # ys)"
    using a ys' nb xs(2) hd_ys by (auto simp: h heap_set_defs Let_def)
  with us' show ?thesis using xs by (auto simp: chain_append)
qed

lemma unuse_chain:
  assumes "chain h p c (xs @ b # ys)" "distinct (map addr (xs @ b # ys))"
  shows "chain (set_used (addr b) 0 h) p c (xs @ b\<lparr>bused := False\<rparr> # ys)"
proof -
  let ?h = "set_used (addr b) 0 h"
  from assms(2) have "\<forall>x \<in> set xs \<union> set ys. addr x \<noteq> addr b" by (auto simp: image_iff)
  then have "same_at (addr ` set xs) h ?h" "same_at (addr ` set ys) h ?h"
    by (auto simp: same_at_def heap_set_defs)
  with assms(1) show ?thesis
    by (auto simp: chain_append hseg_cong chain_cong) (auto simp: heap_set_defs)
qed

lemma merge_next_addrs: "set (map addr (merge_next b ys)) \<subseteq> set (map addr (b # ys))"
  by (cases ys) auto

lemma merge_next_distinct:
  "distinct (map addr (xs @ b # ys)) \<Longrightarrow> distinct (map addr (xs @ merge_next b ys))"
  by (cases ys) auto

lemma kfree_release:
  assumes "chain h 0 c (xs @ b # ys)" "distinct (map addr (xs @ b # ys))" "addr b + HEADER_SIZE \<noteq> 0"
  shows "chain (kfree (addr b + HEADER_SIZE) h) 0 c (release xs b ys)"
proof -
  let ?b = "b\<lparr>bused := False\<rparr>"
  have magic: "h_magic h (addr b) = HEAP_MAGIC" using assms(1) by (auto simp: chain_append)
  have "chain (set_used (addr b) 0 h) 0 c (xs @ ?b # ys)"
    by (rule unuse_chain [OF assms(1,2)])
  then have n: "chain (coalesce_next (addr b) (set_used (addr b) 0 h)) 0 c (xs @ merge_next ?b ys)"
    using coalesce_next_chain [of _ 0 c xs ?b ys] assms(2) by simp
  obtain b' zs where m: "merge_next ?b ys = b' # zs" "addr b' = addr b" "\<not> bused b'"
    by (cases ys; cases "bused (hd ys)") auto
  have "distinct (map addr (xs @ b' # zs))"
    using merge_next_distinct [of xs ?b ys] assms(2) m by simp
  with coalesce_prev_chain [of _ c xs b' zs] n m
  have "chain (coalesce_prev (addr b) (coalesce_next (addr b) (set_used (addr b) 0 h))) 0 c (release xs b ys)"
    by (auto simp: release_def absorb_prev_def split: if_splits)
  then show ?thesis using assms(3) magic by (simp add: kfree_def Let_def)
qed

section \<open>The invariant is kept\<close>

lemma merge_next_tiles:
  "tiles lo (b # ys) hi \<Longrightarrow> hi \<le> 0x02000000 \<Longrightarrow> tiles lo (merge_next b ys) hi"
proof (cases ys)
  case (Cons c cs)
  assume t: "tiles lo (b # ys) hi" "hi \<le> 0x02000000"
  have "unat (bsize b) + unat (bsize c) \<le> hi"
    using t Cons tiles_block_le [of "lo + unat (bsize b)" ys hi c] by auto
  then have "unat (bsize b + bsize c) = unat (bsize b) + unat (bsize c)"
    using t(2) by (simp add: unat_word_ariths)
  with t Cons show ?thesis by (auto simp: add.assoc)
qed simp

lemma release_tiles:
  assumes "tiles lo (xs @ b # ys) hi" "hi \<le> 0x02000000"
  shows "tiles lo (release xs b ys) hi"
proof -
  let ?m = "merge_next (b\<lparr>bused := False\<rparr>) ys"
  from assms have t: "tiles lo (xs @ ?m) hi"
    by (auto simp: tiles_append merge_next_tiles simp del: merge_next.simps)
  show ?thesis
  proof (cases xs rule: rev_cases)
    case (snoc us a)
    with t assms(2) show ?thesis
      by (auto simp: release_def absorb_prev_def tiles_append merge_next_tiles simp del: merge_next.simps tiles.simps)
  qed (use t in \<open>simp add: release_def absorb_prev_def\<close>)
qed

lemma coalesced_Cons:
  "coalesced (b # bs) \<longleftrightarrow> coalesced bs \<and> (bs \<noteq> [] \<longrightarrow> bused b \<or> bused (hd bs))"
  by (cases bs) auto

lemma coalesced_append:
  "coalesced (xs @ ys) \<longleftrightarrow>
     coalesced xs \<and> coalesced ys \<and> (xs \<noteq> [] \<and> ys \<noteq> [] \<longrightarrow> bused (last xs) \<or> bused (hd ys))"
  by (induction xs) (auto simp: coalesced_Cons hd_append)

lemma release_coalesced:
  "coalesced (xs @ b # ys) \<Longrightarrow> coalesced (release xs b ys)"
proof (cases xs rule: rev_cases)
  case Nil
  assume "coalesced (xs @ b # ys)"
  with Nil show ?thesis
    by (cases ys) (auto simp: release_def absorb_prev_def coalesced_Cons)
next
  case (snoc us a)
  assume "coalesced (xs @ b # ys)"
  with snoc show ?thesis
    by (cases ys) (auto simp: release_def absorb_prev_def coalesced_Cons coalesced_append)
qed

lemma heap_bounds [simp]: "unat heap_end \<le> 0x02000000" "unat heap_start = 0x01000000"
  by (simp_all add: heap_consts)

lemma heap_inv_distinct: "heap_inv h bs \<Longrightarrow> distinct (map addr bs)"
  unfolding heap_inv_def using tiles_distinct by blast

lemma heap_init_inv:
  "heap_inv (heap_init h0) [\<lparr>addr = heap_start, bsize = heap_end - heap_start, bused = False\<rparr>]"
  by (simp add: heap_inv_def heap_init_def heap_set_defs heap_consts Let_def)

definition request :: "u32 \<Rightarrow> u32" where
  "request sz = (if sz + HEADER_SIZE < HEADER_SIZE + 16 then HEADER_SIZE + 16 else sz + HEADER_SIZE)"

lemma request_ge: "36 \<le> unat (request sz)"
  by (auto simp: request_def HEADER_SIZE_def word_less_nat_alt not_less)

lemma kmalloc_refines:
  assumes "heap_inv h bs" "sz \<noteq> 0"
  shows "case first_fit (request sz) bs of
      None \<Rightarrow> kmalloc sz h = Some (0, h)
    | Some (a, bs') \<Rightarrow> \<exists>h'. kmalloc sz h = Some (a + HEADER_SIZE, h') \<and> heap_inv h' bs'"
proof -
  have k: "kmalloc sz h = kmalloc_scan (request sz) heap_start h"
    using assms(2) by (simp add: kmalloc_def request_def Let_def)
  from assms(1) have inv: "chain h 0 heap_start bs" "tiles (unat heap_start) bs (unat heap_end)" "coalesced bs"
    by (auto simp: heap_inv_def)
  note scan = kmalloc_scan_first_fit [OF inv(1,2) heap_bounds(1) request_ge]
  show ?thesis
  proof (cases "first_fit (request sz) bs")
    case None
    with scan [of sz] k show ?thesis by simp
  next
    case (Some r)
    obtain a bs' where r: "r = (a, bs')" by (cases r)
    with Some inv have "tiles (unat heap_start) bs' (unat heap_end)" "coalesced bs'"
      using first_fit_tiles [OF _ inv(2) heap_bounds(1) request_ge] first_fit_coalesced by blast+
    with scan [of sz] k Some r show ?thesis by (auto simp: heap_inv_def)
  qed
qed

lemma kfree_refines:
  assumes "heap_inv h (xs @ b # ys)"
  shows "heap_inv (kfree (addr b + HEADER_SIZE) h) (release xs b ys)"
proof -
  from assms have inv: "chain h 0 heap_start (xs @ b # ys)" "tiles (unat heap_start) (xs @ b # ys) (unat heap_end)"
      "coalesced (xs @ b # ys)"
    by (auto simp: heap_inv_def)
  have "unat (addr b) \<le> 0x02000000"
    using tiles_block_le [OF inv(2), of b] heap_bounds(1) by (simp del: heap_bounds)
  then have "unat (addr b + HEADER_SIZE) \<noteq> 0"
    by (simp add: HEADER_SIZE_def unat_word_ariths)
  then have "addr b + HEADER_SIZE \<noteq> 0" by auto
  with inv show ?thesis
    unfolding heap_inv_def
    using kfree_release [OF inv(1) tiles_distinct [OF inv(2)]] release_tiles [OF inv(2)] release_coalesced
    by simp
qed

text \<open>Where first fit finds its block, and what freeing it again gives.\<close>

lemma first_fit_decomp:
  assumes "first_fit n bs = Some (a, bs')"
  shows "\<exists>xs b ys. bs = xs @ b # ys \<and> addr b = a \<and> \<not> bused b \<and> n \<le> bsize b \<and>
     bs' = xs @ (if n + HEADER_SIZE + 16 \<le> bsize b
                 then [\<lparr>addr = a, bsize = n, bused = True\<rparr>, \<lparr>addr = a + n, bsize = bsize b - n, bused = False\<rparr>]
                 else [b\<lparr>bused := True\<rparr>]) @ ys"
  using assms
proof (induction bs arbitrary: bs')
  case (Cons b bs)
  show ?case
  proof (cases "\<not> bused b \<and> n \<le> bsize b")
    case True
    with Cons.prems show ?thesis
      by (intro exI [of _ "[]"] exI [of _ b] exI [of _ bs]) (auto split: if_splits)
  next
    case False
    with Cons.prems obtain cs where cs: "first_fit n bs = Some (a, cs)" "bs' = b # cs"
      by auto
    from Cons.IH [OF cs(1)] obtain xs c ys where "bs = xs @ c # ys" "addr c = a" "\<not> bused c" "n \<le> bsize c"
      "cs = xs @ (if n + HEADER_SIZE + 16 \<le> bsize c
                 then [\<lparr>addr = a, bsize = n, bused = True\<rparr>, \<lparr>addr = a + n, bsize = bsize c - n, bused = False\<rparr>]
                 else [c\<lparr>bused := True\<rparr>]) @ ys"
      by blast
    with cs(2) show ?thesis
      by (intro exI [of _ "b # xs"] exI [of _ c] exI [of _ ys]) simp
  qed
qed simp

section \<open>The allocator contract\<close>

text \<open>What the rest of the kernel relies on: a request gives a null pointer and changes
  nothing, or a region of the requested length disjoint from every live one; freeing a live
  region ends its life and no other. \<open>limit\<close> bounds the requests for which the length holds.\<close>

locale allocator =
  fixes rep :: "'s \<Rightarrow> (u32 \<times> nat) set \<Rightarrow> bool"
    and alloc :: "u32 \<Rightarrow> 's \<Rightarrow> (u32 \<times> 's) option"
    and free :: "u32 \<Rightarrow> 's \<Rightarrow> 's"
    and limit :: nat
  assumes alloc_cases: "rep s L \<Longrightarrow> n \<noteq> 0 \<Longrightarrow> alloc n s = Some (0, s) \<or>
      (\<exists>p len s'. alloc n s = Some (p, s') \<and> p \<noteq> 0 \<and> p \<notin> fst ` L \<and> rep s' (insert (p, len) L) \<and>
        (unat n \<le> limit \<longrightarrow> unat n \<le> len))"
    and free_live: "rep s L \<Longrightarrow> (p, len) \<in> L \<Longrightarrow> rep (free p s) (L - {(p, len)})"
    and live_disjoint: "rep s L \<Longrightarrow> (p, l) \<in> L \<Longrightarrow> (q, k) \<in> L \<Longrightarrow> p \<noteq> q \<Longrightarrow>
      unat p + l \<le> unat q \<or> unat q + k \<le> unat p"
begin

lemma alloc_total: "rep s L \<Longrightarrow> n \<noteq> 0 \<Longrightarrow> \<exists>p s'. alloc n s = Some (p, s')"
  using alloc_cases by blast

text \<open>Undoing a successful request (the error paths of task creation, fork and open).\<close>

lemma alloc_rollback:
  assumes "rep s L" "n \<noteq> 0" "alloc n s = Some (p, s')" "p \<noteq> 0"
  shows "rep (free p s') L"
proof -
  from alloc_cases [OF assms(1,2)] assms(3,4) obtain len where
    "p \<notin> fst ` L" "rep s' (insert (p, len) L)" by auto
  moreover from this(1) have "insert (p, len) L - {(p, len)} = L" by force
  ultimately show ?thesis using free_live [of s' "insert (p, len) L" p len] by auto
qed

text \<open>The client's view: a set \<open>A\<close> of addresses it holds, all of them live.\<close>

lemma alloc_held:
  assumes "rep s L" "A \<subseteq> fst ` L" "n \<noteq> 0" "alloc n s = Some (p, s')"
  shows "p \<notin> A \<or> p = 0" "\<exists>L'. rep s' L' \<and> (if p = 0 then A else insert p A) \<subseteq> fst ` L'"
proof -
  from alloc_cases [OF assms(1,3)] assms(4) consider "p = 0" "s' = s" |
    len where "p \<noteq> 0" "p \<notin> fst ` L" "rep s' (insert (p, len) L)" by auto
  then show "p \<notin> A \<or> p = 0" "\<exists>L'. rep s' L' \<and> (if p = 0 then A else insert p A) \<subseteq> fst ` L'"
    using assms(1,2) by (cases; fastforce)+
qed

lemma free_held:
  assumes "rep s L" "insert p A \<subseteq> fst ` L"
  shows "\<exists>L'. rep (free p s) L' \<and> A - {p} \<subseteq> fst ` L'"
proof -
  from assms(2) obtain len where len: "(p, len) \<in> L" by auto
  then have "A - {p} \<subseteq> fst ` (L - {(p, len)})" using assms(2) by force
  with free_live [OF assms(1) len] show ?thesis by blast
qed

text \<open>Two regions handed out one after the other do not overlap.\<close>

lemma alloc_twice_disjoint:
  assumes "rep s L" "n \<noteq> 0" "m \<noteq> 0" "unat n \<le> limit" "unat m \<le> limit"
    "alloc n s = Some (p, s')" "p \<noteq> 0" "alloc m s' = Some (q, s'')" "q \<noteq> 0"
  shows "unat p + unat n \<le> unat q \<or> unat q + unat m \<le> unat p"
proof -
  from alloc_cases [OF assms(1,2)] assms(4,6,7) obtain k where
    k: "rep s' (insert (p, k) L)" "unat n \<le> k" by auto
  from alloc_cases [OF k(1) assms(3)] assms(5,8,9) obtain l where
    l: "rep s'' (insert (q, l) (insert (p, k) L))" "unat m \<le> l" "q \<noteq> p" by auto
  from live_disjoint [OF l(1), of p k q l] l(2,3) k(2) show ?thesis by auto
qed

end

definition live_of :: "blk list \<Rightarrow> (u32 \<times> nat) set" where
  "live_of bs = (\<lambda>b. (addr b + HEADER_SIZE, unat (bsize b) - 20)) ` {b \<in> set bs. bused b}"

lemma live_of_simps [simp]:
  "live_of [] = {}"
  "live_of (b # bs) = (if bused b then insert (addr b + HEADER_SIZE, unat (bsize b) - 20) (live_of bs)
                       else live_of bs)"
  "live_of (xs @ ys) = live_of xs \<union> live_of ys"
  by (auto simp: live_of_def)

definition heap_live :: "hheap \<Rightarrow> (u32 \<times> nat) set \<Rightarrow> bool" where
  "heap_live h L = (\<exists>bs. heap_inv h bs \<and> L = live_of bs)"

lemma request_exact: "unat sz \<le> 0xFFFFFFEB \<Longrightarrow> unat sz + 20 \<le> unat (request sz)"
  by (auto simp: request_def HEADER_SIZE_def word_less_nat_alt unat_word_ariths)

lemma heap_inv_block:
  assumes "heap_inv h bs" "b \<in> set bs"
  shows "0x01000000 \<le> unat (addr b)" "unat (addr b) + unat (bsize b) \<le> unat heap_end" "36 \<le> unat (bsize b)"
    "unat (addr b + HEADER_SIZE) = unat (addr b) + 20"
proof -
  from assms(1) have t: "tiles (unat heap_start) bs (unat heap_end)" by (simp add: heap_inv_def)
  show b: "0x01000000 \<le> unat (addr b)" "unat (addr b) + unat (bsize b) \<le> unat heap_end"
    using tiles_block_le [OF t assms(2)] by auto
  show "36 \<le> unat (bsize b)" by (rule tiles_block_size [OF t assms(2)])
  show "unat (addr b + HEADER_SIZE) = unat (addr b) + 20"
    using b(2) heap_bounds(1) by (simp add: HEADER_SIZE_def unat_word_ariths del: heap_bounds)
qed

lemma first_fit_live:
  assumes inv: "heap_inv h bs" "heap_inv h' bs'" and ff: "first_fit n bs = Some (a, bs')"
    and n: "36 \<le> unat n"
  shows "\<exists>len. unat n \<le> len + 20 \<and> live_of bs' = insert (a + HEADER_SIZE, len) (live_of bs) \<and>
     a + HEADER_SIZE \<notin> fst ` live_of bs \<and> a + HEADER_SIZE \<noteq> 0"
proof -
  from first_fit_decomp [OF ff] obtain xs b ys where d: "bs = xs @ b # ys" "addr b = a" "\<not> bused b" "n \<le> bsize b"
    and bs': "bs' = xs @ (if n + HEADER_SIZE + 16 \<le> bsize b
       then [\<lparr>addr = a, bsize = n, bused = True\<rparr>, \<lparr>addr = a + n, bsize = bsize b - n, bused = False\<rparr>]
       else [b\<lparr>bused := True\<rparr>]) @ ys" by blast
  from heap_inv_distinct [OF inv(1)] d(1) have "distinct (map addr (xs @ b # ys))"
    by simp
  then have "a + HEADER_SIZE \<notin> fst ` live_of bs"
    using d by (auto simp: live_of_def image_iff)
  moreover have "a + HEADER_SIZE \<noteq> 0"
    using heap_inv_block [OF inv(1), of b] d by auto
  moreover have "\<exists>len. unat n \<le> len + 20 \<and> live_of bs' = insert (a + HEADER_SIZE, len) (live_of bs)"
  proof (cases "n + HEADER_SIZE + 16 \<le> bsize b")
    case True
    with bs' d n show ?thesis
      by (intro exI [of _ "unat n - 20"]) auto
  next
    case False
    have "unat n \<le> unat (bsize b)" using d(4) by (simp add: word_le_nat_alt)
    with False bs' d n show ?thesis
      by (intro exI [of _ "unat (bsize b) - 20"]) auto
  qed
  ultimately show ?thesis by blast
qed

lemma release_live:
  assumes "distinct (map addr (xs @ b # ys))" "bused b"
  shows "live_of (release xs b ys) = live_of (xs @ b # ys) - {(addr b + HEADER_SIZE, unat (bsize b) - 20)}"
proof -
  have "live_of (absorb_prev xs zs) = live_of xs \<union> live_of zs" if "zs \<noteq> []" "\<not> bused (hd zs)" for zs
    using that by (cases xs rule: rev_cases; cases zs) (auto simp: absorb_prev_def live_of_def)
  moreover have "live_of (merge_next (b\<lparr>bused := False\<rparr>) ys) = live_of ys"
    "merge_next (b\<lparr>bused := False\<rparr>) ys \<noteq> []" "\<not> bused (hd (merge_next (b\<lparr>bused := False\<rparr>) ys))"
    by (cases ys; auto simp: live_of_def)+
  ultimately have "live_of (release xs b ys) = live_of xs \<union> live_of ys"
    by (simp add: release_def)
  moreover have "(addr b + HEADER_SIZE, l) \<notin> live_of xs \<union> live_of ys" for l
    using assms(1) by (auto simp: live_of_def image_iff)
  moreover have "live_of (xs @ b # ys) = insert (addr b + HEADER_SIZE, unat (bsize b) - 20) (live_of xs \<union> live_of ys)"
    using assms(2) by (auto simp: live_of_def)
  ultimately show ?thesis by auto
qed

interpretation kheap: allocator heap_live kmalloc kfree "0xFFFFFFEB"
proof
  fix h L and n :: u32
  assume "heap_live h L" and n: "n \<noteq> 0"
  then obtain bs where bs: "heap_inv h bs" "L = live_of bs" by (auto simp: heap_live_def)
  show "kmalloc n h = Some (0, h) \<or>
      (\<exists>p len s'. kmalloc n h = Some (p, s') \<and> p \<noteq> 0 \<and> p \<notin> fst ` L \<and> heap_live s' (insert (p, len) L) \<and>
        (unat n \<le> 0xFFFFFFEB \<longrightarrow> unat n \<le> len))"
  proof (cases "first_fit (request n) bs")
    case None
    with kmalloc_refines [OF bs(1) n] show ?thesis by simp
  next
    case (Some r)
    obtain a bs' where r: "r = (a, bs')" by (cases r)
    with Some kmalloc_refines [OF bs(1) n] obtain h' where
      h': "kmalloc n h = Some (a + HEADER_SIZE, h')" "heap_inv h' bs'" by auto
    from first_fit_live [OF bs(1) h'(2), of "request n" a] Some r request_ge obtain len where
      "unat (request n) \<le> len + 20" "live_of bs' = insert (a + HEADER_SIZE, len) (live_of bs)"
      "a + HEADER_SIZE \<notin> fst ` live_of bs" "a + HEADER_SIZE \<noteq> 0" by auto
    moreover have "unat n \<le> 0xFFFFFFEB \<longrightarrow> unat n + 20 \<le> unat (request n)"
      using request_exact by blast
    ultimately show ?thesis
      using h' bs(2) by (intro disjI2 exI [of _ "a + HEADER_SIZE"] exI [of _ len] exI [of _ h'])
        (auto simp: heap_live_def)
  qed
next
  fix h L p len
  assume "heap_live h L" and p: "(p, len) \<in> L"
  then obtain bs where bs: "heap_inv h bs" "L = live_of bs" by (auto simp: heap_live_def)
  with p obtain xs b ys where b: "bs = xs @ b # ys" "bused b" "p = addr b + HEADER_SIZE" "len = unat (bsize b) - 20"
    by (auto simp: live_of_def in_set_conv_decomp)
  have "distinct (map addr bs)" by (rule heap_inv_distinct [OF bs(1)])
  with b bs kfree_refines [of h xs b ys] release_live [of xs b ys]
  show "heap_live (kfree p h) (L - {(p, len)})"
    by (auto simp: heap_live_def)
next
  fix h L p l q k
  assume "heap_live h L" "(p, l) \<in> L" "(q, k) \<in> L" "p \<noteq> q"
  then obtain bs b c where bs: "heap_inv h bs" "b \<in> set bs" "c \<in> set bs" "addr b \<noteq> addr c"
    and e: "p = addr b + HEADER_SIZE" "l = unat (bsize b) - 20" "q = addr c + HEADER_SIZE" "k = unat (bsize c) - 20"
    by (auto simp: heap_live_def live_of_def)
  from bs(1) have t: "tiles (unat heap_start) bs (unat heap_end)" by (simp add: heap_inv_def)
  from tiles_disjoint [OF t bs(2-4)] heap_inv_block [OF bs(1,2)] heap_inv_block [OF bs(1,3)]
  show "unat p + l \<le> unat q \<or> unat q + k \<le> unat p"
    unfolding e by linarith
qed

text \<open>The heap has exactly one set of live regions, and freeing a live address removes exactly its region.\<close>

lemma chain_det: "chain h p c xs \<Longrightarrow> chain h p c ys \<Longrightarrow> xs = ys"
proof (induction xs arbitrary: p c ys)
  case Nil
  then show ?case by (cases ys) simp_all
next
  case (Cons x xs)
  then obtain y ys' where ys: "ys = y # ys'" by (cases ys) auto
  have "chain h c (h_next h c) xs" "chain h c (h_next h c) ys'" using Cons.prems unfolding ys chain.simps by blast+
  then have "xs = ys'" by (rule Cons.IH)
  moreover have "x = y" using Cons.prems by (cases x; cases y) (auto simp: ys)
  ultimately show ?case by (simp add: ys)
qed

lemma heap_live_det: "heap_live h L \<Longrightarrow> heap_live h L' \<Longrightarrow> L = L'"
  unfolding heap_live_def heap_inv_def using chain_det by blast

lemma heap_live_free:
  assumes "heap_live h L" "p \<in> fst ` L"
  shows "heap_live (kfree p h) {x \<in> L. fst x \<noteq> p}"
proof -
  from assms(2) obtain len where len: "(p, len) \<in> L" by auto
  from assms(1) obtain bs where bs: "heap_inv h bs" "L = live_of bs" by (auto simp: heap_live_def)
  have kl: "k = len" if "(p, k) \<in> L" for k
  proof -
    from that bs(2) obtain b where b: "b \<in> set bs" "p = addr b + HEADER_SIZE" "k = unat (bsize b) - 20" by (auto simp: live_of_def)
    from len bs(2) obtain c where c: "c \<in> set bs" "p = addr c + HEADER_SIZE" "len = unat (bsize c) - 20" by (auto simp: live_of_def)
    have "inj_on addr (set bs)" using heap_inv_distinct [OF bs(1)] by (simp add: distinct_map)
    with b(1,2) c(1,2) have "b = c" by (simp add: inj_onD)
    with b(3) c(3) show ?thesis by simp
  qed
  have "x \<noteq> (p, len) \<longleftrightarrow> fst x \<noteq> p" if "x \<in> L" for x
  proof (cases x)
    case (Pair a b)
    with that kl [of b] show ?thesis by (cases "a = p") auto
  qed
  then have "L - {(p, len)} = {x \<in> L. fst x \<noteq> p}" by blast
  with kheap.free_live [OF assms(1) len] show ?thesis by simp
qed

section \<open>Properties\<close>

text \<open>C4. Every request of at most \<open>2^32 - 21\<close> bytes on a well-formed heap returns: either a
  null pointer with the heap unchanged, or a region of at least the requested length inside
  the heap, disjoint from every region in use, which is then the only new one in use.\<close>

theorem kmalloc_safe:
  assumes "heap_live h L" "sz \<noteq> 0" "unat sz \<le> 0xFFFFFFEB"
  shows "kmalloc sz h = Some (0, h) \<or>
     (\<exists>p len h'. kmalloc sz h = Some (p, h') \<and> unat heap_start < unat p \<and> unat p + len \<le> unat heap_end \<and>
        unat sz \<le> len \<and> heap_live h' (insert (p, len) L) \<and>
        (\<forall>(q, k) \<in> L. unat p + len \<le> unat q \<or> unat q + k \<le> unat p))"
proof -
  from kheap.alloc_cases [OF assms(1,2)] show ?thesis
  proof
    assume "\<exists>p len h'. kmalloc sz h = Some (p, h') \<and> p \<noteq> 0 \<and> p \<notin> fst ` L \<and>
      heap_live h' (insert (p, len) L) \<and> (unat sz \<le> 0xFFFFFFEB \<longrightarrow> unat sz \<le> len)"
    then obtain p len h' where k: "kmalloc sz h = Some (p, h')" "p \<notin> fst ` L" "unat sz \<le> len"
      and r: "heap_live h' (insert (p, len) L)"
      using assms(3) by auto
    from r obtain bs where bs: "heap_inv h' bs" "insert (p, len) L = live_of bs"
      by (auto simp: heap_live_def)
    then have "(p, len) \<in> live_of bs" by blast
    then obtain b where b: "b \<in> set bs" "p = addr b + HEADER_SIZE" "len = unat (bsize b) - 20"
      by (auto simp: live_of_def)
    have "unat heap_start < unat p" "unat p + len \<le> unat heap_end"
      using heap_inv_block [OF bs(1) b(1)] unfolding b by simp_all
    moreover have "\<forall>(q, l) \<in> L. unat p + len \<le> unat q \<or> unat q + l \<le> unat p"
      using kheap.live_disjoint [OF r, of p len] k(2) by force
    ultimately show ?thesis using k r by blast
  qed simp
qed

theorem kmalloc_safe_witness:
  "let h = heap_init \<lparr>h_magic = \<lambda>_. 0, h_size = \<lambda>_. 0, h_next = \<lambda>_. 0, h_prev = \<lambda>_. 0, h_used = \<lambda>_. 0\<rparr>
   in heap_live h {} \<and> (\<exists>p len h'. kmalloc 100 h = Some (p, h') \<and> p \<noteq> 0 \<and> 100 \<le> len \<and> heap_live h' {(p, len)})"
proof -
  let ?h0 = "\<lparr>h_magic = \<lambda>_. 0, h_size = \<lambda>_. 0, h_next = \<lambda>_. 0, h_prev = \<lambda>_. 0, h_used = \<lambda>_. 0\<rparr> :: hheap"
  have l: "heap_live (heap_init ?h0) {}"
    using heap_init_inv [of ?h0] by (auto simp: heap_live_def live_of_def)
  have some: "kmalloc 100 (heap_init ?h0) \<noteq> Some (0, heap_init ?h0)"
    by (simp add: kmalloc_def kmalloc_scan.simps heap_init_def heap_set_defs heap_consts split_block_def Let_def)
  show ?thesis
    using l some kmalloc_safe [OF l, of 100] by (auto simp: Let_def)
qed

text \<open>Allocating and freeing again restores the heap: the block list after \<open>kfree\<close> of a
  fresh pointer is the one before \<open>kmalloc\<close>, whether the block was split or not.\<close>

theorem kmalloc_kfree_roundtrip:
  assumes "heap_inv h bs" "sz \<noteq> 0" "kmalloc sz h = Some (p, h')" "p \<noteq> 0"
  shows "heap_inv (kfree p h') bs"
proof -
  obtain a bs' where ff: "first_fit (request sz) bs = Some (a, bs')" and p: "p = a + HEADER_SIZE"
      and inv': "heap_inv h' bs'"
    using kmalloc_refines [OF assms(1,2)] assms(3,4) by (auto split: option.splits)
  from first_fit_decomp [OF ff] obtain xs b ys where d: "bs = xs @ b # ys" "addr b = a" "\<not> bused b"
    and bs': "bs' = xs @ (if request sz + HEADER_SIZE + 16 \<le> bsize b
       then [\<lparr>addr = a, bsize = request sz, bused = True\<rparr>,
             \<lparr>addr = a + request sz, bsize = bsize b - request sz, bused = False\<rparr>]
       else [b\<lparr>bused := True\<rparr>]) @ ys" by blast
  from assms(1) d have co: "xs \<noteq> [] \<longrightarrow> bused (last xs)" "ys \<noteq> [] \<longrightarrow> bused (hd ys)"
    by (auto simp: heap_inv_def coalesced_append coalesced_Cons)
  have b: "b = \<lparr>addr = a, bsize = bsize b, bused = False\<rparr>" "b\<lparr>bused := False\<rparr> = b"
    using d by (cases b; simp)+
  show ?thesis
  proof (cases "request sz + HEADER_SIZE + 16 \<le> bsize b")
    case True
    with kfree_refines [of h' xs "\<lparr>addr = a, bsize = request sz, bused = True\<rparr>"] inv' bs' p
    have "heap_inv (kfree p h') (release xs \<lparr>addr = a, bsize = request sz, bused = True\<rparr>
        (\<lparr>addr = a + request sz, bsize = bsize b - request sz, bused = False\<rparr> # ys))" by simp
    with co(1) b(1) d(1) show ?thesis by (simp add: release_def absorb_prev_def split: if_splits)
  next
    case False
    with kfree_refines [of h' xs "b\<lparr>bused := True\<rparr>" ys] inv' bs' p d
    have "heap_inv (kfree p h') (release xs (b\<lparr>bused := True\<rparr>) ys)" by simp
    with co b(2) d(1) show ?thesis
      by (cases ys) (auto simp: release_def absorb_prev_def split: if_splits)
  qed
qed

theorem kmalloc_kfree_roundtrip_witness:
  "let h = heap_init \<lparr>h_magic = \<lambda>_. 0, h_size = \<lambda>_. 0, h_next = \<lambda>_. 0, h_prev = \<lambda>_. 0, h_used = \<lambda>_. 0\<rparr>;
       bs = [\<lparr>addr = heap_start, bsize = heap_end - heap_start, bused = False\<rparr>]
   in heap_inv h bs \<and>
      (\<exists>h'. kmalloc 100 h = Some (heap_start + 20, h') \<and> heap_inv (kfree (heap_start + 20) h') bs)"
proof -
  let ?h0 = "\<lparr>h_magic = \<lambda>_. 0, h_size = \<lambda>_. 0, h_next = \<lambda>_. 0, h_prev = \<lambda>_. 0, h_used = \<lambda>_. 0\<rparr> :: hheap"
  note inv = heap_init_inv [of ?h0]
  have nz: "heap_start + 20 \<noteq> 0" by (simp add: heap_consts)
  obtain h' where k: "kmalloc 100 (heap_init ?h0) = Some (heap_start + 20, h')"
    by (simp add: kmalloc_def kmalloc_scan.simps heap_init_def heap_set_defs heap_consts split_block_def Let_def)
  show ?thesis
    using inv k kmalloc_kfree_roundtrip [OF inv _ k nz] by (auto simp: Let_def)
qed

text \<open>The size computation wraps: on a well-formed heap whose first block is free, a
  request of 4 GiB minus 16 bytes succeeds and hands out a block of 36 bytes (16 after the
  header), so the limit in the contract above is needed.\<close>

theorem kmalloc_wraps:
  assumes "heap_inv h (b # bs)" "\<not> bused b" "72 \<le> unat (bsize b)"
  shows "\<exists>h'. kmalloc 0xFFFFFFF0 h = Some (heap_start + HEADER_SIZE, h') \<and>
     heap_inv h' (\<lparr>addr = heap_start, bsize = 36, bused = True\<rparr> #
                  \<lparr>addr = heap_start + 36, bsize = bsize b - 36, bused = False\<rparr> # bs)"
proof -
  have a: "addr b = heap_start" using assms(1) by (auto simp: heap_inv_def)
  have r: "request 0xFFFFFFF0 = 36" by (simp add: request_def HEADER_SIZE_def)
  have "(72 :: u32) \<le> bsize b" "(36 :: u32) \<le> bsize b" using assms(3) by (simp_all add: word_le_nat_alt)
  with assms(2) a have "first_fit 36 (b # bs) = Some (heap_start,
      \<lparr>addr = heap_start, bsize = 36, bused = True\<rparr> # \<lparr>addr = heap_start + 36, bsize = bsize b - 36, bused = False\<rparr> # bs)"
    by (simp add: HEADER_SIZE_def)
  with kmalloc_refines [OF assms(1), of "0xFFFFFFF0"] r show ?thesis by auto
qed

theorem kmalloc_wraps_witness:
  "let h = heap_init \<lparr>h_magic = \<lambda>_. 0, h_size = \<lambda>_. 0, h_next = \<lambda>_. 0, h_prev = \<lambda>_. 0, h_used = \<lambda>_. 0\<rparr>
   in \<exists>h'. kmalloc 0xFFFFFFF0 h = Some (heap_start + HEADER_SIZE, h')"
proof -
  let ?h0 = "\<lparr>h_magic = \<lambda>_. 0, h_size = \<lambda>_. 0, h_next = \<lambda>_. 0, h_prev = \<lambda>_. 0, h_used = \<lambda>_. 0\<rparr> :: hheap"
  show ?thesis
    using kmalloc_wraps [OF heap_init_inv [of ?h0]] by (simp add: heap_consts) blast
qed

end
