(* ===== verification/XE_Mm.thy ===== *)
theory XE_Mm
  imports XE_Prelude
begin

text \<open>
  The physical page allocator of \<^verbatim>\<open>src/src/kernel/mm.cpp\<close>: a bitmap with one bit per 4 KiB
  page. The record holds the static variables of the file; the bitmap is the byte array that
  \<^verbatim>\<open>mm_init\<close> places behind the kernel image. \<^verbatim>\<open>_bss_end\<close>, the RAM size found by the boot
  loader (address 0x514) and the frame buffer address (0x500) are parameters of \<open>mm_init\<close>.
  Serial output is left out. The lemmas relate the bit operations to the set of free page
  indices and show that the allocator hands out each page of managed memory at most once.
\<close>

unbundle bit_operations_syntax

definition PAGE_SIZE :: u32 where "PAGE_SIZE = 4096"
definition MEM_TOP_MAX :: u32 where "MEM_TOP_MAX = 0x4000000"

record mm =
  bitmap :: "u32 \<Rightarrow> u8"
  total_pages :: u32
  free_count :: u32
  first_page :: u32
  mem_top :: u32

definition bm_test :: "(u32 \<Rightarrow> u8) \<Rightarrow> u32 \<Rightarrow> bool" where
  "bm_test bm idx = (bm (idx div 8) AND push_bit (unat (idx mod 8)) 1 \<noteq> 0)"

definition bm_set :: "(u32 \<Rightarrow> u8) \<Rightarrow> u32 \<Rightarrow> (u32 \<Rightarrow> u8)" where
  "bm_set bm idx = bm(idx div 8 := bm (idx div 8) OR push_bit (unat (idx mod 8)) 1)"

definition bm_clear :: "(u32 \<Rightarrow> u8) \<Rightarrow> u32 \<Rightarrow> (u32 \<Rightarrow> u8)" where
  "bm_clear bm idx = bm(idx div 8 := bm (idx div 8) AND NOT (push_bit (unat (idx mod 8)) 1))"

definition page_mask :: u32 where "page_mask = NOT (PAGE_SIZE - 1)"

text \<open>One iteration of the loop of \<open>mm_reserve\<close>.\<close>

definition reserve_page :: "u32 \<Rightarrow> mm \<Rightarrow> mm" where
  "reserve_page addr m =
     (if addr < first_page m then m
      else let idx = (addr - first_page m) div PAGE_SIZE in
        if \<not> bm_test (bitmap m) idx
        then m\<lparr>bitmap := bm_set (bitmap m) idx, free_count := free_count m - 1\<rparr> else m)"

lemma page_mask_value: "page_mask = 0xFFFFF000"
  by (simp add: page_mask_def PAGE_SIZE_def word_uint_eq_iff)

lemma page_mask_le: "e AND page_mask \<le> 0xFFFFF000"
  using word_and_le1 [of e page_mask] by (simp add: page_mask_value)

function reserve_loop :: "u32 \<Rightarrow> u32 \<Rightarrow> mm \<Rightarrow> mm" where
  "reserve_loop addr e m =
     (if addr < e AND page_mask then reserve_loop (addr + PAGE_SIZE) e (reserve_page addr m) else m)"
  by pat_completeness auto
termination
proof (relation "measure (\<lambda>(addr, e, m). unat (e AND page_mask) - unat addr)")
  fix addr e :: u32 and m :: mm
  assume lt: "addr < e AND page_mask"
  have "unat (e AND page_mask) \<le> 0xFFFFF000"
    using page_mask_le [of e] by (simp add: word_le_nat_alt)
  then have "unat (addr + PAGE_SIZE) = unat addr + 4096"
    using lt by (simp add: PAGE_SIZE_def unat_word_ariths word_less_nat_alt)
  then show "((addr + PAGE_SIZE, e, reserve_page addr m), addr, e, m)
      \<in> measure (\<lambda>(addr, e, m). unat (e AND page_mask) - unat addr)"
    using lt by (simp add: word_less_nat_alt)
qed simp

definition mm_reserve :: "u32 \<Rightarrow> u32 \<Rightarrow> mm \<Rightarrow> mm" where
  "mm_reserve start e m =
     (let e1 = (if e > mem_top m then mem_top m else e);
          s = (start + PAGE_SIZE - 1) AND page_mask
      in reserve_loop s e1 m)"

definition mm_init :: "u32 \<Rightarrow> u32 \<Rightarrow> u32 \<Rightarrow> (u32 \<Rightarrow> u8) \<Rightarrow> fault + mm" where
  "mm_init bss_end det fbaddr bm0 =
     (let bm_start = (bss_end + PAGE_SIZE - 1) AND page_mask;
          top = (if det = 0 then MEM_TOP_MAX else if det > MEM_TOP_MAX then MEM_TOP_MAX else det)
      in if top < 0x1F00000 then Inl Halted
         else
           let total0 = (top - bm_start) div PAGE_SIZE;
               bm_bytes = (total0 + 7) div 8;
               bm_pages = (bm_bytes + PAGE_SIZE - 1) div PAGE_SIZE;
               total = (if total0 > bm_pages then total0 - bm_pages else 0);
               bm1 = (\<lambda>i. if i < bm_bytes then 0 else bm0 i);
               bm2 = fold (\<lambda>i bm. bm_set bm (of_nat i)) [0..<unat bm_pages] bm1;
               m0 = \<lparr>bitmap = bm2, total_pages = total, free_count = total,
                     first_page = bm_start + bm_pages * PAGE_SIZE, mem_top = top\<rparr>;
               m1 = mm_reserve 0x01000000 0x01F00000 m0;
               m2 = mm_reserve 0x400000 0x450000 m1
           in Inr (if fbaddr \<ge> 0x100000 \<and> fbaddr < top
                   then mm_reserve (fbaddr AND NOT 0x3FFFFF) ((fbaddr AND NOT 0x3FFFFF) + 0x400000) m2
                   else m2))"

function alloc_scan :: "u32 \<Rightarrow> mm \<Rightarrow> u32 \<times> mm" where
  "alloc_scan i m =
     (if i < total_pages m then
        (if \<not> bm_test (bitmap m) i
         then (first_page m + i * PAGE_SIZE,
               m\<lparr>bitmap := bm_set (bitmap m) i, free_count := free_count m - 1\<rparr>)
         else alloc_scan (i + 1) m)
      else (0, m))"
  by pat_completeness auto
termination
proof (relation "measure (\<lambda>(i, m). unat (total_pages m) - unat i)")
  fix i :: u32 and m :: mm
  assume "i < total_pages m"
  then show "((i + 1, m), i, m) \<in> measure (\<lambda>(i, m). unat (total_pages m) - unat i)"
    by (simp add: word_less_nat_alt unat_plus_one)
qed simp

definition mm_alloc_page :: "mm \<Rightarrow> u32 \<times> mm" where
  "mm_alloc_page m = alloc_scan 0 m"

definition mm_free_page :: "u32 \<Rightarrow> mm \<Rightarrow> mm" where
  "mm_free_page addr m =
     (if addr < first_page m then m
      else let idx = (addr - first_page m) div PAGE_SIZE in
        if idx \<ge> total_pages m then m
        else if bm_test (bitmap m) idx
             then m\<lparr>bitmap := bm_clear (bitmap m) idx, free_count := free_count m + 1\<rparr> else m)"

definition mm_free_count :: "mm \<Rightarrow> u32" where
  "mm_free_count m = free_count m"

definition mm_total_pages :: "mm \<Rightarrow> u32" where
  "mm_total_pages m = total_pages m"

declare reserve_loop.simps [simp del] alloc_scan.simps [simp del]

section \<open>Bits of the bitmap\<close>

lemma unat_mod_8_less [simp]: "unat (idx mod 8 :: u32) < 8"
  by (simp add: unat_mod)

lemma bm_test_bit: "bm_test bm idx = bit (bm (idx div 8)) (unat (idx mod 8))"
  by (simp add: bm_test_def and_exp_eq_0_iff_not_bit)

lemma idx_split: "(i :: u32) div 8 = j div 8 \<Longrightarrow> unat (i mod 8) = unat (j mod 8) \<Longrightarrow> i = j"
  by (metis mult_div_mod_eq word_unat_eq_iff)

lemma bm_test_set [simp]: "bm_test (bm_set bm i) j = (i = j \<or> bm_test bm j)"
  by (auto simp: bm_test_bit bm_set_def bit_simps dest: idx_split)

lemma bm_test_clear [simp]: "bm_test (bm_clear bm i) j = (i \<noteq> j \<and> bm_test bm j)"
  by (auto simp: bm_test_bit bm_clear_def bit_simps dest: idx_split)

section \<open>Pages\<close>

definition page_addr :: "mm \<Rightarrow> u32 \<Rightarrow> u32" where
  "page_addr m i = first_page m + i * PAGE_SIZE"

text \<open>Managed memory lies below 64 MiB, starts page aligned above address 0, and the bitmap
  addresses exactly the pages below \<open>mem_top\<close>.\<close>

definition mm_geom :: "mm \<Rightarrow> bool" where
  "mm_geom m = (0 < unat (first_page m) \<and> 4096 dvd unat (first_page m) \<and>
     unat (first_page m) \<le> unat (mem_top m) \<and> unat (mem_top m) \<le> 0x4000000 \<and>
     unat (total_pages m) = (unat (mem_top m) - unat (first_page m)) div 4096)"

definition used_set :: "mm \<Rightarrow> u32 set" where
  "used_set m = {i. i < total_pages m \<and> bm_test (bitmap m) i}"

definition free_set :: "mm \<Rightarrow> u32 set" where
  "free_set m = {i. i < total_pages m \<and> \<not> bm_test (bitmap m) i}"

text \<open>The counter is the number of clear bits plus \<open>d\<close>.\<close>

definition mm_count :: "nat \<Rightarrow> mm \<Rightarrow> bool" where
  "mm_count d m = (unat (free_count m) = card (free_set m) + d)"

definition mm_inv :: "mm \<Rightarrow> bool" where
  "mm_inv m = (mm_geom m \<and> (\<exists>d \<le> 0x4000. mm_count d m))"

definition free_pages :: "mm \<Rightarrow> u32 set" where
  "free_pages m = page_addr m ` free_set m"

definition managed :: "mm \<Rightarrow> u32 set" where
  "managed m = page_addr m ` {i. i < total_pages m}"

lemma finite_free_set [simp]: "finite (free_set m)"
  by simp

lemma geom_bound: "mm_geom m \<Longrightarrow> i < total_pages m \<Longrightarrow> unat (first_page m) + unat i * 4096 + 4096 \<le> unat (mem_top m)"
proof -
  assume g: "mm_geom m" and i: "i < total_pages m"
  let ?t = "(unat (mem_top m) - unat (first_page m)) div 4096"
  have "unat i + 1 \<le> ?t" using g i by (simp add: mm_geom_def word_less_nat_alt)
  then have "(unat i + 1) * 4096 \<le> unat (mem_top m) - unat (first_page m)"
    by (simp add: less_eq_div_iff_mult_less_eq)
  then show ?thesis using g by (simp add: mm_geom_def)
qed

lemma unat_page_addr:
  assumes "mm_geom m" "i < total_pages m"
  shows "unat (page_addr m i) = unat (first_page m) + unat i * 4096"
proof -
  have "unat (first_page m) + unat i * 4096 < 2 ^ 32"
    using geom_bound [OF assms] assms(1) by (simp add: mm_geom_def)
  then show ?thesis
    by (simp add: page_addr_def PAGE_SIZE_def unat_word_ariths)
qed

lemma page_addr_inj:
  assumes "mm_geom m" "i < total_pages m" "j < total_pages m" "page_addr m i = page_addr m j"
  shows "i = j"
proof -
  have "unat (page_addr m i) = unat (page_addr m j)" using assms(4) by simp
  then show ?thesis
    using unat_page_addr [OF assms(1,2)] unat_page_addr [OF assms(1,3)] by (simp add: word_unat_eq_iff)
qed

lemma page_index:
  assumes "mm_geom m" "i < total_pages m"
  shows "(page_addr m i - first_page m) div PAGE_SIZE = i" "\<not> page_addr m i < first_page m"
proof -
  note u = unat_page_addr [OF assms]
  have le: "first_page m \<le> page_addr m i" using u by (simp add: word_le_nat_alt)
  then show "\<not> page_addr m i < first_page m" by simp
  have "unat (page_addr m i - first_page m) = unat i * 4096"
    using u le by (simp add: unat_sub)
  then show "(page_addr m i - first_page m) div PAGE_SIZE = i"
    by (simp add: word_unat_eq_iff unat_div PAGE_SIZE_def)
qed

lemma free_pages_iff:
  "mm_geom m \<Longrightarrow> i < total_pages m \<Longrightarrow> page_addr m i \<in> free_pages m \<longleftrightarrow> \<not> bm_test (bitmap m) i"
  by (auto simp: free_pages_def free_set_def dest: page_addr_inj)

lemma page_addr_nonzero: "mm_geom m \<Longrightarrow> i < total_pages m \<Longrightarrow> page_addr m i \<noteq> 0"
  using unat_page_addr [of m i] by (auto simp: mm_geom_def)

section \<open>Marking a page used or free\<close>

definition take_page :: "u32 \<Rightarrow> mm \<Rightarrow> mm" where
  "take_page i m = m\<lparr>bitmap := bm_set (bitmap m) i, free_count := free_count m - 1\<rparr>"

definition give_page :: "u32 \<Rightarrow> mm \<Rightarrow> mm" where
  "give_page i m = m\<lparr>bitmap := bm_clear (bitmap m) i, free_count := free_count m + 1\<rparr>"

lemma take_page_free_set: "i < total_pages m \<Longrightarrow> free_set (take_page i m) = free_set m - {i}"
  by (auto simp: free_set_def take_page_def)

lemma give_page_free_set: "i < total_pages m \<Longrightarrow> free_set (give_page i m) = insert i (free_set m)"
  by (auto simp: free_set_def give_page_def)

lemma take_page_count:
  assumes "mm_count d m" "i \<in> free_set m"
  shows "mm_count d (take_page i m)"
proof -
  from assms(2) have i: "i < total_pages m" and c: "0 < card (free_set m)"
    by (auto simp: free_set_def card_gt_0_iff)
  from c assms(1) have "0 < unat (free_count m)" by (simp add: mm_count_def)
  then have "unat (free_count m - 1) = unat (free_count m) - 1"
    by (simp add: unat_sub word_le_nat_alt)
  with assms i c show ?thesis
    by (simp add: mm_count_def take_page_free_set) (simp add: take_page_def)
qed

lemma card_free_set_le: "card (free_set m) \<le> unat (total_pages m)"
proof -
  have "free_set m \<subseteq> {..<total_pages m}" by (auto simp: free_set_def)
  then have "card (unat ` free_set m) \<le> card {..<unat (total_pages m)}"
    by (intro card_mono) (auto simp: word_less_nat_alt)
  then show ?thesis by (simp add: card_image inj_on_def word_unat_eq_iff [symmetric])
qed

lemma give_page_count:
  assumes "mm_count d m" "d \<le> 0x4000" "mm_geom m" "i < total_pages m" "bm_test (bitmap m) i"
  shows "mm_count d (give_page i m)"
proof -
  from assms(4,5) have "i \<notin> free_set m" by (simp add: free_set_def)
  then have "card (insert i (free_set m)) = card (free_set m) + 1" by simp
  moreover have "card (insert i (free_set m)) \<le> unat (total_pages m)"
    using card_free_set_le [of "give_page i m"] assms(4)
    by (simp add: give_page_free_set) (simp add: give_page_def)
  moreover have "unat (total_pages m) \<le> 0x4000" using assms(3) unfolding mm_geom_def by linarith
  ultimately have "unat (free_count m + 1) = unat (free_count m) + 1"
    using assms(1,2) by (simp add: mm_count_def unat_word_ariths)
  then show ?thesis
    using assms \<open>i \<notin> free_set m\<close> by (simp add: mm_count_def give_page_free_set) (simp add: give_page_def)
qed

lemma mm_geom_frame [simp]:
  "mm_geom (take_page i m) = mm_geom m" "mm_geom (give_page i m) = mm_geom m"
  "page_addr (take_page i m) = page_addr m" "page_addr (give_page i m) = page_addr m"
  "managed (take_page i m) = managed m" "managed (give_page i m) = managed m"
  by (auto simp: mm_geom_def page_addr_def managed_def take_page_def give_page_def fun_eq_iff)

lemma free_pages_take:
  "mm_geom m \<Longrightarrow> i < total_pages m \<Longrightarrow> free_pages (take_page i m) = free_pages m - {page_addr m i}"
  by (simp add: free_pages_def take_page_free_set) (auto simp: free_set_def dest: page_addr_inj)

lemma free_pages_give:
  "mm_geom m \<Longrightarrow> i < total_pages m \<Longrightarrow> free_pages (give_page i m) = insert (page_addr m i) (free_pages m)"
  by (simp add: free_pages_def give_page_free_set)

lemma alloc_scan_cases:
  "(\<exists>j. i \<le> j \<and> j < total_pages m \<and> \<not> bm_test (bitmap m) j \<and> (\<forall>k. i \<le> k \<and> k < j \<longrightarrow> bm_test (bitmap m) k) \<and>
      alloc_scan i m = (page_addr m j, take_page j m)) \<or>
   (\<forall>k. i \<le> k \<and> k < total_pages m \<longrightarrow> bm_test (bitmap m) k) \<and> alloc_scan i m = (0, m)"
proof (induction i m rule: alloc_scan.induct)
  case (1 i m)
  show ?case
  proof (cases "i < total_pages m \<and> bm_test (bitmap m) i")
    case True
    then have step: "alloc_scan i m = alloc_scan (i + 1) m" by (subst alloc_scan.simps) simp
    have ord: "i + 1 \<le> k \<longleftrightarrow> i < k" for k
      using unat_plus_one [of i "total_pages m"] True by (auto simp: word_le_nat_alt word_less_nat_alt)
    have split: "i \<le> k \<longleftrightarrow> k = i \<or> i < k" for k by auto
    from "1" True show ?thesis
      unfolding step ord by (auto simp: split)
  next
    case False
    then show ?thesis
      by (subst (1 2) alloc_scan.simps) (auto simp: page_addr_def take_page_def)
  qed
qed

section \<open>The page source contract\<close>

text \<open>What page tables, user memory and the syscalls rely on.\<close>

locale page_source =
  fixes inv :: "'s \<Rightarrow> bool"
    and free :: "'s \<Rightarrow> u32 set"
    and pool :: "'s \<Rightarrow> u32 set"
    and alloc :: "'s \<Rightarrow> u32 \<times> 's"
    and release :: "u32 \<Rightarrow> 's \<Rightarrow> 's"
  assumes null_not_pool: "inv s \<Longrightarrow> 0 \<notin> pool s"
    and free_pool: "inv s \<Longrightarrow> free s \<subseteq> pool s"
    and alloc_none: "inv s \<Longrightarrow> free s = {} \<Longrightarrow> alloc s = (0, s)"
    and alloc_some: "inv s \<Longrightarrow> free s \<noteq> {} \<Longrightarrow> \<exists>a s'. alloc s = (a, s') \<and> a \<in> free s \<and> inv s' \<and>
        free s' = free s - {a} \<and> pool s' = pool s"
    and release_used: "inv s \<Longrightarrow> a \<in> pool s \<Longrightarrow> a \<notin> free s \<Longrightarrow>
        inv (release a s) \<and> free (release a s) = insert a (free s) \<and> pool (release a s) = pool s"
begin

lemma alloc_inv: "inv s \<Longrightarrow> inv (snd (alloc s))"
  using alloc_none [of s] alloc_some [of s] by (cases "free s = {}") auto

lemma alloc_null_iff: "inv s \<Longrightarrow> fst (alloc s) = 0 \<longleftrightarrow> free s = {}"
  using alloc_none [of s] alloc_some [of s] null_not_pool [of s] free_pool [of s] by (cases "free s = {}") auto

lemma alloc_fresh:
  "inv s \<Longrightarrow> alloc s = (a, s') \<Longrightarrow> a \<noteq> 0 \<Longrightarrow> a \<in> free s \<and> inv s' \<and> free s' = free s - {a} \<and> pool s' = pool s"
  using alloc_none [of s] alloc_some [of s] by (cases "free s = {}") auto

text \<open>A whole sequence of allocations gives pairwise different pages.\<close>

fun allocs :: "nat \<Rightarrow> 's \<Rightarrow> u32 list \<times> 's" where
  "allocs 0 s = ([], s)"
| "allocs (Suc n) s = (case alloc s of (a, s') \<Rightarrow> case allocs n s' of (as, s'') \<Rightarrow> (a # as, s''))"

lemma allocs_distinct:
  "inv s \<Longrightarrow> allocs n s = (as, s') \<Longrightarrow> 0 \<notin> set as \<Longrightarrow>
     distinct as \<and> set as \<subseteq> free s \<and> inv s' \<and> free s' = free s - set as"
proof (induction n arbitrary: s as)
  case (Suc n)
  obtain a s1 where a: "alloc s = (a, s1)" by (cases "alloc s")
  obtain bs s2 where b: "allocs n s1 = (bs, s2)" by (cases "allocs n s1")
  from Suc.prems a b have e: "as = a # bs" "s' = s2" by auto
  with Suc.prems alloc_fresh [OF _ a] have "a \<in> free s" "inv s1" "free s1 = free s - {a}" by auto
  with Suc.IH [of s1 bs] b e Suc.prems(3) show ?case by auto
qed auto

text \<open>Giving back what was just taken.\<close>

lemma alloc_release: "inv s \<Longrightarrow> alloc s = (a, s') \<Longrightarrow> a \<noteq> 0 \<Longrightarrow> inv (release a s') \<and> free (release a s') = free s"
  using alloc_fresh [of s a s'] release_used [of s' a] free_pool [of s] by auto

text \<open>Giving back a whole list of taken pages.\<close>

lemma release_all:
  "inv s \<Longrightarrow> distinct xs \<Longrightarrow> set xs \<subseteq> pool s - free s \<Longrightarrow>
     inv (fold release xs s) \<and> free (fold release xs s) = free s \<union> set xs \<and> pool (fold release xs s) = pool s"
proof (induction xs arbitrary: s)
  case (Cons x xs)
  then have "inv (release x s) \<and> free (release x s) = insert x (free s) \<and> pool (release x s) = pool s"
    by (intro release_used) auto
  with Cons.IH [of "release x s"] Cons.prems show ?case by auto
qed simp

end

interpretation pages: page_source mm_inv free_pages managed mm_alloc_page mm_free_page
proof
  fix m :: mm and a
  assume inv: "mm_inv m"
  then obtain d where g: "mm_geom m" and d: "d \<le> 0x4000" and c: "mm_count d m" by (auto simp: mm_inv_def)
  show "0 \<notin> managed m" using page_addr_nonzero [OF g] by (force simp: managed_def)
  show "free_pages m \<subseteq> managed m" by (auto simp: free_pages_def managed_def free_set_def)
  show "free_pages m = {} \<Longrightarrow> mm_alloc_page m = (0, m)"
    using alloc_scan_cases [of 0 m] by (auto simp: mm_alloc_page_def free_pages_def free_set_def)
  show "free_pages m \<noteq> {} \<Longrightarrow> \<exists>a s'. mm_alloc_page m = (a, s') \<and> a \<in> free_pages m \<and> mm_inv s' \<and>
      free_pages s' = free_pages m - {a} \<and> managed s' = managed m"
  proof -
    assume "free_pages m \<noteq> {}"
    then obtain j where j: "j < total_pages m" "\<not> bm_test (bitmap m) j" "mm_alloc_page m = (page_addr m j, take_page j m)"
      using alloc_scan_cases [of 0 m] by (auto simp: mm_alloc_page_def free_pages_def free_set_def)
    moreover from j have "mm_inv (take_page j m)"
      using g d take_page_count [OF c] by (auto simp: mm_inv_def free_set_def)
    ultimately show ?thesis using g by (simp add: free_pages_iff free_pages_take)
  qed
  assume a: "a \<in> managed m" "a \<notin> free_pages m"
  then obtain i where i: "i < total_pages m" "a = page_addr m i" "bm_test (bitmap m) i"
    using g by (auto simp: managed_def free_pages_iff)
  have "mm_free_page a m = give_page i m"
    using page_index [OF g i(1)] i by (simp add: mm_free_page_def Let_def give_page_def)
  moreover have "mm_inv (give_page i m)"
    using g d give_page_count [OF c d g i(1,3)] by (auto simp: mm_inv_def)
  ultimately show "mm_inv (mm_free_page a m) \<and> free_pages (mm_free_page a m) = insert a (free_pages m) \<and>
      managed (mm_free_page a m) = managed m"
    using g i by (simp add: free_pages_give)
qed

section \<open>Reserving regions, initialisation\<close>

lemma and_page_mask: "unat (e AND page_mask) = unat e div 4096 * 4096"
  using unat_and_not_mask [of e 12] by (simp add: page_mask_def PAGE_SIZE_def mask_eq_exp_minus_1)

definition window :: "mm \<Rightarrow> nat \<Rightarrow> nat \<Rightarrow> u32 set" where
  "window m lo hi = {i. i < total_pages m \<and> lo \<le> unat (page_addr m i) \<and> unat (page_addr m i) < hi}"

definition same_geom :: "mm \<Rightarrow> mm \<Rightarrow> bool" where
  "same_geom m m' = (total_pages m' = total_pages m \<and> first_page m' = first_page m \<and> mem_top m' = mem_top m)"

lemma same_geomD: "same_geom m m' \<Longrightarrow> mm_geom m' = mm_geom m \<and> page_addr m' = page_addr m \<and> window m' = window m"
  by (auto simp: same_geom_def mm_geom_def page_addr_def window_def fun_eq_iff)

lemma take_page_same_geom: "same_geom m (take_page i m)"
  by (simp add: same_geom_def take_page_def)

lemma reserve_page_spec:
  assumes g: "mm_geom m" and c: "mm_count d m" and al: "4096 dvd unat addr" and top: "unat addr + 4096 \<le> unat (mem_top m)"
  shows "same_geom m (reserve_page addr m) \<and> mm_count d (reserve_page addr m) \<and>
     free_set (reserve_page addr m) = free_set m - window m (unat addr) (unat addr + 4096)"
proof -
  have w: "window m (unat addr) (unat addr + 4096) = {i. i < total_pages m \<and> page_addr m i = addr}"
  proof -
    have "unat (page_addr m i) = unat addr" if "i < total_pages m" "unat addr \<le> unat (page_addr m i)"
        "unat (page_addr m i) < unat addr + 4096" for i
    proof -
      have "4096 dvd unat (page_addr m i)"
        using unat_page_addr [OF g that(1)] g by (simp add: mm_geom_def)
      with al that show ?thesis by (auto elim!: dvdE)
    qed
    then show ?thesis by (auto simp: window_def word_unat_eq_iff)
  qed
  show ?thesis
  proof (cases "addr < first_page m")
    case True
    then have "window m (unat addr) (unat addr + 4096) = {}"
      unfolding w using unat_page_addr [OF g] by (auto simp: word_less_nat_alt)
    with True c show ?thesis by (simp add: reserve_page_def same_geom_def)
  next
    case False
    define j where "j = (addr - first_page m) div PAGE_SIZE"
    have le: "first_page m \<le> addr" using False by simp
    have ui: "unat j = (unat addr - unat (first_page m)) div 4096"
      using le by (simp add: j_def PAGE_SIZE_def unat_div unat_sub)
    have mul: "unat j * 4096 = unat addr - unat (first_page m)"
      unfolding ui using g al by (simp add: mm_geom_def dvd_diff_nat)
    have it: "j < total_pages m"
    proof -
      have "unat addr - unat (first_page m) + 4096 \<le> unat (mem_top m) - unat (first_page m)"
        using top le by (simp add: word_le_nat_alt)
      then have "(unat addr - unat (first_page m) + 4096) div 4096 \<le> unat (total_pages m)"
        using g by (simp add: mm_geom_def div_le_mono)
      then show ?thesis unfolding word_less_nat_alt ui by simp
    qed
    have "unat (page_addr m j) = unat (first_page m) + (unat addr - unat (first_page m))"
      unfolding unat_page_addr [OF g it] mul ..
    also have "\<dots> = unat addr" using le by (simp only: word_le_nat_alt le_add_diff_inverse)
    finally have "unat (page_addr m j) = unat addr" .
    then have pa: "page_addr m j = addr" by (simp only: word_unat_eq_iff)
    have uniq: "i = j" if "i < total_pages m \<and> page_addr m i = addr" for i
      by (rule page_addr_inj [OF g _ it]) (use that pa in simp_all)
    have w': "window m (unat addr) (unat addr + 4096) = {j}"
      unfolding w by (rule set_eqI) (use it pa uniq in blast)
    have rp: "reserve_page addr m = (if bm_test (bitmap m) j then m else take_page j m)"
      using False by (simp add: reserve_page_def Let_def take_page_def j_def)
    show ?thesis
    proof (cases "bm_test (bitmap m) j")
      case True
      then show ?thesis unfolding rp w' using c by (auto simp: same_geom_def free_set_def)
    next
      case False
      then have "j \<in> free_set m" using it by (simp add: free_set_def)
      with False show ?thesis
        unfolding rp w' using take_page_count [OF c] it by (simp add: take_page_same_geom take_page_free_set)
    qed
  qed
qed

lemma reserve_loop_spec:
  assumes "mm_geom m" "mm_count d m" "4096 dvd unat addr" "unat e \<le> unat (mem_top m)"
  shows "same_geom m (reserve_loop addr e m) \<and> mm_count d (reserve_loop addr e m) \<and>
     free_set (reserve_loop addr e m) = free_set m - window m (unat addr) (unat e div 4096 * 4096)"
  using assms
proof (induction addr e m rule: reserve_loop.induct)
  case (1 addr e m)
  let ?e = "unat e div 4096 * 4096"
  show ?case
  proof (cases "addr < e AND page_mask")
    case False
    then have "window m (unat addr) ?e = {}"
      by (auto simp: window_def word_less_nat_alt and_page_mask)
    with False "1.prems"(2) show ?thesis by (subst (1 2 3) reserve_loop.simps) (simp add: same_geom_def)
  next
    case True
    then have lt: "unat addr < ?e" by (simp add: word_less_nat_alt and_page_mask)
    have step: "unat addr + 4096 \<le> ?e"
    proof -
      obtain k where k: "unat addr = 4096 * k" using "1.prems"(3) by (elim dvdE)
      with lt have "k < unat e div 4096" by simp
      then have "(k + 1) * 4096 \<le> ?e" by (intro mult_le_mono1) simp
      with k show ?thesis by simp
    qed
    have ee: "?e \<le> unat (mem_top m)" using "1.prems"(4) div_times_less_eq_dividend le_trans by blast
    have un: "unat (addr + PAGE_SIZE) = unat addr + 4096"
      using step ee "1.prems"(1) by (simp add: PAGE_SIZE_def unat_word_ariths mm_geom_def)
    note rp = reserve_page_spec [OF "1.prems"(1,2,3), OF order_trans [OF step ee]]
    let ?m = "reserve_page addr m"
    have sg: "same_geom m ?m" using rp by blast
    have IH: "same_geom ?m (reserve_loop (addr + PAGE_SIZE) e ?m) \<and> mm_count d (reserve_loop (addr + PAGE_SIZE) e ?m) \<and>
       free_set (reserve_loop (addr + PAGE_SIZE) e ?m) = free_set ?m - window ?m (unat addr + 4096) ?e"
      using "1.IH" [OF True] rp same_geomD [OF sg] "1.prems" un sg by (simp add: same_geom_def)
    have "window m (unat addr) ?e = window m (unat addr) (unat addr + 4096) \<union> window m (unat addr + 4096) ?e"
      using step by (auto simp: window_def)
    with IH rp same_geomD [OF sg] True show ?thesis
      by (subst (1 2 3) reserve_loop.simps) (auto simp: same_geom_def)
  qed
qed

text \<open>Each call of \<open>mm_reserve\<close> with page-aligned bounds removes exactly its window.\<close>

lemma mm_reserve_spec:
  assumes "mm_geom m" "mm_count d m" "unat start + 4096 < 2 ^ 32" "4096 dvd unat start" "4096 dvd unat e"
  shows "same_geom m (mm_reserve start e m) \<and> mm_count d (mm_reserve start e m) \<and>
     free_set (mm_reserve start e m) = free_set m - window m (unat start) (unat e)"
proof -
  let ?e = "if e > mem_top m then mem_top m else e"
  have "unat (start + PAGE_SIZE - 1) = unat start + 4095"
    using assms(3) by (simp add: PAGE_SIZE_def unat_word_ariths)
  then have "unat ((start + PAGE_SIZE - 1) AND page_mask) = (unat start + 4095) div 4096 * 4096"
    by (simp add: and_page_mask)
  then have s: "unat ((start + PAGE_SIZE - 1) AND page_mask) = unat start"
    using assms(4) by (auto elim!: dvdE)
  have le: "unat ?e \<le> unat (mem_top m)" by (auto simp: word_less_nat_alt)
  have "window m (unat start) (unat ?e div 4096 * 4096) = window m (unat start) (unat e)"
  proof -
    have "unat (page_addr m i) < unat ?e div 4096 * 4096 \<longleftrightarrow> unat (page_addr m i) < unat e" if "i < total_pages m" for i
    proof (cases "e > mem_top m")
      case True
      let ?p = "unat (page_addr m i)"
      have p: "?p + 4096 \<le> unat (mem_top m)" "4096 dvd ?p"
        using geom_bound [OF assms(1) that] unat_page_addr [OF assms(1) that] assms(1) by (auto simp: mm_geom_def)
      then obtain k where k: "?p = 4096 * k" by (elim dvdE)
      with p have "k < unat (mem_top m) div 4096" by simp
      with True p k show ?thesis by (simp add: word_less_nat_alt)
    qed (use assms(5) in simp)
    then show ?thesis by (auto simp: window_def)
  qed
  then show ?thesis
    using reserve_loop_spec [OF assms(1,2), of "(start + PAGE_SIZE - 1) AND page_mask" ?e] s le assms(4)
    by (simp add: mm_reserve_def Let_def)
qed

lemma fold_bm_set: "bm_test (fold (\<lambda>i bm. bm_set bm (f i)) xs bm) j = (j \<in> f ` set xs \<or> bm_test bm j)"
  by (induction xs arbitrary: bm) auto

lemma card_words_between:
  assumes "a \<le> unat (t :: u32)"
  shows "card {i :: u32. i < t \<and> a \<le> unat i} = unat t - a"
proof -
  have "unat ` {i :: u32. i < t \<and> a \<le> unat i} = {a..<unat t}"
  proof
    show "{a..<unat t} \<subseteq> unat ` {i :: u32. i < t \<and> a \<le> unat i}"
    proof
      fix n assume n: "n \<in> {a..<unat t}"
      have "unat t < 2 ^ 32" using unsigned_less [of t, where 'a = nat] by simp
      with n have "unat (of_nat n :: u32) = n"
        by (simp add: unsigned_of_nat take_bit_nat_eq_self)
      with n show "n \<in> unat ` {i :: u32. i < t \<and> a \<le> unat i}"
        by (intro image_eqI [of _ _ "of_nat n"]) (auto simp: word_less_nat_alt)
    qed
  qed (auto simp: word_less_nat_alt)
  then have "card (unat ` {i :: u32. i < t \<and> a \<le> unat i}) = unat t - a" by simp
  then show ?thesis by (simp add: card_image inj_on_def word_unat_eq_iff [symmetric])
qed

text \<open>The state \<open>mm_init\<close> reaches before the reservations: one bitmap page, whose bit is set.\<close>

lemma mm_init_geometry:
  fixes bss_end top :: u32
  assumes "0 < unat bss_end" "unat bss_end \<le> 0x1000000" "0x1F00000 \<le> unat top" "unat top \<le> 0x4000000"
  defines "bm_start \<equiv> (bss_end + PAGE_SIZE - 1) AND page_mask"
  defines "total0 \<equiv> (top - bm_start) div PAGE_SIZE"
  defines "bm_bytes \<equiv> (total0 + 7) div 8"
  shows "unat bm_start = (unat bss_end + 4095) div 4096 * 4096"
    "unat total0 = (unat top - unat bm_start) div 4096" "0xF00 \<le> unat total0" "unat total0 \<le> 0x4000"
    "unat bm_bytes = (unat total0 + 7) div 8"
    "(bm_bytes + PAGE_SIZE - 1) div PAGE_SIZE = 1"
    "4096 \<le> unat bm_start" "unat bm_start \<le> 0x1000000" "4096 dvd unat bm_start"
proof -
  have "unat (bss_end + PAGE_SIZE - 1) = unat bss_end + 4095"
    using assms(2) by (simp add: PAGE_SIZE_def unat_word_ariths)
  then show s: "unat bm_start = (unat bss_end + 4095) div 4096 * 4096"
    by (simp add: bm_start_def and_page_mask)
  show lo: "4096 \<le> unat bm_start" and hi: "unat bm_start \<le> 0x1000000" and "4096 dvd unat bm_start"
    unfolding s using assms(1,2) by simp_all
  have "bm_start \<le> top" using hi assms(3) by (simp add: word_le_nat_alt)
  then show t: "unat total0 = (unat top - unat bm_start) div 4096"
    by (simp add: total0_def PAGE_SIZE_def unat_div unat_sub)
  show tl: "0xF00 \<le> unat total0" and th: "unat total0 \<le> 0x4000"
    unfolding t using assms(3,4) hi lo by simp_all
  show b: "unat bm_bytes = (unat total0 + 7) div 8"
    using th by (simp add: bm_bytes_def unat_div unat_word_ariths)
  have "unat (bm_bytes + PAGE_SIZE - 1) = unat bm_bytes + 4095"
    using b th by (simp add: PAGE_SIZE_def unat_word_ariths)
  then have "unat ((bm_bytes + PAGE_SIZE - 1) div PAGE_SIZE) = (unat bm_bytes + 4095) div 4096"
    by (simp add: PAGE_SIZE_def unat_div)
  also have "\<dots> = 1" unfolding b using th tl by simp
  finally show "(bm_bytes + PAGE_SIZE - 1) div PAGE_SIZE = 1" by (simp add: word_unat_eq_iff)
qed

lemma mm_init_start:
  fixes bss_end top :: u32 and bz :: "u32 \<Rightarrow> u8"
  assumes "0 < unat bss_end" "unat bss_end \<le> 0x1000000" "0x1F00000 \<le> unat top" "unat top \<le> 0x4000000"
  defines "bm_start \<equiv> (bss_end + PAGE_SIZE - 1) AND page_mask"
  defines "total0 \<equiv> (top - bm_start) div PAGE_SIZE"
  defines "bm_bytes \<equiv> (total0 + 7) div 8"
  defines "m \<equiv> \<lparr>bitmap = bm_set (\<lambda>i. if i < bm_bytes then 0 else bz i) 0, total_pages = total0 - 1,
      free_count = total0 - 1, first_page = bm_start + PAGE_SIZE, mem_top = top\<rparr>"
  shows "mm_geom m" "mm_count 1 m"
proof -
  note geo = mm_init_geometry [OF assms(1-4), folded bm_start_def, folded total0_def, folded bm_bytes_def]
  have fp: "unat (bm_start + PAGE_SIZE) = unat bm_start + 4096"
    using geo(8) by (simp add: PAGE_SIZE_def unat_word_ariths)
  have tp: "unat (total0 - 1) = unat total0 - 1"
    using geo(3) by (simp add: unat_sub word_le_nat_alt)
  have "unat top - unat bm_start = unat top - (unat bm_start + 4096) + 4096"
    using geo(8) assms(3) by simp
  then have "(unat top - unat bm_start) div 4096 = (unat top - (unat bm_start + 4096)) div 4096 + 1"
    by (simp only: div_add_self2)
  then have pages: "unat (total0 - 1) = (unat top - (unat bm_start + 4096)) div 4096"
    using tp geo(2) by simp
  show "mm_geom m"
    using fp pages geo(8,9) assms(3,4) by (simp add: mm_geom_def m_def)
  have "free_set m = {i. i < total0 - 1 \<and> 1 \<le> unat i}"
  proof -
    have "i div 8 < bm_bytes" if "i < total0 - 1" for i :: u32
      using that tp geo(5) by (simp add: word_less_nat_alt unat_div)
    then have "bm_test (\<lambda>i. if i < bm_bytes then 0 else bz i) i = False" if "i < total0 - 1" for i
      using that by (simp add: bm_test_bit)
    then show ?thesis
      by (auto simp: free_set_def m_def word_le_nat_alt Suc_le_eq unat_gt_0)
  qed
  then have "card (free_set m) = unat (total0 - 1) - 1"
    using card_words_between [of 1 "total0 - 1"] tp geo(3) by simp
  then show "mm_count 1 m" using tp geo(3) by (simp add: mm_count_def m_def)
qed

lemma window_geom: "same_geom m m' \<Longrightarrow> window m' lo hi = window m lo hi"
  by (simp add: same_geomD)

lemma same_geom_trans: "same_geom a b \<Longrightarrow> same_geom b c \<Longrightarrow> same_geom a c"
  by (simp add: same_geom_def)

text \<open>What \<open>mm_init\<close> leaves: the geometry, a counter that is one too high, and no free page
  in the two fixed windows and the frame buffer's window.\<close>

definition no_free_in :: "mm \<Rightarrow> nat \<Rightarrow> nat \<Rightarrow> bool" where
  "no_free_in m lo hi = (\<forall>p \<in> free_pages m. \<not> (lo \<le> unat p \<and> unat p < hi))"

lemma no_free_in_iff: "no_free_in m lo hi \<longleftrightarrow> free_set m \<inter> window m lo hi = {}"
  by (auto simp: no_free_in_def free_pages_def window_def free_set_def)

lemma fb_window:
  assumes "unat fb < 0x4000000"
  shows "unat (fb AND NOT 0x3FFFFF :: u32) = unat fb div 0x400000 * 0x400000"
    "unat ((fb AND NOT 0x3FFFFF) + 0x400000 :: u32) = unat fb div 0x400000 * 0x400000 + 0x400000"
proof -
  show a: "unat (fb AND NOT 0x3FFFFF :: u32) = unat fb div 0x400000 * 0x400000"
    using unat_and_not_mask [of fb 22] by (simp add: mask_eq_exp_minus_1)
  show "unat ((fb AND NOT 0x3FFFFF) + 0x400000 :: u32) = unat fb div 0x400000 * 0x400000 + 0x400000"
    using assms by (simp only: unat_word_ariths a) simp
qed

lemma mm_reserve_step:
  assumes "mm_geom m" "mm_count d m" "unat start + 4096 < 2 ^ 32" "4096 dvd unat start" "4096 dvd unat e"
  shows "mm_geom (mm_reserve start e m)" "mm_count d (mm_reserve start e m)"
    "same_geom m (mm_reserve start e m)" "no_free_in (mm_reserve start e m) (unat start) (unat e)"
    "no_free_in m lo hi \<Longrightarrow> no_free_in (mm_reserve start e m) lo hi"
  using mm_reserve_spec [OF assms] assms(1) same_geomD [of m "mm_reserve start e m"]
  by (auto simp: no_free_in_iff)

lemma mm_init_unfold:
  assumes "0 < unat bss_end" "unat bss_end \<le> 0x1000000"
    "det = 0 \<or> 0x1F00000 \<le> det"
  obtains top m where "top = (if det = 0 \<or> det > MEM_TOP_MAX then MEM_TOP_MAX else det)"
    "mem_top m = top" "mm_geom m" "mm_count 1 m"
    "mm_init bss_end det fb bm0 = Inr (let m2 = mm_reserve 0x400000 0x450000 (mm_reserve 0x01000000 0x01F00000 m)
       in if fb \<ge> 0x100000 \<and> fb < top
          then mm_reserve (fb AND NOT 0x3FFFFF) ((fb AND NOT 0x3FFFFF) + 0x400000) m2 else m2)"
proof -
  define top where "top = (if det = 0 \<or> det > MEM_TOP_MAX then MEM_TOP_MAX else det)"
  have top: "0x1F00000 \<le> unat top" "unat top \<le> 0x4000000"
    using assms(3) by (auto simp: top_def MEM_TOP_MAX_def word_le_nat_alt word_less_nat_alt)
  define bs where "bs = (bss_end + PAGE_SIZE - 1) AND page_mask"
  define t0 where "t0 = (top - bs) div PAGE_SIZE"
  define bb where "bb = (t0 + 7) div 8"
  define m where "m = \<lparr>bitmap = bm_set (\<lambda>i. if i < bb then 0 else bm0 i) 0, total_pages = t0 - 1,
      free_count = t0 - 1, first_page = bs + PAGE_SIZE, mem_top = top\<rparr>"
  note geo = mm_init_geometry [OF assms(1,2) top, folded bs_def, folded t0_def, folded bb_def]
  note start = mm_init_start [OF assms(1,2) top, where bz = bm0, folded bs_def, folded t0_def, folded bb_def, folded m_def]
  have gt: "t0 > 1" using geo(3) by (simp add: word_less_nat_alt)
  have nlt: "\<not> top < 0x1F00000" using top by (simp add: word_less_nat_alt)
  have tt: "(if det = 0 then MEM_TOP_MAX else if det > MEM_TOP_MAX then MEM_TOP_MAX else det) = top"
    by (simp add: top_def)
  have "mm_init bss_end det fb bm0 = Inr (let m2 = mm_reserve 0x400000 0x450000 (mm_reserve 0x01000000 0x01F00000 m)
       in if fb \<ge> 0x100000 \<and> fb < top
          then mm_reserve (fb AND NOT 0x3FFFFF) ((fb AND NOT 0x3FFFFF) + 0x400000) m2 else m2)"
    unfolding mm_init_def Let_def tt bs_def [symmetric] t0_def [symmetric] bb_def [symmetric] geo(6)
    using gt nlt by (simp add: m_def)
  then show ?thesis using that [of top m] start by (simp add: m_def top_def)
qed

section \<open>Properties\<close>

text \<open>C14. On a well-formed page allocator \<open>mm_alloc_page\<close> either finds every page taken, returns 0 and
  changes nothing, or returns a page that was free: non-null, page aligned, entirely inside managed
  memory, removed from the free pages and from the counter, all other pages keeping their state.\<close>

theorem mm_alloc_page_safe:
  assumes "mm_inv m"
  shows "case mm_alloc_page m of (a, m') \<Rightarrow>
     mm_inv m' \<and>
     (if free_pages m = {} then a = 0 \<and> m' = m
      else a \<noteq> 0 \<and> a AND 0xFFF = 0 \<and> first_page m \<le> a \<and> unat a + 4096 \<le> unat (mem_top m) \<and>
           a \<in> free_pages m \<and> free_pages m' = free_pages m - {a} \<and>
           mm_free_count m' = mm_free_count m - 1)"
proof (cases "free_pages m = {}")
  case True
  with assms show ?thesis by (simp add: pages.alloc_none)
next
  case False
  have g: "mm_geom m" using assms by (auto simp: mm_inv_def)
  from False obtain j where j: "j < total_pages m" "\<not> bm_test (bitmap m) j"
      "mm_alloc_page m = (page_addr m j, take_page j m)"
    using alloc_scan_cases [of 0 m] by (auto simp: mm_alloc_page_def free_pages_def free_set_def)
  note u = unat_page_addr [OF g j(1)]
  have "unat (page_addr m j AND 0xFFF) = unat (page_addr m j) mod 4096"
    using unat_and_mask [of "page_addr m j" 12] by (simp add: mask_eq_exp_minus_1)
  also have "\<dots> = 0" using g unfolding u by (auto simp: mm_geom_def elim!: dvdE)
  finally have "page_addr m j AND 0xFFF = 0" by (simp add: unat_eq_zero)
  moreover have "mm_inv (take_page j m)" using pages.alloc_inv [OF assms] j by simp
  ultimately show ?thesis
    using False g j geom_bound [OF g j(1)] page_addr_nonzero [OF g j(1)] u
    by (simp add: free_pages_iff free_pages_take word_le_nat_alt mm_free_count_def) (simp add: take_page_def)
qed

definition demo_mm :: mm where
  "demo_mm = \<lparr>bitmap = (\<lambda>_. 0)(0 := 1), total_pages = 2, free_count = 2, first_page = 0x200000, mem_top = 0x202000\<rparr>"

lemma word_below_2: "{i :: u32. i < 2 \<and> P i} = (if P 0 then {0} else {}) \<union> (if P 1 then {1} else {})"
proof -
  have "i < 2 \<longleftrightarrow> i = 0 \<or> i = 1" for i :: u32
    by (auto simp: word_less_nat_alt word_unat_eq_iff)
  then show ?thesis by auto
qed

lemma demo_mm_free: "free_set demo_mm = {1}"
  by (simp add: free_set_def demo_mm_def word_below_2 bm_test_def)

lemma demo_mm_inv: "mm_inv demo_mm"
proof -
  have "mm_count 1 demo_mm" by (simp add: mm_count_def demo_mm_free) (simp add: demo_mm_def)
  moreover have "mm_geom demo_mm" by (simp add: mm_geom_def demo_mm_def)
  ultimately show ?thesis unfolding mm_inv_def by (intro conjI exI [of _ 1]) simp_all
qed

lemma demo_mm_alloc: "mm_alloc_page demo_mm = (0x201000, take_page 1 demo_mm)"
  by (simp add: mm_alloc_page_def alloc_scan.simps demo_mm_def bm_test_def take_page_def PAGE_SIZE_def)

theorem mm_alloc_page_safe_witness:
  "mm_inv demo_mm \<and> mm_alloc_page demo_mm = (0x201000, take_page 1 demo_mm) \<and> free_pages (take_page 1 demo_mm) = {}"
proof -
  have "free_pages demo_mm = {0x201000}"
    by (simp add: free_pages_def demo_mm_free) (simp add: page_addr_def demo_mm_def PAGE_SIZE_def)
  then show ?thesis using mm_alloc_page_safe [OF demo_mm_inv] demo_mm_inv demo_mm_alloc by simp
qed

text \<open>Freeing a page just allocated gives back the same free pages and the same
  counter, and freeing it a second time changes nothing.\<close>

theorem mm_alloc_free_roundtrip:
  assumes "mm_inv m" "mm_alloc_page m = (a, m')" "a \<noteq> 0"
  shows "mm_inv (mm_free_page a m') \<and> free_pages (mm_free_page a m') = free_pages m \<and>
    mm_free_count (mm_free_page a m') = mm_free_count m \<and> mm_free_page a (mm_free_page a m') = mm_free_page a m'"
proof -
  have ne: "free_pages m \<noteq> {}" using pages.alloc_null_iff [OF assms(1)] assms(2,3) by auto
  have g: "mm_geom m" using assms by (auto simp: mm_inv_def)
  from ne obtain j where j: "j < total_pages m" "a = page_addr m j" "m' = take_page j m"
    using alloc_scan_cases [of 0 m] assms(2) by (auto simp: mm_alloc_page_def free_pages_def free_set_def)
  note pi = page_index [OF g j(1)]
  have "mm_free_page a m' = give_page j m'"
    using pi j by (simp add: mm_free_page_def Let_def give_page_def take_page_def)
  then show ?thesis
    using pages.alloc_release [OF assms] pi j
    by (simp add: mm_free_count_def) (simp add: mm_free_page_def Let_def give_page_def take_page_def)
qed

theorem mm_alloc_free_roundtrip_witness:
  "free_pages (mm_free_page 0x201000 (take_page 1 demo_mm)) = free_pages demo_mm"
  using mm_alloc_free_roundtrip [OF demo_mm_inv demo_mm_alloc] by simp

text \<open>C15. After \<open>mm_init\<close> on a machine with at least 31 MiB of RAM the allocator is well formed, and no
  page of the kernel heap, of the user identity window or of the frame buffer's 4 MiB window will be
  handed out; but the counter is one higher than the number of free pages, because the bitmap's own page
  was already left out of \<open>total_pages\<close> and its bit is set a second time without a decrement.\<close>

theorem mm_init_reserves:
  assumes "0 < unat bss_end" "unat bss_end \<le> 0x1000000" "det = 0 \<or> 0x1F00000 \<le> det"
  shows "\<exists>m. mm_init bss_end det fb bm0 = Inr m \<and> mm_inv m \<and>
     no_free_in m 0x1000000 0x1F00000 \<and> no_free_in m 0x400000 0x450000 \<and>
     (0x100000 \<le> fb \<and> fb < mem_top m \<longrightarrow>
        no_free_in m (unat fb div 0x400000 * 0x400000) (unat fb div 0x400000 * 0x400000 + 0x400000)) \<and>
     unat (mm_free_count m) = card (free_set m) + 1"
proof -
  obtain top m where top: "top = (if det = 0 \<or> det > MEM_TOP_MAX then MEM_TOP_MAX else det)"
    and m: "mem_top m = top" "mm_geom m" "mm_count 1 m"
    and eq: "mm_init bss_end det fb bm0 = Inr (let m2 = mm_reserve 0x400000 0x450000 (mm_reserve 0x01000000 0x01F00000 m)
       in if fb \<ge> 0x100000 \<and> fb < top
          then mm_reserve (fb AND NOT 0x3FFFFF) ((fb AND NOT 0x3FFFFF) + 0x400000) m2 else m2)"
    using mm_init_unfold [OF assms] .
  define m1 where "m1 = mm_reserve 0x01000000 0x01F00000 m"
  define m2 where "m2 = mm_reserve 0x400000 0x450000 m1"
  from mm_reserve_step [OF m(2,3), where start = "0x01000000" and e = "0x01F00000"]
  have m1: "mm_geom m1" "mm_count 1 m1" "same_geom m m1" "no_free_in m1 0x1000000 0x1F00000"
    by (simp_all add: m1_def)
  from mm_reserve_step [OF m1(1,2), where start = "0x400000" and e = "0x450000"] m1(4)
  have m2: "mm_geom m2" "mm_count 1 m2" "same_geom m1 m2" "no_free_in m2 0x400000 0x450000"
      "no_free_in m2 0x1000000 0x1F00000"
    by (simp_all add: m2_def)
  have t: "mem_top m2 = top" using m(1) m1(3) m2(3) by (simp add: same_geom_def)
  show ?thesis
  proof (cases "0x100000 \<le> fb \<and> fb < top")
    case False
    then show ?thesis
      using eq m2 t by (auto simp: m1_def [symmetric] m2_def [symmetric] mm_inv_def mm_count_def mm_free_count_def Let_def)
  next
    case True
    have "unat top \<le> 0x4000000" using m2(1) t by (simp add: mm_geom_def)
    with True have fb: "unat fb < 0x4000000" by (simp add: word_less_nat_alt)
    note w = fb_window [OF fb]
    define m3 where "m3 = mm_reserve (fb AND NOT 0x3FFFFF) ((fb AND NOT 0x3FFFFF) + 0x400000) m2"
    have d: "(4096 :: nat) dvd unat fb div 0x400000 * 0x400000" by (rule dvd_mult) simp
    from mm_reserve_step [OF m2(1,2), where start = "fb AND NOT 0x3FFFFF" and e = "(fb AND NOT 0x3FFFFF) + 0x400000"]
    have m3: "mm_geom m3" "mm_count 1 m3" "same_geom m2 m3" "no_free_in m3 0x400000 0x450000"
        "no_free_in m3 0x1000000 0x1F00000"
        "no_free_in m3 (unat fb div 0x400000 * 0x400000) (unat fb div 0x400000 * 0x400000 + 0x400000)"
      unfolding m3_def w using fb d m2(4,5) by (simp_all add: dvd_add)
    have "mm_init bss_end det fb bm0 = Inr m3"
      unfolding eq Let_def m1_def [symmetric] m2_def [symmetric] m3_def [symmetric] using True by simp
    then show ?thesis
      using m3 by (auto simp: mm_inv_def mm_count_def mm_free_count_def)
  qed
qed

theorem mm_init_reserves_witness:
  "\<exists>m. mm_init 0x120000 0x4000000 0x1800000 (\<lambda>_. 0xFF) = Inr m \<and> mm_inv m \<and> no_free_in m 0x400000 0x450000"
  using mm_init_reserves [of "0x120000" "0x4000000" "0x1800000" "\<lambda>_. 0xFF"] by auto

end
