(* ===== verification/XE_Paging.thy ===== *)
theory XE_Paging
  imports XE_Mm
begin

text \<open>
  \<^verbatim>\<open>src/src/kernel/paging.cpp\<close> and \<^verbatim>\<open>paging.h\<close>: page directories and page tables kept in physical
  memory. The state \<open>phys\<close> is the byte memory together with the page allocator; directories and
  tables are read and written by 32-bit accesses at their physical addresses, which the kernel
  reaches through its identity mapping. The lemmas show that a directory behaves as a partial map
  from user pages to physical pages, and that the destructor gives back exactly what the
  directory holds.
\<close>

unbundle bit_operations_syntax

definition PAGE_PRESENT :: u32 where "PAGE_PRESENT = 0x01"
definition PAGE_RW :: u32 where "PAGE_RW = 0x02"
definition PAGE_USER :: u32 where "PAGE_USER = 0x04"
definition PAGE_PSE :: u32 where "PAGE_PSE = 0x80"
definition MAX_OWNED :: nat where "MAX_OWNED = 512"

record pager =
  page_dir_phys :: u32
  owned_phys :: "u32 list"

record phys =
  ram :: mem
  pmm :: mm

record cpu =
  cr0 :: u32
  cr3 :: u32
  cr4 :: u32

text \<open>Entry \<open>i\<close> of the table at physical address \<open>a\<close>.\<close>

definition slot :: "u32 \<Rightarrow> u32 \<Rightarrow> u32" where
  "slot a i = a + 4 * i"

definition get_pde :: "mem \<Rightarrow> pager \<Rightarrow> u32 \<Rightarrow> u32" where
  "get_pde m pg i = ld32 m (slot (page_dir_phys pg) i)"

definition set_pde :: "mem \<Rightarrow> pager \<Rightarrow> u32 \<Rightarrow> u32 \<Rightarrow> mem" where
  "set_pde m pg i v = st32 m (slot (page_dir_phys pg) i) v"

definition get_page_dir_phys :: "pager \<Rightarrow> u32" where
  "get_page_dir_phys pg = page_dir_phys pg"

definition has :: "u32 \<Rightarrow> u32 \<Rightarrow> bool" where
  "has v flag = (v AND flag \<noteq> 0)"

definition entries :: "u32 list" where
  "entries = map of_nat [0..<1024]"

definition zero_table :: "u32 \<Rightarrow> mem \<Rightarrow> mem" where
  "zero_table a m = fold (\<lambda>i m. st32 m (slot a i) 0) entries m"

definition clone_pdes :: "pager \<Rightarrow> pager \<Rightarrow> mem \<Rightarrow> mem" where
  "clone_pdes kp pg m =
     fold (\<lambda>i m. if has (get_pde m kp i) PAGE_PRESENT then set_pde m pg i (get_pde m kp i) else m) entries m"

text \<open>The constructor; \<open>kernel_paging\<close> is \<open>None\<close> while the kernel's own directory is built. The
  result of \<open>mm_alloc_page\<close> is not checked.\<close>

definition pager_new :: "pager option \<Rightarrow> phys \<Rightarrow> pager \<times> phys" where
  "pager_new kernel_paging p =
     (case mm_alloc_page (pmm p) of (d, mm') \<Rightarrow>
        let pg = \<lparr>page_dir_phys = d, owned_phys = []\<rparr>;
            m1 = zero_table d (ram p);
            m2 = (case kernel_paging of None \<Rightarrow> m1 | Some kp \<Rightarrow> clone_pdes kp pg m1)
        in (pg, \<lparr>ram = m2, pmm = mm'\<rparr>))"

definition free_tables :: "mem \<Rightarrow> pager \<Rightarrow> mm \<Rightarrow> mm" where
  "free_tables m pg mm0 =
     fold (\<lambda>i mm. let pde = get_pde m pg i in
             if has pde PAGE_PRESENT then (if \<not> has pde PAGE_PSE then mm_free_page (pde AND 0xFFFFF000) mm else mm)
             else mm) (take 768 entries) mm0"

definition pager_delete :: "pager \<Rightarrow> phys \<Rightarrow> phys" where
  "pager_delete pg p =
     (let mm1 = fold mm_free_page (owned_phys pg) (pmm p);
          mm2 = free_tables (ram p) pg mm1
      in p\<lparr>pmm := mm_free_page (page_dir_phys pg) mm2\<rparr>)"

definition translate_user :: "mem \<Rightarrow> pager \<Rightarrow> u32 \<Rightarrow> u32" where
  "translate_user m pg va =
     (let pde = get_pde m pg (drop_bit 22 va) in
      if \<not> has pde PAGE_PRESENT then 0
      else if has pde PAGE_PSE then
        (if \<not> has pde PAGE_USER then 0 else (pde AND 0xFFC00000) + (va AND 0x3FFFFF))
      else
        let pte = ld32 m (slot (pde AND 0xFFFFF000) (drop_bit 12 va AND 0x3FF)) in
        if \<not> has pte PAGE_PRESENT then 0
        else if \<not> has pte PAGE_USER then 0
        else (pte AND 0xFFFFF000) + (va AND 0xFFF))"

definition track_owned :: "u32 \<Rightarrow> pager \<Rightarrow> pager" where
  "track_owned ph pg =
     (if length (owned_phys pg) < MAX_OWNED then pg\<lparr>owned_phys := owned_phys pg @ [ph]\<rparr> else pg)"

definition map_page :: "u32 \<Rightarrow> u32 \<Rightarrow> u32 \<Rightarrow> pager \<Rightarrow> phys \<Rightarrow> phys" where
  "map_page virt ph flags pg p =
     (let pde_idx = drop_bit 22 virt;
          pte_idx = drop_bit 12 virt AND 0x3FF;
          pde = get_pde (ram p) pg pde_idx;
          set_pte = (\<lambda>pde m. st32 m (slot (pde AND 0xFFFFF000) pte_idx)
                       ((ph AND 0xFFFFF000) OR (flags AND 0xFFF) OR PAGE_PRESENT))
      in if \<not> has pde PAGE_PRESENT \<or> has pde PAGE_PSE then
           (case mm_alloc_page (pmm p) of (pt, mm') \<Rightarrow>
              if pt = 0 then \<lparr>ram = ram p, pmm = mm'\<rparr>
              else let m1 = zero_table pt (ram p);
                       m2 = set_pde m1 pg pde_idx (pt OR PAGE_PRESENT OR PAGE_RW OR PAGE_USER)
                   in \<lparr>ram = set_pte (get_pde m2 pg pde_idx) m2, pmm = mm'\<rparr>)
         else p\<lparr>ram := set_pte pde (ram p)\<rparr>)"

definition pager_load :: "pager \<Rightarrow> cpu \<Rightarrow> cpu" where
  "pager_load pg c = c\<lparr>cr3 := page_dir_phys pg\<rparr>"

definition map_kernel_4mb :: "u32 \<Rightarrow> pager \<Rightarrow> mem \<Rightarrow> mem" where
  "map_kernel_4mb pa pg m =
     set_pde m pg (drop_bit 22 pa) ((pa AND 0xFFC00000) OR PAGE_PRESENT OR PAGE_RW OR PAGE_PSE)"

definition map_user_4mb :: "u32 \<Rightarrow> u32 \<Rightarrow> pager \<Rightarrow> mem \<Rightarrow> mem" where
  "map_user_4mb va pa pg m =
     set_pde m pg (drop_bit 22 va) ((pa AND 0xFFC00000) OR PAGE_PRESENT OR PAGE_RW OR PAGE_USER OR PAGE_PSE)"

definition init_kernel_paging :: "phys \<Rightarrow> cpu \<Rightarrow> pager \<times> phys \<times> cpu" where
  "init_kernel_paging p c =
     (case pager_new None p of (kp, p1) \<Rightarrow>
        let m1 = fold (\<lambda>i m. map_kernel_4mb (of_nat i * 0x400000) kp m) [0..<16] (ram p1);
            fbaddr = ld32 m1 0x500;
            m2 = (if fbaddr \<ge> 0x100000 then map_kernel_4mb fbaddr kp m1 else m1);
            c1 = c\<lparr>cr4 := cr4 c OR 0x10\<rparr>;
            c2 = pager_load kp c1;
            c3 = c2\<lparr>cr0 := cr0 c2 OR 0x80000000\<rparr>
        in (kp, p1\<lparr>ram := m2\<rparr>, c3))"

section \<open>Table slots in memory\<close>

definition page_al :: "u32 \<Rightarrow> bool" where
  "page_al a = (4096 dvd unat a)"

lemma page_al_le: "page_al a \<Longrightarrow> unat a \<le> 0xFFFFF000"
proof -
  assume "page_al a"
  then obtain k where k: "unat a = 4096 * k" by (auto simp: page_al_def elim!: dvdE)
  moreover have "unat a < 2 ^ 32" using unsigned_less [of a, where 'a = nat] by simp
  ultimately have "k < 2 ^ 20" by simp
  then have "k \<le> 2 ^ 20 - 1" by simp
  with k show ?thesis by simp
qed

lemma unat_slot:
  assumes "page_al a" "i < 1024"
  shows "unat (slot a i) = unat a + 4 * unat i"
proof -
  have "unat a + 4 * unat i < 2 ^ 32"
    using page_al_le [OF assms(1)] assms(2) by (simp add: word_less_nat_alt)
  then show ?thesis by (simp add: slot_def unat_word_ariths)
qed

lemma slot_aligned4 [simp]: "page_al a \<Longrightarrow> i < 1024 \<Longrightarrow> aligned4 (slot a i)"
  by (auto simp: aligned4_iff unat_slot page_al_def elim!: dvdE)

lemma slot_eq_iff:
  assumes "page_al a" "i < 1024" "page_al b" "j < 1024"
  shows "slot a i = slot b j \<longleftrightarrow> a = b \<and> i = j"
proof
  assume "slot a i = slot b j"
  then have e: "unat a + 4 * unat i = unat b + 4 * unat j"
    using unat_slot [OF assms(1,2)] unat_slot [OF assms(3,4)] by simp
  obtain p q where pq: "unat a = 4096 * p" "unat b = 4096 * q"
    using assms(1,3) by (auto simp: page_al_def elim!: dvdE)
  have lt: "4 * unat i < 4096" "4 * unat j < 4096" using assms(2,4) by (simp_all add: word_less_nat_alt)
  have "p = q" using e pq lt by linarith
  with e pq show "a = b \<and> i = j" by (simp add: word_unat_eq_iff)
qed simp

lemma ld32_st32_slot:
  assumes "page_al a" "i < 1024" "page_al b" "j < 1024"
  shows "ld32 (st32 m (slot a i) v) (slot b j) = (if a = b \<and> i = j then v else ld32 m (slot b j))"
  using slot_eq_iff [OF assms] ld32_st32_other [of "slot a i" "slot b j"] assms
  by (auto simp: ld32_st32_same)

lemma entries_iff: "i \<in> set entries \<longleftrightarrow> i < 1024"
proof
  assume "i < 1024"
  then have "i = of_nat (unat i)" "unat i < 1024" by (simp_all add: word_less_nat_alt)
  then show "i \<in> set entries" unfolding entries_def set_map by (intro image_eqI [of _ _ "unat i"]) simp_all
qed (auto simp: entries_def word_less_nat_alt unsigned_of_nat take_bit_nat_eq_self)

lemma fold_st32_slots:
  assumes "page_al a" "page_al b" "j < 1024" "set xs \<subseteq> {i. i < 1024}"
  shows "ld32 (fold (\<lambda>i m. st32 m (slot a i) (f i)) xs m) (slot b j) =
     (if a = b \<and> j \<in> set xs then f j else ld32 m (slot b j))"
  using assms(4) by (induction xs arbitrary: m) (auto simp: ld32_st32_slot assms)

lemma ld32_zero_table:
  assumes "page_al a" "page_al b" "j < 1024"
  shows "ld32 (zero_table a m) (slot b j) = (if a = b then 0 else ld32 m (slot b j))"
  using fold_st32_slots [OF assms, of entries "\<lambda>_. 0" m] assms(3)
  by (simp add: zero_table_def entries_iff subset_eq)

lemma clone_pdes_slots:
  assumes "page_al (page_dir_phys kp)" "page_al (page_dir_phys pg)" "page_dir_phys kp \<noteq> page_dir_phys pg"
    "page_al b" "j < 1024"
  shows "ld32 (clone_pdes kp pg m) (slot b j) =
     (if b = page_dir_phys pg \<and> has (get_pde m kp j) PAGE_PRESENT then get_pde m kp j else ld32 m (slot b j))"
proof -
  let ?f = "\<lambda>i m. if has (get_pde m kp i) PAGE_PRESENT then set_pde m pg i (get_pde m kp i) else m"
  have "ld32 (fold ?f xs m) (slot b j) =
     (if b = page_dir_phys pg \<and> j \<in> set xs \<and> has (get_pde m kp j) PAGE_PRESENT then get_pde m kp j else ld32 m (slot b j))"
    if "set xs \<subseteq> {i. i < 1024}" for xs
    using that
  proof (induction xs arbitrary: m)
    case (Cons i xs)
    have k: "get_pde (?f i m) kp j' = get_pde m kp j'" if "j' < 1024" for j'
      using Cons.prems that assms by (auto simp: get_pde_def set_pde_def ld32_st32_slot)
    show ?case using Cons k [OF assms(5)] assms by (auto simp: get_pde_def set_pde_def ld32_st32_slot)
  qed simp
  then show ?thesis using assms(5) by (simp add: clone_pdes_def entries_iff subset_eq)
qed

section \<open>Flag bits and page frames\<close>

lemma has_bit [simp]:
  "has v PAGE_PRESENT = bit v 0" "has v PAGE_RW = bit v 1" "has v PAGE_USER = bit v 2" "has v PAGE_PSE = bit v 7"
  using and_exp_eq_0_iff_not_bit [of v 0] and_exp_eq_0_iff_not_bit [of v 1] and_exp_eq_0_iff_not_bit [of v 2]
    and_exp_eq_0_iff_not_bit [of v 7]
  by (simp_all add: has_def PAGE_PRESENT_def PAGE_RW_def PAGE_USER_def PAGE_PSE_def)

lemma frame_mask: "(0xFFFFF000 :: u32) = NOT (mask 12)"
  by (simp add: mask_eq_exp_minus_1 word_uint_eq_iff)

lemma low_mask: "(0xFFF :: u32) = mask 12" "(0x3FF :: u32) = mask 10" "(0x3FFFFF :: u32) = mask 22"
  by (simp_all add: mask_eq_exp_minus_1)

lemma flag_bits [simp]:
  "bit PAGE_PRESENT n \<longleftrightarrow> n = 0" "bit PAGE_RW n \<longleftrightarrow> n = 1" "bit PAGE_USER n \<longleftrightarrow> n = 2" "bit PAGE_PSE n \<longleftrightarrow> n = 7"
  using bit_exp_iff [of 0 n, where 'a = u32] bit_exp_iff [of 1 n, where 'a = u32]
    bit_exp_iff [of 2 n, where 'a = u32] bit_exp_iff [of 7 n, where 'a = u32]
  by (auto simp: PAGE_PRESENT_def PAGE_RW_def PAGE_USER_def PAGE_PSE_def possible_bit_word)

declare bit_numeral_word_iff [simp del]

lemma bit_mask_words [simp]:
  "bit (0xFFFFF000 :: u32) n \<longleftrightarrow> 12 \<le> n \<and> n < 32" "bit (0xFFF :: u32) n \<longleftrightarrow> n < 12"
  "bit (0x3FF :: u32) n \<longleftrightarrow> n < 10" "bit (0x3FFFFF :: u32) n \<longleftrightarrow> n < 22"
  unfolding frame_mask low_mask by (auto simp: bit_simps)

lemma bit_frame: "bit (v AND 0xFFFFF000 :: u32) n \<longleftrightarrow> bit v n \<and> 12 \<le> n"
  using bit_imp_le_length [of v n] by (auto simp: bit_and_iff)

lemma page_al_frame: "page_al (v AND 0xFFFFF000)"
  unfolding page_al_def frame_mask unat_and_not_mask by simp

lemma page_al_frame_id: "page_al a \<Longrightarrow> a AND 0xFFFFF000 = a"
  by (auto simp: frame_mask word_unat_eq_iff unat_and_not_mask page_al_def)

lemma page_al_low: "page_al a \<Longrightarrow> n < 12 \<Longrightarrow> \<not> bit a n"
  using bit_frame [of a n] page_al_frame_id [of a] by simp

lemma table_pde:
  assumes "page_al pt"
  shows "(pt OR PAGE_PRESENT OR PAGE_RW OR PAGE_USER) AND 0xFFFFF000 = pt"
    "bit (pt OR PAGE_PRESENT OR PAGE_RW OR PAGE_USER) 0" "\<not> bit (pt OR PAGE_PRESENT OR PAGE_RW OR PAGE_USER) 7"
proof -
  show "(pt OR PAGE_PRESENT OR PAGE_RW OR PAGE_USER) AND 0xFFFFF000 = pt"
  proof (rule bit_word_eqI)
    fix n assume "n < LENGTH(32)"
    then show "bit ((pt OR PAGE_PRESENT OR PAGE_RW OR PAGE_USER) AND 0xFFFFF000) n = bit pt n"
      using page_al_low [OF assms, of n] by (cases "n < 12") (auto simp: bit_and_iff bit_or_iff)
  qed
qed (use page_al_low [OF assms, of 7] in \<open>auto simp: bit_or_iff\<close>)

lemma leaf_pte:
  "((ph AND 0xFFFFF000) OR (flags AND 0xFFF) OR PAGE_PRESENT) AND 0xFFFFF000 = ph AND 0xFFFFF000"
  "bit ((ph AND 0xFFFFF000) OR (flags AND 0xFFF) OR PAGE_PRESENT) 0"
  "bit ((ph AND 0xFFFFF000) OR (flags AND 0xFFF) OR PAGE_PRESENT) 2 \<longleftrightarrow> bit flags 2"
  by (rule bit_word_eqI) (auto simp: bit_and_iff bit_or_iff)

lemma dir_index_less: "drop_bit 22 (va :: u32) < 1024"
proof -
  have "unat (drop_bit 22 va) = unat va div 2 ^ 22"
    by (simp add: drop_bit_eq_div unat_div)
  then show ?thesis using unsigned_less [of va, where 'a = nat] by (simp only: word_less_nat_alt) simp
qed

lemma table_index_less: "drop_bit 12 (va :: u32) AND 0x3FF < 1024"
proof -
  have "unat (drop_bit 12 va AND 0x3FF) = unat (drop_bit 12 va) mod 1024"
    unfolding low_mask by (simp add: unat_and_mask)
  then show ?thesis by (simp add: word_less_nat_alt)
qed

lemma same_page_iff:
  "drop_bit 12 (a :: u32) = drop_bit 12 b \<longleftrightarrow>
     drop_bit 22 a = drop_bit 22 b \<and> drop_bit 12 a AND 0x3FF = drop_bit 12 b AND 0x3FF"
proof
  assume e: "drop_bit 12 a = drop_bit 12 b"
  have "drop_bit 22 w = drop_bit 10 (drop_bit 12 w)" for w :: u32
    unfolding drop_bit_drop_bit by simp
  with e show "drop_bit 22 a = drop_bit 22 b \<and> drop_bit 12 a AND 0x3FF = drop_bit 12 b AND 0x3FF"
    by (simp only: refl)
next
  assume e: "drop_bit 22 a = drop_bit 22 b \<and> drop_bit 12 a AND 0x3FF = drop_bit 12 b AND 0x3FF"
  show "drop_bit 12 a = drop_bit 12 b"
  proof (rule bit_word_eqI)
    fix n
    have hi: "bit a (22 + k) = bit b (22 + k)" for k
      using arg_cong [OF conjunct1 [OF e], of "\<lambda>w. bit w k"] by (simp add: bit_simps)
    have lo: "bit a (12 + k) = bit b (12 + k)" if "k < 10" for k
      using arg_cong [OF conjunct2 [OF e], of "\<lambda>w. bit w k"] that by (simp add: bit_simps)
    show "bit (drop_bit 12 a) n = bit (drop_bit 12 b) n"
      using lo [of n] hi [of "n - 10"] by (cases "n < 10") (simp_all add: bit_simps)
  qed
qed

section \<open>A directory as a map\<close>

definition is_table :: "u32 \<Rightarrow> bool" where
  "is_table pde = (has pde PAGE_PRESENT \<and> \<not> has pde PAGE_PSE)"

definition table_at :: "mem \<Rightarrow> pager \<Rightarrow> u32 \<Rightarrow> u32" where
  "table_at m pg i = get_pde m pg i AND 0xFFFFF000"

definition taken :: "phys \<Rightarrow> u32 \<Rightarrow> bool" where
  "taken p a = (a \<in> managed (pmm p) \<and> a \<notin> free_pages (pmm p))"

text \<open>The directory and its page tables are different allocated pages.\<close>

definition pager_wf :: "pager \<Rightarrow> phys \<Rightarrow> bool" where
  "pager_wf pg p = (mm_inv (pmm p) \<and> taken p (page_dir_phys pg) \<and>
     (\<forall>i < 1024. is_table (get_pde (ram p) pg i) \<longrightarrow>
        taken p (table_at (ram p) pg i) \<and> table_at (ram p) pg i \<noteq> page_dir_phys pg) \<and>
     (\<forall>i < 1024. \<forall>j < 1024. is_table (get_pde (ram p) pg i) \<and> is_table (get_pde (ram p) pg j) \<and>
        table_at (ram p) pg i = table_at (ram p) pg j \<longrightarrow> i = j))"

lemma managed_al: "mm_inv m \<Longrightarrow> a \<in> managed m \<Longrightarrow> page_al a \<and> a \<noteq> 0"
  by (auto simp: managed_def mm_inv_def page_al_def unat_page_addr mm_geom_def page_addr_nonzero)

lemma pager_wfD:
  assumes "pager_wf pg p"
  shows "mm_inv (pmm p)" "page_al (page_dir_phys pg)" "page_dir_phys pg \<noteq> 0" "taken p (page_dir_phys pg)"
  using assms managed_al [of "pmm p" "page_dir_phys pg"] by (auto simp: pager_wf_def taken_def)

lemma pager_wf_table:
  assumes "pager_wf pg p" "i < 1024" "is_table (get_pde (ram p) pg i)"
  shows "taken p (table_at (ram p) pg i)" "table_at (ram p) pg i \<noteq> page_dir_phys pg" "page_al (table_at (ram p) pg i)"
  using assms by (auto simp: pager_wf_def table_at_def page_al_frame)

definition lookup :: "mem \<Rightarrow> pager \<Rightarrow> u32 \<Rightarrow> u32" where
  "lookup m pg va = ld32 m (slot (table_at m pg (drop_bit 22 va)) (drop_bit 12 va AND 0x3FF))"

lemma translate_user_alt:
  "translate_user m pg va =
     (let pde = get_pde m pg (drop_bit 22 va) in
      if \<not> has pde PAGE_PRESENT then 0
      else if has pde PAGE_PSE then
        (if \<not> has pde PAGE_USER then 0 else (pde AND 0xFFC00000) + (va AND 0x3FFFFF))
      else if has (lookup m pg va) PAGE_PRESENT \<and> has (lookup m pg va) PAGE_USER
           then (lookup m pg va AND 0xFFFFF000) + (va AND 0xFFF) else 0)"
  by (simp add: translate_user_def lookup_def table_at_def Let_def)

lemma translate_user_cong:
  assumes "get_pde m' pg (drop_bit 22 va) = get_pde m pg (drop_bit 22 va)"
    "is_table (get_pde m pg (drop_bit 22 va)) \<Longrightarrow> lookup m' pg va = lookup m pg va"
  shows "translate_user m' pg va = translate_user m pg va"
  using assms by (auto simp: translate_user_alt Let_def is_table_def)

text \<open>Writing an entry of a page table of the directory.\<close>

lemma set_leaf:
  fixes v :: u32
  assumes wf: "pager_wf pg p" and tab: "is_table (get_pde (ram p) pg (drop_bit 22 virt))"
  defines "m' \<equiv> st32 (ram p) (slot (table_at (ram p) pg (drop_bit 22 virt)) (drop_bit 12 virt AND 0x3FF)) v"
  shows "pager_wf pg (p\<lparr>ram := m'\<rparr>)"
    "\<And>i. i < 1024 \<Longrightarrow> get_pde m' pg i = get_pde (ram p) pg i"
    "lookup m' pg va = (if drop_bit 12 va = drop_bit 12 virt then v else lookup (ram p) pg va) \<or>
     \<not> is_table (get_pde (ram p) pg (drop_bit 22 va))"
proof -
  note t = pager_wf_table [OF wf dir_index_less tab]
  show pde: "get_pde m' pg i = get_pde (ram p) pg i" if "i < 1024" for i
    using t that pager_wfD [OF wf] by (auto simp: get_pde_def m'_def ld32_st32_slot table_index_less)
  then show "pager_wf pg (p\<lparr>ram := m'\<rparr>)"
    using wf by (simp add: pager_wf_def table_at_def taken_def)
  show "lookup m' pg va = (if drop_bit 12 va = drop_bit 12 virt then v else lookup (ram p) pg va) \<or>
     \<not> is_table (get_pde (ram p) pg (drop_bit 22 va))"
  proof (cases "is_table (get_pde (ram p) pg (drop_bit 22 va))")
    case True
    have same: "table_at (ram p) pg (drop_bit 22 va) = table_at (ram p) pg (drop_bit 22 virt) \<longleftrightarrow> drop_bit 22 va = drop_bit 22 virt"
      using wf True tab dir_index_less [of va] dir_index_less [of virt] unfolding pager_wf_def by metis
    have "table_at m' pg (drop_bit 22 va) = table_at (ram p) pg (drop_bit 22 va)"
      by (simp add: table_at_def pde dir_index_less)
    then show ?thesis
      using t(3) pager_wf_table(3) [OF wf dir_index_less True] same same_page_iff [of va virt]
      by (auto simp: lookup_def m'_def ld32_st32_slot table_index_less)
  qed simp
qed

text \<open>Installing a fresh, zeroed page table.\<close>

lemma new_table:
  assumes wf: "pager_wf pg p" and al: "mm_alloc_page (pmm p) = (pt, mm')" "pt \<noteq> 0"
    and old: "\<not> is_table (get_pde (ram p) pg k)" and k: "k < 1024"
  defines "pde \<equiv> pt OR PAGE_PRESENT OR PAGE_RW OR PAGE_USER"
  defines "m' \<equiv> set_pde (zero_table pt (ram p)) pg k pde"
  shows "pager_wf pg \<lparr>ram = m', pmm = mm'\<rparr>" "is_table (get_pde m' pg k)" "table_at m' pg k = pt"
    "\<And>i. i < 1024 \<Longrightarrow> get_pde m' pg i = (if i = k then pde else get_pde (ram p) pg i)"
    "\<And>va. drop_bit 22 va = k \<Longrightarrow> lookup m' pg va = 0"
    "\<And>va. drop_bit 22 va \<noteq> k \<Longrightarrow> is_table (get_pde (ram p) pg (drop_bit 22 va)) \<Longrightarrow> lookup m' pg va = lookup (ram p) pg va"
proof -
  note w = pager_wfD [OF wf]
  note fr = pages.alloc_fresh [OF w(1) al]
  have ptal: "page_al pt" using fr managed_al [of "pmm p" pt] pages.free_pool [OF w(1)] w(1) by auto
  have dir: "pt \<noteq> page_dir_phys pg" using fr w(4) by (auto simp: taken_def)
  have tbl: "pt \<noteq> table_at (ram p) pg i" if "i < 1024" "is_table (get_pde (ram p) pg i)" for i
    using pager_wf_table(1) [OF wf that] fr by (auto simp: taken_def)
  have tk: "taken \<lparr>ram = m', pmm = mm'\<rparr> a \<longleftrightarrow> taken p a \<or> a = pt" for a
    using fr pages.free_pool [OF w(1)] by (auto simp: taken_def)
  note tp = table_pde [OF ptal, folded pde_def]
  show pde: "get_pde m' pg i = (if i = k then pde else get_pde (ram p) pg i)" if "i < 1024" for i
    using that k w ptal dir by (auto simp: m'_def get_pde_def set_pde_def ld32_st32_slot ld32_zero_table)
  show ta: "table_at m' pg k = pt" using tp k by (simp add: table_at_def pde)
  show it: "is_table (get_pde m' pg k)" using tp k by (simp add: is_table_def pde)
  have to: "table_at m' pg i = table_at (ram p) pg i" if "i < 1024" "i \<noteq> k" for i
    using that by (simp add: table_at_def pde)
  show "pager_wf pg \<lparr>ram = m', pmm = mm'\<rparr>"
    unfolding pager_wf_def
  proof (intro conjI allI impI)
    show "mm_inv (pmm \<lparr>ram = m', pmm = mm'\<rparr>)" using fr by simp
    show "taken \<lparr>ram = m', pmm = mm'\<rparr> (page_dir_phys pg)" using w(4) tk by simp
  next
    fix i :: u32
    assume i: "i < 1024" "is_table (get_pde (ram \<lparr>ram = m', pmm = mm'\<rparr>) pg i)"
    then show "taken \<lparr>ram = m', pmm = mm'\<rparr> (table_at (ram \<lparr>ram = m', pmm = mm'\<rparr>) pg i)"
      "table_at (ram \<lparr>ram = m', pmm = mm'\<rparr>) pg i \<noteq> page_dir_phys pg"
      using pager_wf_table [OF wf i(1)] ta dir to by (cases "i = k"; simp add: tk pde)+
  next
    fix i j :: u32
    assume ij: "i < 1024" "j < 1024" and a: "is_table (get_pde (ram \<lparr>ram = m', pmm = mm'\<rparr>) pg i) \<and>
      is_table (get_pde (ram \<lparr>ram = m', pmm = mm'\<rparr>) pg j) \<and>
      table_at (ram \<lparr>ram = m', pmm = mm'\<rparr>) pg i = table_at (ram \<lparr>ram = m', pmm = mm'\<rparr>) pg j"
    show "i = j"
    proof (cases "i = k \<or> j = k")
      case True
      then show ?thesis using a ij ta to tbl [of i] tbl [of j] by (auto simp: pde split: if_splits)
    next
      case False
      then have "is_table (get_pde (ram p) pg i)" "is_table (get_pde (ram p) pg j)"
        "table_at (ram p) pg i = table_at (ram p) pg j"
        using a ij to by (simp_all add: pde)
      then show ?thesis using wf ij unfolding pager_wf_def by blast
    qed
  qed
  show "lookup m' pg va = 0" if "drop_bit 22 va = k" for va
    using that ta ptal dir w k
    by (simp add: lookup_def) (simp add: m'_def set_pde_def ld32_st32_slot ld32_zero_table table_index_less)
  show "lookup m' pg va = lookup (ram p) pg va"
    if "drop_bit 22 va \<noteq> k" "is_table (get_pde (ram p) pg (drop_bit 22 va))" for va
  proof -
    note t = pager_wf_table [OF wf dir_index_less that(2)]
    have "lookup m' pg va = ld32 m' (slot (table_at (ram p) pg (drop_bit 22 va)) (drop_bit 12 va AND 0x3FF))"
      using to [OF dir_index_less that(1)] by (simp add: lookup_def)
    also have "\<dots> = lookup (ram p) pg va"
      using t tbl [OF dir_index_less that(2)] w(2) k ptal
      by (auto simp: lookup_def m'_def set_pde_def ld32_st32_slot ld32_zero_table table_index_less)
    finally show ?thesis .
  qed
qed

lemma map_leaf:
  fixes ph flags :: u32
  assumes "pager_wf pg q" "is_table (get_pde (ram q) pg (drop_bit 22 virt))"
  defines "v \<equiv> (ph AND 0xFFFFF000) OR (flags AND 0xFFF) OR PAGE_PRESENT"
  defines "m' \<equiv> st32 (ram q) (slot (table_at (ram q) pg (drop_bit 22 virt)) (drop_bit 12 virt AND 0x3FF)) v"
  shows "pager_wf pg (q\<lparr>ram := m'\<rparr>)"
    "translate_user m' pg va =
        (if drop_bit 12 va = drop_bit 12 virt
         then if has flags PAGE_USER then (ph AND 0xFFFFF000) + (va AND 0xFFF) else 0
         else translate_user (ram q) pg va)"
proof -
  note sl = set_leaf [OF assms(1,2), where v = v, folded m'_def]
  show "pager_wf pg (q\<lparr>ram := m'\<rparr>)" by (rule sl(1))
  show "translate_user m' pg va =
        (if drop_bit 12 va = drop_bit 12 virt
         then if has flags PAGE_USER then (ph AND 0xFFFFF000) + (va AND 0xFFF) else 0
         else translate_user (ram q) pg va)"
  proof (cases "drop_bit 12 va = drop_bit 12 virt")
    case True
    then have "drop_bit 22 va = drop_bit 22 virt" using same_page_iff by blast
    then show ?thesis
      using True sl(2) [OF dir_index_less] sl(3) [of va] assms(2) leaf_pte [of ph flags, folded v_def]
      by (auto simp: translate_user_alt is_table_def Let_def)
  next
    case False
    then show ?thesis
      using sl(2) [OF dir_index_less] sl(3) [of va] by (auto intro!: translate_user_cong)
  qed
qed

lemma tables_distinct:
  assumes "pager_wf pg p"
  shows "distinct (map (table_at (ram p) pg) (filter (\<lambda>i. is_table (get_pde (ram p) pg i)) (take n entries)))"
proof -
  have "distinct entries"
    by (auto simp: entries_def distinct_map inj_on_def word_unat_eq_iff unsigned_of_nat take_bit_nat_eq_self)
  moreover have "i < 1024" if "i \<in> set (take n entries)" for i
    using in_set_takeD [OF that] by (simp add: entries_iff)
  ultimately show ?thesis
    using assms unfolding pager_wf_def by (auto simp: distinct_map inj_on_def)
qed

lemma free_tables_alt:
  "free_tables m pg mm0 =
     fold mm_free_page (map (table_at m pg) (filter (\<lambda>i. is_table (get_pde m pg i)) (take 768 entries))) mm0"
proof -
  have "fold (\<lambda>i mm. let pde = get_pde m pg i in
             if has pde PAGE_PRESENT then (if \<not> has pde PAGE_PSE then mm_free_page (pde AND 0xFFFFF000) mm else mm)
             else mm) xs mm0 =
        fold mm_free_page (map (table_at m pg) (filter (\<lambda>i. is_table (get_pde m pg i)) xs)) mm0" for xs
    by (induction xs arbitrary: mm0) (auto simp: is_table_def table_at_def Let_def)
  then show ?thesis unfolding free_tables_def .
qed

text \<open>The pages a directory holds: the tracked data pages, the user page tables and the directory itself.\<close>

definition user_tables :: "mem \<Rightarrow> pager \<Rightarrow> u32 set" where
  "user_tables m pg = table_at m pg ` {i. i < 768 \<and> is_table (get_pde m pg i)}"

definition owned_ok :: "pager \<Rightarrow> phys \<Rightarrow> bool" where
  "owned_ok pg p = (distinct (owned_phys pg) \<and> length (owned_phys pg) \<le> MAX_OWNED \<and>
     (\<forall>a \<in> set (owned_phys pg). taken p a \<and> a \<noteq> page_dir_phys pg \<and> a \<notin> user_tables (ram p) pg))"

lemma take_768_entries: "set (take 768 entries) = {i. i < 768}"
proof -
  have "take 768 entries = map of_nat [0..<768]" by (simp add: entries_def take_map)
  moreover have "i \<in> of_nat ` {0..<768}" if "i < 768" for i :: u32
    using that by (intro image_eqI [of _ _ "unat i"]) (simp_all add: word_less_nat_alt)
  ultimately show ?thesis
    by (auto simp: word_less_nat_alt unsigned_of_nat take_bit_nat_eq_self)
qed

section \<open>Properties\<close>

text \<open>C16. On a well-formed directory \<open>map_page\<close> keeps the directory well formed and, unless the page table
  it needs cannot be allocated (then nothing changes), afterwards the mapped page translates to the given
  frame if the flags grant user access, and to 0 otherwise; every other page translates as before, except that
  a 4 MiB page that covered the mapped page is gone.\<close>

theorem map_page_translate:
  assumes "pager_wf pg p"
  shows "case map_page virt ph flags pg p of p' \<Rightarrow> pager_wf pg p' \<and>
     (if \<not> is_table (get_pde (ram p) pg (drop_bit 22 virt)) \<and> free_pages (pmm p) = {} then p' = p
      else \<forall>va. translate_user (ram p') pg va =
        (if drop_bit 12 va = drop_bit 12 virt
         then if has flags PAGE_USER then (ph AND 0xFFFFF000) + (va AND 0xFFF) else 0
         else if drop_bit 22 va = drop_bit 22 virt \<and> \<not> is_table (get_pde (ram p) pg (drop_bit 22 virt)) then 0
         else translate_user (ram p) pg va))"
proof -
  let ?k = "drop_bit 22 virt"
  let ?v = "(ph AND 0xFFFFF000) OR (flags AND 0xFFF) OR PAGE_PRESENT"
  show ?thesis
  proof (cases "is_table (get_pde (ram p) pg ?k)")
    case True
    then have "map_page virt ph flags pg p =
        p\<lparr>ram := st32 (ram p) (slot (table_at (ram p) pg ?k) (drop_bit 12 virt AND 0x3FF)) ?v\<rparr>"
      by (simp add: map_page_def Let_def is_table_def table_at_def)
    with map_leaf [OF assms True] True show ?thesis by simp
  next
    case False
    obtain pt mm' where al: "mm_alloc_page (pmm p) = (pt, mm')" by (cases "mm_alloc_page (pmm p)")
    have inv: "mm_inv (pmm p)" using pager_wfD [OF assms] by blast
    show ?thesis
    proof (cases "pt = 0")
      case True
      then have "free_pages (pmm p) = {}" "mm' = pmm p"
        using pages.alloc_null_iff [OF inv] pages.alloc_none [OF inv] al by auto
      then show ?thesis
        using True False al assms by (cases p) (simp add: map_page_def Let_def is_table_def)
    next
      case pt: False
      define pde where "pde = pt OR PAGE_PRESENT OR PAGE_RW OR PAGE_USER"
      define q where "q = \<lparr>ram = set_pde (zero_table pt (ram p)) pg ?k pde, pmm = mm'\<rparr>"
      note nt = new_table [OF assms al pt False dir_index_less, folded pde_def]
      have q: "pager_wf pg q" "is_table (get_pde (ram q) pg ?k)" using nt by (simp_all add: q_def)
      have mp: "map_page virt ph flags pg p =
          q\<lparr>ram := st32 (ram q) (slot (table_at (ram q) pg ?k) (drop_bit 12 virt AND 0x3FF)) ?v\<rparr>"
        using False al pt by (auto simp: map_page_def Let_def is_table_def table_at_def q_def pde_def)
      have "translate_user (ram q) pg va = (if drop_bit 22 va = ?k then 0 else translate_user (ram p) pg va)" for va
      proof (cases "drop_bit 22 va = ?k")
        case True
        then show ?thesis using q(2) nt(5) [of va] by (simp add: q_def translate_user_alt Let_def is_table_def)
      next
        case False
        then show ?thesis using nt(4) [OF dir_index_less] nt(6) [of va] by (auto simp: q_def intro!: translate_user_cong)
      qed
      moreover have "free_pages (pmm p) \<noteq> {}" using pages.alloc_null_iff [OF inv] al pt by auto
      ultimately show ?thesis
        unfolding mp using map_leaf [OF q] False same_page_iff by auto
    qed
  qed
qed

definition demo_pg :: pager where
  "demo_pg = \<lparr>page_dir_phys = 0x200000, owned_phys = []\<rparr>"

definition demo_phys :: phys where
  "demo_phys = \<lparr>ram = \<lambda>_. 0, pmm = demo_mm\<rparr>"

lemma ld32_zero [simp]: "ld32 (\<lambda>_. 0) a = 0"
  unfolding ld32_def by (rule bit_word_eqI) (simp add: bit_word_cat_iff)

lemma demo_taken: "taken demo_phys 0x200000" "free_pages demo_mm = {0x201000}"
proof -
  show f: "free_pages demo_mm = {0x201000}"
    by (simp add: free_pages_def demo_mm_free) (simp add: page_addr_def demo_mm_def PAGE_SIZE_def)
  have "0x200000 = page_addr demo_mm 0" by (simp add: page_addr_def demo_mm_def)
  then have "0x200000 \<in> managed demo_mm" by (auto simp: managed_def demo_mm_def)
  with f show "taken demo_phys 0x200000" by (simp add: taken_def demo_phys_def)
qed

lemma demo_pager_wf: "pager_wf demo_pg demo_phys"
  using demo_taken(1) demo_mm_inv by (simp add: pager_wf_def demo_pg_def get_pde_def is_table_def) (simp add: demo_phys_def)

theorem map_page_translate_witness:
  "translate_user (ram (map_page 0x400000 0x800000 7 demo_pg demo_phys)) demo_pg 0x400123 = 0x800123"
proof -
  have "drop_bit 12 (0x400123 :: u32) = drop_bit 12 0x400000" by simp
  moreover have "bit (7 :: u32) 2" by (simp add: bit_numeral_word_iff)
  ultimately show ?thesis
    using map_page_translate [OF demo_pager_wf, of "0x400000" "0x800000" 7] demo_taken(2) by (simp add: demo_phys_def)
qed

text \<open>C17. Destroying a well-formed directory returns to the page allocator exactly the pages it holds: its
  tracked data pages, its page tables below 0xC0000000 and the directory page; the allocator stays well
  formed and memory is not written.\<close>

theorem pager_delete_releases:
  assumes "pager_wf pg p" "owned_ok pg p"
  shows "mm_inv (pmm (pager_delete pg p)) \<and> ram (pager_delete pg p) = ram p \<and>
    free_pages (pmm (pager_delete pg p)) =
      free_pages (pmm p) \<union> set (owned_phys pg) \<union> user_tables (ram p) pg \<union> {page_dir_phys pg}"
proof -
  define ts where "ts = map (table_at (ram p) pg) (filter (\<lambda>i. is_table (get_pde (ram p) pg i)) (take 768 entries))"
  have ts: "set ts = user_tables (ram p) pg"
    by (simp only: ts_def set_map set_filter take_768_entries user_tables_def) simp
  have tt: "taken p a \<and> a \<noteq> page_dir_phys pg" if "a \<in> user_tables (ram p) pg" for a
    using that pager_wf_table [OF assms(1)] by (auto simp: user_tables_def word_less_nat_alt)
  let ?xs = "owned_phys pg @ ts @ [page_dir_phys pg]"
  have "distinct ?xs"
    using tables_distinct [OF assms(1), of 768] assms(2) tt by (auto simp: ts owned_ok_def ts_def [symmetric])
  moreover have "set ?xs \<subseteq> managed (pmm p) - free_pages (pmm p)"
    using tt assms(2) pager_wfD(4) [OF assms(1)] by (auto simp: ts owned_ok_def taken_def)
  moreover have "pmm (pager_delete pg p) = fold mm_free_page ?xs (pmm p)"
    by (simp add: pager_delete_def Let_def free_tables_alt ts_def)
  ultimately show ?thesis
    using pages.release_all [OF pager_wfD(1) [OF assms(1)], of ?xs] ts by (simp add: pager_delete_def Let_def Un_assoc)
qed

theorem pager_delete_releases_witness:
  "free_pages (pmm (pager_delete demo_pg demo_phys)) = {0x200000, 0x201000}"
proof -
  have "owned_ok demo_pg demo_phys" by (simp add: owned_ok_def demo_pg_def)
  moreover have "user_tables (ram demo_phys) demo_pg = {}"
    by (simp add: user_tables_def is_table_def get_pde_def demo_phys_def)
  ultimately show ?thesis
    using pager_delete_releases [OF demo_pager_wf] demo_taken(2) by (simp add: demo_phys_def demo_pg_def)
qed

section \<open>Kernel mappings and isolation\<close>

text \<open>The constructor on an allocator that has a page left.\<close>

lemma pager_new_spec:
  assumes inv: "mm_inv (pmm p)" "free_pages (pmm p) \<noteq> {}" and new: "pager_new kpo p = (pg, p')"
    and kp: "case kpo of None \<Rightarrow> True | Some kp \<Rightarrow> taken p (page_dir_phys kp) \<and>
       (\<forall>i < 1024. \<not> is_table (get_pde (ram p) kp i))"
  shows "mm_inv (pmm p')" "page_dir_phys pg \<in> free_pages (pmm p)" "free_pages (pmm p') = free_pages (pmm p) - {page_dir_phys pg}"
    "managed (pmm p') = managed (pmm p)" "page_al (page_dir_phys pg)" "pager_wf pg p'"
    "\<And>i. i < 1024 \<Longrightarrow> get_pde (ram p') pg i =
       (case kpo of None \<Rightarrow> 0 | Some kp \<Rightarrow> if has (get_pde (ram p) kp i) PAGE_PRESENT then get_pde (ram p) kp i else 0)"
    "\<And>b j. page_al b \<Longrightarrow> b \<noteq> page_dir_phys pg \<Longrightarrow> j < 1024 \<Longrightarrow> ld32 (ram p') (slot b j) = ld32 (ram p) (slot b j)"
proof -
  obtain d mm' where al: "mm_alloc_page (pmm p) = (d, mm')" by (cases "mm_alloc_page (pmm p)")
  have d0: "d \<noteq> 0" using pages.alloc_null_iff [OF inv(1)] inv(2) al by auto
  note fr = pages.alloc_fresh [OF inv(1) al d0]
  have e: "page_dir_phys pg = d" "pmm p' = mm'" using new al by (auto simp: pager_new_def Let_def)
  show "mm_inv (pmm p')" "page_dir_phys pg \<in> free_pages (pmm p)" "managed (pmm p') = managed (pmm p)"
    "free_pages (pmm p') = free_pages (pmm p) - {page_dir_phys pg}" using fr e by auto
  have dal: "page_al d" using fr managed_al [OF inv(1)] pages.free_pool [OF inv(1)] by blast
  with e show "page_al (page_dir_phys pg)" by simp
  show pde: "get_pde (ram p') pg i =
       (case kpo of None \<Rightarrow> 0 | Some kp \<Rightarrow> if has (get_pde (ram p) kp i) PAGE_PRESENT then get_pde (ram p) kp i else 0)"
    if "i < 1024" for i
  proof (cases kpo)
    case None
    then show ?thesis using new al that dal by (auto simp: pager_new_def Let_def get_pde_def ld32_zero_table)
  next
    case (Some k)
    have k: "page_al (page_dir_phys k)" "page_dir_phys k \<noteq> d"
      using kp Some managed_al [OF inv(1)] fr by (auto simp: taken_def)
    then show ?thesis
      using Some new al that dal k by (auto simp: pager_new_def Let_def get_pde_def clone_pdes_slots ld32_zero_table)
  qed
  show "ld32 (ram p') (slot b j) = ld32 (ram p) (slot b j)" if "page_al b" "b \<noteq> page_dir_phys pg" "j < 1024" for b j
  proof (cases kpo)
    case None
    then show ?thesis using new al that dal by (auto simp: pager_new_def Let_def ld32_zero_table)
  next
    case (Some k)
    have k: "page_al (page_dir_phys k)" "page_dir_phys k \<noteq> d"
      using kp Some managed_al [OF inv(1)] fr by (auto simp: taken_def)
    then show ?thesis using Some new al that dal by (auto simp: pager_new_def Let_def clone_pdes_slots ld32_zero_table)
  qed
  have "\<not> is_table (get_pde (ram p') pg i)" if "i < 1024" for i
    using kp pde [OF that] that by (auto simp: is_table_def split: option.splits if_splits)
  then show "pager_wf pg p'"
    using fr e pages.free_pool [OF inv(1)] by (auto simp: pager_wf_def taken_def)
qed

definition kernel_pde :: "u32 \<Rightarrow> u32" where
  "kernel_pde pa = (pa AND 0xFFC00000) OR PAGE_PRESENT OR PAGE_RW OR PAGE_PSE"

lemma kernel_pde_bits: "bit (kernel_pde pa) 0" "bit (kernel_pde pa) 7" "\<not> bit (kernel_pde pa) 2"
proof -
  have eq: "(0xFFC00000 :: u32) = NOT (mask 22)" by (simp add: mask_eq_exp_minus_1 word_uint_eq_iff)
  have m: "bit (0xFFC00000 :: u32) n \<longleftrightarrow> 22 \<le> n \<and> n < 32" for n unfolding eq by (auto simp: bit_simps)
  show "bit (kernel_pde pa) 0" "bit (kernel_pde pa) 7" "\<not> bit (kernel_pde pa) 2"
    unfolding kernel_pde_def by (simp_all add: bit_or_iff bit_and_iff m)
qed

lemma map_kernel_fold:
  assumes "page_al (page_dir_phys kp)" "j < 1024"
  shows "get_pde (fold (\<lambda>pa m. map_kernel_4mb pa kp m) xs m) kp j =
    (case find (\<lambda>pa. drop_bit 22 pa = j) (rev xs) of None \<Rightarrow> get_pde m kp j | Some pa \<Rightarrow> kernel_pde pa)"
proof (induction xs arbitrary: m rule: rev_induct)
  case (snoc pa xs)
  then show ?case
    using assms by (simp add: map_kernel_4mb_def get_pde_def set_pde_def ld32_st32_slot dir_index_less kernel_pde_def)
qed simp

lemma kernel_pde_cong:
  assumes "drop_bit 22 a = drop_bit 22 b"
  shows "kernel_pde a = kernel_pde b"
proof -
  have eq: "(0xFFC00000 :: u32) = NOT (mask 22)" by (simp add: mask_eq_exp_minus_1 word_uint_eq_iff)
  have "w AND 0xFFC00000 = push_bit 22 (drop_bit 22 w)" for w :: u32
    unfolding eq by (rule bit_word_eqI) (auto simp: bit_simps)
  with assms show ?thesis by (simp add: kernel_pde_def)
qed

definition kernel_regions :: "u32 \<Rightarrow> u32 list" where
  "kernel_regions fb = map (\<lambda>i. of_nat i * 0x400000) [0..<16] @ (if fb \<ge> 0x100000 then [fb] else [])"

lemma init_kernel_paging_alt:
  "init_kernel_paging p c = (kp, p', c') \<Longrightarrow>
     \<exists>p1 fb. pager_new None p = (kp, p1) \<and> pmm p' = pmm p1 \<and>
       fb = ld32 (fold (\<lambda>i m. map_kernel_4mb (of_nat i * 0x400000) kp m) [0..<16] (ram p1)) 0x500 \<and>
       ram p' = fold (\<lambda>pa m. map_kernel_4mb pa kp m) (kernel_regions fb) (ram p1) \<and>
       cr3 c' = page_dir_phys kp \<and> cr0 c' = cr0 c OR 0x80000000 \<and> cr4 c' = cr4 c OR 0x10"
  by (cases "pager_new None p")
    (auto simp: init_kernel_paging_def Let_def pager_load_def kernel_regions_def fold_map o_def split: if_splits
      intro!: exI [of _ "ld32 (fold (\<lambda>i m. map_kernel_4mb (of_nat i * 0x400000) kp m) [0..<16] (ram (snd (pager_new None p)))) 0x500"])

lemma kernel_region_index: "i < 16 \<Longrightarrow> drop_bit 22 (of_nat i * 0x400000 :: u32) = of_nat i"
proof -
  assume i: "i < 16"
  have a: "unat (of_nat i * 0x400000 :: u32) = i * 0x400000"
    using i by (simp add: unat_word_ariths unsigned_of_nat take_bit_nat_eq_self)
  have "unat (drop_bit 22 (of_nat i * 0x400000 :: u32)) = unat (of_nat i * 0x400000 :: u32) div 0x400000"
    by (simp add: drop_bit_eq_div unat_div)
  then have "unat (drop_bit 22 (of_nat i * 0x400000 :: u32)) = i" unfolding a by simp
  with i show ?thesis by (simp add: word_unat_eq_iff unsigned_of_nat take_bit_nat_eq_self)
qed

lemma find_some_iff_ex: "(\<exists>x \<in> set xs. P x) \<Longrightarrow> \<exists>y. find P xs = Some y \<and> y \<in> set xs \<and> P y"
  by (induction xs) auto

text \<open>What the kernel's directory holds after initialisation: every entry is empty or a kernel-only 4 MiB
  page, the first sixteen being the identity mapping of the low 64 MiB.\<close>

lemma init_kernel_dir:
  assumes "mm_inv (pmm p)" "free_pages (pmm p) \<noteq> {}" "init_kernel_paging p c = (kp, p', c')"
  shows "mm_inv (pmm p')" "taken p' (page_dir_phys kp)" "free_pages (pmm p') = free_pages (pmm p) - {page_dir_phys kp}"
    "\<And>j. j < 1024 \<Longrightarrow> get_pde (ram p') kp j = 0 \<or> (\<exists>pa. get_pde (ram p') kp j = kernel_pde pa)"
    "\<And>i. i < 16 \<Longrightarrow> get_pde (ram p') kp (of_nat i) = kernel_pde (of_nat i * 0x400000)"
    "0x100000 \<le> ld32 (ram p) 0x500 \<Longrightarrow> get_pde (ram p') kp (drop_bit 22 (ld32 (ram p) 0x500)) = kernel_pde (ld32 (ram p) 0x500)"
proof -
  obtain p1 fb where n: "pager_new None p = (kp, p1)" and e: "pmm p' = pmm p1"
      "ram p' = fold (\<lambda>pa m. map_kernel_4mb pa kp m) (kernel_regions fb) (ram p1)"
    and fb0: "fb = ld32 (fold (\<lambda>i m. map_kernel_4mb (of_nat i * 0x400000) kp m) [0..<16] (ram p1)) 0x500"
    using init_kernel_paging_alt [OF assms(3)] by blast
  note ns = pager_new_spec [OF assms(1,2) n, simplified]
  show "mm_inv (pmm p')" "free_pages (pmm p') = free_pages (pmm p) - {page_dir_phys kp}" using ns e by auto
  show "taken p' (page_dir_phys kp)"
    using ns e pages.free_pool [OF assms(1)] by (auto simp: taken_def)
  show "get_pde (ram p') kp j = 0 \<or> (\<exists>pa. get_pde (ram p') kp j = kernel_pde pa)" if "j < 1024" for j
    using map_kernel_fold [OF ns(5) that] ns(7) [OF that] unfolding e(2) by (auto split: option.splits)
  have s: "(0x500 :: u32) = slot 0 0x140" "page_al 0" "(0x140 :: u32) < 1024" by (simp_all add: slot_def page_al_def)
  have k0: "page_dir_phys kp \<noteq> 0"
  proof -
    obtain d mm' where al: "mm_alloc_page (pmm p) = (d, mm')" by (cases "mm_alloc_page (pmm p)")
    then have "d \<noteq> 0" using pages.alloc_null_iff [OF assms(1)] assms(2) by auto
    then show ?thesis using n al by (auto simp: pager_new_def Let_def)
  qed
  have "ld32 (fold (\<lambda>i m. map_kernel_4mb (of_nat i * 0x400000) kp m) xs m) 0x500 = ld32 m 0x500" for xs and m :: mem
  proof (induction xs arbitrary: m)
    case (Cons i xs)
    then show ?case unfolding s(1) using s(2,3) ns(5) k0
      by (simp add: map_kernel_4mb_def set_pde_def ld32_st32_slot dir_index_less)
  qed simp
  then have fb: "fb = ld32 (ram p) 0x500"
    unfolding fb0 s(1) using ns(8) [OF s(2) _ s(3)] k0 by simp
  show "get_pde (ram p') kp (drop_bit 22 (ld32 (ram p) 0x500)) = kernel_pde (ld32 (ram p) 0x500)" if f: "0x100000 \<le> ld32 (ram p) 0x500"
  proof -
    have "fb \<in> set (rev (kernel_regions fb))" using f by (simp add: kernel_regions_def fb)
    with find_some_iff_ex [of "rev (kernel_regions fb)" "\<lambda>pa. drop_bit 22 pa = drop_bit 22 fb"]
    obtain pa where "find (\<lambda>pa. drop_bit 22 pa = drop_bit 22 fb) (rev (kernel_regions fb)) = Some pa" "drop_bit 22 pa = drop_bit 22 fb"
      by blast
    then show ?thesis
      using map_kernel_fold [OF ns(5) dir_index_less [of fb]] kernel_pde_cong [of pa fb] unfolding e(2) fb [symmetric] by simp
  qed
  show "get_pde (ram p') kp (of_nat i) = kernel_pde (of_nat i * 0x400000)" if i: "i < 16" for i
  proof -
    have j: "(of_nat i :: u32) < 1024" using i by (simp add: word_less_nat_alt unsigned_of_nat take_bit_nat_eq_self)
    have "of_nat i * 0x400000 \<in> set (rev (kernel_regions fb))" using i by (auto simp: kernel_regions_def)
    with find_some_iff_ex [of "rev (kernel_regions fb)" "\<lambda>pa. drop_bit 22 pa = of_nat i"] kernel_region_index [OF i]
    obtain pa where "find (\<lambda>pa. drop_bit 22 pa = of_nat i) (rev (kernel_regions fb)) = Some pa" "drop_bit 22 pa = of_nat i"
      by blast
    then show ?thesis
      using map_kernel_fold [OF ns(5) j] kernel_pde_cong [of pa "of_nat i * 0x400000"] kernel_region_index [OF i]
      unfolding e(2) by simp
  qed
qed

text \<open>C8. After the kernel's directory is set up, a directory built by the constructor has the kernel's entry in each of its
  1024 slots, and the kernel's own directory is as it was: the low 64 MiB and, if the boot loader reported one, the 4 MiB page
  of the frame buffer are mapped for the kernel, every other entry is empty. The new directory is well formed and gives user
  code no access to any address; paging is enabled with the kernel's directory loaded.\<close>

theorem user_directory_isolated:
  assumes "mm_inv (pmm p)" "a \<in> free_pages (pmm p)" "b \<in> free_pages (pmm p)" "a \<noteq> b"
    "init_kernel_paging p c = (kp, p1, c1)" "pager_new (Some kp) p1 = (pg, p2)"
  shows "cr3 c1 = page_dir_phys kp \<and> has (cr0 c1) 0x80000000 \<and> pager_wf pg p2 \<and> page_dir_phys pg \<noteq> page_dir_phys kp \<and>
    (\<forall>va. translate_user (ram p2) pg va = 0) \<and>
    (\<forall>j < 1024. get_pde (ram p2) pg j = get_pde (ram p2) kp j \<and> get_pde (ram p2) kp j = get_pde (ram p1) kp j \<and>
       (get_pde (ram p2) kp j = 0 \<or> (\<exists>pa. get_pde (ram p2) kp j = kernel_pde pa))) \<and>
    (\<forall>i < 16. get_pde (ram p2) pg (of_nat i) = kernel_pde (of_nat i * 0x400000)) \<and>
    (0x100000 \<le> ld32 (ram p) 0x500 \<longrightarrow> get_pde (ram p2) pg (drop_bit 22 (ld32 (ram p) 0x500)) = kernel_pde (ld32 (ram p) 0x500))"
proof -
  note ik = init_kernel_dir [OF assms(1) _ assms(5)]
  have ne: "free_pages (pmm p) \<noteq> {}" "free_pages (pmm p1) \<noteq> {}" using assms(2-4) ik(3) by auto
  have nt: "\<forall>j < 1024. \<not> is_table (get_pde (ram p1) kp j)"
    using ik(4) [OF ne(1)] kernel_pde_bits by (force simp: is_table_def)
  have "case Some kp of None \<Rightarrow> True | Some kp \<Rightarrow> taken p1 (page_dir_phys kp) \<and> (\<forall>i < 1024. \<not> is_table (get_pde (ram p1) kp i))"
    using nt ik(2) [OF ne(1)] by simp
  note ns = pager_new_spec [OF ik(1) [OF ne(1)] ne(2) assms(6) this, unfolded option.case]
  have pde: "get_pde (ram p2) pg j = 0 \<or> (\<exists>pa. get_pde (ram p2) pg j = kernel_pde pa)" if "j < 1024" for j
    using ns(7) [OF that] ik(4) [OF ne(1) that] by auto
  have tr: "translate_user (ram p2) pg va = 0" for va
    using pde [OF dir_index_less [of va]] kernel_pde_bits by (auto simp: translate_user_def Let_def)
  have kal: "page_al (page_dir_phys kp)" "page_dir_phys kp \<noteq> page_dir_phys pg"
    using ik(2) [OF ne(1)] managed_al [OF ik(1) [OF ne(1)]] ns(2) by (auto simp: taken_def)
  have kk: "get_pde (ram p2) kp j = get_pde (ram p1) kp j" if "j < 1024" for j
    using ns(8) [OF kal that] by (simp add: get_pde_def)
  have same: "get_pde (ram p2) pg j = get_pde (ram p1) kp j" if "j < 1024" for j
    using ns(7) [OF that] ik(4) [OF ne(1) that] kernel_pde_bits(1) by auto
  have all: "\<forall>j < 1024. get_pde (ram p2) pg j = get_pde (ram p2) kp j \<and> get_pde (ram p2) kp j = get_pde (ram p1) kp j \<and>
       (get_pde (ram p2) kp j = 0 \<or> (\<exists>pa. get_pde (ram p2) kp j = kernel_pde pa))"
    using kk same ik(4) [OF ne(1)] by simp
  have id: "get_pde (ram p2) pg (of_nat i) = kernel_pde (of_nat i * 0x400000)" if "i < 16" for i
    using same [of "of_nat i"] ik(5) [OF ne(1) that] that
    by (simp add: word_less_nat_alt unsigned_of_nat take_bit_nat_eq_self)
  have fb: "get_pde (ram p2) pg (drop_bit 22 (ld32 (ram p) 0x500)) = kernel_pde (ld32 (ram p) 0x500)" if "0x100000 \<le> ld32 (ram p) 0x500"
    using same [OF dir_index_less] ik(6) [OF ne(1) that] by simp
  have "page_dir_phys pg \<noteq> page_dir_phys kp" using ns(2) ik(2) [OF ne(1)] by (auto simp: taken_def)
  moreover have "has (cr0 c1) 0x80000000 \<and> cr3 c1 = page_dir_phys kp"
  proof -
    have "(x OR 0x80000000) AND 0x80000000 = 0x80000000" for x :: u32
      by (rule bit_word_eqI) (auto simp: bit_simps)
    then show ?thesis using init_kernel_paging_alt [OF assms(5)] by (auto simp: has_def)
  qed
  ultimately show ?thesis using ns(6) tr all id fb by blast
qed

definition demo_mm2 :: mm where
  "demo_mm2 = \<lparr>bitmap = \<lambda>_. 0, total_pages = 2, free_count = 2, first_page = 0x200000, mem_top = 0x202000\<rparr>"

lemma demo_mm2_inv: "mm_inv demo_mm2" "free_pages demo_mm2 = {0x200000, 0x201000}"
proof -
  have f: "free_set demo_mm2 = {0, 1}"
    using word_below_2 [of "\<lambda>_. True"] by (auto simp: free_set_def demo_mm2_def bm_test_def)
  then have "mm_count 0 demo_mm2" by (simp add: mm_count_def) (simp add: demo_mm2_def)
  moreover have "mm_geom demo_mm2" by (simp add: mm_geom_def demo_mm2_def)
  ultimately show "mm_inv demo_mm2" unfolding mm_inv_def by (intro conjI exI [of _ 0]) simp_all
  show "free_pages demo_mm2 = {0x200000, 0x201000}"
    by (simp add: free_pages_def f) (simp add: page_addr_def demo_mm2_def PAGE_SIZE_def)
qed

theorem user_directory_isolated_witness:
  "\<exists>kp p1 c1 pg p2. init_kernel_paging \<lparr>ram = (\<lambda>a. if a = 0x503 then 0xFD else 0), pmm = demo_mm2\<rparr> \<lparr>cr0 = 0x11, cr3 = 0, cr4 = 0\<rparr> = (kp, p1, c1) \<and>
     pager_new (Some kp) p1 = (pg, p2) \<and> translate_user (ram p2) pg 0x100000 = 0 \<and> get_pde (ram p2) pg 0 = kernel_pde 0 \<and>
     get_pde (ram p2) pg 0x3F4 = kernel_pde 0xFD000000"
proof -
  let ?m = "\<lambda>a :: u32. if a = 0x503 then 0xFD else 0 :: u8"
  let ?p = "\<lparr>ram = ?m, pmm = demo_mm2\<rparr>"
  obtain kp p1 c1 where i: "init_kernel_paging ?p \<lparr>cr0 = 0x11, cr3 = 0, cr4 = 0\<rparr> = (kp, p1, c1)"
    by (metis surj_pair)
  obtain pg p2 where n: "pager_new (Some kp) p1 = (pg, p2)" by fastforce
  have fb: "ld32 ?m 0x500 = 0xFD000000" unfolding ld32_def by (simp add: word_cat_eq)
  from user_directory_isolated [OF _ _ _ _ i n, of "0x200000" "0x201000"] demo_mm2_inv fb
  have "translate_user (ram p2) pg 0x100000 = 0" "\<forall>i < 16. get_pde (ram p2) pg (of_nat i) = kernel_pde (of_nat i * 0x400000)"
    "get_pde (ram p2) pg 0x3F4 = kernel_pde 0xFD000000"
    by auto
  then show ?thesis using i n by (intro exI conjI) (auto dest: spec [of _ 0])
qed

end
