(* ===== verification/XE_Task.thy ===== *)
theory XE_Task
  imports XE_List XE_Heap XE_Paging
begin

text \<open>
  Tasks and the scheduler (\<^verbatim>\<open>src/src/kernel/task.h\<close>, \<^verbatim>\<open>src/src/kernel/task.cpp\<close> and the timer
  part of \<^verbatim>\<open>src/src/kernel/isr.cpp\<close>).

  The kernel state \<open>kst\<close> keeps the kernel's heap objects by type: task structs, paging managers,
  pipes and file buffers, each at the address kmalloc returned for it; the headers of the heap are the
  \<open>hheap\<close> of \<^verbatim>\<open>XE_Heap\<close>, kernel stacks are words of physical memory. The intrusive lists
  \<open>ready_queue\<close>, \<open>all_tasks\<close>, \<open>zombie_reap\<close> and the \<open>children\<close> of a task are the lists of their
  entries, which is what \<^verbatim>\<open>XE_List\<close> proves of the pointer operations as long as no entry is
  appended twice; a list node whose \<open>next\<close> is not null is an entry of its list.

  A store through a pointer that is not one of an object of its type is not represented here: the operation that
  would perform it has no result (see \<open>obj_put\<close> in \<^verbatim>\<open>XE_Sys\<close>).

  A task struct that was freed keeps its contents until its memory is used again; \<open>freed\<close> holds
  the addresses of such structs and \<open>stale\<close> records that one of them was read.

  Operations return \<open>None\<close> where the machine stops: a search of the heap that does not end, a
  halted processor with nothing to wake it, a null pointer.
\<close>

section \<open>Data\<close>

datatype task_state = TASK_RUNNING | TASK_READY | TASK_BLOCKED | TASK_DEAD

abbreviation (input) KSTACK_SIZE :: u32 where "KSTACK_SIZE \<equiv> 8192"
abbreviation (input) TASK_QUANTUM :: u32 where "TASK_QUANTUM \<equiv> 4"
abbreviation (input) TASK_SIZE :: u32 where "TASK_SIZE \<equiv> 496"

definition CAP_DISK_READ :: u32 where "CAP_DISK_READ = 1"
definition CAP_DISK_WRITE :: u32 where "CAP_DISK_WRITE = 2"
definition CAP_SCREEN :: u32 where "CAP_SCREEN = 4"
definition CAP_SHUTDOWN :: u32 where "CAP_SHUTDOWN = 8"
definition CAP_SIGNAL :: u32 where "CAP_SIGNAL = 16"
definition CAP_SYSCALL :: u32 where "CAP_SYSCALL = 32"
definition CAP_FILE_READ :: u32 where "CAP_FILE_READ = 64"
definition CAP_FILE_WRITE :: u32 where "CAP_FILE_WRITE = 128"
definition CAP_ALL :: u32 where
  "CAP_ALL = CAP_DISK_READ OR CAP_DISK_WRITE OR CAP_SCREEN OR CAP_SHUTDOWN OR CAP_SIGNAL OR CAP_SYSCALL OR
     CAP_FILE_READ OR CAP_FILE_WRITE"

definition MAX_FD :: nat where "MAX_FD = 16"

abbreviation (input) SIGINT :: nat where "SIGINT \<equiv> 2"
abbreviation (input) SIGKILL :: nat where "SIGKILL \<equiv> 9"
abbreviation (input) SIGSEGV :: nat where "SIGSEGV \<equiv> 11"
abbreviation (input) SIGTERM :: nat where "SIGTERM \<equiv> 15"
abbreviation (input) SIG_DFL :: u32 where "SIG_DFL \<equiv> 0"
abbreviation (input) SIG_IGN :: u32 where "SIG_IGN \<equiv> 1"

text \<open>The interrupt frame. The last two words exist only in a frame from ring 3.\<close>

record registers_t =
  r_edi :: u32
  r_esi :: u32
  r_ebp :: u32
  r_esp :: u32
  r_ebx :: u32
  r_edx :: u32
  r_ecx :: u32
  r_eax :: u32
  r_vec :: u32
  r_err_code :: u32
  r_eip :: u32
  r_cs :: u32
  r_eflags :: u32
  r_user_esp :: u32
  r_user_ss :: u32

record task_struct =
  pid :: u32
  t_ecx :: u32
  t_edx :: u32
  t_ebx :: u32
  t_ebp :: u32
  t_esi :: u32
  t_edi :: u32
  t_eax :: u32
  t_eip :: u32
  t_cs :: u32
  t_esp :: u32
  t_eflags :: u32
  user_esp :: u32
  user_ss :: u32
  state :: task_state
  kernel_stack :: u32
  entry :: u32
  arg :: u32
  paging :: u32
  user_stack :: u32
  parent :: u32
  exit_code :: u32
  children :: "u32 list"
  priority :: u8
  dynamic_boost :: u8
  boost_expire :: u32
  wake_tick :: u32
  quantum :: u32
  caps :: u32
  output_fd :: int
  fd_buf :: "u32 list"
  fd_size :: "u32 list"
  fd_pos :: "u32 list"
  fd_type :: "u8 list"
  pending_signals :: u32
  blocked_signals :: u32
  sig_handlers :: "u32 list"
  sig_saved_eip :: u32
  sig_saved_esp :: u32

record pipe_t =
  p_buf :: "u8 list"
  p_rpos :: nat
  p_wpos :: nat
  p_count :: u32
  p_refs :: int
  p_broken :: bool

record kst =
  tsk :: "u32 \<Rightarrow> task_struct"
  pgr :: "u32 \<Rightarrow> pager"
  pipes :: "u32 \<Rightarrow> pipe_t"
  kbuf :: "u32 \<Rightarrow> u8 list"
  kheap :: hheap
  ph :: phys
  cpu :: cpu
  kernel_paging :: u32
  tss_esp0 :: u32
  ready_queue :: "u32 list"
  all_tasks :: "u32 list"
  zombie_reap :: "u32 list"
  current_task :: u32
  main_task :: u32
  next_pid :: u32
  decay_counter :: nat
  pit_ticks :: u32
  freed :: "u32 set"
  stale :: bool

abbreviation cur :: "kst \<Rightarrow> task_struct" where "cur s \<equiv> tsk s (current_task s)"

definition upd :: "u32 \<Rightarrow> (task_struct \<Rightarrow> task_struct) \<Rightarrow> kst \<Rightarrow> kst" where
  "upd a f s = s\<lparr>tsk := (tsk s)(a := f (tsk s a))\<rparr>"

text \<open>A read of the task struct at \<open>a\<close>.\<close>

definition touch :: "u32 \<Rightarrow> kst \<Rightarrow> kst" where
  "touch a s = s\<lparr>stale := (stale s \<or> a \<in> freed s)\<rparr>"

section \<open>Lists and heap objects\<close>

definition rq_add_tail :: "u32 \<Rightarrow> kst \<Rightarrow> kst" where
  "rq_add_tail a s = s\<lparr>ready_queue := ready_queue s @ [a]\<rparr>"

definition rq_del :: "u32 \<Rightarrow> kst \<Rightarrow> kst" where
  "rq_del a s = s\<lparr>ready_queue := remove1 a (ready_queue s)\<rparr>"

definition all_add_tail :: "u32 \<Rightarrow> kst \<Rightarrow> kst" where
  "all_add_tail a s = s\<lparr>all_tasks := all_tasks s @ [a]\<rparr>"

definition all_del :: "u32 \<Rightarrow> kst \<Rightarrow> kst" where
  "all_del a s = s\<lparr>all_tasks := remove1 a (all_tasks s)\<rparr>"

text \<open>\<open>list_del(&t->sibling)\<close>: a node that is on no list has null links.\<close>

definition sibling_del :: "u32 \<Rightarrow> kst \<Rightarrow> kst option" where
  "sibling_del a s =
     (let p = parent (tsk s a) in
      if a \<in> set (children (tsk s p)) then Some (upd p (\<lambda>t. t\<lparr>children := remove1 a (children t)\<rparr>) s) else None)"

definition k_malloc :: "u32 \<Rightarrow> kst \<Rightarrow> (u32 \<times> kst) option" where
  "k_malloc sz s = (case kmalloc sz (kheap s) of None \<Rightarrow> None | Some (a, h) \<Rightarrow> Some (a, s\<lparr>kheap := h\<rparr>))"

definition k_free :: "u32 \<Rightarrow> kst \<Rightarrow> kst" where
  "k_free a s = s\<lparr>kheap := kfree a (kheap s)\<rparr>"

definition free_task :: "u32 \<Rightarrow> kst \<Rightarrow> kst" where
  "free_task a s = (k_free a s)\<lparr>freed := insert a (freed s)\<rparr>"

text \<open>\<open>delete p\<close> for a \<open>PagingManager\<close>: destructor, then the object's memory.\<close>

definition delete_paging :: "u32 \<Rightarrow> kst \<Rightarrow> kst" where
  "delete_paging p s = k_free p (s\<lparr>ph := pager_delete (pgr s p) (ph s)\<rparr>)"

definition load_paging :: "u32 \<Rightarrow> kst \<Rightarrow> kst" where
  "load_paging p s = s\<lparr>cpu := pager_load (pgr s p) (cpu s)\<rparr>"

definition push :: "u32 \<Rightarrow> u32 \<times> kst \<Rightarrow> u32 \<times> kst" where
  "push v x = (case x of (sp, s) \<Rightarrow> (sp - 4, s\<lparr>ph := (ph s)\<lparr>ram := st32 (ram (ph s)) (sp - 4) v\<rparr>\<rparr>))"

definition push_all :: "u32 list \<Rightarrow> u32 \<times> kst \<Rightarrow> u32 \<times> kst" where
  "push_all vs x = fold push vs x"

text \<open>The words pushed below a frame's eflags, cs and eip: error code, vector, the \<open>pusha\<close> block.\<close>

definition push_pusha :: "u32 \<times> kst \<Rightarrow> u32 \<times> kst" where
  "push_pusha x =
     (case push_all [0, 0x20, 0, 0, 0, 0] x of (sp, s) \<Rightarrow>
        push_all [0, 0, 0] (push (sp - 4 - 12) (sp, s)))"

definition fill_stack :: "u32 \<Rightarrow> kst \<Rightarrow> kst" where
  "fill_stack a s = s\<lparr>ph := (ph s)\<lparr>ram := fold (\<lambda>i m. st32 m (a + 4 * of_nat i) 0xCCCCCCCC)
     [0..<2048] (ram (ph s))\<rparr>\<rparr>"

definition no_fds :: "task_struct \<Rightarrow> task_struct" where
  "no_fds t = t\<lparr>fd_buf := replicate MAX_FD 0, fd_size := replicate MAX_FD 0, fd_pos := replicate MAX_FD 0,
     fd_type := replicate MAX_FD 0\<rparr>"

section \<open>Creation\<close>

text \<open>\<open>task_init\<close>: the result of kmalloc is not checked; \<open>junk\<close> is what the memory held before.\<close>

definition main_struct :: "u32 \<Rightarrow> task_struct \<Rightarrow> task_struct" where
  "main_struct kp junk = (no_fds junk)\<lparr>pid := 0, state := TASK_RUNNING, t_eax := 0, t_cs := 0x18, user_esp := 0,
     user_ss := 0x10, kernel_stack := 0, paging := kp, user_stack := 0, parent := 0, exit_code := 0,
     caps := CAP_ALL, output_fd := -1, t_eip := 0, t_esp := 0, t_eflags := 0x202,
     sig_handlers := replicate 32 0, pending_signals := 0, blocked_signals := 0, sig_saved_eip := 0,
     sig_saved_esp := 0, priority := 128, dynamic_boost := 0, boost_expire := 0, wake_tick := 0,
     quantum := TASK_QUANTUM, children := []\<rparr>"

definition task_init :: "kst \<Rightarrow> kst option" where
  "task_init s0 =
     (case k_malloc TASK_SIZE (s0\<lparr>ready_queue := [], all_tasks := [], zombie_reap := []\<rparr>) of
        None \<Rightarrow> None
      | Some (a, s) \<Rightarrow>
          let s1 = upd a (main_struct (kernel_paging s)) (s\<lparr>main_task := a, freed := freed s - {a}\<rparr>)
          in Some ((all_add_tail a s1)\<lparr>current_task := a\<rparr>))"

text \<open>Both creation functions start with a struct and a stack, or give back the struct.\<close>

definition alloc_task :: "kst \<Rightarrow> ((u32 \<times> u32) option \<times> kst) option" where
  "alloc_task s =
     (case k_malloc TASK_SIZE s of None \<Rightarrow> None
      | Some (t, s1) \<Rightarrow>
          if t = 0 then Some (None, s1)
          else case k_malloc KSTACK_SIZE s1 of None \<Rightarrow> None
               | Some (stk, s2) \<Rightarrow>
                   if stk = 0 then Some (None, k_free t s2)
                   else Some (Some (t, stk), fill_stack stk (s2\<lparr>freed := freed s2 - {t}\<rparr>)))"

definition new_struct :: "u32 \<Rightarrow> u32 \<Rightarrow> u32 \<Rightarrow> task_struct \<Rightarrow> task_struct" where
  "new_struct p sp stk junk = (no_fds junk)\<lparr>pid := p, t_ecx := 0, t_edx := 0, t_ebx := 0, t_ebp := 0, t_esi := 0,
     t_edi := 0, t_eax := 0, t_esp := sp, t_eflags := 0x202, state := TASK_READY, kernel_stack := stk,
     exit_code := 0, pending_signals := 0, blocked_signals := 0, sig_handlers := replicate 32 0,
     sig_saved_eip := 0, sig_saved_esp := 0, children := [], priority := 128, dynamic_boost := 0,
     boost_expire := 0, wake_tick := 0, quantum := TASK_QUANTUM, output_fd := -1\<rparr>"

text \<open>\<open>wrapper\<close> is the address of \<open>task_wrapper\<close>.\<close>

definition task_create :: "u32 \<Rightarrow> u32 \<Rightarrow> u32 \<Rightarrow> kst \<Rightarrow> (u32 \<times> kst) option" where
  "task_create wrapper fn a s =
     (case alloc_task s of None \<Rightarrow> None
      | Some (None, s1) \<Rightarrow> Some (-1, s1)
      | Some (Some (t, stk), s1) \<Rightarrow>
          (case push_pusha (push_all [0x202, 0x18, wrapper] (stk + KSTACK_SIZE, s1)) of (sp, s2) \<Rightarrow>
             let s3 = upd t (\<lambda>j. (new_struct (next_pid s2) sp stk j)\<lparr>t_eip := wrapper, t_cs := 0x18, user_esp := 0,
                        user_ss := 0x10, entry := fn, arg := a, paging := kernel_paging s2, user_stack := 0,
                        parent := 0, caps := CAP_ALL\<rparr>) (s2\<lparr>next_pid := next_pid s2 + 1\<rparr>)
             in Some (next_pid s2, rq_add_tail t (all_add_tail t s3))))"

text \<open>A user task is put on the ready queue and taken off again: it runs at once.\<close>

definition task_create_user :: "u32 \<Rightarrow> u32 \<Rightarrow> u32 \<Rightarrow> kst \<Rightarrow> (u32 \<times> kst) option" where
  "task_create_user ent user_stack_top user_pd s =
     (case alloc_task s of None \<Rightarrow> None
      | Some (None, s1) \<Rightarrow> Some (-1, s1)
      | Some (Some (t, stk), s1) \<Rightarrow>
          (case push_pusha (push_all [0x23, user_stack_top, 0x202, 0x2B, ent] (stk + KSTACK_SIZE, s1)) of (sp, s2) \<Rightarrow>
             let c = current_task s2;
                 s3 = upd t (\<lambda>j. let t0 = (new_struct (next_pid s2) sp stk j)\<lparr>t_eip := ent, t_cs := 0x2B,
                        user_esp := user_stack_top, user_ss := 0x23, entry := 0, arg := 0, paging := user_pd,
                        user_stack := user_stack_top, parent := c,
                        caps := (if c \<noteq> 0 then caps (tsk s2 c) else CAP_ALL)\<rparr>
                        in t0\<lparr>fd_buf := (fd_buf t0)[0 := 1], fd_type := (fd_type t0)[0 := 4]\<rparr>)
                      (s2\<lparr>next_pid := next_pid s2 + 1\<rparr>);
                 s4 = upd c (\<lambda>p. p\<lparr>children := children p @ [t]\<rparr>) s3;
                 s5 = all_add_tail t (rq_add_tail t s4);
                 s6 = upd t (\<lambda>x. x\<lparr>state := TASK_RUNNING\<rparr>) (s5\<lparr>current_task := t\<rparr>)
             in Some (next_pid s2, rq_del t s6)))"

section \<open>The timer's share of the interrupt handler\<close>

text \<open>\<open>c_isr_handler\<close> on the timer vector: every task that sleeps and whose tick has come is made ready.\<close>

definition wake_due :: "u32 \<Rightarrow> task_struct \<Rightarrow> bool" where
  "wake_due now t = (state t = TASK_BLOCKED \<and> wake_tick t \<noteq> 0 \<and> 0 \<le> sint (now - wake_tick t))"

definition wake_one :: "u32 \<Rightarrow> u32 \<Rightarrow> kst \<Rightarrow> kst" where
  "wake_one now a s =
     (if wake_due now (tsk s a)
      then rq_add_tail a (upd a (\<lambda>t. t\<lparr>wake_tick := 0, state := TASK_READY\<rparr>) s) else s)"

definition wake_sleepers :: "kst \<Rightarrow> kst" where
  "wake_sleepers s = fold (wake_one (pit_ticks s)) (all_tasks s) s"

text \<open>What a timer interrupt that arrives in kernel mode, while the current task is not running,
  does to the scheduler's state: it counts the tick and wakes sleepers.\<close>

definition idle_tick :: "kst \<Rightarrow> kst" where
  "idle_tick s = wake_sleepers (s\<lparr>pit_ticks := pit_ticks s + 1\<rparr>)"

text \<open>\<open>while (list_empty(&ready_queue)) sti; hlt; cli\<close>\<close>

partial_function (option) idle_wait :: "kst \<Rightarrow> kst option" where
  "idle_wait s = (if ready_queue s = [] then idle_wait (idle_tick s) else Some s)"

section \<open>The scheduler\<close>

definition save_context :: "registers_t \<Rightarrow> task_struct \<Rightarrow> task_struct" where
  "save_context r t =
     (let t1 = t\<lparr>t_ecx := r_ecx r, t_edx := r_edx r, t_ebx := r_ebx r, t_ebp := r_ebp r, t_esi := r_esi r,
               t_edi := r_edi r, t_eax := r_eax r, t_eip := r_eip r, t_cs := r_cs r, t_esp := r_esp r,
               t_eflags := r_eflags r\<rparr>
      in if r_cs r AND 3 \<noteq> 0 then t1\<lparr>user_esp := r_user_esp r, user_ss := r_user_ss r\<rparr> else t1)"

definition restore_context :: "task_struct \<Rightarrow> registers_t \<Rightarrow> registers_t" where
  "restore_context t r =
     (let r1 = r\<lparr>r_ecx := t_ecx t, r_edx := t_edx t, r_ebx := t_ebx t, r_ebp := t_ebp t, r_esi := t_esi t,
               r_edi := t_edi t, r_eax := t_eax t, r_eip := t_eip t, r_cs := t_cs t, r_esp := t_esp t,
               r_eflags := t_eflags t\<rparr>
      in if t_cs t AND 3 \<noteq> 0 then r1\<lparr>r_user_esp := user_esp t, r_user_ss := user_ss t\<rparr> else r1)"

definition reap_zombie :: "u32 \<Rightarrow> kst \<Rightarrow> kst" where
  "reap_zombie a s =
     (let s1 = s\<lparr>zombie_reap := remove1 a (zombie_reap s)\<rparr>;
          s2 = (if a \<in> set (all_tasks s1) then all_del a s1 else s1)
      in free_task a (k_free (kernel_stack (tsk s2 a)) s2))"

definition reap_zombies :: "kst \<Rightarrow> kst" where
  "reap_zombies s = fold reap_zombie (zombie_reap s) s"

definition reap_dead :: "u32 \<Rightarrow> kst \<Rightarrow> kst" where
  "reap_dead a s =
     (if state (tsk s a) = TASK_DEAD then
        (let s1 = rq_del a s;
             s2 = (if a \<in> set (all_tasks s1) then all_del a s1 else s1);
             s3 = (if paging (tsk s2 a) \<noteq> 0 \<and> paging (tsk s2 a) \<noteq> kernel_paging s2
                   then delete_paging (paging (tsk s2 a)) s2 else s2)
         in free_task a (k_free (kernel_stack (tsk s3 a)) s3))
      else s)"

definition reap_ready :: "kst \<Rightarrow> kst" where
  "reap_ready s = fold reap_dead (ready_queue s) s"

definition requeue :: "kst \<Rightarrow> kst" where
  "requeue s = rq_add_tail (current_task s) (upd (current_task s) (\<lambda>t. t\<lparr>state := TASK_READY\<rparr>) s)"

text \<open>The effective priority is computed in 8 bits; the cap at 255 can not take effect.\<close>

definition eff_prio :: "task_struct \<Rightarrow> u8" where
  "eff_prio t = (let eff = priority t + dynamic_boost t in if 255 < unat eff then 255 else eff)"

definition pick_step :: "(u32 \<Rightarrow> task_struct) \<Rightarrow> u32 \<Rightarrow> u32 option \<times> u8 \<Rightarrow> u32 option \<times> u8" where
  "pick_step ts a x = (if snd x < eff_prio (ts a) then (Some a, eff_prio (ts a)) else x)"

definition pick_next :: "(u32 \<Rightarrow> task_struct) \<Rightarrow> u32 list \<Rightarrow> u32" where
  "pick_next ts q = (case fst (fold (pick_step ts) q (None, 0)) of Some a \<Rightarrow> a | None \<Rightarrow> hd q)"

definition decay :: "kst \<Rightarrow> kst" where
  "decay s =
     (if 10 \<le> Suc (decay_counter s)
      then fold (\<lambda>a s. if 0 < dynamic_boost (tsk s a)
                       then upd a (\<lambda>t. t\<lparr>dynamic_boost := dynamic_boost t - 1\<rparr>) s else s)
             (ready_queue s) (s\<lparr>decay_counter := 0\<rparr>)
      else s\<lparr>decay_counter := Suc (decay_counter s)\<rparr>)"

text \<open>The second half of \<open>schedule\<close>, with a non-empty ready queue. It reads \<open>pid\<close> and \<open>paging\<close> of the
  outgoing task.\<close>

definition switch_to :: "u32 \<Rightarrow> registers_t \<Rightarrow> kst \<Rightarrow> registers_t \<times> kst" where
  "switch_to nt r s =
     (let s1 = upd nt (\<lambda>t. t\<lparr>state := TASK_RUNNING, quantum := TASK_QUANTUM\<rparr>) (rq_del nt s);
          s2 = decay (touch (current_task s1) s1);
          s3 = (if paging (tsk s2 nt) \<noteq> 0 \<and> paging (tsk s2 nt) \<noteq> paging (cur s2)
                then load_paging (paging (tsk s2 nt)) s2 else s2);
          s4 = (if kernel_stack (tsk s3 nt) \<noteq> 0
                then s3\<lparr>tss_esp0 := kernel_stack (tsk s3 nt) + KSTACK_SIZE\<rparr> else s3)
      in (restore_context (tsk s4 nt) r, s4\<lparr>current_task := nt\<rparr>))"

definition schedule :: "registers_t \<Rightarrow> kst \<Rightarrow> (registers_t \<times> kst) option" where
  "schedule r s =
     (if current_task s = 0 then Some (r, s)
      else
        let cur_state = state (cur s);
            s1 = (if cur_state \<noteq> TASK_DEAD then upd (current_task s) (save_context r) s else s);
            s2 = reap_ready (reap_zombies s1);
            s3 = (if cur_state = TASK_RUNNING then requeue s2 else s2)
        in if ready_queue s3 = [] \<and> cur_state = TASK_DEAD then None
           else case idle_wait s3 of None \<Rightarrow> None
                | Some s4 \<Rightarrow> Some (switch_to (pick_next (tsk s4) (ready_queue s4)) r s4))"

section \<open>Leaving\<close>

text \<open>\<open>fake\<close> is the uninitialised frame on the stack. When \<open>schedule\<close> comes back the processor halts
  in \<open>task_exit\<close>: the result is the state it halts in.\<close>

definition task_exit :: "registers_t \<Rightarrow> kst \<Rightarrow> kst option" where
  "task_exit fake s =
     (if current_task s = 0 then Some s
      else
        let c = current_task s;
            s1 = upd c (\<lambda>t. t\<lparr>state := TASK_DEAD\<rparr>) s;
            s2 = (if c \<in> set (ready_queue s1) then rq_del c s1 else s1);
            p = parent (tsk s2 c)
        in case (if p = 0 then Some s2
                 else case sibling_del c s2 of None \<Rightarrow> None
                      | Some s3 \<Rightarrow>
                          Some (if state (tsk (touch p s3) p) = TASK_BLOCKED
                                then rq_add_tail p (upd p (\<lambda>t. t\<lparr>state := TASK_READY\<rparr>) (touch p s3)) else touch p s3)) of
             None \<Rightarrow> None
           | Some s4 \<Rightarrow>
               (case schedule (fake\<lparr>r_eflags := 0x202, r_eip := 0\<rparr>) (load_paging (kernel_paging s4) s4) of
                  None \<Rightarrow> None | Some (_, s5) \<Rightarrow> Some s5))"

definition task_cleanup_user :: "kst \<Rightarrow> kst option" where
  "task_cleanup_user s =
     (if current_task s = 0 \<or> pid (cur s) = 0 then Some s
      else
        let c = current_task s;
            s1 = (if c \<in> set (ready_queue s) then rq_del c s else s);
            s2 = (if c \<in> set (all_tasks s1) then all_del c s1 else s1)
        in case (if parent (tsk s2 c) \<noteq> 0 then sibling_del c s2 else Some s2) of
             None \<Rightarrow> None
           | Some s3 \<Rightarrow>
               let s4 = (if paging (tsk s3 c) \<noteq> 0 \<and> paging (tsk s3 c) \<noteq> kernel_paging s3
                         then delete_paging (paging (tsk s3 c)) s3 else s3);
                   s5 = (if kernel_stack (tsk s4 c) \<noteq> 0 then k_free (kernel_stack (tsk s4 c)) s4 else s4)
               in Some ((free_task c s5)\<lparr>current_task := main_task s5\<rparr>))"

text \<open>How control leaves an operation that does not return to its caller: into the frame of the
  next task, or back into the boot loop.\<close>

datatype resume = Returns registers_t kst | Iret registers_t kst | BootLoop kst

definition exit_mark :: "u32 \<Rightarrow> kst \<Rightarrow> kst" where
  "exit_mark code s =
     (let self = current_task s;
          s1 = upd self (\<lambda>t. t\<lparr>exit_code := code, state := TASK_DEAD\<rparr>) s
      in if self \<in> set (ready_queue s1) then rq_del self s1 else s1)"

text \<open>With the sibling link cut: wake the parent, give up the address space, join the reap list.\<close>

definition exit_finish :: "u32 \<Rightarrow> u32 \<Rightarrow> kst \<Rightarrow> kst" where
  "exit_finish self p s3 =
     (let s4 = (if state (tsk s3 p) = TASK_BLOCKED
                then rq_add_tail p (upd p (\<lambda>t. t\<lparr>t_eax := pid (tsk s3 self), state := TASK_READY\<rparr>) s3)
                else s3);
          s5 = load_paging (kernel_paging s4) s4;
          s6 = (if paging (tsk s5 self) \<noteq> 0 \<and> paging (tsk s5 self) \<noteq> kernel_paging s5
                then upd self (\<lambda>t. t\<lparr>paging := kernel_paging s5\<rparr>) (delete_paging (paging (tsk s5 self)) s5)
                else s5)
      in s6\<lparr>zombie_reap := zombie_reap s6 @ [self]\<rparr>)"

definition exit_state :: "u32 \<Rightarrow> kst \<Rightarrow> kst option" where
  "exit_state code s =
     (let self = current_task s; p = parent (cur s)
      in map_option (exit_finish self p) (sibling_del self (touch p (exit_mark code s))))"

definition task_do_exit :: "registers_t \<Rightarrow> u32 \<Rightarrow> kst \<Rightarrow> resume option" where
  "task_do_exit r code s =
     (if current_task s = 0 then Some (Returns r s)
      else
        let p = parent (cur s); s2 = exit_mark code s
        in if p \<noteq> 0 \<and> pid (tsk s2 p) \<noteq> 0 then
             (case exit_state code s of None \<Rightarrow> None
              | Some s7 \<Rightarrow>
                  map_option (\<lambda>(r', s'). Iret r' s') (schedule (r\<lparr>r_eflags := 0x202, r_eip := 0, r_esp := 0\<rparr>) s7))
           else Some (BootLoop (load_paging (kernel_paging s2) (if p \<noteq> 0 then touch p s2 else s2))))"

section \<open>Signals, capabilities, priority, snapshot\<close>

text \<open>The first task of \<open>all_tasks\<close> with the given pid.\<close>

definition find_task :: "u32 \<Rightarrow> kst \<Rightarrow> u32 option" where
  "find_task p s = find (\<lambda>a. pid (tsk s a) = p) (all_tasks s)"

definition task_send_signal :: "u32 \<Rightarrow> int \<Rightarrow> kst \<Rightarrow> int \<times> kst" where
  "task_send_signal p sig s =
     (if sig < 1 \<or> 31 < sig then (-1, s)
      else case find_task p s of None \<Rightarrow> (-1, s)
           | Some a \<Rightarrow> (0, upd a (\<lambda>t. t\<lparr>pending_signals := pending_signals t OR push_bit (nat sig) 1\<rparr>) s))"

definition task_has_cap :: "u32 \<Rightarrow> u32 \<Rightarrow> kst \<Rightarrow> bool" where
  "task_has_cap p cap s = (case find_task p s of None \<Rightarrow> False | Some a \<Rightarrow> caps (tsk s a) AND cap \<noteq> 0)"

definition task_drop_cap :: "u32 \<Rightarrow> kst \<Rightarrow> int \<times> kst" where
  "task_drop_cap cap s =
     (if current_task s = 0 then (-1, s)
      else (0, upd (current_task s) (\<lambda>t. t\<lparr>caps := caps t AND NOT cap\<rparr>) s))"

definition task_boost_priority :: "u32 \<Rightarrow> u8 \<Rightarrow> kst \<Rightarrow> kst" where
  "task_boost_priority p amount s =
     (case find_task p s of None \<Rightarrow> s
      | Some a \<Rightarrow> upd a (\<lambda>t. let b = dynamic_boost t + amount in t\<lparr>dynamic_boost := (if 100 < b then 100 else b)\<rparr>) s)"

record task_info =
  ti_pid :: u32
  ti_state :: task_state
  ti_priority :: u32
  ti_ring3 :: u32

definition TASK_INFO_MAX :: int where "TASK_INFO_MAX = 32"

definition info_of :: "task_struct \<Rightarrow> task_info" where
  "info_of t = \<lparr>ti_pid = pid t, ti_state = state t,
     ti_priority = (let eff = ucast (priority t) + ucast (dynamic_boost t) in if 255 < eff then 255 else eff),
     ti_ring3 = (if t_cs t AND 3 \<noteq> 0 then 1 else 0)\<rparr>"

definition task_snapshot :: "int \<Rightarrow> kst \<Rightarrow> task_info list" where
  "task_snapshot mx s =
     (if mx \<le> 0 then []
      else take (nat (if mx > TASK_INFO_MAX then TASK_INFO_MAX else mx))
             (map (\<lambda>a. info_of (tsk s a)) (filter (\<lambda>a. state (tsk s a) \<noteq> TASK_DEAD) (all_tasks s))))"

text \<open>\<open>task_next_pid\<close>\<close>

definition task_next_pid :: "kst \<Rightarrow> u32 \<times> kst" where
  "task_next_pid s = (next_pid s, s\<lparr>next_pid := next_pid s + 1\<rparr>)"

section \<open>Blocking system calls and the time slice\<close>

text \<open>\<open>sys_waitpid\<close> and \<open>sys_sleep\<close> of \<^verbatim>\<open>syscall.cpp\<close>.\<close>

definition sys_waitpid :: "registers_t \<Rightarrow> kst \<Rightarrow> (registers_t \<times> kst) option" where
  "sys_waitpid r s =
     (if children (cur s) = [] then Some (r\<lparr>r_eax := -1\<rparr>, s)
      else
        let self = current_task s in
        case schedule r (upd self (\<lambda>t. t\<lparr>state := TASK_BLOCKED\<rparr>) s) of None \<Rightarrow> None
        | Some (r1, s1) \<Rightarrow>
            if current_task s1 = self
            then Some (r1\<lparr>r_eax := -1\<rparr>, upd self (\<lambda>t. t\<lparr>state := TASK_RUNNING\<rparr>) s1) else Some (r1, s1))"

definition sys_sleep :: "registers_t \<Rightarrow> kst \<Rightarrow> (registers_t \<times> kst) option" where
  "sys_sleep r s =
     (let ms = (if 60000 < r_ebx r then 60000 else r_ebx r)
      in schedule (r\<lparr>r_eax := ms\<rparr>)
           (upd (current_task s) (\<lambda>t. t\<lparr>wake_tick := pit_ticks s + ms div 10 + 1, state := TASK_BLOCKED\<rparr>) s))"

text \<open>The end of the timer branch of \<open>c_isr_handler\<close>: a ring-3 task loses the processor when its time
  slice is used up, kernel code at every tick.\<close>

definition timer_preempt :: "registers_t \<Rightarrow> kst \<Rightarrow> (registers_t \<times> kst) option" where
  "timer_preempt r s =
     (if current_task s \<noteq> 0 \<and> state (cur s) = TASK_RUNNING then
        (let c = current_task s;
             user = (r_cs r AND 3 = 3 \<and> pid (tsk s c) \<noteq> 0);
             s1 = (if user \<and> 0 < quantum (tsk s c) then upd c (\<lambda>t. t\<lparr>quantum := quantum t - 1\<rparr>) s else s);
             preempt = (user \<and> quantum (tsk s1 c) = 0)
         in if r_cs r AND 3 = 0 \<or> preempt then schedule r s1 else Some (r, s1))
      else Some (r, s))"

section \<open>Facts on the pieces\<close>

lemmas k_defs = upd_def touch_def rq_add_tail_def rq_del_def all_add_tail_def all_del_def k_free_def free_task_def
  delete_paging_def load_paging_def

text \<open>Addresses the kernel holds, all of them live in the heap.\<close>

definition held :: "hheap \<Rightarrow> u32 set \<Rightarrow> bool" where
  "held h A = (\<exists>L. heap_live h L \<and> A \<subseteq> fst ` L)"

lemma held_alloc:
  assumes "held h A" "n \<noteq> 0" "kmalloc n h = Some (p, h')"
  shows "p \<noteq> 0 \<Longrightarrow> p \<notin> A \<and> held h' (insert p A)" "p = 0 \<Longrightarrow> held h' A"
  using assms kheap.alloc_held [of h _ A n p h'] unfolding held_def by (auto split: if_splits)

lemma held_alloc_total: "held h A \<Longrightarrow> n \<noteq> 0 \<Longrightarrow> \<exists>p h'. kmalloc n h = Some (p, h')"
  unfolding held_def using kheap.alloc_total by blast

lemma held_mono: "held h B \<Longrightarrow> A \<subseteq> B \<Longrightarrow> held h A"
  unfolding held_def by blast

lemma held_free: "held h (insert p A) \<Longrightarrow> p \<notin> A \<Longrightarrow> held (kfree p h) A"
  unfolding held_def using kheap.free_held [of h _ p A] by auto

lemma kfree_null [simp]: "kfree 0 h = h"
  by (simp add: kfree_def)

text \<open>Sleepers.\<close>

lemma wake_one_tsk:
  "tsk (wake_one now x s) a =
     (if a = x \<and> wake_due now (tsk s x) then (tsk s x)\<lparr>wake_tick := 0, state := TASK_READY\<rparr> else tsk s a)"
  by (simp add: wake_one_def k_defs)

lemma wake_fold:
  assumes "distinct xs"
  shows "fold (wake_one now) xs s =
    s\<lparr>tsk := (\<lambda>a. if a \<in> set xs \<and> wake_due now (tsk s a) then (tsk s a)\<lparr>wake_tick := 0, state := TASK_READY\<rparr> else tsk s a),
      ready_queue := ready_queue s @ filter (\<lambda>a. wake_due now (tsk s a)) xs\<rparr>"
  using assms
proof (induction xs arbitrary: s)
  case (Cons x xs)
  let ?s = "wake_one now x s"
  have eq: "tsk ?s a = tsk s a" if "a \<noteq> x" for a using that by (simp add: wake_one_def k_defs)
  have flt: "filter (\<lambda>a. wake_due now (tsk ?s a)) xs = filter (\<lambda>a. wake_due now (tsk s a)) xs"
    using Cons.prems eq by (intro filter_cong refl) (metis distinct.simps(2))
  have fn: "(\<lambda>a. if a \<in> set xs \<and> wake_due now (tsk ?s a) then (tsk ?s a)\<lparr>wake_tick := 0, state := TASK_READY\<rparr> else tsk ?s a) =
     (\<lambda>a. if a \<in> set (x # xs) \<and> wake_due now (tsk s a) then (tsk s a)\<lparr>wake_tick := 0, state := TASK_READY\<rparr> else tsk s a)"
  proof
    fix a
    show "(if a \<in> set xs \<and> wake_due now (tsk ?s a) then (tsk ?s a)\<lparr>wake_tick := 0, state := TASK_READY\<rparr> else tsk ?s a) =
     (if a \<in> set (x # xs) \<and> wake_due now (tsk s a) then (tsk s a)\<lparr>wake_tick := 0, state := TASK_READY\<rparr> else tsk s a)"
      using Cons.prems by (cases "a = x") (simp_all add: wake_one_tsk)
  qed
  have "fold (wake_one now) (x # xs) s = fold (wake_one now) xs ?s" by simp
  also have "\<dots> = ?s\<lparr>tsk := (\<lambda>a. if a \<in> set (x # xs) \<and> wake_due now (tsk s a)
       then (tsk s a)\<lparr>wake_tick := 0, state := TASK_READY\<rparr> else tsk s a),
      ready_queue := ready_queue ?s @ filter (\<lambda>a. wake_due now (tsk s a)) xs\<rparr>"
    using Cons.IH [of ?s] Cons.prems unfolding fn flt by simp
  also have "\<dots> = s\<lparr>tsk := (\<lambda>a. if a \<in> set (x # xs) \<and> wake_due now (tsk s a)
       then (tsk s a)\<lparr>wake_tick := 0, state := TASK_READY\<rparr> else tsk s a),
      ready_queue := ready_queue s @ filter (\<lambda>a. wake_due now (tsk s a)) (x # xs)\<rparr>"
    by (simp add: wake_one_def k_defs)
  finally show ?case .
qed simp

lemma wake_sleepers_simps:
  assumes "distinct (all_tasks s)"
  shows "ready_queue (wake_sleepers s) = ready_queue s @ filter (\<lambda>a. wake_due (pit_ticks s) (tsk s a)) (all_tasks s)"
    "tsk (wake_sleepers s) a = (if a \<in> set (all_tasks s) \<and> wake_due (pit_ticks s) (tsk s a)
       then (tsk s a)\<lparr>wake_tick := 0, state := TASK_READY\<rparr> else tsk s a)"
    "all_tasks (wake_sleepers s) = all_tasks s" "zombie_reap (wake_sleepers s) = zombie_reap s"
    "current_task (wake_sleepers s) = current_task s" "pit_ticks (wake_sleepers s) = pit_ticks s"
    "kheap (wake_sleepers s) = kheap s" "freed (wake_sleepers s) = freed s" "kernel_paging (wake_sleepers s) = kernel_paging s"
    "main_task (wake_sleepers s) = main_task s" "stale (wake_sleepers s) = stale s" "next_pid (wake_sleepers s) = next_pid s"
  unfolding wake_sleepers_def wake_fold [OF assms] by simp_all

lemma idle_wait_Some:
  assumes "idle_wait s = Some s'"
  shows "ready_queue s' \<noteq> [] \<and> (\<exists>n. s' = (idle_tick ^^ n) s)"
proof (rule idle_wait.raw_induct [OF _ assms])
  fix iw s s'
  assume 1: "\<And>s s'. iw s = Some s' \<Longrightarrow> ready_queue s' \<noteq> [] \<and> (\<exists>n. s' = (idle_tick ^^ n) s)"
    "(if ready_queue s = [] then iw (idle_tick s) else Some s) = Some s'"
  show "ready_queue s' \<noteq> [] \<and> (\<exists>n. s' = (idle_tick ^^ n) s)"
  proof (cases "ready_queue s = []")
    case True
    with 1(1) [of "idle_tick s" s'] 1(2) obtain n where "ready_queue s' \<noteq> []" "s' = (idle_tick ^^ n) (idle_tick s)" by auto
    then show ?thesis by (intro conjI exI [of _ "Suc n"]) (simp_all add: funpow_swap1)
  next
    case False
    with 1 show ?thesis by (intro conjI exI [of _ 0]) auto
  qed
qed

lemma idle_wait_stop: "ready_queue s \<noteq> [] \<Longrightarrow> idle_wait s = Some s"
  by (subst idle_wait.simps) simp

text \<open>A sleeping task ends the wait.\<close>

lemma idle_wait_returns:
  assumes "a \<in> set (all_tasks s)" "distinct (all_tasks s)" "state (tsk s a) = TASK_BLOCKED" "wake_tick (tsk s a) \<noteq> 0"
    "wake_tick (tsk s a) = pit_ticks s + of_nat k"
  shows "\<exists>s'. idle_wait s = Some s'"
  using assms
proof (induction k arbitrary: s)
  case 0
  let ?s = "s\<lparr>pit_ticks := pit_ticks s + 1\<rparr>"
  have "wake_due (pit_ticks ?s) (tsk ?s a)" using 0 by (simp add: wake_due_def)
  then have "a \<in> set (ready_queue (idle_tick s))"
    using 0 wake_sleepers_simps(1) [of ?s] by (simp add: idle_tick_def)
  then have "idle_wait (idle_tick s) = Some (idle_tick s)" by (intro idle_wait_stop) auto
  then show ?case by (subst idle_wait.simps) simp
next
  case (Suc k)
  let ?s = "s\<lparr>pit_ticks := pit_ticks s + 1\<rparr>"
  have "\<exists>s'. idle_wait (idle_tick s) = Some s'"
  proof (cases "ready_queue (idle_tick s) = []")
    case True
    then have "\<not> wake_due (pit_ticks s + 1) (tsk s a)"
      using Suc.prems(1,2) wake_sleepers_simps(1) [of ?s] by (auto simp: idle_tick_def filter_empty_conv)
    then have "tsk (idle_tick s) a = tsk s a" "all_tasks (idle_tick s) = all_tasks s" "pit_ticks (idle_tick s) = pit_ticks s + 1"
      using Suc.prems(2) wake_sleepers_simps [of ?s] by (simp_all add: idle_tick_def)
    then show ?thesis using Suc.prems by (intro Suc.IH) (simp_all add: ac_simps)
  next
    case False
    then show ?thesis using idle_wait_stop by blast
  qed
  then show ?case by (subst idle_wait.simps) auto
qed

text \<open>The wait with one sleeper known: it ends at the latest at the sleeper's tick, at the first tick at
  which somebody is due; until then no task changes.\<close>

lemma idle_wait_until:
  assumes "a \<in> set (all_tasks s)" "distinct (all_tasks s)" "state (tsk s a) = TASK_BLOCKED" "wake_tick (tsk s a) \<noteq> 0"
    "wake_tick (tsk s a) = pit_ticks s + of_nat d" "0 < d" "d < 2 ^ 31" "ready_queue s = []"
  shows "\<exists>n s'. idle_wait s = Some s' \<and> 0 < n \<and> n \<le> d \<and> pit_ticks s' = pit_ticks s + of_nat n \<and>
    ready_queue s' = filter (\<lambda>b. wake_due (pit_ticks s') (tsk s b)) (all_tasks s) \<and>
    (n < d \<longrightarrow> tsk s' a = tsk s a) \<and> (n = d \<longrightarrow> state (tsk s' a) = TASK_READY)"
  using assms
proof (induction d arbitrary: s)
  case (Suc d)
  let ?s = "s\<lparr>pit_ticks := pit_ticks s + 1\<rparr>"
  note w = wake_sleepers_simps [of ?s]
  have f: "pit_ticks (idle_tick s) = pit_ticks s + 1" "all_tasks (idle_tick s) = all_tasks s"
    "ready_queue (idle_tick s) = filter (\<lambda>b. wake_due (pit_ticks s + 1) (tsk s b)) (all_tasks s)"
    "tsk (idle_tick s) b = (if b \<in> set (all_tasks s) \<and> wake_due (pit_ticks s + 1) (tsk s b)
       then (tsk s b)\<lparr>wake_tick := 0, state := TASK_READY\<rparr> else tsk s b)" for b
    using w Suc.prems(2,8) by (simp_all add: idle_tick_def)
  have wt: "pit_ticks s + 1 - wake_tick (tsk s a) = - word_of_nat d" using Suc.prems(5) by simp
  have due: "wake_due (pit_ticks s + 1) (tsk s a) \<longleftrightarrow> d = 0"
  proof (cases "d = 0")
    case False
    have "sint (word_of_int (- int d) :: u32) = signed_take_bit 31 (- int d)" by (simp only: sint_sbintrunc') simp
    also have "\<dots> = - int d" using Suc.prems(7) by (intro signed_take_bit_int_eq_self) simp_all
    finally have "sint (- word_of_nat d :: u32) = - int d" by simp
    with False show ?thesis unfolding wake_due_def wt by simp
  qed (use wt Suc.prems(3,4) in \<open>simp add: wake_due_def\<close>)
  show ?case
  proof (cases "ready_queue (idle_tick s) = []")
    case True
    then have nd: "\<not> wake_due (pit_ticks s + 1) (tsk s b)" if "b \<in> set (all_tasks s)" for b
      using that by (simp add: f(3) filter_empty_conv)
    have t: "tsk (idle_tick s) = tsk s" using nd by (auto simp: fun_eq_iff f(4))
    have d: "0 < d" using nd [OF Suc.prems(1)] due by simp
    from Suc.IH [of "idle_tick s"] Suc.prems d True obtain n s' where n: "idle_wait (idle_tick s) = Some s'" "0 < n" "n \<le> d"
      "pit_ticks s' = pit_ticks s + 1 + of_nat n"
      "ready_queue s' = filter (\<lambda>b. wake_due (pit_ticks s') (tsk s b)) (all_tasks s)"
      "n < d \<longrightarrow> tsk s' a = tsk s a" "n = d \<longrightarrow> state (tsk s' a) = TASK_READY"
      by (auto simp: f(1,2) t ac_simps)
    have "idle_wait s = Some s'" using n(1) Suc.prems(8) by (subst idle_wait.simps) simp
    then show ?thesis using n(2-) by (intro exI [of _ "Suc n"] exI [of _ s']) (simp add: ac_simps)
  next
    case False
    then have "idle_wait s = Some (idle_tick s)"
      using Suc.prems(8) idle_wait_stop [OF False] by (subst idle_wait.simps) simp
    then show ?thesis using due Suc.prems(1)
      by (intro exI [of _ "Suc 0"] exI [of _ "idle_tick s"]) (simp add: f)
  qed
qed simp

end
