(* ===== verification/XE_Sched.thy ===== *)
theory XE_Sched
  imports XE_Task
begin

text \<open>
  Correctness of the scheduler and of task exit: an invariant of the queues, of the ownership of heap
  objects and of the parent links, its preservation by every operation of \<^verbatim>\<open>XE_Task\<close>, and the
  properties of scheduling that rest on it.
\<close>

section \<open>Invariant\<close>

text \<open>The heap objects of a task: its struct, its kernel stack, and its paging manager unless it uses
  the kernel's. \<open>own_wf\<close>: no object belongs to two tasks and all are live in the heap, so that
  freeing those of one task leaves the others alone.\<close>

definition task_objs :: "u32 \<Rightarrow> task_struct \<Rightarrow> u32 \<Rightarrow> u32 list" where
  "task_objs kp t a = a # (if kernel_stack t \<noteq> 0 then [kernel_stack t] else []) @
     (if paging t \<noteq> 0 \<and> paging t \<noteq> kp then [paging t] else [])"

definition owned :: "kst \<Rightarrow> u32 list" where
  "owned s = concat (map (\<lambda>a. task_objs (kernel_paging s) (tsk s a) a) (all_tasks s))"

definition own_wf :: "kst \<Rightarrow> bool" where
  "own_wf s = (distinct (owned s) \<and> 0 \<notin> set (owned s) \<and> held (kheap s) (set (owned s)))"

text \<open>The queues: the ready queue holds exactly the ready tasks, the reap list only dead ones, and no
  task but the current one is running. The main task is the exception: it starts user tasks by
  jumping to them, so it stays marked as running until the boot loop gets control back.\<close>

definition q_wf :: "kst \<Rightarrow> bool" where
  "q_wf s = (distinct (all_tasks s) \<and> distinct (ready_queue s) \<and> distinct (zombie_reap s) \<and>
     set (ready_queue s) = {a \<in> set (all_tasks s). state (tsk s a) = TASK_READY} \<and>
     (\<forall>a \<in> set (zombie_reap s). a \<in> set (all_tasks s) \<and> state (tsk s a) = TASK_DEAD) \<and>
     (\<forall>a \<in> set (all_tasks s). state (tsk s a) = TASK_RUNNING \<longrightarrow> a = current_task s \<or> a = main_task s))"

definition only_main :: "kst \<Rightarrow> bool" where
  "only_main s = (\<forall>a \<in> set (all_tasks s). state (tsk s a) = TASK_RUNNING \<longrightarrow> a = main_task s)"

definition sched_inv :: "kst \<Rightarrow> bool" where
  "sched_inv s = (q_wf s \<and> own_wf s \<and> current_task s \<in> set (all_tasks s) \<and> state (cur s) = TASK_RUNNING)"

lemma q_wfD:
  assumes "q_wf s"
  shows "distinct (all_tasks s)" "distinct (ready_queue s)" "distinct (zombie_reap s)"
    "a \<in> set (ready_queue s) \<longleftrightarrow> a \<in> set (all_tasks s) \<and> state (tsk s a) = TASK_READY"
    "a \<in> set (zombie_reap s) \<Longrightarrow> a \<in> set (all_tasks s)" "a \<in> set (zombie_reap s) \<Longrightarrow> state (tsk s a) = TASK_DEAD"
    "a \<in> set (all_tasks s) \<Longrightarrow> state (tsk s a) = TASK_RUNNING \<Longrightarrow> a = current_task s \<or> a = main_task s"
  using assms unfolding q_wf_def by auto

lemma q_wfI:
  assumes "distinct (all_tasks s)" "distinct (ready_queue s)" "distinct (zombie_reap s)"
    "\<And>a. a \<in> set (ready_queue s) \<longleftrightarrow> a \<in> set (all_tasks s) \<and> state (tsk s a) = TASK_READY"
    "\<And>a. a \<in> set (zombie_reap s) \<Longrightarrow> a \<in> set (all_tasks s) \<and> state (tsk s a) = TASK_DEAD"
    "\<And>a. a \<in> set (all_tasks s) \<Longrightarrow> state (tsk s a) = TASK_RUNNING \<Longrightarrow> a = current_task s \<or> a = main_task s"
  shows "q_wf s"
  using assms unfolding q_wf_def by blast

lemma owned_cong:
  assumes "all_tasks s' = all_tasks s" "kernel_paging s' = kernel_paging s"
    "\<forall>a \<in> set (all_tasks s). kernel_stack (tsk s' a) = kernel_stack (tsk s a) \<and> paging (tsk s' a) = paging (tsk s a)"
  shows "owned s' = owned s"
  unfolding owned_def assms(1,2) using assms(3)
  by (intro arg_cong [of _ _ concat] map_cong refl) (simp add: task_objs_def)

lemma own_wf_cong:
  assumes "own_wf s" "all_tasks s' = all_tasks s" "kernel_paging s' = kernel_paging s" "kheap s' = kheap s"
    "\<forall>a \<in> set (all_tasks s). kernel_stack (tsk s' a) = kernel_stack (tsk s a) \<and> paging (tsk s' a) = paging (tsk s a)"
  shows "own_wf s'"
  using assms(1,4) owned_cong [OF assms(2,3,5)] by (simp add: own_wf_def)

lemma q_wf_cong:
  assumes "q_wf s" "all_tasks s' = all_tasks s" "ready_queue s' = ready_queue s" "zombie_reap s' = zombie_reap s"
    "\<forall>a \<in> set (all_tasks s). state (tsk s' a) = state (tsk s a)" "current_task s' = current_task s" "main_task s' = main_task s"
  shows "q_wf s'"
  using assms unfolding q_wf_def by auto

lemma in_owned: "a \<in> set (all_tasks s) \<Longrightarrow> set (task_objs (kernel_paging s) (tsk s a) a) \<subseteq> set (owned s)"
  by (auto simp: owned_def)

lemma own_wf_nonzero: "own_wf s \<Longrightarrow> a \<in> set (all_tasks s) \<Longrightarrow> a \<noteq> 0"
  using in_owned [of a s] by (auto simp: own_wf_def task_objs_def)

lemma all_tasks_split:
  assumes "a \<in> set (all_tasks s)"
  shows "\<exists>xs ys. owned s = xs @ task_objs (kernel_paging s) (tsk s a) a @ ys \<and>
    (\<forall>s'. all_tasks s' = remove1 a (all_tasks s) \<longrightarrow> kernel_paging s' = kernel_paging s \<longrightarrow> tsk s' = tsk s \<longrightarrow>
       owned s' = xs @ ys)"
proof -
  from split_list_first [OF assms] obtain us vs where l: "all_tasks s = us @ a # vs" "a \<notin> set us" by auto
  have r: "remove1 a (all_tasks s) = us @ vs" using l by (simp add: remove1_append)
  show ?thesis
    by (intro exI [of _ "concat (map (\<lambda>b. task_objs (kernel_paging s) (tsk s b) b) us)"]
        exI [of _ "concat (map (\<lambda>b. task_objs (kernel_paging s) (tsk s b) b) vs)"]) (simp add: owned_def r, simp add: l)
qed

text \<open>Removing a task from \<open>all_tasks\<close> and freeing its struct and stack.\<close>

lemma free_task_own_wf:
  assumes "own_wf s" "a \<in> set (all_tasks s)" "all_tasks s' = remove1 a (all_tasks s)"
    "kernel_paging s' = kernel_paging s" "tsk s' = tsk s" "kheap s' = kfree a (kfree (kernel_stack (tsk s a)) (kheap s))"
  shows "own_wf s'"
proof -
  from all_tasks_split [OF assms(2)] obtain xs ys where
    o: "owned s = xs @ task_objs (kernel_paging s) (tsk s a) a @ ys" "owned s' = xs @ ys" using assms(3-5) by blast
  let ?k = "kernel_stack (tsk s a)" and ?A = "set (xs @ ys)"
  have d: "distinct (owned s)" "0 \<notin> set (owned s)" "held (kheap s) (set (owned s))" using assms(1) by (auto simp: own_wf_def)
  have a: "a \<notin> ?A" "?k \<noteq> 0 \<Longrightarrow> ?k \<notin> insert a ?A" using d(1) by (auto simp: o task_objs_def split: if_splits)
  have "held (kfree ?k (kheap s)) (insert a ?A)"
  proof (cases "?k = 0")
    case True
    with d(3) show ?thesis by (auto intro: held_mono simp: o task_objs_def)
  next
    case False
    have "held (kheap s) (insert ?k (insert a ?A))" by (rule held_mono [OF d(3)]) (auto simp: o task_objs_def False)
    then show ?thesis by (rule held_free [OF _ a(2) [OF False]])
  qed
  then have "held (kheap s') ?A" unfolding assms(6) using a(1) by (rule held_free)
  then show ?thesis using d by (auto simp: own_wf_def o)
qed

lemma reap_zombies_spec:
  assumes "own_wf s" "distinct (all_tasks s)" "set zs \<subseteq> set (all_tasks s)" "distinct zs"
  defines "s' \<equiv> fold reap_zombie zs s"
  shows "own_wf s' \<and> all_tasks s' = filter (\<lambda>a. a \<notin> set zs) (all_tasks s) \<and> tsk s' = tsk s \<and>
    ready_queue s' = ready_queue s \<and> current_task s' = current_task s \<and> zombie_reap s' = fold remove1 zs (zombie_reap s) \<and>
    kernel_paging s' = kernel_paging s \<and> freed s' = freed s \<union> set zs \<and> stale s' = stale s \<and> pit_ticks s' = pit_ticks s \<and>
    main_task s' = main_task s \<and> next_pid s' = next_pid s"
  unfolding s'_def using assms(1-4)
proof (induction zs arbitrary: s)
  case (Cons z zs)
  let ?s = "reap_zombie z s"
  have z: "z \<in> set (all_tasks s)" using Cons.prems by simp
  have f: "all_tasks ?s = remove1 z (all_tasks s)" "tsk ?s = tsk s" "kernel_paging ?s = kernel_paging s"
    "kheap ?s = kfree z (kfree (kernel_stack (tsk s z)) (kheap s))"
    "ready_queue ?s = ready_queue s" "current_task ?s = current_task s" "zombie_reap ?s = remove1 z (zombie_reap s)"
    "freed ?s = insert z (freed s)" "stale ?s = stale s" "pit_ticks ?s = pit_ticks s"
    "main_task ?s = main_task s" "next_pid ?s = next_pid s"
    using z by (simp_all add: reap_zombie_def k_defs Let_def)
  have w: "own_wf ?s" using free_task_own_wf [OF Cons.prems(1) z f(1,3,2,4)] .
  have "remove1 z (all_tasks s) = filter (\<lambda>a. a \<noteq> z) (all_tasks s)"
    using Cons.prems(2) by (simp add: distinct_remove1_removeAll removeAll_filter_not_eq) (metis (full_types))
  then have al: "all_tasks ?s = filter (\<lambda>a. a \<noteq> z) (all_tasks s)" using f(1) by simp
  have "set zs \<subseteq> set (all_tasks ?s)" "distinct (all_tasks ?s)" using Cons.prems by (auto simp: al)
  from Cons.IH [OF w this(2,1)] Cons.prems(4) show ?case
    by (simp add: f(2-) al conj_commute conj_assoc)
qed simp

lemma reap_ready_id: "\<forall>a \<in> set (ready_queue s). state (tsk s a) \<noteq> TASK_DEAD \<Longrightarrow> reap_ready s = s"
proof -
  have "fold reap_dead xs s = s" if "\<forall>a \<in> set xs. state (tsk s a) \<noteq> TASK_DEAD" for xs
    using that by (induction xs) (auto simp: reap_dead_def)
  then show "\<forall>a \<in> set (ready_queue s). state (tsk s a) \<noteq> TASK_DEAD \<Longrightarrow> reap_ready s = s"
    by (simp add: reap_ready_def)
qed

lemma fold_remove1_self: "fold remove1 xs xs = []"
  by (induction xs) auto

lemma reap_q_wf:
  assumes "q_wf s" "own_wf s"
  defines "s' \<equiv> reap_zombies s"
  shows "q_wf s'" "own_wf s'" "all_tasks s' = filter (\<lambda>a. a \<notin> set (zombie_reap s)) (all_tasks s)" "tsk s' = tsk s"
    "ready_queue s' = ready_queue s" "current_task s' = current_task s" "zombie_reap s' = []" "reap_ready s' = s'"
    "freed s' = freed s \<union> set (zombie_reap s)" "stale s' = stale s" "pit_ticks s' = pit_ticks s" "kernel_paging s' = kernel_paging s"
    "main_task s' = main_task s" "next_pid s' = next_pid s"
proof -
  have q: "distinct (all_tasks s)" "distinct (ready_queue s)" "distinct (zombie_reap s)"
    "set (ready_queue s) = {a \<in> set (all_tasks s). state (tsk s a) = TASK_READY}"
    "\<forall>a \<in> set (zombie_reap s). a \<in> set (all_tasks s) \<and> state (tsk s a) = TASK_DEAD"
    "\<forall>a \<in> set (all_tasks s). state (tsk s a) = TASK_RUNNING \<longrightarrow> a = current_task s \<or> a = main_task s"
    using assms(1) unfolding q_wf_def by auto
  have "set (zombie_reap s) \<subseteq> set (all_tasks s)" using q by auto
  from reap_zombies_spec [OF assms(2) q(1) this q(3)]
  show f: "own_wf s'" "all_tasks s' = filter (\<lambda>a. a \<notin> set (zombie_reap s)) (all_tasks s)" "tsk s' = tsk s"
    "ready_queue s' = ready_queue s" "current_task s' = current_task s" "zombie_reap s' = []"
    "freed s' = freed s \<union> set (zombie_reap s)" "stale s' = stale s" "pit_ticks s' = pit_ticks s" "kernel_paging s' = kernel_paging s"
    "main_task s' = main_task s" "next_pid s' = next_pid s"
    by (simp_all add: s'_def reap_zombies_def fold_remove1_self)
  have rz: "a \<notin> set (zombie_reap s)" if "a \<in> set (ready_queue s)" for a using that q by auto
  have "set (ready_queue s) = {a \<in> set (all_tasks s'). state (tsk s' a) = TASK_READY}"
    unfolding f(2,3) using q(4) rz by auto
  then show "q_wf s'" unfolding q_wf_def f(3-6,11) using q(1,2,6) by (simp add: f(2))
  show "reap_ready s' = s'" by (rule reap_ready_id) (auto simp: f(3,4) q(4))
qed

lemma requeue_wf:
  assumes "q_wf s" "own_wf s" "current_task s \<in> set (all_tasks s)" "state (cur s) = TASK_RUNNING"
  shows "q_wf (requeue s)" "own_wf (requeue s)" "only_main (requeue s)"
    "ready_queue (requeue s) = ready_queue s @ [current_task s]" "all_tasks (requeue s) = all_tasks s"
    "tsk (requeue s) = (tsk s)(current_task s := (cur s)\<lparr>state := TASK_READY\<rparr>)" "current_task (requeue s) = current_task s"
proof -
  show f: "ready_queue (requeue s) = ready_queue s @ [current_task s]" "all_tasks (requeue s) = all_tasks s"
    "tsk (requeue s) = (tsk s)(current_task s := (cur s)\<lparr>state := TASK_READY\<rparr>)" "current_task (requeue s) = current_task s"
    by (simp_all add: requeue_def k_defs)
  have g: "main_task (requeue s) = main_task s" "zombie_reap (requeue s) = zombie_reap s" "kheap (requeue s) = kheap s" "kernel_paging (requeue s) = kernel_paging s"
    by (simp_all add: requeue_def k_defs)
  show "own_wf (requeue s)" by (rule own_wf_cong [OF assms(2)]) (simp_all add: f g)
  show "only_main (requeue s)"
    using q_wfD(7) [OF assms(1)] by (auto simp: only_main_def f g)
  show "q_wf (requeue s)"
  proof (rule q_wfI)
    fix a
    note q = q_wfD(4-7) [OF assms(1), of a]
    show "a \<in> set (ready_queue (requeue s)) \<longleftrightarrow> a \<in> set (all_tasks (requeue s)) \<and> state (tsk (requeue s) a) = TASK_READY"
      using assms(3) q(1) by (cases "a = current_task s") (simp_all add: f)
    show "a \<in> set (zombie_reap (requeue s)) \<Longrightarrow> a \<in> set (all_tasks (requeue s)) \<and> state (tsk (requeue s) a) = TASK_DEAD"
      using assms(4) q(2,3) by (cases "a = current_task s") (simp_all add: f g)
    assume a: "a \<in> set (all_tasks (requeue s))" "state (tsk (requeue s) a) = TASK_RUNNING"
    then have "state (tsk s a) = TASK_RUNNING" by (simp add: f split: if_splits)
    with a(1) q(4) show "a = current_task (requeue s) \<or> a = main_task (requeue s)" unfolding f g by blast
  qed (use q_wfD [OF assms(1)] assms(4) in \<open>auto simp: f g\<close>)
qed

lemma idle_tick_wf:
  assumes "q_wf s" "own_wf s"
  shows "q_wf (idle_tick s)" "own_wf (idle_tick s)" "all_tasks (idle_tick s) = all_tasks s" "current_task (idle_tick s) = current_task s"
    "only_main s \<Longrightarrow> only_main (idle_tick s)" "main_task (idle_tick s) = main_task s"
proof -
  let ?s = "s\<lparr>pit_ticks := pit_ticks s + 1\<rparr>"
  have d: "distinct (all_tasks ?s)" using assms(1) by (simp add: q_wf_def)
  note w = wake_sleepers_simps [OF d]
  show a: "all_tasks (idle_tick s) = all_tasks s" "current_task (idle_tick s) = current_task s" "main_task (idle_tick s) = main_task s"
    by (simp_all add: idle_tick_def w)
  show "own_wf (idle_tick s)" by (rule own_wf_cong [OF assms(2)]) (simp_all add: idle_tick_def w)
  show "only_main s \<Longrightarrow> only_main (idle_tick s)"
    by (simp add: only_main_def idle_tick_def w)
  show "q_wf (idle_tick s)"
  proof (rule q_wfI)
    fix a
    note q = q_wfD(4-7) [OF assms(1), of a]
    show "a \<in> set (ready_queue (idle_tick s)) \<longleftrightarrow> a \<in> set (all_tasks (idle_tick s)) \<and> state (tsk (idle_tick s) a) = TASK_READY"
      using q(1) by (auto simp: idle_tick_def w)
    show "a \<in> set (zombie_reap (idle_tick s)) \<Longrightarrow> a \<in> set (all_tasks (idle_tick s)) \<and> state (tsk (idle_tick s) a) = TASK_DEAD"
      using q(2,3) by (simp add: idle_tick_def w wake_due_def)
    assume a: "a \<in> set (all_tasks (idle_tick s))" "state (tsk (idle_tick s) a) = TASK_RUNNING"
    then have "state (tsk s a) = TASK_RUNNING" by (simp add: idle_tick_def w split: if_splits)
    with a(1) q(4) show "a = current_task (idle_tick s) \<or> a = main_task (idle_tick s)" by (simp add: idle_tick_def w)
  qed (use q_wfD [OF assms(1)] in \<open>auto simp: idle_tick_def w wake_due_def\<close>)
qed

lemma idle_ticks_wf:
  fixes n
  assumes "q_wf s" "own_wf s" "only_main s"
  defines "s' \<equiv> (idle_tick ^^ n) s"
  shows "q_wf s' \<and> own_wf s' \<and> all_tasks s' = all_tasks s \<and> current_task s' = current_task s \<and>
     only_main s'"
  unfolding s'_def
  by (induction n) (use assms(1-3) idle_tick_wf in auto)

lemma decay_form: "\<exists>c bs. decay s = s\<lparr>decay_counter := c, tsk := (\<lambda>a. (tsk s a)\<lparr>dynamic_boost := bs a\<rparr>)\<rparr>"
proof -
  let ?f = "\<lambda>a s. if 0 < dynamic_boost (tsk s a) then upd a (\<lambda>t. t\<lparr>dynamic_boost := dynamic_boost t - 1\<rparr>) s else s"
  have "\<exists>bs. fold ?f xs s = s\<lparr>tsk := (\<lambda>a. (tsk s a)\<lparr>dynamic_boost := bs a\<rparr>)\<rparr>" for xs s
  proof (induction xs arbitrary: s)
    case Nil
    show ?case by (rule exI [of _ "\<lambda>a. dynamic_boost (tsk s a)"]) simp
  next
    case (Cons x xs)
    have "\<exists>b1. ?f x s = s\<lparr>tsk := (\<lambda>a. (tsk s a)\<lparr>dynamic_boost := b1 a\<rparr>)\<rparr>"
      by (rule exI [of _ "\<lambda>a. dynamic_boost (tsk (?f x s) a)"]) (auto simp: upd_def intro!: kst.equality)
    then obtain b1 where 1: "?f x s = s\<lparr>tsk := (\<lambda>a. (tsk s a)\<lparr>dynamic_boost := b1 a\<rparr>)\<rparr>" ..
    from Cons.IH [of "?f x s"] obtain b2 where
      "fold ?f xs (?f x s) = (?f x s)\<lparr>tsk := (\<lambda>a. (tsk (?f x s) a)\<lparr>dynamic_boost := b2 a\<rparr>)\<rparr>" by blast
    then have "fold ?f (x # xs) s = s\<lparr>tsk := (\<lambda>a. (tsk s a)\<lparr>dynamic_boost := b2 a\<rparr>)\<rparr>" by (simp add: 1)
    then show ?case by blast
  qed
  from this [of "ready_queue s" "s\<lparr>decay_counter := 0\<rparr>"] obtain bs where
    1: "fold ?f (ready_queue s) (s\<lparr>decay_counter := 0\<rparr>) =
      s\<lparr>decay_counter := 0, tsk := (\<lambda>a. (tsk s a)\<lparr>dynamic_boost := bs a\<rparr>)\<rparr>" by auto
  show ?thesis
  proof (cases "10 \<le> Suc (decay_counter s)")
    case True
    then show ?thesis by (intro exI [of _ 0] exI [of _ bs]) (simp add: decay_def 1)
  next
    case False
    then show ?thesis
      by (intro exI [of _ "Suc (decay_counter s)"] exI [of _ "\<lambda>a. dynamic_boost (tsk s a)"]) (simp add: decay_def)
  qed
qed

lemma decay_simps [simp]:
  "ready_queue (decay s) = ready_queue s" "all_tasks (decay s) = all_tasks s" "zombie_reap (decay s) = zombie_reap s"
  "current_task (decay s) = current_task s" "kheap (decay s) = kheap s" "kernel_paging (decay s) = kernel_paging s"
  "freed (decay s) = freed s" "stale (decay s) = stale s" "main_task (decay s) = main_task s" "pgr (decay s) = pgr s"
  "cpu (decay s) = cpu s" "pit_ticks (decay s) = pit_ticks s" "next_pid (decay s) = next_pid s" "tss_esp0 (decay s) = tss_esp0 s"
  "ph (decay s) = ph s"
  using decay_form [of s] by auto

lemma decay_tsk [simp]:
  "state (tsk (decay s) a) = state (tsk s a)" "kernel_stack (tsk (decay s) a) = kernel_stack (tsk s a)"
  "paging (tsk (decay s) a) = paging (tsk s a)" "caps (tsk (decay s) a) = caps (tsk s a)"
  "pid (tsk (decay s) a) = pid (tsk s a)" "parent (tsk (decay s) a) = parent (tsk s a)"
  "children (tsk (decay s) a) = children (tsk s a)" "wake_tick (tsk (decay s) a) = wake_tick (tsk s a)"
  "priority (tsk (decay s) a) = priority (tsk s a)" "restore_context (tsk (decay s) a) r = restore_context (tsk s a) r"
  "quantum (tsk (decay s) a) = quantum (tsk s a)" "t_eax (tsk (decay s) a) = t_eax (tsk s a)"
  using decay_form [of s] by (auto simp: restore_context_def Let_def)

lemma switch_to_simps:
  "current_task (snd (switch_to nt r s)) = nt" "all_tasks (snd (switch_to nt r s)) = all_tasks s"
  "ready_queue (snd (switch_to nt r s)) = remove1 nt (ready_queue s)" "zombie_reap (snd (switch_to nt r s)) = zombie_reap s"
  "kheap (snd (switch_to nt r s)) = kheap s" "kernel_paging (snd (switch_to nt r s)) = kernel_paging s"
  "state (tsk (snd (switch_to nt r s)) a) = (if a = nt then TASK_RUNNING else state (tsk s a))"
  "kernel_stack (tsk (snd (switch_to nt r s)) a) = kernel_stack (tsk s a)" "paging (tsk (snd (switch_to nt r s)) a) = paging (tsk s a)"
  "caps (tsk (snd (switch_to nt r s)) a) = caps (tsk s a)" "priority (tsk (snd (switch_to nt r s)) a) = priority (tsk s a)"
  "pid (tsk (snd (switch_to nt r s)) a) = pid (tsk s a)" "quantum (tsk (snd (switch_to nt r s)) nt) = 4"
  "parent (tsk (snd (switch_to nt r s)) a) = parent (tsk s a)" "children (tsk (snd (switch_to nt r s)) a) = children (tsk s a)"
  "freed (snd (switch_to nt r s)) = freed s" "stale (snd (switch_to nt r s)) = (stale s \<or> current_task s \<in> freed s)"
  "main_task (snd (switch_to nt r s)) = main_task s" "next_pid (snd (switch_to nt r s)) = next_pid s"
  "pit_ticks (snd (switch_to nt r s)) = pit_ticks s"
  by (simp_all add: switch_to_def Let_def k_defs)

lemma switch_to_mem:
  "ph (snd (switch_to nt r s)) = ph s" "t_eax (tsk (snd (switch_to nt r s)) a) = t_eax (tsk s a)"
  by (simp_all add: switch_to_def Let_def k_defs)

lemma switch_to_frame: "fst (switch_to nt r s) = restore_context (tsk s nt) r"
proof -
  have "restore_context (t\<lparr>state := x, quantum := q\<rparr>) r = restore_context t r" for t x q
    by (simp add: restore_context_def Let_def)
  then show ?thesis by (simp add: switch_to_def Let_def k_defs)
qed

lemma restore_err [simp]: "r_err_code (restore_context t r) = r_err_code r" "r_vec (restore_context t r) = r_vec r"
  by (simp_all add: restore_context_def Let_def)

lemma switch_to_inv:
  assumes "q_wf s" "own_wf s" "only_main s" "nt \<in> set (ready_queue s)"
  shows "sched_inv (snd (switch_to nt r s))"
proof -
  let ?s = "snd (switch_to nt r s)"
  have "own_wf ?s" by (rule own_wf_cong [OF assms(2)]) (simp_all add: switch_to_simps)
  moreover have "q_wf ?s"
  proof (rule q_wfI)
    fix a
    note q = q_wfD(4-7) [OF assms(1), of a]
    show "a \<in> set (ready_queue ?s) \<longleftrightarrow> a \<in> set (all_tasks ?s) \<and> state (tsk ?s a) = TASK_READY"
      using q(1) q_wfD(2) [OF assms(1)] by (simp add: switch_to_simps)
    show "a \<in> set (zombie_reap ?s) \<Longrightarrow> a \<in> set (all_tasks ?s) \<and> state (tsk ?s a) = TASK_DEAD"
      using q(1-3) assms(4) by (auto simp: switch_to_simps)
    show "a \<in> set (all_tasks ?s) \<Longrightarrow> state (tsk ?s a) = TASK_RUNNING \<Longrightarrow> a = current_task ?s \<or> a = main_task ?s"
      using assms(3) by (auto simp: only_main_def switch_to_simps split: if_splits)
  qed (use q_wfD [OF assms(1)] in \<open>auto simp: switch_to_simps\<close>)
  moreover have "nt \<in> set (all_tasks s)" using assms(1,4) by (auto simp: q_wf_def)
  ultimately show ?thesis by (simp add: sched_inv_def switch_to_simps)
qed

text \<open>The choice: the first entry of highest effective priority.\<close>

definition first_max :: "('a \<Rightarrow> 'b::linorder) \<Rightarrow> 'a list \<Rightarrow> 'a \<Rightarrow> bool" where
  "first_max f q x = (\<exists>xs ys. q = xs @ x # ys \<and> (\<forall>b \<in> set xs. f b < f x) \<and> (\<forall>b \<in> set ys. f b \<le> f x))"

lemma pick_fold:
  "(case fold (pick_step ts) q (None, 0) of
      (None, p) \<Rightarrow> p = 0 \<and> (\<forall>b \<in> set q. eff_prio (ts b) = 0)
    | (Some a, p) \<Rightarrow> p = eff_prio (ts a) \<and> first_max (\<lambda>b. eff_prio (ts b)) q a)"
proof (induction q rule: rev_induct)
  case (snoc x q)
  obtain a p where f: "fold (pick_step ts) q (None, 0) = (a, p)" by (cases "fold (pick_step ts) q (None, 0)")
  have st: "fold (pick_step ts) (q @ [x]) (None, 0) = pick_step ts x (a, p)" by (simp add: f)
  show ?case
  proof (cases "p < eff_prio (ts x)")
    case True
    then have "\<forall>b \<in> set q. eff_prio (ts b) < eff_prio (ts x)"
      using snoc by (auto simp: f first_max_def split: option.splits) (meson less_trans le_less_trans)+
    then have "first_max (\<lambda>b. eff_prio (ts b)) (q @ [x]) x"
      unfolding first_max_def by (intro exI [of _ q] exI [of _ "[]"]) simp
    with True show ?thesis unfolding st by (simp add: pick_step_def)
  next
    case False
    show ?thesis
    proof (cases a)
      case None
      with snoc have z: "p = 0" "\<forall>b \<in> set q. eff_prio (ts b) = 0" by (simp_all add: f)
      with False have "eff_prio (ts x) = 0" by (simp add: word_greater_zero_iff)
      with z None False show ?thesis unfolding st by (simp add: pick_step_def)
    next
      case (Some y)
      with snoc obtain xs ys where "q = xs @ y # ys" "\<forall>b \<in> set xs. eff_prio (ts b) < eff_prio (ts y)"
        "\<forall>b \<in> set ys. eff_prio (ts b) \<le> eff_prio (ts y)" "p = eff_prio (ts y)" by (auto simp: f first_max_def)
      with False have "first_max (\<lambda>b. eff_prio (ts b)) (q @ [x]) y"
        unfolding first_max_def by (intro exI [of _ xs] exI [of _ "ys @ [x]"]) auto
      with False Some \<open>p = _\<close> show ?thesis unfolding st by (simp add: pick_step_def)
    qed
  qed
qed simp

lemma pick_next_first_max: "q \<noteq> [] \<Longrightarrow> first_max (\<lambda>b. eff_prio (ts b)) q (pick_next ts q)"
  using pick_fold [where ts = ts and q = q]
  by (cases q) (auto simp: pick_next_def first_max_def split: option.splits prod.splits intro: exI [of _ "[]"])

lemma first_max_in: "first_max f q x \<Longrightarrow> x \<in> set q"
  by (auto simp: first_max_def)

text \<open>\<open>schedule\<close> from any state between the two halves of a system call.\<close>

lemma save_context_simps [simp]:
  "state (save_context r t) = state t" "kernel_stack (save_context r t) = kernel_stack t" "paging (save_context r t) = paging t"
  "caps (save_context r t) = caps t" "pid (save_context r t) = pid t" "parent (save_context r t) = parent t"
  "children (save_context r t) = children t" "priority (save_context r t) = priority t"
  "dynamic_boost (save_context r t) = dynamic_boost t" "wake_tick (save_context r t) = wake_tick t"
  by (simp_all add: save_context_def Let_def)

text \<open>The state in which \<open>schedule\<close> looks at the ready queue.\<close>

definition before_pick :: "registers_t \<Rightarrow> kst \<Rightarrow> kst" where
  "before_pick r s =
     (let s1 = (if state (cur s) \<noteq> TASK_DEAD then upd (current_task s) (save_context r) s else s);
          s2 = reap_ready (reap_zombies s1)
      in if state (cur s) = TASK_RUNNING then requeue s2 else s2)"

lemma schedule_alt:
  "current_task s \<noteq> 0 \<Longrightarrow> schedule r s =
     (if ready_queue (before_pick r s) = [] \<and> state (cur s) = TASK_DEAD then None
      else case idle_wait (before_pick r s) of None \<Rightarrow> None
           | Some s4 \<Rightarrow> Some (switch_to (pick_next (tsk s4) (ready_queue s4)) r s4))"
  by (simp add: schedule_def before_pick_def Let_def)

lemma before_pick_wf:
  fixes r
  assumes "q_wf s" "own_wf s" "current_task s \<in> set (all_tasks s)" "current_task s \<notin> set (zombie_reap s) \<or> state (cur s) = TASK_DEAD"
  defines "s' \<equiv> before_pick r s"
  shows "q_wf s'" "own_wf s'" "only_main s'" "current_task s' = current_task s"
    "all_tasks s' = filter (\<lambda>a. a \<notin> set (zombie_reap s)) (all_tasks s)"
    "ready_queue s' = ready_queue s @ (if state (cur s) = TASK_RUNNING then [current_task s] else [])"
    "tsk s' a = (if a = current_task s \<and> state (cur s) \<noteq> TASK_DEAD
        then (save_context r (cur s))\<lparr>state := (if state (cur s) = TASK_RUNNING then TASK_READY else state (cur s))\<rparr> else tsk s a)"
    "freed s' = freed s \<union> set (zombie_reap s)" "stale s' = stale s" "pit_ticks s' = pit_ticks s" "zombie_reap s' = []"
    "kernel_paging s' = kernel_paging s" "main_task s' = main_task s" "next_pid s' = next_pid s"
proof -
  define s1 where "s1 = (if state (cur s) \<noteq> TASK_DEAD then upd (current_task s) (save_context r) s else s)"
  have e: "all_tasks s1 = all_tasks s" "ready_queue s1 = ready_queue s" "zombie_reap s1 = zombie_reap s" "kheap s1 = kheap s"
    "current_task s1 = current_task s" "kernel_paging s1 = kernel_paging s" "freed s1 = freed s" "stale s1 = stale s"
    "pit_ticks s1 = pit_ticks s" "main_task s1 = main_task s" "next_pid s1 = next_pid s"
    "\<And>a. state (tsk s1 a) = state (tsk s a)" "\<And>a. kernel_stack (tsk s1 a) = kernel_stack (tsk s a)"
    "\<And>a. paging (tsk s1 a) = paging (tsk s a)"
    by (simp_all add: s1_def upd_def)
  have w: "q_wf s1" "own_wf s1"
    using q_wf_cong [OF assms(1), of s1] own_wf_cong [OF assms(2), of s1] by (simp_all add: e)
  note r = reap_q_wf [OF w]
  define s2 where "s2 = reap_zombies s1"
  have s': "s' = (if state (cur s) = TASK_RUNNING then requeue s2 else s2)"
    unfolding s'_def before_pick_def Let_def s1_def [symmetric] s2_def r(8) ..
  have "current_task s2 \<in> set (all_tasks s2)" if "state (cur s) = TASK_RUNNING"
    using assms(3,4) that by (auto simp: s2_def r e)
  moreover have c2: "cur s2 = cur s1" by (simp add: s2_def r)
  ultimately have q: "q_wf (requeue s2)" "own_wf (requeue s2)"
      "only_main (requeue s2)"
      "ready_queue (requeue s2) = ready_queue s2 @ [current_task s2]" "all_tasks (requeue s2) = all_tasks s2"
      "tsk (requeue s2) = (tsk s2)(current_task s2 := (cur s2)\<lparr>state := TASK_READY\<rparr>)" "current_task (requeue s2) = current_task s2"
    if "state (cur s) = TASK_RUNNING"
    using requeue_wf [of s2] that r(1,2) by (simp_all add: s2_def r e)
  show "q_wf s'" "own_wf s'" "current_task s' = current_task s"
    "all_tasks s' = filter (\<lambda>a. a \<notin> set (zombie_reap s)) (all_tasks s)"
    "ready_queue s' = ready_queue s @ (if state (cur s) = TASK_RUNNING then [current_task s] else [])"
    using q r(1,2) unfolding s' by (simp_all add: s2_def r e)
  show "only_main s'"
  proof (cases "state (cur s) = TASK_RUNNING")
    case True
    then show ?thesis using q(3) by (simp add: s')
  next
    case False
    then show ?thesis using q_wfD(7) [OF r(1)] by (auto simp: only_main_def s' s2_def r e)
  qed
  show "tsk s' a = (if a = current_task s \<and> state (cur s) \<noteq> TASK_DEAD
        then (save_context r (cur s))\<lparr>state := (if state (cur s) = TASK_RUNNING then TASK_READY else state (cur s))\<rparr> else tsk s a)"
  proof -
    have t1: "tsk s1 b = (if b = current_task s \<and> state (cur s) \<noteq> TASK_DEAD then save_context r (cur s) else tsk s b)" for b
      by (simp add: s1_def upd_def)
    have t2: "tsk s2 = tsk s1" "current_task s2 = current_task s" by (simp_all add: s2_def r e)
    show ?thesis
    proof (cases "state (cur s) = TASK_RUNNING")
      case True
      then show ?thesis using q(6) by (simp add: s' t2 t1)
    next
      case False
      have "(save_context r (cur s))\<lparr>state := state (cur s)\<rparr> = save_context r (cur s)"
        by (metis save_context_simps(1) task_struct.surjective task_struct.update_convs(15))
      with False show ?thesis by (simp add: s' t2 t1)
    qed
  qed
  show "freed s' = freed s \<union> set (zombie_reap s)" "stale s' = stale s" "pit_ticks s' = pit_ticks s" "zombie_reap s' = []"
    "kernel_paging s' = kernel_paging s" "main_task s' = main_task s" "next_pid s' = next_pid s"
    by (simp_all add: s' requeue_def k_defs s2_def r e)
qed

lemma schedule_inv:
  assumes "q_wf s" "own_wf s" "current_task s \<in> set (all_tasks s)" "current_task s \<notin> set (zombie_reap s) \<or> state (cur s) = TASK_DEAD"
    "schedule r s = Some (r', s')"
  shows "sched_inv s'"
proof -
  note b = before_pick_wf [OF assms(1-4), of r]
  have "current_task s \<noteq> 0" using own_wf_nonzero assms(2,3) .
  with assms(5) obtain s4 where s4: "idle_wait (before_pick r s) = Some s4"
    "switch_to (pick_next (tsk s4) (ready_queue s4)) r s4 = (r', s')" by (auto simp: schedule_alt split: if_splits option.splits)
  from idle_wait_Some [OF s4(1)] obtain n where n: "ready_queue s4 \<noteq> []" "s4 = (idle_tick ^^ n) (before_pick r s)" by blast
  note t = idle_ticks_wf [OF b(1-3), of n, folded n(2)]
  have "pick_next (tsk s4) (ready_queue s4) \<in> set (ready_queue s4)"
    by (rule first_max_in [OF pick_next_first_max [OF n(1)]])
  then have "sched_inv (snd (switch_to (pick_next (tsk s4) (ready_queue s4)) r s4))"
    using t by (intro switch_to_inv) auto
  then show ?thesis by (simp add: s4(2))
qed

section \<open>The invariant across the operations\<close>

lemma push_all_form: "\<exists>sp m. push_all vs x = (sp, (snd x)\<lparr>ph := (ph (snd x))\<lparr>ram := m\<rparr>\<rparr>)"
proof (induction vs arbitrary: x)
  case Nil
  show ?case by (intro exI [of _ "fst x"] exI [of _ "ram (ph (snd x))"]) (simp add: push_all_def)
next
  case (Cons v vs)
  obtain sp s where x: "x = (sp, s)" by (cases x)
  obtain sp' m where "push_all vs (push v x) = (sp', (snd (push v x))\<lparr>ph := (ph (snd (push v x)))\<lparr>ram := m\<rparr>\<rparr>)"
    using Cons.IH by blast
  then show ?case by (intro exI [of _ sp'] exI [of _ m]) (simp add: push_all_def x push_def)
qed

lemma push_frame_form: "\<exists>sp m. push_pusha (push_all vs (a, s)) = (sp, s\<lparr>ph := (ph s)\<lparr>ram := m\<rparr>\<rparr>)"
proof -
  obtain p1 m1 where 1: "push_all vs (a, s) = (p1, s\<lparr>ph := (ph s)\<lparr>ram := m1\<rparr>\<rparr>)" using push_all_form [of vs "(a, s)"] by auto
  obtain p2 m2 where 2: "push_all [0, 0x20, 0, 0, 0, 0] (push_all vs (a, s)) = (p2, s\<lparr>ph := (ph s)\<lparr>ram := m2\<rparr>\<rparr>)"
    using push_all_form [of "[0, 0x20, 0, 0, 0, 0]" "push_all vs (a, s)"] unfolding 1 by auto
  show ?thesis
    using push_all_form [of "[0, 0, 0]" "push (p2 - 4 - 12) (p2, s\<lparr>ph := (ph s)\<lparr>ram := m2\<rparr>\<rparr>)"]
    by (simp add: push_pusha_def 2) (simp add: push_def)
qed

lemma alloc_task_cases:
  assumes "own_wf s" "held (kheap s) A" "set (owned s) \<subseteq> A"
  shows "(\<exists>h. alloc_task s = Some (None, s\<lparr>kheap := h\<rparr>) \<and> held h A) \<or>
    (\<exists>t stk h m. alloc_task s = Some (Some (t, stk), s\<lparr>kheap := h, freed := freed s - {t}, ph := (ph s)\<lparr>ram := m\<rparr>\<rparr>) \<and>
       t \<noteq> 0 \<and> stk \<noteq> 0 \<and> t \<noteq> stk \<and> t \<notin> A \<and> stk \<notin> A \<and> held h (insert stk (insert t A)))"
proof -
  obtain t h1 where 1: "kmalloc 496 (kheap s) = Some (t, h1)" using held_alloc_total [OF assms(2), of 496] by auto
  show ?thesis
  proof (cases "t = 0")
    case True
    then show ?thesis using held_alloc(2) [OF assms(2) _ 1] by (auto simp: alloc_task_def k_malloc_def 1)
  next
    case False
    note t = held_alloc(1) [OF assms(2) _ 1 False, simplified]
    obtain stk h2 where 2: "kmalloc 8192 h1 = Some (stk, h2)" using held_alloc_total [of h1 "insert t A" 8192] t by auto
    show ?thesis
    proof (cases "stk = 0")
      case True
      with held_alloc(2) [OF _ _ 2] t have "held h2 (insert t A)" by auto
      then have "held (kfree t h2) A" using t by (intro held_free) auto
      then show ?thesis using False True by (auto simp: alloc_task_def k_malloc_def k_free_def 1 2)
    next
      case stk: False
      with held_alloc(1) [OF _ _ 2] t have "stk \<notin> insert t A \<and> held h2 (insert stk (insert t A))" by auto
      then show ?thesis using False stk t
        by (intro disjI2 exI [of _ t] exI [of _ stk] exI [of _ h2])
          (auto simp: alloc_task_def k_malloc_def k_free_def fill_stack_def 1 2)
    qed
  qed
qed

text \<open>Entering a fresh task into \<open>all_tasks\<close>.\<close>

lemma add_task_own_wf:
  assumes "own_wf s" "t \<noteq> 0" "stk \<noteq> 0" "t \<noteq> stk" "t \<notin> A" "stk \<notin> A" "set (owned s) \<subseteq> A" "held h (insert stk (insert t A))"
    "all_tasks s' = all_tasks s @ [t]" "kheap s' = h" "kernel_paging s' = kernel_paging s"
    "kernel_stack (tsk s' t) = stk" "p = paging (tsk s' t)" "p = 0 \<or> p = kernel_paging s \<or> p \<in> A \<and> p \<notin> set (owned s)"
    "\<forall>a \<in> set (all_tasks s). kernel_stack (tsk s' a) = kernel_stack (tsk s a) \<and> paging (tsk s' a) = paging (tsk s a)"
  shows "own_wf s'"
proof -
  have "owned s' = owned s @ task_objs (kernel_paging s) (tsk s' t) t"
    using owned_cong [of "s'\<lparr>all_tasks := all_tasks s\<rparr>" s] assms(9,11,15) by (simp add: owned_def)
  moreover have "set (task_objs (kernel_paging s) (tsk s' t) t) \<subseteq> insert stk (insert t A)" "0 \<notin> set (task_objs (kernel_paging s) (tsk s' t) t)"
    "distinct (task_objs (kernel_paging s) (tsk s' t) t)" "set (task_objs (kernel_paging s) (tsk s' t) t) \<inter> set (owned s) = {}"
    using assms(2-7,12-14) by (auto simp: task_objs_def)
  ultimately show ?thesis
    using assms(1,7,8,10) unfolding own_wf_def by (auto intro: held_mono)
qed

lemma new_struct_simps [simp]:
  "state (new_struct p sp stk j) = TASK_READY" "kernel_stack (new_struct p sp stk j) = stk" "children (new_struct p sp stk j) = []"
  "pid (new_struct p sp stk j) = p"
  by (simp_all add: new_struct_def no_fds_def)

lemma not_owned_not_task: "t \<notin> set (owned s) \<Longrightarrow> t \<notin> set (all_tasks s)"
  using in_owned [of t s] by (auto simp: task_objs_def)

lemma add_ready_q_wf:
  assumes "q_wf s" "t \<notin> set (all_tasks s)" "all_tasks s' = all_tasks s @ [t]" "ready_queue s' = ready_queue s @ [t]"
    "zombie_reap s' = zombie_reap s" "current_task s' = current_task s" "main_task s' = main_task s" "state (tsk s' t) = TASK_READY"
    "\<forall>a \<in> set (all_tasks s). state (tsk s' a) = state (tsk s a)"
  shows "q_wf s'"
proof (rule q_wfI)
  fix b
  note q = q_wfD(4-7) [OF assms(1), of b]
  show "b \<in> set (ready_queue s') \<longleftrightarrow> b \<in> set (all_tasks s') \<and> state (tsk s' b) = TASK_READY"
    using q(1) assms by (cases "b = t") auto
  show "b \<in> set (zombie_reap s') \<Longrightarrow> b \<in> set (all_tasks s') \<and> state (tsk s' b) = TASK_DEAD"
    using q(2,3) assms by (cases "b = t") auto
  show "b \<in> set (all_tasks s') \<Longrightarrow> state (tsk s' b) = TASK_RUNNING \<Longrightarrow> b = current_task s' \<or> b = main_task s'"
    using q(4) assms by (cases "b = t") auto
qed (use q_wfD [OF assms(1)] assms in auto)

lemma task_create_inv:
  assumes "sched_inv s"
  shows "\<exists>p s'. task_create w f a s = Some (p, s') \<and> sched_inv s' \<and> current_task s' = current_task s"
proof -
  have w: "q_wf s" "own_wf s" "current_task s \<in> set (all_tasks s)" "state (cur s) = TASK_RUNNING"
    using assms by (auto simp: sched_inv_def)
  have hd: "held (kheap s) (set (owned s))" using w(2) by (simp add: own_wf_def)
  from alloc_task_cases [OF w(2) hd subset_refl] show ?thesis
  proof (elim disjE exE conjE)
    fix h assume h: "alloc_task s = Some (None, s\<lparr>kheap := h\<rparr>)" "held h (set (owned s))"
    have "q_wf (s\<lparr>kheap := h\<rparr>)" by (rule q_wf_cong [OF w(1)]) simp_all
    moreover have "own_wf (s\<lparr>kheap := h\<rparr>)" using w(2) h(2) by (simp add: own_wf_def owned_def)
    ultimately show ?thesis using w by (simp add: task_create_def h sched_inv_def)
  next
    fix t stk h m
    let ?s1 = "s\<lparr>kheap := h, freed := freed s - {t}, ph := (ph s)\<lparr>ram := m\<rparr>\<rparr>"
    assume h: "alloc_task s = Some (Some (t, stk), ?s1)" "t \<noteq> 0" "stk \<noteq> 0" "t \<noteq> stk" "t \<notin> set (owned s)" "stk \<notin> set (owned s)"
      "held h (insert stk (insert t (set (owned s))))"
    note ta = not_owned_not_task [OF h(5)]
    obtain sp m2 where pf: "push_pusha (push_all [0x202, 0x18, w] (stk + 8192, ?s1)) = (sp, ?s1\<lparr>ph := (ph ?s1)\<lparr>ram := m2\<rparr>\<rparr>)"
      using push_frame_form by blast
    obtain s' where c: "task_create w f a s = Some (next_pid s, s')" and s': "s' = snd (the (task_create w f a s))"
      by (simp add: task_create_def h(1) pf Let_def)
    have e: "all_tasks s' = all_tasks s @ [t]" "ready_queue s' = ready_queue s @ [t]" "zombie_reap s' = zombie_reap s"
      "current_task s' = current_task s" "kheap s' = h" "kernel_paging s' = kernel_paging s" "main_task s' = main_task s"
      "kernel_stack (tsk s' t) = stk" "paging (tsk s' t) = kernel_paging s" "state (tsk s' t) = TASK_READY" "\<And>b. b \<noteq> t \<Longrightarrow> tsk s' b = tsk s b"
      unfolding s' by (simp_all add: task_create_def h(1) pf Let_def k_defs)
    have e12: "\<forall>b \<in> set (all_tasks s). tsk s' b = tsk s b" using e(11) ta by metis
    have "own_wf s'"
      by (rule add_task_own_wf [OF w(2) h(2-6) subset_refl h(7) e(1,5,6,8) refl]) (simp_all add: e(9) e12)
    moreover have "q_wf s'" by (rule add_ready_q_wf [OF w(1) ta e(1-4,7,10)]) (simp add: e12)
    moreover have "current_task s \<noteq> t" using w(3) ta by auto
    ultimately show ?thesis using w c e12 by (auto simp: sched_inv_def e(1,4))
  qed
qed

text \<open>The user page directory given to \<open>task_create_user\<close> is a live object of the heap that no task holds yet.\<close>

lemma task_create_user_inv:
  assumes "sched_inv s" "current_task s = main_task s" "pd \<notin> set (owned s)" "held (kheap s) (insert pd (set (owned s)))"
  shows "\<exists>p s'. task_create_user en top pd s = Some (p, s') \<and> sched_inv s'"
proof -
  have w: "q_wf s" "own_wf s" "current_task s \<in> set (all_tasks s)" "state (cur s) = TASK_RUNNING"
    using assms by (auto simp: sched_inv_def)
  from alloc_task_cases [OF w(2) assms(4) subset_insertI] show ?thesis
  proof (elim disjE exE conjE)
    fix h assume h: "alloc_task s = Some (None, s\<lparr>kheap := h\<rparr>)" "held h (insert pd (set (owned s)))"
    have "q_wf (s\<lparr>kheap := h\<rparr>)" by (rule q_wf_cong [OF w(1)]) simp_all
    moreover have "own_wf (s\<lparr>kheap := h\<rparr>)" using w(2) held_mono [OF h(2)] by (simp add: own_wf_def owned_def subset_insertI)
    ultimately show ?thesis using w by (simp add: task_create_user_def h sched_inv_def)
  next
    fix t stk h m
    let ?A = "insert pd (set (owned s))" and ?s1 = "s\<lparr>kheap := h, freed := freed s - {t}, ph := (ph s)\<lparr>ram := m\<rparr>\<rparr>"
    assume h: "alloc_task s = Some (Some (t, stk), ?s1)" "t \<noteq> 0" "stk \<noteq> 0" "t \<noteq> stk" "t \<notin> ?A" "stk \<notin> ?A" "held h (insert stk (insert t ?A))"
    have ta: "t \<notin> set (all_tasks s)" using h(5) by (intro not_owned_not_task) simp
    have cn: "current_task s \<noteq> t" using w(3) ta by auto
    obtain sp m2 where pf: "push_pusha (push_all [0x23, top, 0x202, 0x2B, en] (stk + 8192, ?s1)) = (sp, ?s1\<lparr>ph := (ph ?s1)\<lparr>ram := m2\<rparr>\<rparr>)"
      using push_frame_form by blast
    obtain s' where c: "task_create_user en top pd s = Some (next_pid s, s')" and s': "s' = snd (the (task_create_user en top pd s))"
      by (simp add: task_create_user_def h(1) pf Let_def)
    have e: "all_tasks s' = all_tasks s @ [t]" "ready_queue s' = remove1 t (ready_queue s @ [t])" "zombie_reap s' = zombie_reap s"
      "current_task s' = t" "kheap s' = h" "kernel_paging s' = kernel_paging s" "main_task s' = main_task s"
      "kernel_stack (tsk s' t) = stk" "paging (tsk s' t) = pd" "state (tsk s' t) = TASK_RUNNING"
      using cn unfolding s' by (simp_all add: task_create_user_def h(1) pf Let_def k_defs)
    have e2: "b \<noteq> t \<Longrightarrow> state (tsk s' b) = state (tsk s b) \<and> kernel_stack (tsk s' b) = kernel_stack (tsk s b) \<and> paging (tsk s' b) = paging (tsk s b)" for b
      using cn unfolding s' by (simp add: task_create_user_def h(1) pf Let_def k_defs)
    have tr: "t \<notin> set (ready_queue s)" using ta q_wfD(4) [OF w(1)] by blast
    then have rq: "ready_queue s' = ready_queue s" by (simp add: e(2) remove1_append)
    have e3: "\<forall>b \<in> set (all_tasks s). state (tsk s' b) = state (tsk s b) \<and> kernel_stack (tsk s' b) = kernel_stack (tsk s b) \<and> paging (tsk s' b) = paging (tsk s b)"
      using e2 ta by metis
    have "own_wf s'"
      by (rule add_task_own_wf [OF w(2) h(2-6) subset_insertI h(7) e(1,5,6,8) refl]) (use assms(3) in \<open>simp_all add: e(9) e3\<close>)
    moreover have "q_wf s'"
    proof (rule q_wfI)
      fix b
      note q = q_wfD(4-7) [OF w(1), of b]
      show "b \<in> set (ready_queue s') \<longleftrightarrow> b \<in> set (all_tasks s') \<and> state (tsk s' b) = TASK_READY"
        using q(1) e3 e(10) ta by (cases "b = t") (auto simp: e(1) rq)
      show "b \<in> set (zombie_reap s') \<Longrightarrow> b \<in> set (all_tasks s') \<and> state (tsk s' b) = TASK_DEAD"
        using q(2,3) e3 ta by (cases "b = t") (auto simp: e(1,3))
      show "b \<in> set (all_tasks s') \<Longrightarrow> state (tsk s' b) = TASK_RUNNING \<Longrightarrow> b = current_task s' \<or> b = main_task s'"
        using q(4) e3 assms(2) by (cases "b = t") (auto simp: e(1,4,7))
    qed (use q_wfD [OF w(1)] ta in \<open>auto simp: e(1,3) rq\<close>)
    ultimately show ?thesis using c by (auto simp: sched_inv_def e(1,4,10))
  qed
qed

text \<open>What \<open>schedule\<close> keeps of every task.\<close>

lemma idle_tick_frame:
  assumes "q_wf s"
  shows "parent (tsk (idle_tick s) a) = parent (tsk s a)" "pid (tsk (idle_tick s) a) = pid (tsk s a)"
    "caps (tsk (idle_tick s) a) = caps (tsk s a)" "children (tsk (idle_tick s) a) = children (tsk s a)"
    "state (tsk s a) \<noteq> TASK_BLOCKED \<Longrightarrow> state (tsk (idle_tick s) a) = state (tsk s a)"
    "restore_context (tsk (idle_tick s) a) r = restore_context (tsk s a) r"
    "freed (idle_tick s) = freed s" "stale (idle_tick s) = stale s" "next_pid (idle_tick s) = next_pid s"
    "kernel_paging (idle_tick s) = kernel_paging s" "main_task (idle_tick s) = main_task s" "zombie_reap (idle_tick s) = zombie_reap s"
    "state (tsk (idle_tick s) a) = TASK_DEAD \<longleftrightarrow> state (tsk s a) = TASK_DEAD"
proof -
  have "distinct (all_tasks (s\<lparr>pit_ticks := pit_ticks s + 1\<rparr>))" using q_wfD(1) [OF assms] by simp
  note w = wake_sleepers_simps [OF this]
  show "parent (tsk (idle_tick s) a) = parent (tsk s a)" "pid (tsk (idle_tick s) a) = pid (tsk s a)"
    "caps (tsk (idle_tick s) a) = caps (tsk s a)" "children (tsk (idle_tick s) a) = children (tsk s a)"
    "state (tsk s a) \<noteq> TASK_BLOCKED \<Longrightarrow> state (tsk (idle_tick s) a) = state (tsk s a)"
    "restore_context (tsk (idle_tick s) a) r = restore_context (tsk s a) r"
    "freed (idle_tick s) = freed s" "stale (idle_tick s) = stale s" "next_pid (idle_tick s) = next_pid s"
    "kernel_paging (idle_tick s) = kernel_paging s" "main_task (idle_tick s) = main_task s" "zombie_reap (idle_tick s) = zombie_reap s"
    "state (tsk (idle_tick s) a) = TASK_DEAD \<longleftrightarrow> state (tsk s a) = TASK_DEAD"
    by (simp_all add: idle_tick_def w wake_due_def restore_context_def Let_def)
qed

lemma idle_ticks_frame:
  fixes n a r
  assumes "q_wf s" "own_wf s" "only_main s"
  defines "s' \<equiv> (idle_tick ^^ n) s"
  shows "parent (tsk s' a) = parent (tsk s a) \<and> pid (tsk s' a) = pid (tsk s a) \<and> caps (tsk s' a) = caps (tsk s a) \<and>
    children (tsk s' a) = children (tsk s a) \<and> (state (tsk s a) \<noteq> TASK_BLOCKED \<longrightarrow> state (tsk s' a) = state (tsk s a)) \<and>
    restore_context (tsk s' a) r = restore_context (tsk s a) r \<and> freed s' = freed s \<and> stale s' = stale s \<and> next_pid s' = next_pid s \<and>
    kernel_paging s' = kernel_paging s \<and> main_task s' = main_task s \<and> zombie_reap s' = zombie_reap s \<and>
    (state (tsk s' a) = TASK_DEAD \<longleftrightarrow> state (tsk s a) = TASK_DEAD)"
  unfolding s'_def
proof (induction n)
  case (Suc n)
  have "q_wf ((idle_tick ^^ n) s)" using idle_ticks_wf [OF assms(1-3), of n] by simp
  note f = idle_tick_frame [OF this]
  show ?case using Suc f(5) [of a] by (simp add: f(1-4,6-))
qed simp

text \<open>A completed call of \<open>schedule\<close>, taken apart.\<close>

lemma schedule_parts:
  assumes "q_wf s" "own_wf s" "current_task s \<in> set (all_tasks s)" "current_task s \<notin> set (zombie_reap s) \<or> state (cur s) = TASK_DEAD"
    "schedule r s = Some (r', s')"
  shows "\<exists>n s4 nt. s4 = (idle_tick ^^ n) (before_pick r s) \<and> nt \<in> set (ready_queue s4) \<and>
    first_max (\<lambda>a. eff_prio (tsk s4 a)) (ready_queue s4) nt \<and> (r', s') = switch_to nt r s4 \<and>
    q_wf s4 \<and> own_wf s4 \<and> all_tasks s4 = filter (\<lambda>a. a \<notin> set (zombie_reap s)) (all_tasks s) \<and> current_task s4 = current_task s \<and>
    (ready_queue (before_pick r s) \<noteq> [] \<longrightarrow> n = 0)"
proof -
  note b = before_pick_wf [OF assms(1-4), of r]
  have "current_task s \<noteq> 0" using own_wf_nonzero assms(2,3) .
  with assms(5) obtain s4 where s4: "idle_wait (before_pick r s) = Some s4"
    "switch_to (pick_next (tsk s4) (ready_queue s4)) r s4 = (r', s')" by (auto simp: schedule_alt split: if_splits option.splits)
  from idle_wait_Some [OF s4(1)] obtain n where n: "ready_queue s4 \<noteq> []" "s4 = (idle_tick ^^ n) (before_pick r s)" by blast
  have "\<exists>k. s4 = (idle_tick ^^ k) (before_pick r s) \<and> (ready_queue (before_pick r s) \<noteq> [] \<longrightarrow> k = 0)"
  proof (cases "ready_queue (before_pick r s) = []")
    case False
    with s4(1) have "s4 = before_pick r s" by (simp add: idle_wait_stop)
    then show ?thesis by (intro exI [of _ 0]) simp
  qed (use n in blast)
  then obtain k where k: "s4 = (idle_tick ^^ k) (before_pick r s)" "ready_queue (before_pick r s) \<noteq> [] \<longrightarrow> k = 0" by blast
  note t = idle_ticks_wf [OF b(1-3), of k, folded k(1)]
  note fm = pick_next_first_max [OF n(1), of "tsk s4"]
  show ?thesis
    by (intro exI [of _ k] exI [of _ s4] exI [of _ "pick_next (tsk s4) (ready_queue s4)"] conjI)
      (use k t fm first_max_in [OF fm] s4(2) b(4,5) in simp_all)
qed

lemma schedule_frame:
  assumes "q_wf s" "own_wf s" "current_task s \<in> set (all_tasks s)" "current_task s \<notin> set (zombie_reap s) \<or> state (cur s) = TASK_DEAD"
    "schedule r s = Some (r', s')"
  shows "parent (tsk s' a) = parent (tsk s a)" "pid (tsk s' a) = pid (tsk s a)" "caps (tsk s' a) = caps (tsk s a)"
    "children (tsk s' a) = children (tsk s a)" "state (tsk s a) = TASK_DEAD \<Longrightarrow> state (tsk s' a) = TASK_DEAD"
    "freed s' = freed s \<union> set (zombie_reap s)" "stale s' = (stale s \<or> current_task s \<in> freed s')" "next_pid s' = next_pid s"
    "kernel_paging s' = kernel_paging s" "main_task s' = main_task s"
    "all_tasks s' = filter (\<lambda>a. a \<notin> set (zombie_reap s)) (all_tasks s)" "zombie_reap s' = []"
    "current_task s' \<in> set (all_tasks s')" "state (tsk s' a) = TASK_DEAD \<longleftrightarrow> state (tsk s a) = TASK_DEAD"
proof -
  note b = before_pick_wf [OF assms(1-4), of r]
  from schedule_parts [OF assms] obtain n s4 nt where p: "s4 = (idle_tick ^^ n) (before_pick r s)" "nt \<in> set (ready_queue s4)"
    "(r', s') = switch_to nt r s4" "q_wf s4" "all_tasks s4 = filter (\<lambda>a. a \<notin> set (zombie_reap s)) (all_tasks s)"
    "current_task s4 = current_task s" by blast
  note i = idle_ticks_frame [OF b(1-3), of n, folded p(1)]
  have s': "s' = snd (switch_to nt r s4)" using p(3) by (metis snd_conv)
  have sc: "parent (x\<lparr>state := y\<rparr>) = parent x" "pid (x\<lparr>state := y\<rparr>) = pid x" "caps (x\<lparr>state := y\<rparr>) = caps x"
    "children (x\<lparr>state := y\<rparr>) = children x" for x :: task_struct and y by simp_all
  show "parent (tsk s' a) = parent (tsk s a)" "pid (tsk s' a) = pid (tsk s a)" "caps (tsk s' a) = caps (tsk s a)"
    "children (tsk s' a) = children (tsk s a)"
    "freed s' = freed s \<union> set (zombie_reap s)" "stale s' = (stale s \<or> current_task s \<in> freed s')" "next_pid s' = next_pid s"
    "kernel_paging s' = kernel_paging s" "main_task s' = main_task s"
    "all_tasks s' = filter (\<lambda>a. a \<notin> set (zombie_reap s)) (all_tasks s)" "zombie_reap s' = []"
    using i [of a] p(5,6) by (simp_all add: s' switch_to_simps b(4-))
  have nt: "state (tsk s4 nt) = TASK_READY" using p(2,4) q_wfD(4) by blast
  have "state (tsk (before_pick r s) a) = TASK_DEAD \<longleftrightarrow> state (tsk s a) = TASK_DEAD" by (auto simp: b(7))
  moreover have "state (tsk s4 a) = TASK_DEAD \<longleftrightarrow> state (tsk (before_pick r s) a) = TASK_DEAD" using i by blast
  ultimately show dd: "state (tsk s' a) = TASK_DEAD \<longleftrightarrow> state (tsk s a) = TASK_DEAD" using nt by (auto simp: s' switch_to_simps)
  then show "state (tsk s' a) = TASK_DEAD" if "state (tsk s a) = TASK_DEAD" using that by simp
  show "current_task s' \<in> set (all_tasks s')" using p(2,4) q_wfD(4) by (auto simp: s' switch_to_simps)
qed

text \<open>Giving up the paging manager of a task that stays in \<open>all_tasks\<close>.\<close>

lemma drop_paging_own_wf:
  assumes "own_wf s" "distinct (all_tasks s)" "a \<in> set (all_tasks s)" "paging (tsk s a) \<noteq> 0" "paging (tsk s a) \<noteq> kernel_paging s"
    "all_tasks s' = all_tasks s" "kernel_paging s' = kernel_paging s" "kheap s' = kfree (paging (tsk s a)) (kheap s)"
    "kernel_stack (tsk s' a) = kernel_stack (tsk s a)" "paging (tsk s' a) = kernel_paging s"
    "\<forall>b \<in> set (all_tasks s). b \<noteq> a \<longrightarrow> kernel_stack (tsk s' b) = kernel_stack (tsk s b) \<and> paging (tsk s' b) = paging (tsk s b)"
  shows "own_wf s'"
proof -
  from split_list [OF assms(3)] obtain us vs where l: "all_tasks s = us @ a # vs" by auto
  with assms(2) have n: "a \<notin> set us" "a \<notin> set vs" by auto
  let ?f = "\<lambda>b. task_objs (kernel_paging s) (tsk s b) b" and ?p = "paging (tsk s a)" and ?k = "kernel_stack (tsk s a)"
  have mp: "map (\<lambda>b. task_objs (kernel_paging s) (tsk s' b) b) xs = map ?f xs" if "set xs \<subseteq> set (all_tasks s)" "a \<notin> set xs" for xs
  proof (rule map_cong [OF refl])
    fix b assume "b \<in> set xs"
    with that have "b \<in> set (all_tasks s)" "b \<noteq> a" by auto
    with assms(11) show "task_objs (kernel_paging s) (tsk s' b) b = ?f b" by (simp add: task_objs_def)
  qed
  have o: "owned s = concat (map ?f us) @ (a # (if ?k \<noteq> 0 then [?k] else []) @ [?p]) @ concat (map ?f vs)"
    using assms(4,5) by (simp add: owned_def l task_objs_def)
  have o': "owned s' = concat (map ?f us) @ (a # (if ?k \<noteq> 0 then [?k] else [])) @ concat (map ?f vs)"
  proof -
    have "map (\<lambda>b. task_objs (kernel_paging s) (tsk s' b) b) us = map ?f us"
      "map (\<lambda>b. task_objs (kernel_paging s) (tsk s' b) b) vs = map ?f vs" using n l by (intro mp; auto)+
    moreover have "task_objs (kernel_paging s) (tsk s' a) a = a # (if ?k \<noteq> 0 then [?k] else [])"
      by (simp add: task_objs_def assms(9,10))
    ultimately show ?thesis
      by (simp only: owned_def assms(6,7) l map_append list.map concat_append concat.simps)
  qed
  have d: "distinct (owned s)" "0 \<notin> set (owned s)" "held (kheap s) (set (owned s))" using assms(1) by (auto simp: own_wf_def)
  have "?p \<notin> set (owned s')" "distinct (owned s')" "0 \<notin> set (owned s')" using d(1,2) unfolding o o' by auto
  moreover have "held (kheap s) (insert ?p (set (owned s')))" by (rule held_mono [OF d(3)]) (auto simp: o o')
  ultimately show ?thesis using held_free by (auto simp: own_wf_def assms(8))
qed

text \<open>Parents: a parent that is not a task any more was dead when it went.\<close>

definition par_wf :: "kst \<Rightarrow> bool" where
  "par_wf s = (\<forall>a \<in> set (all_tasks s). let p = parent (tsk s a) in
     p \<noteq> a \<and> (p = 0 \<or> p \<in> set (all_tasks s) \<or> state (tsk s p) = TASK_DEAD))"

lemma par_wf_mono:
  assumes "par_wf s" "set (all_tasks s') \<subseteq> set (all_tasks s)" "\<forall>a \<in> set (all_tasks s'). parent (tsk s' a) = parent (tsk s a)"
    "\<forall>a. state (tsk s a) = TASK_DEAD \<longrightarrow> state (tsk s' a) = TASK_DEAD"
    "\<forall>a \<in> set (all_tasks s). a \<in> set (all_tasks s') \<or> state (tsk s' a) = TASK_DEAD"
  shows "par_wf s'"
  unfolding par_wf_def Let_def
proof
  fix a assume a: "a \<in> set (all_tasks s')"
  then have "a \<in> set (all_tasks s)" "parent (tsk s' a) = parent (tsk s a)" using assms(2,3) by auto
  moreover from this(1) assms(1) have "parent (tsk s a) \<noteq> a \<and> (parent (tsk s a) = 0 \<or>
      parent (tsk s a) \<in> set (all_tasks s) \<or> state (tsk s (parent (tsk s a))) = TASK_DEAD)"
    unfolding par_wf_def Let_def by blast
  ultimately show "parent (tsk s' a) \<noteq> a \<and> (parent (tsk s' a) = 0 \<or>
      parent (tsk s' a) \<in> set (all_tasks s') \<or> state (tsk s' (parent (tsk s' a))) = TASK_DEAD)"
    using assms(4,5) by auto
qed

lemma schedule_par_wf:
  assumes "q_wf s" "own_wf s" "par_wf s" "current_task s \<in> set (all_tasks s)"
    "current_task s \<notin> set (zombie_reap s) \<or> state (cur s) = TASK_DEAD" "schedule r s = Some (r', s')"
  shows "par_wf s'"
proof -
  note f = schedule_frame [OF assms(1,2,4-6)]
  show ?thesis
  proof (rule par_wf_mono [OF assms(3)])
    show "\<forall>a \<in> set (all_tasks s). a \<in> set (all_tasks s') \<or> state (tsk s' a) = TASK_DEAD"
      using f(5) q_wfD(6) [OF assms(1)] by (auto simp: f(11))
  qed (use f(1,5) in \<open>auto simp: f(11)\<close>)
qed

lemma exit_mark_pid [simp]: "pid (tsk (exit_mark code s) a) = pid (tsk s a)"
  by (simp add: exit_mark_def k_defs Let_def)

lemma exit_state_simps:
  assumes "exit_state code s = Some s7" "parent (cur s) \<noteq> current_task s" "current_task s \<notin> set (ready_queue s)"
  defines "p \<equiv> parent (cur s)" and "self \<equiv> current_task s"
  shows "ready_queue s7 = ready_queue s @ (if state (tsk s p) = TASK_BLOCKED then [p] else [])"
    "all_tasks s7 = all_tasks s" "zombie_reap s7 = zombie_reap s @ [self]" "current_task s7 = self" "main_task s7 = main_task s"
    "kernel_paging s7 = kernel_paging s" "freed s7 = freed s" "stale s7 = (stale s \<or> p \<in> freed s)" "next_pid s7 = next_pid s"
    "state (tsk s7 b) = (if b = self then TASK_DEAD else if b = p \<and> state (tsk s p) = TASK_BLOCKED then TASK_READY else state (tsk s b))"
    "kernel_stack (tsk s7 b) = kernel_stack (tsk s b)" "parent (tsk s7 b) = parent (tsk s b)" "caps (tsk s7 b) = caps (tsk s b)"
    "pid (tsk s7 b) = pid (tsk s b)"
    "paging (tsk s7 b) = (if b = self \<and> paging (cur s) \<noteq> 0 then kernel_paging s else paging (tsk s b))"
    "kheap s7 = (if paging (cur s) \<noteq> 0 \<and> paging (cur s) \<noteq> kernel_paging s then kfree (paging (cur s)) (kheap s) else kheap s)"
    "children (tsk s7 b) = (if b = p then remove1 self (children (tsk s b)) else children (tsk s b))"
    "self \<in> set (children (tsk s p))" "pit_ticks s7 = pit_ticks s"
    "t_eax (tsk s7 p) = (if state (tsk s p) = TASK_BLOCKED then pid (cur s) else t_eax (tsk s p))"
    "wake_tick (tsk s7 b) = wake_tick (tsk s b)"
proof -
  have ps: "p \<noteq> self" using assms(2) by (simp add: p_def self_def)
  define s2 where "s2 = touch p (upd self (\<lambda>t. t\<lparr>exit_code := code, state := TASK_DEAD\<rparr>) s)"
  have e2: "parent (tsk s2 self) = p" "children (tsk s2 p) = children (tsk s p)"
    using ps by (simp_all add: s2_def upd_def touch_def p_def self_def)
  have em: "touch p (exit_mark code s) = s2"
    using assms(3) by (simp add: s2_def exit_mark_def Let_def self_def upd_def)
  have "map_option (exit_finish self p) (sibling_del self s2) = Some s7"
    using assms(1) unfolding exit_state_def Let_def em [symmetric] p_def self_def .
  then obtain s3 where s3: "sibling_del self s2 = Some s3" and s7: "s7 = exit_finish self p s3" by blast
  from s3 show "self \<in> set (children (tsk s p))" by (auto simp: sibling_del_def Let_def e2 split: if_splits)
  then have s3': "s3 = upd p (\<lambda>t. t\<lparr>children := remove1 self (children t)\<rparr>) s2"
    using s3 by (simp add: sibling_del_def Let_def e2)
  note d = s7 exit_finish_def Let_def s3' s2_def k_defs
  have c: "cur s = tsk s self" by (simp add: self_def)
  show "ready_queue s7 = ready_queue s @ (if state (tsk s p) = TASK_BLOCKED then [p] else [])"
    "all_tasks s7 = all_tasks s" "zombie_reap s7 = zombie_reap s @ [self]" "current_task s7 = self" "main_task s7 = main_task s"
    "kernel_paging s7 = kernel_paging s" "freed s7 = freed s" "stale s7 = (stale s \<or> p \<in> freed s)" "next_pid s7 = next_pid s" "pit_ticks s7 = pit_ticks s"
    using ps by (simp_all add: d self_def)
  show "state (tsk s7 b) = (if b = self then TASK_DEAD else if b = p \<and> state (tsk s p) = TASK_BLOCKED then TASK_READY else state (tsk s b))"
    "paging (tsk s7 b) = (if b = self \<and> paging (cur s) \<noteq> 0 then kernel_paging s else paging (tsk s b))"
    "children (tsk s7 b) = (if b = p then remove1 self (children (tsk s b)) else children (tsk s b))"
    using ps by (cases "b = self"; cases "b = p"; simp add: d c)+
  show "kernel_stack (tsk s7 b) = kernel_stack (tsk s b)" "parent (tsk s7 b) = parent (tsk s b)" "caps (tsk s7 b) = caps (tsk s b)"
    "pid (tsk s7 b) = pid (tsk s b)" "wake_tick (tsk s7 b) = wake_tick (tsk s b)"
    using ps by (cases "b = self"; cases "b = p"; simp add: d)+
  show "kheap s7 = (if paging (cur s) \<noteq> 0 \<and> paging (cur s) \<noteq> kernel_paging s then kfree (paging (cur s)) (kheap s) else kheap s)"
    "t_eax (tsk s7 p) = (if state (tsk s p) = TASK_BLOCKED then pid (cur s) else t_eax (tsk s p))"
    using ps by (simp_all add: d c)
qed

lemma exit_state_wf:
  assumes "sched_inv s" "par_wf s" "exit_state code s = Some s7" "parent (cur s) \<noteq> 0"
  shows "q_wf s7" "own_wf s7" "par_wf s7" "current_task s7 = current_task s" "current_task s7 \<in> set (all_tasks s7)"
    "state (cur s7) = TASK_DEAD" "current_task s7 \<in> set (zombie_reap s7)"
    "parent (cur s) \<in> set (all_tasks s) \<Longrightarrow> state (tsk s (parent (cur s))) \<noteq> TASK_DEAD \<Longrightarrow> pid (tsk s (parent (cur s))) \<noteq> pid (tsk s (main_task s)) \<Longrightarrow>
       parent (cur s) \<in> set (ready_queue s7)"
proof -
  let ?self = "current_task s" and ?p = "parent (cur s)"
  have w: "q_wf s" "own_wf s" "?self \<in> set (all_tasks s)" "state (cur s) = TASK_RUNNING" using assms(1) by (auto simp: sched_inv_def)
  have pw: "?p \<noteq> ?self" "?p \<in> set (all_tasks s) \<or> state (tsk s ?p) = TASK_DEAD"
    using assms(2,4) w(3) by (auto simp: par_wf_def Let_def)
  have sr: "?self \<notin> set (ready_queue s)" "?self \<notin> set (zombie_reap s)"
    using q_wfD(4,6) [OF w(1)] w(4) by (metis task_state.distinct(1), metis task_state.distinct(5))
  note e = exit_state_simps [OF assms(3) pw(1) sr(1)]
  show "current_task s7 = current_task s" "current_task s7 \<in> set (all_tasks s7)" "state (cur s7) = TASK_DEAD"
    "current_task s7 \<in> set (zombie_reap s7)" using w(3) by (simp_all add: e(1-10))
  show "q_wf s7"
  proof (rule q_wfI)
    fix b
    note q = q_wfD(4-7) [OF w(1), of b]
    show "b \<in> set (ready_queue s7) \<longleftrightarrow> b \<in> set (all_tasks s7) \<and> state (tsk s7 b) = TASK_READY"
      using q(1) sr(1) pw by (cases "b = ?self"; cases "b = ?p") (auto simp: e(1,2,10))
    show "b \<in> set (zombie_reap s7) \<Longrightarrow> b \<in> set (all_tasks s7) \<and> state (tsk s7 b) = TASK_DEAD"
      using q(2,3) w(3) by (cases "b = ?self") (auto simp: e(2,3,10))
    show "b \<in> set (all_tasks s7) \<Longrightarrow> state (tsk s7 b) = TASK_RUNNING \<Longrightarrow> b = current_task s7 \<or> b = main_task s7"
      using q(4) by (auto simp: e(2,4,5,10) split: if_splits)
    have "?p \<notin> set (ready_queue s)" if "state (tsk s ?p) = TASK_BLOCKED" using that q_wfD(4) [OF w(1), of ?p] by auto
    then show "distinct (ready_queue s7)" using q_wfD(2) [OF w(1)] by (simp add: e(1))
  qed (use q_wfD [OF w(1)] sr(2) in \<open>auto simp: e(2,3)\<close>)
  show "own_wf s7"
  proof (cases "paging (cur s) \<noteq> 0 \<and> paging (cur s) \<noteq> kernel_paging s")
    case True
    then show ?thesis
      by (intro drop_paging_own_wf [OF w(2) q_wfD(1) [OF w(1)] w(3)]) (simp_all add: e(2,6,11,15,16))
  next
    case False
    then show ?thesis by (intro own_wf_cong [OF w(2)]) (auto simp: e(2,6,11,15,16))
  qed
  show "par_wf s7"
    using assms(2) pw(1) unfolding par_wf_def Let_def e(2,10,12) by (metis task_state.distinct(5,9,11))
  show "?p \<in> set (ready_queue s7)" if "?p \<in> set (all_tasks s)" "state (tsk s ?p) \<noteq> TASK_DEAD" "pid (tsk s ?p) \<noteq> pid (tsk s (main_task s))"
    using that q_wfD(4,7) [OF w(1), of ?p] pw(1) by (cases "state (tsk s ?p)") (auto simp: e(1))
qed

section \<open>The kernel invariant\<close>

text \<open>The boot loop: the main task has pid 0, every other task has a parent, and while the main task has a
  child it stays marked as running, off the queue.\<close>

definition boot_wf :: "kst \<Rightarrow> bool" where
  "boot_wf s = (main_task s \<in> set (all_tasks s) \<and> pid (tsk s (main_task s)) = 0 \<and> state (tsk s (main_task s)) \<noteq> TASK_DEAD \<and> parent (tsk s (main_task s)) = 0 \<and>
     (\<forall>a \<in> set (all_tasks s). \<forall>b \<in> set (all_tasks s). parent (tsk s a) = main_task s \<and> parent (tsk s b) = main_task s \<longrightarrow> a = b) \<and>
     (\<forall>a \<in> set (all_tasks s). a \<noteq> main_task s \<longrightarrow> parent (tsk s a) \<noteq> 0 \<and> pid (tsk s a) \<noteq> 0 \<and>
        (pid (tsk s (parent (tsk s a))) = 0 \<longrightarrow> parent (tsk s a) = main_task s) \<and>
        (parent (tsk s a) = main_task s \<longrightarrow> state (tsk s (main_task s)) = TASK_RUNNING \<and> current_task s \<noteq> main_task s)))"

lemma boot_wfD:
  assumes "boot_wf s"
  shows "main_task s \<in> set (all_tasks s)" "pid (tsk s (main_task s)) = 0" "state (tsk s (main_task s)) \<noteq> TASK_DEAD"
    "parent (tsk s (main_task s)) = 0" "a \<in> set (all_tasks s) \<Longrightarrow> a \<noteq> main_task s \<Longrightarrow> parent (tsk s a) \<noteq> 0 \<and> pid (tsk s a) \<noteq> 0"
    "a \<in> set (all_tasks s) \<Longrightarrow> a \<noteq> main_task s \<Longrightarrow> pid (tsk s (parent (tsk s a))) = 0 \<Longrightarrow> parent (tsk s a) = main_task s"
    "a \<in> set (all_tasks s) \<Longrightarrow> a \<noteq> main_task s \<Longrightarrow> parent (tsk s a) = main_task s \<Longrightarrow>
       state (tsk s (main_task s)) = TASK_RUNNING \<and> current_task s \<noteq> main_task s"
    "a \<in> set (all_tasks s) \<Longrightarrow> b \<in> set (all_tasks s) \<Longrightarrow> parent (tsk s a) = main_task s \<Longrightarrow> parent (tsk s b) = main_task s \<Longrightarrow> a = b"
  using assms unfolding boot_wf_def by auto

lemma boot_wfI:
  assumes "main_task s \<in> set (all_tasks s)" "pid (tsk s (main_task s)) = 0" "state (tsk s (main_task s)) \<noteq> TASK_DEAD"
    "parent (tsk s (main_task s)) = 0"
    "\<And>a. a \<in> set (all_tasks s) \<Longrightarrow> a \<noteq> main_task s \<Longrightarrow> parent (tsk s a) \<noteq> 0 \<and> pid (tsk s a) \<noteq> 0"
    "\<And>a. a \<in> set (all_tasks s) \<Longrightarrow> a \<noteq> main_task s \<Longrightarrow> pid (tsk s (parent (tsk s a))) = 0 \<Longrightarrow> parent (tsk s a) = main_task s"
    "\<And>a. a \<in> set (all_tasks s) \<Longrightarrow> a \<noteq> main_task s \<Longrightarrow> parent (tsk s a) = main_task s \<Longrightarrow>
       state (tsk s (main_task s)) = TASK_RUNNING \<and> current_task s \<noteq> main_task s"
    "\<And>a b. a \<in> set (all_tasks s) \<Longrightarrow> b \<in> set (all_tasks s) \<Longrightarrow> parent (tsk s a) = main_task s \<Longrightarrow> parent (tsk s b) = main_task s \<Longrightarrow> a = b"
  shows "boot_wf s"
  unfolding boot_wf_def
  by (intro conjI ballI impI; (rule assms(1-4) | metis assms(8) | metis assms(5) | metis assms(6) | metis assms(7)))

definition kinv :: "kst \<Rightarrow> bool" where
  "kinv s = (sched_inv s \<and> par_wf s \<and> boot_wf s)"

lemma kinvD:
  assumes "kinv s"
  shows "q_wf s" "own_wf s" "current_task s \<in> set (all_tasks s)" "state (cur s) = TASK_RUNNING" "par_wf s" "boot_wf s"
    "current_task s \<notin> set (ready_queue s)" "current_task s \<notin> set (zombie_reap s)" "current_task s \<noteq> 0" "sched_inv s"
proof -
  show w: "q_wf s" "own_wf s" "current_task s \<in> set (all_tasks s)" "state (cur s) = TASK_RUNNING" "par_wf s" "boot_wf s" "sched_inv s"
    using assms by (auto simp: kinv_def sched_inv_def)
  show "current_task s \<notin> set (ready_queue s)" "current_task s \<notin> set (zombie_reap s)"
    using q_wfD(4,6) [OF w(1), of "current_task s"] w(4) by auto
  show "current_task s \<noteq> 0" by (rule own_wf_nonzero [OF w(2,3)])
qed

text \<open>Operations that touch nothing the invariant reads.\<close>

lemma kinv_cong:
  assumes "kinv s" "all_tasks s' = all_tasks s" "ready_queue s' = ready_queue s" "zombie_reap s' = zombie_reap s"
    "current_task s' = current_task s" "main_task s' = main_task s" "kernel_paging s' = kernel_paging s" "kheap s' = kheap s"
    "\<forall>a. state (tsk s' a) = state (tsk s a) \<and> kernel_stack (tsk s' a) = kernel_stack (tsk s a) \<and> paging (tsk s' a) = paging (tsk s a) \<and>
       parent (tsk s' a) = parent (tsk s a) \<and> pid (tsk s' a) = pid (tsk s a)"
  shows "kinv s'"
proof -
  note w = kinvD [OF assms(1)]
  have "q_wf s'" using assms by (intro q_wf_cong [OF w(1)]) auto
  moreover have "own_wf s'" using assms by (intro own_wf_cong [OF w(2)]) auto
  moreover have "par_wf s'" using w(5) assms(2,9) by (simp add: par_wf_def)
  moreover have "boot_wf s'" using w(6) assms(2,5,6,9) by (simp add: boot_wf_def)
  ultimately show ?thesis using w(3,4) assms(2,5,9) by (simp add: kinv_def sched_inv_def)
qed

lemma small_ops_kinv:
  assumes "kinv s"
  shows "kinv (snd (task_send_signal p n s))" "kinv (snd (task_drop_cap c s))" "kinv (task_boost_priority p b s)"
  using kinv_cong [OF assms] assms
  by (auto simp: task_send_signal_def task_drop_cap_def task_boost_priority_def upd_def Let_def split: option.splits)

text \<open>A sleeping task that is woken by the timer.\<close>

text \<open>Operations after which every task has its old parent and pid, and a dead task is still dead.\<close>

lemma boot_wf_mono:
  assumes "boot_wf s" "main_task s' = main_task s" "set (all_tasks s') \<subseteq> set (all_tasks s)" "main_task s \<in> set (all_tasks s')"
    "\<forall>a. parent (tsk s' a) = parent (tsk s a) \<and> pid (tsk s' a) = pid (tsk s a)" "state (tsk s' (main_task s)) \<noteq> TASK_DEAD"
    "state (tsk s (main_task s)) = TASK_RUNNING \<Longrightarrow> current_task s \<noteq> main_task s \<Longrightarrow>
       state (tsk s' (main_task s)) = TASK_RUNNING \<and> current_task s' \<noteq> main_task s"
  shows "boot_wf s'"
  using assms(1,3-7) unfolding boot_wf_def assms(2) by (simp add: subset_iff) blast

lemma idle_tick_kinv:
  assumes "kinv s"
  shows "kinv (idle_tick s)"
proof -
  note w = kinvD [OF assms] and t = idle_tick_wf [OF kinvD(1,2) [OF assms]] and f = idle_tick_frame [OF kinvD(1) [OF assms]]
  have c: "state (cur (idle_tick s)) = TASK_RUNNING" using f(5) [of "current_task s"] w(4) by (simp add: t(4))
  have dd: "\<forall>a. state (tsk s a) = TASK_DEAD \<longrightarrow> state (tsk (idle_tick s) a) = TASK_DEAD" by (simp add: f(5))
  have m: "main_task s \<in> set (all_tasks s)" "state (tsk s (main_task s)) \<noteq> TASK_DEAD" using w(6) by (auto simp: boot_wf_def)
  have "state (tsk (idle_tick s) (main_task s)) \<noteq> TASK_DEAD"
    using m(2) f(5) [of "main_task s"] wake_sleepers_simps(2) [of "s\<lparr>pit_ticks := pit_ticks s + 1\<rparr>" "main_task s"] q_wfD(1) [OF w(1)]
    by (simp add: idle_tick_def)
  then have "boot_wf (idle_tick s)" using m f(5) [of "main_task s"] by (intro boot_wf_mono [OF w(6)]) (simp_all add: t(3,4) f(1,2,11))
  moreover have "par_wf (idle_tick s)" by (rule par_wf_mono [OF w(5)]) (simp_all add: t(3) f(1) dd)
  ultimately show ?thesis using t(1,2) w(3) c by (simp add: kinv_def sched_inv_def t(3,4))
qed

lemma schedule_kinv:
  assumes "q_wf s" "own_wf s" "par_wf s" "boot_wf s" "current_task s \<in> set (all_tasks s)"
    "current_task s \<notin> set (zombie_reap s) \<or> state (cur s) = TASK_DEAD" "schedule r s = Some (r', s')"
  shows "kinv s'"
proof -
  note f = schedule_frame [OF assms(1,2,5-7)] and b = before_pick_wf [OF assms(1,2,5,6), of r]
  from schedule_parts [OF assms(1,2,5-7)] obtain n s4 nt where p: "s4 = (idle_tick ^^ n) (before_pick r s)" "nt \<in> set (ready_queue s4)"
    "(r', s') = switch_to nt r s4" "q_wf s4" by blast
  have s': "s' = snd (switch_to nt r s4)" using p(3) by (metis snd_conv)
  let ?m = "main_task s"
  have m: "?m \<in> set (all_tasks s)" "state (tsk s ?m) \<noteq> TASK_DEAD" using assms(4) by (auto simp: boot_wf_def)
  then have mz: "?m \<notin> set (zombie_reap s)" using q_wfD(6) [OF assms(1)] by blast
  have i: "state (tsk (before_pick r s) ?m) \<noteq> TASK_BLOCKED \<longrightarrow> state (tsk s4 ?m) = state (tsk (before_pick r s) ?m)"
    using idle_ticks_frame [OF b(1-3), of n, folded p(1)] by blast
  have nt: "state (tsk s4 nt) = TASK_READY" using p(2,4) q_wfD(4) by blast
  have "state (tsk s' ?m) = TASK_RUNNING \<and> current_task s' \<noteq> ?m"
    if "state (tsk s ?m) = TASK_RUNNING" "current_task s \<noteq> ?m"
  proof -
    have "state (tsk s4 ?m) = TASK_RUNNING" using i that by (simp add: b(7))
    with nt show ?thesis by (auto simp: s' switch_to_simps)
  qed
  moreover have "state (tsk s' ?m) \<noteq> TASK_DEAD" using m(2) by (simp add: f(14))
  ultimately have "boot_wf s'" using m(1) mz by (intro boot_wf_mono [OF assms(4)]) (auto simp: f(1,2,10,11))
  moreover have "par_wf s'" by (rule schedule_par_wf [OF assms(1-3,5-7)])
  moreover have "sched_inv s'" by (rule schedule_inv [OF assms(1,2,5-7)])
  ultimately show ?thesis by (simp add: kinv_def)
qed

lemma block_current_wf:
  assumes "kinv s" "s' = upd (current_task s) (\<lambda>t. t\<lparr>wake_tick := w, state := TASK_BLOCKED\<rparr>) s"
  shows "q_wf s'" "own_wf s'" "par_wf s'" "boot_wf s'" "current_task s' \<in> set (all_tasks s')" "current_task s' \<notin> set (zombie_reap s')"
proof -
  note w = kinvD [OF assms(1)]
  have e: "all_tasks s' = all_tasks s" "ready_queue s' = ready_queue s" "zombie_reap s' = zombie_reap s" "current_task s' = current_task s"
    "main_task s' = main_task s" "kheap s' = kheap s" "kernel_paging s' = kernel_paging s"
    "state (tsk s' a) = (if a = current_task s then TASK_BLOCKED else state (tsk s a))"
    "kernel_stack (tsk s' a) = kernel_stack (tsk s a)" "paging (tsk s' a) = paging (tsk s a)"
    "parent (tsk s' a) = parent (tsk s a)" "pid (tsk s' a) = pid (tsk s a)" for a
    by (simp_all add: assms(2) upd_def)
  show "q_wf s'"
  proof (rule q_wfI)
    fix a
    note q = q_wfD(4-7) [OF w(1), of a]
    show "a \<in> set (ready_queue s') \<longleftrightarrow> a \<in> set (all_tasks s') \<and> state (tsk s' a) = TASK_READY"
      using q(1) w(7) by (auto simp: e)
    show "a \<in> set (zombie_reap s') \<Longrightarrow> a \<in> set (all_tasks s') \<and> state (tsk s' a) = TASK_DEAD"
      using q(2,3) w(8) by (auto simp: e)
    show "a \<in> set (all_tasks s') \<Longrightarrow> state (tsk s' a) = TASK_RUNNING \<Longrightarrow> a = current_task s' \<or> a = main_task s'"
      using q(4) by (auto simp: e split: if_splits)
  qed (use q_wfD [OF w(1)] in \<open>simp_all add: e\<close>)
  show "own_wf s'" by (rule own_wf_cong [OF w(2)]) (simp_all add: e)
  show "par_wf s'" using w(4) by (intro par_wf_mono [OF w(5)]) (auto simp: e)
  show "boot_wf s'" using boot_wfD(1,3) [OF w(6)] by (intro boot_wf_mono [OF w(6)]) (auto simp: e)
  show "current_task s' \<in> set (all_tasks s')" "current_task s' \<notin> set (zombie_reap s')" using w(3,8) by (simp_all add: e)
qed

lemma sys_sleep_kinv: "kinv s \<Longrightarrow> sys_sleep r s = Some (r', s') \<Longrightarrow> kinv s'"
  unfolding sys_sleep_def Let_def by (erule schedule_kinv [rotated -1]) (rule disjI1 | rule block_current_wf [OF _ refl] | assumption)+

lemma sys_waitpid_kinv:
  assumes "kinv s" "sys_waitpid r s = Some (r', s')"
  shows "kinv s'"
proof (cases "children (cur s) = []")
  case True
  with assms show ?thesis by (simp add: sys_waitpid_def)
next
  case False
  let ?s = "upd (current_task s) (\<lambda>t. t\<lparr>state := TASK_BLOCKED\<rparr>) s"
  have "?s = upd (current_task s) (\<lambda>t. t\<lparr>wake_tick := wake_tick (cur s), state := TASK_BLOCKED\<rparr>) s" by (simp add: upd_def)
  note b = block_current_wf [OF assms(1) this]
  from False assms(2) obtain r1 s1 where s1: "schedule r ?s = Some (r1, s1)"
    "s' = (if current_task s1 = current_task s then upd (current_task s) (\<lambda>t. t\<lparr>state := TASK_RUNNING\<rparr>) s1 else s1)"
    by (auto simp: sys_waitpid_def Let_def split: option.splits if_splits)
  have "kinv s1" by (rule schedule_kinv [OF b(1-5) disjI1 [OF b(6)] s1(1)])
  moreover from kinvD(4) [OF this] have "current_task s1 = current_task s \<Longrightarrow> state (tsk s1 (current_task s)) = TASK_RUNNING" by simp
  ultimately show ?thesis unfolding s1(2) by (auto intro!: kinv_cong [of s1] simp: upd_def)
qed

lemma timer_preempt_kinv:
  assumes "kinv s" "timer_preempt r s = Some (r', s')"
  shows "kinv s'"
proof -
  let ?q = "upd (current_task s) (\<lambda>t. t\<lparr>quantum := quantum t - 1\<rparr>) s"
  have k: "kinv ?q" by (rule kinv_cong [OF assms(1)]) (simp_all add: upd_def)
  have sc: "kinv s'" if "kinv s1" "schedule r s1 = Some (r', s')" for s1
    using kinvD [OF that(1)] that(2) by (intro schedule_kinv) auto
  show ?thesis using assms(2) assms(1) k sc
    unfolding timer_preempt_def Let_def by (auto split: if_splits)
qed

lemma task_do_exit_kinv:
  assumes "kinv s" "task_do_exit r code s = Some (Iret r' s')"
  shows "kinv s'" "current_task s \<in> freed s'" "stale s'" "current_task s \<notin> set (all_tasks s')"
proof -
  note w = kinvD [OF assms(1)]
  from assms(2) w(9) obtain s7 where s7: "exit_state code s = Some s7" "parent (cur s) \<noteq> 0" "pid (tsk s (parent (cur s))) \<noteq> 0"
    "schedule (r\<lparr>r_eflags := 0x202, r_eip := 0, r_esp := 0\<rparr>) s7 = Some (r', s')"
    by (auto simp: task_do_exit_def Let_def split: if_splits option.splits)
  note e = exit_state_wf [OF w(10,5) s7(1,2)]
  have ps: "parent (cur s) \<noteq> current_task s" using w(3,5) by (auto simp: par_wf_def Let_def)
  note x = exit_state_simps [OF s7(1) ps w(7)]
  have mc: "current_task s \<noteq> main_task s" using boot_wfD(4) [OF w(6)] s7(2) by auto
  have "boot_wf s7" using boot_wfD(1,3) [OF w(6)] mc by (intro boot_wf_mono [OF w(6)]) (auto simp: x(1-17))
  then show "kinv s'" using e(1-3,5,6) s7(4) by (intro schedule_kinv) auto
  note f = schedule_frame [OF e(1,2,5) disjI2 [OF e(6)] s7(4)]
  show "current_task s \<in> freed s'" "stale s'" "current_task s \<notin> set (all_tasks s')" using e(4,7) by (simp_all add: f(6,7,11))
qed

text \<open>The exit of the boot loop's task, followed by \<open>task_cleanup_user\<close>.\<close>

lemma cleanup_kinv:
  assumes "kinv s" "pid (cur s) \<noteq> 0" "task_do_exit r code s = Some (BootLoop s1)" "task_cleanup_user s1 = Some s'"
  shows "kinv s'" "current_task s' = main_task s"
proof -
  note w = kinvD [OF assms(1)]
  let ?c = "current_task s" and ?m = "main_task s"
  have cm: "?c \<noteq> ?m" using boot_wfD(2) [OF w(6)] assms(2) by auto
  have p: "pid (tsk s (parent (cur s))) = 0" "parent (cur s) \<noteq> 0" "s1 = load_paging (kernel_paging (exit_mark code s)) (touch (parent (cur s)) (exit_mark code s))"
    using assms(3) boot_wfD(5) [OF w(6,3) cm] w(9) by (auto simp: task_do_exit_def Let_def split: if_splits option.splits)
  have pm: "parent (cur s) = ?m" "state (tsk s ?m) = TASK_RUNNING"
    using boot_wfD(6) [OF w(6,3) cm p(1)] boot_wfD(7) [OF w(6,3) cm] by auto
  have e1: "current_task s1 = ?c" "main_task s1 = ?m" "all_tasks s1 = all_tasks s" "ready_queue s1 = ready_queue s" "kheap s1 = kheap s"
    "zombie_reap s1 = zombie_reap s" "kernel_paging s1 = kernel_paging s" "tsk s1 = (tsk s)(?c := (cur s)\<lparr>exit_code := code, state := TASK_DEAD\<rparr>)"
    using w(7) by (simp_all add: p(3) exit_mark_def k_defs Let_def)
  let ?pg = "paging (cur s)" and ?k = "kernel_stack (cur s)"
  have s': "tsk s' = (tsk s1)(?m := (tsk s ?m)\<lparr>children := remove1 ?c (children (tsk s ?m))\<rparr>)" "all_tasks s' = remove1 ?c (all_tasks s)"
    "ready_queue s' = ready_queue s" "zombie_reap s' = zombie_reap s" "current_task s' = ?m" "main_task s' = ?m" "kernel_paging s' = kernel_paging s"
    "kheap s' = kfree ?c (kfree ?k (if ?pg \<noteq> 0 \<and> ?pg \<noteq> kernel_paging s then kfree ?pg (kheap s) else kheap s))"
    using assms(4) assms(2) w(3,7,9) pm(1) p(2) cm
    by (auto simp: task_cleanup_user_def Let_def e1 sibling_del_def k_defs split: if_splits)
  show "current_task s' = main_task s" by (rule s'(5))
  have st: "state (tsk s' a) = (if a = ?c then TASK_DEAD else state (tsk s a))" "parent (tsk s' a) = parent (tsk s a)" "pid (tsk s' a) = pid (tsk s a)"
    "kernel_stack (tsk s' a) = kernel_stack (tsk s a)" "paging (tsk s' a) = paging (tsk s a)" for a
    using cm by (simp_all add: s'(1) e1)
  have al: "a \<in> set (all_tasks s') \<longleftrightarrow> a \<in> set (all_tasks s) \<and> a \<noteq> ?c" for a using q_wfD(1) [OF w(1)] by (simp add: s'(2))
  have "q_wf s'"
  proof (rule q_wfI)
    fix a
    note q = q_wfD(4-7) [OF w(1), of a]
    show "a \<in> set (ready_queue s') \<longleftrightarrow> a \<in> set (all_tasks s') \<and> state (tsk s' a) = TASK_READY"
      using q(1) w(7) by (auto simp: s'(3) st al)
    show "a \<in> set (zombie_reap s') \<Longrightarrow> a \<in> set (all_tasks s') \<and> state (tsk s' a) = TASK_DEAD"
      using q(2,3) w(8) by (auto simp: s'(4) st al)
    show "a \<in> set (all_tasks s') \<Longrightarrow> state (tsk s' a) = TASK_RUNNING \<Longrightarrow> a = current_task s' \<or> a = main_task s'"
      using q(4) by (auto simp: s'(5,6) st al)
  qed (use q_wfD [OF w(1)] in \<open>simp_all add: s'(2-4)\<close>)
  moreover have "own_wf s'"
  proof -
    define sm where "sm = s\<lparr>kheap := (if ?pg \<noteq> 0 \<and> ?pg \<noteq> kernel_paging s then kfree ?pg (kheap s) else kheap s),
       tsk := (tsk s)(?c := (cur s)\<lparr>paging := (if ?pg = 0 then 0 else kernel_paging s)\<rparr>)\<rparr>"
    have "own_wf sm"
    proof (cases "?pg \<noteq> 0 \<and> ?pg \<noteq> kernel_paging s")
      case True
      then show ?thesis by (intro drop_paging_own_wf [OF w(2) q_wfD(1) [OF w(1)] w(3)]) (simp_all add: sm_def)
    next
      case False
      then show ?thesis by (intro own_wf_cong [OF w(2)]) (auto simp: sm_def)
    qed
    then have "own_wf (sm\<lparr>all_tasks := remove1 ?c (all_tasks s), kheap := kheap s'\<rparr>)"
      by (rule free_task_own_wf [of _ ?c]) (use w(3) in \<open>simp_all add: sm_def s'(8)\<close>)
    then show ?thesis by (rule own_wf_cong) (use q_wfD(1) [OF w(1)] in \<open>auto simp: sm_def s'(2,7) st\<close>)
  qed
  moreover have "par_wf s'" by (rule par_wf_mono [OF w(5)]) (auto simp: al st)
  moreover have "boot_wf s'"
  proof (rule boot_wfI)
    show "main_task s' \<in> set (all_tasks s')" "pid (tsk s' (main_task s')) = 0" "state (tsk s' (main_task s')) \<noteq> TASK_DEAD"
      "parent (tsk s' (main_task s')) = 0" using boot_wfD(1-4) [OF w(6)] cm by (auto simp: s'(6) al st)
    fix a assume a: "a \<in> set (all_tasks s')"
    then have "a \<in> set (all_tasks s)" "a \<noteq> ?c" by (simp_all add: al)
    note b = boot_wfD(5-) [OF w(6) this(1)]
    have np: "parent (tsk s a) \<noteq> ?m" using b(4) [OF w(3) _ pm(1)] \<open>a \<noteq> ?c\<close> by auto
    show "a \<noteq> main_task s' \<Longrightarrow> parent (tsk s' a) \<noteq> 0 \<and> pid (tsk s' a) \<noteq> 0" using b(1) by (simp add: s'(6) st)
    show "a \<noteq> main_task s' \<Longrightarrow> pid (tsk s' (parent (tsk s' a))) = 0 \<Longrightarrow> parent (tsk s' a) = main_task s'" using b(2) by (simp add: s'(6) st)
    show "a \<noteq> main_task s' \<Longrightarrow> parent (tsk s' a) = main_task s' \<Longrightarrow>
       state (tsk s' (main_task s')) = TASK_RUNNING \<and> current_task s' \<noteq> main_task s'" using np by (simp add: s'(6) st)
    show "b \<in> set (all_tasks s') \<Longrightarrow> parent (tsk s' a) = main_task s' \<Longrightarrow> parent (tsk s' b) = main_task s' \<Longrightarrow> a = b" for b
      using np by (simp add: s'(6) st)
  qed
  ultimately show "kinv s'" using boot_wfD(1) [OF w(6)] pm(2) cm by (simp add: kinv_def sched_inv_def s'(5) al st)
qed

section \<open>Properties\<close>

lemma first_max_cong: "(\<And>a. a \<in> set q \<Longrightarrow> f a = g a) \<Longrightarrow> first_max f q x = first_max g q x"
  unfolding first_max_def by (intro ex_cong1) auto

lemma eff_prio_cong [simp]:
  "eff_prio (t\<lparr>state := x\<rparr>) = eff_prio t" "eff_prio (save_context r t) = eff_prio t"
  by (simp_all add: eff_prio_def)

lemma schedule_running:
  fixes r
  assumes "kinv s"
  defines "q \<equiv> ready_queue s @ [current_task s]" and "s4 \<equiv> before_pick r s"
  shows "schedule r s = Some (switch_to (pick_next (tsk s4) q) r s4)" "ready_queue s4 = q"
    "first_max (\<lambda>a. eff_prio (tsk s a)) q (pick_next (tsk s4) q)"
proof -
  note w = kinvD [OF assms(1)]
  note b = before_pick_wf [OF w(1-3) disjI1 [OF w(8)], of r]
  show rq: "ready_queue s4 = q" using w(4) by (simp add: s4_def b(6) q_def)
  have nn: "ready_queue s4 \<noteq> []" by (simp add: rq q_def)
  then show "schedule r s = Some (switch_to (pick_next (tsk s4) q) r s4)"
    using w(4,9) idle_wait_stop [OF nn] by (simp add: schedule_alt s4_def [symmetric] rq)
  have "eff_prio (tsk s4 a) = eff_prio (tsk s a)" for a by (simp add: s4_def b(7))
  then show "first_max (\<lambda>a. eff_prio (tsk s a)) q (pick_next (tsk s4) q)"
    using pick_next_first_max [of q "tsk s4"] nn by (simp add: rq)
qed

lemma schedule_best:
  assumes "kinv s"
  shows "\<exists>nt r' s'. schedule r s = Some (r', s') \<and> kinv s' \<and>
     first_max (\<lambda>a. eff_prio (tsk s a)) (ready_queue s @ [current_task s]) nt \<and>
     current_task s' = nt \<and> ready_queue s' = remove1 nt (ready_queue s @ [current_task s]) \<and>
     state (tsk s' nt) = TASK_RUNNING \<and> quantum (tsk s' nt) = 4 \<and>
     r' = restore_context (if nt = current_task s then save_context r (cur s) else tsk s nt) r"
proof -
  note w = kinvD [OF assms] and sc = schedule_running [OF assms, of r]
  note b = before_pick_wf [OF w(1-3) disjI1 [OF w(8)], of r]
  define s4 nt where "s4 = before_pick r s" and "nt = pick_next (tsk (before_pick r s)) (ready_queue s @ [current_task s])"
  obtain r' s' where r': "switch_to nt r s4 = (r', s')" by (cases "switch_to nt r s4")
  then have s': "s' = snd (switch_to nt r s4)" and fr: "r' = restore_context (tsk s4 nt) r"
    using switch_to_frame [of nt r s4] by simp_all
  have sch: "schedule r s = Some (r', s')" using sc(1) r' by (simp add: s4_def nt_def)
  have rs: "restore_context (t\<lparr>state := x\<rparr>) r = restore_context t r" for t x by (simp add: restore_context_def Let_def)
  have "tsk s4 nt = (if nt = current_task s then (save_context r (cur s))\<lparr>state := TASK_READY\<rparr> else tsk s nt)"
    using w(4) by (simp add: s4_def b(7))
  then have "r' = restore_context (if nt = current_task s then save_context r (cur s) else tsk s nt) r"
    by (simp add: fr rs)
  moreover have "kinv s'" by (rule schedule_kinv [OF w(1,2,5,6,3) disjI1 [OF w(8)] sch])
  moreover have "current_task s' = nt" "ready_queue s' = remove1 nt (ready_queue s @ [current_task s])"
    "state (tsk s' nt) = TASK_RUNNING" "quantum (tsk s' nt) = 4" using sc(2) by (simp_all add: s' switch_to_simps s4_def)
  moreover have "first_max (\<lambda>a. eff_prio (tsk s a)) (ready_queue s @ [current_task s]) nt" using sc(3) by (simp add: nt_def)
  ultimately show ?thesis using sch by blast
qed

text \<open>C26. \<open>schedule\<close>, called while the current task is running, always returns. The current task joins the
  end of the ready queue, and the next task is the first entry of the queue whose effective priority is
  the highest; it is taken off the queue, marked as running with a full time slice, its context is in the
  frame, and the invariant of the kernel holds again.\<close>

theorem schedule_picks_first_best:
  assumes "kinv s"
  shows "\<exists>nt r' s'. schedule r s = Some (r', s') \<and> kinv s' \<and>
     first_max (\<lambda>a. eff_prio (tsk s a)) (ready_queue s @ [current_task s]) nt \<and>
     current_task s' = nt \<and> ready_queue s' = remove1 nt (ready_queue s @ [current_task s]) \<and>
     state (tsk s' nt) = TASK_RUNNING \<and> quantum (tsk s' nt) = 4 \<and>
     r' = restore_context (if nt = current_task s then save_context r (cur s) else tsk s nt) r"
  by (rule schedule_best [OF assms])

text \<open>Round robin: with one priority, the queue rotates.\<close>

definition same_prio :: "u8 \<Rightarrow> kst \<Rightarrow> bool" where
  "same_prio p s = (\<forall>a \<in> set (all_tasks s). priority (tsk s a) = p \<and> dynamic_boost (tsk s a) = 0)"

lemma decay_no_boost:
  assumes "\<forall>a \<in> set (ready_queue s). dynamic_boost (tsk s a) = 0"
  shows "tsk (decay s) = tsk s"
proof -
  let ?f = "\<lambda>a s. if 0 < dynamic_boost (tsk s a) then upd a (\<lambda>t. t\<lparr>dynamic_boost := dynamic_boost t - 1\<rparr>) s else s"
  have "fold ?f xs s1 = s1" if "\<forall>a \<in> set xs. dynamic_boost (tsk s1 a) = 0" for xs s1
    using that by (induction xs) auto
  from this [of "ready_queue s" "s\<lparr>decay_counter := 0\<rparr>"] assms show ?thesis
    by (simp add: decay_def)
qed

lemma switch_to_boost:
  assumes "\<forall>a \<in> set (ready_queue s). dynamic_boost (tsk s a) = 0"
  shows "dynamic_boost (tsk (snd (switch_to nt r s)) a) = dynamic_boost (tsk s a)"
proof -
  let ?s = "touch (current_task s) (upd nt (\<lambda>t. t\<lparr>state := TASK_RUNNING, quantum := 4\<rparr>) (rq_del nt s))"
  have "\<forall>a \<in> set (ready_queue ?s). dynamic_boost (tsk ?s a) = 0"
    using assms by (auto simp: k_defs dest: set_remove1_subset [THEN subsetD] split: if_splits)
  from decay_no_boost [OF this] show ?thesis by (simp add: switch_to_def Let_def k_defs)
qed

lemma schedule_rotates:
  assumes "kinv s" "same_prio p s" "ready_queue s \<noteq> []"
  shows "\<exists>r' s'. schedule r s = Some (r', s') \<and> kinv s' \<and> same_prio p s' \<and> current_task s' = hd (ready_queue s) \<and>
     ready_queue s' = tl (ready_queue s) @ [current_task s]"
proof -
  note w = kinvD [OF assms(1)] and sc = schedule_running [OF assms(1), of r]
  note b = before_pick_wf [OF w(1-3) disjI1 [OF w(8)], of r]
  let ?q = "ready_queue s @ [current_task s]" and ?s4 = "before_pick r s"
  let ?nt = "pick_next (tsk ?s4) ?q"
  have eq: "eff_prio (tsk s a) = eff_prio (tsk s c)" if "a \<in> set ?q" "c \<in> set ?q" for a c
  proof -
    have "a \<in> set (all_tasks s)" "c \<in> set (all_tasks s)" using that w(3) q_wfD(4) [OF w(1)] by auto
    with assms(2) show ?thesis by (simp add: same_prio_def eff_prio_def)
  qed
  from sc(3) obtain xs ys where xy: "?q = xs @ ?nt # ys" "\<forall>c \<in> set xs. eff_prio (tsk s c) < eff_prio (tsk s ?nt)"
    by (auto simp: first_max_def)
  have "xs = []"
  proof (cases xs)
    case (Cons x xs')
    with xy(1) have "x \<in> set ?q" "?nt \<in> set ?q" by (metis list.set_intros(1) append_Cons, metis in_set_conv_decomp)
    with eq [of x ?nt] xy(2) Cons show ?thesis by auto
  qed simp
  then have hd: "?nt = hd (ready_queue s)" using xy(1) assms(3) by (cases "ready_queue s") auto
  obtain r' s' where r': "switch_to ?nt r ?s4 = (r', s')" by (cases "switch_to ?nt r ?s4")
  then have s': "s' = snd (switch_to ?nt r ?s4)" by simp
  have k: "kinv s'" using schedule_kinv [OF w(1,2,5,6,3) disjI1 [OF w(8)]] sc(1) r' by simp
  have pb: "priority (tsk ?s4 a) = priority (tsk s a)" "dynamic_boost (tsk ?s4 a) = dynamic_boost (tsk s a)" for a
    by (simp_all add: b(7))
  have "\<forall>a \<in> set (ready_queue ?s4). dynamic_boost (tsk ?s4 a) = 0"
    using assms(2) w(3) q_wfD(4) [OF w(1)] by (auto simp: sc(2) pb same_prio_def)
  note bo = switch_to_boost [OF this]
  have "all_tasks s' \<noteq> [] \<longrightarrow> set (all_tasks s') \<subseteq> set (all_tasks s)" by (auto simp: s' switch_to_simps b(5))
  then have "same_prio p s'"
    using assms(2) by (auto simp: same_prio_def s' switch_to_simps bo pb b(5))
  moreover have "remove1 (hd (ready_queue s)) ?q = tl (ready_queue s) @ [current_task s]" using assms(3) by (cases "ready_queue s") auto
  ultimately show ?thesis using sc(1) r' k hd
    by (intro exI [of _ r'] exI [of _ s']) (simp add: s' switch_to_simps sc(2))
qed

fun reschedule :: "nat \<Rightarrow> registers_t \<Rightarrow> kst \<Rightarrow> (registers_t \<times> kst) option" where
  "reschedule 0 r s = Some (r, s)"
| "reschedule (Suc n) r s = (case schedule r s of None \<Rightarrow> None | Some (r', s') \<Rightarrow> reschedule n r' s')"

text \<open>C7. No starvation: when all tasks have the same priority and no boost, the task at position \<open>i\<close> of
  the ready queue has the processor after \<open>i + 1\<close> calls of \<open>schedule\<close>, all of which return.\<close>

theorem round_robin_no_starvation:
  assumes "kinv s" "same_prio p s" "i < length (ready_queue s)"
  shows "\<exists>r' s'. reschedule (Suc i) r s = Some (r', s') \<and> current_task s' = ready_queue s ! i"
  using assms
proof (induction i arbitrary: r s)
  case 0
  then have "ready_queue s \<noteq> []" by auto
  from schedule_rotates [OF 0(1,2) this, of r] \<open>ready_queue s \<noteq> []\<close> show ?case by (auto simp: hd_conv_nth)
next
  case (Suc i)
  then have ne: "ready_queue s \<noteq> []" by auto
  from schedule_rotates [OF Suc.prems(1,2) ne, of r] obtain r1 s1 where s1: "schedule r s = Some (r1, s1)" "kinv s1"
    "same_prio p s1" "ready_queue s1 = tl (ready_queue s) @ [current_task s]" by blast
  have l: "i < length (tl (ready_queue s))" using Suc.prems(3) by simp
  then have "ready_queue s1 ! i = ready_queue s ! Suc i" by (simp add: s1(4) nth_append nth_tl)
  moreover have "i < length (ready_queue s1)" using l by (simp add: s1(4))
  ultimately show ?case using Suc.IH [OF s1(2,3), of r1] by (simp add: s1(1))
qed

text \<open>A small kernel: the main task, its child with pid 1 and that task's child with pid 2.\<close>

definition demo_blocks :: "blk list" where
  "demo_blocks = [\<lparr>addr = 0x01000000, bsize = 0x1000, bused = True\<rparr>, \<lparr>addr = 0x01001000, bsize = 0x1000, bused = True\<rparr>,
     \<lparr>addr = 0x01002000, bsize = 0x4000, bused = True\<rparr>, \<lparr>addr = 0x01006000, bsize = 0x1000, bused = True\<rparr>,
     \<lparr>addr = 0x01007000, bsize = 0x4000, bused = True\<rparr>, \<lparr>addr = 0x0100B000, bsize = 0xEF5000, bused = False\<rparr>]"

definition demo_heap :: hheap where
  "demo_heap = \<lparr>h_magic = \<lambda>_. HEAP_MAGIC,
     h_size = (\<lambda>_. 0x1000)(0x01002000 := 0x4000, 0x01007000 := 0x4000, 0x0100B000 := 0xEF5000),
     h_next = (\<lambda>_. 0)(0x01000000 := 0x01001000, 0x01001000 := 0x01002000, 0x01002000 := 0x01006000, 0x01006000 := 0x01007000,
        0x01007000 := 0x0100B000),
     h_prev = (\<lambda>_. 0)(0x01001000 := 0x01000000, 0x01002000 := 0x01001000, 0x01006000 := 0x01002000, 0x01007000 := 0x01006000,
        0x0100B000 := 0x01007000),
     h_used = (\<lambda>_. 1)(0x0100B000 := 0)\<rparr>"

lemma demo_heap_inv: "heap_inv demo_heap demo_blocks"
  by (simp add: heap_inv_def demo_heap_def demo_blocks_def heap_start_def heap_end_def)

lemma demo_heap_held: "held demo_heap {0x01000014, 0x01001014, 0x01002014, 0x01006014, 0x01007014}"
proof -
  have "heap_inv demo_heap demo_blocks" by (rule demo_heap_inv)
  moreover have "{0x01000014, 0x01001014, 0x01002014, 0x01006014, 0x01007014} \<subseteq> fst ` live_of demo_blocks"
    by (simp add: demo_blocks_def HEADER_SIZE_def)
  ultimately show ?thesis by (auto simp: held_def heap_live_def)
qed

definition demo_task :: "u32 \<Rightarrow> task_state \<Rightarrow> u32 \<Rightarrow> u32 \<Rightarrow> u32 list \<Rightarrow> task_struct" where
  "demo_task p st stk par ch = \<lparr>pid = p, t_ecx = 0, t_edx = 0, t_ebx = 0, t_ebp = 0, t_esi = 0, t_edi = 0, t_eax = 0, t_eip = 0x400000,
     t_cs = 0x2B, t_esp = 0, t_eflags = 0x202, user_esp = 0x440000, user_ss = 0x23, state = st, kernel_stack = stk, entry = 0, arg = 0,
     paging = 7, user_stack = 0x440000, parent = par, exit_code = 0, children = ch, priority = 128, dynamic_boost = 0, boost_expire = 0,
     wake_tick = 0, quantum = 4, caps = CAP_ALL, output_fd = -1, fd_buf = replicate 16 0, fd_size = replicate 16 0,
     fd_pos = replicate 16 0, fd_type = replicate 16 0, pending_signals = 0, blocked_signals = 0, sig_handlers = replicate 32 0,
     sig_saved_eip = 0, sig_saved_esp = 0\<rparr>"

definition demo_kst :: kst where
  "demo_kst = \<lparr>tsk = (\<lambda>_. demo_task 0 TASK_RUNNING 0 0 [0x01001014])
        (0x01001014 := demo_task 1 TASK_RUNNING 0x01002014 0x01000014 [0x01006014],
         0x01006014 := demo_task 2 TASK_READY 0x01007014 0x01001014 []),
     pgr = (\<lambda>_. \<lparr>page_dir_phys = 0x200000, owned_phys = []\<rparr>), pipes = (\<lambda>_. \<lparr>p_buf = [], p_rpos = 0, p_wpos = 0, p_count = 0, p_refs = 0, p_broken = False\<rparr>),
     kbuf = (\<lambda>_. []), kheap = demo_heap, ph = demo_phys, cpu = \<lparr>cr0 = 0, cr3 = 0, cr4 = 0\<rparr>, kernel_paging = 7, tss_esp0 = 0,
     ready_queue = [0x01006014], all_tasks = [0x01000014, 0x01001014, 0x01006014], zombie_reap = [], current_task = 0x01001014,
     main_task = 0x01000014, next_pid = 3, decay_counter = 0, pit_ticks = 0, freed = {}, stale = False\<rparr>"

lemmas demo_kst_simps = demo_kst_def demo_task_def

lemma demo_kinv: "kinv demo_kst"
proof -
  have "q_wf demo_kst" by (simp add: q_wf_def demo_kst_simps) auto
  moreover have "owned demo_kst = [0x01000014, 0x01001014, 0x01002014, 0x01006014, 0x01007014]"
    by (simp add: owned_def task_objs_def demo_kst_simps)
  then have "own_wf demo_kst" using demo_heap_held by (simp add: own_wf_def) (simp add: demo_kst_def)
  moreover have "par_wf demo_kst" by (simp add: par_wf_def demo_kst_simps)
  moreover have "boot_wf demo_kst" by (simp add: boot_wf_def demo_kst_simps)
  ultimately show ?thesis by (simp add: kinv_def sched_inv_def demo_kst_simps)
qed

lemma demo_eff: "eff_prio (tsk demo_kst a) = 128"
  by (simp add: eff_prio_def demo_kst_simps)

lemma demo_queue: "ready_queue demo_kst = [0x01006014]" "current_task demo_kst = 0x01001014" "all_tasks demo_kst = [0x01000014, 0x01001014, 0x01006014]"
  by (simp_all add: demo_kst_def)

definition demo_regs :: registers_t where
  "demo_regs = \<lparr>r_edi = 0, r_esi = 0, r_ebp = 0, r_esp = 0, r_ebx = 0, r_edx = 0, r_ecx = 0, r_eax = 5, r_vec = 0x20,
      r_err_code = 0, r_eip = 0x400100, r_cs = 0x2B, r_eflags = 0x202, r_user_esp = 0x43FF00, r_user_ss = 0x23\<rparr>"

theorem schedule_picks_first_best_witness:
  "kinv demo_kst \<and> (\<exists>r' s'. schedule demo_regs demo_kst = Some (r', s') \<and>
      current_task s' = 0x01006014 \<and> ready_queue s' = [0x01001014])"
proof -
  obtain nt r' s' where x: "schedule demo_regs demo_kst = Some (r', s')" "first_max (\<lambda>a. eff_prio (tsk demo_kst a)) [0x01006014, 0x01001014] nt"
    "current_task s' = nt" "ready_queue s' = remove1 nt [0x01006014, 0x01001014]"
    using schedule_picks_first_best [OF demo_kinv, of demo_regs] by (auto simp: demo_queue)
  have "nt = 0x01006014" using x(2) by (auto simp: first_max_def demo_eff Cons_eq_append_conv)
  with x show ?thesis using demo_kinv by auto
qed

theorem round_robin_no_starvation_witness:
  "kinv demo_kst \<and> same_prio 128 demo_kst \<and>
   (\<exists>r' s'. reschedule 1 demo_regs demo_kst = Some (r', s') \<and> current_task s' = 0x01006014)"
proof -
  have p: "same_prio 128 demo_kst" by (simp add: same_prio_def demo_kst_simps)
  show ?thesis using round_robin_no_starvation [OF demo_kinv p, of 0 demo_regs] p demo_kinv
    by (simp add: demo_queue)
qed

text \<open>A task that is switched out and back in.\<close>

lemma context_roundtrip:
  assumes "r_cs r AND 3 \<noteq> 0"
  shows "restore_context (save_context r t) r0 = r\<lparr>r_vec := r_vec r0, r_err_code := r_err_code r0\<rparr>"
  using assms by (simp add: restore_context_def save_context_def Let_def)

text \<open>Preemption is transparent: when \<open>schedule\<close> takes the processor from a ring-3 task and a later
  call gives it back, the frame holds all registers of the interrupted frame; only the vector and the
  error code are those of the later interrupt.\<close>

theorem schedule_context_roundtrip:
  assumes "kinv s" "r_cs r AND 3 \<noteq> 0" "schedule r s = Some (r1, s1)" "current_task s1 \<noteq> current_task s"
    "schedule r2 s1 = Some (r3, s3)" "current_task s3 = current_task s"
  shows "r3 = r\<lparr>r_vec := r_vec r2, r_err_code := r_err_code r2\<rparr>"
proof -
  note w = kinvD [OF assms(1)]
  let ?a = "current_task s"
  have k1: "kinv s1" by (rule schedule_kinv [OF w(1,2,5,6,3) disjI1 [OF w(8)] assms(3)])
  from schedule_best [OF k1, of r2] assms(4-6) have r3: "r3 = restore_context (tsk s1 ?a) r2" by auto
  have rs: "restore_context (t\<lparr>state := x\<rparr>) r' = restore_context t r'" for t x r' by (simp add: restore_context_def Let_def)
  note sc = schedule_running [OF assms(1), of r] and b = before_pick_wf [OF w(1-3) disjI1 [OF w(8)], of r]
  define s4 nt where "s4 = before_pick r s" and "nt = pick_next (tsk (before_pick r s)) (ready_queue s @ [current_task s])"
  have "switch_to nt r s4 = (r1, s1)" using sc(1) assms(3) by (simp add: s4_def nt_def)
  then have s1: "s1 = snd (switch_to nt r s4)" by simp
  have "nt \<noteq> ?a" using assms(4) by (simp add: s1 switch_to_simps)
  then have "restore_context (tsk s1 ?a) r2 = restore_context (tsk s4 ?a) r2"
    by (simp add: s1 switch_to_def Let_def k_defs)
  also have "\<dots> = restore_context (save_context r (cur s)) r2" using w(4) by (simp add: s4_def b(7) rs)
  finally show ?thesis using r3 context_roundtrip [OF assms(2)] by simp
qed

theorem schedule_context_roundtrip_witness:
  "\<exists>r1 s1 r3 s3. schedule demo_regs demo_kst = Some (r1, s1) \<and> current_task s1 \<noteq> current_task demo_kst \<and>
     schedule (r1\<lparr>r_vec := 0x80, r_eax := 12\<rparr>) s1 = Some (r3, s3) \<and> r3 = demo_regs\<lparr>r_vec := 0x80\<rparr>"
proof -
  have p: "same_prio 128 demo_kst" by (simp add: same_prio_def demo_kst_simps)
  obtain r1 s1 where s1: "schedule demo_regs demo_kst = Some (r1, s1)" "kinv s1" "same_prio 128 s1" "current_task s1 = 0x01006014"
    "ready_queue s1 = [0x01001014]" using schedule_rotates [OF demo_kinv p, of demo_regs] by (auto simp: demo_queue)
  obtain r3 s3 where s3: "schedule (r1\<lparr>r_vec := 0x80, r_eax := 12\<rparr>) s1 = Some (r3, s3)" "current_task s3 = 0x01001014"
    using schedule_rotates [OF s1(2,3), of "r1\<lparr>r_vec := 0x80, r_eax := 12\<rparr>"] s1(5) by auto
  have e: "r_err_code r1 = r_err_code demo_regs"
    using schedule_running(1) [OF demo_kinv, of demo_regs] s1(1) switch_to_frame
    by (metis (no_types, lifting) fst_conv option.inject restore_err)
  have "r3 = demo_regs\<lparr>r_vec := r_vec (r1\<lparr>r_vec := 0x80, r_eax := 12\<rparr>), r_err_code := r_err_code (r1\<lparr>r_vec := 0x80, r_eax := 12\<rparr>)\<rparr>"
    by (rule schedule_context_roundtrip [OF demo_kinv _ s1(1) _ s3(1)]) (simp_all add: s1(4) s3(2) demo_queue demo_regs_def)
  with s1 s3 e show ?thesis by (auto simp: demo_queue)
qed



text \<open>The exit of a task whose parent is alive.\<close>

lemma exit_parts:
  fixes r
  assumes "kinv s" "parent (cur s) \<in> set (all_tasks s)" "pid (tsk s (parent (cur s))) \<noteq> 0"
    "state (tsk s (parent (cur s))) \<noteq> TASK_DEAD" "current_task s \<in> set (children (tsk s (parent (cur s))))"
  defines "r0 \<equiv> r\<lparr>r_eflags := 0x202, r_eip := 0, r_esp := 0\<rparr>"
  shows "\<exists>s7 nt. exit_state code s = Some s7 \<and> nt \<in> set (ready_queue s7) \<and>
     ready_queue s7 = ready_queue s @ (if state (tsk s (parent (cur s))) = TASK_BLOCKED then [parent (cur s)] else []) \<and>
     task_do_exit r code s = Some (Iret (restore_context (tsk s7 nt) r0) (snd (switch_to nt r0 (before_pick r0 s7)))) \<and>
     (\<forall>a. tsk (before_pick r0 s7) a = tsk s7 a) \<and> ready_queue (before_pick r0 s7) = ready_queue s7 \<and>
     parent (cur s) \<in> set (ready_queue s7)"
proof -
  note w = kinvD [OF assms(1)]
  let ?p = "parent (cur s)" and ?c = "current_task s"
  have p0: "?p \<noteq> 0" by (rule own_wf_nonzero [OF w(2) assms(2)])
  have ps: "?p \<noteq> ?c" using w(3,5) by (auto simp: par_wf_def Let_def)
  let ?s2 = "touch ?p (exit_mark code s)"
  have em: "children (tsk ?s2 ?p) = children (tsk s ?p)" "parent (tsk ?s2 ?c) = ?p"
    using ps by (simp_all add: exit_mark_def k_defs Let_def)
  then have "\<exists>s3. sibling_del ?c ?s2 = Some s3" using assms(5) by (simp add: sibling_del_def Let_def)
  then obtain s7 where s7: "exit_state code s = Some s7" by (auto simp: exit_state_def Let_def)
  note e = exit_state_wf [OF w(10,5) s7 p0] and x = exit_state_simps [OF s7 ps w(7)]
  have m: "pid (tsk s (main_task s)) = 0" by (rule boot_wfD(2) [OF w(6)])
  have pq: "?p \<in> set (ready_queue s7)" using assms(2-4) m by (intro e(8)) auto
  define s4 where "s4 = before_pick r0 s7"
  note b = before_pick_wf [OF e(1,2,5) disjI2 [OF e(6)], of r0, folded s4_def]
  have rq: "ready_queue s4 = ready_queue s7" using e(6) by (simp add: b(6))
  have nn: "ready_queue s4 \<noteq> []" using pq by (auto simp: rq)
  have c7: "current_task s7 \<noteq> 0" using e(4) w(9) by simp
  define nt where "nt = pick_next (tsk s4) (ready_queue s4)"
  have t4: "tsk s4 a = tsk s7 a" for a using e(6) by (simp add: b(7))
  have sch: "schedule r0 s7 = Some (switch_to nt r0 s4)"
    using idle_wait_stop [OF nn] nn by (simp add: schedule_alt [OF c7] s4_def [symmetric] nt_def)
  have nt: "nt \<in> set (ready_queue s7)" unfolding nt_def rq [symmetric] by (rule first_max_in [OF pick_next_first_max [OF nn]])
  have "task_do_exit r code s = Some (Iret (restore_context (tsk s7 nt) r0) (snd (switch_to nt r0 s4)))"
    using w(9) p0 assms(3) s7 sch switch_to_frame [of nt r0 s4] t4
    by (cases "switch_to nt r0 s4") (simp add: task_do_exit_def Let_def r0_def)
  then show ?thesis
    using s7 nt pq t4 rq x(1) unfolding s4_def by (intro exI [of _ s7] exI [of _ nt]) simp
qed

text \<open>What \<open>schedule\<close> gives back for a dead task: its struct and its kernel stack.\<close>

definition reaped_objs :: "task_struct \<Rightarrow> u32 \<Rightarrow> u32 list" where
  "reaped_objs t a = a # (if kernel_stack t \<noteq> 0 then [kernel_stack t] else [])"

lemma reap_zombies_heap:
  assumes "heap_live (kheap s) L" "distinct (concat (map (\<lambda>a. reaped_objs (tsk s a) a) zs))"
    "set (concat (map (\<lambda>a. reaped_objs (tsk s a) a) zs)) \<subseteq> fst ` L"
  shows "heap_live (kheap (fold reap_zombie zs s)) {x \<in> L. fst x \<notin> set (concat (map (\<lambda>a. reaped_objs (tsk s a) a) zs))} \<and>
    ph (fold reap_zombie zs s) = ph s"
  using assms
proof (induction zs arbitrary: s L)
  case (Cons z zs)
  let ?s = "reap_zombie z s" and ?k = "kernel_stack (tsk s z)"
  let ?L1 = "{x \<in> L. ?k \<noteq> 0 \<longrightarrow> fst x \<noteq> ?k}" and ?L2 = "{x \<in> L. fst x \<notin> set (reaped_objs (tsk s z) z)}"
  have f: "tsk ?s = tsk s" "kheap ?s = kfree z (kfree ?k (kheap s))" "ph ?s = ph s"
    by (simp_all add: reap_zombie_def k_defs Let_def)
  have zk: "z \<in> fst ` L" "?k \<noteq> 0 \<Longrightarrow> ?k \<in> fst ` L \<and> ?k \<noteq> z"
    using Cons.prems(2,3) by (auto simp: reaped_objs_def)
  have "heap_live (kfree ?k (kheap s)) ?L1" using heap_live_free [OF Cons.prems(1)] zk(2) Cons.prems(1) by (cases "?k = 0") simp_all
  moreover have "z \<in> fst ` ?L1" using zk by force
  ultimately have "heap_live (kheap ?s) {x \<in> ?L1. fst x \<noteq> z}" unfolding f(2) by (rule heap_live_free)
  also have "{x \<in> ?L1. fst x \<noteq> z} = ?L2" by (auto simp: reaped_objs_def)
  finally have l: "heap_live (kheap ?s) ?L2" .
  have "set (concat (map (\<lambda>a. reaped_objs (tsk ?s a) a) zs)) \<subseteq> fst ` ?L2"
  proof
    fix y assume "y \<in> set (concat (map (\<lambda>a. reaped_objs (tsk ?s a) a) zs))"
    with Cons.prems(2,3) have "y \<in> fst ` L" "y \<notin> set (reaped_objs (tsk s z) z)" by (auto simp: f(1))
    then show "y \<in> fst ` ?L2" by force
  qed
  from Cons.IH [OF l _ this] Cons.prems(2)
  have "heap_live (kheap (fold reap_zombie zs ?s)) {x \<in> ?L2. fst x \<notin> set (concat (map (\<lambda>a. reaped_objs (tsk s a) a) zs))} \<and>
    ph (fold reap_zombie zs ?s) = ph s" by (simp add: f(1,3))
  moreover have "{x \<in> ?L2. fst x \<notin> set (concat (map (\<lambda>a. reaped_objs (tsk s a) a) zs))} =
    {x \<in> L. fst x \<notin> set (concat (map (\<lambda>a. reaped_objs (tsk s a) a) (z # zs)))}" by auto
  ultimately show ?case by simp
qed simp

lemma reaped_distinct:
  assumes "distinct (concat (map (\<lambda>a. task_objs kp (ts a) a) xs))" "distinct zs" "set zs \<subseteq> set xs"
  shows "distinct (concat (map (\<lambda>a. reaped_objs (ts a) a) zs))"
    "set (concat (map (\<lambda>a. reaped_objs (ts a) a) zs)) \<subseteq> set (concat (map (\<lambda>a. task_objs kp (ts a) a) xs))"
proof -
  have sub: "set (reaped_objs (ts a) a) \<subseteq> set (task_objs kp (ts a) a)" for a by (auto simp: reaped_objs_def task_objs_def)
  then show "set (concat (map (\<lambda>a. reaped_objs (ts a) a) zs)) \<subseteq> set (concat (map (\<lambda>a. task_objs kp (ts a) a) xs))"
    using assms(3) by fastforce
  have dj: "set (task_objs kp (ts a) a) \<inter> set (task_objs kp (ts b) b) = {}" if "a \<in> set xs" "b \<in> set xs" "a \<noteq> b" for a b
  proof -
    from that(1) obtain ys zs where xs: "xs = ys @ a # zs" by (auto simp: in_set_conv_decomp)
    with that(2,3) assms(1) show ?thesis by auto
  qed
  have ds: "distinct (reaped_objs (ts a) a)" if "a \<in> set xs" for a
  proof -
    from that obtain ys zs where xs: "xs = ys @ a # zs" by (auto simp: in_set_conv_decomp)
    with assms(1) have "distinct (task_objs kp (ts a) a)" by simp
    then show ?thesis by (auto simp: reaped_objs_def task_objs_def split: if_splits)
  qed
  show "distinct (concat (map (\<lambda>a. reaped_objs (ts a) a) zs))" using assms(2,3)
  proof (induction zs)
    case (Cons z zs)
    have "set (reaped_objs (ts z) z) \<inter> set (reaped_objs (ts b) b) = {}" if "b \<in> set zs" for b
      using dj [of z b] sub [of z] sub [of b] Cons.prems that by (auto dest: subsetD)
    with Cons ds [of z] show ?case by auto
  qed simp
qed

text \<open>The heap and the page allocator after an exit.\<close>

lemma exit_memory:
  assumes "kinv s" "exit_state code s = Some s7" "parent (cur s) \<noteq> 0" "heap_live (kheap s) L"
  shows "heap_live (kheap (before_pick r0 s7)) {x \<in> L. fst x \<notin> set (task_objs (kernel_paging s) (cur s) (current_task s)) \<and>
      (\<forall>a \<in> set (zombie_reap s). fst x \<notin> set (reaped_objs (tsk s a) a))} \<and>
    ph (before_pick r0 s7) = (if paging (cur s) \<noteq> 0 \<and> paging (cur s) \<noteq> kernel_paging s then pager_delete (pgr s (paging (cur s))) (ph s) else ph s)"
proof -
  note w = kinvD [OF assms(1)]
  let ?c = "current_task s" and ?pg = "paging (cur s)"
  have ps: "parent (cur s) \<noteq> ?c" using w(3,5) by (auto simp: par_wf_def Let_def)
  note e = exit_state_wf [OF w(10,5) assms(2,3)] and x = exit_state_simps [OF assms(2) ps w(7)]
  let ?own = "?pg \<noteq> 0 \<and> ?pg \<noteq> kernel_paging s"
  define L7 where "L7 = {y \<in> L. ?own \<longrightarrow> fst y \<noteq> ?pg}"
  have ol: "set (owned s) \<subseteq> fst ` L" using w(2) heap_live_det [OF assms(4)] by (auto simp: own_wf_def held_def)
  have "?own \<Longrightarrow> ?pg \<in> set (owned s)" using in_owned [OF w(3)] by (auto simp: task_objs_def split: if_splits)
  then have "?own \<Longrightarrow> heap_live (kfree ?pg (kheap s)) {y \<in> L. fst y \<noteq> ?pg}" using heap_live_free [OF assms(4)] ol by blast
  then have l7: "heap_live (kheap s7) L7" using assms(4) by (cases ?own) (simp_all only: x(16) L7_def if_True if_False simp_thms Collect_mem_eq)
  have o7: "distinct (owned s7)" "set (owned s7) \<subseteq> fst ` L7" using e(2) heap_live_det [OF l7] by (auto simp: own_wf_def held_def)
  let ?zs = "zombie_reap s @ [?c]"
  have z: "distinct ?zs" "set ?zs \<subseteq> set (all_tasks s7)"
    using q_wfD(3,5) [OF w(1)] w(3,8) by (auto simp: x(2))
  note rd = reaped_distinct [OF o7(1) [unfolded owned_def] z, folded owned_def]
  have ph7: "ph s7 = (if ?own then pager_delete (pgr s ?pg) (ph s) else ph s)"
    using assms(2) ps w(7) by (auto simp: exit_state_def exit_finish_def exit_mark_def sibling_del_def Let_def k_defs split: if_splits)
  have bp: "before_pick r0 s7 = fold reap_zombie ?zs s7"
    using e(6) reap_q_wf(8) [OF e(1,2)] by (simp add: before_pick_def reap_zombies_def x(3))
  from reap_zombies_heap [OF l7 rd(1)] rd(2) o7(2)
  have "heap_live (kheap (before_pick r0 s7)) {y \<in> L7. fst y \<notin> set (concat (map (\<lambda>a. reaped_objs (tsk s7 a) a) ?zs))} \<and> ph (before_pick r0 s7) = ph s7"
    unfolding bp by blast
  moreover have "reaped_objs (tsk s7 a) a = reaped_objs (tsk s a) a" for a by (simp add: reaped_objs_def x(11))
  moreover have "{y \<in> L7. fst y \<notin> set (concat (map (\<lambda>a. reaped_objs (tsk s a) a) ?zs))} =
    {x \<in> L. fst x \<notin> set (task_objs (kernel_paging s) (cur s) ?c) \<and> (\<forall>a \<in> set (zombie_reap s). fst x \<notin> set (reaped_objs (tsk s a) a))}"
    by (auto simp: L7_def reaped_objs_def task_objs_def split: if_splits)
  ultimately show ?thesis by (simp add: ph7)
qed

text \<open>C6. A task whose parent is alive can always exit: the machine does not halt, the task is gone from
  every list, and the invariant of the kernel holds. Exactly its objects leave the heap - struct, kernel
  stack and own paging manager, with those of tasks that had died before - every other live region stays as
  it was, and its address space goes back to the page allocator. A waiting parent gets the pid of the child:
  in the frame if it runs next, else in its saved context, on the ready queue.\<close>

theorem exit_hands_over:
  assumes "kinv s" "parent (cur s) \<in> set (all_tasks s)" "pid (tsk s (parent (cur s))) \<noteq> 0"
    "state (tsk s (parent (cur s))) \<noteq> TASK_DEAD" "current_task s \<in> set (children (tsk s (parent (cur s))))" "heap_live (kheap s) L"
  shows "\<exists>r' s'. task_do_exit r code s = Some (Iret r' s') \<and> kinv s' \<and> current_task s \<notin> set (all_tasks s') \<and>
     current_task s \<notin> set (ready_queue s') \<and> zombie_reap s' = [] \<and>
     children (tsk s' (parent (cur s))) = remove1 (current_task s) (children (tsk s (parent (cur s)))) \<and>
     heap_live (kheap s') {x \<in> L. fst x \<notin> set (task_objs (kernel_paging s) (cur s) (current_task s)) \<and>
       (\<forall>a \<in> set (zombie_reap s). fst x \<notin> set (reaped_objs (tsk s a) a))} \<and>
     ph s' = (if paging (cur s) \<noteq> 0 \<and> paging (cur s) \<noteq> kernel_paging s then pager_delete (pgr s (paging (cur s))) (ph s) else ph s) \<and>
     (state (tsk s (parent (cur s))) = TASK_BLOCKED \<longrightarrow>
        (if current_task s' = parent (cur s) then r_eax r' = pid (cur s)
         else parent (cur s) \<in> set (ready_queue s') \<and> t_eax (tsk s' (parent (cur s))) = pid (cur s)))"
proof -
  note w = kinvD [OF assms(1)]
  let ?r0 = "r\<lparr>r_eflags := 0x202, r_eip := 0, r_esp := 0\<rparr>" and ?p = "parent (cur s)" and ?c = "current_task s"
  from exit_parts [OF assms(1-5), of code r] obtain s7 nt where s7: "exit_state code s = Some s7" "nt \<in> set (ready_queue s7)"
    "task_do_exit r code s = Some (Iret (restore_context (tsk s7 nt) ?r0) (snd (switch_to nt ?r0 (before_pick ?r0 s7))))"
    "\<forall>a. tsk (before_pick ?r0 s7) a = tsk s7 a" "ready_queue (before_pick ?r0 s7) = ready_queue s7" "?p \<in> set (ready_queue s7)"
    by blast
  have ps: "?p \<noteq> ?c" using w(3,5) by (auto simp: par_wf_def Let_def)
  have p0: "?p \<noteq> 0" by (rule own_wf_nonzero [OF w(2) assms(2)])
  note x = exit_state_simps [OF s7(1) ps w(7)] and e = exit_state_wf [OF w(10,5) s7(1) p0]
  note bp = before_pick_wf [OF e(1,2,5) disjI2 [OF e(6)], of ?r0]
  define s' where "s' = snd (switch_to nt ?r0 (before_pick ?r0 s7))"
  have k: "kinv s'" "?c \<notin> set (all_tasks s')" using task_do_exit_kinv [OF assms(1) s7(3)] by (simp_all add: s'_def)
  have sw: "ph s' = ph (before_pick ?r0 s7)" "t_eax (tsk s' a) = t_eax (tsk s7 a)" for a
    using s7(4) by (simp_all add: s'_def switch_to_mem)
  have "zombie_reap s' = []" "children (tsk s' ?p) = remove1 ?c (children (tsk s ?p))" "kheap s' = kheap (before_pick ?r0 s7)"
    "current_task s' = nt" "ready_queue s' = remove1 nt (ready_queue s7)"
    using s7(4,5) bp(11) by (simp_all add: s'_def switch_to_simps x(17))
  moreover have "r_eax (restore_context t r1) = t_eax t" for t r1 by (simp add: restore_context_def Let_def)
  moreover have "?c \<notin> set (ready_queue s')" using k q_wfD(4) [OF kinvD(1) [OF k(1)]] by blast
  moreover have "?p \<in> set (remove1 nt (ready_queue s7))" if "nt \<noteq> ?p" using that s7(6) by simp
  ultimately show ?thesis using s7(3) k exit_memory [OF assms(1) s7(1) p0 assms(6), of ?r0] x(20)
    unfolding s'_def [symmetric] by (intro exI [of _ "restore_context (tsk s7 nt) ?r0"] exI [of _ s']) (auto simp: sw)
qed

lemma demo_exit_pre:
  defines "s \<equiv> demo_kst\<lparr>tsk := (tsk demo_kst)(0x01001014 := (tsk demo_kst 0x01001014)\<lparr>state := TASK_BLOCKED, wake_tick := 500\<rparr>,
      0x01006014 := (tsk demo_kst 0x01006014)\<lparr>state := TASK_RUNNING\<rparr>), ready_queue := [], current_task := 0x01006014\<rparr>"
  shows "kinv s" "parent (cur s) = 0x01001014" "0x01001014 \<in> set (all_tasks s)" "pid (tsk s 0x01001014) = 1" "state (tsk s 0x01001014) = TASK_BLOCKED"
    "wake_tick (tsk s 0x01001014) = 500" "current_task s = 0x01006014" "children (tsk s 0x01001014) = [0x01006014]" "pid (cur s) = 2" "pit_ticks s = 0"
    "ready_queue s = []"
proof -
  show "parent (cur s) = 0x01001014" "0x01001014 \<in> set (all_tasks s)" "pid (tsk s 0x01001014) = 1" "state (tsk s 0x01001014) = TASK_BLOCKED"
    "wake_tick (tsk s 0x01001014) = 500" "current_task s = 0x01006014" "children (tsk s 0x01001014) = [0x01006014]" "pid (cur s) = 2" "pit_ticks s = 0"
    "ready_queue s = []"
    by (simp_all add: s_def demo_kst_simps)
  have "q_wf s" by (auto simp: q_wf_def s_def demo_kst_simps)
  moreover have "own_wf s" by (rule own_wf_cong [OF kinvD(2) [OF demo_kinv]]) (simp_all add: s_def)
  moreover have "par_wf s" by (simp add: par_wf_def s_def demo_kst_simps)
  moreover have "boot_wf s" by (simp add: boot_wf_def s_def demo_kst_simps)
  ultimately show "kinv s" by (simp add: kinv_def sched_inv_def s_def demo_kst_simps)
qed

definition demo_exit_kst :: kst where
  "demo_exit_kst = demo_kst\<lparr>tsk := (tsk demo_kst)(0x01001014 := (tsk demo_kst 0x01001014)\<lparr>state := TASK_BLOCKED, wake_tick := 500\<rparr>,
      0x01006014 := (tsk demo_kst 0x01006014)\<lparr>state := TASK_RUNNING\<rparr>), ready_queue := [], current_task := 0x01006014\<rparr>"

lemmas demo_exit = demo_exit_pre [folded demo_exit_kst_def]

lemma demo_exit_mem: "kheap demo_exit_kst = demo_heap" "kernel_paging demo_exit_kst = 7" "zombie_reap demo_exit_kst = []"
  "task_objs 7 (cur demo_exit_kst) (current_task demo_exit_kst) = [0x01006014, 0x01007014]"
  by (simp_all add: demo_exit_kst_def demo_kst_simps task_objs_def)

theorem exit_hands_over_witness:
  "kinv demo_exit_kst \<and> heap_live demo_heap (live_of demo_blocks) \<and>
   (\<exists>r' s'. task_do_exit demo_regs 3 demo_exit_kst = Some (Iret r' s') \<and> kinv s' \<and> 0x01006014 \<notin> set (all_tasks s') \<and>
      heap_live (kheap s') {x \<in> live_of demo_blocks. fst x \<noteq> 0x01006014 \<and> fst x \<noteq> 0x01007014} \<and>
      (if current_task s' = 0x01001014 then r_eax r' = 2 else t_eax (tsk s' 0x01001014) = 2))"
proof -
  have l: "heap_live demo_heap (live_of demo_blocks)" using demo_heap_inv by (auto simp: heap_live_def)
  from exit_hands_over [of demo_exit_kst "live_of demo_blocks" demo_regs 3] obtain r' s' where
    "task_do_exit demo_regs 3 demo_exit_kst = Some (Iret r' s')" "kinv s'" "0x01006014 \<notin> set (all_tasks s')"
    "heap_live (kheap s') {x \<in> live_of demo_blocks. fst x \<noteq> 0x01006014 \<and> fst x \<noteq> 0x01007014}"
    "if current_task s' = 0x01001014 then r_eax r' = 2 else t_eax (tsk s' 0x01001014) = 2"
    using demo_exit l demo_exit_mem by (auto split: if_splits)
  with l demo_exit(1) show ?thesis by blast
qed

text \<open>C28. Whenever a task with a parent exits, \<open>schedule\<close> reads the task struct it has just returned to the
  heap: it compares the pid and the paging manager of the next task with those of the freed one.\<close>

theorem exit_reads_freed_struct:
  assumes "kinv s" "task_do_exit r code s = Some (Iret r' s')"
  shows "current_task s \<in> freed s' \<and> stale s'"
  using task_do_exit_kinv [OF assms] by blast

theorem exit_reads_freed_struct_witness:
  "\<exists>r' s'. task_do_exit demo_regs 3 demo_exit_kst = Some (Iret r' s') \<and> 0x01006014 \<in> freed s' \<and> stale s'"
proof -
  have "\<exists>r' s'. task_do_exit demo_regs 3 demo_exit_kst = Some (Iret r' s')"
    using exit_parts [of demo_exit_kst 3 demo_regs] demo_exit by auto
  then obtain r' s' where "task_do_exit demo_regs 3 demo_exit_kst = Some (Iret r' s')" by blast
  with exit_reads_freed_struct [OF demo_exit(1) this] demo_exit(7) show ?thesis by auto
qed

text \<open>The exit of a child ends the sleep of its parent early: a parent that is blocked in \<open>sys_sleep\<close> is made
  ready as if it had waited for the child, before its tick has come, and its wake-up tick stays set.\<close>

theorem exit_wakes_sleeping_parent:
  assumes "kinv s" "parent (cur s) \<in> set (all_tasks s)" "pid (tsk s (parent (cur s))) \<noteq> 0"
    "current_task s \<in> set (children (tsk s (parent (cur s))))"
    "state (tsk s (parent (cur s))) = TASK_BLOCKED" "wake_tick (tsk s (parent (cur s))) = w" "sint (pit_ticks s - w) < 0"
  shows "\<exists>r' s'. task_do_exit r code s = Some (Iret r' s') \<and>
     (current_task s' = parent (cur s) \<or> parent (cur s) \<in> set (ready_queue s')) \<and> wake_tick (tsk s' (parent (cur s))) = w"
proof -
  note w = kinvD [OF assms(1)]
  let ?r = "r\<lparr>r_eflags := 0x202, r_eip := 0, r_esp := 0\<rparr>"
  have st: "state (tsk s (parent (cur s))) \<noteq> TASK_DEAD" using assms(5) by simp
  from exit_parts [OF assms(1-3) st assms(4), of code r] obtain s7 nt where s7: "exit_state code s = Some s7" "nt \<in> set (ready_queue s7)"
    "task_do_exit r code s = Some (Iret (restore_context (tsk s7 nt) ?r) (snd (switch_to nt ?r (before_pick ?r s7))))"
    "\<forall>a. tsk (before_pick ?r s7) a = tsk s7 a" "ready_queue (before_pick ?r s7) = ready_queue s7" "parent (cur s) \<in> set (ready_queue s7)"
    by blast
  have ps: "parent (cur s) \<noteq> current_task s" using w(3,5) by (auto simp: par_wf_def Let_def)
  note x = exit_state_simps [OF s7(1) ps w(7)]
  have "wake_tick (tsk (snd (switch_to nt ?r s4)) a) = wake_tick (tsk s4 a)" for s4 a by (simp add: switch_to_def Let_def k_defs)
  moreover have "nt = parent (cur s) \<or> parent (cur s) \<in> set (remove1 nt (ready_queue s7))"
    using s7(6) by (cases "nt = parent (cur s)") auto
  ultimately show ?thesis using s7(3-5) assms(6)
    by (intro exI [of _ "restore_context (tsk s7 nt) ?r"] exI [of _ "snd (switch_to nt ?r (before_pick ?r s7))"]) (auto simp: switch_to_simps x(21))
qed

theorem exit_wakes_sleeping_parent_witness:
  "\<exists>r' s'. task_do_exit demo_regs 3 demo_exit_kst = Some (Iret r' s') \<and>
     (current_task s' = 0x01001014 \<or> 0x01001014 \<in> set (ready_queue s')) \<and> wake_tick (tsk s' 0x01001014) = 500"
  using exit_wakes_sleeping_parent [of demo_exit_kst 500 demo_regs 3] demo_exit by auto

end
