(* ===== verification/XE_Uaccess.thy ===== *)
theory XE_Uaccess
  imports XE_Paging
begin

text \<open>
  \<^verbatim>\<open>src/src/lib/uaccess.cpp\<close>: copying between kernel buffers and user memory, page by page through
  the user's page directory. A kernel buffer is the list of its bytes (\<open>None\<close> for a null pointer);
  a copy loop returns the bytes it stored, and a store past the end of the buffer is a fault. The
  lemmas show the page-wise loops equal to byte-wise copies over the user's address space.
\<close>

unbundle bit_operations_syntax

definition current_user_pd :: "pager option \<Rightarrow> pager option \<Rightarrow> pager option" where
  "current_user_pd task_paging g_user_pd = (case task_paging of Some pg \<Rightarrow> Some pg | None \<Rightarrow> g_user_pd)"

text \<open>The number of bytes up to the end of the page, at most \<open>len\<close>.\<close>

definition chunk :: "u32 \<Rightarrow> u32 \<Rightarrow> u32" where
  "chunk va len = (let n = 0x1000 - (va AND 0xFFF) in if n > len then len else n)"

definition rd_bytes :: "mem \<Rightarrow> u32 \<Rightarrow> nat \<Rightarrow> u8 list" where
  "rd_bytes m a n = map (\<lambda>i. m (a + of_nat i)) [0..<n]"

definition wr_bytes :: "mem \<Rightarrow> u32 \<Rightarrow> u8 list \<Rightarrow> mem" where
  "wr_bytes m a bs = fold (\<lambda>i m. m(a + of_nat i := bs ! i)) [0..<length bs] m"

lemma unat_page_off: "unat (va AND 0xFFF :: u32) = unat va mod 4096"
  unfolding low_mask by (simp add: unat_and_mask)

lemma unat_chunk: "unat (chunk va len) = min (4096 - unat va mod 4096) (unat len)"
proof -
  have "va AND 0xFFF \<le> 0x1000" by (simp add: word_le_nat_alt unat_page_off)
  then have "unat (0x1000 - (va AND 0xFFF)) = 4096 - unat va mod 4096"
    by (simp add: unat_sub unat_page_off)
  then show ?thesis by (simp add: chunk_def Let_def word_less_nat_alt)
qed

lemma chunk_pos: "len \<noteq> 0 \<Longrightarrow> 0 < unat (chunk va len)"
  by (simp add: unat_chunk unat_gt_0)

lemma unat_len_chunk: "unat (len - chunk va len) = unat len - unat (chunk va len)"
  by (simp add: unat_sub word_le_nat_alt unat_chunk)

function copy_from_loop :: "mem \<Rightarrow> pager \<Rightarrow> u32 \<Rightarrow> u32 \<Rightarrow> bool \<times> u8 list" where
  "copy_from_loop m pd usrc len =
     (if len = 0 then (True, [])
      else let ph = translate_user m pd usrc in
        if ph = 0 then (False, [])
        else let n = chunk usrc len in
          case copy_from_loop m pd (usrc + n) (len - n) of (ok, bs) \<Rightarrow> (ok, rd_bytes m ph (unat n) @ bs))"
  by pat_completeness auto
termination
proof (relation "measure (\<lambda>(m, pd, usrc, len). unat len)")
  fix m pd ph n and usrc len :: u32
  assume "len \<noteq> 0" "n = chunk usrc len"
  then show "((m, pd, usrc + n, len - n), m, pd, usrc, len) \<in> measure (\<lambda>(m, pd, usrc, len). unat len)"
    using chunk_pos [of len usrc] unat_gt_0 [of len] by (simp add: unat_len_chunk)
qed simp

definition copy_from_user :: "mem \<Rightarrow> pager option \<Rightarrow> u8 list option \<Rightarrow> u32 \<Rightarrow> u32 \<Rightarrow> fault + bool \<times> u8 list option" where
  "copy_from_user m pd kdst usrc len =
     (case (pd, kdst) of
        (Some pg, Some d) \<Rightarrow>
          (case copy_from_loop m pg usrc len of (ok, bs) \<Rightarrow>
             if length bs > length d then Inl OutOfBounds
             else Inr (ok, Some (bs @ drop (length bs) d)))
      | _ \<Rightarrow> Inr (False, kdst))"

function copy_to_loop :: "mem \<Rightarrow> pager \<Rightarrow> u32 \<Rightarrow> u8 list \<Rightarrow> u32 \<Rightarrow> fault + bool \<times> mem" where
  "copy_to_loop m pd udst s len =
     (if len = 0 then Inr (True, m)
      else let ph = translate_user m pd udst in
        if ph = 0 then Inr (False, m)
        else let n = chunk udst len in
          if unat n > length s then Inl OutOfBounds
          else copy_to_loop (wr_bytes m ph (take (unat n) s)) pd (udst + n) (drop (unat n) s) (len - n))"
  by pat_completeness auto
termination
proof (relation "measure (\<lambda>(m, pd, udst, s, len). unat len)")
  fix m pd ph n and udst len :: u32 and s :: "u8 list"
  assume "len \<noteq> 0" "n = chunk udst len"
  then show "((wr_bytes m ph (take (unat n) s), pd, udst + n, drop (unat n) s, len - n), m, pd, udst, s, len)
      \<in> measure (\<lambda>(m, pd, udst, s, len). unat len)"
    using chunk_pos [of len udst] unat_gt_0 [of len] by (simp add: unat_len_chunk)
qed simp

definition copy_to_user :: "mem \<Rightarrow> pager option \<Rightarrow> u32 \<Rightarrow> u8 list option \<Rightarrow> u32 \<Rightarrow> fault + bool \<times> mem" where
  "copy_to_user m pd udst ksrc len =
     (case (pd, ksrc) of (Some pg, Some s) \<Rightarrow> copy_to_loop m pg udst s len | _ \<Rightarrow> Inr (False, m))"

text \<open>The inner loop of \<open>copy_str_from_user\<close>: the bytes stored, and whether a NUL was met.\<close>

fun str_chunk :: "u8 list \<Rightarrow> bool \<times> u8 list" where
  "str_chunk [] = (False, [])"
| "str_chunk (c # cs) = (if c = 0 then (True, [c]) else case str_chunk cs of (z, bs) \<Rightarrow> (z, c # bs))"

text \<open>The outer loop, with \<open>done\<close> bytes stored so far: the result and the bytes stored from \<open>done\<close> on.\<close>

function copy_str_loop :: "mem \<Rightarrow> pager \<Rightarrow> u32 \<Rightarrow> u32 \<Rightarrow> u32 \<Rightarrow> bool \<times> u8 list" where
  "copy_str_loop m pd usrc mx dn =
     (if dn < mx - 1 then
        let va = usrc + dn; ph = translate_user m pd va in
        if ph = 0 then (dn > 0, [])
        else let n = chunk va (mx - 1 - dn) in
          case str_chunk (rd_bytes m ph (unat n)) of (z, bs) \<Rightarrow>
            if z then (True, bs)
            else case copy_str_loop m pd usrc mx (dn + n) of (ok, bs') \<Rightarrow> (ok, bs @ bs')
      else (True, [0]))"
  by pat_completeness auto
termination
proof (relation "measure (\<lambda>(m, pd, usrc, mx, dn). unat (mx - 1) - unat dn)")
  fix m pd usrc ph n z x y and mx dn va :: u32
  assume lt: "dn < mx - 1" and n: "n = chunk va (mx - 1 - dn)"
  have ne: "mx - 1 - dn \<noteq> 0" using lt by auto
  have u: "unat (mx - 1 - dn) = unat (mx - 1) - unat dn" using lt by (simp add: unat_sub)
  have "0 < unat n" "unat n \<le> unat (mx - 1 - dn)" using chunk_pos [OF ne] n by (simp_all add: unat_chunk)
  moreover have "unat dn + unat (mx - 1 - dn) < 2 ^ 32"
    using u lt unsigned_less [of "mx - 1", where 'a = nat] by (simp add: word_less_nat_alt)
  ultimately have "unat (dn + n) = unat dn + unat n" "0 < unat n" by (simp_all add: unat_word_ariths)
  then show "((m, pd, usrc, mx, dn + n), m, pd, usrc, mx, dn)
      \<in> measure (\<lambda>(m, pd, usrc, mx, dn). unat (mx - 1) - unat dn)"
    using lt by (simp add: word_less_nat_alt)
qed simp

definition copy_str_from_user :: "mem \<Rightarrow> pager option \<Rightarrow> u8 list option \<Rightarrow> u32 \<Rightarrow> u32 \<Rightarrow> fault + bool \<times> u8 list option" where
  "copy_str_from_user m pd kdst usrc mx =
     (case kdst of None \<Rightarrow> Inr (False, None)
      | Some d \<Rightarrow>
          if mx = 0 then Inr (False, kdst)
          else if d = [] then Inl OutOfBounds
          else let d0 = d[0 := 0] in
            case pd of None \<Rightarrow> Inr (False, Some d0)
            | Some pg \<Rightarrow> case copy_str_loop m pg usrc mx 0 of (ok, bs) \<Rightarrow>
                if length bs > length d then Inl OutOfBounds
                else Inr (ok, Some (bs @ drop (length bs) d0)))"

declare copy_from_loop.simps [simp del] copy_to_loop.simps [simp del] copy_str_loop.simps [simp del]

section \<open>Translation inside a page\<close>

lemma div_mod_same_page:
  fixes x i :: nat
  assumes "x mod 4096 + i < 4096"
  shows "(x + i) div 4096 = x div 4096" "(x + i) mod 4096 = x mod 4096 + i"
    "(x + i) mod 4194304 = x mod 4194304 + i" "(x + i) div 4194304 = x div 4194304"
proof -
  define q r where "q = x div 4096" and "r = x mod 4096"
  have x: "x + i = (r + i) + 4096 * q" by (simp add: q_def r_def)
  show d: "(x + i) div 4096 = x div 4096"
    unfolding x using assms by (simp add: r_def [symmetric] q_def [symmetric])
  show m: "(x + i) mod 4096 = x mod 4096 + i"
    unfolding x using assms by (simp add: r_def [symmetric])
  have e: "y mod 4194304 = 4096 * (y div 4096 mod 1024) + y mod 4096" for y :: nat
    using mod_mult2_eq [of y 4096 1024] by simp
  show "(x + i) mod 4194304 = x mod 4194304 + i" unfolding e d m by simp
  have "y div 4194304 = y div 4096 div 1024" for y :: nat
    using div_mult2_eq [of y 4096 1024] by simp
  then show "(x + i) div 4194304 = x div 4194304" by (simp only: d)
qed

lemma unat_in_page:
  assumes "unat (va :: u32) mod 4096 + i < 4096"
  shows "unat (va + of_nat i) = unat va + i"
proof -
  have "unat va < 4294967296" using unsigned_less [of va, where 'a = nat] by simp
  then have "unat va div 4096 < 1048576" by simp
  then have "unat va div 4096 * 4096 + (unat va mod 4096 + i) < 4294967296" using assms by linarith
  moreover have "unat va div 4096 * 4096 + (unat va mod 4096 + i) = unat va + i" by simp
  ultimately have "unat va + i < 4294967296" by (simp only:)
  then show ?thesis by (intro unat_less_of_nat_add) simp
qed

lemma va_off:
  assumes "i < 4096 - unat (va :: u32) mod 4096"
  shows "drop_bit 22 (va + of_nat i) = drop_bit 22 va" "drop_bit 12 (va + of_nat i) = drop_bit 12 va"
    "(va + of_nat i) AND 0xFFF = (va AND 0xFFF) + of_nat i"
    "(va + of_nat i) AND 0x3FFFFF = (va AND 0x3FFFFF) + of_nat i"
proof -
  have off: "unat va mod 4096 + i < 4096" using assms by simp
  note p = div_mod_same_page [OF off]
  note u = unat_in_page [OF off]
  have i: "i < 4096" using assms by simp
  show "drop_bit 22 (va + of_nat i) = drop_bit 22 va"
    by (simp add: word_unat_eq_iff drop_bit_eq_div unat_div u p)
  show "drop_bit 12 (va + of_nat i) = drop_bit 12 va"
    by (simp add: word_unat_eq_iff drop_bit_eq_div unat_div u p)
  have "unat ((va AND 0xFFF) + of_nat i) = unat (va AND 0xFFF) + i"
    using off by (intro unat_less_of_nat_add) (simp add: unat_page_off)
  then show "(va + of_nat i) AND 0xFFF = (va AND 0xFFF) + of_nat i"
    by (simp only: word_unat_eq_iff unat_page_off u p)
  have m22: "unat (w AND 0x3FFFFF :: u32) = unat w mod 4194304" for w
    unfolding low_mask by (simp add: unat_and_mask)
  have "unat ((va AND 0x3FFFFF) + of_nat i) = unat (va AND 0x3FFFFF) + i"
  proof (rule unat_less_of_nat_add)
    have "unat va mod 4194304 < 4194304" by simp
    then show "unat (va AND 0x3FFFFF) + i < 2 ^ LENGTH(32)" using i by (simp only: m22) simp
  qed
  then show "(va + of_nat i) AND 0x3FFFFF = (va AND 0x3FFFFF) + of_nat i"
    by (simp only: word_unat_eq_iff m22 u p)
qed

lemma translate_step:
  assumes "translate_user m pd va \<noteq> 0" "i < 4096 - unat va mod 4096"
  shows "translate_user m pd (va + of_nat i) = translate_user m pd va + of_nat i"
  using assms(1) by (simp add: translate_user_def va_off [OF assms(2)] Let_def add.assoc split: if_splits)

text \<open>Translation keeps the offset in the page, hence an address inside a mapped page is never null.\<close>

lemma translate_offset:
  assumes "translate_user m pd va \<noteq> 0"
  shows "unat (translate_user m pd va) mod 4096 = unat va mod 4096"
proof -
  have big: "(0xFFC00000 :: u32) = NOT (mask 22)" by (simp add: mask_eq_exp_minus_1 word_uint_eq_iff)
  have off: "unat ((e AND NOT (mask n)) + (va AND mask n)) mod 4096 = unat va mod 4096"
    if "n = 12 \<or> n = 22" for e :: u32 and n
  proof -
    have d: "4096 dvd (2 :: nat) ^ n" using that by auto
    have "unat ((e AND NOT (mask n)) + (va AND mask n)) mod 4096 =
        (unat e div 2 ^ n * 2 ^ n + unat va mod 2 ^ n) mod 4294967296 mod 4096"
      by (simp add: unat_word_ariths unat_and_not_mask unat_and_mask)
    also have "\<dots> = (unat e div 2 ^ n * 2 ^ n + unat va mod 2 ^ n) mod 4096"
      by (rule mod_mod_cancel) simp
    also have "\<dots> = unat va mod 2 ^ n mod 4096"
      using d by (simp add: mod_add_eq [symmetric] dvd_imp_mod_0)
    also have "\<dots> = unat va mod 4096" by (rule mod_mod_cancel [OF d])
    finally show ?thesis .
  qed
  show ?thesis
    using off [of 12] off [of 22] assms
    by (simp add: translate_user_def Let_def big frame_mask low_mask split: if_splits)
qed

lemma translate_step_nonzero:
  assumes "translate_user m pd va \<noteq> 0" "i < 4096 - unat va mod 4096"
  shows "translate_user m pd (va + of_nat i) \<noteq> 0"
proof -
  have "unat (translate_user m pd va) mod 4096 + i < 4096"
    using assms by (simp add: translate_offset)
  then have "unat (translate_user m pd va + of_nat i) = unat (translate_user m pd va) + i"
    by (rule unat_in_page)
  moreover have "0 < unat (translate_user m pd va)" using assms(1) by (simp add: unat_gt_0)
  ultimately show ?thesis unfolding translate_step [OF assms] by auto
qed

section \<open>Copying in\<close>

definition user_byte :: "mem \<Rightarrow> pager \<Rightarrow> u32 \<Rightarrow> u8 option" where
  "user_byte m pd va = (if translate_user m pd va = 0 then None else Some (m (translate_user m pd va)))"

lemma length_rd_bytes [simp]: "length (rd_bytes m a n) = n"
  by (simp add: rd_bytes_def)

lemma user_byte_page:
  assumes "translate_user m pd va \<noteq> 0" "n \<le> 4096 - unat va mod 4096" "i < n"
  shows "user_byte m pd (va + of_nat i) = Some (rd_bytes m (translate_user m pd va) n ! i)"
  using assms translate_step [of m pd va i] translate_step_nonzero [of m pd va i]
  by (simp add: user_byte_def rd_bytes_def)

text \<open>The bytes that a byte-wise copy would store before the first unmapped address.\<close>

definition user_prefix :: "mem \<Rightarrow> pager \<Rightarrow> u32 \<Rightarrow> nat \<Rightarrow> u8 list \<Rightarrow> bool" where
  "user_prefix m pd va n bs = (length bs \<le> n \<and>
     (\<forall>i < length bs. user_byte m pd (va + of_nat i) = Some (bs ! i)) \<and>
     (length bs < n \<longrightarrow> user_byte m pd (va + of_nat (length bs)) = None))"

lemma user_prefix_append:
  assumes "\<And>i. i < length as \<Longrightarrow> user_byte m pd (va + of_nat i) = Some (as ! i)" "length as \<le> n"
    "user_prefix m pd (va + of_nat (length as)) (n - length as) bs"
  shows "user_prefix m pd va n (as @ bs)"
proof -
  have "user_byte m pd (va + of_nat i) = Some ((as @ bs) ! i)" if "i < length as + length bs" for i
  proof (cases "i < length as")
    case False
    then have "va + of_nat i = va + of_nat (length as) + of_nat (i - length as)" by (simp add: of_nat_diff)
    with False that assms(3) show ?thesis by (simp only: user_prefix_def) (simp add: nth_append)
  qed (use assms(1) in \<open>simp add: nth_append\<close>)
  then show ?thesis using assms(2,3) by (auto simp: user_prefix_def add.assoc)
qed

lemma copy_from_loop_spec:
  "copy_from_loop m pd usrc len = (ok, bs) \<Longrightarrow>
     user_prefix m pd usrc (unat len) bs \<and> (ok \<longleftrightarrow> length bs = unat len)"
proof (induction m pd usrc len arbitrary: ok bs rule: copy_from_loop.induct)
  case (1 m pd usrc len)
  show ?case
  proof (cases "len = 0 \<or> translate_user m pd usrc = 0")
    case True
    with "1.prems" show ?thesis
      by (cases "len = 0") (auto simp: copy_from_loop.simps [of m pd usrc 0] copy_from_loop.simps [of m pd usrc len] user_prefix_def user_byte_def unat_gt_0)
  next
    case False
    define n where "n = chunk usrc len"
    obtain ok' bs' where r: "copy_from_loop m pd (usrc + n) (len - n) = (ok', bs')" by fastforce
    with "1.prems" False have e: "ok = ok'" "bs = rd_bytes m (translate_user m pd usrc) (unat n) @ bs'"
      by (auto simp: copy_from_loop.simps [of m pd usrc len] n_def [symmetric] Let_def)
    have nl: "unat n \<le> unat len" "unat n \<le> 4096 - unat usrc mod 4096" by (simp_all add: n_def unat_chunk)
    have "user_prefix m pd (usrc + n) (unat len - unat n) bs' \<and> (ok' \<longleftrightarrow> length bs' = unat len - unat n)"
      using "1.IH" [OF _ refl _ n_def] False r unat_len_chunk [of len usrc, folded n_def] by auto
    then show ?thesis
      using e nl user_byte_page [of m pd usrc "unat n"] False
      by (auto intro!: user_prefix_append)
  qed
qed

section \<open>Copying out\<close>

fun put_user :: "(u32 \<Rightarrow> u32) \<Rightarrow> u32 \<Rightarrow> u8 list \<Rightarrow> mem \<Rightarrow> mem" where
  "put_user tr va [] m = m"
| "put_user tr va (b # bs) m = put_user tr (va + 1) bs (m(tr va := b))"

lemma wr_bytes_Cons: "wr_bytes m a (b # bs) = wr_bytes (m(a := b)) (a + 1) bs"
proof -
  have "fold (\<lambda>i m. m(a + of_nat i := (b # bs) ! i)) (map Suc [0..<length bs]) m' =
      fold (\<lambda>i m. m(a + 1 + of_nat i := bs ! i)) [0..<length bs] m'" for m' :: mem
    by (simp add: fold_map o_def add.assoc del: map_Suc_upt)
  moreover have "[0..<length (b # bs)] = 0 # map Suc [0..<length bs]"
    by (simp add: map_Suc_upt upt_conv_Cons del: upt_Suc)
  ultimately show ?thesis unfolding wr_bytes_def by (simp only: fold_simps o_apply) simp
qed

lemma wr_bytes_Nil [simp]: "wr_bytes m a [] = m"
  by (simp add: wr_bytes_def)

lemma put_user_page:
  "(\<And>i. i < length bs \<Longrightarrow> tr (va + of_nat i) = a + of_nat i) \<Longrightarrow> put_user tr va bs m = wr_bytes m a bs"
proof (induction bs arbitrary: va a m)
  case (Cons b bs)
  have "tr (va + 1 + of_nat i) = a + 1 + of_nat i" if "i < length bs" for i
    using Cons.prems [of "Suc i"] that by (simp add: add.assoc)
  with Cons.IH [of "va + 1" "a + 1"] Cons.prems [of 0] show ?case by (simp add: wr_bytes_Cons)
qed simp

lemma put_user_append: "put_user tr va (as @ bs) m = put_user tr (va + of_nat (length as)) bs (put_user tr va as m)"
  by (induction as arbitrary: va m) (simp_all add: add.assoc)

lemma put_user_other:
  "(\<And>i. i < length bs \<Longrightarrow> tr (va + of_nat i) \<noteq> a) \<Longrightarrow> put_user tr va bs m a = m a"
proof (induction bs arbitrary: va m)
  case (Cons b bs)
  have "tr (va + 1 + of_nat i) \<noteq> a" if "i < length bs" for i
    using Cons.prems [of "Suc i"] that by (simp add: add.assoc)
  with Cons.IH Cons.prems [of 0] show ?case by simp
qed simp

lemma put_user_same:
  assumes "\<And>i j. i < length bs \<Longrightarrow> j < length bs \<Longrightarrow> tr (va + of_nat i) = tr (va + of_nat j) \<Longrightarrow> i = j" "k < length bs"
  shows "put_user tr va bs m (tr (va + of_nat k)) = bs ! k"
  using assms
proof (induction bs arbitrary: va m k)
  case (Cons b bs)
  have inj: "i = j" if "i < length bs" "j < length bs" "tr (va + 1 + of_nat i) = tr (va + 1 + of_nat j)" for i j
    using Cons.prems(1) [of "Suc i" "Suc j"] that by (simp add: add.assoc)
  show ?case
  proof (cases k)
    case 0
    have "tr (va + 1 + of_nat i) \<noteq> tr va" if "i < length bs" for i
      using Cons.prems(1) [of "Suc i" 0] that by (auto simp: add.assoc)
    then show ?thesis using 0 put_user_other [of bs tr "va + 1" "tr va"] by simp
  next
    case (Suc k')
    have "put_user tr (va + 1) bs (m(tr va := b)) (tr (va + 1 + of_nat k')) = bs ! k'"
      by (rule Cons.IH) (use inj Cons.prems(2) Suc in \<open>simp_all add: inj\<close>)
    with Suc show ?thesis by (simp add: add.assoc)
  qed
qed simp

text \<open>The bytes that hold the directory and its tables. Translation depends on nothing else.\<close>

definition tbl_bytes :: "mem \<Rightarrow> pager \<Rightarrow> u32 set" where
  "tbl_bytes m pd = {a. a AND 0xFFFFF000 = page_dir_phys pd \<or>
     (\<exists>i < 1024. is_table (get_pde m pd i) \<and> a AND 0xFFFFF000 = table_at m pd i)}"

lemma slot_bytes:
  assumes "page_al a" "i < 1024" "k < 4"
  shows "(slot a i + of_nat k) AND 0xFFFFF000 = a"
proof -
  have m: "unat (slot a i) mod 4096 = 4 * unat i"
    using assms unat_slot [OF assms(1,2)] by (auto simp: page_al_def word_less_nat_alt elim!: dvdE)
  have lt: "4 * unat i + k < 4096" using assms by (simp add: word_less_nat_alt)
  have "unat (slot a i + of_nat k) = unat (slot a i) + k"
    using m lt by (intro unat_in_page) simp
  then have "unat (slot a i + of_nat k) = unat a + (4 * unat i + k)" using unat_slot [OF assms(1,2)] by simp
  then have "unat (slot a i + of_nat k) div 4096 * 4096 = unat a"
    using assms(1) lt by (auto simp: page_al_def elim!: dvdE)
  then show ?thesis by (simp add: word_unat_eq_iff frame_mask unat_and_not_mask)
qed

lemma ld32_page_cong:
  assumes "page_al a" "i < 1024" "\<And>b. b AND 0xFFFFF000 = a \<Longrightarrow> m' b = m b"
  shows "ld32 m' (slot a i) = ld32 m (slot a i)"
  using assms(3) [OF slot_bytes [OF assms(1,2)], of 0] assms(3) [OF slot_bytes [OF assms(1,2)], of 1]
    assms(3) [OF slot_bytes [OF assms(1,2)], of 2] assms(3) [OF slot_bytes [OF assms(1,2)], of 3]
  by (simp add: ld32_def)

lemma translate_frame:
  assumes "page_al (page_dir_phys pd)" "\<And>a. a \<in> tbl_bytes m pd \<Longrightarrow> m' a = m a"
  shows "translate_user m' pd va = translate_user m pd va"
proof (rule translate_user_cong)
  show pde: "get_pde m' pd (drop_bit 22 va) = get_pde m pd (drop_bit 22 va)"
    unfolding get_pde_def by (rule ld32_page_cong) (use assms dir_index_less in \<open>auto simp: tbl_bytes_def\<close>)
  assume t: "is_table (get_pde m pd (drop_bit 22 va))"
  have "ld32 m' (slot (table_at m pd (drop_bit 22 va)) (drop_bit 12 va AND 0x3FF)) =
      ld32 m (slot (table_at m pd (drop_bit 22 va)) (drop_bit 12 va AND 0x3FF))"
  proof (rule ld32_page_cong [OF _ table_index_less])
    show "page_al (table_at m pd (drop_bit 22 va))" by (simp add: table_at_def page_al_frame)
    fix b assume "b AND 0xFFFFF000 = table_at m pd (drop_bit 22 va)"
    with t dir_index_less [of va] show "m' b = m b" by (intro assms(2)) (auto simp: tbl_bytes_def)
  qed
  with pde show "lookup m' pd va = lookup m pd va" by (simp add: lookup_def table_at_def)
qed

text \<open>User pages are not the directory or its tables.\<close>

definition tables_hidden :: "mem \<Rightarrow> pager \<Rightarrow> bool" where
  "tables_hidden m pd = (page_al (page_dir_phys pd) \<and>
     (\<forall>va. translate_user m pd va \<noteq> 0 \<longrightarrow> translate_user m pd va \<notin> tbl_bytes m pd))"

lemma copy_to_loop_spec:
  assumes "tables_hidden m0 pd" "unat len \<le> length s" "\<And>a. a \<in> tbl_bytes m0 pd \<Longrightarrow> m a = m0 a"
  shows "\<exists>ok k. copy_to_loop m pd udst s len = Inr (ok, put_user (translate_user m0 pd) udst (take k s) m) \<and>
     k \<le> unat len \<and> (ok \<longleftrightarrow> k = unat len) \<and> (\<forall>i < k. translate_user m0 pd (udst + of_nat i) \<noteq> 0) \<and>
     (\<not> ok \<longrightarrow> translate_user m0 pd (udst + of_nat k) = 0)"
  using assms
proof (induction m pd udst s len rule: copy_to_loop.induct)
  case (1 m pd udst s len)
  have tr: "translate_user m pd va = translate_user m0 pd va" for va
    using "1.prems" by (intro translate_frame) (auto simp: tables_hidden_def)
  let ?t = "translate_user m0 pd"
  show ?case
  proof (cases "len = 0 \<or> ?t udst = 0")
    case True
    then have "copy_to_loop m pd udst s len = Inr (len = 0, m)"
      by (subst copy_to_loop.simps) (auto simp: tr)
    moreover have "len = 0 \<longleftrightarrow> 0 = unat len" by (simp add: unat_eq_zero [symmetric])
    ultimately show ?thesis using True by (intro exI [of _ "len = 0"] exI [of _ 0]) auto
  next
    case False
    define n where "n = chunk udst len"
    define m1 where "m1 = wr_bytes m (?t udst) (take (unat n) s)"
    have n: "unat n \<le> unat len" "unat n \<le> 4096 - unat udst mod 4096" by (simp_all add: n_def unat_chunk)
    have step: "?t (udst + of_nat i) = ?t udst + of_nat i" "?t (udst + of_nat i) \<noteq> 0" if "i < unat n" for i
      using translate_step [of m0 pd udst i] translate_step_nonzero [of m0 pd udst i] False n that by simp_all
    have put: "m1 = put_user ?t udst (take (unat n) s) m"
      unfolding m1_def using step(1) by (intro put_user_page [symmetric]) simp
    have keep: "m1 a = m0 a" if "a \<in> tbl_bytes m0 pd" for a
    proof -
      have "m1 a = m a"
        unfolding put using step(2) "1.prems"(1) that
        by (intro put_user_other) (force simp: tables_hidden_def)
      with "1.prems"(3) [OF that] show ?thesis by simp
    qed
    have un: "unat (len - n) = unat len - unat n" using unat_len_chunk by (simp add: n_def)
    have eq: "copy_to_loop m pd udst s len = copy_to_loop m1 pd (udst + n) (drop (unat n) s) (len - n)"
      using False n "1.prems"(2) by (simp add: copy_to_loop.simps [of m pd udst s len] tr Let_def n_def [symmetric] m1_def)
    have "\<exists>ok k. copy_to_loop m1 pd (udst + n) (drop (unat n) s) (len - n) =
          Inr (ok, put_user ?t (udst + n) (take k (drop (unat n) s)) m1) \<and>
        k \<le> unat (len - n) \<and> (ok \<longleftrightarrow> k = unat (len - n)) \<and> (\<forall>i < k. ?t (udst + n + of_nat i) \<noteq> 0) \<and>
        (\<not> ok \<longrightarrow> ?t (udst + n + of_nat k) = 0)"
      unfolding m1_def
      by (rule "1.IH" [OF _ tr [symmetric] _ n_def])
        (use False n "1.prems" un keep in \<open>auto simp: m1_def tr\<close>)
    then obtain ok k where r: "copy_to_loop m1 pd (udst + n) (drop (unat n) s) (len - n) =
          Inr (ok, put_user ?t (udst + n) (take k (drop (unat n) s)) m1)"
        "k \<le> unat len - unat n" "ok \<longleftrightarrow> k = unat len - unat n" "\<forall>i < k. ?t (udst + n + of_nat i) \<noteq> 0"
        "\<not> ok \<longrightarrow> ?t (udst + n + of_nat k) = 0"
      unfolding un by blast
    have whole: "put_user ?t (udst + n) (take k (drop (unat n) s)) m1 = put_user ?t udst (take (unat n + k) s) m"
      using n "1.prems"(2) by (simp add: put take_add put_user_append min_absorb2)
    have nz: "?t (udst + of_nat i) \<noteq> 0" if "i < unat n + k" for i
    proof (cases "i < unat n")
      case False
      then have "udst + of_nat i = udst + n + of_nat (i - unat n)" by (simp add: of_nat_diff)
      with r(4) False that show ?thesis by (simp only:) simp
    qed (use step in blast)
    show ?thesis
      using r n nz unfolding eq whole by (intro exI [of _ ok] exI [of _ "unat n + k"]) (auto simp: add.assoc)
  qed
qed

section \<open>Copying strings\<close>

lemma str_chunk_spec:
  "str_chunk cs = (z, bs) \<Longrightarrow>
     (if 0 \<in> set cs then z \<and> bs = takeWhile (\<lambda>c. c \<noteq> 0) cs @ [0] else \<not> z \<and> bs = cs)"
  by (induction cs arbitrary: z bs) (auto split: prod.splits if_splits)

text \<open>The loop stores a prefix of the user's bytes. It ends in one of three ways: at the terminator, with
  the buffer full and a terminator added, or in front of an unmapped byte.\<close>

definition str_result :: "mem \<Rightarrow> pager \<Rightarrow> u32 \<Rightarrow> nat \<Rightarrow> nat \<Rightarrow> bool \<Rightarrow> u8 list \<Rightarrow> bool" where
  "str_result m pd va room dn ok bs = (\<exists>cs. 0 \<notin> set cs \<and> length cs \<le> room \<and>
     (\<forall>i < length cs. user_byte m pd (va + of_nat i) = Some (cs ! i)) \<and>
     (ok \<and> bs = cs @ [0] \<and> (length cs = room \<or> user_byte m pd (va + of_nat (length cs)) = Some 0) \<or>
      (ok \<longleftrightarrow> 0 < dn + length cs) \<and> bs = cs \<and> length cs < room \<and> user_byte m pd (va + of_nat (length cs)) = None))"

lemma str_result_append:
  assumes "0 \<notin> set as" "\<And>i. i < length as \<Longrightarrow> user_byte m pd (va + of_nat i) = Some (as ! i)" "length as \<le> room"
    "str_result m pd (va + of_nat (length as)) (room - length as) (dn + length as) ok bs"
  shows "str_result m pd va room dn ok (as @ bs)"
proof -
  from assms(4) obtain cs where cs: "0 \<notin> set cs" "length cs \<le> room - length as"
      "\<forall>i < length cs. user_byte m pd (va + of_nat (length as) + of_nat i) = Some (cs ! i)"
      "ok \<and> bs = cs @ [0] \<and> (length cs = room - length as \<or> user_byte m pd (va + of_nat (length as) + of_nat (length cs)) = Some 0) \<or>
      (ok \<longleftrightarrow> 0 < dn + length as + length cs) \<and> bs = cs \<and> length cs < room - length as \<and>
        user_byte m pd (va + of_nat (length as) + of_nat (length cs)) = None"
    unfolding str_result_def by blast
  have "user_byte m pd (va + of_nat i) = Some ((as @ cs) ! i)" if "i < length as + length cs" for i
  proof (cases "i < length as")
    case False
    then have "va + of_nat i = va + of_nat (length as) + of_nat (i - length as)" by (simp add: of_nat_diff)
    with False that cs(3) show ?thesis by (simp only:) (simp add: nth_append)
  qed (use assms(2) in \<open>simp add: nth_append\<close>)
  then show ?thesis
    unfolding str_result_def using assms(1,3) cs by (intro exI [of _ "as @ cs"]) (auto simp: add.assoc)
qed

lemma copy_str_loop_spec:
  "copy_str_loop m pd usrc mx dn = (ok, bs) \<Longrightarrow> dn \<le> mx - 1 \<Longrightarrow>
     str_result m pd (usrc + dn) (unat (mx - 1) - unat dn) (unat dn) ok bs"
proof (induction m pd usrc mx dn arbitrary: ok bs rule: copy_str_loop.induct)
  case (1 m pd usrc mx dn)
  show ?case
  proof (cases "dn < mx - 1")
    case False
    with "1.prems" have "dn = mx - 1" "ok" "bs = [0]"
      by (auto simp: copy_str_loop.simps [of m pd usrc mx dn])
    then show ?thesis unfolding str_result_def by (intro exI [of _ "[]"]) simp
  next
    case lt: True
    let ?va = "usrc + dn"
    have room: "unat (mx - 1 - dn) = unat (mx - 1) - unat dn" using lt by (simp add: unat_sub)
    show ?thesis
    proof (cases "translate_user m pd ?va = 0")
      case True
      then have "(ok \<longleftrightarrow> 0 < unat dn) \<and> bs = []"
        using "1.prems"(1) lt by (auto simp: copy_str_loop.simps [of m pd usrc mx dn] Let_def word_less_nat_alt)
      then show ?thesis
        unfolding str_result_def using True lt
        by (intro exI [of _ "[]"]) (simp add: user_byte_def word_less_nat_alt)
    next
      case False
      define n where "n = chunk ?va (mx - 1 - dn)"
      define cs where "cs = rd_bytes m (translate_user m pd ?va) (unat n)"
      have n: "unat n \<le> unat (mx - 1) - unat dn" "unat n \<le> 4096 - unat ?va mod 4096" by (simp_all add: n_def unat_chunk room)
      have ub: "user_byte m pd (?va + of_nat i) = Some (cs ! i)" if "i < length cs" for i
        using user_byte_page [OF False n(2)] that by (simp add: cs_def)
      obtain z b where sc: "str_chunk cs = (z, b)" by fastforce
      have eq: "copy_str_loop m pd usrc mx dn = (if z then (True, b) else
          case copy_str_loop m pd usrc mx (dn + n) of (ok, bs') \<Rightarrow> (ok, b @ bs'))"
        using lt False sc by (simp add: copy_str_loop.simps [of m pd usrc mx dn] Let_def n_def [symmetric] cs_def)
      show ?thesis
      proof (cases "0 \<in> set cs")
        case True
        let ?w = "takeWhile (\<lambda>c. c \<noteq> 0) cs"
        have lw: "length ?w < length cs"
          using True length_takeWhile_le [of "\<lambda>c. c \<noteq> 0" cs] takeWhile_eq_take [of "\<lambda>c. c \<noteq> 0" cs]
          by (metis (mono_tags, lifting) le_neq_implies_less set_takeWhileD take_all_iff order_refl)
        then have w: "length ?w < length cs" "cs ! length ?w = 0" "\<And>i. i < length ?w \<Longrightarrow> ?w ! i = cs ! i"
          using nth_length_takeWhile [of "\<lambda>c. c \<noteq> 0" cs] by (auto simp: takeWhile_nth)
        have "ok" "bs = ?w @ [0]" using str_chunk_spec [OF sc] True eq "1.prems"(1) by auto
        moreover have "0 \<notin> set ?w" by (auto dest: set_takeWhileD)
        ultimately show ?thesis
          unfolding str_result_def using w ub n by (intro exI [of _ ?w]) (auto simp: cs_def)
      next
        case nz: False
        then obtain bs' where r: "copy_str_loop m pd usrc mx (dn + n) = (ok, bs')" "bs = cs @ bs'"
          using str_chunk_spec [OF sc] eq "1.prems"(1) by (auto split: prod.splits)
        have dn: "unat (dn + n) = unat dn + unat n"
          using n(1) lt unsigned_less [of "mx - 1", where 'a = nat] by (simp add: unat_word_ariths word_less_nat_alt)
        have "str_result m pd (usrc + (dn + n)) (unat (mx - 1) - unat (dn + n)) (unat (dn + n)) ok bs'"
          by (rule "1.IH" [OF lt refl refl False n_def]) (use r n dn sc nz str_chunk_spec [OF sc] lt in \<open>auto simp: cs_def word_le_nat_alt word_less_nat_alt\<close>)
        then show ?thesis
          unfolding r(2) using nz ub n dn by (intro str_result_append) (auto simp: cs_def add.assoc)
      qed
    qed
  qed
qed

section \<open>A sample address space\<close>

text \<open>One user-accessible 4 MiB page at 0x400000, backed by physical memory from 0x800000 that holds \<open>0x41\<close>.\<close>

definition demo_ram :: mem where
  "demo_ram a = (if a = 0x200004 then 0x87 else if a = 0x200006 then 0x80 else if 0x800000 \<le> a then 0x41 else 0)"

lemma demo_dir: "page_dir_phys demo_pg = 0x200000"
  by (simp add: demo_pg_def)

lemma demo_dir_al: "page_al (page_dir_phys demo_pg)"
  by (simp add: page_al_def demo_pg_def)

lemma demo_pde:
  assumes "i < 1024"
  shows "get_pde demo_ram demo_pg i = (if i = 1 then 0x800087 else 0)"
proof (cases "i = 1")
  case True
  have "ld32 demo_ram 0x200004 = 0x800087" by (simp add: ld32_def demo_ram_def word_cat_eq word_uint_eq_iff)
  then show ?thesis using True by (simp add: get_pde_def slot_def demo_pg_def)
next
  case False
  have u: "unat (slot 0x200000 i + of_nat k) = 0x200000 + 4 * unat i + k" if "k < 4" for k
  proof -
    have s: "unat (slot 0x200000 i) = 0x200000 + 4 * unat i"
      using unat_slot [OF demo_dir_al assms] by (simp add: demo_pg_def)
    then show ?thesis using that assms
      by (subst unat_less_of_nat_add) (simp_all add: word_less_nat_alt)
  qed
  have "unat i \<noteq> 1" using False by (metis unat_1 word_unat_eq_iff)
  then have "demo_ram (slot 0x200000 i + of_nat k) = 0" if "k < 4" for k
    using u [OF that] assms that by (auto simp: demo_ram_def word_unat_eq_iff word_le_nat_alt word_less_nat_alt)
  from this [of 0] this [of 1] this [of 2] this [of 3]
  have "ld32 demo_ram (slot 0x200000 i) = ld32 (\<lambda>_. 0) (slot 0x200000 i)" by (simp only: ld32_def) simp
  then show ?thesis using False by (simp add: get_pde_def demo_pg_def)
qed

lemma demo_translate: "translate_user demo_ram demo_pg va = (if drop_bit 22 va = 1 then 0x800000 + (va AND 0x3FFFFF) else 0)"
proof -
  have b: "bit (0x800087 :: u32) 0" "bit (0x800087 :: u32) 2" "bit (0x800087 :: u32) 7"
    by (simp_all add: bit_numeral_word_iff)
  have "(0x800087 :: u32) AND 0xFFC00000 = 0x800000" by simp
  with b show ?thesis by (simp add: translate_user_def demo_pde [OF dir_index_less] Let_def)
qed

lemma demo_hidden: "tables_hidden demo_ram demo_pg"
proof -
  have t: "a \<in> tbl_bytes demo_ram demo_pg \<Longrightarrow> a AND 0xFFFFF000 = 0x200000" for a
    using demo_dir by (auto simp: tbl_bytes_def demo_pde is_table_def bit_numeral_word_iff split: if_splits)
  have "0x800000 + (va AND 0x3FFFFF) \<notin> tbl_bytes demo_ram demo_pg" for va
  proof
    assume "0x800000 + (va AND 0x3FFFFF) \<in> tbl_bytes demo_ram demo_pg"
    with t have "unat (0x800000 + (va AND 0x3FFFFF) AND 0xFFFFF000) = 0x200000" by simp
    then have "unat (0x800000 + (va AND 0x3FFFFF)) div 4096 * 4096 = 0x200000"
      by (simp add: frame_mask unat_and_not_mask)
    then have "unat (0x800000 + (va AND 0x3FFFFF)) < 0x201000" by linarith
    moreover have "unat (va AND 0x3FFFFF) < 0x400000" unfolding low_mask by (simp add: unat_and_mask)
    ultimately show False by (simp add: unat_word_ariths)
  qed
  then show ?thesis by (simp add: tables_hidden_def demo_dir_al demo_translate)
qed

section \<open>Properties\<close>

text \<open>C9. \<open>copy_from_user\<close> with a large enough kernel buffer never faults; it stores exactly the bytes a byte-wise
  read through the user's directory gives, stops in front of the first unmapped byte, leaves the rest of the
  buffer alone, and reports success exactly if all \<open>len\<close> bytes were copied.\<close>

theorem copy_from_user_exact:
  assumes "unat len \<le> length d"
  shows "\<exists>ok bs. copy_from_user m (Some pg) (Some d) usrc len = Inr (ok, Some (bs @ drop (length bs) d)) \<and>
     (ok \<longleftrightarrow> length bs = unat len) \<and> length bs \<le> unat len \<and>
     (\<forall>i < length bs. user_byte m pg (usrc + of_nat i) = Some (bs ! i)) \<and>
     (\<not> ok \<longrightarrow> user_byte m pg (usrc + of_nat (length bs)) = None)"
proof -
  obtain ok bs where r: "copy_from_loop m pg usrc len = (ok, bs)" by fastforce
  with copy_from_loop_spec [OF r] assms show ?thesis
    by (intro exI [of _ ok] exI [of _ bs]) (auto simp: copy_from_user_def user_prefix_def)
qed

theorem copy_from_user_exact_witness:
  "\<exists>ok bs. copy_from_user demo_ram (Some demo_pg) (Some [0, 0, 0]) 0x400000 2 = Inr (ok, Some (bs @ drop (length bs) [0, 0, 0])) \<and>
     length bs \<le> 2"
  using copy_from_user_exact [of 2 "[0, 0, 0]" demo_ram demo_pg "0x400000"] by auto

text \<open>C18. What \<open>copy_to_user\<close> wrote, \<open>copy_from_user\<close> reads back: if the pages of the range are mapped to
  different frames and none of them holds the directory or its tables, a successful copy out followed by a copy
  in of the same range returns the same bytes, and no byte outside the translated range changed.\<close>

theorem copy_user_roundtrip:
  assumes "tables_hidden m pg" "unat len \<le> length s" "unat len \<le> length d"
    "\<And>i j. i < unat len \<Longrightarrow> j < unat len \<Longrightarrow>
       translate_user m pg (va + of_nat i) = translate_user m pg (va + of_nat j) \<Longrightarrow> i = j"
    "copy_to_user m (Some pg) va (Some s) len = Inr (True, m')"
  shows "copy_from_user m' (Some pg) (Some d) va len = Inr (True, Some (take (unat len) s @ drop (unat len) d)) \<and>
    (\<forall>a. a \<notin> (\<lambda>i. translate_user m pg (va + of_nat i)) ` {..<unat len} \<longrightarrow> m' a = m a)"
proof -
  let ?t = "translate_user m pg"
  obtain k where r: "m' = put_user ?t va (take k s) m" "k = unat len" "\<forall>i < k. ?t (va + of_nat i) \<noteq> 0"
    using copy_to_loop_spec [OF assms(1,2), of m va] assms(5) by (auto simp: copy_to_user_def)
  have other: "m' a = m a" if "a \<notin> (\<lambda>i. ?t (va + of_nat i)) ` {..<unat len}" for a
    unfolding r(1) by (rule put_user_other) (use that r(2) in auto)
  have tr: "translate_user m' pg w = ?t w" for w
  proof (rule translate_frame)
    show "page_al (page_dir_phys pg)" using assms(1) by (simp add: tables_hidden_def)
    fix a assume "a \<in> tbl_bytes m pg"
    then show "m' a = m a" using assms(1) r by (intro other) (force simp: tables_hidden_def)
  qed
  have rd: "user_byte m' pg (va + of_nat i) = Some (s ! i)" if "i < unat len" for i
  proof -
    have "m' (?t (va + of_nat i)) = take k s ! i"
      unfolding r(1) using assms(2,4) r(2) that by (intro put_user_same) auto
    then show ?thesis using r(2,3) that by (simp add: user_byte_def tr)
  qed
  obtain ok bs where c: "copy_from_user m' (Some pg) (Some d) va len = Inr (ok, Some (bs @ drop (length bs) d))"
      "ok \<longleftrightarrow> length bs = unat len" "length bs \<le> unat len"
      "\<forall>i < length bs. user_byte m' pg (va + of_nat i) = Some (bs ! i)"
      "\<not> ok \<longrightarrow> user_byte m' pg (va + of_nat (length bs)) = None"
    using copy_from_loop_spec [of m' pg va len] assms(3)
    by (cases "copy_from_loop m' pg va len") (auto simp: copy_from_user_def user_prefix_def)
  then have "length bs = unat len" using rd [of "length bs"] by (metis le_neq_implies_less option.distinct(1))
  moreover from this have "bs = take (unat len) s"
    using c(4) rd assms(2) by (intro nth_equalityI) auto
  ultimately show ?thesis using c(1,2) other by auto
qed

lemma demo_copy_out:
  "copy_to_user demo_ram (Some demo_pg) 0x400000 (Some [1, 2]) 2 = Inr (True, demo_ram(0x800000 := 1, 0x800001 := 2))"
proof -
  have c: "chunk 0x400000 2 = 2" by (simp add: word_unat_eq_iff unat_chunk)
  have w: "wr_bytes demo_ram 0x800000 [1, 2] = demo_ram(0x800000 := 1, 0x800001 := 2)" by (simp add: wr_bytes_Cons)
  have t: "translate_user demo_ram demo_pg 0x400000 = 0x800000" by (simp add: demo_translate)
  have z: "copy_to_loop m demo_pg va [] 0 = Inr (True, m)" for m va by (subst copy_to_loop.simps) simp
  have "copy_to_loop demo_ram demo_pg 0x400000 [1, 2] 2 = Inr (True, demo_ram(0x800000 := 1, 0x800001 := 2))"
    by (subst copy_to_loop.simps) (simp add: t c w z del: fun_upd_apply)
  then show ?thesis by (simp add: copy_to_user_def)
qed

theorem copy_user_roundtrip_witness:
  "copy_from_user (demo_ram(0x800000 := 1, 0x800001 := 2)) (Some demo_pg) (Some [0, 0, 9]) 0x400000 2 = Inr (True, Some [1, 2, 9])"
proof -
  have two: "i < unat (2 :: u32) \<longleftrightarrow> i = 0 \<or> i = 1" for i by auto
  have d: "drop_bit 22 (0x400000 :: u32) = 1" "drop_bit 22 (0x400001 :: u32) = 1" by simp_all
  have "i = j" if "i < unat (2 :: u32)" "j < unat (2 :: u32)"
      "translate_user demo_ram demo_pg (0x400000 + of_nat i) = translate_user demo_ram demo_pg (0x400000 + of_nat j)" for i j
    using that unfolding two by (auto simp: demo_translate d)
  note rt = copy_user_roundtrip [OF demo_hidden _ _ this demo_copy_out, THEN conjunct1]
  have "unat (2 :: u32) \<le> length [1 :: u8, 2]" "unat (2 :: u32) \<le> length [0 :: u8, 0, 9]" by simp_all
  then have "copy_from_user (demo_ram(0x800000 := 1, 0x800001 := 2)) (Some demo_pg) (Some [0, 0, 9]) 0x400000 2 =
      Inr (True, Some (take (unat (2 :: u32)) [1, 2] @ drop (unat (2 :: u32)) [0, 0, 9]))"
    by (rule rt)
  then show ?thesis by (simp del: fun_upd_apply)
qed

text \<open>\<open>copy_str_from_user\<close> with a buffer of \<open>max\<close> bytes never faults and stores at most \<open>max\<close> bytes: the
  user's characters up to and including the terminator; or the first \<open>max - 1\<close> characters and a terminator; or,
  when it runs into an unmapped byte, the characters in front of it without any terminator, with success reported
  if there was at least one.\<close>

theorem copy_str_from_user_result:
  assumes "mx \<noteq> 0" "unat mx \<le> length d"
  shows "\<exists>ok bs. copy_str_from_user m (Some pg) (Some d) usrc mx = Inr (ok, Some (bs @ drop (length bs) (d[0 := 0]))) \<and>
     length bs \<le> unat mx \<and> str_result m pg usrc (unat mx - 1) 0 ok bs"
proof -
  obtain ok bs where r: "copy_str_loop m pg usrc mx 0 = (ok, bs)" by fastforce
  have u: "unat (mx - 1) = unat mx - 1" "0 < unat mx" using assms(1) by (simp_all add: unat_minus_one unat_gt_0)
  have s: "str_result m pg usrc (unat mx - 1) 0 ok bs" using copy_str_loop_spec [OF r] u by simp
  then have "length bs \<le> unat mx" using u unfolding str_result_def by auto
  with s r assms u show ?thesis
    by (intro exI [of _ ok] exI [of _ bs]) (auto simp: copy_str_from_user_def Let_def)
qed

theorem copy_str_from_user_result_witness:
  "\<exists>ok bs. copy_str_from_user demo_ram (Some demo_pg) (Some [9, 9, 9, 9]) 0x400000 4 =
      Inr (ok, Some (bs @ drop (length bs) ([9, 9, 9, 9][0 := 0]))) \<and> length bs \<le> 4"
  using copy_str_from_user_result [of 4 "[9, 9, 9, 9]" demo_ram demo_pg "0x400000"] by auto

text \<open>A user string of \<open>k > 0\<close> characters that ends at the edge of mapped memory without a terminator is
  accepted: the call returns true, and the kernel buffer holds those characters followed by what it held before,
  with no terminator of the call's own.\<close>

theorem copy_str_unterminated:
  assumes "0 < length cs" "0 \<notin> set cs" "length cs < unat mx - 1" "unat mx \<le> length d"
    "\<And>i. i < length cs \<Longrightarrow> user_byte m pg (usrc + of_nat i) = Some (cs ! i)"
    "user_byte m pg (usrc + of_nat (length cs)) = None"
  shows "copy_str_from_user m (Some pg) (Some d) usrc mx = Inr (True, Some (cs @ drop (length cs) d))"
proof -
  obtain ok bs where r: "copy_str_loop m pg usrc mx 0 = (ok, bs)" by fastforce
  have mx: "mx \<noteq> 0" using assms(3) by auto
  have u: "unat (mx - 1) = unat mx - 1" using mx by (simp add: unat_minus_one)
  from copy_str_loop_spec [OF r] u
  obtain es where es: "0 \<notin> set es" "\<forall>i < length es. user_byte m pg (usrc + of_nat i) = Some (es ! i)"
      "ok \<and> bs = es @ [0] \<and> (length es = unat mx - 1 \<or> user_byte m pg (usrc + of_nat (length es)) = Some 0) \<or>
      (ok \<longleftrightarrow> 0 < length es) \<and> bs = es \<and> user_byte m pg (usrc + of_nat (length es)) = None"
    by (auto simp: str_result_def)
  have le: "length es \<le> length cs" using es(2) assms(6) by (metis not_le option.distinct(1))
  have "length es = length cs"
  proof (rule ccontr)
    assume "length es \<noteq> length cs"
    with le have lt: "length es < length cs" by simp
    with assms(5) have "user_byte m pg (usrc + of_nat (length es)) = Some (cs ! length es)" by simp
    moreover have "cs ! length es \<noteq> 0" using lt assms(2) by (metis nth_mem)
    ultimately show False using es(3) lt assms(3) by auto
  qed
  moreover from this have "es = cs" using es(2) assms(5) by (intro nth_equalityI) auto
  moreover have "user_byte m pg (usrc + of_nat (length es)) \<noteq> Some 0" using calculation assms(6) by simp
  ultimately have "ok" "bs = cs" using es(3) assms(1,3) by auto
  moreover have "drop (length cs) (d[0 := 0]) = drop (length cs) d" using assms(1) by (simp add: drop_update_cancel)
  ultimately show ?thesis
    using r mx assms(3,4) by (auto simp: copy_str_from_user_def Let_def)
qed

theorem copy_str_unterminated_witness:
  "copy_str_from_user demo_ram (Some demo_pg) (Some [1, 2, 3, 4, 5, 6, 7, 8]) 0x7FFFFE 8 =
     Inr (True, Some [0x41, 0x41, 3, 4, 5, 6, 7, 8])"
proof -
  have d: "drop_bit 22 (0x7FFFFE :: u32) = 1" "drop_bit 22 (0x7FFFFF :: u32) = 1" "drop_bit 22 (0x800000 :: u32) \<noteq> 1"
    by simp_all
  have "user_byte demo_ram demo_pg (0x7FFFFE + of_nat i) = Some ([0x41, 0x41] ! i)" if "i < length [0x41 :: u8, 0x41]" for i
    using that less_2_cases [of i] by (auto simp: user_byte_def demo_translate d demo_ram_def)
  moreover have "user_byte demo_ram demo_pg (0x7FFFFE + of_nat (length [0x41 :: u8, 0x41])) = None"
    by (simp add: user_byte_def demo_translate d)
  ultimately show ?thesis
    using copy_str_unterminated [of "[0x41, 0x41]" 8 "[1, 2, 3, 4, 5, 6, 7, 8]" demo_ram demo_pg "0x7FFFFE"] by simp
qed

end
