(* ===== verification/XE_Vfs.thy ===== *)
theory XE_Vfs
  imports XE_Prelude "HOL-Library.Sublist"
begin

text \<open>
  \<^verbatim>\<open>src/src/fs/vfs.cpp\<close>, \<^verbatim>\<open>vfs.h\<close> and \<^verbatim>\<open>src/src/lib/strutil.cpp\<close>: the mount table, path resolution and
  the dispatch of file operations. A \<open>Filesystem\<close> object is a record of operations on the state \<open>'s\<close>
  of the machine, with \<open>None\<close> for an operation that never returns or whose behaviour is undefined; a mount table entry names its object by an identifier \<open>'f\<close>, which stands for the
  pointer. The lemmas characterise resolution as a longest-prefix search.
\<close>

section \<open>Case-insensitive comparison\<close>

definition upcase :: "u8 \<Rightarrow> u8" where
  "upcase c = (if 0x61 \<le> c \<and> c \<le> 0x7A then c - 32 else c)"

fun strcmp_ci :: "cstr \<Rightarrow> cstr \<Rightarrow> int" where
  "strcmp_ci (a # as) (b # bs) =
     (if upcase a \<noteq> upcase b then uint (upcase a) - uint (upcase b) else strcmp_ci as bs)"
| "strcmp_ci as bs = uint (chr_at as 0) - uint (chr_at bs 0)"

fun strncmp_ci :: "cstr \<Rightarrow> cstr \<Rightarrow> nat \<Rightarrow> int" where
  "strncmp_ci as bs 0 = 0"
| "strncmp_ci as bs (Suc n) =
     (let ca = upcase (chr_at as 0); cb = upcase (chr_at bs 0) in
      if ca \<noteq> cb then uint ca - uint cb
      else if chr_at as 0 = 0 \<or> chr_at bs 0 = 0 then 0
      else strncmp_ci (tl as) (tl bs) n)"

section \<open>Mount table\<close>

definition VFS_MAX_MOUNTS :: nat where "VFS_MAX_MOUNTS = 4"

record DirEntry =
  is_dir :: int
  de_size :: u32
  de_name :: cstr

record 's Filesystem =
  fs_open :: "cstr \<Rightarrow> u8 list \<Rightarrow> u32 \<Rightarrow> 's \<Rightarrow> ((int \<times> u8 list) \<times> 's) option"
  fs_write :: "cstr \<Rightarrow> u8 list \<Rightarrow> u32 \<Rightarrow> 's \<Rightarrow> (int \<times> 's) option"
  fs_remove :: "cstr \<Rightarrow> 's \<Rightarrow> (int \<times> 's) option"
  fs_stat :: "cstr \<Rightarrow> int \<Rightarrow> 's \<Rightarrow> ((int \<times> int) \<times> 's) option"
  fs_mkdir :: "cstr \<Rightarrow> 's \<Rightarrow> (int \<times> 's) option"
  fs_rmdir :: "cstr \<Rightarrow> 's \<Rightarrow> (int \<times> 's) option"
  fs_rename :: "cstr \<Rightarrow> cstr \<Rightarrow> 's \<Rightarrow> (int \<times> 's) option"
  fs_dir :: "cstr \<Rightarrow> 's \<Rightarrow> (int \<times> 's) option"
  fs_list :: "cstr \<Rightarrow> u32 \<Rightarrow> 's \<Rightarrow> ((int \<times> DirEntry list) \<times> 's) option"

text \<open>The default of \<open>Filesystem::list\<close>.\<close>

definition default_list :: "cstr \<Rightarrow> u32 \<Rightarrow> 's \<Rightarrow> ((int \<times> DirEntry list) \<times> 's) option" where
  "default_list path mx s = Some ((- 1, []), s)"

record 'f mount_entry =
  mount_point :: cstr
  mfs :: "'f option"

record 'f vfs =
  g_mounts :: "'f mount_entry list"
  g_num_mounts :: nat

definition vfs_init :: "'f vfs" where
  "vfs_init = \<lparr>g_mounts = replicate VFS_MAX_MOUNTS \<lparr>mount_point = [], mfs = None\<rparr>, g_num_mounts = 0\<rparr>"

definition vfs_mount :: "cstr option \<Rightarrow> 'f option \<Rightarrow> 'f vfs \<Rightarrow> int \<times> 'f vfs" where
  "vfs_mount mp fs v =
     (case (mp, fs) of
        (Some p, Some f) \<Rightarrow>
          if g_num_mounts v \<ge> VFS_MAX_MOUNTS then (- 1, v)
          else (0, v\<lparr>g_mounts := (g_mounts v)[g_num_mounts v := \<lparr>mount_point = take 15 p, mfs = Some f\<rparr>],
                     g_num_mounts := g_num_mounts v + 1\<rparr>)
      | _ \<Rightarrow> (- 1, v))"

definition slash :: u8 where "slash = 0x2F"

text \<open>The inner loop: how far a mount point and a path agree.\<close>

fun match_len :: "cstr \<Rightarrow> cstr \<Rightarrow> nat" where
  "match_len (m # ms) (p # ps) = (if m = p then Suc (match_len ms ps) else 0)"
| "match_len ms ps = 0"

definition best_step :: "cstr \<Rightarrow> 'f mount_entry \<Rightarrow> 'f option \<times> nat \<Rightarrow> 'f option \<times> nat" where
  "best_step path m b =
     (let j = match_len (mount_point m) path in
      if j = length (mount_point m) \<and> j > snd b then (mfs m, j) else b)"

definition active :: "'f vfs \<Rightarrow> 'f mount_entry list" where
  "active v = take (g_num_mounts v) (g_mounts v)"

definition vfs_resolve :: "'f vfs \<Rightarrow> cstr option \<Rightarrow> ('f \<times> cstr) option" where
  "vfs_resolve v path =
     (case path of None \<Rightarrow> None
      | Some p \<Rightarrow>
          if chr_at p 0 \<noteq> slash then
            (case find (\<lambda>m. mount_point m = [slash]) (active v) of
               None \<Rightarrow> None
             | Some m \<Rightarrow> map_option (\<lambda>f. (f, take 127 p)) (mfs m))
          else
            (case fold (best_step p) (active v) (None, 0) of (best_fs, best_len) \<Rightarrow>
               map_option (\<lambda>f. (f, take 127 (dropWhile (\<lambda>c. c = slash) (drop best_len p)))) best_fs))"

section \<open>Dispatch\<close>

definition vfs_open :: "('f \<Rightarrow> 's Filesystem) \<Rightarrow> 'f vfs \<Rightarrow> cstr option \<Rightarrow> u8 list \<Rightarrow> u32 \<Rightarrow> 's \<Rightarrow> ((int \<times> u8 list) \<times> 's) option" where
  "vfs_open ops v path buf max_sz s =
     (case vfs_resolve v path of None \<Rightarrow> Some ((- 1, buf), s) | Some (fs, rel) \<Rightarrow> fs_open (ops fs) rel buf max_sz s)"

definition vfs_write :: "('f \<Rightarrow> 's Filesystem) \<Rightarrow> 'f vfs \<Rightarrow> cstr option \<Rightarrow> u8 list \<Rightarrow> u32 \<Rightarrow> 's \<Rightarrow> (int \<times> 's) option" where
  "vfs_write ops v path buf sz s =
     (case vfs_resolve v path of None \<Rightarrow> Some (- 1, s) | Some (fs, rel) \<Rightarrow> fs_write (ops fs) rel buf sz s)"

definition vfs_remove :: "('f \<Rightarrow> 's Filesystem) \<Rightarrow> 'f vfs \<Rightarrow> cstr option \<Rightarrow> 's \<Rightarrow> (int \<times> 's) option" where
  "vfs_remove ops v path s =
     (case vfs_resolve v path of None \<Rightarrow> Some (- 1, s) | Some (fs, rel) \<Rightarrow> fs_remove (ops fs) rel s)"

definition vfs_stat :: "('f \<Rightarrow> 's Filesystem) \<Rightarrow> 'f vfs \<Rightarrow> cstr option \<Rightarrow> int \<Rightarrow> 's \<Rightarrow> ((int \<times> int) \<times> 's) option" where
  "vfs_stat ops v path isd s =
     (case vfs_resolve v path of None \<Rightarrow> Some ((- 1, isd), s) | Some (fs, rel) \<Rightarrow> fs_stat (ops fs) rel isd s)"

definition vfs_mkdir :: "('f \<Rightarrow> 's Filesystem) \<Rightarrow> 'f vfs \<Rightarrow> cstr option \<Rightarrow> 's \<Rightarrow> (int \<times> 's) option" where
  "vfs_mkdir ops v path s =
     (case vfs_resolve v path of None \<Rightarrow> Some (- 1, s) | Some (fs, rel) \<Rightarrow> fs_mkdir (ops fs) rel s)"

definition vfs_rmdir :: "('f \<Rightarrow> 's Filesystem) \<Rightarrow> 'f vfs \<Rightarrow> cstr option \<Rightarrow> 's \<Rightarrow> (int \<times> 's) option" where
  "vfs_rmdir ops v path s =
     (case vfs_resolve v path of None \<Rightarrow> Some (- 1, s) | Some (fs, rel) \<Rightarrow> fs_rmdir (ops fs) rel s)"

definition vfs_rename :: "('f \<Rightarrow> 's Filesystem) \<Rightarrow> 'f vfs \<Rightarrow> cstr option \<Rightarrow> cstr option \<Rightarrow> 's \<Rightarrow> (int \<times> 's) option" where
  "vfs_rename ops v old_path new_path s =
     (case vfs_resolve v old_path of None \<Rightarrow> Some (- 1, s)
      | Some (fs, rel_old) \<Rightarrow>
          (case vfs_resolve v new_path of None \<Rightarrow> Some (- 1, s)
           | Some (fs2, rel_new) \<Rightarrow> if fs \<noteq> fs2 then Some (- 1, s) else fs_rename (ops fs) rel_old rel_new s))"

definition vfs_dir :: "('f \<Rightarrow> 's Filesystem) \<Rightarrow> 'f vfs \<Rightarrow> cstr option \<Rightarrow> 's \<Rightarrow> (int \<times> 's) option" where
  "vfs_dir ops v path s =
     (case vfs_resolve v path of None \<Rightarrow> Some (- 1, s) | Some (fs, rel) \<Rightarrow> fs_dir (ops fs) rel s)"

definition vfs_list_dir :: "('f \<Rightarrow> 's Filesystem) \<Rightarrow> 'f vfs \<Rightarrow> cstr option \<Rightarrow> u32 \<Rightarrow> 's \<Rightarrow> ((int \<times> DirEntry list) \<times> 's) option" where
  "vfs_list_dir ops v path mx s =
     (case vfs_resolve v path of None \<Rightarrow> Some ((- 1, []), s) | Some (fs, rel) \<Rightarrow> fs_list (ops fs) rel mx s)"

section \<open>Resolution as a longest-prefix search\<close>

lemma match_len_prefix: "match_len ms ps = length ms \<longleftrightarrow> prefix ms ps"
  by (induction ms ps rule: match_len.induct) auto

text \<open>The table as it is used: entries below \<open>g_num_mounts\<close> have a filesystem and a short mount point.\<close>

definition vfs_inv :: "'f vfs \<Rightarrow> bool" where
  "vfs_inv v = (length (g_mounts v) = VFS_MAX_MOUNTS \<and> g_num_mounts v \<le> VFS_MAX_MOUNTS \<and>
     (\<forall>m \<in> set (active v). mfs m \<noteq> None \<and> length (mount_point m) \<le> 15 \<and> c_string (mount_point m)))"

lemma vfs_init_inv: "vfs_inv vfs_init"
  by (simp add: vfs_inv_def vfs_init_def active_def)

lemma vfs_mount_active:
  assumes "vfs_inv v" "g_num_mounts v < VFS_MAX_MOUNTS"
  shows "active (snd (vfs_mount (Some p) (Some f) v)) = active v @ [\<lparr>mount_point = take 15 p, mfs = Some f\<rparr>]"
proof -
  have "g_num_mounts v < length (g_mounts v)" using assms by (simp add: vfs_inv_def)
  then show ?thesis using assms(2)
    by (simp add: vfs_mount_def active_def take_Suc_conv_app_nth)
qed

lemma vfs_mount_inv:
  assumes "vfs_inv v" "\<And>p. mp = Some p \<Longrightarrow> c_string p"
  shows "vfs_inv (snd (vfs_mount mp fs v))"
proof (cases "mp = None \<or> fs = None \<or> g_num_mounts v \<ge> VFS_MAX_MOUNTS")
  case True
  then show ?thesis using assms(1) by (auto simp: vfs_mount_def split: option.splits)
next
  case False
  then obtain p f where pf: "mp = Some p" "fs = Some f" by auto
  with False vfs_mount_active [OF assms(1), of p f] assms
  show ?thesis by (auto simp: vfs_inv_def pf) (auto simp: vfs_mount_def)
qed

text \<open>The loop keeps the first of the longest matching mount points.\<close>

definition longest :: "cstr \<Rightarrow> 'f mount_entry list \<Rightarrow> nat \<Rightarrow> bool" where
  "longest path ms i = (i < length ms \<and> mount_point (ms ! i) \<noteq> [] \<and> prefix (mount_point (ms ! i)) path \<and>
     (\<forall>k < length ms. prefix (mount_point (ms ! k)) path \<longrightarrow>
        length (mount_point (ms ! k)) \<le> length (mount_point (ms ! i))) \<and>
     (\<forall>k < i. \<not> (prefix (mount_point (ms ! k)) path \<and> length (mount_point (ms ! k)) = length (mount_point (ms ! i)))))"

lemma fold_best:
  "(\<exists>i. longest path ms i \<and> fold (best_step path) ms (None, 0) = (mfs (ms ! i), length (mount_point (ms ! i)))) \<or>
   (\<forall>m \<in> set ms. prefix (mount_point m) path \<longrightarrow> mount_point m = []) \<and> fold (best_step path) ms (None, 0) = (None, 0)"
proof (induction ms rule: rev_induct)
  case (snoc m ms)
  let ?b = "fold (best_step path) ms (None, 0)"
  have step: "fold (best_step path) (ms @ [m]) (None, 0) =
      (if prefix (mount_point m) path \<and> length (mount_point m) > snd ?b then (mfs m, length (mount_point m)) else ?b)"
    by (auto simp: best_step_def Let_def match_len_prefix [symmetric])
  from snoc show ?case
  proof
    assume "\<exists>i. longest path ms i \<and> ?b = (mfs (ms ! i), length (mount_point (ms ! i)))"
    then obtain i where i: "longest path ms i" "?b = (mfs (ms ! i), length (mount_point (ms ! i)))" by blast
    show ?thesis
    proof (cases "prefix (mount_point m) path \<and> length (mount_point m) > length (mount_point (ms ! i))")
      case True
      then have "longest path (ms @ [m]) (length ms)"
        using i(1) by (fastforce simp: longest_def nth_append less_Suc_eq)
      then show ?thesis unfolding step i(2) using True by (intro disjI1 exI [of _ "length ms"]) simp
    next
      case False
      then have "longest path (ms @ [m]) i"
        using i(1) by (auto simp: longest_def nth_append less_Suc_eq)
      then show ?thesis unfolding step i(2) using False i(1)
        by (intro disjI1 exI [of _ i]) (auto simp: longest_def nth_append)
    qed
  next
    assume a: "(\<forall>m \<in> set ms. prefix (mount_point m) path \<longrightarrow> mount_point m = []) \<and> ?b = (None, 0)"
    show ?thesis
    proof (cases "prefix (mount_point m) path \<and> mount_point m \<noteq> []")
      case True
      have n: "\<not> (prefix (mount_point (ms ! k)) path \<and> mount_point (ms ! k) \<noteq> [])" if "k < length ms" for k
        using a that by auto
      have "longest path (ms @ [m]) (length ms)"
        using True n by (fastforce simp: longest_def nth_append less_Suc_eq)
      then show ?thesis unfolding step using True a by (intro disjI1 exI [of _ "length ms"]) simp
    next
      case False
      then show ?thesis unfolding step using a by auto
    qed
  qed
qed simp

section \<open>Properties\<close>

text \<open>C19. For an absolute path, resolution on a well-formed mount table picks the first entry whose
  mount point is the longest non-empty prefix of the path and strips it together with the slashes that
  follow, cutting the rest at 127 characters; it fails exactly if no non-empty mount point is a prefix.\<close>

theorem vfs_resolve_longest:
  assumes "vfs_inv v" "chr_at p 0 = slash"
  shows "case vfs_resolve v (Some p) of
      None \<Rightarrow> \<forall>m \<in> set (active v). prefix (mount_point m) p \<longrightarrow> mount_point m = []
    | Some (f, rel) \<Rightarrow> \<exists>i. longest p (active v) i \<and> mfs (active v ! i) = Some f \<and>
        rel = take 127 (dropWhile (\<lambda>c. c = slash) (drop (length (mount_point (active v ! i))) p))"
proof (cases "\<exists>i. longest p (active v) i \<and> fold (best_step p) (active v) (None, 0) =
    (mfs (active v ! i), length (mount_point (active v ! i)))")
  case True
  then obtain i where i: "longest p (active v) i"
      "fold (best_step p) (active v) (None, 0) = (mfs (active v ! i), length (mount_point (active v ! i)))" by blast
  then have "active v ! i \<in> set (active v)" by (simp add: longest_def)
  then obtain f where "mfs (active v ! i) = Some f"
    using assms(1) unfolding vfs_inv_def by blast
  with i assms(2) show ?thesis by (auto simp: vfs_resolve_def)
next
  case False
  with fold_best [of p "active v"] assms(2) show ?thesis by (auto simp: vfs_resolve_def)
qed

definition demo_vfs :: "nat vfs" where
  "demo_vfs = snd (vfs_mount (Some (bytes_of ''/tmp'')) (Some 1) (snd (vfs_mount (Some (bytes_of ''/'')) (Some 0) vfs_init)))"

lemma bytes_of_simps [simp]: "bytes_of [] = []" "bytes_of (c # cs) = of_char c # bytes_of cs"
  by (simp_all add: bytes_of_def)

lemma demo_vfs_eval: "active demo_vfs = [\<lparr>mount_point = [0x2F], mfs = Some 0\<rparr>, \<lparr>mount_point = [0x2F, 0x74, 0x6D, 0x70], mfs = Some 1\<rparr>]"
  by (simp add: demo_vfs_def vfs_mount_def vfs_init_def VFS_MAX_MOUNTS_def active_def numeral_eq_Suc)

lemma demo_vfs_inv: "vfs_inv demo_vfs"
  unfolding demo_vfs_def by (intro vfs_mount_inv vfs_init_inv) auto

theorem vfs_resolve_longest_witness:
  "case vfs_resolve demo_vfs (Some (bytes_of ''/tmp/a'')) of None \<Rightarrow> False
   | Some (f, rel) \<Rightarrow> \<exists>i. longest (bytes_of ''/tmp/a'') (active demo_vfs) i \<and> mfs (active demo_vfs ! i) = Some f"
proof -
  have "chr_at (bytes_of ''/tmp/a'') 0 = slash" by (simp add: slash_def)
  from vfs_resolve_longest [OF demo_vfs_inv this] show ?thesis
    by (cases "vfs_resolve demo_vfs (Some (bytes_of ''/tmp/a''))") (auto simp: demo_vfs_eval)
qed

text \<open>A mount point need not end at a component boundary: with the two mounts of the kernel, the path
  \<open>/tmpfoo\<close> is resolved into the filesystem mounted at \<open>/tmp\<close>, under the name \<open>foo\<close>, although its first
  component is not \<open>tmp\<close>.\<close>

theorem vfs_resolve_no_boundary:
  "vfs_resolve demo_vfs (Some (bytes_of ''/tmpfoo'')) = Some (1, bytes_of ''foo'')"
  by (simp add: vfs_resolve_def demo_vfs_eval slash_def best_step_def Let_def)

end
