(* ===== verification/XE_Ramdisk.thy ===== *)
theory XE_Ramdisk
  imports XE_Vfs
begin

text \<open>
  \<^verbatim>\<open>src/src/fs/ramdisk.cpp\<close> and \<^verbatim>\<open>ramdisk.h\<close>: the in-memory filesystem mounted at \<^verbatim>\<open>/tmp\<close>. The table has 32
  slots; the contents of a slot's 4 KiB heap block are kept with its address. The heap is a
  parameter: \<open>km\<close> returns an address (0 on failure) and the new heap, \<open>kf\<close> frees. The lemmas relate
  the table to a map from names to contents.
\<close>

definition RAMDISK_MAX_FILES :: nat where "RAMDISK_MAX_FILES = 32"
definition RAMDISK_MAX_SIZE :: u32 where "RAMDISK_MAX_SIZE = 4096"
definition RAMDISK_NAME_LEN :: nat where "RAMDISK_NAME_LEN = 32"

record ramdisk_file =
  rname :: cstr
  rdata :: "(u32 \<times> u8 list) option"
  rsize :: u32
  used :: bool

type_synonym ramdisk = "ramdisk_file list"

definition rd_init :: "ramdisk \<Rightarrow> ramdisk" where
  "rd_init fs = map (\<lambda>f. f\<lparr>used := False, rsize := 0, rdata := None\<rparr>) fs"

fun find_index :: "('a \<Rightarrow> bool) \<Rightarrow> 'a list \<Rightarrow> int" where
  "find_index P [] = - 1"
| "find_index P (x # xs) = (if P x then 0 else let i = find_index P xs in if i < 0 then - 1 else i + 1)"

definition find_free :: "ramdisk \<Rightarrow> int" where
  "find_free fs = find_index (\<lambda>f. \<not> used f) fs"

text \<open>The comparison loop of \<open>find_name\<close>: equal up to the bound, and both ended there.\<close>

fun name_cmp :: "nat \<Rightarrow> cstr \<Rightarrow> cstr \<Rightarrow> bool" where
  "name_cmp 0 as bs = (chr_at as 0 = 0 \<and> chr_at bs 0 = 0)"
| "name_cmp (Suc n) as bs =
     (if chr_at as 0 \<noteq> 0 \<and> chr_at as 0 = chr_at bs 0 then name_cmp n (tl as) (tl bs)
      else chr_at as 0 = 0 \<and> chr_at bs 0 = 0)"

definition find_name :: "cstr \<Rightarrow> ramdisk \<Rightarrow> int" where
  "find_name name fs = find_index (\<lambda>f. used f \<and> name_cmp (RAMDISK_NAME_LEN - 1) name (rname f)) fs"

definition rd_remove :: "(u32 \<Rightarrow> 'h \<Rightarrow> 'h) \<Rightarrow> cstr \<Rightarrow> ramdisk \<times> 'h \<Rightarrow> int \<times> ramdisk \<times> 'h" where
  "rd_remove kf path st =
     (case st of (fs, h) \<Rightarrow>
        let idx = find_name path fs in
        if idx < 0 then (- 1, fs, h)
        else let i = nat idx;
                 h1 = (case rdata (fs ! i) of Some (a, _) \<Rightarrow> kf a h | None \<Rightarrow> h)
             in (0, fs[i := (fs ! i)\<lparr>rdata := None, used := False, rsize := 0\<rparr>], h1))"

definition rd_stat :: "cstr \<Rightarrow> int \<Rightarrow> ramdisk \<Rightarrow> int \<times> int" where
  "rd_stat path isd fs =
     (let idx = find_name path fs in
      if idx < 0 then (- 1, isd) else (sint (rsize (fs ! nat idx)), 0))"

text \<open>Storing \<open>size\<close> bytes at the start of a 4 KiB block; \<open>junk\<close> below is what a fresh block happens to hold.\<close>

definition overwrite :: "u8 list \<Rightarrow> u8 list \<Rightarrow> u8 list" where
  "overwrite new old = new @ drop (length new) old"

definition rd_create :: "(u32 \<Rightarrow> 'h \<Rightarrow> u32 \<times> 'h) \<Rightarrow> u8 list \<Rightarrow> cstr option \<Rightarrow> u8 list option \<Rightarrow> u32 \<Rightarrow> ramdisk \<times> 'h \<Rightarrow> int \<times> ramdisk \<times> 'h" where
  "rd_create km junk name data sz st =
     (case st of (fs, h) \<Rightarrow>
        case name of None \<Rightarrow> (- 1, fs, h)
        | Some nm \<Rightarrow>
          if sz > RAMDISK_MAX_SIZE then (- 1, fs, h)
          else
            let idx0 = find_name nm fs;
                idx = (if idx0 < 0 then find_free fs else idx0)
            in if idx < 0 then (- 1, fs, h)
               else
                 let i = nat idx;
                     f1 = (fs ! i)\<lparr>rname := take (RAMDISK_NAME_LEN - 1) nm\<rparr>;
                     fin = (\<lambda>f h. (0, fs[i := f\<lparr>rsize := sz, used := True\<rparr>], h))
                 in case data of
                      Some d \<Rightarrow>
                        if sz > 0 then
                          (case rdata f1 of
                             Some (a, old) \<Rightarrow> fin (f1\<lparr>rdata := Some (a, overwrite (take (unat sz) d) old)\<rparr>) h
                           | None \<Rightarrow>
                               (case km RAMDISK_MAX_SIZE h of (a, h') \<Rightarrow>
                                  if a = 0 then (- 1, fs[i := f1], h')
                                  else fin (f1\<lparr>rdata := Some (a, overwrite (take (unat sz) d) junk)\<rparr>) h'))
                        else fin f1 h
                    | None \<Rightarrow> fin f1 h)"

text \<open>Reading: the bytes stored at the start of the caller's buffer.\<close>

definition rd_read :: "cstr \<Rightarrow> u32 \<Rightarrow> ramdisk \<Rightarrow> int \<times> u8 list" where
  "rd_read name mx fs =
     (let idx = find_name name fs in
      if idx < 0 then (- 1, [])
      else case rdata (fs ! nat idx) of
             None \<Rightarrow> (0, [])
           | Some (a, bs) \<Rightarrow>
               let sz0 = rsize (fs ! nat idx); sz = (if sz0 > mx then mx else sz0)
               in (sint sz, take (unat sz) bs))"

definition rd_open :: "cstr \<Rightarrow> u8 list \<Rightarrow> u32 \<Rightarrow> ramdisk \<Rightarrow> int \<times> u8 list" where
  "rd_open path buf mx fs = (case rd_read path mx fs of (r, bs) \<Rightarrow> (r, overwrite bs buf))"

definition rd_write :: "(u32 \<Rightarrow> 'h \<Rightarrow> u32 \<times> 'h) \<Rightarrow> u8 list \<Rightarrow> cstr option \<Rightarrow> u8 list option \<Rightarrow> u32 \<Rightarrow> ramdisk \<times> 'h \<Rightarrow> int \<times> ramdisk \<times> 'h" where
  "rd_write km junk path data sz st = rd_create km junk path data sz st"

definition rd_list_entries :: "bool \<Rightarrow> u32 \<Rightarrow> ramdisk \<Rightarrow> int \<times> DirEntry list" where
  "rd_list_entries null mx fs =
     (if null \<or> mx = 0 then (- 1, [])
      else let es = take (unat mx) (map (\<lambda>f. \<lparr>is_dir = 0, de_size = rsize f, de_name = take 31 (rname f)\<rparr>) (filter used fs))
           in (int (length es), es))"

text \<open>Decimal digits, least significant first, at most ten.\<close>

fun dec_digits :: "nat \<Rightarrow> nat \<Rightarrow> cstr" where
  "dec_digits 0 n = []"
| "dec_digits (Suc k) n = (if n = 0 then [] else of_nat (48 + n mod 10) # dec_digits k (n div 10))"

definition dec_num :: "u32 \<Rightarrow> cstr" where
  "dec_num n = (if n = 0 then [48] else dec_digits 10 (unat n))"

text \<open>Appending to \<open>out\<close> while \<open>pos < (int) max - 1\<close>.\<close>

definition put_lim :: "int \<Rightarrow> cstr \<Rightarrow> cstr \<Rightarrow> cstr" where
  "put_lim lim out cs = out @ take (nat (lim - int (length out))) cs"

definition rd_list_line :: "int \<Rightarrow> ramdisk_file \<Rightarrow> cstr \<Rightarrow> cstr" where
  "rd_list_line lim f out =
     (let o1 = put_lim lim out (rname f);
          j = length o1 - length out;
          o2 = put_lim lim o1 (replicate (12 - j) 0x20);
          o3 = put_lim lim o2 (rev (dec_num (rsize f)))
      in put_lim lim o3 [0x0A])"

definition rd_list :: "u32 \<Rightarrow> ramdisk \<Rightarrow> int \<times> cstr" where
  "rd_list mx fs =
     (let out = fold (rd_list_line (sint mx - 1)) (filter used fs) []
      in (int (length out), out @ [0]))"

text \<open>The text \<open>RamDisk::dir\<close> prints.\<close>

definition rd_dir_text :: "ramdisk \<Rightarrow> cstr" where
  "rd_dir_text fs = concat (map (\<lambda>f. rname f @ bytes_of ''  ('' @ rev (dec_num (rsize f)) @ bytes_of '' bytes)'' @ [0x0A]) (filter used fs))"

section \<open>The table as a map\<close>

lemma find_index_cases:
  "(find_index P xs = - 1 \<and> (\<forall>x \<in> set xs. \<not> P x)) \<or>
   (\<exists>i < length xs. find_index P xs = int i \<and> P (xs ! i) \<and> (\<forall>k < i. \<not> P (xs ! k)))"
proof (induction xs)
  case (Cons x xs)
  show ?case
  proof (cases "P x")
    case False
    from Cons.IH show ?thesis
    proof
      assume "find_index P xs = - 1 \<and> (\<forall>x \<in> set xs. \<not> P x)"
      then show ?thesis using False by simp
    next
      assume "\<exists>i < length xs. find_index P xs = int i \<and> P (xs ! i) \<and> (\<forall>k < i. \<not> P (xs ! k))"
      then obtain i where "i < length xs" "find_index P xs = int i" "P (xs ! i)" "\<forall>k < i. \<not> P (xs ! k)" by blast
      then show ?thesis using False by (intro disjI2 exI [of _ "Suc i"]) (auto simp: nth_Cons split: nat.splits)
    qed
  qed (simp add: exI [of _ 0])
qed simp

lemma find_index_less: "find_index P xs < 0 \<longleftrightarrow> (\<forall>x \<in> set xs. \<not> P x)"
  using find_index_cases [of P xs] by (auto dest: nth_mem)

lemma find_index_unique:
  assumes "i < length xs" "P (xs ! i)" "\<And>k. k < length xs \<Longrightarrow> P (xs ! k) \<Longrightarrow> k = i"
  shows "find_index P xs = int i"
proof -
  have "\<not> (\<forall>x \<in> set xs. \<not> P x)" using assms(1,2) nth_mem by blast
  then obtain j where "j < length xs" "find_index P xs = int j" "P (xs ! j)"
    using find_index_cases [of P xs] by blast
  with assms(3) show ?thesis by auto
qed

lemma find_index_update:
  assumes "i < length xs" "\<not> P (xs ! i)" "\<not> P y"
  shows "find_index P (xs[i := y]) = find_index P xs"
  using assms
proof (induction xs arbitrary: i)
  case (Cons x xs)
  then show ?case by (cases i) auto
qed simp

lemma name_cmp_iff: "c_string as \<Longrightarrow> c_string bs \<Longrightarrow> name_cmp n as bs \<longleftrightarrow> as = bs \<and> length as \<le> n"
proof (induction n as bs rule: name_cmp.induct)
  case (1 as bs)
  then show ?case by (auto simp: chr_at_zero_iff)
next
  case (2 n as bs)
  show ?case
    using 2 by (cases as; cases bs) (auto simp: chr_at_zero_iff)
qed

definition rd_inv :: "ramdisk \<Rightarrow> bool" where
  "rd_inv fs = (length fs = RAMDISK_MAX_FILES \<and>
     (\<forall>f \<in> set fs. c_string (rname f) \<and> rsize f \<le> RAMDISK_MAX_SIZE \<and>
        (\<forall>a bs. rdata f = Some (a, bs) \<longrightarrow> length bs = unat RAMDISK_MAX_SIZE)) \<and>
     (\<forall>i < length fs. \<forall>j < length fs. used (fs ! i) \<and> used (fs ! j) \<and> rname (fs ! i) = rname (fs ! j) \<longrightarrow> i = j))"

definition file_bytes :: "ramdisk_file \<Rightarrow> u8 list" where
  "file_bytes f = (case rdata f of None \<Rightarrow> [] | Some (a, bs) \<Rightarrow> take (unat (rsize f)) bs)"

definition rd_abs :: "ramdisk \<Rightarrow> cstr \<Rightarrow> u8 list option" where
  "rd_abs fs nm = (let i = find_name nm fs in if i < 0 then None else Some (file_bytes (fs ! nat i)))"

definition short_name :: "cstr \<Rightarrow> bool" where
  "short_name nm = (c_string nm \<and> length nm \<le> 31)"

definition slot_hit :: "cstr \<Rightarrow> ramdisk_file \<Rightarrow> bool" where
  "slot_hit nm f = (used f \<and> rname f = nm)"

lemma find_name_alt: "rd_inv fs \<Longrightarrow> short_name nm \<Longrightarrow> find_name nm fs = find_index (slot_hit nm) fs"
proof -
  assume a: "rd_inv fs" "short_name nm"
  have "find_index P xs = find_index Q xs" if "\<forall>x \<in> set xs. P x = Q x" for P Q and xs :: ramdisk
    using that by (induction xs) auto
  moreover have "\<forall>f \<in> set fs. (used f \<and> name_cmp (RAMDISK_NAME_LEN - 1) nm (rname f)) = slot_hit nm f"
    using a by (auto simp: rd_inv_def short_name_def slot_hit_def name_cmp_iff RAMDISK_NAME_LEN_def)
  ultimately show ?thesis by (simp add: find_name_def)
qed

lemma rd_abs_hit:
  assumes "rd_inv fs" "short_name nm" "i < length fs" "slot_hit nm (fs ! i)"
  shows "find_name nm fs = int i" "rd_abs fs nm = Some (file_bytes (fs ! i))"
proof -
  show "find_name nm fs = int i"
    unfolding find_name_alt [OF assms(1,2)]
    by (rule find_index_unique) (use assms in \<open>auto simp: rd_inv_def slot_hit_def\<close>)
  then show "rd_abs fs nm = Some (file_bytes (fs ! i))" by (simp add: rd_abs_def)
qed

text \<open>Changing one slot that belongs to \<open>nm\<close> or to nobody.\<close>

lemma rd_update:
  assumes inv: "rd_inv fs" and i: "i < length fs" "\<not> used (fs ! i) \<or> rname (fs ! i) = nm"
    and f: "c_string (rname f)" "rsize f \<le> RAMDISK_MAX_SIZE" "\<And>a bs. rdata f = Some (a, bs) \<Longrightarrow> length bs = unat RAMDISK_MAX_SIZE"
    and n: "used f \<longrightarrow> rname f = nm" and uniq: "\<And>j. j < length fs \<Longrightarrow> slot_hit nm (fs ! j) \<Longrightarrow> j = i"
    and nm: "short_name nm"
  shows "rd_inv (fs[i := f])"
    "\<And>nm'. short_name nm' \<Longrightarrow> rd_abs (fs[i := f]) nm' = (if nm' = nm then if used f then Some (file_bytes f) else None else rd_abs fs nm')"
proof -
  show inv': "rd_inv (fs[i := f])"
    unfolding rd_inv_def
  proof (intro conjI allI impI ballI)
    show "length (fs[i := f]) = RAMDISK_MAX_FILES" using inv by (simp add: rd_inv_def)
  next
    fix g assume "g \<in> set (fs[i := f])"
    then have "g = f \<or> g \<in> set fs" using set_update_subset_insert by fastforce
    then show "c_string (rname g)" "rsize g \<le> RAMDISK_MAX_SIZE"
      "\<And>a bs. rdata g = Some (a, bs) \<Longrightarrow> length bs = unat RAMDISK_MAX_SIZE"
      using inv f by (auto simp: rd_inv_def)
  next
    fix k j assume "k < length (fs[i := f])" "j < length (fs[i := f])"
      and "used (fs[i := f] ! k) \<and> used (fs[i := f] ! j) \<and> rname (fs[i := f] ! k) = rname (fs[i := f] ! j)"
    then show "k = j"
      using inv uniq [of k] uniq [of j] n i(1) by (auto simp: rd_inv_def nth_list_update slot_hit_def split: if_splits)
  qed
  fix nm' assume nm': "short_name nm'"
  show "rd_abs (fs[i := f]) nm' = (if nm' = nm then if used f then Some (file_bytes f) else None else rd_abs fs nm')"
  proof (cases "nm' = nm")
    case True
    show ?thesis
    proof (cases "used f")
      case True
      then have "slot_hit nm (fs[i := f] ! i)" using n i by (simp add: slot_hit_def)
      with rd_abs_hit [OF inv' nm, of i] i \<open>nm' = nm\<close> True show ?thesis by simp
    next
      case False
      have "\<not> slot_hit nm g" if g: "g \<in> set (fs[i := f])" for g
      proof
        assume "slot_hit nm g"
        from g obtain j where "j < length fs" "fs[i := f] ! j = g" by (auto simp: in_set_conv_nth)
        with \<open>slot_hit nm g\<close> uniq [of j] False i show False by (auto simp: nth_list_update slot_hit_def split: if_splits)
      qed
      then show ?thesis using \<open>nm' = nm\<close> False find_index_less [of "slot_hit nm" "fs[i := f]"]
        by (auto simp: rd_abs_def find_name_alt [OF inv' nm] Let_def)
    qed
  next
    case False
    have e: "find_name nm' (fs[i := f]) = find_name nm' fs"
      unfolding find_name_alt [OF inv' nm'] find_name_alt [OF inv nm']
      by (rule find_index_update) (use i n False in \<open>auto simp: slot_hit_def\<close>)
    have "fs[i := f] ! nat (find_name nm' fs) = fs ! nat (find_name nm' fs)" if "0 \<le> find_name nm' fs"
    proof -
      have "nat (find_name nm' fs) \<noteq> i"
        using that find_index_cases [of "slot_hit nm'" fs] i(2) False
        by (auto simp: find_name_alt [OF inv nm'] slot_hit_def)
      then show ?thesis by simp
    qed
    then show ?thesis using e False by (auto simp: rd_abs_def Let_def)
  qed
qed

lemma rd_sint: "sz \<le> RAMDISK_MAX_SIZE \<Longrightarrow> sint sz = int (unat sz)"
  by (intro sint_small) (simp add: RAMDISK_MAX_SIZE_def word_le_nat_alt)

lemma rd_create_slot:
  assumes "rd_inv fs" "short_name nm" "find_name nm fs \<ge> 0 \<or> find_free fs \<ge> 0"
  shows "\<exists>i < length fs. (\<not> used (fs ! i) \<or> rname (fs ! i) = nm) \<and>
    int i = (if find_name nm fs < 0 then find_free fs else find_name nm fs) \<and>
    (\<forall>j < length fs. slot_hit nm (fs ! j) \<longrightarrow> j = i)"
proof (cases "find_name nm fs < 0")
  case True
  then have n: "\<forall>f \<in> set fs. \<not> slot_hit nm f"
    by (simp add: find_name_alt [OF assms(1,2)] find_index_less)
  have "0 \<le> find_index (\<lambda>f. \<not> used f) fs" using True assms(3) by (simp add: find_free_def)
  then obtain i where "i < length fs" "find_index (\<lambda>f. \<not> used f) fs = int i" "\<not> used (fs ! i)"
    using find_index_cases [of "\<lambda>f. \<not> used f" fs] by auto
  moreover have "\<not> slot_hit nm (fs ! j)" if "j < length fs" for j using n that by simp
  ultimately show ?thesis using True by (intro exI [of _ i]) (simp add: find_free_def)
next
  case False
  then have "0 \<le> find_index (slot_hit nm) fs" by (simp add: find_name_alt [OF assms(1,2)])
  then obtain i where i: "i < length fs" "find_index (slot_hit nm) fs = int i" "slot_hit nm (fs ! i)"
    using find_index_cases [of "slot_hit nm" fs] by auto
  have fi: "find_name nm fs = int i" using i(2) by (simp add: find_name_alt [OF assms(1,2)])
  have u: "\<forall>j < length fs. slot_hit nm (fs ! j) \<longrightarrow> j = i"
    using rd_abs_hit(1) [OF assms(1,2)] fi by (metis of_nat_eq_iff)
  have "rname (fs ! i) = nm" using i(3) by (simp add: slot_hit_def)
  then show ?thesis using False i(1) fi u by (intro exI [of _ i] conjI) simp_all
qed

section \<open>Properties\<close>

text \<open>C20. For names of at most 31 characters the ramdisk refines a map from names to contents. When a slot is
  available and the heap provides a block, \<open>create\<close> succeeds and updates the map at the name with the given
  bytes, and \<open>stat\<close> then reports a file of that size; \<open>remove\<close> deletes the name, or fails without a change if there is
  none; \<open>read\<close> returns the number of mapped bytes that fit into the caller's buffer, and these bytes; \<open>stat\<close> reports a
  file exactly for the mapped names, with the number of its bytes unless no data was stored. \<open>read\<close> and \<open>stat\<close> return -1
  for the other names. The operations that change the table keep it well formed.\<close>

theorem ramdisk_refines_map:
  assumes "rd_inv fs" "short_name nm" "sz \<le> RAMDISK_MAX_SIZE" "unat sz \<le> length d" "length junk = unat RAMDISK_MAX_SIZE"
    "find_name nm fs \<ge> 0 \<or> find_free fs \<ge> 0" "fst (km RAMDISK_MAX_SIZE h) \<noteq> 0"
  shows "(\<exists>fs' h'. rd_create km junk (Some nm) (Some d) sz (fs, h) = (0, fs', h') \<and> rd_inv fs' \<and>
      (\<forall>nm'. short_name nm' \<longrightarrow> rd_abs fs' nm' = ((rd_abs fs)(nm \<mapsto> take (unat sz) d)) nm') \<and>
      rd_stat nm isd fs' = (int (unat sz), 0)) \<and>
    (case rd_remove kf nm (fs, h) of (r, fs', h') \<Rightarrow> rd_inv fs' \<and> (r = 0 \<longleftrightarrow> rd_abs fs nm \<noteq> None) \<and> (r = 0 \<or> r = - 1) \<and>
      (\<forall>nm'. short_name nm' \<longrightarrow> rd_abs fs' nm' = ((rd_abs fs)(nm := None)) nm')) \<and>
    rd_read nm mx fs = (case rd_abs fs nm of None \<Rightarrow> (- 1, [])
      | Some bs \<Rightarrow> (int (length (take (unat mx) bs)), take (unat mx) bs)) \<and>
    (case rd_abs fs nm of None \<Rightarrow> rd_stat nm isd fs = (- 1, isd)
      | Some bs \<Rightarrow> \<exists>n \<ge> 0. rd_stat nm isd fs = (n, 0) \<and> (n = int (length bs) \<or> bs = []))"
proof (intro conjI)
  obtain i where i: "i < length fs" "\<not> used (fs ! i) \<or> rname (fs ! i) = nm"
    "int i = (if find_name nm fs < 0 then find_free fs else find_name nm fs)"
    and i4: "\<forall>j < length fs. slot_hit nm (fs ! j) \<longrightarrow> j = i"
    using rd_create_slot [OF assms(1,2,6)] by blast
  note i4 = i4 [rule_format]
  have nm: "c_string nm" "take (RAMDISK_NAME_LEN - 1) nm = nm"
    using assms(2) by (simp_all add: short_name_def RAMDISK_NAME_LEN_def)
  have old: "length bs = unat RAMDISK_MAX_SIZE" if "rdata (fs ! i) = Some (a, bs)" for a bs
    using assms(1) that nth_mem [OF i(1)] unfolding rd_inv_def by blast
  have le: "unat sz \<le> unat RAMDISK_MAX_SIZE" using assms(3) by (simp add: word_le_nat_alt)
  have upd: "rd_inv (fs[i := f]) \<and> (\<forall>nm'. short_name nm' \<longrightarrow> rd_abs (fs[i := f]) nm' = ((rd_abs fs)(nm \<mapsto> file_bytes f)) nm')"
    if "rname f = nm" "rsize f \<le> RAMDISK_MAX_SIZE" "used f" "\<And>a bs. rdata f = Some (a, bs) \<Longrightarrow> length bs = unat RAMDISK_MAX_SIZE" for f
  proof -
    have "c_string (rname f)" "used f \<longrightarrow> rname f = nm" using that nm by simp_all
    note u = rd_update [OF assms(1) i(1,2) this(1) that(2,4) this(2) i4 assms(2)]
    show ?thesis using u(1) u(2) that(3) by simp
  qed
  show "\<exists>fs' h'. rd_create km junk (Some nm) (Some d) sz (fs, h) = (0, fs', h') \<and> rd_inv fs' \<and>
      (\<forall>nm'. short_name nm' \<longrightarrow> rd_abs fs' nm' = ((rd_abs fs)(nm \<mapsto> take (unat sz) d)) nm') \<and>
      rd_stat nm isd fs' = (int (unat sz), 0)"
  proof -
    obtain a h1 where km: "km RAMDISK_MAX_SIZE h = (a, h1)" "a \<noteq> 0" using assms(7) by (metis fst_conv surj_pair)
    have idx: "\<not> (if find_name nm fs < 0 then find_free fs else find_name nm fs) < 0"
      "nat (if find_name nm fs < 0 then find_free fs else find_name nm fs) = i"
      using i(3) by (metis of_nat_less_0_iff, metis nat_int)
    define f where "f = (fs ! i)\<lparr>rname := nm,
      rdata := (if sz > 0 then case rdata (fs ! i) of Some (a, old) \<Rightarrow> Some (a, overwrite (take (unat sz) d) old)
                  | None \<Rightarrow> Some (a, overwrite (take (unat sz) d) junk) else rdata (fs ! i)), rsize := sz, used := True\<rparr>"
    have "\<exists>h'. rd_create km junk (Some nm) (Some d) sz (fs, h) = (0, fs[i := f], h')"
      unfolding rd_create_def Let_def idx prod.case option.case using assms(3) idx km nm(2)
      by (auto simp: f_def not_less split: option.splits prod.splits)
    moreover have "file_bytes f = take (unat sz) d"
      using old assms(4,5) le by (auto simp: f_def file_bytes_def overwrite_def min_absorb2 not_less split: option.splits prod.splits)
    moreover have "length bs = unat RAMDISK_MAX_SIZE" if "rdata f = Some (b, bs)" for b bs
      using that old assms(4,5) le by (auto simp: f_def overwrite_def split: option.splits prod.splits if_splits)
    ultimately have r: "rd_inv (fs[i := f])" "\<forall>nm'. short_name nm' \<longrightarrow> rd_abs (fs[i := f]) nm' = ((rd_abs fs)(nm \<mapsto> take (unat sz) d)) nm'"
      "\<exists>h'. rd_create km junk (Some nm) (Some d) sz (fs, h) = (0, fs[i := f], h')"
      using upd [of f] assms(3) by (auto simp: f_def)
    have "slot_hit nm (fs[i := f] ! i)" using i(1) by (simp add: slot_hit_def f_def)
    then have "find_name nm (fs[i := f]) = int i" using rd_abs_hit(1) [OF r(1) assms(2), of i] i(1) by simp
    then have "rd_stat nm isd (fs[i := f]) = (int (unat sz), 0)"
      using i(1) rd_sint [OF assms(3)] by (simp add: rd_stat_def f_def)
    with r show ?thesis by blast
  qed
  show "case rd_remove kf nm (fs, h) of (r, fs', h') \<Rightarrow> rd_inv fs' \<and> (r = 0 \<longleftrightarrow> rd_abs fs nm \<noteq> None) \<and> (r = 0 \<or> r = - 1) \<and>
      (\<forall>nm'. short_name nm' \<longrightarrow> rd_abs fs' nm' = ((rd_abs fs)(nm := None)) nm')"
  proof (cases "find_name nm fs < 0")
    case True
    then show ?thesis using assms(1) by (auto simp: rd_remove_def rd_abs_def)
  next
    case False
    then have fi: "find_name nm fs = int i" using i(3) by simp
    let ?f = "(fs ! i)\<lparr>rdata := None, used := False, rsize := 0\<rparr>"
    have "c_string (rname ?f)" using assms(1) i(1) nth_mem by (auto simp: rd_inv_def)
    with rd_update [OF assms(1) i(1,2), of ?f] i4 assms(2)
    have "rd_inv (fs[i := ?f])" "\<And>nm'. short_name nm' \<Longrightarrow> rd_abs (fs[i := ?f]) nm' = (if nm' = nm then None else rd_abs fs nm')"
      by auto
    then show ?thesis using fi False by (auto simp: rd_remove_def rd_abs_def Let_def)
  qed
  let ?i = "find_name nm fs"
  have slot: "nat ?i < length fs" if "\<not> ?i < 0"
    using find_index_cases [of "slot_hit nm" fs] that by (auto simp: find_name_alt [OF assms(1,2)])
  have hit: "rsize (fs ! nat ?i) \<le> RAMDISK_MAX_SIZE"
    "\<And>a bs. rdata (fs ! nat ?i) = Some (a, bs) \<Longrightarrow> length bs = unat RAMDISK_MAX_SIZE" if "\<not> ?i < 0"
    using assms(1) nth_mem [OF slot [OF that]] unfolding rd_inv_def by blast+
  show "rd_read nm mx fs = (case rd_abs fs nm of None \<Rightarrow> (- 1, [])
      | Some bs \<Rightarrow> (int (length (take (unat mx) bs)), take (unat mx) bs))"
  proof (cases "?i < 0")
    case False
    define sz where "sz = (if rsize (fs ! nat ?i) > mx then mx else rsize (fs ! nat ?i))"
    have s: "sz \<le> RAMDISK_MAX_SIZE" "unat sz = min (unat mx) (unat (rsize (fs ! nat ?i)))"
      using hit(1) [OF False] by (auto simp: sz_def word_le_nat_alt word_less_nat_alt)
    show ?thesis
    proof (cases "rdata (fs ! nat ?i)")
      case (Some ab)
      obtain a bs where ab: "ab = (a, bs)" by (cases ab)
      have len: "length bs = unat RAMDISK_MAX_SIZE" using hit(2) [OF False] Some ab by simp
      have "rd_read nm mx fs = (int (unat sz), take (unat sz) bs)"
        using False Some ab rd_sint [OF s(1)] by (simp add: rd_read_def Let_def sz_def [symmetric])
      moreover have "length (take (unat sz) bs) = unat sz" using s(1) len by (simp add: word_le_nat_alt)
      ultimately show ?thesis using False Some ab s(2) by (simp add: rd_abs_def Let_def file_bytes_def)
    qed (use False in \<open>simp add: rd_read_def rd_abs_def Let_def file_bytes_def\<close>)
  qed (simp add: rd_read_def rd_abs_def)
  show "case rd_abs fs nm of None \<Rightarrow> rd_stat nm isd fs = (- 1, isd)
      | Some bs \<Rightarrow> \<exists>n \<ge> 0. rd_stat nm isd fs = (n, 0) \<and> (n = int (length bs) \<or> bs = [])"
  proof (cases "?i < 0")
    case False
    note h = hit [OF False] and s = rd_sint [OF hit(1) [OF False]]
    show ?thesis using False h s
      by (auto simp: rd_abs_def rd_stat_def Let_def file_bytes_def word_le_nat_alt split: option.splits)
  qed (simp add: rd_stat_def rd_abs_def)
qed

lemma demo_rd_inv: "rd_inv (replicate 32 \<lparr>rname = [], rdata = None, rsize = 0, used = False\<rparr>)"
  by (simp add: rd_inv_def RAMDISK_MAX_FILES_def)

theorem ramdisk_refines_map_witness:
  "\<exists>fs' h'. rd_create (\<lambda>_ h. (0x1000014, h)) (replicate 4096 0) (Some [0x61]) (Some [7, 8]) 2
      (replicate 32 \<lparr>rname = [], rdata = None, rsize = 0, used = False\<rparr>, ()) = (0, fs', h') \<and> rd_abs fs' [0x61] = Some [7, 8] \<and>
      rd_stat [0x61] 5 fs' = (2, 0)"
proof -
  have f: "find_free (replicate 32 \<lparr>rname = [], rdata = None, rsize = 0, used = False\<rparr>) \<ge> 0"
    by (simp add: find_free_def numeral_eq_Suc)
  have n: "short_name [0x61]" by (simp add: short_name_def)
  from ramdisk_refines_map [OF demo_rd_inv n, of 2 "[7, 8]" "replicate 4096 0" "\<lambda>_ h. (0x1000014, h)" "()" 5, THEN conjunct1] f n
  show ?thesis by (auto simp: RAMDISK_MAX_SIZE_def)
qed

text \<open>A name of 32 or more characters is accepted by \<open>create\<close> and stored truncated, but can never be found
  again under the name it was created with: \<open>read\<close> and \<open>stat\<close> of it fail on every table.\<close>

theorem ramdisk_long_name_lost:
  assumes "rd_inv fs" "c_string nm" "32 \<le> length nm" "sz \<le> RAMDISK_MAX_SIZE" "find_free fs \<ge> 0"
  shows "fst (rd_create km junk (Some nm) None sz (fs, h)) = 0 \<and>
    (case rd_create km junk (Some nm) None sz (fs, h) of (r, fs', h') \<Rightarrow>
       rd_read nm mx fs' = (- 1, []) \<and> rd_stat nm isd fs' = (- 1, isd))"
proof -
  have miss: "find_name nm gs < 0" if "\<forall>g \<in> set gs. c_string (rname g)" for gs
    unfolding find_name_def find_index_less
    using that assms(2,3) by (auto simp: name_cmp_iff RAMDISK_NAME_LEN_def)
  have "\<forall>g \<in> set fs. c_string (rname g)" using assms(1) by (simp add: rd_inv_def)
  then have lt: "find_name nm fs < 0" by (rule miss)
  define f where "f = (fs ! nat (find_free fs))\<lparr>rname := take (RAMDISK_NAME_LEN - 1) nm, rsize := sz, used := True\<rparr>"
  have r: "rd_create km junk (Some nm) None sz (fs, h) = (0, fs[nat (find_free fs) := f], h)"
    using lt assms(4,5) by (auto simp: rd_create_def Let_def f_def not_less)
  have "c_string (rname f)" using assms(2) by (auto simp: f_def)
  then have "\<forall>g \<in> set (fs[nat (find_free fs) := f]). c_string (rname g)"
    using \<open>\<forall>g \<in> set fs. c_string (rname g)\<close> set_update_subset_insert [of fs "nat (find_free fs)" f] by blast
  then have "find_name nm (fs[nat (find_free fs) := f]) < 0" by (rule miss)
  then show ?thesis by (simp add: r rd_read_def rd_stat_def)
qed

theorem ramdisk_long_name_lost_witness:
  "fst (rd_create (\<lambda>_ h. (0, h)) [] (Some (replicate 32 0x61)) None 0
     (replicate 32 \<lparr>rname = [], rdata = None, rsize = 0, used = False\<rparr>, ())) = 0"
proof -
  have f: "find_free (replicate 32 \<lparr>rname = [], rdata = None, rsize = 0, used = False\<rparr>) \<ge> 0"
    by (simp add: find_free_def numeral_eq_Suc)
  have n: "c_string (replicate 32 0x61)" by (simp add: c_string_def list_all_iff)
  show ?thesis
    using ramdisk_long_name_lost [OF demo_rd_inv n _ _ f, of 0 "\<lambda>_ h. (0, h)" "[]" "()"] by simp
qed

text \<open>The text listing never stores more than \<open>max\<close> bytes, terminator included.\<close>

lemma put_lim_length: "int (length out) \<le> lim \<Longrightarrow> int (length (put_lim lim out cs)) \<le> lim"
  by (auto simp: put_lim_def)

lemma rd_list_bounded:
  assumes "0 < mx" "mx < 0x80000000"
  shows "length (snd (rd_list mx fs)) \<le> unat mx"
proof -
  have s: "sint mx = int (unat mx)"
    using assms(2) by (intro sint_small) (simp add: word_less_nat_alt)
  have step: "int (length (rd_list_line lim f out)) \<le> lim" if "int (length out) \<le> lim" for lim f out
    using that unfolding rd_list_line_def Let_def by (intro put_lim_length)
  have all: "int (length (fold (rd_list_line lim) gs out)) \<le> lim" if "int (length out) \<le> lim" for lim gs out
    using that by (induction gs arbitrary: out) (auto intro: step)
  have "0 < unat mx" using assms(1) by (simp add: word_less_nat_alt)
  then have "int (length (fold (rd_list_line (sint mx - 1)) (filter used fs) [])) \<le> int (unat mx) - 1"
    unfolding s by (intro all) (simp del: of_nat_unat)
  then show ?thesis unfolding rd_list_def Let_def snd_conv length_append by (simp del: of_nat_unat)
qed

end
