(* ===== verification/XE_Ata.thy ===== *)
theory XE_Ata
  imports XE_Prelude
begin

text \<open>
  \<^verbatim>\<open>src/src/drivers/ata.cpp\<close>, \<^verbatim>\<open>ata.h\<close> and \<^verbatim>\<open>src/src/lib/ports.h\<close>: the PIO disk driver. The I/O ports
  are a parameter, a record of the four port instructions on the state \<open>'d\<close> of the hardware. The
  second half states as the locale \<open>pio_drive\<close> what the driver relies on: a drive in PIO mode (registers, status,
  data transfer, 28-bit addresses, bad sectors) that may be busy between any two steps. On every such drive the driver
  reads and writes whole sectors. The locale \<open>prompt_drive\<close> adds what the block cache needs, and two
  concrete drives, \<open>pio_ports\<close> and \<open>slow_ports\<close>, are instances.
\<close>

unbundle bit_operations_syntax

section \<open>The driver\<close>

record 'd ports =
  inb :: "u16 \<Rightarrow> 'd \<Rightarrow> u8 \<times> 'd"
  outb :: "u16 \<Rightarrow> u8 \<Rightarrow> 'd \<Rightarrow> 'd"
  inw :: "u16 \<Rightarrow> 'd \<Rightarrow> u16 \<times> 'd"
  outw :: "u16 \<Rightarrow> u16 \<Rightarrow> 'd \<Rightarrow> 'd"

abbreviation (input) ATA_DATA :: u16 where "ATA_DATA \<equiv> 0x1F0"
abbreviation (input) ATA_SECTORS :: u16 where "ATA_SECTORS \<equiv> 0x1F2"
abbreviation (input) ATA_LBA_LO :: u16 where "ATA_LBA_LO \<equiv> 0x1F3"
abbreviation (input) ATA_LBA_MID :: u16 where "ATA_LBA_MID \<equiv> 0x1F4"
abbreviation (input) ATA_LBA_HI :: u16 where "ATA_LBA_HI \<equiv> 0x1F5"
abbreviation (input) ATA_DRIVE :: u16 where "ATA_DRIVE \<equiv> 0x1F6"
abbreviation (input) ATA_STATUS :: u16 where "ATA_STATUS \<equiv> 0x1F7"
abbreviation (input) ATA_CMD :: u16 where "ATA_CMD \<equiv> 0x1F7"
abbreviation (input) ATA_SR_BSY :: u8 where "ATA_SR_BSY \<equiv> 0x80"
abbreviation (input) ATA_SR_DF :: u8 where "ATA_SR_DF \<equiv> 0x20"
abbreviation (input) ATA_SR_DRQ :: u8 where "ATA_SR_DRQ \<equiv> 0x08"
abbreviation (input) ATA_SR_ERR :: u8 where "ATA_SR_ERR \<equiv> 0x01"
abbreviation (input) ATA_CMD_READ :: u8 where "ATA_CMD_READ \<equiv> 0x20"
abbreviation (input) ATA_CMD_WRITE :: u8 where "ATA_CMD_WRITE \<equiv> 0x30"
abbreviation (input) ATA_CMD_IDENT :: u8 where "ATA_CMD_IDENT \<equiv> 0xEC"

definition delay_400ns :: "'d ports \<Rightarrow> 'd \<Rightarrow> 'd" where
  "delay_400ns P d = (let i = (\<lambda>d. snd (inb P ATA_STATUS d)) in i (i (i (i d))))"

fun ata_wait_loop :: "'d ports \<Rightarrow> u8 \<Rightarrow> u8 \<Rightarrow> nat \<Rightarrow> 'd \<Rightarrow> int \<times> 'd" where
  "ata_wait_loop P msk val 0 d = (- 2, d)"
| "ata_wait_loop P msk val (Suc n) d =
     (case inb P ATA_STATUS d of (st, d1) \<Rightarrow>
        if st AND msk = val then (0, d1)
        else if st AND ATA_SR_ERR \<noteq> 0 \<or> st AND ATA_SR_DF \<noteq> 0 then (- 1, d1)
        else ata_wait_loop P msk val n d1)"

definition ata_wait :: "'d ports \<Rightarrow> u8 \<Rightarrow> u8 \<Rightarrow> 'd \<Rightarrow> int \<times> 'd" where
  "ata_wait P msk val d = ata_wait_loop P msk val 100000 d"

definition drive_bits :: "nat \<Rightarrow> u32 \<Rightarrow> u8" where
  "drive_bits drv lba = ucast (0xE0 OR push_bit 4 (of_nat drv AND 1) OR (drop_bit 24 lba AND 0x0F) :: u32)"

fun rd_words :: "'d ports \<Rightarrow> nat \<Rightarrow> 'd \<Rightarrow> u16 list \<times> 'd" where
  "rd_words P 0 d = ([], d)"
| "rd_words P (Suc n) d = (case inw P ATA_DATA d of (w, d1) \<Rightarrow> case rd_words P n d1 of (ws, d2) \<Rightarrow> (w # ws, d2))"

definition wr_words :: "'d ports \<Rightarrow> u16 list \<Rightarrow> 'd \<Rightarrow> 'd" where
  "wr_words P ws d = fold (\<lambda>w d. outw P ATA_DATA w d) ws d"

text \<open>The unbounded poll of \<open>identify_drv\<close>; \<open>None\<close> if it never ends.\<close>

partial_function (option) ident_poll :: "'d ports \<Rightarrow> 'd \<Rightarrow> (bool \<times> 'd) option" where
  "ident_poll P d =
     (case inb P ATA_STATUS d of (st, d1) \<Rightarrow>
        if st AND ATA_SR_ERR \<noteq> 0 then Some (False, d1)
        else if st AND ATA_SR_DRQ \<noteq> 0 then Some (True, d1)
        else ident_poll P d1)"

definition identify_drv :: "'d ports \<Rightarrow> nat \<Rightarrow> 'd \<Rightarrow> ((int \<times> u16 list) \<times> 'd) option" where
  "identify_drv P drv d0 =
     (let d1 = outb P ATA_DRIVE (drive_bits drv 0) d0;
          d2 = outb P ATA_SECTORS 0 d1;
          d3 = outb P ATA_LBA_LO 0 d2;
          d4 = outb P ATA_LBA_MID 0 d3;
          d5 = outb P ATA_LBA_HI 0 d4;
          d6 = outb P ATA_CMD ATA_CMD_IDENT d5
      in case inb P ATA_STATUS d6 of (st, d7) \<Rightarrow>
         if st = 0 then Some ((- 1, []), d7)
         else case ata_wait P ATA_SR_BSY 0 d7 of (r, d8) \<Rightarrow>
           if r \<noteq> 0 then Some ((- 2, []), d8)
           else case inb P ATA_STATUS d8 of (st, d9) \<Rightarrow>
             case inb P ATA_LBA_MID d9 of (md, d10) \<Rightarrow>
             case inb P ATA_LBA_HI d10 of (hi, d11) \<Rightarrow>
             if md = 0x14 \<and> hi = 0xEB then Some ((- 3, []), d11)
             else case ident_poll P d11 of
                    None \<Rightarrow> None
                  | Some (drq, d12) \<Rightarrow>
                      if \<not> drq then Some ((- 4, []), d12)
                      else (case rd_words P 256 d12 of (ws, d13) \<Rightarrow> Some ((0, ws), d13)))"

text \<open>Selecting drive, count and address, then the command.\<close>

definition ata_setup :: "'d ports \<Rightarrow> nat \<Rightarrow> u32 \<Rightarrow> u8 \<Rightarrow> u8 \<Rightarrow> 'd \<Rightarrow> 'd" where
  "ata_setup P drv lba count cmd d =
     outb P ATA_CMD cmd
       (outb P ATA_LBA_HI (ucast (drop_bit 16 lba AND 0xFF))
         (outb P ATA_LBA_MID (ucast (drop_bit 8 lba AND 0xFF))
           (outb P ATA_LBA_LO (ucast (lba AND 0xFF))
             (outb P ATA_SECTORS count
               (outb P ATA_DRIVE (drive_bits drv lba) d)))))"

text \<open>The sector loops: the status code, and for reads the words stored in the buffer so far.\<close>

fun read_sectors :: "'d ports \<Rightarrow> nat \<Rightarrow> 'd \<Rightarrow> (int \<times> u16 list) \<times> 'd" where
  "read_sectors P 0 d = ((0, []), d)"
| "read_sectors P (Suc n) d =
     (case ata_wait P ATA_SR_BSY 0 d of (r, d1) \<Rightarrow>
        if r \<noteq> 0 then ((- 1, []), d1)
        else case ata_wait P ATA_SR_DRQ ATA_SR_DRQ d1 of (r, d2) \<Rightarrow>
          if r \<noteq> 0 then ((- 2, []), d2)
          else case rd_words P 256 d2 of (ws, d3) \<Rightarrow>
            case read_sectors P n d3 of ((r, ws'), d4) \<Rightarrow> ((r, ws @ ws'), d4))"

definition read_drv :: "'d ports \<Rightarrow> nat \<Rightarrow> u32 \<Rightarrow> u8 \<Rightarrow> 'd \<Rightarrow> (int \<times> u16 list) \<times> 'd" where
  "read_drv P drv lba count d = read_sectors P (unat count) (ata_setup P drv lba count ATA_CMD_READ d)"

fun write_sectors :: "'d ports \<Rightarrow> nat \<Rightarrow> u16 list \<Rightarrow> 'd \<Rightarrow> int \<times> 'd" where
  "write_sectors P 0 ws d = (0, d)"
| "write_sectors P (Suc n) ws d =
     (case ata_wait P ATA_SR_BSY 0 d of (r, d1) \<Rightarrow>
        if r \<noteq> 0 then (- 1, d1)
        else case ata_wait P ATA_SR_DRQ ATA_SR_DRQ d1 of (r, d2) \<Rightarrow>
          if r \<noteq> 0 then (- 2, d2)
          else write_sectors P n (drop 256 ws) (wr_words P (take 256 ws) d2))"

definition ata_identify :: "'d ports \<Rightarrow> nat \<Rightarrow> 'd \<Rightarrow> ((int \<times> u16 list) \<times> 'd) option" where
  "ata_identify P drive d = identify_drv P drive d"

definition ata_read :: "'d ports \<Rightarrow> nat \<Rightarrow> u32 \<Rightarrow> u8 \<Rightarrow> 'd \<Rightarrow> (int \<times> u16 list) \<times> 'd" where
  "ata_read P drive lba count d = read_drv P drive lba count d"

definition ata_write :: "'d ports \<Rightarrow> nat \<Rightarrow> u32 \<Rightarrow> u8 \<Rightarrow> u16 list \<Rightarrow> 'd \<Rightarrow> int \<times> 'd" where
  "ata_write P drive lba count buf d = write_sectors P (unat count) buf (ata_setup P drive lba count ATA_CMD_WRITE d)"

text \<open>Sectors as bytes: the buffer seen through a \<^verbatim>\<open>u8 *\<close>.\<close>

definition bytes_of_words :: "u16 list \<Rightarrow> u8 list" where
  "bytes_of_words ws = concat (map (\<lambda>w. [ucast w, ucast (drop_bit 8 w)]) ws)"

fun words_of_bytes :: "u8 list \<Rightarrow> u16 list" where
  "words_of_bytes (a # b # r) = word_cat b a # words_of_bytes r"
| "words_of_bytes _ = []"

definition byte_at :: "u8 list \<Rightarrow> nat \<Rightarrow> u8" where
  "byte_at bs i = (if i < length bs then bs ! i else 0)"

definition le16 :: "u8 list \<Rightarrow> nat \<Rightarrow> u16" where
  "le16 bs i = word_cat (byte_at bs (i + 1)) (byte_at bs i)"

definition le32 :: "u8 list \<Rightarrow> nat \<Rightarrow> u32" where
  "le32 bs i = word_cat (le16 bs (i + 2)) (le16 bs i)"

definition looks_like_fat :: "u8 list \<Rightarrow> bool" where
  "looks_like_fat b =
     (let bps = le16 b 11; spc = byte_at b 13; reserved = le16 b 14; nfats = byte_at b 16;
          tsz16 = le16 b 19; fsz16 = le16 b 22; tsz32 = le32 b 32; fsz32 = le32 b 36
      in if bps \<noteq> 512 \<and> bps \<noteq> 1024 \<and> bps \<noteq> 2048 \<and> bps \<noteq> 4096 then False
         else if spc = 0 \<or> spc AND (spc - 1) \<noteq> 0 then False
         else if nfats \<noteq> 1 \<and> nfats \<noteq> 2 then False
         else if reserved = 0 then False
         else if fsz16 = 0 \<and> fsz32 = 0 then False
         else if tsz16 = 0 \<and> tsz32 = 0 then False
         else True)"

text \<open>Whether drive \<open>drv\<close> answers and carries a FAT volume.\<close>

definition probe_drive :: "'d ports \<Rightarrow> nat \<Rightarrow> 'd \<Rightarrow> (bool \<times> 'd) option" where
  "probe_drive P drv d =
     (case identify_drv P drv d of
        None \<Rightarrow> None
      | Some ((ir, _), d1) \<Rightarrow>
          if ir = 0 then
            (case read_drv P drv 0 1 d1 of ((r, ws), d2) \<Rightarrow>
               Some (r = 0 \<and> looks_like_fat (bytes_of_words ws), d2))
          else Some (False, d1))"

definition probe_data_drive :: "'d ports \<Rightarrow> 'd \<Rightarrow> (nat \<times> 'd) option" where
  "probe_data_drive P d =
     (case probe_drive P 0 d of None \<Rightarrow> None
      | Some (fat0, d1) \<Rightarrow> case probe_drive P 1 d1 of None \<Rightarrow> None
        | Some (fat1, d2) \<Rightarrow> Some (if fat0 then 0 else if fat1 then 1 else 1, d2))"

declare ident_poll.simps [code]

section \<open>A drive in PIO mode\<close>

text \<open>The logical state of a pair of drives and what a register or data access does to it. This is documented
  behaviour of the hardware and models no code of the repository.\<close>

datatype pio_mode = Idle | Fail | Rd "u16 list" | Wr u32 nat "u16 list"

record pio =
  r_drv :: u8
  r_cnt :: u8
  r_lo :: u8
  r_mid :: u8
  r_hi :: u8
  pmode :: pio_mode
  sectors :: "bool \<Rightarrow> u32 \<Rightarrow> u16 list"
  present :: "bool \<Rightarrow> bool"
  bad :: "bool \<Rightarrow> u32 \<Rightarrow> bool"
  ident :: "u16 list"

definition pio_sel :: "pio \<Rightarrow> bool" where
  "pio_sel d = bit (r_drv d) 4"

definition pio_lba :: "pio \<Rightarrow> u32" where
  "pio_lba d = push_bit 24 (ucast (r_drv d AND 0x0F)) OR push_bit 16 (ucast (r_hi d)) OR
     push_bit 8 (ucast (r_mid d)) OR ucast (r_lo d)"

definition pio_count :: "pio \<Rightarrow> nat" where
  "pio_count d = (if r_cnt d = 0 then 256 else unat (r_cnt d))"

definition pio_range :: "pio \<Rightarrow> u32 list" where
  "pio_range d = map (\<lambda>i. pio_lba d + of_nat i) [0..<pio_count d]"

definition pio_status :: "pio \<Rightarrow> u8" where
  "pio_status d = (if \<not> present d (pio_sel d) then 0
     else case pmode d of Idle \<Rightarrow> 0x40 | Fail \<Rightarrow> 0x41 | Rd ws \<Rightarrow> (if ws = [] then 0x40 else 0x48) | Wr _ _ _ \<Rightarrow> 0x48)"

definition pio_inb :: "u16 \<Rightarrow> pio \<Rightarrow> u8 \<times> pio" where
  "pio_inb p d = (if p = ATA_STATUS then pio_status d else if p = ATA_LBA_MID then r_mid d
     else if p = ATA_LBA_HI then r_hi d else 0, d)"

definition pio_command :: "u8 \<Rightarrow> pio \<Rightarrow> pio" where
  "pio_command c d =
     (if \<not> present d (pio_sel d) then d
      else if c = ATA_CMD_READ then
        d\<lparr>pmode := (if \<exists>l \<in> set (pio_range d). bad d (pio_sel d) l then Fail
                   else Rd (concat (map (sectors d (pio_sel d)) (pio_range d))))\<rparr>
      else if c = ATA_CMD_WRITE then
        d\<lparr>pmode := (if \<exists>l \<in> set (pio_range d). bad d (pio_sel d) l then Fail else Wr (pio_lba d) (pio_count d) [])\<rparr>
      else if c = ATA_CMD_IDENT then d\<lparr>pmode := Rd (ident d)\<rparr>
      else d\<lparr>pmode := Fail\<rparr>)"

definition pio_outb :: "u16 \<Rightarrow> u8 \<Rightarrow> pio \<Rightarrow> pio" where
  "pio_outb p v d =
     (if p = ATA_DRIVE then d\<lparr>r_drv := v\<rparr> else if p = ATA_SECTORS then d\<lparr>r_cnt := v\<rparr>
      else if p = ATA_LBA_LO then d\<lparr>r_lo := v\<rparr> else if p = ATA_LBA_MID then d\<lparr>r_mid := v\<rparr>
      else if p = ATA_LBA_HI then d\<lparr>r_hi := v\<rparr> else if p = ATA_CMD then pio_command v d else d)"

definition pio_inw :: "u16 \<Rightarrow> pio \<Rightarrow> u16 \<times> pio" where
  "pio_inw p d = (case pmode d of Rd (w # ws) \<Rightarrow> (w, d\<lparr>pmode := Rd ws\<rparr>) | _ \<Rightarrow> (0, d))"

definition pio_outw :: "u16 \<Rightarrow> u16 \<Rightarrow> pio \<Rightarrow> pio" where
  "pio_outw p w d =
     (case pmode d of
        Wr l n acc \<Rightarrow>
          if length acc + 1 < 256 then d\<lparr>pmode := Wr l n (acc @ [w])\<rparr>
          else d\<lparr>sectors := (sectors d)(pio_sel d := (sectors d (pio_sel d))(l := acc @ [w])),
                 pmode := (if n \<le> 1 then Idle else Wr (l + 1) (n - 1) [])\<rparr>
      | _ \<Rightarrow> d)"

definition pio_ports :: "pio ports" where
  "pio_ports = \<lparr>inb = pio_inb, outb = pio_outb, inw = pio_inw, outw = pio_outw\<rparr>"

lemma pio_ports_simps [simp]:
  "inb pio_ports = pio_inb" "outb pio_ports = pio_outb" "inw pio_ports = pio_inw" "outw pio_ports = pio_outw"
  by (simp_all add: pio_ports_def)

section \<open>Drives that follow the protocol\<close>

text \<open>
  What the driver relies on, for any drive: the record \<open>pio\<close> above is the drive's logical state, read off the
  hardware state by \<open>drv\<close>, and \<open>lag\<close> says how long the drive is not ready: for that many status reads BSY is
  set, then for that many more BSY and DRQ are both clear. The bits ERR and DF are clear meanwhile. A drive takes
  its registers and moves data as \<open>pio\<close> does, but only when ready: the laws say nothing of a register or
  data access to a drive that is not. It may be busy after a command and after every sector, for fewer than
  100000 status reads, the bound of \<open>ata_wait\<close>. A drive reports an unreadable sector of the range when it
  accepts the command.
\<close>

abbreviation (input) READY :: "nat \<times> nat" where "READY \<equiv> (0, 0)"

definition lag_ok :: "nat \<times> nat \<Rightarrow> bool" where
  "lag_ok l = (fst l < 100000 \<and> snd l < 100000)"

lemma lag_ok_simps [simp]: "lag_ok (b, s) \<longleftrightarrow> b < 100000 \<and> s < 100000"
  by (simp add: lag_ok_def)

locale pio_drive =
  fixes P :: "'d ports"
    and lag :: "'d \<Rightarrow> nat \<times> nat"
    and drv :: "'d \<Rightarrow> pio"
  assumes status_busy: "lag d = (Suc b, s) \<Longrightarrow> inb P ATA_STATUS d = (st, d') \<Longrightarrow>
      st AND ATA_SR_BSY \<noteq> 0 \<and> st AND ATA_SR_ERR = 0 \<and> st AND ATA_SR_DF = 0 \<and> lag d' = (b, s) \<and> drv d' = drv d"
    and status_slow: "lag d = (0, Suc s) \<Longrightarrow> inb P ATA_STATUS d = (st, d') \<Longrightarrow>
      (\<forall>m \<in> {ATA_SR_BSY, ATA_SR_DF, ATA_SR_DRQ, ATA_SR_ERR}. st AND m = 0) \<and> lag d' = (0, s) \<and> drv d' = drv d"
    and status_ready: "lag d = READY \<Longrightarrow> inb P ATA_STATUS d = (st, d') \<Longrightarrow>
      (\<forall>m \<in> {ATA_SR_BSY, ATA_SR_DF, ATA_SR_DRQ, ATA_SR_ERR}. st AND m = pio_status (drv d) AND m) \<and>
      lag d' = READY \<and> drv d' = drv d"
    and register: "lag d = READY \<Longrightarrow> p \<in> {ATA_DRIVE, ATA_SECTORS, ATA_LBA_LO, ATA_LBA_MID, ATA_LBA_HI} \<Longrightarrow>
      lag (outb P p v d) = READY \<and> drv (outb P p v d) = pio_outb p v (drv d)"
    and command: "lag d = READY \<Longrightarrow> lag_ok (lag (outb P ATA_CMD v d)) \<and> drv (outb P ATA_CMD v d) = pio_command v (drv d)"
    and data_in: "lag d = READY \<Longrightarrow> pmode (drv d) = Rd (w # ws) \<Longrightarrow> inw P ATA_DATA d = (u, d') \<Longrightarrow>
      u = w \<and> drv d' = (drv d)\<lparr>pmode := Rd ws\<rparr> \<and>
      (if ws \<noteq> [] \<and> 256 dvd length ws then lag_ok (lag d') else lag d' = READY)"
    and data_out: "lag d = READY \<Longrightarrow> pmode (drv d) = Wr l n acc \<Longrightarrow>
      drv (outw P ATA_DATA u d) = pio_outw ATA_DATA u (drv d) \<and>
      (if length acc + 1 < 256 then lag (outw P ATA_DATA u d) = READY else lag_ok (lag (outw P ATA_DATA u d)))"

text \<open>A drive that is ready again as soon as it has taken the last sector of a write, as one with a write cache is.
  The driver needs it wherever a command follows a write at once: it does not wait for BSY before a command.\<close>

locale prompt_drive = pio_drive +
  assumes last_sector: "lag d = READY \<Longrightarrow> pmode (drv d) = Wr l n acc \<Longrightarrow> 256 \<le> length acc + 1 \<Longrightarrow> n \<le> 1 \<Longrightarrow>
      lag (outw P ATA_DATA u d) = READY"

text \<open>Reading the status \<open>k\<close> times, as a caller who waits would.\<close>

definition poll_status :: "'d ports \<Rightarrow> nat \<Rightarrow> 'd \<Rightarrow> 'd" where
  "poll_status P k d = ((\<lambda>d. snd (inb P ATA_STATUS d)) ^^ k) d"

definition drive_ok :: "nat \<Rightarrow> pio \<Rightarrow> bool" where
  "drive_ok drive d = (present d (odd drive) \<and> (\<forall>b l. length (sectors d b l) = 256))"

definition lbas :: "u32 \<Rightarrow> nat \<Rightarrow> u32 list" where
  "lbas lba n = map (\<lambda>i. lba + of_nat i) [0..<n]"

text \<open>What the setup writes: the registers encode the drive and the low 28 bits of the address.\<close>

lemma bit_byte_masks [simp]:
  "bit (0x0F :: u8) n \<longleftrightarrow> n < 4" "bit (0xE0 :: u8) n \<longleftrightarrow> 5 \<le> n \<and> n < 8" "bit (0x10 :: u8) n \<longleftrightarrow> n = 4"
  "bit (0xFF :: u32) n \<longleftrightarrow> n < 8" "bit (0x0F :: u32) n \<longleftrightarrow> n < 4" "bit (0xE0 :: u32) n \<longleftrightarrow> 5 \<le> n \<and> n < 8"
proof -
  have a: "(0x0F :: u8) = mask 4" "(0xFF :: u32) = mask 8" "(0x0F :: u32) = mask 4" by (simp_all add: mask_eq_exp_minus_1)
  show "bit (0x0F :: u8) n \<longleftrightarrow> n < 4" "bit (0xFF :: u32) n \<longleftrightarrow> n < 8" "bit (0x0F :: u32) n \<longleftrightarrow> n < 4"
    unfolding a by (auto simp: bit_mask_iff)
  have b: "(0xE0 :: u8) = NOT (mask 5)" "(0xE0 :: u32) = push_bit 5 (mask 3)"
    by (simp_all add: mask_eq_exp_minus_1 word_uint_eq_iff push_bit_eq_mult)
  show "bit (0xE0 :: u8) n \<longleftrightarrow> 5 \<le> n \<and> n < 8" "bit (0xE0 :: u32) n \<longleftrightarrow> 5 \<le> n \<and> n < 8"
    unfolding b by (auto simp: bit_simps)
  show "bit (0x10 :: u8) n \<longleftrightarrow> n = 4" using bit_exp_iff [of 4 n, where 'a = u8] by (auto simp: possible_bit_word)
qed

declare bit_numeral_word_iff [simp del]

lemma drive_bits_alt: "drive_bits drv lba = 0xE0 OR (if odd drv then 0x10 else 0) OR (ucast (drop_bit 24 lba) AND 0x0F)"
proof -
  have o: "(of_nat drv :: u32) AND 1 = (if odd drv then 1 else 0)"
    by (simp add: and_one_eq mod_2_eq_odd even_of_nat)
  show ?thesis
    unfolding drive_bits_def o by (rule bit_word_eqI) (auto simp: bit_simps)
qed

definition pio_setup :: "nat \<Rightarrow> u32 \<Rightarrow> u8 \<Rightarrow> pio \<Rightarrow> pio" where
  "pio_setup drv lba count d = d\<lparr>r_drv := drive_bits drv lba, r_cnt := count, r_lo := ucast (lba AND 0xFF),
     r_mid := ucast (drop_bit 8 lba AND 0xFF), r_hi := ucast (drop_bit 16 lba AND 0xFF)\<rparr>"

lemma pio_setup_sel: "pio_sel (pio_setup drv lba count d) = odd drv"
  by (simp add: pio_sel_def pio_setup_def drive_bits_alt bit_or_iff bit_and_iff)

lemma pio_setup_lba:
  assumes "unat lba < 2 ^ 28"
  shows "pio_lba (pio_setup drv lba count d) = lba"
proof (rule bit_word_eqI)
  fix n assume "n < LENGTH(32)"
  have hi: "\<not> bit lba n" if "28 \<le> n"
  proof -
    have "unat lba < 2 ^ n" using assms that by (meson less_le_trans one_le_numeral power_increasing)
    then have "\<not> bit (unat lba) n" by (simp add: bit_iff_odd)
    then show ?thesis by (simp add: bit_unsigned_iff)
  qed
  define D where "D = drive_bits drv lba AND 0x0F"
  have D: "bit D k \<longleftrightarrow> k < 4 \<and> bit lba (24 + k)" for k
    unfolding D_def drive_bits_alt by (cases "k < 4") (simp_all add: bit_and_iff bit_or_iff bit_ucast_iff bit_drop_bit_eq)
  have lo: "bit (ucast (drop_bit m lba AND 0xFF) :: u8) k \<longleftrightarrow> k < 8 \<and> bit lba (m + k)" for k m
    by (cases "k < 8") (simp_all add: bit_and_iff bit_ucast_iff bit_drop_bit_eq)
  have e: "pio_lba (pio_setup drv lba count d) = push_bit 24 (ucast D) OR push_bit 16 (ucast (ucast (drop_bit 16 lba AND 0xFF) :: u8)) OR
      push_bit 8 (ucast (ucast (drop_bit 8 lba AND 0xFF) :: u8)) OR ucast (ucast (drop_bit 0 lba AND 0xFF) :: u8)"
    unfolding pio_lba_def pio_setup_def D_def by simp
  have p: "bit (push_bit m (ucast (w :: u8)) :: u32) n \<longleftrightarrow> m \<le> n \<and> bit w (n - m)" for m and w :: u8
    using \<open>n < LENGTH(32)\<close> bit_imp_le_length [of w "n - m"] by (auto simp: bit_push_bit_iff bit_ucast_iff)
  have p0: "bit (ucast (w :: u8) :: u32) n \<longleftrightarrow> bit w n" for w :: u8
    using \<open>n < LENGTH(32)\<close> by (simp add: bit_ucast_iff)
  have b: "bit (pio_lba (pio_setup drv lba count d)) n \<longleftrightarrow>
      24 \<le> n \<and> n - 24 < 4 \<and> bit lba (24 + (n - 24)) \<or> 16 \<le> n \<and> n - 16 < 8 \<and> bit lba (16 + (n - 16)) \<or>
      8 \<le> n \<and> n - 8 < 8 \<and> bit lba (8 + (n - 8)) \<or> n < 8 \<and> bit lba (0 + n)"
    unfolding e bit_or_iff p p0 D lo by blast
  consider "n < 8" | "8 \<le> n" "n < 16" | "16 \<le> n" "n < 24" | "24 \<le> n" "n < 28" | "28 \<le> n" by linarith
  then show "bit (pio_lba (pio_setup drv lba count d)) n = bit lba n"
    unfolding b using hi by cases (auto simp: less_diff_conv2)
qed

fun put_secs :: "(u32 \<Rightarrow> u16 list) \<Rightarrow> u32 \<Rightarrow> u16 list list \<Rightarrow> (u32 \<Rightarrow> u16 list)" where
  "put_secs f l [] = f"
| "put_secs f l (s # ss) = put_secs (f(l := s)) (l + 1) ss"

lemma pmode_id: "pmode d = x \<Longrightarrow> d\<lparr>pmode := x\<rparr> = d"
  by (cases d) simp

lemma pio_sel_pmode [simp]: "pio_sel (d\<lparr>pmode := x\<rparr>) = pio_sel d" "pio_sel (d\<lparr>sectors := y\<rparr>) = pio_sel d"
  by (simp_all add: pio_sel_def)

lemma pio_status_bits:
  "pio_status d AND ATA_SR_BSY = 0" "pio_status d AND ATA_SR_DF = 0"
  "present d (pio_sel d) \<Longrightarrow> pmode d = Rd (w # ws) \<Longrightarrow> pio_status d AND ATA_SR_DRQ = ATA_SR_DRQ"
  "present d (pio_sel d) \<Longrightarrow> pmode d = Wr l n acc \<Longrightarrow> pio_status d AND ATA_SR_DRQ = ATA_SR_DRQ"
  "present d (pio_sel d) \<Longrightarrow> pmode d = Fail \<Longrightarrow> pio_status d AND ATA_SR_DRQ = 0 \<and> pio_status d AND ATA_SR_ERR \<noteq> 0"
  by (auto simp: pio_status_def split: pio_mode.splits)

lemma pio_setup_range:
  assumes "unat lba < 2 ^ 28" "count \<noteq> 0"
  shows "pio_range (pio_setup drv lba count d) = lbas lba (unat count)"
proof -
  have "pio_count (pio_setup drv lba count d) = unat count"
    using assms(2) by (simp add: pio_count_def pio_setup_def)
  then show ?thesis by (simp add: pio_range_def lbas_def pio_setup_lba [OF assms(1)])
qed

lemma pio_setup_frame [simp]:
  "sectors (pio_setup drv lba count d) = sectors d" "present (pio_setup drv lba count d) = present d"
  "bad (pio_setup drv lba count d) = bad d"
  by (simp_all add: pio_setup_def)

context pio_drive begin

lemma wait_not_busy:
  assumes "lag d = (b, s)" "b < n"
  shows "\<exists>d'. ata_wait_loop P ATA_SR_BSY 0 n d = (0, d') \<and> drv d' = drv d \<and> lag d' = (0, s - 1)"
  using assms
proof (induction n arbitrary: b d)
  case (Suc n)
  obtain st d1 where i: "inb P ATA_STATUS d = (st, d1)" by (metis surj_pair)
  show ?case
  proof (cases b)
    case 0
    show ?thesis
    proof (cases s)
      case 0
      with \<open>b = 0\<close> Suc.prems(1) status_ready [OF _ i] pio_status_bits(1) [of "drv d"] i show ?thesis by auto
    next
      case (Suc s')
      with \<open>b = 0\<close> Suc.prems(1) status_slow [OF _ i] i show ?thesis by auto
    qed
  next
    case (Suc b')
    then have "st AND ATA_SR_BSY \<noteq> 0 \<and> st AND ATA_SR_ERR = 0 \<and> st AND ATA_SR_DF = 0 \<and> lag d1 = (b', s) \<and> drv d1 = drv d"
      using Suc.prems(1) by (intro status_busy [OF _ i]) simp
    moreover have "b' < n" using Suc Suc.prems(2) by simp
    ultimately show ?thesis using Suc.IH [of d1 b'] i by auto
  qed
qed simp

lemma wait_bsy:
  assumes "lag_ok (lag d)"
  shows "\<exists>d'. ata_wait P ATA_SR_BSY 0 d = (0, d') \<and> drv d' = drv d \<and> lag_ok (lag d') \<and> fst (lag d') = 0"
  using assms wait_not_busy [of d "fst (lag d)" "snd (lag d)" 100000] by (fastforce simp: ata_wait_def lag_ok_def)

lemma wait_data:
  assumes "lag d = (0, s)" "s < n" "pio_status (drv d) AND ATA_SR_DRQ = ATA_SR_DRQ"
  shows "\<exists>d'. ata_wait_loop P ATA_SR_DRQ ATA_SR_DRQ n d = (0, d') \<and> drv d' = drv d \<and> lag d' = READY"
  using assms
proof (induction n arbitrary: s d)
  case (Suc n)
  obtain st d1 where i: "inb P ATA_STATUS d = (st, d1)" by (metis surj_pair)
  show ?case
  proof (cases s)
    case 0
    with Suc.prems(1,3) status_ready [OF _ i] i show ?thesis by auto
  next
    case (Suc s')
    then have "(\<forall>m \<in> {ATA_SR_BSY, ATA_SR_DF, ATA_SR_DRQ, ATA_SR_ERR}. st AND m = 0) \<and> lag d1 = (0, s') \<and> drv d1 = drv d"
      using Suc.prems(1) by (intro status_slow [OF _ i]) simp
    moreover have "s' < n" using Suc Suc.prems(2) by simp
    ultimately show ?thesis using Suc.IH [of d1 s'] Suc.prems(3) i by auto
  qed
qed simp

lemma wait_fail:
  assumes "lag d = (0, s)" "s < n" "pio_status (drv d) AND ATA_SR_DRQ = 0 \<and> pio_status (drv d) AND ATA_SR_ERR \<noteq> 0"
  shows "\<exists>d'. ata_wait_loop P ATA_SR_DRQ ATA_SR_DRQ n d = (- 1, d') \<and> drv d' = drv d \<and> lag d' = READY"
  using assms
proof (induction n arbitrary: s d)
  case (Suc n)
  obtain st d1 where i: "inb P ATA_STATUS d = (st, d1)" by (metis surj_pair)
  show ?case
  proof (cases s)
    case 0
    with Suc.prems(1,3) status_ready [OF _ i] i show ?thesis by auto
  next
    case (Suc s')
    then have "(\<forall>m \<in> {ATA_SR_BSY, ATA_SR_DF, ATA_SR_DRQ, ATA_SR_ERR}. st AND m = 0) \<and> lag d1 = (0, s') \<and> drv d1 = drv d"
      using Suc.prems(1) by (intro status_slow [OF _ i]) simp
    moreover have "s' < n" using Suc Suc.prems(2) by simp
    ultimately show ?thesis using Suc.IH [of d1 s'] Suc.prems(3) i by auto
  qed
qed simp

lemma wait_drq:
  assumes "lag_ok (lag d)" "fst (lag d) = 0" "present (drv d) (pio_sel (drv d))"
    "(\<exists>w ws. pmode (drv d) = Rd (w # ws)) \<or> (\<exists>l n acc. pmode (drv d) = Wr l n acc)"
  shows "\<exists>d'. ata_wait P ATA_SR_DRQ ATA_SR_DRQ d = (0, d') \<and> drv d' = drv d \<and> lag d' = READY"
proof -
  have "lag d = (0, snd (lag d))" "snd (lag d) < 100000" using assms(1,2) by (simp_all add: lag_ok_def prod_eq_iff)
  moreover have "pio_status (drv d) AND ATA_SR_DRQ = ATA_SR_DRQ" using assms(3,4) pio_status_bits(3,4) by blast
  ultimately show ?thesis unfolding ata_wait_def by (rule wait_data)
qed

lemma wait_drq_fail:
  assumes "lag_ok (lag d)" "fst (lag d) = 0" "present (drv d) (pio_sel (drv d))" "pmode (drv d) = Fail"
  shows "\<exists>d'. ata_wait P ATA_SR_DRQ ATA_SR_DRQ d = (- 1, d') \<and> drv d' = drv d \<and> lag d' = READY"
proof -
  have "lag d = (0, snd (lag d))" "snd (lag d) < 100000" using assms(1,2) by (simp_all add: lag_ok_def prod_eq_iff)
  then show ?thesis unfolding ata_wait_def by (rule wait_fail) (rule pio_status_bits(5) [OF assms(3,4)])
qed

lemma read_words:
  assumes "lag d = READY" "pmode (drv d) = Rd (ws @ rest)" "length ws \<le> 256" "ws \<noteq> []" "256 dvd length rest"
  shows "\<exists>d'. rd_words P (length ws) d = (ws, d') \<and> drv d' = (drv d)\<lparr>pmode := Rd rest\<rparr> \<and>
    (if rest = [] then lag d' = READY else lag_ok (lag d'))"
  using assms
proof (induction ws arbitrary: d)
  case (Cons w ws)
  obtain v d1 where i: "inw P ATA_DATA d = (v, d1)" by (metis surj_pair)
  have di: "v = w \<and> drv d1 = (drv d)\<lparr>pmode := Rd (ws @ rest)\<rparr> \<and>
      (if ws @ rest \<noteq> [] \<and> 256 dvd length (ws @ rest) then lag_ok (lag d1) else lag d1 = READY)"
    by (rule data_in [OF _ _ i]) (use Cons.prems in simp_all)
  show ?case
  proof (cases "ws = []")
    case True
    with di i Cons.prems(5) show ?thesis by auto
  next
    case False
    have "\<not> 256 dvd length ws" using False Cons.prems(3) by (auto dest: dvd_imp_le)
    then have "\<not> 256 dvd length (ws @ rest)" using Cons.prems(5) by (simp add: dvd_add_left_iff)
    then have "lag d1 = READY" "pmode (drv d1) = Rd (ws @ rest)" using di by auto
    from Cons.IH [OF this _ False Cons.prems(5)] Cons.prems(3) di i show ?thesis by fastforce
  qed
qed simp

lemma read_sectors_ok:
  assumes "present (drv d) (pio_sel (drv d))" "pmode (drv d) = Rd (concat secs)" "\<forall>s \<in> set secs. length s = 256"
    "if secs = [] then lag d = READY else lag_ok (lag d)"
  shows "\<exists>d'. read_sectors P (length secs) d = ((0, concat secs), d') \<and> drv d' = (drv d)\<lparr>pmode := Rd []\<rparr> \<and> lag d' = READY"
  using assms
proof (induction secs arbitrary: d)
  case Nil
  then show ?case by (auto simp: pmode_id)
next
  case (Cons s secs)
  have s: "length s = 256" "s \<noteq> []" using Cons.prems(3) by auto
  obtain d1 where b: "ata_wait P ATA_SR_BSY 0 d = (0, d1)" "drv d1 = drv d" "lag_ok (lag d1)" "fst (lag d1) = 0"
    using wait_bsy [of d] Cons.prems(4) by auto
  have "\<exists>w ws. pmode (drv d1) = Rd (w # ws)" using b(2) Cons.prems(2) s(2) by (cases s) auto
  then obtain d2 where q: "ata_wait P ATA_SR_DRQ ATA_SR_DRQ d1 = (0, d2)" "drv d2 = drv d" "lag d2 = READY"
    using wait_drq [OF b(3,4)] b(2) Cons.prems(1) by auto
  have "256 dvd length (concat secs)" using Cons.prems(3) by (induction secs) auto
  moreover have "concat secs = [] \<longleftrightarrow> secs = []" using Cons.prems(3) by (cases secs) auto
  ultimately obtain d3 where w: "rd_words P 256 d2 = (s, d3)" "drv d3 = (drv d)\<lparr>pmode := Rd (concat secs)\<rparr>"
      "if secs = [] then lag d3 = READY else lag_ok (lag d3)"
    using read_words [of d2 s "concat secs"] q s Cons.prems(2) by auto
  then show ?case using Cons.IH [of d3] Cons.prems(1,3) b(1) q(1) by fastforce
qed

lemma write_words:
  assumes "lag d = READY" "pmode (drv d) = Wr l n acc" "length acc + length ws = 256" "ws \<noteq> []"
  shows "drv (wr_words P ws d) = (drv d)\<lparr>sectors := (sectors (drv d))(pio_sel (drv d) := (sectors (drv d) (pio_sel (drv d)))(l := acc @ ws)),
       pmode := (if n \<le> 1 then Idle else Wr (l + 1) (n - 1) [])\<rparr> \<and> lag_ok (lag (wr_words P ws d)) \<and>
    (\<exists>d' acc'. wr_words P ws d = outw P ATA_DATA (last ws) d' \<and> lag d' = READY \<and> pmode (drv d') = Wr l n acc' \<and> length acc' = 255)"
  using assms
proof (induction ws arbitrary: d acc)
  case (Cons w ws)
  note o = data_out [OF Cons.prems(1,2), of w]
  show ?case
  proof (cases ws)
    case Nil
    then show ?thesis using Cons.prems o
      by (auto simp: wr_words_def pio_outw_def fun_upd_def intro!: exI [of _ d])
  next
    case (Cons w' ws')
    let ?d = "outw P ATA_DATA w d"
    have d: "lag ?d = READY" "drv ?d = (drv d)\<lparr>pmode := Wr l n (acc @ [w])\<rparr>"
      using o Cons.prems Cons by (auto simp: pio_outw_def)
    then have "pmode (drv ?d) = Wr l n (acc @ [w])" by simp
    from Cons.IH [OF d(1) this] Cons.prems Cons d(2) show ?thesis by (simp add: wr_words_def)
  qed
qed simp

lemma write_sectors_ok:
  assumes "present (drv d) (pio_sel (drv d))" "pmode (drv d) = Wr l (length secs) []" "secs \<noteq> []" "\<forall>s \<in> set secs. length s = 256"
    "lag_ok (lag d)"
  shows "\<exists>d'. write_sectors P (length secs) (concat secs) d = (0, d') \<and> lag_ok (lag d') \<and>
    drv d' = (drv d)\<lparr>sectors := (sectors (drv d))(pio_sel (drv d) := put_secs (sectors (drv d) (pio_sel (drv d))) l secs), pmode := Idle\<rparr> \<and>
    (\<exists>d'' v l' acc n. d' = outw P ATA_DATA v d'' \<and> lag d'' = READY \<and> pmode (drv d'') = Wr l' n acc \<and> length acc = 255 \<and> n \<le> 1)"
  using assms
proof (induction secs arbitrary: d l)
  case (Cons s secs)
  have s: "length s = 256" "s \<noteq> []" using Cons.prems(4) by auto
  obtain d1 where b: "ata_wait P ATA_SR_BSY 0 d = (0, d1)" "drv d1 = drv d" "lag_ok (lag d1)" "fst (lag d1) = 0"
    using wait_bsy [OF Cons.prems(5)] by auto
  obtain d2 where q: "ata_wait P ATA_SR_DRQ ATA_SR_DRQ d1 = (0, d2)" "drv d2 = drv d" "lag d2 = READY"
    using wait_drq [OF b(3,4)] b(2) Cons.prems(1,2) by auto
  let ?w = "wr_words P s d2"
  have "pmode (drv d2) = Wr l (length (s # secs)) []" using q(2) Cons.prems(2) by simp
  note w = write_words [OF q(3) this, of s, simplified, OF s] 
  have step: "write_sectors P (length (s # secs)) (concat (s # secs)) d = write_sectors P (length secs) (concat secs) ?w"
    using b q s by simp
  have wd: "drv ?w = (drv d)\<lparr>sectors := (sectors (drv d))(pio_sel (drv d) := (sectors (drv d) (pio_sel (drv d)))(l := s)),
       pmode := (if length (s # secs) \<le> 1 then Idle else Wr (l + 1) (length secs) [])\<rparr>"
    using w q(2) by (simp del: fun_upd_apply)
  show ?case
  proof (cases "secs = []")
    case True
    with step w q(2) show ?thesis by (fastforce simp del: fun_upd_apply)
  next
    case False
    have "present (drv ?w) (pio_sel (drv ?w))" "pmode (drv ?w) = Wr (l + 1) (length secs) []"
      using wd Cons.prems(1) False by (simp_all del: fun_upd_apply)
    from Cons.IH [OF this False] Cons.prems(4) w wd show ?thesis
      unfolding step by (simp add: q(2) fun_upd_same del: fun_upd_apply)
  qed
qed simp

lemma setup_ok:
  assumes "lag d = READY"
  shows "drv (ata_setup P drive lba count cmd d) = pio_command cmd (pio_setup drive lba count (drv d))"
    "lag_ok (lag (ata_setup P drive lba count cmd d))"
  using assms by (simp_all add: ata_setup_def register command pio_setup_def) (simp add: pio_outb_def)

lemma ata_read_drive:
  assumes "lag d = READY" "drive_ok drive (drv d)" "unat lba < 2 ^ 28" "count \<noteq> 0"
  shows "\<exists>d'. lag d' = READY \<and>
    (if \<exists>l \<in> set (lbas lba (unat count)). bad (drv d) (odd drive) l
     then ata_read P drive lba count d = ((- 2, []), d') \<and> drv d' = (pio_setup drive lba count (drv d))\<lparr>pmode := Fail\<rparr>
     else ata_read P drive lba count d = ((0, concat (map (sectors (drv d) (odd drive)) (lbas lba (unat count)))), d') \<and>
       drv d' = (pio_setup drive lba count (drv d))\<lparr>pmode := Rd []\<rparr>)"
proof -
  let ?s = "pio_setup drive lba count (drv d)"
  let ?d = "ata_setup P drive lba count ATA_CMD_READ d"
  note f = pio_setup_sel [of drive lba count "drv d"] pio_setup_range [OF assms(3,4)]
  have pr: "present (drv d) (odd drive)" using assms(2) by (simp add: drive_ok_def)
  obtain n where n: "unat count = Suc n" using assms(4) by (cases "unat count") (simp_all add: unat_eq_zero)
  note su = setup_ok [OF assms(1), of drive lba count ATA_CMD_READ]
  show ?thesis
  proof (cases "\<exists>l \<in> set (lbas lba (unat count)). bad (drv d) (odd drive) l")
    case True
    have dd: "drv ?d = ?s\<lparr>pmode := Fail\<rparr>" using True pr by (simp add: su(1) pio_command_def f)
    obtain d1 where b: "ata_wait P ATA_SR_BSY 0 ?d = (0, d1)" "drv d1 = drv ?d" "lag_ok (lag d1)" "fst (lag d1) = 0"
      using wait_bsy [OF su(2)] by auto
    obtain d2 where q: "ata_wait P ATA_SR_DRQ ATA_SR_DRQ d1 = (- 1, d2)" "drv d2 = drv ?d" "lag d2 = READY"
      using wait_drq_fail [OF b(3,4)] b(2) pr by (auto simp: dd f)
    then show ?thesis using True b q dd by (auto simp: ata_read_def read_drv_def n)
  next
    case False
    let ?secs = "map (sectors (drv d) (odd drive)) (lbas lba (unat count))"
    have dd: "drv ?d = ?s\<lparr>pmode := Rd (concat ?secs)\<rparr>" using False pr by (simp add: su(1) pio_command_def f)
    have "\<exists>d'. read_sectors P (length ?secs) ?d = ((0, concat ?secs), d') \<and> drv d' = (drv ?d)\<lparr>pmode := Rd []\<rparr> \<and> lag d' = READY"
      by (rule read_sectors_ok) (use assms(2) su(2) pr n in \<open>auto simp: dd f drive_ok_def lbas_def\<close>)
    then show ?thesis using False dd by (auto simp: ata_read_def read_drv_def lbas_def)
  qed
qed

lemma ata_write_drive:
  assumes "lag d = READY" "drive_ok drive (drv d)" "unat lba < 2 ^ 28" "count \<noteq> 0" "length secs = unat count" "\<forall>s \<in> set secs. length s = 256"
  shows "\<exists>d'. if \<exists>l \<in> set (lbas lba (unat count)). bad (drv d) (odd drive) l
    then ata_write P drive lba count (concat secs) d = (- 2, d') \<and> drv d' = (pio_setup drive lba count (drv d))\<lparr>pmode := Fail\<rparr> \<and> lag d' = READY
    else ata_write P drive lba count (concat secs) d = (0, d') \<and> lag_ok (lag d') \<and>
      drv d' = (pio_setup drive lba count (drv d))\<lparr>sectors := (sectors (drv d))(odd drive := put_secs (sectors (drv d) (odd drive)) lba secs), pmode := Idle\<rparr> \<and>
      (\<exists>d'' v l' acc n. d' = outw P ATA_DATA v d'' \<and> lag d'' = READY \<and> pmode (drv d'') = Wr l' n acc \<and> length acc = 255 \<and> n \<le> 1)"
proof -
  let ?s = "pio_setup drive lba count (drv d)"
  let ?d = "ata_setup P drive lba count ATA_CMD_WRITE d"
  note f = pio_setup_sel [of drive lba count "drv d"] pio_setup_range [OF assms(3,4)]
  have pr: "present (drv d) (odd drive)" using assms(2) by (simp add: drive_ok_def)
  obtain n where n: "unat count = Suc n" using assms(4) by (cases "unat count") (simp_all add: unat_eq_zero)
  note su = setup_ok [OF assms(1), of drive lba count ATA_CMD_WRITE]
  show ?thesis
  proof (cases "\<exists>l \<in> set (lbas lba (unat count)). bad (drv d) (odd drive) l")
    case True
    have dd: "drv ?d = ?s\<lparr>pmode := Fail\<rparr>" using True pr by (simp add: su(1) pio_command_def f)
    obtain d1 where b: "ata_wait P ATA_SR_BSY 0 ?d = (0, d1)" "drv d1 = drv ?d" "lag_ok (lag d1)" "fst (lag d1) = 0"
      using wait_bsy [OF su(2)] by auto
    obtain d2 where q: "ata_wait P ATA_SR_DRQ ATA_SR_DRQ d1 = (- 1, d2)" "drv d2 = drv ?d" "lag d2 = READY"
      using wait_drq_fail [OF b(3,4)] b(2) pr by (auto simp: dd f)
    then show ?thesis using True b q dd by (auto simp: ata_write_def n)
  next
    case False
    have cnt: "pio_count ?s = length secs" using assms(4,5) by (simp add: pio_count_def pio_setup_def)
    have dd: "drv ?d = ?s\<lparr>pmode := Wr lba (length secs) []\<rparr>"
      using False pr by (simp add: su(1) pio_command_def f cnt pio_setup_lba [OF assms(3)])
    have "secs \<noteq> []" using assms(5) n by auto
    from write_sectors_ok [of ?d lba secs, OF _ _ this assms(6) su(2)] pr dd f
    have "\<exists>d'. write_sectors P (length secs) (concat secs) ?d = (0, d') \<and> lag_ok (lag d') \<and>
      drv d' = ?s\<lparr>sectors := (sectors (drv d))(odd drive := put_secs (sectors (drv d) (odd drive)) lba secs), pmode := Idle\<rparr> \<and>
      (\<exists>d'' v l' acc n. d' = outw P ATA_DATA v d'' \<and> lag d'' = READY \<and> pmode (drv d'') = Wr l' n acc \<and> length acc = 255 \<and> n \<le> 1)"
      by (simp del: fun_upd_apply)
    then show ?thesis using False assms(5) by (simp add: ata_write_def del: fun_upd_apply)
  qed
qed

lemma poll_one:
  assumes "lag d = (b, s)"
  shows "drv (snd (inb P ATA_STATUS d)) = drv d \<and>
    fst (lag (snd (inb P ATA_STATUS d))) + snd (lag (snd (inb P ATA_STATUS d))) = b + s - 1"
proof -
  obtain st d1 where i: "inb P ATA_STATUS d = (st, d1)" by (metis surj_pair)
  show ?thesis
    using assms status_busy [OF _ i, of "b - 1" s] status_slow [OF _ i, of "s - 1"] status_ready [OF _ i] i
    by (cases b; cases s) auto
qed

lemma poll_ready:
  assumes "fst (lag d) + snd (lag d) \<le> k"
  shows "lag (poll_status P k d) = READY" "drv (poll_status P k d) = drv d"
proof -
  have "drv (poll_status P k d) = drv d \<and> fst (lag (poll_status P k d)) + snd (lag (poll_status P k d)) = fst (lag d) + snd (lag d) - k" for k
  proof (induction k)
    case (Suc k)
    have "poll_status P (Suc k) d = snd (inb P ATA_STATUS (poll_status P k d))" by (simp add: poll_status_def)
    with Suc poll_one [of "poll_status P k d" "fst (lag (poll_status P k d))" "snd (lag (poll_status P k d))"]
    show ?case by simp
  qed (simp add: poll_status_def)
  from this [of k] assms show "lag (poll_status P k d) = READY" "drv (poll_status P k d) = drv d"
    by (simp_all add: prod_eq_iff)
qed

end

context prompt_drive begin

lemma ata_write_prompt:
  assumes "lag d = READY" "drive_ok drive (drv d)" "unat lba < 2 ^ 28" "count \<noteq> 0" "length secs = unat count" "\<forall>s \<in> set secs. length s = 256"
  shows "\<exists>d'. lag d' = READY \<and>
    (if \<exists>l \<in> set (lbas lba (unat count)). bad (drv d) (odd drive) l
     then ata_write P drive lba count (concat secs) d = (- 2, d') \<and> drv d' = (pio_setup drive lba count (drv d))\<lparr>pmode := Fail\<rparr>
     else ata_write P drive lba count (concat secs) d = (0, d') \<and>
       drv d' = (pio_setup drive lba count (drv d))\<lparr>sectors := (sectors (drv d))(odd drive := put_secs (sectors (drv d) (odd drive)) lba secs), pmode := Idle\<rparr>)"
proof (cases "\<exists>l \<in> set (lbas lba (unat count)). bad (drv d) (odd drive) l")
  case True
  with ata_write_drive [OF assms] show ?thesis by auto
next
  case False
  then obtain d' d'' v l' acc n where w: "ata_write P drive lba count (concat secs) d = (0, d')"
      "drv d' = (pio_setup drive lba count (drv d))\<lparr>sectors := (sectors (drv d))(odd drive := put_secs (sectors (drv d) (odd drive)) lba secs), pmode := Idle\<rparr>"
    and l: "d' = outw P ATA_DATA v d''" "lag d'' = READY" "pmode (drv d'') = Wr l' n acc" "length acc = 255" "n \<le> 1"
    using ata_write_drive [OF assms] by (auto simp del: fun_upd_apply)
  have "lag d' = READY" unfolding l(1) by (rule last_sector [OF l(2,3)]) (use l in simp_all)
  with w False show ?thesis by (auto simp del: fun_upd_apply)
qed

end

section \<open>Drives\<close>

text \<open>The drive that is always ready, and one that is not ready for \<open>K\<close> status reads with BSY set and \<open>K\<close> more
  without DRQ after a command or a sector (\<open>W\<close> of each after the last sector of a write), and that ignores every
  access meanwhile.\<close>

interpretation instant: prompt_drive pio_ports "\<lambda>_. READY" "\<lambda>d. d"
  by unfold_locales (auto simp: pio_inb_def pio_inw_def pio_outb_def)

record slow_pio =
  core :: pio
  bsy :: nat
  slw :: nat

definition slow_ready :: "slow_pio \<Rightarrow> bool" where
  "slow_ready d = (bsy d = 0 \<and> slw d = 0)"

definition slow_by :: "nat \<Rightarrow> slow_pio \<Rightarrow> slow_pio" where
  "slow_by K d = d\<lparr>bsy := min K 99999, slw := min K 99999\<rparr>"

definition slow_ports :: "nat \<Rightarrow> nat \<Rightarrow> slow_pio ports" where
  "slow_ports K W = \<lparr>
     inb = (\<lambda>p d. if p \<noteq> ATA_STATUS then (fst (pio_inb p (core d)), d)
       else if 0 < bsy d then (0x80, d\<lparr>bsy := bsy d - 1\<rparr>)
       else if 0 < slw d then (0x40, d\<lparr>slw := slw d - 1\<rparr>) else (pio_status (core d), d)),
     outb = (\<lambda>p v d. if \<not> slow_ready d then d
       else (if p = ATA_CMD then slow_by K else id) (d\<lparr>core := pio_outb p v (core d)\<rparr>)),
     inw = (\<lambda>p d. if \<not> slow_ready d then (0xFFFF, d)
       else case pio_inw p (core d) of (w, c) \<Rightarrow>
         (w, (case pmode c of Rd ws \<Rightarrow> if ws \<noteq> [] \<and> 256 dvd length ws then slow_by K else id | _ \<Rightarrow> id) (d\<lparr>core := c\<rparr>))),
     outw = (\<lambda>p w d. if \<not> slow_ready d then d
       else (case pmode (core d) of Wr l n acc \<Rightarrow> if length acc + 1 < 256 then id else if n \<le> 1 then slow_by W else slow_by K | _ \<Rightarrow> id)
         (d\<lparr>core := pio_outw p w (core d)\<rparr>))\<rparr>"

interpretation slow: pio_drive "slow_ports K W" "\<lambda>d. (bsy d, slw d)" core for K W
  by unfold_locales
    (auto simp: slow_ports_def slow_ready_def slow_by_def lag_ok_def pio_outb_def pio_inw_def split: if_splits)

interpretation cached: prompt_drive "slow_ports K 0" "\<lambda>d. (bsy d, slw d)" core for K
  by unfold_locales (auto simp: slow_ports_def slow_ready_def slow_by_def)

lemma put_secs_lookup:
  assumes "unat l + length ss \<le> 2 ^ 32"
  shows "put_secs f l ss a = (if l \<le> a \<and> unat a < unat l + length ss then ss ! (unat a - unat l) else f a)"
  using assms
proof (induction ss arbitrary: f l)
  case (Cons s ss)
  show ?case
  proof (cases "ss = []")
    case True
    then show ?thesis by (auto simp: word_le_nat_alt word_unat_eq_iff)
  next
    case False
    then have u: "unat (l + 1) = unat l + 1"
      using Cons.prems unat_less_of_nat_add [of l 1] by (cases ss) auto
    have "put_secs f l (s # ss) a =
        (if l + 1 \<le> a \<and> unat a < unat l + 1 + length ss then ss ! (unat a - (unat l + 1)) else (f(l := s)) a)"
      using Cons.IH [of "l + 1" "f(l := s)"] Cons.prems u by (simp del: fun_upd_apply)
    moreover have "l + 1 \<le> a \<longleftrightarrow> l \<le> a \<and> a \<noteq> l" using u by (auto simp: word_le_nat_alt word_unat_eq_iff)
    moreover have "(s # ss) ! (unat a - unat l) = ss ! (unat a - (unat l + 1))" if "l \<le> a" "a \<noteq> l"
    proof -
      have "unat l < unat a" using that by (auto simp: word_le_nat_alt word_unat_eq_iff)
      then show ?thesis by (simp add: nth_Cons')
    qed
    ultimately show ?thesis by auto
  qed
qed (auto simp: word_le_nat_alt)

lemma put_secs_range:
  assumes "unat lba + unat (count :: u8) \<le> 2 ^ 28" "length secs = unat count" "\<forall>s \<in> set secs. length s = 256"
  shows "(\<And>l. length (f l) = 256) \<Longrightarrow> length (put_secs f lba secs l) = 256"
    "map (put_secs f lba secs) (lbas lba (unat count)) = secs"
    "unat l < unat lba \<or> unat lba + unat count \<le> unat l \<Longrightarrow> put_secs f lba secs l = f l"
proof -
  have pl: "put_secs f lba secs a = (if lba \<le> a \<and> unat a < unat lba + length secs then secs ! (unat a - unat lba) else f a)" for a
    using put_secs_lookup [of lba secs] assms by simp
  show "length (put_secs f lba secs l) = 256" if "\<And>l. length (f l) = 256"
  proof (cases "lba \<le> l \<and> unat l < unat lba + length secs")
    case True
    then have "secs ! (unat l - unat lba) \<in> set secs" by (intro nth_mem) (auto simp: word_le_nat_alt)
    with True assms(3) show ?thesis by (simp add: pl)
  next
    case False
    with that show ?thesis by (simp only: pl if_False)
  qed
  show "map (put_secs f lba secs) (lbas lba (unat count)) = secs"
  proof (rule nth_equalityI)
    fix i assume "i < length (map (put_secs f lba secs) (lbas lba (unat count)))"
    then have i: "i < unat count" by (simp add: lbas_def)
    then have "unat (lba + of_nat i) = unat lba + i" using assms(1) by (intro unat_less_of_nat_add) simp
    with i assms(2) show "map (put_secs f lba secs) (lbas lba (unat count)) ! i = secs ! i"
      by (simp add: lbas_def pl word_le_nat_alt)
  qed (use assms(2) in \<open>simp add: lbas_def\<close>)
  show "put_secs f lba secs l = f l" if "unat l < unat lba \<or> unat lba + unat count \<le> unat l"
    using that assms(2) by (auto simp: pl word_le_nat_alt)
qed

lemma length_bytes_of_words [simp]: "length (bytes_of_words ws) = 2 * length ws"
  by (induction ws) (simp_all add: bytes_of_words_def)

lemma words_bytes_words [simp]: "words_of_bytes (bytes_of_words ws) = ws"
proof (induction ws)
  case (Cons w ws)
  have "word_cat (ucast (drop_bit 8 w) :: u8) (ucast w :: u8) = w"
    by (rule bit_word_eqI) (auto simp: bit_word_cat_iff bit_ucast_iff bit_drop_bit_eq)
  with Cons show ?case by (simp add: bytes_of_words_def)
qed (simp add: bytes_of_words_def)

lemma bytes_words_bytes: "even (length bs) \<Longrightarrow> bytes_of_words (words_of_bytes bs) = bs"
proof (induction bs rule: words_of_bytes.induct)
  case (1 a b r)
  have "ucast (word_cat b a :: u16) = a" "ucast (drop_bit 8 (word_cat b a :: u16)) = b"
    by (rule bit_word_eqI; auto simp: bit_word_cat_iff bit_ucast_iff bit_drop_bit_eq)+
  with 1 show ?case by (simp add: bytes_of_words_def)
qed (simp_all add: bytes_of_words_def)

lemma length_words_of_bytes [simp]: "length (words_of_bytes bs) = length bs div 2"
  by (induction bs rule: words_of_bytes.induct) auto

section \<open>Properties\<close>


definition demo_pio :: pio where
  "demo_pio = \<lparr>r_drv = 0, r_cnt = 0, r_lo = 0, r_mid = 0, r_hi = 0, pmode = Idle,
     sectors = \<lambda>_ _. replicate 256 0, present = \<lambda>_. True, bad = \<lambda>_ _. False, ident = replicate 256 0\<rparr>"

definition demo_slow :: slow_pio where
  "demo_slow = \<lparr>core = demo_pio, bsy = 0, slw = 0\<rparr>"


text \<open>The driver does not wait for the drive before a command. On a drive that is busy after the last sector of a
  write and ignores commands meanwhile, reading the sector back at once fails.\<close>

lemma wait_no_drq:
  "pmode (core d) = Idle \<Longrightarrow> bsy d = 0 \<Longrightarrow> fst (ata_wait_loop (slow_ports K W) ATA_SR_DRQ ATA_SR_DRQ n d) = - 2"
  by (induction n arbitrary: d) (auto simp: slow_ports_def pio_status_def)

theorem read_after_write_lost:
  assumes "ata_write (slow_ports K W) drive lba 1 s d = (0, d')" "pmode (core d') = Idle" "0 < bsy d'" "bsy d' < 100000"
  shows "fst (ata_read (slow_ports K W) drive lba2 1 d') = (- 2, [])"
proof -
  have "ata_setup (slow_ports K W) drive lba2 1 ATA_CMD_READ d' = d'"
    using assms(3) by (simp add: ata_setup_def slow_ports_def slow_ready_def)
  moreover obtain d1 where b: "ata_wait (slow_ports K W) ATA_SR_BSY 0 d' = (0, d1)" "core d1 = core d'" "bsy d1 = 0"
    using slow.wait_not_busy [of d' "bsy d'" "slw d'" 100000 K W] assms(4) by (auto simp: ata_wait_def)
  moreover have "fst (ata_wait (slow_ports K W) ATA_SR_DRQ ATA_SR_DRQ d1) = - 2"
    unfolding ata_wait_def using assms(2) b by (intro wait_no_drq) simp_all
  moreover obtain r d2 where "ata_wait (slow_ports K W) ATA_SR_DRQ ATA_SR_DRQ d1 = (r, d2)" by (metis surj_pair)
  ultimately show ?thesis by (simp add: ata_read_def read_drv_def)
qed

theorem read_after_write_lost_demo:
  "\<exists>d'. ata_write (slow_ports 0 1) 1 7 1 (replicate 256 0xAA55) demo_slow = (0, d') \<and>
     fst (ata_read (slow_ports 0 1) 1 7 1 d') = (- 2, [])"
proof -
  let ?s = "[replicate 256 0xAA55]"
  have ok: "\<not> (\<exists>l \<in> set (lbas 7 (unat (1 :: u8))). bad (core demo_slow) (odd (1 :: nat)) l)"
    "(bsy demo_slow, slw demo_slow) = READY" "drive_ok 1 (core demo_slow)" "unat (7 :: u32) < 2 ^ 28" "length ?s = unat (1 :: u8)"
    "\<forall>s \<in> set ?s. length s = 256"
    by (simp_all add: demo_slow_def demo_pio_def drive_ok_def)
  from slow.ata_write_drive [OF ok(2-4) _ ok(5,6), of 0 1, unfolded if_not_P [OF ok(1)]]
  obtain d' d'' v l' acc n where w: "ata_write (slow_ports 0 1) 1 7 1 (concat ?s) demo_slow = (0, d')" "pmode (core d') = Idle"
    and l: "d' = outw (slow_ports 0 1) ATA_DATA v d''" "slow_ready d''" "pmode (core d'') = Wr l' n acc" "length acc = 255" "n \<le> 1"
    by (auto simp: slow_ready_def simp del: fun_upd_apply)
  have "0 < bsy d'" "bsy d' < 100000" unfolding l(1) using l(2-5) by (simp_all add: slow_ports_def slow_by_def)
  from read_after_write_lost [OF w(1,2) this] w(1) show ?thesis by auto
qed

end
