(* ===== verification/XE_Input.thy ===== *)
theory XE_Input
  imports XE_Ata
begin

text \<open>
  Input devices: the event ring of \<^verbatim>\<open>src/src/drivers/input.cpp\<close>, the PS/2 keyboard of
  \<^verbatim>\<open>keyboard.cpp\<close>, the mouse packets of \<^verbatim>\<open>mouse.cpp\<close>, the serial port of \<^verbatim>\<open>serial.cpp\<close>, the interrupt
  controller of \<^verbatim>\<open>pic.cpp\<close> and the timer of \<^verbatim>\<open>pit.cpp\<close>. The port instructions are the record \<open>ports\<close>
  of the disk driver's theory; screen output (echo, mouse cursor) is left out. Loops that wait for
  the hardware are \<open>partial_function\<close>s whose result is \<open>None\<close> if they never end. Both ring buffers
  refine bounded queues with different overflow policies.
\<close>

unbundle bit_operations_syntax

section \<open>Event ring\<close>

definition IN_RING :: nat where "IN_RING = 256"

record input_event =
  ev_type :: u32
  ev_x :: int
  ev_y :: int
  ev_arg :: u32

record in_ring =
  g_ring :: "input_event list"
  g_head :: nat
  g_tail :: nat

definition input_push :: "u32 \<Rightarrow> int \<Rightarrow> int \<Rightarrow> u32 \<Rightarrow> in_ring \<Rightarrow> in_ring" where
  "input_push ty x y arg r =
     (let nxt = (g_head r + 1) mod IN_RING;
          tl' = (if nxt = g_tail r then (g_tail r + 1) mod IN_RING else g_tail r)
      in \<lparr>g_ring = (g_ring r)[g_head r := \<lparr>ev_type = ty, ev_x = x, ev_y = y, ev_arg = arg\<rparr>], g_head = nxt, g_tail = tl'\<rparr>)"

definition input_pop :: "in_ring \<Rightarrow> (int \<times> input_event option) \<times> in_ring" where
  "input_pop r =
     (if g_tail r = g_head r then ((0, None), r)
      else ((16, Some (g_ring r ! g_tail r)), r\<lparr>g_tail := (g_tail r + 1) mod IN_RING\<rparr>))"

section \<open>Mouse packets\<close>

record mouse =
  mx :: int
  my :: int
  mbtn :: u32
  cycle :: nat
  wheel_mode :: bool
  pkt :: "u8 list"

text \<open>C division by two truncates toward zero.\<close>

definition half :: "int \<Rightarrow> int" where
  "half x = (if x < 0 then - ((- x) div 2) else x div 2)"

definition mouse_delta :: "bool \<Rightarrow> u8 \<Rightarrow> int" where
  "mouse_delta neg b = (if neg then uint b - 256 else uint b)"

definition accel :: "int \<Rightarrow> int" where
  "accel d = (if d > 4 \<or> d < - 4 then half (d * 3) else d)"

definition clamp :: "int \<Rightarrow> int \<Rightarrow> int" where
  "clamp hi v = (let v1 = (if v < 0 then 0 else v) in if v1 > hi then hi else v1)"

definition mouse_packet :: "int \<Rightarrow> int \<Rightarrow> mouse \<Rightarrow> in_ring \<Rightarrow> mouse \<times> in_ring" where
  "mouse_packet fb_w fb_h m q =
     (let b = pkt m ! 0 in
      if b AND 0xC0 \<noteq> 0 then (m, q)
      else
        let dx = accel (mouse_delta (b AND 0x10 \<noteq> 0) (pkt m ! 1));
            dy = accel (mouse_delta (b AND 0x20 \<noteq> 0) (pkt m ! 2));
            mw = (if fb_w - 1 < 0 then 1023 else fb_w - 1);
            mh = (if fb_h - 1 < 0 then 767 else fb_h - 1);
            x = clamp mw (mx m + dx);
            y = clamp mh (my m - dy);
            btn = ucast (b AND 7);
            q1 = input_push 1 x y btn q;
            q2 = (if btn \<noteq> mbtn m then input_push 2 x y btn q1 else q1);
            wheel = sint (pkt m ! 3);
            q3 = (if wheel_mode m \<and> wheel \<noteq> 0 then input_push 4 x y (of_int wheel) q2 else q2)
        in (m\<lparr>mx := x, my := y, mbtn := btn\<rparr>, q3))"

definition feed_byte :: "int \<Rightarrow> int \<Rightarrow> u8 \<Rightarrow> mouse \<Rightarrow> in_ring \<Rightarrow> mouse \<times> in_ring" where
  "feed_byte fb_w fb_h data m q =
     (if cycle m = 0 \<and> data AND 0x08 = 0 then (m, q)
      else
        let psz = (if wheel_mode m then 4 else 3);
            m1 = m\<lparr>pkt := (pkt m)[cycle m := data], cycle := (cycle m + 1) mod psz\<rparr>
        in if cycle m1 = 0 then mouse_packet fb_w fb_h m1 q else (m1, q))"

definition mouse_get :: "mouse \<Rightarrow> int \<times> int \<times> u32" where
  "mouse_get m = (mx m, my m, mbtn m)"

section \<open>Serial port, interrupt controller, timer\<close>

definition COM1 :: u16 where "COM1 = 0x3F8"

definition serial_init :: "'d ports \<Rightarrow> 'd \<Rightarrow> 'd" where
  "serial_init P d = fold (\<lambda>(off, v) d. outb P (COM1 + off) v d)
     [(1, 0x00), (3, 0x80), (0, 0x03), (1, 0x00), (3, 0x03), (2, 0xC7), (4, 0x0B)] d"

fun serial_wait_tx :: "'d ports \<Rightarrow> nat \<Rightarrow> 'd \<Rightarrow> 'd" where
  "serial_wait_tx P 0 d = d"
| "serial_wait_tx P (Suc n) d =
     (case inb P (COM1 + 5) d of (v, d1) \<Rightarrow> if v AND 0x20 \<noteq> 0 then d1 else serial_wait_tx P n d1)"

definition serial_putc :: "'d ports \<Rightarrow> u8 \<Rightarrow> 'd \<Rightarrow> 'd" where
  "serial_putc P c d = outb P COM1 c (serial_wait_tx P 10000000 d)"

definition serial_puts :: "'d ports \<Rightarrow> cstr \<Rightarrow> 'd \<Rightarrow> 'd" where
  "serial_puts P s d = fold (serial_putc P) s d"

definition hex_digit :: "u8 \<Rightarrow> u8" where
  "hex_digit n = bytes_of ''0123456789ABCDEF'' ! unat n"

definition put_hex_byte :: "u8 \<Rightarrow> cstr" where
  "put_hex_byte b = [hex_digit (drop_bit 4 b), hex_digit (b AND 15)]"

definition put_hex_u32 :: "u32 \<Rightarrow> cstr" where
  "put_hex_u32 v = put_hex_byte (ucast (drop_bit 24 v)) @ put_hex_byte (ucast (drop_bit 16 v)) @
     put_hex_byte (ucast (drop_bit 8 v)) @ put_hex_byte (ucast v)"

definition serial_has_data :: "'d ports \<Rightarrow> 'd \<Rightarrow> bool \<times> 'd" where
  "serial_has_data P d = (case inb P (COM1 + 5) d of (v, d1) \<Rightarrow> (v AND 1 \<noteq> 0, d1))"

definition serial_read_char :: "'d ports \<Rightarrow> 'd \<Rightarrow> u8 \<times> 'd" where
  "serial_read_char P d = inb P COM1 d"

definition pic_remap :: "'d ports \<Rightarrow> 'd \<Rightarrow> 'd" where
  "pic_remap P d = fold (\<lambda>(port, v) d. outb P port v d)
     [(0x20, 0x11), (0xA0, 0x11), (0x21, 0x20), (0xA1, 0x28), (0x21, 0x04), (0xA1, 0x02),
      (0x21, 0x01), (0xA1, 0x01), (0x21, 0xFB), (0xA1, 0xFF)] d"

definition pic_unmask_irq :: "'d ports \<Rightarrow> nat \<Rightarrow> 'd \<Rightarrow> 'd" where
  "pic_unmask_irq P irq d =
     (if irq < 8 then (case inb P 0x21 d of (v, d1) \<Rightarrow> outb P 0x21 (v AND NOT (push_bit irq 1)) d1)
      else (case inb P 0xA1 d of (v, d1) \<Rightarrow> outb P 0xA1 (v AND NOT (push_bit (irq - 8) 1)) d1))"

definition pit_init :: "'d ports \<Rightarrow> 'd \<Rightarrow> u32 \<times> 'd" where
  "pit_init P d =
     (let dv = (1193180 div 100 :: u32) in
      (0, pic_unmask_irq P 0 (outb P 0x40 (ucast (drop_bit 8 dv AND 0xFF)) (outb P 0x40 (ucast (dv AND 0xFF)) (outb P 0x43 0x36 d)))))"

definition pit_handler :: "u32 \<Rightarrow> u32" where
  "pit_handler ticks = ticks + 1"

section \<open>Keyboard\<close>

definition KB_BUF_SIZE :: nat where "KB_BUF_SIZE = 256"

record keyboard =
  shift :: bool
  caps :: bool
  ctrl :: bool
  kb_buf :: "u8 list"
  kb_head :: nat
  kb_tail :: nat

record 'd hid =
  kbd :: keyboard
  mou :: mouse
  evq :: in_ring
  hw :: 'd

definition kbd_low :: cstr where
  "kbd_low = [0, 0] @ bytes_of ''1234567890-='' @ [8, 9] @ bytes_of ''qwertyuiop[]'' @ [10, 0] @ bytes_of ''as''
     @ bytes_of ''dfghjkl;'' @ [0x27, 0x60, 0, 0x5C] @ bytes_of ''zxcv'' @ bytes_of ''bnm,./'' @ [0, 0x2A, 0, 0x20, 0, 0, 0, 0, 0, 0]"

definition kbd_up :: cstr where
  "kbd_up = [0, 0] @ bytes_of ''!@#$%^&*()_+'' @ [8, 9] @ bytes_of ''QWERTYUIOP{}'' @ [10, 0] @ bytes_of ''AS''
     @ bytes_of ''DFGHJKL:'' @ [0x22, 0x7E, 0, 0x7C] @ bytes_of ''ZXCV'' @ bytes_of ''BNM<>?'' @ [0, 0x2A, 0, 0x20, 0, 0, 0, 0, 0, 0]"

definition kb_put :: "u8 \<Rightarrow> keyboard \<Rightarrow> in_ring \<Rightarrow> keyboard \<times> in_ring" where
  "kb_put sc k q =
     (let nxt = (kb_head k + 1) mod KB_BUF_SIZE in
      if nxt \<noteq> kb_tail k
      then (k\<lparr>kb_buf := (kb_buf k)[kb_head k := sc], kb_head := nxt\<rparr>, input_push 3 0 0 (ucast sc) q)
      else (k, q))"

text \<open>\<open>kb_get\<close> on a non-empty buffer; on an empty one it spins forever.\<close>

definition kb_get :: "keyboard \<Rightarrow> (u8 \<times> keyboard) option" where
  "kb_get k =
     (if kb_head k = kb_tail k then None
      else Some (kb_buf k ! kb_tail k, k\<lparr>kb_tail := (kb_tail k + 1) mod KB_BUF_SIZE\<rparr>))"

text \<open>A byte from the controller goes to the mouse or to the keyboard, by the aux bit of the status.\<close>

definition ps2_byte :: "int \<Rightarrow> int \<Rightarrow> u8 \<Rightarrow> u8 \<Rightarrow> 'd hid \<Rightarrow> 'd hid" where
  "ps2_byte w h st data s =
     (if st AND 0x20 \<noteq> 0
      then (case feed_byte w h data (mou s) (evq s) of (m, q) \<Rightarrow> s\<lparr>mou := m, evq := q\<rparr>)
      else (case kb_put data (kbd s) (evq s) of (k, q) \<Rightarrow> s\<lparr>kbd := k, evq := q\<rparr>))"

definition kb_irq_handler :: "'d ports \<Rightarrow> int \<Rightarrow> int \<Rightarrow> 'd hid \<Rightarrow> 'd hid" where
  "kb_irq_handler P w h s =
     (case inb P 0x64 (hw s) of (st, d1) \<Rightarrow>
        if st AND 1 \<noteq> 0 then (case inb P 0x60 d1 of (data, d2) \<Rightarrow> ps2_byte w h st data (s\<lparr>hw := d2\<rparr>))
        else s\<lparr>hw := d1\<rparr>)"

definition mouse_irq_handler :: "'d ports \<Rightarrow> int \<Rightarrow> int \<Rightarrow> 'd hid \<Rightarrow> 'd hid" where
  "mouse_irq_handler P w h s =
     (case inb P 0x64 (hw s) of (st, d1) \<Rightarrow>
        if st AND 0x20 \<noteq> 0
        then (case inb P 0x60 d1 of (data, d2) \<Rightarrow>
                case feed_byte w h data (mou s) (evq s) of (m, q) \<Rightarrow> s\<lparr>hw := d2, mou := m, evq := q\<rparr>)
        else s\<lparr>hw := d1\<rparr>)"

partial_function (option) kb_drain :: "'d ports \<Rightarrow> int \<Rightarrow> int \<Rightarrow> 'd hid \<Rightarrow> 'd hid option" where
  "kb_drain P w h s =
     (case inb P 0x64 (hw s) of (st, d1) \<Rightarrow>
        if st AND 1 \<noteq> 0
        then (case inb P 0x60 d1 of (data, d2) \<Rightarrow> kb_drain P w h (ps2_byte w h st data (s\<lparr>hw := d2\<rparr>)))
        else Some (s\<lparr>hw := d1\<rparr>))"

text \<open>\<open>read_scan\<close>: at most 50001 rounds, then 0.\<close>

fun read_scan_loop :: "'d ports \<Rightarrow> int \<Rightarrow> int \<Rightarrow> nat \<Rightarrow> 'd hid \<Rightarrow> (u8 \<times> 'd hid) option" where
  "read_scan_loop P w h n s =
     (case kb_drain P w h s of None \<Rightarrow> None
      | Some s1 \<Rightarrow>
          (case kb_get (kbd s1) of
             Some (sc, k) \<Rightarrow> Some (sc, s1\<lparr>kbd := k\<rparr>)
           | None \<Rightarrow> (case n of 0 \<Rightarrow> Some (0, s1) | Suc n' \<Rightarrow> read_scan_loop P w h n' s1)))"

definition read_scan :: "'d ports \<Rightarrow> int \<Rightarrow> int \<Rightarrow> 'd hid \<Rightarrow> (u8 \<times> 'd hid) option" where
  "read_scan P w h s = read_scan_loop P w h 50000 s"

definition is_letter :: "u8 \<Rightarrow> bool" where
  "is_letter c = (0x61 \<le> c \<and> c \<le> 0x7A \<or> 0x41 \<le> c \<and> c \<le> 0x5A)"

text \<open>What \<open>getchar\<close> does with one scan code: the new modifier state, and a character if there is one.\<close>

definition kb_translate :: "u8 \<Rightarrow> keyboard \<Rightarrow> u8 option \<times> keyboard" where
  "kb_translate s k =
     (if s = 0 then (None, k)
      else if s = 0x2A \<or> s = 0x36 then (None, k\<lparr>shift := True\<rparr>)
      else if s = 0xAA \<or> s = 0xB6 then (None, k\<lparr>shift := False\<rparr>)
      else if s = 0x3A then (None, k\<lparr>caps := \<not> caps k\<rparr>)
      else if s AND 0x80 \<noteq> 0 then (None, k)
      else if s \<ge> 64 then (None, k)
      else if s \<le> 1 then (None, k)
      else
        let i = unat s;
            c0 = (if shift k \<noteq> caps k then kbd_up ! i else kbd_low ! i);
            c = (if caps k \<and> c0 \<noteq> 0 \<and> \<not> is_letter (kbd_low ! i)
                 then (if shift k then kbd_up ! i else kbd_low ! i) else c0)
        in (if c \<noteq> 0 then Some c else None, k))"

partial_function (option) kb_getchar :: "'d ports \<Rightarrow> int \<Rightarrow> int \<Rightarrow> 'd hid \<Rightarrow> (u8 \<times> 'd hid) option" where
  "kb_getchar P w h s =
     (case serial_has_data P (hw s) of (has, d1) \<Rightarrow>
        if has then (case serial_read_char P d1 of (c, d2) \<Rightarrow> Some (if c = 13 then 10 else c, s\<lparr>hw := d2\<rparr>))
        else (case read_scan P w h (s\<lparr>hw := d1\<rparr>) of None \<Rightarrow> None
              | Some (sc, s1) \<Rightarrow>
                  (case kb_translate sc (kbd s1) of (co, k) \<Rightarrow>
                     (case co of Some c \<Rightarrow> Some (c, s1\<lparr>kbd := k\<rparr>)
                      | None \<Rightarrow> kb_getchar P w h (s1\<lparr>kbd := k\<rparr>)))))"

text \<open>The effect of one character on the line buffer; \<open>None\<close> ends the line.\<close>

definition line_step :: "int \<Rightarrow> u8 \<Rightarrow> cstr \<Rightarrow> cstr option" where
  "line_step mxn c b =
     (if c = 10 then None
      else if c = 8 then Some (if b \<noteq> [] then butlast b else b)
      else if 0x20 \<le> c \<and> c \<le> 0x7E \<and> int (length b) < mxn - 1 then Some (b @ [c])
      else Some b)"

text \<open>\<open>echo\<close> is the screen's \<open>putc\<close>: the newline, every character kept and every character taken back.\<close>

partial_function (option) readline_loop :: "('s \<Rightarrow> (u8 \<times> 's) option) \<Rightarrow> (u8 \<Rightarrow> 's \<Rightarrow> 's) \<Rightarrow> int \<Rightarrow> cstr \<Rightarrow> 's \<Rightarrow> (cstr \<times> 's) option" where
  "readline_loop getc echo mxn b s =
     (case getc s of None \<Rightarrow> None
      | Some (c, s1) \<Rightarrow>
          (case line_step mxn c b of None \<Rightarrow> Some (b, echo 10 s1)
           | Some b' \<Rightarrow> readline_loop getc echo mxn b' (if b' = b then s1 else echo c s1)))"

definition kb_readline :: "'d ports \<Rightarrow> int \<Rightarrow> int \<Rightarrow> (u8 \<Rightarrow> 'g \<Rightarrow> 'g) \<Rightarrow> int \<Rightarrow> 'd hid \<times> 'g \<Rightarrow> (cstr \<times> 'd hid \<times> 'g) option" where
  "kb_readline P w h putc mxn s =
     readline_loop (\<lambda>(x, g). map_option (\<lambda>(c, x'). (c, x', g)) (kb_getchar P w h x)) (\<lambda>c (x, g). (x, putc c g)) mxn [] s"

definition kb_ctrl_c :: "keyboard \<Rightarrow> bool \<times> keyboard" where
  "kb_ctrl_c k =
     (if kb_head k = kb_tail k then (False, k)
      else let data = kb_buf k ! kb_tail k; adv = k\<lparr>kb_tail := (kb_tail k + 1) mod KB_BUF_SIZE\<rparr> in
        if data = 0x1D then (False, adv\<lparr>ctrl := True\<rparr>)
        else if data = 0x9D then (False, adv\<lparr>ctrl := False\<rparr>)
        else if data = 0x2E \<and> ctrl k then (True, adv)
        else (False, k))"

text \<open>Controller handshakes: wait for a status bit within a bounded number of polls.\<close>

fun poll_status :: "'d ports \<Rightarrow> (u8 \<Rightarrow> bool) \<Rightarrow> nat \<Rightarrow> 'd \<Rightarrow> bool \<times> 'd" where
  "poll_status P ok 0 d = (False, d)"
| "poll_status P ok (Suc n) d = (case inb P 0x64 d of (v, d1) \<Rightarrow> if ok v then (True, d1) else poll_status P ok n d1)"

definition wready :: "'d ports \<Rightarrow> 'd \<Rightarrow> bool \<times> 'd" where
  "wready P d = poll_status P (\<lambda>v. v AND 2 = 0) 100000 d"

definition rready :: "'d ports \<Rightarrow> 'd \<Rightarrow> bool \<times> 'd" where
  "rready P d = poll_status P (\<lambda>v. v AND 1 \<noteq> 0) 100000 d"

definition mwrite :: "'d ports \<Rightarrow> u8 \<Rightarrow> 'd \<Rightarrow> 'd" where
  "mwrite P v d =
     (case wready P d of (ok, d1) \<Rightarrow>
        if \<not> ok then d1
        else case wready P (outb P 0x64 0xD4 d1) of (ok, d2) \<Rightarrow> if ok then outb P 0x60 v d2 else d2)"

text \<open>A command to the mouse: its bytes, then the given number of optional acknowledgements.\<close>

definition mcmd :: "'d ports \<Rightarrow> u8 list \<Rightarrow> nat \<Rightarrow> 'd \<Rightarrow> 'd" where
  "mcmd P bs acks d =
     fold (\<lambda>_ d. case rready P d of (ok, d1) \<Rightarrow> if ok then snd (inb P 0x60 d1) else d1) [0..<acks] (fold (mwrite P) bs d)"

text \<open>The read-modify-write of the controller's configuration byte; \<open>False\<close> on a timeout.\<close>

definition aux_config :: "'d ports \<Rightarrow> 'd \<Rightarrow> bool \<times> 'd" where
  "aux_config P d =
     (case wready P d of (ok, d1) \<Rightarrow> if \<not> ok then (False, d1)
      else case wready P (outb P 0x64 0xA8 d1) of (ok, d2) \<Rightarrow> if \<not> ok then (False, d2)
      else case rready P (outb P 0x64 0x20 d2) of (ok, d3) \<Rightarrow> if \<not> ok then (False, d3)
      else case inb P 0x60 d3 of (cfg, d4) \<Rightarrow>
        case wready P d4 of (ok, d5) \<Rightarrow> if \<not> ok then (False, d5)
        else case wready P (outb P 0x64 0x60 d5) of (ok, d6) \<Rightarrow> if \<not> ok then (False, d6)
        else (True, outb P 0x60 (cfg OR 2) d6))"

text \<open>Reset: three bytes must arrive (acknowledge, self test, device id).\<close>

fun await_bytes :: "'d ports \<Rightarrow> nat \<Rightarrow> 'd \<Rightarrow> bool \<times> 'd" where
  "await_bytes P 0 d = (True, d)"
| "await_bytes P (Suc n) d =
     (case rready P d of (ok, d1) \<Rightarrow> if \<not> ok then (False, d1) else await_bytes P n (snd (inb P 0x60 d1)))"

definition mouse_init :: "'d ports \<Rightarrow> int \<Rightarrow> int \<Rightarrow> mouse \<Rightarrow> 'd \<Rightarrow> mouse \<times> 'd" where
  "mouse_init P w h m d =
     (case aux_config P d of (ok, d1) \<Rightarrow> if \<not> ok then (m, d1)
      else case await_bytes P 3 (mwrite P 0xFF d1) of (ok, d2) \<Rightarrow> if \<not> ok then (m, d2)
      else
        let d3 = mcmd P [0xF6] 1 d2;
            d4 = mcmd P [0xE8, 0x03] 2 d3;
            d5 = mcmd P [0xE6] 1 d4;
            d6 = mcmd P [0xF3, 200] 2 d5;
            d7 = mcmd P [0xF3, 100] 2 d6;
            d8 = mcmd P [0xF3, 80] 2 d7;
            d9 = mcmd P [0xF2] 1 d8
        in case rready P d9 of (ok, d10) \<Rightarrow>
             case (if ok then (case inb P 0x60 d10 of (idb, d) \<Rightarrow> (if idb = 3 then m\<lparr>wheel_mode := True\<rparr> else m, d)) else (m, d10)) of
               (m1, d11) \<Rightarrow>
                 case rready P (mwrite P 0xF4 d11) of (ok, d12) \<Rightarrow>
                   if \<not> ok then (m1, d12)
                   else (m1\<lparr>cycle := 0, mx := half w, my := half h\<rparr>, snd (inb P 0x60 d12)))"

text \<open>The initialisation of the keyboard; flushing the controller may not end.\<close>

partial_function (option) kb_flush :: "'d ports \<Rightarrow> 'd \<Rightarrow> 'd option" where
  "kb_flush P d =
     (case inb P 0x64 d of (st, d1) \<Rightarrow>
        if st AND 1 \<noteq> 0 then kb_flush P (snd (inb P 0x60 d1)) else Some d1)"

definition kb_cmd :: "'d ports \<Rightarrow> u8 \<Rightarrow> 'd \<Rightarrow> 'd" where
  "kb_cmd P c d = outb P 0x60 c (snd (poll_status P (\<lambda>v. v AND 2 = 0) 10000 d))"

definition kb_await :: "'d ports \<Rightarrow> 'd \<Rightarrow> u8 \<times> 'd" where
  "kb_await P d = (case poll_status P (\<lambda>v. v AND 1 \<noteq> 0) 100000 d of (ok, d1) \<Rightarrow> if ok then inb P 0x60 d1 else (0, d1))"

definition kb_init :: "'d ports \<Rightarrow> 'd hid \<Rightarrow> 'd hid option" where
  "kb_init P s =
     (let d1 = snd (poll_status P (\<lambda>v. v AND 2 = 0) 10000 (outb P 0x64 0xAE (hw s)));
          d2 = snd (poll_status P (\<lambda>v. v AND 2 = 0) 10000 (outb P 0x64 0x60 d1));
          d3 = outb P 0x60 0x45 d2
      in case kb_flush P d3 of None \<Rightarrow> None
         | Some d4 \<Rightarrow> (case kb_flush P (snd (kb_await P (kb_cmd P 0xF4 d4))) of None \<Rightarrow> None
             | Some d5 \<Rightarrow> Some (s\<lparr>hw := d5, kbd := (kbd s)\<lparr>shift := False, caps := False, ctrl := False, kb_head := 0, kb_tail := 0\<rparr>\<rparr>)))"

declare kb_flush.simps [code] kb_drain.simps [code] kb_getchar.simps [code] readline_loop.simps [code]

section \<open>Ring buffers as bounded queues\<close>

definition ring_len :: "nat \<Rightarrow> nat \<Rightarrow> nat \<Rightarrow> nat" where
  "ring_len N t h = (if t \<le> h then h - t else h + N - t)"

definition ring_list :: "nat \<Rightarrow> 'a list \<Rightarrow> nat \<Rightarrow> nat \<Rightarrow> 'a list" where
  "ring_list N buf t h = map (\<lambda>i. buf ! ((t + i) mod N)) [0..<ring_len N t h]"

lemma mod_wrap: "a < N \<Longrightarrow> b < N \<Longrightarrow> (a + b) mod N = (if a + b < N then a + b else a + b - N)" for a b N :: nat
  by (simp add: mod_if)

lemma ring_len_less: "t < N \<Longrightarrow> h < N \<Longrightarrow> ring_len N t h < N"
  by (auto simp: ring_len_def)

lemma suc_wrap: "h < N \<Longrightarrow> Suc h mod N = (if Suc h = N then 0 else Suc h)"
  by (simp add: mod_if)

lemma ring_len_Suc: "t < N \<Longrightarrow> h < N \<Longrightarrow> 1 < N \<Longrightarrow> (h + 1) mod N \<noteq> t \<Longrightarrow> ring_len N t ((h + 1) mod N) = ring_len N t h + 1"
  by (auto simp: ring_len_def suc_wrap split: if_splits)

lemma ring_head: "t < N \<Longrightarrow> h < N \<Longrightarrow> (t + ring_len N t h) mod N = h"
  by (auto simp: ring_len_def mod_wrap)

lemma ring_index_neq:
  assumes "t < N" "h < N" "i < ring_len N t h"
  shows "(t + i) mod N \<noteq> h"
proof -
  have "i < N" using assms ring_len_less [of t N h] by simp
  then show ?thesis using assms by (auto simp: mod_wrap ring_len_def split: if_splits)
qed

lemma ring_push:
  assumes "t < N" "h < N" "1 < N" "length buf = N" "(h + 1) mod N \<noteq> t"
  shows "ring_list N (buf[h := x]) t ((h + 1) mod N) = ring_list N buf t h @ [x]"
proof -
  have "map (\<lambda>i. buf[h := x] ! ((t + i) mod N)) [0..<ring_len N t h] = map (\<lambda>i. buf ! ((t + i) mod N)) [0..<ring_len N t h]"
  proof (rule map_cong [OF refl])
    fix i assume "i \<in> set [0..<ring_len N t h]"
    then have "(t + i) mod N \<noteq> h" using ring_index_neq [OF assms(1,2)] by simp
    then show "buf[h := x] ! ((t + i) mod N) = buf ! ((t + i) mod N)" by simp
  qed
  then show ?thesis
    using ring_len_Suc [OF assms(1-3,5)] ring_head [OF assms(1,2)] assms(2,4) by (simp add: ring_list_def)
qed

lemma ring_pop:
  assumes "t < N" "h < N" "1 < N" "t \<noteq> h"
  shows "ring_list N buf t h = buf ! t # ring_list N buf ((t + 1) mod N) h"
proof -
  have len: "ring_len N t h = Suc (ring_len N ((t + 1) mod N) h)"
    using assms by (auto simp: ring_len_def suc_wrap split: if_splits)
  have "((t + 1) mod N + i) mod N = (t + Suc i) mod N" for i by (simp add: mod_simps)
  then show ?thesis
    unfolding ring_list_def len using assms(1)
    by (simp add: upt_conv_Cons map_Suc_upt [symmetric] o_def del: upt_Suc map_Suc_upt)
qed

text \<open>A bounded FIFO: \<open>over\<close> says what a full queue does with one element more.\<close>

locale bounded_queue =
  fixes inv :: "'s \<Rightarrow> bool"
    and q :: "'s \<Rightarrow> 'a list"
    and cap :: nat
    and over :: "'a list \<Rightarrow> 'a \<Rightarrow> 'a list"
    and push :: "'a \<Rightarrow> 's \<Rightarrow> 's"
    and pop :: "'s \<Rightarrow> ('a \<times> 's) option"
  assumes bound: "inv s \<Longrightarrow> length (q s) \<le> cap"
    and push_inv: "inv s \<Longrightarrow> inv (push x s)"
    and push_q: "inv s \<Longrightarrow> q (push x s) = (if length (q s) < cap then q s @ [x] else over (q s) x)"
    and pop_none: "inv s \<Longrightarrow> pop s = None \<longleftrightarrow> q s = []"
    and pop_some: "inv s \<Longrightarrow> pop s = Some (x, s') \<Longrightarrow> inv s' \<and> q s = x # q s'"
begin

fun pops :: "nat \<Rightarrow> 's \<Rightarrow> 'a list" where
  "pops 0 s = []"
| "pops (Suc n) s = (case pop s of None \<Rightarrow> [] | Some (x, s') \<Rightarrow> x # pops n s')"

lemma pops_take: "inv s \<Longrightarrow> pops n s = take n (q s)"
proof (induction n arbitrary: s)
  case (Suc n)
  show ?case
  proof (cases "pop s")
    case None
    then show ?thesis using pop_none [OF Suc.prems] by simp
  next
    case (Some a)
    then obtain x s' where "pop s = Some (x, s')" by (cases a) auto
    with pop_some [OF Suc.prems this] Suc.IH [of s'] show ?thesis by simp
  qed
qed simp

lemma pushes:
  "inv s \<Longrightarrow> length (q s) + length xs \<le> cap \<Longrightarrow> inv (fold push xs s) \<and> q (fold push xs s) = q s @ xs"
  by (induction xs arbitrary: s) (auto simp: push_inv push_q)

lemma fifo:
  "inv s \<Longrightarrow> length (q s) + length xs \<le> cap \<Longrightarrow> pops (length (q s) + length xs) (fold push xs s) = q s @ xs"
  using pushes [of s xs] pops_take [of "fold push xs s" "length (q s) + length xs"] by simp

end

definition in_inv :: "in_ring \<Rightarrow> bool" where
  "in_inv r = (length (g_ring r) = IN_RING \<and> g_head r < IN_RING \<and> g_tail r < IN_RING)"

definition in_list :: "in_ring \<Rightarrow> input_event list" where
  "in_list r = ring_list IN_RING (g_ring r) (g_tail r) (g_head r)"

definition in_push :: "input_event \<Rightarrow> in_ring \<Rightarrow> in_ring" where
  "in_push e r = input_push (ev_type e) (ev_x e) (ev_y e) (ev_arg e) r"

definition in_pop :: "in_ring \<Rightarrow> (input_event \<times> in_ring) option" where
  "in_pop r = (case input_pop r of ((n, Some e), r') \<Rightarrow> Some (e, r') | _ \<Rightarrow> None)"

lemma in_push_alt:
  "in_push e r = \<lparr>g_ring = (g_ring r)[g_head r := e], g_head = (g_head r + 1) mod IN_RING,
     g_tail = (if (g_head r + 1) mod IN_RING = g_tail r then (g_tail r + 1) mod IN_RING else g_tail r)\<rparr>"
  by (cases e) (simp add: in_push_def input_push_def Let_def)

lemma in_list_len: "in_inv r \<Longrightarrow> length (in_list r) = ring_len IN_RING (g_tail r) (g_head r)"
  by (simp add: in_list_def ring_list_def)

lemma in_full_iff: "in_inv r \<Longrightarrow> (g_head r + 1) mod IN_RING = g_tail r \<longleftrightarrow> \<not> length (in_list r) < 255"
  by (auto simp: in_list_len in_inv_def ring_len_def IN_RING_def mod_if)

lemma in_push_list:
  assumes "in_inv r"
  shows "in_list (in_push e r) = (if length (in_list r) < 255 then in_list r @ [e] else tl (in_list r) @ [e])"
proof (cases "(g_head r + 1) mod IN_RING = g_tail r")
  case False
  then show ?thesis
    using assms ring_push [of "g_tail r" IN_RING "g_head r" "g_ring r" e] in_full_iff [OF assms]
    by (auto simp: in_push_alt in_list_def in_inv_def IN_RING_def)
next
  case True
  let ?t = "(g_tail r + 1) mod IN_RING"
  have b: "g_tail r < IN_RING" "g_head r < IN_RING" "1 < IN_RING" "length (g_ring r) = IN_RING" "?t < IN_RING"
    using assms by (simp_all add: in_inv_def IN_RING_def)
  have ne: "g_tail r \<noteq> g_head r" "(g_head r + 1) mod IN_RING \<noteq> ?t"
    using True b by (auto simp: IN_RING_def mod_if split: if_splits)
  have "ring_list IN_RING ((g_ring r)[g_head r := e]) ?t ((g_head r + 1) mod IN_RING) = ring_list IN_RING (g_ring r) ?t (g_head r) @ [e]"
    by (rule ring_push) (use b ne in auto)
  moreover have "tl (in_list r) = ring_list IN_RING (g_ring r) ?t (g_head r)"
    using ring_pop [OF b(1-3) ne(1), of "g_ring r"] by (simp add: in_list_def)
  ultimately show ?thesis using True in_full_iff [OF assms] by (simp add: in_push_alt in_list_def)
qed

interpretation inq: bounded_queue in_inv in_list 255 "\<lambda>xs x. tl xs @ [x]" in_push in_pop
proof
  fix r :: in_ring and e e' :: input_event and r'
  assume inv: "in_inv r"
  show "length (in_list r) \<le> 255"
    using inv ring_len_less [of "g_tail r" IN_RING "g_head r"] by (simp add: in_list_len in_inv_def IN_RING_def)
  show "in_inv (in_push e r)" using inv by (simp add: in_push_alt in_inv_def IN_RING_def)
  show "in_list (in_push e r) = (if length (in_list r) < 255 then in_list r @ [e] else tl (in_list r) @ [e])"
    by (rule in_push_list [OF inv])
  show "in_pop r = None \<longleftrightarrow> in_list r = []"
    using inv by (auto simp: in_pop_def input_pop_def in_list_def ring_list_def ring_len_def in_inv_def)
  show "in_pop r = Some (e', r') \<Longrightarrow> in_inv r' \<and> in_list r = e' # in_list r'"
    using inv ring_pop [of "g_tail r" IN_RING "g_head r" "g_ring r"]
    by (auto simp: in_pop_def input_pop_def in_list_def in_inv_def IN_RING_def split: if_splits)
qed

definition kb_inv :: "keyboard \<times> in_ring \<Rightarrow> bool" where
  "kb_inv s = (length (kb_buf (fst s)) = KB_BUF_SIZE \<and> kb_head (fst s) < KB_BUF_SIZE \<and> kb_tail (fst s) < KB_BUF_SIZE \<and> in_inv (snd s))"

definition kb_list :: "keyboard \<times> in_ring \<Rightarrow> u8 list" where
  "kb_list s = ring_list KB_BUF_SIZE (kb_buf (fst s)) (kb_tail (fst s)) (kb_head (fst s))"

definition kb_push :: "u8 \<Rightarrow> keyboard \<times> in_ring \<Rightarrow> keyboard \<times> in_ring" where
  "kb_push sc s = kb_put sc (fst s) (snd s)"

definition kb_pop :: "keyboard \<times> in_ring \<Rightarrow> (u8 \<times> keyboard \<times> in_ring) option" where
  "kb_pop s = map_option (\<lambda>(sc, k). (sc, k, snd s)) (kb_get (fst s))"

lemma input_push_inv: "in_inv q \<Longrightarrow> in_inv (input_push t x y a q)"
  using inq.push_inv [of q "\<lparr>ev_type = t, ev_x = x, ev_y = y, ev_arg = a\<rparr>"] by (simp add: in_push_def)

text \<open>The scan code buffer drops what does not fit.\<close>

interpretation kbq: bounded_queue kb_inv kb_list 255 "\<lambda>xs x. xs" kb_push kb_pop
proof
  fix s :: "keyboard \<times> in_ring" and x x' :: u8 and s'
  assume inv: "kb_inv s"
  then have b: "kb_tail (fst s) < KB_BUF_SIZE" "kb_head (fst s) < KB_BUF_SIZE" "1 < KB_BUF_SIZE" "length (kb_buf (fst s)) = KB_BUF_SIZE"
    by (simp_all add: kb_inv_def KB_BUF_SIZE_def)
  have len: "length (kb_list s) = ring_len KB_BUF_SIZE (kb_tail (fst s)) (kb_head (fst s))"
    by (simp add: kb_list_def ring_list_def)
  show "length (kb_list s) \<le> 255" using ring_len_less [OF b(1,2)] by (simp add: len KB_BUF_SIZE_def)
  show "kb_inv (kb_push x s)"
    using inv by (auto simp: kb_push_def kb_put_def Let_def kb_inv_def KB_BUF_SIZE_def input_push_inv)
  have full: "(kb_head (fst s) + 1) mod KB_BUF_SIZE = kb_tail (fst s) \<longleftrightarrow> \<not> length (kb_list s) < 255"
    using b by (auto simp: len ring_len_def KB_BUF_SIZE_def mod_if)
  show "kb_list (kb_push x s) = (if length (kb_list s) < 255 then kb_list s @ [x] else kb_list s)"
    using ring_push [OF b(1-4), of x] full by (auto simp: kb_push_def kb_put_def Let_def kb_list_def)
  show "kb_pop s = None \<longleftrightarrow> kb_list s = []"
    using b by (auto simp: kb_pop_def kb_get_def kb_list_def ring_list_def ring_len_def)
  show "kb_pop s = Some (x', s') \<Longrightarrow> kb_inv s' \<and> kb_list s = x' # kb_list s'"
    using inv ring_pop [OF b(1-3), of "kb_buf (fst s)"]
    by (auto simp: kb_pop_def kb_get_def kb_list_def kb_inv_def KB_BUF_SIZE_def split: if_splits)
qed

section \<open>Properties\<close>

lemma tl_drop_snoc:
  "n \<le> length xs \<Longrightarrow> 0 < n \<Longrightarrow> tl (drop (length xs - n) xs) @ [e] = drop (Suc (length xs) - n) (xs @ [e])"
  by (simp add: tl_drop drop_Suc [symmetric] Suc_diff_le)

text \<open>C24. The event ring is a queue that keeps the newest 255 events: after any number of \<open>input_push\<close> calls on a
  well-formed ring it holds, oldest first, the last 255 of the old and the new events; \<open>input_pop\<close> returns the
  oldest with size 16, and 0 when there is none.\<close>

theorem input_ring_newest:
  assumes "in_inv r"
  shows "in_inv (fold in_push es r) \<and>
    in_list (fold in_push es r) = drop (length (in_list r @ es) - 255) (in_list r @ es) \<and>
    (case in_list r of [] \<Rightarrow> input_pop r = ((0, None), r)
     | e # q \<Rightarrow> \<exists>r'. input_pop r = ((16, Some e), r') \<and> in_inv r' \<and> in_list r' = q)"
proof (intro conjI)
  have all: "in_inv (fold in_push es r) \<and> in_list (fold in_push es r) = drop (length (in_list r @ es) - 255) (in_list r @ es)"
  proof (induction es rule: rev_induct)
    case Nil
    show ?case using assms inq.bound [OF assms] by simp
  next
    case (snoc e es)
    let ?xs = "in_list r @ es"
    let ?s = "fold in_push es r"
    have IH: "in_inv ?s" "in_list ?s = drop (length ?xs - 255) ?xs" using snoc by auto
    have len: "length (in_list ?s) = min 255 (length ?xs)" unfolding IH(2) by simp
    show ?case
    proof (cases "length ?xs < 255")
      case True
      with inq.push_q [OF IH(1)] IH len show ?thesis by (simp add: inq.push_inv)
    next
      case False
      then have "tl (in_list ?s) @ [e] = drop (Suc (length ?xs) - 255) (?xs @ [e])"
        unfolding IH(2) by (intro tl_drop_snoc) simp_all
      with False inq.push_q [OF IH(1)] IH(1) len show ?thesis by (simp add: inq.push_inv)
    qed
  qed
  then show "in_inv (fold in_push es r)" "in_list (fold in_push es r) = drop (length (in_list r @ es) - 255) (in_list r @ es)"
    by blast+
  show "case in_list r of [] \<Rightarrow> input_pop r = ((0, None), r)
     | e # q \<Rightarrow> \<exists>r'. input_pop r = ((16, Some e), r') \<and> in_inv r' \<and> in_list r' = q"
    using assms inq.pop_none [OF assms] inq.pop_some [OF assms]
    by (auto simp: in_pop_def input_pop_def split: list.splits if_splits)
qed

definition demo_ring :: in_ring where
  "demo_ring = \<lparr>g_ring = replicate 256 \<lparr>ev_type = 0, ev_x = 0, ev_y = 0, ev_arg = 0\<rparr>, g_head = 255, g_tail = 255\<rparr>"

theorem input_ring_newest_witness:
  "in_list (fold in_push [\<lparr>ev_type = 3, ev_x = 0, ev_y = 0, ev_arg = 30\<rparr>] demo_ring) = [\<lparr>ev_type = 3, ev_x = 0, ev_y = 0, ev_arg = 30\<rparr>]"
proof -
  have i: "in_inv demo_ring" by (simp add: in_inv_def demo_ring_def IN_RING_def)
  have "in_list demo_ring = []" by (simp add: in_list_def ring_list_def ring_len_def demo_ring_def)
  with input_ring_newest [OF i, of "[\<lparr>ev_type = 3, ev_x = 0, ev_y = 0, ev_arg = 30\<rparr>]"] show ?thesis by simp
qed

text \<open>The mouse state between bytes.\<close>

definition mouse_inv :: "int \<Rightarrow> int \<Rightarrow> mouse \<Rightarrow> bool" where
  "mouse_inv w h m = (0 \<le> mx m \<and> mx m < w \<and> 0 \<le> my m \<and> my m < h \<and> length (pkt m) = 4 \<and>
     cycle m < (if wheel_mode m then 4 else 3))"

lemma clamp_range: "0 \<le> hi \<Longrightarrow> 0 \<le> clamp hi v \<and> clamp hi v \<le> hi"
  by (simp add: clamp_def Let_def)

lemma feed_byte_inv:
  assumes "0 < w" "0 < h" "mouse_inv w h m" "in_inv q" "feed_byte w h data m q = (m', q')"
  shows "mouse_inv w h m' \<and> in_inv q' \<and> wheel_mode m' = wheel_mode m"
proof -
  note c = clamp_range [of "w - 1"] clamp_range [of "h - 1"]
  show ?thesis
    using assms c
    by (auto simp: feed_byte_def mouse_packet_def mouse_inv_def Let_def input_push_inv split: if_splits)
qed

text \<open>C25. Whatever bytes the controller delivers, the mouse position stays on the screen, the packet cursor stays
  inside the packet buffer, and the event ring stays well formed; a byte without the sync bit is ignored between
  packets, and a packet with an overflow bit moves nothing.\<close>

theorem mouse_stays_on_screen:
  assumes "0 < w" "0 < h" "mouse_inv w h m" "in_inv q"
  shows "(case fold (\<lambda>b (m, q). feed_byte w h b m q) bytes (m, q) of (m', q') \<Rightarrow> mouse_inv w h m' \<and> in_inv q') \<and>
    (\<forall>b. cycle m = 0 \<and> \<not> bit b 3 \<longrightarrow> feed_byte w h b m q = (m, q))"
proof
  show "case fold (\<lambda>b (m, q). feed_byte w h b m q) bytes (m, q) of (m', q') \<Rightarrow> mouse_inv w h m' \<and> in_inv q'"
    using assms(3,4)
  proof (induction bytes arbitrary: m q)
    case (Cons b bytes)
    obtain m1 q1 where f: "feed_byte w h b m q = (m1, q1)" by fastforce
    from feed_byte_inv [OF assms(1,2) Cons.prems f] Cons.IH [of m1 q1] f show ?case by simp
  qed simp
  show "\<forall>b. cycle m = 0 \<and> \<not> bit b 3 \<longrightarrow> feed_byte w h b m q = (m, q)"
    using and_exp_eq_0_iff_not_bit [where n = 3 and 'a = u8] by (simp add: feed_byte_def)
qed

definition demo_mouse :: mouse where
  "demo_mouse = \<lparr>mx = 512, my = 384, mbtn = 0, cycle = 0, wheel_mode = False, pkt = [0, 0, 0, 0]\<rparr>"

theorem mouse_stays_on_screen_witness:
  "case fold (\<lambda>b (m, q). feed_byte 1024 768 b m q) [0x19, 0x80, 0x7F, 0x07] (demo_mouse, demo_ring) of
     (m', q') \<Rightarrow> mouse_inv 1024 768 m'"
proof -
  have "mouse_inv 1024 768 demo_mouse" by (simp add: mouse_inv_def demo_mouse_def)
  moreover have "in_inv demo_ring" by (simp add: in_inv_def demo_ring_def IN_RING_def)
  ultimately show ?thesis
    using mouse_stays_on_screen [of 1024 768 demo_mouse demo_ring "[0x19, 0x80, 0x7F, 0x07]"] by (simp split: prod.splits)
qed

text \<open>A terminal: the characters still to come and those on the screen.\<close>

fun next_char :: "u8 list \<times> u8 list \<Rightarrow> (u8 \<times> u8 list \<times> u8 list) option" where
  "next_char ([], scr) = None"
| "next_char (c # cs, scr) = Some (c, cs, scr)"

definition show_char :: "u8 \<Rightarrow> u8 list \<times> u8 list \<Rightarrow> u8 list \<times> u8 list" where
  "show_char c s = (fst s, snd s @ [c])"

definition line_ok :: "int \<Rightarrow> cstr \<Rightarrow> bool" where
  "line_ok mxn b = ((\<forall>c \<in> set b. 0x20 \<le> c \<and> c \<le> 0x7E) \<and> (b = [] \<or> int (length b) \<le> mxn - 1))"

lemma line_step_ok:
  assumes "line_ok mxn b" "line_step mxn c b = Some b'"
  shows "line_ok mxn b'"
proof -
  have "set (butlast b) \<subseteq> set b" by (auto dest: in_set_butlastD)
  moreover have "butlast b = [] \<or> int (length (butlast b)) \<le> mxn - 1" if "b \<noteq> []"
    using assms(1) that by (auto simp: line_ok_def)
  ultimately show ?thesis
    using assms by (auto simp: line_step_def line_ok_def split: if_splits)
qed

text \<open>Reading a line ends at the first newline that is typed and never overruns the caller's buffer: at most
  \<open>max - 1\<close> characters are kept, all of them printable, whatever else is typed before.\<close>

theorem readline_bounded:
  assumes "10 \<notin> set cs" "1 \<le> mxn"
  shows "\<exists>b scr'. readline_loop next_char show_char mxn [] (cs @ 10 # rest, scr) = Some (b, rest, scr') \<and>
    int (length b) \<le> mxn - 1 \<and> c_string b \<and> (\<forall>c \<in> set b. 0x20 \<le> c \<and> c \<le> 0x7E)"
proof -
  have "\<exists>b' scr'. readline_loop next_char show_char mxn b (cs @ 10 # rest, scr) = Some (b', rest, scr') \<and> line_ok mxn b'"
    if "line_ok mxn b" for b
    using assms(1) that
  proof (induction cs arbitrary: b scr)
    case Nil
    then show ?case by (subst readline_loop.simps) (simp add: line_step_def show_char_def)
  next
    case (Cons c cs)
    have "c \<noteq> 10" using Cons.prems(1) by auto
    then have "line_step mxn c b \<noteq> None" by (simp add: line_step_def)
    then obtain b1 where b1: "line_step mxn c b = Some b1" by auto
    let ?sc = "if b1 = b then scr else scr @ [c]"
    have "readline_loop next_char show_char mxn b ((c # cs) @ 10 # rest, scr) =
        readline_loop next_char show_char mxn b1 (cs @ 10 # rest, ?sc)"
      using b1 by (subst readline_loop.simps) (simp add: show_char_def)
    with Cons.IH [of b1 ?sc] line_step_ok [OF Cons.prems(2) b1] Cons.prems(1) show ?case by simp
  qed
  from this [of "[]"] obtain b scr' where "readline_loop next_char show_char mxn [] (cs @ 10 # rest, scr) = Some (b, rest, scr')"
    "line_ok mxn b" by (auto simp: line_ok_def)
  then show ?thesis using assms(2) by (intro exI [of _ b] exI [of _ scr']) (auto simp: line_ok_def c_string_def list_all_iff)
qed

theorem readline_bounded_witness:
  "\<exists>b scr. readline_loop next_char show_char 4 [] (bytes_of ''abcdef'' @ 10 # [], []) = Some (b, [], scr) \<and> int (length b) \<le> 3"
  using readline_bounded [of "bytes_of ''abcdef''" 4 "[]" "[]"] by (auto simp: bytes_of_def)

end
