(* ===== verification/XE_Bcache.thy ===== *)
theory XE_Bcache
  imports XE_Ata
begin

text \<open>
  \<^verbatim>\<open>src/src/drivers/bcache.cpp\<close>: the cache of 64 sectors between the filesystems and the disk driver.
  The driver's one-sector \<open>ata_read\<close> and \<open>ata_write\<close> are passed in as \<open>rd\<close> and \<open>wr\<close>; the locale
  \<open>block_dev\<close> states what the cache relies on, and the ATA driver on any drive of \<open>prompt_drive\<close>
  provides it (\<open>block_laws\<close>). The lemmas show that every cached sector equals the one on disk.
\<close>

unbundle bit_operations_syntax

definition BC_ENTRIES :: nat where "BC_ENTRIES = 64"

abbreviation no_lba :: u32 where "no_lba \<equiv> 0xFFFFFFFF"

record bc_entry =
  blba :: u32
  bdata :: "u8 list"
  dirty :: bool

record 'd bcache =
  g_cache :: "bc_entry list"
  g_init :: bool
  hand :: nat
  dev :: 'd

record 'd blkio =
  rd :: "u32 \<Rightarrow> 'd \<Rightarrow> (int \<times> u8 list) \<times> 'd"
  wr :: "u32 \<Rightarrow> u8 list \<Rightarrow> 'd \<Rightarrow> int \<times> 'd"

definition bc_init :: "'d bcache \<Rightarrow> 'd bcache" where
  "bc_init st = st\<lparr>g_cache := map (\<lambda>e. e\<lparr>blba := no_lba, dirty := False\<rparr>) (g_cache st), g_init := True\<rparr>"

fun bc_find :: "u32 \<Rightarrow> nat \<Rightarrow> bc_entry list \<Rightarrow> nat option" where
  "bc_find lba i [] = None"
| "bc_find lba i (e # es) = (if blba e = lba then Some i else bc_find lba (Suc i) es)"

definition bc_lookup :: "u32 \<Rightarrow> 'd bcache \<Rightarrow> nat option" where
  "bc_lookup lba st = bc_find lba 0 (g_cache st)"

text \<open>The clock hand: a clean or invalid slot within the given number of tries.\<close>

fun evict_scan :: "bc_entry list \<Rightarrow> nat \<Rightarrow> nat \<Rightarrow> bool \<times> nat" where
  "evict_scan es 0 h = (False, h)"
| "evict_scan es (Suc n) h =
     (let h1 = (h + 1) mod BC_ENTRIES in
      if blba (es ! h1) = no_lba \<or> \<not> dirty (es ! h1) then (True, h1) else evict_scan es n h1)"

definition bc_evict :: "'d blkio \<Rightarrow> 'd bcache \<Rightarrow> nat \<times> 'd bcache" where
  "bc_evict io st =
     (case evict_scan (g_cache st) (BC_ENTRIES * 2) (hand st) of (found, h) \<Rightarrow>
        if found then (h, st\<lparr>hand := h\<rparr>)
        else let e = g_cache st ! h;
                 st1 = (if dirty e \<and> blba e \<noteq> no_lba
                        then st\<lparr>dev := snd (wr io (blba e) (bdata e) (dev st)),
                                g_cache := (g_cache st)[h := e\<lparr>dirty := False\<rparr>]\<rparr> else st)
             in (h, st1\<lparr>hand := (h + 1) mod BC_ENTRIES\<rparr>))"

text \<open>One iteration of \<open>bc_read\<close>: the result code and the 512 bytes for the caller.\<close>

definition bc_read_one :: "'d blkio \<Rightarrow> u32 \<Rightarrow> 'd bcache \<Rightarrow> (int \<times> u8 list) \<times> 'd bcache" where
  "bc_read_one io lba st =
     (case bc_lookup lba st of
        Some i \<Rightarrow> ((0, bdata (g_cache st ! i)), st)
      | None \<Rightarrow>
          (case bc_evict io st of (i, st1) \<Rightarrow>
             let e = g_cache st1 ! i;
                 d1 = (if dirty e \<and> blba e \<noteq> no_lba then snd (wr io (blba e) (bdata e) (dev st1)) else dev st1)
             in case rd io lba d1 of ((r, bs), d2) \<Rightarrow>
                  let data = bs @ drop (length bs) (bdata e) in
                  if r < 0 then ((- 1, []), st1\<lparr>dev := d2, g_cache := (g_cache st1)[i := e\<lparr>bdata := data\<rparr>]\<rparr>)
                  else ((0, data), st1\<lparr>dev := d2, g_cache := (g_cache st1)[i := \<lparr>blba = lba, bdata = data, dirty = False\<rparr>]\<rparr>)))"

fun bc_read_loop :: "'d blkio \<Rightarrow> u32 \<Rightarrow> nat \<Rightarrow> 'd bcache \<Rightarrow> (int \<times> u8 list) \<times> 'd bcache" where
  "bc_read_loop io lba 0 st = ((0, []), st)"
| "bc_read_loop io lba (Suc n) st =
     (case bc_read_one io lba st of ((r, bs), st1) \<Rightarrow>
        if r < 0 then ((- 1, []), st1)
        else case bc_read_loop io (lba + 1) n st1 of ((r, bs'), st2) \<Rightarrow> ((r, bs @ bs'), st2))"

definition bc_boot :: "'d bcache \<Rightarrow> 'd bcache" where
  "bc_boot st = (if \<not> g_init st then bc_init st else st)"

definition bc_read :: "'d blkio \<Rightarrow> u32 \<Rightarrow> u8 \<Rightarrow> 'd bcache \<Rightarrow> (int \<times> u8 list) \<times> 'd bcache" where
  "bc_read io lba count st = bc_read_loop io lba (unat count) (bc_boot st)"

definition bc_write_one :: "'d blkio \<Rightarrow> u32 \<Rightarrow> u8 list \<Rightarrow> 'd bcache \<Rightarrow> 'd bcache" where
  "bc_write_one io lba src st =
     (let st1 = st\<lparr>dev := snd (wr io lba src (dev st))\<rparr> in
      case bc_lookup lba st1 of
        Some i \<Rightarrow> st1\<lparr>g_cache := (g_cache st1)[i := (g_cache st1 ! i)\<lparr>bdata := src, dirty := False\<rparr>]\<rparr>
      | None \<Rightarrow> (case bc_evict io st1 of (i, st2) \<Rightarrow>
          st2\<lparr>g_cache := (g_cache st2)[i := \<lparr>blba = lba, bdata = src, dirty = False\<rparr>]\<rparr>))"

fun bc_write_loop :: "'d blkio \<Rightarrow> u32 \<Rightarrow> nat \<Rightarrow> u8 list \<Rightarrow> 'd bcache \<Rightarrow> 'd bcache" where
  "bc_write_loop io lba 0 src st = st"
| "bc_write_loop io lba (Suc n) src st =
     bc_write_loop io (lba + 1) n (drop 512 src) (bc_write_one io lba (take 512 src) st)"

definition bc_write :: "'d blkio \<Rightarrow> u32 \<Rightarrow> u8 \<Rightarrow> u8 list \<Rightarrow> 'd bcache \<Rightarrow> int \<times> 'd bcache" where
  "bc_write io lba count src st = (0, bc_write_loop io lba (unat count) src (bc_boot st))"

definition bc_clean :: "'d blkio \<Rightarrow> nat \<Rightarrow> 'd bcache \<Rightarrow> 'd bcache" where
  "bc_clean io i st =
     (let e = g_cache st ! i in
      if dirty e \<and> blba e \<noteq> no_lba
      then st\<lparr>dev := snd (wr io (blba e) (bdata e) (dev st)), g_cache := (g_cache st)[i := e\<lparr>dirty := False\<rparr>]\<rparr>
      else st)"

definition bc_flush :: "'d blkio \<Rightarrow> 'd bcache \<Rightarrow> 'd bcache" where
  "bc_flush io st = (if \<not> g_init st then st else fold (bc_clean io) [0..<BC_ENTRIES] st)"

definition bc_drop :: "'d blkio \<Rightarrow> u32 \<Rightarrow> nat \<Rightarrow> 'd bcache \<Rightarrow> 'd bcache" where
  "bc_drop io target i st =
     (let e = g_cache st ! i in
      if blba e = target
      then st\<lparr>dev := (if dirty e then snd (wr io (blba e) (bdata e) (dev st)) else dev st),
              g_cache := (g_cache st)[i := e\<lparr>blba := no_lba, dirty := False\<rparr>]\<rparr>
      else st)"

definition bc_invalidate :: "'d blkio \<Rightarrow> u32 \<Rightarrow> u8 \<Rightarrow> 'd bcache \<Rightarrow> 'd bcache" where
  "bc_invalidate io lba count st =
     (if \<not> g_init st then st
      else fold (\<lambda>s st. fold (bc_drop io (lba + of_nat s)) [0..<BC_ENTRIES] st) [0..<unat count] st)"

section \<open>Block devices\<close>

text \<open>The invariant: every entry is clean; a valid entry holds its sector, except possibly for sectors in \<open>R\<close>;
  no sector is cached twice. \<open>sec\<close> gives the sectors of the device, \<open>good\<close> its own invariant, \<open>valid\<close> the
  addressable range.\<close>

definition coherent :: "('d \<Rightarrow> u32 \<Rightarrow> u8 list) \<Rightarrow> ('d \<Rightarrow> bool) \<Rightarrow> (u32 \<Rightarrow> bool) \<Rightarrow> u32 set \<Rightarrow> 'd bcache \<Rightarrow> bool" where
  "coherent sec good valid R st = (g_init st \<and> length (g_cache st) = BC_ENTRIES \<and> hand st < BC_ENTRIES \<and> good (dev st) \<and>
     (\<forall>e \<in> set (g_cache st). \<not> dirty e \<and> length (bdata e) = 512 \<and>
        (blba e \<noteq> no_lba \<longrightarrow> valid (blba e) \<and> (blba e \<notin> R \<longrightarrow> bdata e = sec (dev st) (blba e)))) \<and>
     (\<forall>i < BC_ENTRIES. \<forall>j < BC_ENTRIES. blba (g_cache st ! i) = blba (g_cache st ! j) \<and> blba (g_cache st ! i) \<noteq> no_lba \<longrightarrow> i = j))"

lemma bc_find_cases:
  "(case bc_find lba i es of None \<Rightarrow> \<forall>e \<in> set es. blba e \<noteq> lba
    | Some k \<Rightarrow> i \<le> k \<and> k - i < length es \<and> blba (es ! (k - i)) = lba)"
proof (induction es arbitrary: i)
  case (Cons e es)
  from Cons [of "Suc i"] show ?case
    by (auto simp: Suc_diff_le nth_Cons' split: option.splits)
qed simp

lemma bc_lookup_cases:
  "bc_lookup lba st = None \<and> (\<forall>e \<in> set (g_cache st). blba e \<noteq> lba) \<or>
   (\<exists>k < length (g_cache st). bc_lookup lba st = Some k \<and> blba (g_cache st ! k) = lba)"
  using bc_find_cases [where lba = lba and i = 0 and es = "g_cache st"] by (auto simp: bc_lookup_def split: option.splits)

text \<open>What the cache needs from the driver: a read returns the sector and changes none; a write replaces one
  sector or reports an error and changes none.\<close>

locale block_dev =
  fixes io :: "'d blkio"
    and sec :: "'d \<Rightarrow> u32 \<Rightarrow> u8 list"
    and good :: "'d \<Rightarrow> bool"
    and valid :: "u32 \<Rightarrow> bool"
  assumes no_lba_invalid: "\<not> valid no_lba"
    and sec_len: "good d \<Longrightarrow> length (sec d l) = 512"
    and rd_law: "good d \<Longrightarrow> valid l \<Longrightarrow> rd io l d = ((r, bs), d') \<Longrightarrow>
        good d' \<and> sec d' = sec d \<and> (if r < 0 then bs = [] else bs = sec d l)"
    and wr_law: "good d \<Longrightarrow> valid l \<Longrightarrow> length bs = 512 \<Longrightarrow> wr io l bs d = (r, d') \<Longrightarrow>
        good d' \<and> sec d' = (if r < 0 then sec d else (sec d)(l := bs))"
begin

abbreviation coh :: "u32 set \<Rightarrow> 'd bcache \<Rightarrow> bool" where
  "coh \<equiv> coherent sec good valid"

lemma coh_entry:
  assumes "coh R st" "i < BC_ENTRIES"
  shows "\<not> dirty (g_cache st ! i)" "length (bdata (g_cache st ! i)) = 512"
    "blba (g_cache st ! i) \<noteq> no_lba \<Longrightarrow> valid (blba (g_cache st ! i))"
    "blba (g_cache st ! i) \<noteq> no_lba \<Longrightarrow> blba (g_cache st ! i) \<notin> R \<Longrightarrow> bdata (g_cache st ! i) = sec (dev st) (blba (g_cache st ! i))"
proof -
  have "g_cache st ! i \<in> set (g_cache st)" using assms by (simp add: coherent_def)
  then show "\<not> dirty (g_cache st ! i)" "length (bdata (g_cache st ! i)) = 512"
    "blba (g_cache st ! i) \<noteq> no_lba \<Longrightarrow> valid (blba (g_cache st ! i))"
    "blba (g_cache st ! i) \<noteq> no_lba \<Longrightarrow> blba (g_cache st ! i) \<notin> R \<Longrightarrow> bdata (g_cache st ! i) = sec (dev st) (blba (g_cache st ! i))"
    using assms(1) unfolding coherent_def by blast+
qed

lemma evict_clean:
  assumes "coh R st"
  shows "bc_evict io st = ((hand st + 1) mod BC_ENTRIES, st\<lparr>hand := (hand st + 1) mod BC_ENTRIES\<rparr>)"
proof -
  have "(hand st + 1) mod BC_ENTRIES < BC_ENTRIES" by (simp add: BC_ENTRIES_def)
  then have "\<not> dirty (g_cache st ! ((hand st + 1) mod BC_ENTRIES))" by (rule coh_entry(1) [OF assms])
  then have "evict_scan (g_cache st) (Suc n) (hand st) = (True, (hand st + 1) mod BC_ENTRIES)" for n by simp
  moreover have "BC_ENTRIES * 2 = Suc 127" by (simp add: BC_ENTRIES_def)
  ultimately show ?thesis unfolding bc_evict_def by (simp only: prod.case if_True)
qed

text \<open>Replacing one entry, possibly on a device whose sector \<open>lba\<close> was just rewritten.\<close>

lemma coh_replace:
  assumes "coh R st" "i < BC_ENTRIES" "good d" "h < BC_ENTRIES"
    and e: "\<not> dirty e" "length (bdata e) = 512" "valid (blba e)" "blba e \<notin> R' \<longrightarrow> bdata e = sec d (blba e)"
    and u: "\<And>j. j < BC_ENTRIES \<Longrightarrow> j \<noteq> i \<Longrightarrow> blba (g_cache st ! j) \<noteq> blba e"
    and fr: "\<And>l. l \<noteq> blba e \<Longrightarrow> l \<notin> R' \<Longrightarrow> l \<notin> R \<and> sec d l = sec (dev st) l"
  shows "coh R' (st\<lparr>hand := h, dev := d, g_cache := (g_cache st)[i := e]\<rparr>)"
proof -
  have len: "length (g_cache st) = BC_ENTRIES" using assms(1) by (simp add: coherent_def)
  have ent: "\<not> dirty x \<and> length (bdata x) = 512 \<and> (blba x \<noteq> no_lba \<longrightarrow> valid (blba x) \<and> (blba x \<notin> R' \<longrightarrow> bdata x = sec d (blba x)))"
    if "x \<in> set ((g_cache st)[i := e])" for x
  proof -
    from that len obtain j where j: "j < BC_ENTRIES" "x = (if j = i then e else g_cache st ! j)"
      by (auto simp: in_set_conv_nth nth_list_update)
    show ?thesis
    proof (cases "j = i")
      case False
      with j have x: "x = g_cache st ! j" "blba x \<noteq> blba e" using u [of j] by auto
      show ?thesis using coh_entry [OF assms(1) j(1)] x fr [of "blba x"] by auto
    qed (use e j in auto)
  qed
  have "k = j" if "k < BC_ENTRIES" "j < BC_ENTRIES" "blba ((g_cache st)[i := e] ! k) = blba ((g_cache st)[i := e] ! j)"
      "blba ((g_cache st)[i := e] ! k) \<noteq> no_lba" for k j
    using that u [of k] u [of j] assms(1,2) len by (cases "k = i"; cases "j = i") (auto simp: coherent_def)
  then show ?thesis
    unfolding coherent_def using ent assms(1,3,4) len by (auto simp: coherent_def)
qed

lemma read_one:
  assumes c: "coh R st" and v: "valid lba" and nr: "lba \<notin> R" and r: "bc_read_one io lba st = ((r, bs), st')"
  shows "coh R st' \<and> sec (dev st') = sec (dev st) \<and> (if r < 0 then r = - 1 else r = 0 \<and> bs = sec (dev st) lba)"
proof (cases "bc_lookup lba st")
  case (Some k)
  then have k: "k < BC_ENTRIES" "blba (g_cache st ! k) = lba"
    using bc_lookup_cases [of lba st] c by (auto simp: coherent_def)
  have "bdata (g_cache st ! k) = sec (dev st) lba"
    using coh_entry(4) [OF c k(1)] k(2) nr v no_lba_invalid by metis
  with r c Some show ?thesis by (auto simp: bc_read_one_def)
next
  case None
  then have miss: "\<forall>e \<in> set (g_cache st). blba e \<noteq> lba" using bc_lookup_cases [of lba st] by auto
  define h where "h = (hand st + 1) mod BC_ENTRIES"
  define e where "e = g_cache st ! h"
  have h: "h < BC_ENTRIES" by (simp add: h_def BC_ENTRIES_def)
  have d: "good (dev st)" "length (g_cache st) = BC_ENTRIES" using c by (simp_all add: coherent_def)
  note ce = coh_entry [OF c h, folded e_def]
  obtain r' bs' d' where io: "rd io lba (dev st) = ((r', bs'), d')" by (metis surj_pair)
  note law = rd_law [OF d(1) v io]
  show ?thesis
  proof (cases "r' < 0")
    case True
    then have "st' = st\<lparr>hand := h, dev := d'\<rparr>" "r = - 1"
      using r None ce law io h d(2) evict_clean [OF c, folded h_def]
      by (auto simp: bc_read_one_def Let_def e_def [symmetric]) (simp_all add: e_def)
    then show ?thesis using c law h by (auto simp: coherent_def)
  next
    case False
    let ?n = "\<lparr>blba = lba, bdata = sec (dev st) lba, dirty = False\<rparr>"
    have st': "st' = st\<lparr>hand := h, dev := d', g_cache := (g_cache st)[h := ?n]\<rparr>" "r = 0" "bs = sec (dev st) lba"
      using False r None ce law io evict_clean [OF c, folded h_def] sec_len [OF d(1), of lba]
      by (auto simp: bc_read_one_def Let_def e_def [symmetric])
    have "coh R (st\<lparr>hand := h, dev := d', g_cache := (g_cache st)[h := ?n]\<rparr>)"
      by (rule coh_replace [OF c h _ h]) (use law v nr sec_len [OF d(1)] miss d(2) in \<open>auto simp: nth_mem\<close>)
    with st' law show ?thesis by simp
  qed
qed

lemma read_loop:
  assumes "coh {} st" "\<forall>i < n. valid (lba + of_nat i)" "bc_read_loop io lba n st = ((r, bs), st')"
  shows "coh {} st' \<and> sec (dev st') = sec (dev st) \<and>
    (if r < 0 then r = - 1 else r = 0 \<and> bs = concat (map (\<lambda>i. sec (dev st) (lba + of_nat i)) [0..<n]))"
  using assms
proof (induction n arbitrary: lba st r bs st')
  case (Suc n)
  obtain r1 b1 st1 where one: "bc_read_one io lba st = ((r1, b1), st1)" by (metis surj_pair)
  have v: "valid lba" "\<forall>i < n. valid (lba + 1 + of_nat i)"
    using Suc.prems(2) by (auto dest: spec [of _ 0] spec [of _ "Suc _"] simp: add.assoc)
  note ro = read_one [OF Suc.prems(1) v(1) _ one]
  show ?case
  proof (cases "r1 < 0")
    case True
    with Suc.prems(3) one ro show ?thesis by auto
  next
    case False
    obtain r2 b2 st2 where two: "bc_read_loop io (lba + 1) n st1 = ((r2, b2), st2)" by (metis surj_pair)
    have e: "r = r2" "bs = b1 @ b2" "st' = st2" using Suc.prems(3) one two False by auto
    have "map (\<lambda>i. sec (dev st) (lba + of_nat i)) [0..<Suc n] =
        sec (dev st) lba # map (\<lambda>i. sec (dev st) (lba + 1 + of_nat i)) [0..<n]"
      by (simp add: upt_conv_Cons map_Suc_upt [symmetric] add.assoc o_def del: upt_Suc map_Suc_upt)
    with Suc.IH [OF _ v(2) two] ro False e show ?thesis by (auto simp del: upt_Suc)
  qed
qed auto

lemma write_one:
  assumes c: "coh R st" and v: "valid lba" and len: "length src = 512"
  shows "coh (if fst (wr io lba src (dev st)) < 0 then insert lba R else R - {lba}) (bc_write_one io lba src st) \<and>
    sec (dev (bc_write_one io lba src st)) =
      (if fst (wr io lba src (dev st)) < 0 then sec (dev st) else (sec (dev st))(lba := src))"
proof -
  obtain r d where w: "wr io lba src (dev st) = (r, d)" by (metis surj_pair)
  have g: "good (dev st)" "length (g_cache st) = BC_ENTRIES" using c by (simp_all add: coherent_def)
  note law = wr_law [OF g(1) v len w]
  let ?R = "if r < 0 then insert lba R else R - {lba}"
  let ?st1 = "st\<lparr>dev := d\<rparr>"
  have lk: "bc_lookup lba ?st1 = bc_lookup lba st" by (simp add: bc_lookup_def)
  have rep: "coh ?R (st\<lparr>hand := h, dev := d, g_cache := (g_cache st)[i := \<lparr>blba = lba, bdata = src, dirty = False\<rparr>]\<rparr>)"
    if "i < BC_ENTRIES" "h < BC_ENTRIES" "\<And>j. j < BC_ENTRIES \<Longrightarrow> j \<noteq> i \<Longrightarrow> blba (g_cache st ! j) \<noteq> lba" for i h
    by (rule coh_replace [OF c that(1) _ that(2)]) (use law v len that(3) in \<open>auto split: if_splits\<close>)
  show ?thesis
  proof (cases "bc_lookup lba st")
    case (Some k)
    then have k: "k < BC_ENTRIES" "blba (g_cache st ! k) = lba" using bc_lookup_cases [of lba st] g by auto
    have u: "blba (g_cache st ! j) \<noteq> lba" if "j < BC_ENTRIES" "j \<noteq> k" for j
      using c k that v no_lba_invalid unfolding coherent_def by metis
    have h: "hand st < BC_ENTRIES" using c by (simp add: coherent_def)
    have "bc_write_one io lba src st = st\<lparr>hand := hand st, dev := d,
        g_cache := (g_cache st)[k := \<lparr>blba = lba, bdata = src, dirty = False\<rparr>]\<rparr>"
      using Some k(2) lk w by (cases "g_cache st ! k") (simp add: bc_write_one_def Let_def)
    then show ?thesis using rep [OF k(1) h u] law w by (simp only: fst_conv) simp
  next
    case None
    define h where "h = (hand st + 1) mod BC_ENTRIES"
    have h: "h < BC_ENTRIES" by (simp add: h_def BC_ENTRIES_def)
    have miss: "blba (g_cache st ! j) \<noteq> lba" if "j < BC_ENTRIES" for j
      using None bc_lookup_cases [of lba st] that g(2) nth_mem by fastforce
    have "bc_evict io ?st1 = (h, ?st1\<lparr>hand := h\<rparr>)"
    proof -
      have "evict_scan (g_cache st) (BC_ENTRIES * 2) (hand st) = (True, h)"
      proof -
        have "\<not> dirty (g_cache st ! h)" by (rule coh_entry(1) [OF c h])
        moreover have "BC_ENTRIES * 2 = Suc 127" by (simp add: BC_ENTRIES_def)
        ultimately show ?thesis by (simp only: evict_scan.simps Let_def h_def [symmetric]) simp
      qed
      then show ?thesis by (simp add: bc_evict_def)
    qed
    then have "bc_write_one io lba src st = st\<lparr>hand := h, dev := d,
        g_cache := (g_cache st)[h := \<lparr>blba = lba, bdata = src, dirty = False\<rparr>]\<rparr>"
      using None lk w by (simp add: bc_write_one_def Let_def)
    then show ?thesis using rep [OF h h miss] law w by simp
  qed
qed

lemma write_one_hit:
  assumes c: "coh R st" and v: "valid lba" and len: "length src = 512"
  shows "\<exists>k. bc_lookup lba (bc_write_one io lba src st) = Some k \<and> bdata (g_cache (bc_write_one io lba src st) ! k) = src"
proof -
  let ?w = "bc_write_one io lba src st"
  define R' where "R' = (if fst (wr io lba src (dev st)) < 0 then insert lba R else R - {lba})"
  have cw: "coh R' ?w" using write_one [OF c v len] by (simp add: R'_def)
  have ce: "coh R' ?w \<Longrightarrow> length (g_cache ?w) = BC_ENTRIES" by (simp add: coherent_def)
  have len_c: "length (g_cache st) = BC_ENTRIES" using c by (simp add: coherent_def)
  have "\<exists>k < BC_ENTRIES. blba (g_cache ?w ! k) = lba \<and> bdata (g_cache ?w ! k) = src"
  proof (cases "bc_lookup lba st")
    case (Some k)
    then have "k < BC_ENTRIES" "blba (g_cache st ! k) = lba" using bc_lookup_cases [of lba st] len_c by auto
    then show ?thesis using Some len_c
      by (intro exI [of _ k]) (simp add: bc_write_one_def bc_lookup_def)
  next
    case None
    let ?h = "(hand st + 1) mod BC_ENTRIES"
    have h: "?h < BC_ENTRIES" by (simp add: BC_ENTRIES_def)
    have "evict_scan (g_cache st) (BC_ENTRIES * 2) (hand st) = (True, ?h)"
    proof -
      have "\<not> dirty (g_cache st ! ?h)" by (rule coh_entry(1) [OF c h])
      moreover have "BC_ENTRIES * 2 = Suc 127" by (simp add: BC_ENTRIES_def)
      ultimately show ?thesis by (simp only: evict_scan.simps Let_def) simp
    qed
    then show ?thesis using None len_c h
      by (intro exI [of _ ?h]) (simp add: bc_write_one_def bc_lookup_def bc_evict_def)
  qed
  then obtain k where k: "k < BC_ENTRIES" "blba (g_cache ?w ! k) = lba" "bdata (g_cache ?w ! k) = src" by blast
  have "lba \<noteq> no_lba" using v no_lba_invalid by auto
  then have uniq: "j = k" if "j < BC_ENTRIES" "blba (g_cache ?w ! j) = lba" for j
    using cw k that unfolding coherent_def by metis
  have "g_cache ?w ! k \<in> set (g_cache ?w)" using k(1) ce [OF cw] by simp
  then obtain j where "j < BC_ENTRIES" "bc_lookup lba ?w = Some j" "blba (g_cache ?w ! j) = lba"
    using bc_lookup_cases [of lba ?w] k(2) ce [OF cw] by auto
  with uniq k show ?thesis by auto
qed

lemma write_loop:
  assumes "coh {} st" "\<forall>i < n. valid (lba + of_nat i)" "length src = 512 * n"
    "\<And>l bs d. valid l \<Longrightarrow> good d \<Longrightarrow> \<not> fst (wr io l bs d) < 0"
  shows "coh {} (bc_write_loop io lba n src st) \<and>
    sec (dev (bc_write_loop io lba n src st)) =
      fold (\<lambda>i f. f(lba + of_nat i := take 512 (drop (512 * i) src))) [0..<n] (sec (dev st))"
  using assms(1-3)
proof (induction n arbitrary: lba src st)
  case (Suc n)
  have v: "valid lba" "\<forall>i < n. valid (lba + 1 + of_nat i)"
    using Suc.prems(2) by (auto dest: spec [of _ 0] spec [of _ "Suc _"] simp: add.assoc)
  have g: "good (dev st)" using Suc.prems(1) by (simp add: coherent_def)
  let ?st = "bc_write_one io lba (take 512 src) st"
  have one: "coh {} ?st" "sec (dev ?st) = (sec (dev st))(lba := take 512 src)"
    using write_one [OF Suc.prems(1) v(1), of "take 512 src"] assms(4) [OF v(1) g] Suc.prems(3) by auto
  have "[0..<Suc n] = 0 # map Suc [0..<n]" by (simp add: upt_conv_Cons map_Suc_upt del: upt_Suc)
  then have "fold (\<lambda>i f. f(lba + of_nat i := take 512 (drop (512 * i) src))) [0..<Suc n] f0 =
      fold (\<lambda>i f. f(lba + 1 + of_nat i := take 512 (drop (512 * i) (drop 512 src)))) [0..<n] (f0(lba := take 512 src))" for f0
    by (simp add: fold_map o_def add.assoc add.commute [of _ 512] del: map_Suc_upt upt_Suc)
  with Suc.IH [OF one(1) v(2), of "drop 512 src"] one(2) Suc.prems(3) show ?case by (simp del: upt_Suc fun_upd_apply)
qed simp

text \<open>Dropping a stale sector.\<close>

lemma drop_one:
  assumes "coh R st" "i < BC_ENTRIES"
  shows "coh R (bc_drop io target i st) \<and> dev (bc_drop io target i st) = dev st \<and>
    (\<forall>j < BC_ENTRIES. blba (g_cache (bc_drop io target i st) ! j) =
       (if j = i \<and> blba (g_cache st ! i) = target then no_lba else blba (g_cache st ! j)))"
proof (cases "blba (g_cache st ! i) = target")
  case True
  have len: "length (g_cache st) = BC_ENTRIES" using assms(1) by (simp add: coherent_def)
  let ?e = "(g_cache st ! i)\<lparr>blba := no_lba, dirty := False\<rparr>"
  have eq: "bc_drop io target i st = st\<lparr>g_cache := (g_cache st)[i := ?e]\<rparr>"
    using True coh_entry(1) [OF assms] by (simp add: bc_drop_def Let_def)
  have ent: "x \<in> set (g_cache st) \<or> x = ?e" if "x \<in> set ((g_cache st)[i := ?e])" for x
    using that set_update_subset_insert by fastforce
  have "k = j" if "k < BC_ENTRIES" "j < BC_ENTRIES" "blba ((g_cache st)[i := ?e] ! k) = blba ((g_cache st)[i := ?e] ! j)"
      "blba ((g_cache st)[i := ?e] ! k) \<noteq> no_lba" for k j
    using that assms len by (cases "k = i"; cases "j = i") (auto simp: coherent_def)
  moreover have "\<not> dirty x \<and> length (bdata x) = 512 \<and>
      (blba x \<noteq> no_lba \<longrightarrow> valid (blba x) \<and> (blba x \<notin> R \<longrightarrow> bdata x = sec (dev st) (blba x)))"
    if "x \<in> set ((g_cache st)[i := ?e])" for x
    using ent [OF that] assms(1) coh_entry(2) [OF assms] unfolding coherent_def by auto
  ultimately have "coh R (st\<lparr>g_cache := (g_cache st)[i := ?e]\<rparr>)"
    using assms(1) len unfolding coherent_def by auto
  then show ?thesis unfolding eq using True len assms(2) by (auto simp: nth_list_update)
qed (use assms in \<open>simp add: bc_drop_def Let_def\<close>)

lemma drop_all:
  assumes "coh R st"
  shows "coh (R - {target}) (fold (bc_drop io target) [0..<BC_ENTRIES] st) \<and>
    dev (fold (bc_drop io target) [0..<BC_ENTRIES] st) = dev st"
proof -
  have "coh R (fold (bc_drop io target) [0..<n] st) \<and> dev (fold (bc_drop io target) [0..<n] st) = dev st \<and>
      (\<forall>j < n. target = no_lba \<or> blba (g_cache (fold (bc_drop io target) [0..<n] st) ! j) \<noteq> target)" if "n \<le> BC_ENTRIES" for n
    using that
  proof (induction n)
    case (Suc n)
    let ?s = "fold (bc_drop io target) [0..<n] st"
    have IH: "coh R ?s" "dev ?s = dev st" "\<forall>j < n. target = no_lba \<or> blba (g_cache ?s ! j) \<noteq> target"
      using Suc by simp_all
    have "n < BC_ENTRIES" using Suc.prems by simp
    from drop_one [OF IH(1) this, of target] IH show ?case using Suc.prems by (auto simp: less_Suc_eq)
  qed (use assms in simp)
  from this [of BC_ENTRIES]
  have c: "coh R (fold (bc_drop io target) [0..<BC_ENTRIES] st)" "dev (fold (bc_drop io target) [0..<BC_ENTRIES] st) = dev st"
    and n: "\<forall>j < BC_ENTRIES. target = no_lba \<or> blba (g_cache (fold (bc_drop io target) [0..<BC_ENTRIES] st) ! j) \<noteq> target" by auto
  let ?c = "g_cache (fold (bc_drop io target) [0..<BC_ENTRIES] st)"
  have "blba e \<noteq> target" if e: "e \<in> set ?c" "blba e \<noteq> no_lba" for e
  proof -
    have "length ?c = BC_ENTRIES" using c(1) by (simp add: coherent_def)
    with e(1) obtain j where "j < BC_ENTRIES" "?c ! j = e" by (auto simp: in_set_conv_nth)
    with n e(2) show ?thesis by auto
  qed
  with c show ?thesis unfolding coherent_def by blast
qed

lemma invalidate_range:
  assumes "coh R st" "R \<subseteq> (\<lambda>i. lba + of_nat i) ` {..<unat count}"
  shows "coh {} (bc_invalidate io lba count st) \<and> dev (bc_invalidate io lba count st) = dev st"
proof -
  let ?f = "\<lambda>s st. fold (bc_drop io (lba + of_nat s)) [0..<BC_ENTRIES] st"
  have all: "coh (R - (\<lambda>i. lba + of_nat i) ` {..<n}) (fold ?f [0..<n] st) \<and> dev (fold ?f [0..<n] st) = dev st" for n
  proof (induction n)
    case (Suc n)
    let ?s = "fold ?f [0..<n] st"
    have "R - (\<lambda>i. lba + of_nat i) ` {..<Suc n} = R - (\<lambda>i. lba + of_nat i) ` {..<n} - {lba + of_nat n}"
      by (auto simp: lessThan_Suc)
    with drop_all [of "R - (\<lambda>i. lba + of_nat i) ` {..<n}" ?s "lba + of_nat n"] Suc show ?case by simp
  qed (use assms in simp)
  have e: "R - (\<lambda>i. lba + of_nat i) ` {..<unat count} = {}" using assms(2) by blast
  have "g_init st" using assms(1) by (simp add: coherent_def)
  then have "bc_invalidate io lba count st = fold ?f [0..<unat count] st" by (simp add: bc_invalidate_def)
  then show ?thesis using all [of "unat count"] unfolding e by simp
qed

end

section \<open>A device without errors\<close>

text \<open>What a filesystem needs from the cached disk: reads return the sector and writes replace it.\<close>

locale sector_store =
  fixes io :: "'d blkio"
    and vol :: "'d bcache \<Rightarrow> u32 \<Rightarrow> u8 list"
    and ok :: "'d bcache \<Rightarrow> bool"
    and valid :: "u32 \<Rightarrow> bool"
  assumes vol_len: "ok c \<Longrightarrow> length (vol c l) = 512"
    and read_law: "ok c \<Longrightarrow> valid l \<Longrightarrow> \<exists>c'. bc_read io l 1 c = ((0, vol c l), c') \<and> ok c' \<and> vol c' = vol c"
    and write_law: "ok c \<Longrightarrow> valid l \<Longrightarrow> length bs = 512 \<Longrightarrow>
        \<exists>c'. bc_write io l 1 bs c = (0, c') \<and> ok c' \<and> vol c' = (vol c)(l := bs)"

locale reliable_dev = block_dev +
  assumes rd_ok: "good d \<Longrightarrow> valid l \<Longrightarrow> \<not> fst (fst (rd io l d)) < 0"
    and wr_ok: "good d \<Longrightarrow> valid l \<Longrightarrow> length bs = 512 \<Longrightarrow> \<not> fst (wr io l bs d) < 0"
begin

lemma read_one_ok:
  assumes "coh {} st" "valid lba"
  shows "\<exists>st'. bc_read_one io lba st = ((0, sec (dev st) lba), st') \<and> coh {} st' \<and> sec (dev st') = sec (dev st)"
proof -
  obtain r bs st' where r: "bc_read_one io lba st = ((r, bs), st')" by (metis surj_pair)
  have "\<not> r < 0"
  proof (cases "bc_lookup lba st")
    case None
    let ?h = "(hand st + 1) mod BC_ENTRIES"
    have h: "?h < BC_ENTRIES" by (simp add: BC_ENTRIES_def)
    have g: "good (dev st)" using assms(1) by (simp add: coherent_def)
    obtain r2 bs2 d2 where rd2: "rd io lba (dev st) = ((r2, bs2), d2)" by (metis surj_pair)
    have "\<not> r2 < 0" using rd_ok [OF g assms(2)] rd2 by simp
    then show ?thesis using r None rd2 evict_clean [OF assms(1)] coh_entry(1) [OF assms(1) h]
      by (auto simp: bc_read_one_def Let_def)
  qed (use r in \<open>auto simp: bc_read_one_def\<close>)
  with read_one [OF assms(1,2) _ r] r show ?thesis by auto
qed

lemma write_one_ok:
  assumes "coh {} st" "valid lba" "length src = 512"
  shows "coh {} (bc_write_one io lba src st)" "sec (dev (bc_write_one io lba src st)) = (sec (dev st))(lba := src)"
  using write_one [OF assms] wr_ok [OF _ assms(2,3)] assms(1) by (auto simp: coherent_def)

end

sublocale reliable_dev \<subseteq> store: sector_store io "\<lambda>c. sec (dev c)" "coh {}" valid
proof
  fix c :: "'a bcache" and l
  assume "coh {} c"
  then show "length (sec (dev c) l) = 512" by (simp add: coherent_def sec_len)
next
  fix c :: "'a bcache" and l
  assume c: "coh {} c" and v: "valid l"
  have "bc_boot c = c" using c by (simp add: bc_boot_def coherent_def)
  moreover obtain st' where "bc_read_one io l c = ((0, sec (dev c) l), st')" "coh {} st'" "sec (dev st') = sec (dev c)"
    using read_one_ok [OF c v] by blast
  ultimately show "\<exists>c'. bc_read io l 1 c = ((0, sec (dev c) l), c') \<and> coh {} c' \<and> sec (dev c') = sec (dev c)"
    by (auto simp: bc_read_def numeral_eq_Suc)
next
  fix c :: "'a bcache" and l and bs :: "u8 list"
  assume c: "coh {} c" and v: "valid l" and len: "length bs = 512"
  have "bc_boot c = c" using c by (simp add: bc_boot_def coherent_def)
  then show "\<exists>c'. bc_write io l 1 bs c = (0, c') \<and> coh {} c' \<and> sec (dev c') = (sec (dev c))(l := bs)"
    using write_one_ok [OF c v len] len by (simp add: bc_write_def)
qed

section \<open>The ATA driver as a block device\<close>

definition ata_io :: "'d ports \<Rightarrow> nat \<Rightarrow> 'd blkio" where
  "ata_io P drive =
     \<lparr>rd = \<lambda>lba d. (case ata_read P drive lba 1 d of ((r, ws), d') \<Rightarrow> ((r, bytes_of_words ws), d')),
      wr = \<lambda>lba bs d. ata_write P drive lba 1 (words_of_bytes bs) d\<rparr>"

definition disk_sec :: "('d \<Rightarrow> pio) \<Rightarrow> nat \<Rightarrow> 'd \<Rightarrow> u32 \<Rightarrow> u8 list" where
  "disk_sec drv drive d l = bytes_of_words (sectors (drv d) (odd drive) l)"

definition disk_ready :: "('d \<Rightarrow> nat \<times> nat) \<Rightarrow> ('d \<Rightarrow> pio) \<Rightarrow> nat \<Rightarrow> 'd \<Rightarrow> bool" where
  "disk_ready lag drv drive d = (lag d = (0, 0) \<and> drive_ok drive (drv d))"

text \<open>A drive without bad sectors.\<close>

definition disk_good :: "('d \<Rightarrow> nat \<times> nat) \<Rightarrow> ('d \<Rightarrow> pio) \<Rightarrow> nat \<Rightarrow> 'd \<Rightarrow> bool" where
  "disk_good lag drv drive d = (disk_ready lag drv drive d \<and> (\<forall>l. \<not> bad (drv d) (odd drive) l))"

definition lba28 :: "u32 \<Rightarrow> bool" where
  "lba28 l = (unat l < 2 ^ 28)"

lemma lbas_1: "lbas l (unat (1 :: u8)) = [l]" "lbas l (Suc 0) = [l]"
  by (simp_all add: lbas_def)

context prompt_drive begin

lemma rd_one:
  assumes "disk_ready lag drv drive d" "lba28 l"
  shows "\<exists>d'. disk_ready lag drv drive d' \<and> disk_sec drv drive d' = disk_sec drv drive d \<and> bad (drv d') = bad (drv d) \<and>
    rd (ata_io P drive) l d = (if bad (drv d) (odd drive) l then ((- 2, []), d') else ((0, disk_sec drv drive d l), d'))"
  using ata_read_drive [of d drive l 1] assms
  by (auto simp: disk_ready_def lba28_def lbas_1 ata_io_def disk_sec_def fun_eq_iff drive_ok_def bytes_of_words_def split: if_splits)

lemma wr_one:
  assumes "disk_ready lag drv drive d" "lba28 l" "length bs = 512"
  shows "\<exists>d'. disk_ready lag drv drive d' \<and> bad (drv d') = bad (drv d) \<and>
    (if bad (drv d) (odd drive) l then wr (ata_io P drive) l bs d = (- 2, d') \<and> disk_sec drv drive d' = disk_sec drv drive d
     else wr (ata_io P drive) l bs d = (0, d') \<and> disk_sec drv drive d' = (disk_sec drv drive d)(l := bs))"
proof -
  have "bytes_of_words (words_of_bytes bs) = bs" using assms(3) by (intro bytes_words_bytes) simp
  then show ?thesis
    using ata_write_prompt [of d drive l 1 "[words_of_bytes bs]"] assms
    by (auto simp: disk_ready_def lba28_def lbas_1 ata_io_def disk_sec_def fun_eq_iff drive_ok_def split: if_splits)
qed

lemma block_laws: "block_dev (ata_io P drive) (disk_sec drv drive) (disk_ready lag drv drive) lba28"
proof (unfold_locales, goal_cases)
  case 1
  show ?case by (simp add: lba28_def)
next
  case (2 d l)
  then show ?case by (simp add: disk_sec_def disk_ready_def drive_ok_def)
next
  case (3 d l r bs d')
  from rd_one [OF 3(1,2)] 3(3) show ?case by (auto split: if_splits)
next
  case (4 d l bs r d')
  from wr_one [OF 4(1-3)] 4(4) show ?case by (auto split: if_splits)
qed

lemma reliable_laws: "reliable_dev (ata_io P drive) (disk_sec drv drive) (disk_good lag drv drive) lba28"
proof (unfold_locales, goal_cases)
  case 1
  show ?case by (simp add: lba28_def)
next
  case (2 d l)
  then show ?case by (simp add: disk_sec_def disk_good_def disk_ready_def drive_ok_def)
next
  case (3 d l r bs d')
  then show ?case using rd_one [of drive d l] by (auto simp: disk_good_def split: if_splits)
next
  case (4 d l bs r d')
  then show ?case using wr_one [of drive d l bs] by (auto simp: disk_good_def split: if_splits)
next
  case (5 d l)
  then show ?case using rd_one [of drive d l] by (auto simp: disk_good_def)
next
  case (6 d l bs)
  then show ?case using wr_one [of drive d l bs] by (auto simp: disk_good_def)
qed

end

sublocale prompt_drive \<subseteq> disk: block_dev "ata_io P drive" "disk_sec drv drive" "disk_ready lag drv drive" lba28 for drive
  by (rule block_laws)

sublocale prompt_drive \<subseteq> good_disk: reliable_dev "ata_io P drive" "disk_sec drv drive" "disk_good lag drv drive" lba28 for drive
  by (rule reliable_laws)

abbreviation disk_vol :: "('d \<Rightarrow> pio) \<Rightarrow> nat \<Rightarrow> 'd bcache \<Rightarrow> u32 \<Rightarrow> u8 list" where
  "disk_vol drv drive c \<equiv> disk_sec drv drive (dev c)"

abbreviation disk_healthy :: "('d \<Rightarrow> nat \<times> nat) \<Rightarrow> ('d \<Rightarrow> pio) \<Rightarrow> nat \<Rightarrow> 'd bcache \<Rightarrow> bool" where
  "disk_healthy lag drv drive \<equiv> coherent (disk_sec drv drive) (disk_good lag drv drive) lba28 {}"

abbreviation disk_coherent :: "('d \<Rightarrow> nat \<times> nat) \<Rightarrow> ('d \<Rightarrow> pio) \<Rightarrow> nat \<Rightarrow> 'd bcache \<Rightarrow> bool" where
  "disk_coherent lag drv drive \<equiv> coherent (disk_sec drv drive) (disk_ready lag drv drive) lba28 {}"

text \<open>The always ready drive of the witnesses.\<close>

abbreviation (input) at_once :: "pio \<Rightarrow> nat \<times> nat" where "at_once \<equiv> \<lambda>_. (0, 0)"

abbreviation (input) as_is :: "pio \<Rightarrow> pio" where "as_is \<equiv> \<lambda>d. d"

section \<open>Properties\<close>

text \<open>C22. Over the ATA driver on any prompt PIO drive, \<open>bc_read\<close> of \<open>count\<close> sectors either fails with -1 or returns
  exactly what is on the disk, never changes the disk, and keeps the cache coherent with it. (Nothing is claimed of
  \<open>bc_write\<close>: see \<open>bc_write_error_lost\<close>.)\<close>

theorem bc_read_coherent:
  assumes "prompt_drive P lag drv" "disk_coherent lag drv drive st" "unat lba + unat count \<le> 2 ^ 28"
    "bc_read (ata_io P drive) lba count st = ((r, bs), st')"
  shows "disk_coherent lag drv drive st' \<and> disk_sec drv drive (dev st') = disk_sec drv drive (dev st) \<and>
    (r = - 1 \<or> r = 0 \<and> bs = concat (map (disk_sec drv drive (dev st)) (lbas lba (unat count))))"
proof -
  have v: "\<forall>i < unat count. lba28 (lba + of_nat i)"
  proof (intro allI impI)
    fix i assume "i < unat count"
    then show "lba28 (lba + of_nat i)"
      using assms(3) by (subst lba28_def, subst unat_less_of_nat_add) simp_all
  qed
  have "bc_boot st = st" using assms(2) by (simp add: bc_boot_def coherent_def)
  then have "bc_read_loop (ata_io P drive) lba (unat count) st = ((r, bs), st')"
    using assms(4) by (simp add: bc_read_def)
  from block_dev.read_loop [OF prompt_drive.block_laws [OF assms(1)] assms(2) v this] show ?thesis by (auto simp: lbas_def o_def split: if_splits)
qed

definition demo_bc :: "pio bcache" where
  "demo_bc = \<lparr>g_cache = replicate 64 \<lparr>blba = no_lba, bdata = replicate 512 0, dirty = False\<rparr>, g_init = True, hand = 0, dev = demo_pio\<rparr>"

lemma demo_bc_coherent: "disk_coherent at_once as_is 1 demo_bc"
  by (simp add: coherent_def demo_bc_def BC_ENTRIES_def disk_ready_def drive_ok_def demo_pio_def)

theorem bc_read_coherent_witness:
  "\<exists>r bs st'. bc_read (ata_io pio_ports 1) 3 2 demo_bc = ((r, bs), st') \<and> disk_coherent at_once as_is 1 st'"
proof -
  obtain r bs st' where r: "bc_read (ata_io pio_ports 1) 3 2 demo_bc = ((r, bs), st')" by (metis surj_pair)
  from bc_read_coherent [OF instant.prompt_drive_axioms demo_bc_coherent _ r] r show ?thesis by auto
qed

text \<open>C23. A user-space driver may rewrite sectors behind the cache: if the cache is coherent except for the sectors
  of a range, invalidating that range makes it fully coherent, without writing to the disk.\<close>

theorem bc_invalidate_restores:
  assumes "prompt_drive P lag drv" "coherent (disk_sec drv drive) (disk_ready lag drv drive) lba28 R st" "R \<subseteq> set (lbas lba (unat count))"
  shows "disk_coherent lag drv drive (bc_invalidate (ata_io P drive) lba count st) \<and>
    dev (bc_invalidate (ata_io P drive) lba count st) = dev st"
  using block_dev.invalidate_range [OF prompt_drive.block_laws [OF assms(1)] assms(2), of lba count] assms(3) by (auto simp: lbas_def lessThan_atLeast0)

definition demo_stale :: "pio bcache" where
  "demo_stale = demo_bc\<lparr>g_cache := (g_cache demo_bc)[0 := \<lparr>blba = 5, bdata = replicate 512 1, dirty = False\<rparr>]\<rparr>"

theorem bc_invalidate_restores_witness:
  "fst (bc_read (ata_io pio_ports 1) 5 1 demo_stale) = (0, replicate 512 1) \<and>
   disk_coherent at_once as_is 1 (bc_invalidate (ata_io pio_ports 1) 5 1 demo_stale)"
proof -
  have "coherent (disk_sec as_is 1) (disk_ready at_once as_is 1) lba28 {5} demo_stale"
    by (auto simp: coherent_def demo_stale_def demo_bc_def BC_ENTRIES_def disk_ready_def drive_ok_def demo_pio_def lba28_def
        nth_list_update dest!: in_set_replicate [THEN iffD1] set_update_subset_insert [THEN subsetD])
  from bc_invalidate_restores [OF instant.prompt_drive_axioms this, of 5 1]
  have "disk_coherent at_once as_is 1 (bc_invalidate (ata_io pio_ports 1) 5 1 demo_stale)" by (simp add: lbas_1)
  moreover have "fst (bc_read (ata_io pio_ports 1) 5 1 demo_stale) = (0, replicate 512 1)"
    by (simp add: bc_read_def bc_boot_def demo_stale_def demo_bc_def numeral_eq_Suc bc_read_one_def bc_lookup_def)
  ultimately show ?thesis by blast
qed

text \<open>\<open>bc_write\<close> loses write errors: for a sector the drive refuses to write it still returns 0, the disk keeps
  its old contents, and the cache from then on serves the data that never reached the disk.\<close>

theorem bc_write_error_lost:
  assumes "prompt_drive P lag drv" "disk_coherent lag drv drive st" "lba28 lba" "bad (drv (dev st)) (odd drive) lba" "length src = 512"
  shows "case bc_write (ata_io P drive) lba 1 src st of (r, st') \<Rightarrow>
     r = 0 \<and> disk_sec drv drive (dev st') = disk_sec drv drive (dev st) \<and>
     fst (bc_read (ata_io P drive) lba 1 st') = (0, src)"
proof -
  let ?io = "ata_io P drive"
  let ?st = "bc_write_one ?io lba src st"
  have g: "disk_ready lag drv drive (dev st)" using assms(2) by (simp add: coherent_def)
  have neg: "fst (wr ?io lba src (dev st)) < 0"
    using prompt_drive.wr_one [OF assms(1) g assms(3,5)] assms(4) by auto
  note bd = prompt_drive.block_laws [OF assms(1), of drive]
  have w: "coherent (disk_sec drv drive) (disk_ready lag drv drive) lba28 {lba} ?st" "disk_sec drv drive (dev ?st) = disk_sec drv drive (dev st)"
    using block_dev.write_one [OF bd assms(2,3,5)] neg by simp_all
  have i: "g_init st" "g_init ?st" using assms(2) w(1) by (simp_all add: coherent_def)
  have hit: "\<exists>k. bc_lookup lba ?st = Some k \<and> bdata (g_cache ?st ! k) = src"
    by (rule block_dev.write_one_hit [OF bd assms(2,3,5)])
  then show ?thesis
    using i w(2) by (auto simp: bc_write_def bc_read_def bc_boot_def numeral_eq_Suc bc_read_one_def assms(5))
qed

theorem bc_write_error_lost_witness:
  "case bc_write (ata_io pio_ports 1) 9 1 (replicate 512 7) (demo_bc\<lparr>dev := demo_pio\<lparr>bad := \<lambda>_ l. l = 9\<rparr>\<rparr>) of (r, st') \<Rightarrow>
     r = 0 \<and> disk_sec as_is 1 (dev st') = disk_sec as_is 1 (demo_pio\<lparr>bad := \<lambda>_ l. l = 9\<rparr>) \<and>
     fst (bc_read (ata_io pio_ports 1) 9 1 st') = (0, replicate 512 7)"
proof -
  let ?st = "demo_bc\<lparr>dev := demo_pio\<lparr>bad := \<lambda>_ l. l = 9\<rparr>\<rparr>"
  have "disk_coherent at_once as_is 1 ?st" by (simp add: coherent_def demo_bc_def BC_ENTRIES_def disk_ready_def drive_ok_def demo_pio_def)
  from bc_write_error_lost [OF instant.prompt_drive_axioms this, of 9 "replicate 512 7"] show ?thesis by (simp add: lba28_def)
qed

end
