(* ===== verification/XE_Gfx.thy ===== *)
theory XE_Gfx
  imports XE_Input "HOL-Library.Signed_Division"
begin

text \<open>
  The screen: \<^verbatim>\<open>src/src/drivers/gfx.cpp\<close>, \<^verbatim>\<open>gfx.h\<close> and the lookup of \<^verbatim>\<open>font_cn_load.cpp\<close>.

  The frame buffer is the function \<open>gx_pix\<close> from byte offsets (relative to \<open>fb_\<close>) to bytes, defined on
  all offsets, so that a store outside the screen is visible in the model. The glyph table and the
  buffer of the Chinese font are the bytes found from their start addresses on. Coordinates are
  \<open>int\<close>, division truncates toward zero as in C, and the sums of \<open>fill_rect\<close> and \<open>draw_line\<close>, which can leave the
  range of a C \<open>int\<close>, wrap around through \<open>i32\<close>. The lemmas show that drawing stays inside the frame
  buffer, that the text cursor stays on the screen, that the rectangle fill agrees with drawing pixel
  by pixel, that line drawing ends, and that the mouse cursor is removed without a trace.
\<close>

unbundle bit_operations_syntax

section \<open>State\<close>

record font_cn =
  fc_loaded :: bool
  fc_buf :: "nat \<Rightarrow> u8"
  fc_count :: int

record gfx =
  gx_fb :: u32
  gx_w :: int
  gx_h :: int
  gx_pitch :: int
  gx_bpp :: int
  gx_cols :: int
  gx_rows :: int
  gx_cx :: int
  gx_cy :: int
  gx_fg :: u8
  gx_bg :: u8
  gx_palette :: "u32 list"
  gx_cur_x :: int
  gx_cur_y :: int
  gx_cur_save :: "u32 list"
  gx_pix :: "int \<Rightarrow> u8"
  gx_font :: "nat \<Rightarrow> u8"
  gx_cn :: font_cn

abbreviation (input) FONT_W :: int where "FONT_W \<equiv> 10"
abbreviation (input) FONT_H :: int where "FONT_H \<equiv> 16"

definition point_in_bounds :: "int \<Rightarrow> int \<Rightarrow> gfx \<Rightarrow> bool" where
  "point_in_bounds x y g = (0 \<le> x \<and> x < gx_w g \<and> 0 \<le> y \<and> y < gx_h g)"

section \<open>Palette and initialisation\<close>

definition std16 :: "u32 list" where
  "std16 = [0x000000, 0x0000AA, 0x00AA00, 0x00AAAA, 0xAA0000, 0xAA00AA, 0xAA5500, 0xAAAAAA,
            0x555555, 0x5555FF, 0x55FF55, 0x55FFFF, 0xFF5555, 0xFF55FF, 0xFFFF55, 0xFFFFFF]"

definition init_palette :: "u32 list" where
  "init_palette = std16 @ map (\<lambda>i. let r = drop_bit 5 (of_nat i) AND 7; g = drop_bit 2 (of_nat i) AND 7; b = of_nat i AND 3
     in push_bit 16 (r * 36) OR push_bit 8 (g * 36) OR (b * 85)) [16..<256]"

definition gfx_init :: "mem \<Rightarrow> gfx \<Rightarrow> gfx" where
  "gfx_init m g =
     (let vbe = (\<lambda>i. ld32 m (0x500 + 4 * i));
          w = sint (vbe 1); h = sint (vbe 2); bpp = sint (vbe 3); p = sint (vbe 4);
          min_pitch = w * (bpp sdiv 8)
      in g\<lparr>gx_fb := vbe 0, gx_w := w, gx_h := h, gx_bpp := bpp,
           gx_pitch := (if p < min_pitch then min_pitch else p),
           gx_cols := w sdiv FONT_W, gx_rows := h sdiv FONT_H, gx_palette := init_palette, gx_cx := 0, gx_cy := 0\<rparr>)"

definition set_fg :: "u8 \<Rightarrow> gfx \<Rightarrow> gfx" where
  "set_fg color g = g\<lparr>gx_fg := color AND 0x0F\<rparr>"

definition set_bg :: "u8 \<Rightarrow> gfx \<Rightarrow> gfx" where
  "set_bg color g = g\<lparr>gx_bg := color AND 0x0F\<rparr>"

section \<open>Pixels and rectangles\<close>

text \<open>A result of type \<open>int\<close>: 32 bits, two's complement. (An overflow is undefined in the language; this is what the
  generated additions do.)\<close>

definition i32 :: "int \<Rightarrow> int" where
  "i32 x = signed_take_bit 31 x"

lemma i32_id: "- (2 ^ 31) \<le> x \<Longrightarrow> x < 2 ^ 31 \<Longrightarrow> i32 x = x"
  unfolding i32_def by (rule signed_take_bit_int_eq_self)

lemma i32_range: "- 2147483648 \<le> x \<Longrightarrow> x < 2147483648 \<Longrightarrow> i32 x = x"
  using i32_id [of x] by simp

lemma i32_over: "2 ^ 31 \<le> x \<Longrightarrow> x < 2 ^ 32 \<Longrightarrow> i32 x = x - 2 ^ 32"
proof -
  assume x: "2 ^ 31 \<le> x" "x < 2 ^ 32"
  have "(x + 2 ^ 31) mod 2 ^ 32 = (x - 2 ^ 31 + 2 ^ 32) mod 2 ^ 32" by (rule arg_cong) simp
  also have "\<dots> = x - 2 ^ 31" unfolding mod_add_self2 using x by (intro mod_pos_pos_trivial) simp_all
  finally show ?thesis by (simp add: i32_def signed_take_bit_eq_take_bit_shift take_bit_eq_mod)
qed

definition put3 :: "int \<Rightarrow> u32 \<Rightarrow> (int \<Rightarrow> u8) \<Rightarrow> (int \<Rightarrow> u8)" where
  "put3 off c p = p(off := ucast c, off + 1 := ucast (drop_bit 8 c), off + 2 := ucast (drop_bit 16 c))"

definition put4 :: "int \<Rightarrow> u32 \<Rightarrow> (int \<Rightarrow> u8) \<Rightarrow> (int \<Rightarrow> u8)" where
  "put4 off c p = p(off := ucast c, off + 1 := ucast (drop_bit 8 c), off + 2 := ucast (drop_bit 16 c),
     off + 3 := ucast (drop_bit 24 c))"

definition set_pixel :: "int \<Rightarrow> int \<Rightarrow> u8 \<Rightarrow> gfx \<Rightarrow> gfx" where
  "set_pixel x y color g =
     (if x < 0 \<or> gx_w g \<le> x \<or> y < 0 \<or> gx_h g \<le> y then g
      else let c = gx_palette g ! unat color in
        if gx_bpp g = 32 then g\<lparr>gx_pix := put4 (4 * (y * (gx_pitch g sdiv 4) + x)) c (gx_pix g)\<rparr>
        else g\<lparr>gx_pix := put3 (y * gx_pitch g + x * (gx_bpp g sdiv 8)) c (gx_pix g)\<rparr>)"

text \<open>\<open>for (i = 0; i < n; i++)\<close> on a bound of type \<open>int\<close>.\<close>

definition for_int :: "int \<Rightarrow> (int \<Rightarrow> 's \<Rightarrow> 's) \<Rightarrow> 's \<Rightarrow> 's" where
  "for_int n f s = fold (\<lambda>i. f (int i)) [0..<nat n] s"

definition fill_rect :: "int \<Rightarrow> int \<Rightarrow> int \<Rightarrow> int \<Rightarrow> u8 \<Rightarrow> gfx \<Rightarrow> gfx" where
  "fill_rect x0 y0 w0 h0 color g =
     (if w0 \<le> 0 \<or> h0 \<le> 0 then g
      else
        let (w1, x) = (if x0 < 0 then (i32 (w0 + x0), 0) else (w0, x0));
            (h1, y) = (if y0 < 0 then (i32 (h0 + y0), 0) else (h0, y0))
        in if gx_w g \<le> x \<or> gx_h g \<le> y then g
           else
             let w = (if i32 (x + w1) > gx_w g then gx_w g - x else w1);
                 h = (if i32 (y + h1) > gx_h g then gx_h g - y else h1)
             in if w \<le> 0 \<or> h \<le> 0 then g
                else
                  let c = gx_palette g ! unat color; bytes = gx_bpp g sdiv 8
                  in if bytes = 4
                     then for_int h (\<lambda>dy. for_int w (\<lambda>dx g.
                            g\<lparr>gx_pix := put4 ((y + dy) * gx_pitch g + 4 * (x + dx)) c (gx_pix g)\<rparr>)) g
                     else for_int h (\<lambda>dy. for_int w (\<lambda>dx g.
                            g\<lparr>gx_pix := put3 ((y + dy) * gx_pitch g + x * bytes + dx * 3) c (gx_pix g)\<rparr>)) g)"

definition gfx_clear :: "u8 \<Rightarrow> gfx \<Rightarrow> gfx" where
  "gfx_clear color g = (fill_rect 0 0 (gx_w g) (gx_h g) color g)\<lparr>gx_cx := 0, gx_cy := 0\<rparr>"

section \<open>Text\<close>

text \<open>Bit \<open>col\<close> of a glyph row, counted from the left; a column past the eighth is never set.\<close>

definition row_bit :: "u8 \<Rightarrow> int \<Rightarrow> bool" where
  "row_bit bits col = (bits AND drop_bit (nat col) 0x80 \<noteq> 0)"

definition printable :: "u8 \<Rightarrow> u8" where
  "printable c = (if c < 32 \<or> 126 < c then 0x3F else c)"

definition draw_char :: "int \<Rightarrow> int \<Rightarrow> u8 \<Rightarrow> u8 \<Rightarrow> u8 \<Rightarrow> gfx \<Rightarrow> gfx" where
  "draw_char sx sy c fg bg g =
     (let idx = (unat (printable c) - 32) * 16 in
      for_int FONT_H (\<lambda>row g.
        let bits = gx_font g (idx + nat row) in
        for_int FONT_W (\<lambda>col. set_pixel (sx + col) (sy + row) (if row_bit bits col then fg else bg)) g) g)"

definition scroll :: "gfx \<Rightarrow> gfx" where
  "scroll g =
     (let bytes = gx_pitch g * FONT_H;
          g1 = fold (\<lambda>row. for_int bytes (\<lambda>i g.
                 g\<lparr>gx_pix := (gx_pix g)((int row - 1) * bytes + i := gx_pix g (int row * bytes + i))\<rparr>))
               [1..<nat (gx_rows g)] g
      in (fill_rect 0 ((gx_rows g - 1) * FONT_H) (gx_w g) FONT_H (gx_bg g) g1)\<lparr>gx_cy := gx_rows g - 1, gx_cx := 0\<rparr>)"

definition newline :: "gfx \<Rightarrow> gfx" where
  "newline g = g\<lparr>gx_cx := 0, gx_cy := gx_cy g + 1\<rparr>"

text \<open>The end of \<open>putc\<close>: wrap at the right edge, scroll at the bottom.\<close>

definition wrap :: "gfx \<Rightarrow> gfx" where
  "wrap g = (let g1 = (if gx_cols g \<le> gx_cx g then newline g else g) in if gx_rows g1 \<le> gx_cy g1 then scroll g1 else g1)"

definition gfx_putc :: "u8 \<Rightarrow> gfx \<Rightarrow> gfx" where
  "gfx_putc c g =
     wrap (if c = 10 then newline g
           else if c = 13 then g\<lparr>gx_cx := 0\<rparr>
           else if c = 8 then
             (if gx_cx g > 0
              then let g1 = g\<lparr>gx_cx := gx_cx g - 1\<rparr>
                   in fill_rect (gx_cx g1 * FONT_W) (gx_cy g1 * FONT_H) FONT_W FONT_H (gx_bg g1) g1
              else g)
           else if c = 9 then
             let g1 = g\<lparr>gx_cx := (gx_cx g + 4) AND NOT 3\<rparr>
             in if gx_cols g1 \<le> gx_cx g1 then newline g1 else g1
           else if c \<ge> 0x20 then
             let g1 = draw_char (gx_cx g * FONT_W) (gx_cy g * FONT_H) c (gx_fg g) (gx_bg g) g
             in g1\<lparr>gx_cx := gx_cx g1 + 1\<rparr>
           else g)"

definition cursor_draw :: "gfx \<Rightarrow> gfx" where
  "cursor_draw g = fill_rect (gx_cx g * FONT_W) (gx_cy g * FONT_H + FONT_H - 2) FONT_W 2 (gx_fg g) g"

definition cursor_erase :: "gfx \<Rightarrow> gfx" where
  "cursor_erase g = draw_char (gx_cx g * FONT_W) (gx_cy g * FONT_H) 0x20 (gx_fg g) (gx_bg g) g"

definition gfx_puts :: "cstr \<Rightarrow> gfx \<Rightarrow> gfx" where
  "gfx_puts s g = fold gfx_putc s g"

definition gfx_put_hex_byte :: "u8 \<Rightarrow> gfx \<Rightarrow> gfx" where
  "gfx_put_hex_byte b g = gfx_putc (hex_digit (b AND 15)) (gfx_putc (hex_digit (drop_bit 4 b)) g)"

definition gfx_put_hex_u32 :: "u32 \<Rightarrow> gfx \<Rightarrow> gfx" where
  "gfx_put_hex_u32 v g = gfx_put_hex_byte (ucast v) (gfx_put_hex_byte (ucast (drop_bit 8 v))
     (gfx_put_hex_byte (ucast (drop_bit 16 v)) (gfx_put_hex_byte (ucast (drop_bit 24 v)) g)))"

section \<open>Lines\<close>

text \<open>The loop of \<open>draw_line\<close>; the result is \<open>None\<close> if it never reaches the end point.\<close>

partial_function (option) line_loop :: "int \<Rightarrow> int \<Rightarrow> int \<Rightarrow> int \<Rightarrow> int \<Rightarrow> int \<Rightarrow> u8 \<Rightarrow> int \<Rightarrow> int \<Rightarrow> int \<Rightarrow> gfx \<Rightarrow> gfx option" where
  "line_loop dx dy sx sy x2 y2 color x1 y1 err g =
     (let g1 = set_pixel x1 y1 color g in
      if x1 = x2 \<and> y1 = y2 then Some g1
      else
        let e2 = i32 (err * 2);
            (err1, x1') = (if e2 > i32 (- dy) then (i32 (err - dy), i32 (x1 + sx)) else (err, x1));
            (err2, y1') = (if e2 < dx then (i32 (err1 + dx), i32 (y1 + sy)) else (err1, y1))
        in line_loop dx dy sx sy x2 y2 color x1' y1' err2 g1)"

definition draw_line :: "int \<Rightarrow> int \<Rightarrow> int \<Rightarrow> int \<Rightarrow> u8 \<Rightarrow> gfx \<Rightarrow> gfx option" where
  "draw_line x1 y1 x2 y2 color g =
     (let dx = (let d = i32 (x2 - x1) in if d < 0 then i32 (- d) else d);
          dy = (let d = i32 (y2 - y1) in if d < 0 then i32 (- d) else d);
          sx = (if x1 < x2 then 1 else - 1);
          sy = (if y1 < y2 then 1 else - 1)
      in line_loop dx dy sx sy x2 y2 color x1 y1 (i32 (dx - dy)) g)"

definition draw_rect :: "int \<Rightarrow> int \<Rightarrow> int \<Rightarrow> int \<Rightarrow> u8 \<Rightarrow> gfx \<Rightarrow> gfx option" where
  "draw_rect x y w h color g0 =
     (let r = i32 (i32 (x + w) - 1); b = i32 (i32 (y + h) - 1) in
      Option.bind (draw_line x y r y color g0) (\<lambda>g1.
      Option.bind (draw_line r y r b color g1) (\<lambda>g2.
      Option.bind (draw_line r b x b color g2) (\<lambda>g3.
      draw_line x b x y color g3))))"

section \<open>Text at a position, Chinese glyphs\<close>

text \<open>The binary search of \<open>font_cn_lookup_impl\<close>: the offset of the glyph's bitmap. A glyph entry is 34
  bytes: code point, then 32 bytes of bitmap.\<close>

definition glyph_cp :: "font_cn \<Rightarrow> int \<Rightarrow> u16" where
  "glyph_cp fc i = word_cat (fc_buf fc (nat (2 + i * 34) + 1)) (fc_buf fc (nat (2 + i * 34)))"

text \<open>The loop runs with \<open>lo\<close> and \<open>hi + 1\<close> non-negative only; truncation toward zero still ends it.\<close>

lemma sdiv_2_bounds: "lo \<le> hi \<Longrightarrow> lo \<le> (lo + hi) sdiv 2 \<and> (lo + hi) sdiv 2 \<le> hi" for lo hi :: int
  by (auto simp: signed_divide_int_def sgn_if)

function font_search :: "font_cn \<Rightarrow> u16 \<Rightarrow> int \<Rightarrow> int \<Rightarrow> int option" where
  "font_search fc cp lo hi =
     (if lo \<le> hi then
        let mid = (lo + hi) sdiv 2 in
        if glyph_cp fc mid = cp then Some (2 + mid * 34 + 2)
        else if glyph_cp fc mid < cp then font_search fc cp (mid + 1) hi
        else font_search fc cp lo (mid - 1)
      else None)"
  by pat_completeness auto
termination
  by (relation "measure (\<lambda>(fc, cp, lo, hi). nat (hi - lo + 1))") (auto dest: sdiv_2_bounds)

declare font_search.simps [simp del]

definition font_cn_lookup_impl :: "u16 \<Rightarrow> font_cn \<Rightarrow> int option" where
  "font_cn_lookup_impl cp fc = (if \<not> fc_loaded fc then None else font_search fc cp 0 (fc_count fc - 1))"

text \<open>The two bytes of row \<open>row\<close> of a 16x16 glyph; a missing glyph is drawn as a box.\<close>

definition cn_row :: "font_cn \<Rightarrow> int option \<Rightarrow> int \<Rightarrow> u8 \<times> u8" where
  "cn_row fc glyph row =
     (case glyph of Some p \<Rightarrow> (fc_buf fc (nat (p + row * 2)), fc_buf fc (nat (p + row * 2 + 1)))
      | None \<Rightarrow> let b = (if row = 0 \<or> row = 15 then 0xFF else 0x81) in (b, b))"

definition cn_bit :: "u8 \<times> u8 \<Rightarrow> int \<Rightarrow> bool" where
  "cn_bit b col = ((if col < 8 then drop_bit (nat (7 - col)) (fst b) else drop_bit (nat (15 - col)) (snd b)) AND 1 \<noteq> 0)"

definition draw_cn_char :: "int \<Rightarrow> int \<Rightarrow> u16 \<Rightarrow> u8 \<Rightarrow> u8 \<Rightarrow> gfx \<Rightarrow> gfx" where
  "draw_cn_char sx sy cp fg bg g =
     (let glyph = font_cn_lookup_impl cp (gx_cn g) in
      for_int 16 (\<lambda>row g. let b = cn_row (gx_cn g) glyph row in
        for_int 16 (\<lambda>col. set_pixel (sx + col) (sy + row) (if cn_bit b col then fg else bg)) g) g)"

text \<open>Only the set bits are drawn: \<open>puts_at\<close> and \<open>puts_at_utf8\<close> leave the background.\<close>

definition stamp_char :: "int \<Rightarrow> int \<Rightarrow> u8 \<Rightarrow> u8 \<Rightarrow> gfx \<Rightarrow> gfx" where
  "stamp_char x y c color g =
     (let idx = (unat c - 32) * 16 in
      for_int FONT_H (\<lambda>row g.
        let bits = gx_font g (idx + nat row) in
        for_int FONT_W (\<lambda>col g. if row_bit bits col then set_pixel (x + col) (y + row) color g else g) g) g)"

definition stamp_cn :: "int \<Rightarrow> int \<Rightarrow> u16 \<Rightarrow> u8 \<Rightarrow> gfx \<Rightarrow> gfx" where
  "stamp_cn x y cp color g =
     (let glyph = font_cn_lookup_impl cp (gx_cn g) in
      for_int 16 (\<lambda>row g. let b = cn_row (gx_cn g) glyph row in
        for_int 16 (\<lambda>col g. if cn_bit b col then set_pixel (x + col) (y + row) color g else g) g) g)"

fun puts_at_loop :: "int \<Rightarrow> u8 \<Rightarrow> int \<Rightarrow> int \<Rightarrow> cstr \<Rightarrow> gfx \<Rightarrow> gfx" where
  "puts_at_loop sx color x y [] g = g"
| "puts_at_loop sx color x y (c # s) g =
     (if c = 10 then puts_at_loop sx color sx (y + FONT_H) s g
      else puts_at_loop sx color (x + FONT_W) y s (stamp_char x y (printable c) color g))"

definition puts_at :: "int \<Rightarrow> int \<Rightarrow> cstr \<Rightarrow> u8 \<Rightarrow> gfx \<Rightarrow> gfx" where
  "puts_at x y s color g =
     (puts_at_loop x color x y s (g\<lparr>gx_fg := color\<rparr>))\<lparr>gx_fg := gx_fg g, gx_cx := gx_cx g, gx_cy := gx_cy g\<rparr>"

definition utf8_decode :: "cstr \<Rightarrow> nat \<times> u16" where
  "utf8_decode s =
     (let c = chr_at s 0; c1 = chr_at s 1; c2 = chr_at s 2 in
      if c < 0x80 then (1, ucast c)
      else if c AND 0xE0 = 0xC0 \<and> c1 \<noteq> 0 then (2, push_bit 6 (ucast (c AND 0x1F)) OR ucast (c1 AND 0x3F))
      else if c AND 0xF0 = 0xE0 \<and> c1 \<noteq> 0 \<and> c2 \<noteq> 0
      then (3, push_bit 12 (ucast (c AND 0x0F)) OR push_bit 6 (ucast (c1 AND 0x3F)) OR ucast (c2 AND 0x3F))
      else (1, ucast c))"

lemma utf8_decode_pos [simp]: "0 < fst (utf8_decode s)"
  by (simp add: utf8_decode_def Let_def)

function puts_at_utf8_loop :: "int \<Rightarrow> u8 \<Rightarrow> int \<Rightarrow> int \<Rightarrow> cstr \<Rightarrow> gfx \<Rightarrow> gfx" where
  "puts_at_utf8_loop sx color x y s g =
     (if s = [] then g
      else let n = fst (utf8_decode s); cp = snd (utf8_decode s); s' = drop n s in
        if n = 1 \<and> cp < 0x80 then
          (if cp = 10 then puts_at_utf8_loop sx color sx (y + FONT_H) s' g
           else if cp \<ge> 32 then puts_at_utf8_loop sx color (x + FONT_W) y s' (stamp_char x y (ucast cp) color g)
           else puts_at_utf8_loop sx color x y s' g)
        else puts_at_utf8_loop sx color (x + 16) y s' (stamp_cn x y cp color g))"
  by pat_completeness auto
termination by (relation "measure (\<lambda>(sx, color, x, y, s, g). length s)") auto

definition puts_at_utf8 :: "int \<Rightarrow> int \<Rightarrow> cstr \<Rightarrow> u8 \<Rightarrow> gfx \<Rightarrow> gfx" where
  "puts_at_utf8 x y s color g =
     (puts_at_utf8_loop x color x y s (g\<lparr>gx_fg := color\<rparr>))\<lparr>gx_fg := gx_fg g, gx_cx := gx_cx g, gx_cy := gx_cy g\<rparr>"

definition put_cn :: "u16 \<Rightarrow> gfx \<Rightarrow> gfx" where
  "put_cn cp g =
     (let g1 = (if gx_cols g - 1 \<le> gx_cx g then newline g else g);
          g2 = (if gx_rows g1 \<le> gx_cy g1 then scroll g1 else g1);
          g3 = draw_cn_char (gx_cx g2 * FONT_W) (gx_cy g2 * FONT_H) cp (gx_fg g2) (gx_bg g2) g2
      in wrap (g3\<lparr>gx_cx := gx_cx g3 + 2\<rparr>))"

function puts_utf8 :: "cstr \<Rightarrow> gfx \<Rightarrow> gfx" where
  "puts_utf8 s g =
     (if s = [] then g
      else let n = fst (utf8_decode s); cp = snd (utf8_decode s) in
        puts_utf8 (drop n s) (if n = 1 \<and> cp < 0x80 then gfx_putc (ucast cp) g else put_cn cp g))"
  by pat_completeness auto
termination by (relation "measure (\<lambda>(s, g). length s)") auto

declare puts_at_utf8_loop.simps [simp del] puts_utf8.simps [simp del]

section \<open>Mouse cursor\<close>

definition get4 :: "int \<Rightarrow> (int \<Rightarrow> u8) \<Rightarrow> u32" where
  "get4 off p = word_cat (word_cat (p (off + 3)) (p (off + 2)) :: u16) (word_cat (p (off + 1)) (p off) :: u16)"

definition px_get :: "int \<Rightarrow> gfx \<Rightarrow> u32" where
  "px_get off g =
     (if gx_bpp g = 32 then get4 off (gx_pix g)
      else let c = ucast (gx_pix g off) OR push_bit 8 (ucast (gx_pix g (off + 1)))
           in if gx_bpp g \<ge> 24 then c OR push_bit 16 (ucast (gx_pix g (off + 2))) else c)"

definition px_set :: "int \<Rightarrow> u32 \<Rightarrow> gfx \<Rightarrow> gfx" where
  "px_set off c g =
     (if gx_bpp g = 32 then g\<lparr>gx_pix := put4 off c (gx_pix g)\<rparr>
      else let p = (gx_pix g)(off := ucast c, off + 1 := ucast (drop_bit 8 c))
           in g\<lparr>gx_pix := (if gx_bpp g \<ge> 24 then p(off + 2 := ucast (drop_bit 16 c)) else p)\<rparr>)"

definition px_off :: "int \<Rightarrow> int \<Rightarrow> gfx \<Rightarrow> int" where
  "px_off fx fy g = fy * gx_pitch g + fx * (gx_bpp g sdiv 8)"

definition mcursor_restore :: "gfx \<Rightarrow> gfx" where
  "mcursor_restore g =
     for_int 8 (\<lambda>y g.
       let fy = gx_cur_y g + y in
       if fy < 0 \<or> gx_h g \<le> fy then g
       else for_int 8 (\<lambda>x g.
         let fx = gx_cur_x g + x in
         if fx < 0 \<or> gx_w g \<le> fx then g
         else px_set (px_off fx fy g) (gx_cur_save g ! nat (y * 8 + x)) g) g) g"

text \<open>The new cursor position for the mouse at \<open>(m, n)\<close>.\<close>

definition cursor_at :: "int \<Rightarrow> int \<Rightarrow> gfx \<Rightarrow> gfx" where
  "cursor_at m n g =
     (let x0 = (if m - 4 < 0 then 0 else m - 4);
          y0 = (if n - 4 < 0 then 0 else n - 4)
      in g\<lparr>gx_cur_x := (if x0 + 8 > gx_w g then gx_w g - 8 else x0),
           gx_cur_y := (if y0 + 8 > gx_h g then gx_h g - 8 else y0)\<rparr>)"

definition mcursor_draw :: "mouse \<Rightarrow> gfx \<Rightarrow> gfx" where
  "mcursor_draw ms g =
     (if gx_w g \<le> 0 \<or> gx_h g \<le> 0 then g
      else for_int 8 (\<lambda>y. for_int 8 (\<lambda>x g.
             let off = px_off (gx_cur_x g + x) (gx_cur_y g + y) g
             in px_set off 0x00FF0000 (g\<lparr>gx_cur_save := (gx_cur_save g)[nat (y * 8 + x) := px_get off g]\<rparr>)))
           (cursor_at (mx ms) (my ms) g))"

definition hollow :: "int \<Rightarrow> int \<Rightarrow> bool" where
  "hollow x y = (0 < x \<and> x < 7 \<and> 0 < y \<and> y < 7)"

definition xor_px :: "int \<Rightarrow> int \<Rightarrow> gfx \<Rightarrow> gfx" where
  "xor_px fx fy g = (let off = px_off fx fy g in px_set off (px_get off g XOR 0x00FFFFFF) g)"

text \<open>The two passes of \<open>mcursor_update\<close>; only the first one clips.\<close>

definition xor_out :: "int \<Rightarrow> int \<Rightarrow> gfx \<Rightarrow> gfx" where
  "xor_out ox oy g =
     (if 0 \<le> ox \<and> 0 \<le> oy
      then for_int 8 (\<lambda>y g. if oy + y < 0 \<or> gx_h g \<le> oy + y then g
             else for_int 8 (\<lambda>x g. if hollow x y then g
               else if ox + x < 0 \<or> gx_w g \<le> ox + x then g
               else xor_px (ox + x) (oy + y) g) g) g
      else g)"

definition xor_in :: "int \<Rightarrow> int \<Rightarrow> gfx \<Rightarrow> gfx" where
  "xor_in cx cy g = for_int 8 (\<lambda>y. for_int 8 (\<lambda>x g. if hollow x y then g else xor_px (cx + x) (cy + y) g)) g"

definition mcursor_update :: "mouse \<Rightarrow> gfx \<Rightarrow> gfx" where
  "mcursor_update ms g =
     (if gx_w g \<le> 0 \<or> gx_h g \<le> 0 then g
      else let g1 = cursor_at (mx ms) (my ms) (xor_out (gx_cur_x g) (gx_cur_y g) g)
           in xor_in (gx_cur_x g1) (gx_cur_y g1) g1)"

section \<open>Loops\<close>

lemma for_int_inv:
  assumes "P s" "\<And>i s. 0 \<le> i \<Longrightarrow> i < n \<Longrightarrow> P s \<Longrightarrow> P (f i s)"
  shows "P (for_int n f s)"
proof -
  have "P (fold (\<lambda>i. f (int i)) xs s)" if "\<forall>i \<in> set xs. int i < n" for xs
    using that assms(1)
  proof (induction xs arbitrary: s)
    case (Cons i xs)
    then show ?case using assms(2) [of "int i" s] by simp
  qed simp
  moreover have "\<forall>i \<in> set [0..<nat n]. int i < n" by auto
  ultimately show ?thesis unfolding for_int_def by blast
qed

lemma for_int_cong:
  assumes "\<And>i s. 0 \<le> i \<Longrightarrow> i < n \<Longrightarrow> P s \<Longrightarrow> f i s = g i s \<and> P (g i s)" "P s"
  shows "for_int n f s = for_int n g s"
proof -
  have "fold (\<lambda>i. f (int i)) xs s = fold (\<lambda>i. g (int i)) xs s" if "\<forall>i \<in> set xs. int i < n" for xs
    using that assms(2)
  proof (induction xs arbitrary: s)
    case (Cons i xs)
    then show ?case using assms(1) [of "int i" s] by simp
  qed simp
  moreover have "\<forall>i \<in> set [0..<nat n]. int i < n" by auto
  ultimately show ?thesis unfolding for_int_def by blast
qed

lemma for_int_upto: "for_int n (\<lambda>i. f (a + i)) s = fold f [a..a + n - 1] s"
proof -
  have "[a..a + n - 1] = map (\<lambda>i. a + int i) [0..<nat n]"
  proof (cases "0 < n")
    case True
    show ?thesis
      by (rule nth_equalityI) (use True in \<open>auto simp: nth_upto\<close>)
  qed simp
  then show ?thesis by (simp add: for_int_def fold_map o_def)
qed

text \<open>Steps that do nothing outside \<open>[0, m)\<close> can be skipped.\<close>

lemma fold_clip:
  assumes "\<And>i s. i < 0 \<or> m \<le> i \<Longrightarrow> P s \<Longrightarrow> f i s = s" "\<And>i s. P s \<Longrightarrow> P (f i s)" "P s"
  shows "fold f [a..b] s = fold f [max 0 a..min (m - 1) b] s"
proof -
  have flt: "fold f xs s = fold f (filter (\<lambda>i. 0 \<le> i \<and> i < m) xs) s" for xs
    using assms(3)
  proof (induction xs arbitrary: s)
    case (Cons i xs)
    then show ?case using assms(1) [of i s] assms(2) [of s i] by (cases "0 \<le> i \<and> i < m") auto
  qed simp
  have "filter (\<lambda>i. 0 \<le> i \<and> i < m) [a..b] = [max 0 a..min (m - 1) b]"
    by (rule sorted_distinct_set_unique) (auto intro: sorted_wrt_filter)
  then show ?thesis using flt [of "[a..b]"] by simp
qed

section \<open>The frame buffer is never left\<close>

definition geo :: "gfx \<Rightarrow> int \<times> int \<times> int \<times> int \<times> int \<times> int \<times> u32 list" where
  "geo g = (gx_w g, gx_h g, gx_pitch g, gx_bpp g, gx_cols g, gx_rows g, gx_palette g)"

text \<open>A usable mode: 24 or 32 bits per pixel, lines long enough.\<close>

definition gfx_wf :: "gfx \<Rightarrow> bool" where
  "gfx_wf g = (0 < gx_w g \<and> 0 < gx_h g \<and> (gx_bpp g = 24 \<or> gx_bpp g = 32 \<and> 4 dvd gx_pitch g) \<and>
     gx_w g * (gx_bpp g div 8) \<le> gx_pitch g \<and> gx_cols g = gx_w g div 10 \<and> gx_rows g = gx_h g div 16 \<and>
     gx_h g * gx_pitch g < 2 ^ 31)"

lemma wf_size:
  assumes "gfx_wf g"
  shows "gx_w g < 2 ^ 30" "gx_h g < 2 ^ 30"
proof -
  have w: "0 < gx_w g" "0 < gx_h g" "gx_h g * gx_pitch g < 2147483648" using assms by (simp_all add: gfx_wf_def)
  have p: "gx_w g * 3 \<le> gx_pitch g" using assms by (auto simp: gfx_wf_def)
  then have p3: "3 \<le> gx_pitch g" using w(1) by linarith
  have "1 * gx_pitch g \<le> gx_h g * gx_pitch g" using w(2) p3 by (intro mult_right_mono) auto
  then have "gx_w g < 1073741824" using p w by linarith
  then show "gx_w g < 2 ^ 30" by simp
  have "gx_h g * 3 \<le> gx_h g * gx_pitch g" using w(2) p3 by (intro mult_left_mono) auto
  then have "gx_h g < 1073741824" using w by linarith
  then show "gx_h g < 2 ^ 30" by simp
qed

definition stays :: "gfx \<Rightarrow> gfx \<Rightarrow> bool" where
  "stays g g' = (geo g' = geo g \<and> (\<forall>off. off < 0 \<or> gx_h g * gx_pitch g \<le> off \<longrightarrow> gx_pix g' off = gx_pix g off))"

lemma stays_refl [simp]: "stays g g"
  by (simp add: stays_def)

lemma stays_trans: "stays g g1 \<Longrightarrow> stays g1 g2 \<Longrightarrow> stays g g2"
  by (simp add: stays_def geo_def)

lemma stays_wf: "stays g g' \<Longrightarrow> gfx_wf g' = gfx_wf g"
  by (simp add: stays_def gfx_wf_def geo_def)

lemma stays_fields [simp]:
  "stays g (g'\<lparr>gx_cx := a\<rparr>) = stays g g'" "stays g (g'\<lparr>gx_cy := a\<rparr>) = stays g g'"
  "stays g (g'\<lparr>gx_fg := c\<rparr>) = stays g g'" "stays g (g'\<lparr>gx_bg := c\<rparr>) = stays g g'"
  "stays g (g'\<lparr>gx_cur_x := a\<rparr>) = stays g g'" "stays g (g'\<lparr>gx_cur_y := a\<rparr>) = stays g g'"
  "stays g (g'\<lparr>gx_cur_save := l\<rparr>) = stays g g'"
  by (simp_all add: stays_def geo_def)

lemma stays_fields_left [simp]:
  "stays (g\<lparr>gx_cx := a\<rparr>) g' = stays g g'" "stays (g\<lparr>gx_cy := a\<rparr>) g' = stays g g'" "stays (g\<lparr>gx_fg := c\<rparr>) g' = stays g g'"
  by (simp_all add: stays_def geo_def)

text \<open>The bytes of a pixel on the screen.\<close>

lemma line_bound:
  fixes y h p :: int
  assumes "0 \<le> y" "y < h" "0 \<le> k" "k < p"
  shows "0 \<le> y * p + k" "y * p + k < h * p"
proof -
  show "0 \<le> y * p + k" using assms by simp
  have "(y + 1) * p \<le> h * p" using assms by (intro mult_right_mono) auto
  then show "y * p + k < h * p" using assms by (simp add: distrib_right)
qed

lemma sdiv_pos: "0 \<le> a \<Longrightarrow> 0 < b \<Longrightarrow> a sdiv b = a div b" for a b :: int
  by (cases "a = 0") (simp_all add: signed_divide_int_def sgn_if)

lemma wf_bytes:
  assumes "gfx_wf g" "0 \<le> x" "x < gx_w g"
  shows "gx_bpp g = 32 \<Longrightarrow> 4 * x + 3 < gx_pitch g" "gx_bpp g = 24 \<Longrightarrow> 3 * x + 2 < gx_pitch g"
    "gx_bpp g = 32 \<Longrightarrow> 4 * (gx_pitch g sdiv 4) = gx_pitch g" "0 < gx_pitch g"
proof -
  note w = assms(1) [unfolded gfx_wf_def]
  show p: "0 < gx_pitch g"
    using w by auto
  show "gx_bpp g = 32 \<Longrightarrow> 4 * x + 3 < gx_pitch g" "gx_bpp g = 24 \<Longrightarrow> 3 * x + 2 < gx_pitch g"
    using w assms(2,3) by auto
  show "gx_bpp g = 32 \<Longrightarrow> 4 * (gx_pitch g sdiv 4) = gx_pitch g"
    using w p by (auto simp: sdiv_pos)
qed

text \<open>The offset of a pixel, and the store of a colour there.\<close>

definition poff :: "gfx \<Rightarrow> int \<Rightarrow> int \<Rightarrow> int" where
  "poff g x y = y * gx_pitch g + x * (gx_bpp g div 8)"

definition putpx :: "gfx \<Rightarrow> int \<Rightarrow> u32 \<Rightarrow> (int \<Rightarrow> u8) \<Rightarrow> (int \<Rightarrow> u8)" where
  "putpx g off c p = (if gx_bpp g = 32 then put4 off c p else put3 off c p)"

lemma poff_bound:
  assumes "gfx_wf g" "0 \<le> x" "x < gx_w g" "0 \<le> y" "y < gx_h g"
  shows "0 \<le> poff g x y" "gx_bpp g = 32 \<Longrightarrow> poff g x y + 3 < gx_h g * gx_pitch g" "poff g x y + 2 < gx_h g * gx_pitch g"
proof -
  note b = wf_bytes [OF assms(1-3)]
  have "gx_bpp g = 24 \<or> gx_bpp g = 32" using assms(1) by (auto simp: gfx_wf_def)
  moreover have "gx_bpp g = 32 \<Longrightarrow> y * gx_pitch g + (4 * x + 3) < gx_h g * gx_pitch g"
    "gx_bpp g = 24 \<Longrightarrow> y * gx_pitch g + (3 * x + 2) < gx_h g * gx_pitch g" "0 \<le> y * gx_pitch g"
    using b assms by (auto intro!: line_bound(2))
  ultimately show "0 \<le> poff g x y" "gx_bpp g = 32 \<Longrightarrow> poff g x y + 3 < gx_h g * gx_pitch g" "poff g x y + 2 < gx_h g * gx_pitch g"
    using assms(2) by (auto simp: poff_def)
qed

lemma stays_put:
  assumes "stays g g'" "gfx_wf g" "0 \<le> x" "x < gx_w g" "0 \<le> y" "y < gx_h g"
  shows "stays g (g'\<lparr>gx_pix := putpx g (poff g x y) c (gx_pix g')\<rparr>)"
  using assms(1) poff_bound [OF assms(2-)]
  by (auto simp: stays_def geo_def putpx_def put3_def put4_def)

lemma set_pixel_eq:
  assumes "gfx_wf g"
  shows "set_pixel x y color g = (if point_in_bounds x y g
    then g\<lparr>gx_pix := putpx g (poff g x y) (gx_palette g ! unat color) (gx_pix g)\<rparr> else g)"
proof (cases "point_in_bounds x y g")
  case True
  then have b: "0 \<le> x" "x < gx_w g" by (auto simp: point_in_bounds_def)
  have e: "4 * (y * (gx_pitch g sdiv 4) + x) = y * gx_pitch g + x * 4" if "gx_bpp g = 32"
  proof -
    have "4 * (y * (gx_pitch g sdiv 4) + x) = y * (4 * (gx_pitch g sdiv 4)) + x * 4" by simp
    then show ?thesis unfolding wf_bytes(3) [OF assms b that] .
  qed
  have "gx_bpp g = 24 \<or> gx_bpp g = 32" using assms by (auto simp: gfx_wf_def)
  then show ?thesis
  proof
    assume "gx_bpp g = 24"
    then show ?thesis using True by (simp add: set_pixel_def point_in_bounds_def poff_def putpx_def sdiv_pos Let_def)
  next
    assume b32: "gx_bpp g = 32"
    then show ?thesis using True unfolding set_pixel_def Let_def e [OF b32]
      by (simp add: point_in_bounds_def poff_def putpx_def)
  qed
next
  case False
  then show ?thesis by (auto simp: set_pixel_def point_in_bounds_def)
qed

lemma stays_set_pixel:
  assumes "stays g g'" "gfx_wf g"
  shows "stays g (set_pixel x y color g')"
proof -
  have e: "putpx g' = putpx g" "poff g' = poff g" "point_in_bounds x y g' = point_in_bounds x y g"
    using assms(1) by (auto simp: stays_def geo_def putpx_def poff_def point_in_bounds_def fun_eq_iff)
  show ?thesis
    using stays_put [OF assms, of x y] assms stays_wf [OF assms(1)]
    by (simp add: set_pixel_eq e) (simp add: point_in_bounds_def)
qed

text \<open>The rectangle fill draws the points of the clipped rectangle.\<close>

definition fill_ref :: "int \<Rightarrow> int \<Rightarrow> int \<Rightarrow> int \<Rightarrow> u8 \<Rightarrow> gfx \<Rightarrow> gfx" where
  "fill_ref x y w h color g = for_int h (\<lambda>dy. for_int w (\<lambda>dx. set_pixel (x + dx) (y + dy) color)) g"

lemma set_pixel_geo [simp]: "geo (set_pixel x y color g) = geo g"
  by (simp add: set_pixel_def geo_def Let_def)

lemma wf_geo: "geo g = geo g' \<Longrightarrow> gfx_wf g = gfx_wf g'"
  by (simp add: gfx_wf_def geo_def)

lemma set_pixel_row_geo [simp]: "geo (fold (\<lambda>x. set_pixel x y color) xs g) = geo g"
  by (induction xs arbitrary: g) simp_all

lemma fill_ref_clip:
  assumes "gfx_wf g"
  shows "fill_ref x y w h color g =
    fill_ref (max 0 x) (max 0 y) (min (gx_w g) (x + w) - max 0 x) (min (gx_h g) (y + h) - max 0 y) color g"
proof -
  let ?row = "\<lambda>y. fold (\<lambda>x. set_pixel x y color)"
  have row: "for_int w (\<lambda>dx. set_pixel (x + dx) y' color) g' = ?row y' [x..x + w - 1] g'" for x y' w g'
    using for_int_upto [of w "\<lambda>x. set_pixel x y' color" x g'] .
  have all: "fill_ref x y w h color g' = fold (\<lambda>y'. ?row y' [x..x + w - 1]) [y..y + h - 1] g'" for x y w h g'
    unfolding fill_ref_def row using for_int_upto [of h "\<lambda>y'. ?row y' [x..x + w - 1]" y g'] .
  have clipx: "?row y' [x..x + w - 1] g' = ?row y' [max 0 x..min (gx_w g - 1) (x + w - 1)] g'" if "geo g' = geo g" for y' g'
  proof (rule fold_clip [where P = "\<lambda>h. geo h = geo g"])
    show "set_pixel i y' color s = s" if "i < 0 \<or> gx_w g \<le> i" "geo s = geo g" for i s
      using that by (auto simp: set_pixel_def geo_def)
  qed (use that in auto)
  let ?r = "\<lambda>y'. ?row y' [max 0 x..min (gx_w g - 1) (x + w - 1)]"
  have "fold (\<lambda>y'. ?row y' [x..x + w - 1]) ys g' = fold ?r ys g'" if "geo g' = geo g" for ys g'
    using that
  proof (induction ys arbitrary: g')
    case (Cons y' ys)
    then show ?case using clipx [of g' y'] by simp
  qed simp
  then have "fill_ref x y w h color g = fold ?r [y..y + h - 1] g" by (simp add: all)
  also have "\<dots> = fold ?r [max 0 y..min (gx_h g - 1) (y + h - 1)] g"
  proof (rule fold_clip [where P = "\<lambda>h. geo h = geo g"])
    fix i s assume i: "i < 0 \<or> gx_h g \<le> i" "geo s = geo g"
    have "set_pixel j i color s = s" for j using i by (auto simp: set_pixel_def geo_def)
    then have "?row i xs s = s" for xs by (induction xs) auto
    then show "?r i s = s" .
  qed simp_all
  also have "min (gx_h g - 1) (y + h - 1) = max 0 y + (min (gx_h g) (y + h) - max 0 y) - 1" by auto
  also have "min (gx_w g - 1) (x + w - 1) = max 0 x + (min (gx_w g) (x + w) - max 0 x) - 1" by auto
  finally show ?thesis by (simp only: all)
qed

text \<open>Inside the screen, both inner loops store the same bytes.\<close>

definition raw_fill :: "int \<Rightarrow> int \<Rightarrow> int \<Rightarrow> int \<Rightarrow> u8 \<Rightarrow> gfx \<Rightarrow> gfx" where
  "raw_fill x y w h color g =
     (let c = gx_palette g ! unat color; bytes = gx_bpp g sdiv 8
      in if bytes = 4
         then for_int h (\<lambda>dy. for_int w (\<lambda>dx g.
                g\<lparr>gx_pix := put4 ((y + dy) * gx_pitch g + 4 * (x + dx)) c (gx_pix g)\<rparr>)) g
         else for_int h (\<lambda>dy. for_int w (\<lambda>dx g.
                g\<lparr>gx_pix := put3 ((y + dy) * gx_pitch g + x * bytes + dx * 3) c (gx_pix g)\<rparr>)) g)"

lemma raw_fill_inside:
  assumes "gfx_wf g" "0 \<le> x" "0 \<le> y" "x + w \<le> gx_w g" "y + h \<le> gx_h g"
  shows "raw_fill x y w h color g = fill_ref x y w h color g"
proof -
  let ?P = "\<lambda>g'. geo g' = geo g"
  let ?c = "gx_palette g ! unat color"
  let ?put = "\<lambda>dx dy g'. g'\<lparr>gx_pix := putpx g (poff g (x + dx) (y + dy)) ?c (gx_pix g')\<rparr>"
  have px: "?put dx dy g' = set_pixel (x + dx) (y + dy) color g'"
    if "0 \<le> dx" "dx < w" "0 \<le> dy" "dy < h" "geo g' = geo g" for dx dy g'
  proof -
    have "putpx g' = putpx g" "poff g' = poff g" "gx_palette g' = gx_palette g" "point_in_bounds (x + dx) (y + dy) g'"
      using that assms(2-) by (auto simp: geo_def putpx_def poff_def point_in_bounds_def fun_eq_iff)
    then show ?thesis using that(5) assms(1) wf_geo [of g' g] by (simp add: set_pixel_eq)
  qed
  have 1: "for_int w (\<lambda>dx. ?put dx dy) g' = for_int w (\<lambda>dx. set_pixel (x + dx) (y + dy) color) g' \<and>
      geo (for_int w (\<lambda>dx. set_pixel (x + dx) (y + dy) color) g') = geo g"
    if "0 \<le> dy" "dy < h" "geo g' = geo g" for dy g'
  proof
    show "for_int w (\<lambda>dx. ?put dx dy) g' = for_int w (\<lambda>dx. set_pixel (x + dx) (y + dy) color) g'"
      by (rule for_int_cong [where P = ?P]) (use that px in \<open>simp_all add: that(3)\<close>)
    show "geo (for_int w (\<lambda>dx. set_pixel (x + dx) (y + dy) color) g') = geo g"
      by (rule for_int_inv) (simp_all add: that)
  qed
  have 2: "for_int h (\<lambda>dy. for_int w (\<lambda>dx. ?put dx dy)) g = fill_ref x y w h color g"
    unfolding fill_ref_def by (rule for_int_cong [where P = ?P, OF 1]) simp_all
  have geq: "for_int h (\<lambda>dy. for_int w (\<lambda>dx. F dx dy)) g = for_int h (\<lambda>dy. for_int w (\<lambda>dx. ?put dx dy)) g"
    if F: "\<And>dx dy g'. geo g' = geo g \<Longrightarrow> F dx dy g' = ?put dx dy g'" for F
  proof -
    have pg: "geo (?put dx dy g') = geo g'" for dx dy g' by (simp add: geo_def)
    have row: "for_int w (\<lambda>dx. F dx dy) g' = for_int w (\<lambda>dx. ?put dx dy) g'" if "geo g' = geo g" for dy g'
    proof (rule for_int_cong [where P = ?P, OF _ that])
      fix i s assume "geo s = geo g"
      then show "F i dy s = ?put i dy s \<and> geo (?put i dy s) = geo g" using F pg by metis
    qed
    have rg: "geo (for_int w (\<lambda>dx. ?put dx dy) g') = geo g" if "geo g' = geo g" for dy g'
      by (rule for_int_inv [where P = ?P, OF that]) (metis pg)
    show ?thesis by (rule for_int_cong [where P = ?P]) (use row rg in auto)
  qed
  have "gx_bpp g = 24 \<or> gx_bpp g = 32" using assms(1) by (auto simp: gfx_wf_def)
  then show ?thesis
  proof
    assume b: "gx_bpp g = 24"
    have "raw_fill x y w h color g = for_int h (\<lambda>dy. for_int w (\<lambda>dx. ?put dx dy)) g"
      unfolding raw_fill_def Let_def using b
      by (simp add: sdiv_pos, intro geq) (simp add: geo_def putpx_def poff_def algebra_simps)
    with 2 show ?thesis by simp
  next
    assume b: "gx_bpp g = 32"
    have "raw_fill x y w h color g = for_int h (\<lambda>dy. for_int w (\<lambda>dx. ?put dx dy)) g"
      unfolding raw_fill_def Let_def using b
      by (simp add: sdiv_pos, intro geq) (simp add: geo_def putpx_def poff_def algebra_simps)
    with 2 show ?thesis by simp
  qed
qed

lemma fill_ref_empty:
  assumes "w \<le> 0 \<or> h \<le> 0"
  shows "fill_ref x y w h color g = g"
  unfolding fill_ref_def
proof (rule for_int_inv [where P = "\<lambda>t. t = g"])
  show "0 \<le> i \<Longrightarrow> i < h \<Longrightarrow> s = g \<Longrightarrow> for_int w (\<lambda>dx. set_pixel (x + dx) (y + i) color) s = g" for i s
    using assms by (simp add: for_int_def)
qed simp

text \<open>A rectangle whose right and lower edges are \<open>int\<close>s.\<close>

definition fill_ok :: "int \<Rightarrow> int \<Rightarrow> bool" where
  "fill_ok x w = (- (2 ^ 31) \<le> x \<and> w < 2 ^ 31 \<and> x + w < 2 ^ 31)"

lemma fill_rect_ref:
  assumes "gfx_wf g" "fill_ok x w" "fill_ok y h"
  shows "fill_rect x y w h color g = fill_ref x y w h color g"
proof (cases "w \<le> 0 \<or> h \<le> 0")
  case False
  define x' y' w' h' where "x' = max 0 x" and "y' = max 0 y" and "w' = min (gx_w g) (x + w) - max 0 x"
    and "h' = min (gx_h g) (y + h) - max 0 y"
  have i: "i32 (w + x) = x + w" "i32 (h + y) = y + h"
    using assms(2,3) False unfolding fill_ok_def by (auto simp: i32_id)
  have e: "(if x < 0 then (i32 (w + x), 0) else (w, x)) = (x + w - x', x')" "(if y < 0 then (i32 (h + y), 0) else (h, y)) = (y + h - y', y')"
    by (simp_all add: i x'_def y'_def)
  have j: "i32 (x' + (x + w - x')) = x + w" "i32 (y' + (y + h - y')) = y + h"
    using i by (simp_all add: add.commute)
  have m: "(if i32 (x' + (x + w - x')) > gx_w g then gx_w g - x' else x + w - x') = w'"
    "(if i32 (y' + (y + h - y')) > gx_h g then gx_h g - y' else y + h - y') = h'"
    unfolding j by (simp_all add: x'_def y'_def w'_def h'_def)
  have out: "gx_w g \<le> x' \<or> gx_h g \<le> y' \<Longrightarrow> w' \<le> 0 \<or> h' \<le> 0" by (auto simp: x'_def y'_def w'_def h'_def)
  have ne: "(w \<le> 0 \<or> h \<le> 0) = False" using False by simp
  have "fill_rect x y w h color g = (if w' \<le> 0 \<or> h' \<le> 0 then g else raw_fill x' y' w' h' color g)"
    unfolding fill_rect_def ne if_False Let_def e prod.case m raw_fill_def
    using out by (cases "w' \<le> 0 \<or> h' \<le> 0") (simp_all only: if_True if_False if_cancel, auto)
  also have "\<dots> = fill_ref x' y' w' h' color g"
    using raw_fill_inside [OF assms(1), of x' y' w' h' color] fill_ref_empty [of w' h' x' y' color g]
    by (simp add: x'_def y'_def w'_def h'_def)
  finally show ?thesis using fill_ref_clip [OF assms(1), of x y w h color] by (simp add: x'_def y'_def w'_def h'_def)
qed (use fill_ref_empty in \<open>simp add: fill_rect_def\<close>)

lemma stays_for:
  assumes "stays g g'" "\<And>i s. 0 \<le> i \<Longrightarrow> i < n \<Longrightarrow> stays g s \<Longrightarrow> stays g (f i s)"
  shows "stays g (for_int n f g')"
  using assms by (rule for_int_inv [where P = "stays g"])

lemma stays_fill:
  assumes "stays g g'" "gfx_wf g" "fill_ok x w" "fill_ok y h"
  shows "stays g (fill_rect x y w h color g')"
  unfolding fill_rect_ref [OF assms(2) [folded stays_wf [OF assms(1)]] assms(3,4)] fill_ref_def
  by (intro stays_for stays_set_pixel assms)

lemma stays_draw_char: "stays g g' \<Longrightarrow> gfx_wf g \<Longrightarrow> stays g (draw_char sx sy c fg bg g')"
  unfolding draw_char_def Let_def by (intro stays_for stays_set_pixel)

lemma stays_draw_cn: "stays g g' \<Longrightarrow> gfx_wf g \<Longrightarrow> stays g (draw_cn_char sx sy cp fg bg g')"
  unfolding draw_cn_char_def Let_def by (intro stays_for stays_set_pixel)

lemma stays_stamp: "stays g g' \<Longrightarrow> gfx_wf g \<Longrightarrow> stays g (stamp_char x y c color g')"
  "stays g g' \<Longrightarrow> gfx_wf g \<Longrightarrow> stays g (stamp_cn x y cp color g')"
  unfolding stamp_char_def stamp_cn_def Let_def by (auto intro!: stays_for stays_set_pixel)

lemma stays_if: "stays g a \<Longrightarrow> stays g b \<Longrightarrow> stays g (if c then a else b)"
  by simp

lemma stays_scroll:
  assumes "stays g g'" "gfx_wf g"
  shows "stays g (scroll g')"
proof -
  define bytes where "bytes = gx_pitch g * 16"
  have e: "gx_pitch g' * 16 = bytes" "gx_rows g' = gx_h g div 16" "0 < gx_pitch g"
    using assms wf_bytes(4) [OF assms(2), of 0] by (auto simp: bytes_def stays_def geo_def gfx_wf_def)
  let ?cp = "\<lambda>row. for_int bytes (\<lambda>i s. s\<lparr>gx_pix := (gx_pix s)((int row - 1) * bytes + i := gx_pix s (int row * bytes + i))\<rparr>)"
  have row: "stays g (?cp row s)" if "stays g s" "1 \<le> row" "row < nat (gx_h g div 16)" for row s
  proof (rule stays_for [OF that(1)])
    fix i t assume i: "0 \<le> i" "i < bytes" "stays g t"
    have "0 \<le> (int row - 1) * bytes + i" "(int row - 1) * bytes + i < (gx_h g div 16) * bytes"
      using line_bound [of "int row - 1" "gx_h g div 16" i bytes] i that by auto
    moreover have "(gx_h g div 16) * bytes \<le> gx_h g * gx_pitch g"
    proof -
      have "gx_h g div 16 * 16 \<le> gx_h g" by linarith
      then have "gx_h g div 16 * 16 * gx_pitch g \<le> gx_h g * gx_pitch g" using e(3) by (intro mult_right_mono) auto
      then show ?thesis by (simp add: bytes_def ac_simps)
    qed
    ultimately show "stays g (t\<lparr>gx_pix := (gx_pix t)((int row - 1) * bytes + i := gx_pix t (int row * bytes + i))\<rparr>)"
      using i(3) by (auto simp: stays_def geo_def)
  qed
  have rows: "stays g (fold ?cp xs s)" if "stays g s" "\<forall>r \<in> set xs. 1 \<le> r \<and> r < nat (gx_h g div 16)" for xs s
    using that by (induction xs arbitrary: s) (simp_all add: row)
  have "stays g (fold ?cp [1..<nat (gx_h g div 16)] g')" using rows [OF assms(1), of "[1..<nat (gx_h g div 16)]"] by auto
  moreover have "fill_ok 0 (gx_w g)" "fill_ok ((gx_h g div 16 - 1) * 16) 16"
    using wf_size [OF assms(2)] assms(2) by (auto simp: fill_ok_def gfx_wf_def)
  moreover have "gx_w g' = gx_w g" using assms(1) by (simp add: stays_def geo_def)
  ultimately show ?thesis unfolding scroll_def Let_def e by (simp add: stays_fill assms(2))
qed

lemma stays_wrap: "stays g g' \<Longrightarrow> gfx_wf g \<Longrightarrow> stays g (wrap g')"
  unfolding wrap_def Let_def newline_def by (intro stays_if stays_scroll) simp_all

lemma stays_puts_at_loop: "stays g g' \<Longrightarrow> gfx_wf g \<Longrightarrow> stays g (puts_at_loop sx color x y s g')"
  by (induction sx color x y s g' rule: puts_at_loop.induct) (simp_all add: stays_stamp)

lemma stays_puts_at_utf8_loop: "stays g g' \<Longrightarrow> gfx_wf g \<Longrightarrow> stays g (puts_at_utf8_loop sx color x y s g')"
proof (induction sx color x y s g' rule: puts_at_utf8_loop.induct)
  case (1 sx color x y s g')
  then show ?case by (subst puts_at_utf8_loop.simps) (auto simp: Let_def stays_stamp)
qed

section \<open>Line drawing ends\<close>

text \<open>With \<open>a\<close> steps made along x and \<open>b\<close> along y, the error term is \<open>dx - dy - a dy + b dx\<close>; neither count
  overshoots, and each round makes a step.\<close>

lemma line_step_bounds:
  fixes dx dy a b :: int
  assumes "0 \<le> a" "a \<le> dx" "0 \<le> b" "b \<le> dy" "\<not> (a = dx \<and> b = dy)" "err = dx - dy - a * dy + b * dx"
  shows "err * 2 > - dy \<Longrightarrow> a < dx" "err * 2 < dx \<Longrightarrow> b < dy" "err * 2 > - dy \<or> err * 2 < dx"
proof -
  have x: "err = - dy - dx * (dy - b) + dx" if "a = dx" using assms(6) that by (simp add: algebra_simps)
  have y: "err = dx + dy * (dx - a) - dy" if "b = dy" using assms(6) that by (simp add: algebra_simps)
  show "err * 2 > - dy \<Longrightarrow> a < dx"
  proof (rule ccontr)
    assume "err * 2 > - dy" "\<not> a < dx"
    then have "a = dx" "b < dy" using assms by auto
    moreover have "dx * 1 \<le> dx * (dy - b)" using assms \<open>b < dy\<close> by (intro mult_left_mono) auto
    ultimately show False using x \<open>err * 2 > - dy\<close> assms by simp
  qed
  show "err * 2 < dx \<Longrightarrow> b < dy"
  proof (rule ccontr)
    assume "err * 2 < dx" "\<not> b < dy"
    then have "b = dy" "a < dx" using assms by auto
    moreover have "dy * 1 \<le> dy * (dx - a)" using assms \<open>a < dx\<close> by (intro mult_left_mono) auto
    ultimately show False using y \<open>err * 2 < dx\<close> assms by simp
  qed
  show "err * 2 > - dy \<or> err * 2 < dx" using assms by linarith
qed

text \<open>With differences below \<open>2 ^ 29\<close> no intermediate result overflows: the error term keeps between \<open>- 2 dy\<close> and \<open>2 dx\<close>.\<close>

lemma line_loop_ends:
  assumes "0 \<le> a" "a \<le> dx" "0 \<le> b" "b \<le> dy" "x2 = x1 + sx * (dx - a)" "y2 = y1 + sy * (dy - b)"
    "\<bar>sx\<bar> = 1" "\<bar>sy\<bar> = 1" "err = dx - dy - a * dy + b * dx" "stays g0 g" "gfx_wf g0"
    "dx < 536870912" "dy < 536870912" "\<bar>x2\<bar> \<le> 1073741824" "\<bar>y2\<bar> \<le> 1073741824" "- 2 * dy \<le> err" "err \<le> 2 * dx"
  shows "\<exists>g1. line_loop dx dy sx sy x2 y2 color x1 y1 err g = Some (set_pixel x2 y2 color g1) \<and> stays g0 g1"
  using assms
proof (induction "nat (dx - a + (dy - b))" arbitrary: a b x1 y1 err g rule: less_induct)
  case less
  have st: "stays g0 (set_pixel x1 y1 color g)" by (rule stays_set_pixel [OF less.prems(10,11)])
  show ?case
  proof (cases "x1 = x2 \<and> y1 = y2")
    case True
    then show ?thesis using less.prems(10) by (subst line_loop.simps) (auto simp: Let_def)
  next
    case False
    then have ne: "\<not> (a = dx \<and> b = dy)" using less.prems by auto
    note b = line_step_bounds [OF less.prems(1-4) ne less.prems(9)]
    define a' b' where "a' = (if err * 2 > - dy then a + 1 else a)" and "b' = (if err * 2 < dx then b + 1 else b)"
    define e' where "e' = dx - dy - a' * dy + b' * dx"
    define e1 where "e1 = (if err * 2 > - dy then err - dy else err)"
    let ?x = "x1 + sx * (a' - a)" and ?y = "y1 + sy * (b' - b)"
    have e': "e' = (if err * 2 < dx then e1 + dx else e1)"
      unfolding e'_def a'_def b'_def e1_def by (simp add: less.prems(9) algebra_simps)
    have r1: "- 2 * dy \<le> e1" "e1 \<le> 2 * dx" "err * 2 < dx \<Longrightarrow> 2 * e1 < dx" using less.prems(1-4,16,17) by (auto simp: e1_def)
    then have r: "- 2 * dy \<le> e'" "e' \<le> 2 * dx" using less.prems(1-4) by (auto simp: e')
    have s1: "\<bar>sx * (dx - a)\<bar> \<le> dx" "\<bar>sy * (dy - b)\<bar> \<le> dy" using less.prems(1-4,7,8) by (simp_all add: abs_mult)
    then have p: "\<bar>x1\<bar> < 1610612736" "\<bar>y1\<bar> < 1610612736" using less.prems(5,6,12-15) by linarith+
    have dxy: "0 \<le> dx" "0 \<le> dy" using less.prems(1-4) by linarith+
    have i: "i32 (err * 2) = err * 2" "i32 (- dy) = - dy" "i32 (err - dy) = err - dy" "i32 (e1 + dx) = e1 + dx"
      "i32 (x1 + sx) = x1 + sx" "i32 (y1 + sy) = y1 + sy"
      by ((rule i32_range; use less.prems(7,8,12,13,16,17) r1 p dxy in linarith)+)
    have e: "(case if err * 2 > - dy then (err - dy, x1 + sx) else (err, x1) of (err1, x1') \<Rightarrow>
        case if err * 2 < dx then (i32 (err1 + dx), i32 (y1 + sy)) else (err1, y1) of (err2, y1') \<Rightarrow> F x1' y1' err2) = F ?x ?y e'" for F :: "int \<Rightarrow> int \<Rightarrow> int \<Rightarrow> gfx option"
      using i(4,6) by (cases "err * 2 > - dy"; cases "err * 2 < dx") (simp_all add: a'_def b'_def e' e1_def)
    have eq: "line_loop dx dy sx sy x2 y2 color x1 y1 err g = line_loop dx dy sx sy x2 y2 color ?x ?y e' (set_pixel x1 y1 color g)"
      using e [of "\<lambda>x y e. line_loop dx dy sx sy x2 y2 color x y e (set_pixel x1 y1 color g)"]
      by (subst line_loop.simps) (simp only: Let_def False if_False i)
    have "\<exists>g1. line_loop dx dy sx sy x2 y2 color ?x ?y e' (set_pixel x1 y1 color g) = Some (set_pixel x2 y2 color g1) \<and> stays g0 g1"
    proof (rule less.hyps [of a' b'])
      show "nat (dx - a' + (dy - b')) < nat (dx - a + (dy - b))" using b less.prems(1-4) by (auto simp: a'_def b'_def)
      show "x2 = ?x + sx * (dx - a')" "y2 = ?y + sy * (dy - b')" using less.prems(5,6) by (simp_all add: algebra_simps)
    qed (use b less.prems(1-4,7,8,11-15) st r in \<open>auto simp: a'_def b'_def e'_def\<close>)
    then show ?thesis by (simp only: eq)
  qed
qed

definition small_coord :: "int \<Rightarrow> bool" where
  "small_coord x = (- (2 ^ 28) \<le> x \<and> x < 2 ^ 28)"

lemma draw_line_ends:
  assumes "stays g0 g" "gfx_wf g0" "small_coord x1" "small_coord y1" "small_coord x2" "small_coord y2"
  shows "\<exists>g1. draw_line x1 y1 x2 y2 color g = Some (set_pixel x2 y2 color g1) \<and> stays g0 g1"
proof -
  have d: "(let d = i32 (b - a) in if d < 0 then i32 (- d) else d) = \<bar>b - a\<bar>" if "small_coord a" "small_coord b" for a b
  proof -
    have "i32 (b - a) = b - a" "i32 (- (b - a)) = - (b - a)" using that by (simp_all add: i32_range small_coord_def)
    then show ?thesis by (simp add: Let_def abs_if)
  qed
  have i: "i32 (\<bar>x2 - x1\<bar> - \<bar>y2 - y1\<bar>) = \<bar>x2 - x1\<bar> - \<bar>y2 - y1\<bar>"
    by (rule i32_range) (use assms(3-6) in \<open>auto simp: small_coord_def abs_if\<close>)
  show ?thesis
    unfolding draw_line_def d [OF assms(3,5)] d [OF assms(4,6)]
    unfolding Let_def i
    by (rule line_loop_ends [where a = 0 and b = 0]) (use assms in \<open>auto simp: small_coord_def abs_if\<close>)
qed

lemma stays_draw_line:
  assumes "stays g0 g" "gfx_wf g0" "small_coord x1" "small_coord y1" "small_coord x2" "small_coord y2"
  shows "\<exists>g1. draw_line x1 y1 x2 y2 color g = Some g1 \<and> stays g0 g1"
  using draw_line_ends [OF assms, of color] stays_set_pixel [OF _ assms(2)] by blast

lemma stays_draw_rect:
  assumes "stays g0 g" "gfx_wf g0" "small_coord x" "small_coord y" "small_coord (x + w - 1)" "small_coord (y + h - 1)"
  shows "\<exists>g1. draw_rect x y w h color g = Some g1 \<and> stays g0 g1"
proof -
  have i: "i32 (i32 (x + w) - 1) = x + w - 1" "i32 (i32 (y + h) - 1) = y + h - 1"
    using assms(5,6) by (simp_all add: i32_id small_coord_def)
  note l = stays_draw_line [OF _ assms(2)]
  let ?r = "x + w - 1" and ?b = "y + h - 1"
  obtain g1 where 1: "draw_line x y ?r y color g = Some g1" "stays g0 g1" using l [OF assms(1), of x y ?r y color] assms(3-6) by blast
  obtain g2 where 2: "draw_line ?r y ?r ?b color g1 = Some g2" "stays g0 g2" using l [OF 1(2), of ?r y ?r ?b color] assms(3-6) by blast
  obtain g3 where 3: "draw_line ?r ?b x ?b color g2 = Some g3" "stays g0 g3" using l [OF 2(2), of ?r ?b x ?b color] assms(3-6) by blast
  obtain g4 where "draw_line x ?b x y color g3 = Some g4" "stays g0 g4" using l [OF 3(2), of x ?b x y color] assms(3-6) by blast
  with 1 2 3 show ?thesis by (simp add: draw_rect_def Let_def i)
qed

section \<open>The text cursor stays on the screen\<close>

definition text_ok :: "gfx \<Rightarrow> bool" where
  "text_ok g = (0 \<le> gx_cx g \<and> gx_cx g < gx_cols g \<and> 0 \<le> gx_cy g \<and> gx_cy g < gx_rows g)"

definition keeps :: "gfx \<Rightarrow> gfx \<Rightarrow> bool" where
  "keeps g g' = (geo g' = geo g \<and> gx_cx g' = gx_cx g \<and> gx_cy g' = gx_cy g)"

lemma keeps_for: "(\<And>i s. keeps s (f i s)) \<Longrightarrow> keeps g (for_int n f g)"
  by (rule for_int_inv [where P = "keeps g"]) (auto simp: keeps_def)

lemma keeps_draw [simp]:
  "keeps g (set_pixel x y color g)" "keeps g (draw_char x y c fgc bgc g)" "keeps g (draw_cn_char x y cp fgc bgc g)"
  "keeps g (fill_rect x y w h color g)"
proof -
  show p: "keeps g (set_pixel x y color g)" for x y color g
    by (simp add: keeps_def) (simp add: set_pixel_def Let_def)
  show "keeps g (draw_char x y c fgc bgc g)" unfolding draw_char_def Let_def by (intro keeps_for p)
  show "keeps g (draw_cn_char x y cp fgc bgc g)" unfolding draw_cn_char_def Let_def by (intro keeps_for p)
  have s: "keeps s (s\<lparr>gx_pix := f\<rparr>)" for s f by (simp add: keeps_def geo_def)
  have i: "keeps g a \<Longrightarrow> keeps g b \<Longrightarrow> keeps g (if c then a else b)" for a b c by simp
  show "keeps g (fill_rect x y w h color g)"
    unfolding fill_rect_def Let_def split_beta by (intro i keeps_for s) (simp_all add: keeps_def)
qed

lemma keepsD:
  assumes "keeps g g'"
  shows "gx_cx g' = gx_cx g" "gx_cy g' = gx_cy g" "gx_cols g' = gx_cols g" "gx_rows g' = gx_rows g"
  using assms by (simp_all add: keeps_def geo_def)

lemmas draw_cursor [simp] = keepsD [OF keeps_draw(2)] keepsD [OF keeps_draw(3)] keepsD [OF keeps_draw(4)]

lemma scroll_cursor [simp]:
  "gx_cx (scroll g) = 0" "gx_cy (scroll g) = gx_rows g - 1" "gx_cols (scroll g) = gx_cols g" "gx_rows (scroll g) = gx_rows g"
proof -
  have p: "keeps s (s\<lparr>gx_pix := f\<rparr>)" for s f by (simp add: keeps_def geo_def)
  have f: "keeps g (fold F xs g)" if "\<And>row s. keeps s (F row s)" for F :: "nat \<Rightarrow> gfx \<Rightarrow> gfx" and xs g
    by (induction xs arbitrary: g) (use that in \<open>auto simp: keeps_def\<close>)
  note k = f [OF keeps_for [OF p]]
  show "gx_cx (scroll g) = 0" "gx_cy (scroll g) = gx_rows g - 1" "gx_cols (scroll g) = gx_cols g" "gx_rows (scroll g) = gx_rows g"
    using keepsD [OF k] by (simp_all add: scroll_def Let_def)
qed

lemma newline_cursor [simp]:
  "gx_cx (newline g) = 0" "gx_cy (newline g) = gx_cy g + 1" "gx_cols (newline g) = gx_cols g" "gx_rows (newline g) = gx_rows g"
  by (simp_all add: newline_def)

text \<open>Before the final wrap, the cursor is at most one column or one row past the screen.\<close>

definition text_near :: "gfx \<Rightarrow> bool" where
  "text_near g = (0 < gx_cols g \<and> 0 < gx_rows g \<and> 0 \<le> gx_cx g \<and> 0 \<le> gx_cy g \<and> gx_cy g \<le> gx_rows g \<and>
     (gx_cols g \<le> gx_cx g \<longrightarrow> gx_cy g < gx_rows g))"

lemma wrap_text: "text_near g \<Longrightarrow> text_ok (wrap g)"
  by (auto simp: text_near_def text_ok_def wrap_def Let_def)

lemma tab_nonneg: "0 \<le> c \<Longrightarrow> 0 \<le> (c + 4) AND NOT 3" for c :: int
  by simp

lemma putc_text: "text_ok g \<Longrightarrow> text_ok (gfx_putc c g)"
  unfolding gfx_putc_def Let_def
  by (rule wrap_text) (auto simp: text_near_def text_ok_def)

lemma put_cn_text:
  assumes "text_ok g"
  shows "text_ok (put_cn cp g)"
proof -
  define g1 where "g1 = (if gx_cols g - 1 \<le> gx_cx g then newline g else g)"
  define g2 where "g2 = (if gx_rows g1 \<le> gx_cy g1 then scroll g1 else g1)"
  have 1: "gx_cols g1 = gx_cols g" "gx_rows g1 = gx_rows g" "0 \<le> gx_cx g1" "0 \<le> gx_cy g1" "gx_cy g1 \<le> gx_rows g"
    using assms by (auto simp: g1_def text_ok_def)
  have 2: "gx_cols g2 = gx_cols g" "gx_rows g2 = gx_rows g" "0 \<le> gx_cx g2" "0 \<le> gx_cy g2" "gx_cy g2 < gx_rows g"
    using assms 1 by (auto simp: g2_def text_ok_def)
  show ?thesis
    unfolding put_cn_def Let_def g1_def [symmetric] g2_def [symmetric]
    by (rule wrap_text) (use 2 assms in \<open>auto simp: text_near_def text_ok_def\<close>)
qed

lemma puts_utf8_text: "text_ok g \<Longrightarrow> text_ok (puts_utf8 s g)"
proof (induction s g rule: puts_utf8.induct)
  case (1 s g)
  have "text_ok (if fst (utf8_decode s) = 1 \<and> snd (utf8_decode s) < 0x80 then gfx_putc (ucast (snd (utf8_decode s))) g
      else put_cn (snd (utf8_decode s)) g)"
    using "1.prems" by (simp add: putc_text put_cn_text)
  with "1.IH" [OF _ refl refl] "1.prems" show ?case by (subst puts_utf8.simps) (simp add: Let_def)
qed

lemma stays_putc:
  assumes "stays g g'" "gfx_wf g" "text_ok g'"
  shows "stays g (gfx_putc c g')"
proof -
  have d: "gx_cols g' = gx_w g div 10" "gx_rows g' = gx_h g div 16" using assms(1,2) by (auto simp: stays_def geo_def gfx_wf_def)
  note w = wf_size [OF assms(2)]
  have f: "fill_ok ((gx_cx g' - 1) * 10) 10" "fill_ok (gx_cy g' * 16) 16"
    using assms(3) w unfolding text_ok_def fill_ok_def d by auto
  show ?thesis
    unfolding gfx_putc_def Let_def newline_def
    by (intro stays_wrap stays_if) (use assms f in \<open>simp_all add: stays_fill stays_draw_char\<close>)
qed

lemma stays_put_cn: "stays g g' \<Longrightarrow> gfx_wf g \<Longrightarrow> stays g (put_cn cp g')"
  unfolding put_cn_def Let_def newline_def
  by (rule stays_wrap) (simp_all add: stays_draw_cn stays_scroll)

lemma stays_puts: "stays g g' \<Longrightarrow> gfx_wf g \<Longrightarrow> text_ok g' \<Longrightarrow> stays g (gfx_puts s g')"
  unfolding gfx_puts_def by (induction s arbitrary: g') (simp_all add: stays_putc putc_text)

lemma stays_puts_utf8: "stays g g' \<Longrightarrow> gfx_wf g \<Longrightarrow> text_ok g' \<Longrightarrow> stays g (puts_utf8 s g')"
proof (induction s g' rule: puts_utf8.induct)
  case (1 s g')
  let ?g = "if fst (utf8_decode s) = 1 \<and> snd (utf8_decode s) < 0x80 then gfx_putc (ucast (snd (utf8_decode s))) g'
      else put_cn (snd (utf8_decode s)) g'"
  have "stays g ?g" "text_ok ?g"
    using "1.prems" by (simp_all add: stays_putc stays_put_cn putc_text put_cn_text)
  with "1.IH" [OF _ refl refl] "1.prems" show ?case by (subst puts_utf8.simps) (simp add: Let_def)
qed

section \<open>The mouse cursor\<close>

definition flip3 :: "int \<Rightarrow> (int \<Rightarrow> u8) \<Rightarrow> (int \<Rightarrow> u8)" where
  "flip3 off p = p(off := NOT (p off), off + 1 := NOT (p (off + 1)), off + 2 := NOT (p (off + 2)))"

lemma flip_bytes:
  fixes a b c d :: u8
  shows "(ucast (word_cat (word_cat d c :: u16) (word_cat b a :: u16) XOR mask 24 :: u32) :: u8) = NOT a"
    "(ucast (drop_bit 8 (word_cat (word_cat d c :: u16) (word_cat b a :: u16) XOR mask 24 :: u32)) :: u8) = NOT b"
    "(ucast (drop_bit 16 (word_cat (word_cat d c :: u16) (word_cat b a :: u16) XOR mask 24 :: u32)) :: u8) = NOT c"
    "(ucast (drop_bit 24 (word_cat (word_cat d c :: u16) (word_cat b a :: u16) XOR mask 24 :: u32)) :: u8) = d"
  by (rule bit_word_eqI, simp add: bit_simps)+

lemma flip_bytes3:
  fixes a b c :: u8
  shows "(ucast ((ucast a OR push_bit 8 (ucast b) OR push_bit 16 (ucast c) :: u32) XOR mask 24) :: u8) = NOT a"
    "(ucast (drop_bit 8 ((ucast a OR push_bit 8 (ucast b) OR push_bit 16 (ucast c) :: u32) XOR mask 24)) :: u8) = NOT b"
    "(ucast (drop_bit 16 ((ucast a OR push_bit 8 (ucast b) OR push_bit 16 (ucast c) :: u32) XOR mask 24)) :: u8) = NOT c"
  by (rule bit_word_eqI, auto simp: bit_simps dest: bit_imp_le_length)+

lemma xor_px_flip:
  assumes "gx_bpp g = 24 \<or> gx_bpp g = 32"
  shows "xor_px x y g = g\<lparr>gx_pix := flip3 (poff g x y) (gx_pix g)\<rparr>"
proof -
  have m: "(0x00FFFFFF :: u32) = mask 24" by (simp add: mask_eq_exp_minus_1)
  have o: "px_off x y g = poff g x y" using assms by (auto simp: px_off_def poff_def sdiv_pos)
  have p4: "put4 off (get4 off p XOR mask 24) p = flip3 off p" for off p
    unfolding put4_def get4_def flip3_def flip_bytes by (rule ext) simp
  show ?thesis
    using assms
  proof
    assume b: "gx_bpp g = 24"
    show ?thesis
      unfolding xor_px_def m Let_def o px_set_def px_get_def using b
      by (simp del: drop_bit_xor) (simp only: flip_bytes3 or.assoc flip3_def)
  next
    assume "gx_bpp g = 32"
    then show ?thesis unfolding xor_px_def m Let_def o px_set_def px_get_def by (simp add: p4)
  qed
qed

lemma flip3_apply: "flip3 a p i = (if a \<le> i \<and> i \<le> a + 2 then NOT (p i) else p i)"
  by (auto simp: flip3_def)

lemma flip3_commute: "flip3 a (flip3 b p) = flip3 b (flip3 a p)"
  by (rule ext) (simp add: flip3_apply)

lemma flip3_twice [simp]: "flip3 a (flip3 a p) = p"
  by (rule ext) (simp add: flip3_apply)

lemma fold_flip3_twice: "fold flip3 as (fold flip3 as p) = p"
proof -
  have c: "fold flip3 as (flip3 a p) = flip3 a (fold flip3 as p)" for as a p
    by (induction as arbitrary: p) (simp_all, metis flip3_commute)
  show ?thesis by (induction as arbitrary: p) (simp_all add: c)
qed

text \<open>The border of the cursor box, in drawing order.\<close>

definition border :: "(int \<times> int) list" where
  "border = concat (map (\<lambda>y. map (\<lambda>x. (x, y)) (filter (\<lambda>x. \<not> hollow x y) [0..7])) [0..7])"

lemma border_bounds: "(x, y) \<in> set border \<Longrightarrow> 0 \<le> x \<and> x < 8 \<and> 0 \<le> y \<and> y < 8"
  by (auto simp: border_def)

lemma for_int_8: "for_int 8 f s = fold f [0..7] s"
  using for_int_upto [of 8 f 0 s] by simp

lemma for_border: "for_int 8 (\<lambda>y. for_int 8 (\<lambda>x s. if hollow x y then s else f x y s)) s = fold (\<lambda>(x, y). f x y) border s"
proof -
  have "fold (\<lambda>x s. if hollow x y then s else f x y s) xs s = fold (\<lambda>(x, y). f x y) (map (\<lambda>x. (x, y)) (filter (\<lambda>x. \<not> hollow x y) xs)) s" for y xs s
    by (induction xs arbitrary: s) simp_all
  then have "fold (\<lambda>y. fold (\<lambda>x s. if hollow x y then s else f x y s) [0..7]) ys s =
      fold (\<lambda>(x, y). f x y) (concat (map (\<lambda>y. map (\<lambda>x. (x, y)) (filter (\<lambda>x. \<not> hollow x y) [0..7])) ys)) s" for ys s
    by (induction ys arbitrary: s) simp_all
  then show ?thesis unfolding for_int_8 border_def .
qed

definition box :: "gfx \<Rightarrow> int \<Rightarrow> int \<Rightarrow> int list" where
  "box g cx cy = map (\<lambda>(x, y). poff g (cx + x) (cy + y)) border"

lemma xor_points:
  assumes "gx_bpp g = 24 \<or> gx_bpp g = 32"
  shows "fold (\<lambda>(x, y). xor_px (cx + x) (cy + y)) ps g =
     g\<lparr>gx_pix := fold flip3 (map (\<lambda>(x, y). poff g (cx + x) (cy + y)) ps) (gx_pix g)\<rparr>"
  using assms
proof (induction ps arbitrary: g)
  case (Cons p ps)
  obtain x y where p: "p = (x, y)" by fastforce
  define g1 where "g1 = xor_px (cx + x) (cy + y) g"
  have g1: "g1 = g\<lparr>gx_pix := flip3 (poff g (cx + x) (cy + y)) (gx_pix g)\<rparr>" unfolding g1_def by (rule xor_px_flip [OF Cons.prems])
  have "poff g1 = poff g" by (simp add: g1 poff_def fun_eq_iff)
  then show ?case using Cons.IH [of g1] Cons.prems by (simp add: p g1_def [symmetric]) (simp add: g1)
qed simp

lemma xor_in_eq: "gx_bpp g = 24 \<or> gx_bpp g = 32 \<Longrightarrow> xor_in cx cy g = g\<lparr>gx_pix := fold flip3 (box g cx cy) (gx_pix g)\<rparr>"
  unfolding xor_in_def for_border box_def by (rule xor_points)

definition cursor_on :: "gfx \<Rightarrow> int \<Rightarrow> int \<Rightarrow> bool" where
  "cursor_on g cx cy = (0 \<le> cx \<and> cx + 8 \<le> gx_w g \<and> 0 \<le> cy \<and> cy + 8 \<le> gx_h g)"

lemma xor_px_geo: "geo (xor_px x y g) = geo g"
  by (simp add: xor_px_def px_set_def Let_def geo_def)

lemma xor_out_eq:
  assumes "gx_bpp g = 24 \<or> gx_bpp g = 32" "cursor_on g cx cy"
  shows "xor_out cx cy g = xor_in cx cy g"
proof -
  have rg: "geo (for_int 8 (\<lambda>x s. if hollow x y then s else xor_px (cx + x) (cy + y) s) s) = geo g" if "geo s = geo g" for y :: int and s
    by (rule for_int_inv) (simp_all add: that xor_px_geo)
  have "xor_out cx cy g = for_int 8 (\<lambda>y. for_int 8 (\<lambda>x s. if hollow x y then s else xor_px (cx + x) (cy + y) s)) g"
    unfolding xor_out_def using assms(2)
  proof (simp add: cursor_on_def, intro for_int_cong [where P = "\<lambda>s. geo s = geo g"] conjI)
    fix y :: int and s assume y: "0 \<le> y" "y < 8" "geo s = geo g"
    have h: "gx_h s = gx_h g" using y by (simp add: geo_def)
    have "for_int 8 (\<lambda>x s. if hollow x y then s else if cx + x < 0 \<or> gx_w s \<le> cx + x then s else xor_px (cx + x) (cy + y) s) s
       = for_int 8 (\<lambda>x s. if hollow x y then s else xor_px (cx + x) (cy + y) s) s"
    proof (rule for_int_cong [where P = "\<lambda>s. geo s = geo g"])
      fix x :: int and t assume x: "0 \<le> x" "x < 8" "geo t = geo g"
      then have "gx_w t = gx_w g" by (simp add: geo_def)
      then show "(if hollow x y then t else if cx + x < 0 \<or> gx_w t \<le> cx + x then t else xor_px (cx + x) (cy + y) t) =
           (if hollow x y then t else xor_px (cx + x) (cy + y) t) \<and>
         geo (if hollow x y then t else xor_px (cx + x) (cy + y) t) = geo g"
        using x assms(2) by (auto simp: cursor_on_def xor_px_geo)
    qed (rule y(3))
    then show "(if cy + y < 0 \<or> gx_h s \<le> cy + y then s
         else for_int 8 (\<lambda>x s. if hollow x y then s else if cx + x < 0 \<or> gx_w s \<le> cx + x then s else xor_px (cx + x) (cy + y) s) s)
       = for_int 8 (\<lambda>x s. if hollow x y then s else xor_px (cx + x) (cy + y) s) s"
      using y assms(2) h by (simp add: cursor_on_def)
    show "geo (for_int 8 (\<lambda>x s. if hollow x y then s else xor_px (cx + x) (cy + y) s) s) = geo g" by (rule rg [OF y(3)])
  qed simp
  then show ?thesis by (simp add: xor_in_def)
qed

text \<open>The picture without the cursor.\<close>

definition picture :: "gfx \<Rightarrow> int \<Rightarrow> u8" where
  "picture g = gx_pix (xor_out (gx_cur_x g) (gx_cur_y g) g)"

lemma box_cong: "geo g' = geo g \<Longrightarrow> box g' = box g"
  by (simp add: box_def poff_def geo_def fun_eq_iff)

lemma cursor_at_on: "8 \<le> gx_w g \<Longrightarrow> 8 \<le> gx_h g \<Longrightarrow> cursor_on g (gx_cur_x (cursor_at a b g)) (gx_cur_y (cursor_at a b g))"
  by (auto simp: cursor_on_def cursor_at_def Let_def)

lemma cursor_at_other [simp]: "geo (cursor_at a b g) = geo g" "gx_pix (cursor_at a b g) = gx_pix g"
  by (simp_all add: cursor_at_def geo_def Let_def)

lemma mcursor_update_eq:
  assumes "gfx_wf g" "8 \<le> gx_w g" "8 \<le> gx_h g" "cursor_on g (gx_cur_x g) (gx_cur_y g)"
  shows "picture (mcursor_update ms g) = picture g \<and>
    cursor_on (mcursor_update ms g) (gx_cur_x (mcursor_update ms g)) (gx_cur_y (mcursor_update ms g)) \<and>
    geo (mcursor_update ms g) = geo g"
proof -
  have bpp: "gx_bpp g = 24 \<or> gx_bpp g = 32" and pos: "\<not> (gx_w g \<le> 0 \<or> gx_h g \<le> 0)" using assms by (auto simp: gfx_wf_def)
  define g0 where "g0 = xor_out (gx_cur_x g) (gx_cur_y g) g"
  define g1 where "g1 = cursor_at (mx ms) (my ms) g0"
  define cx cy where "cx = gx_cur_x g1" and "cy = gx_cur_y g1"
  have g0: "g0 = g\<lparr>gx_pix := picture g\<rparr>"
    unfolding g0_def picture_def xor_out_eq [OF bpp assms(4)] xor_in_eq [OF bpp] by simp
  have gg: "geo g1 = geo g" by (simp add: g1_def) (simp add: g0 geo_def)
  then have w: "gx_w g1 = gx_w g" "gx_h g1 = gx_h g" "gx_bpp g1 = gx_bpp g" by (simp_all add: geo_def)
  have on: "cursor_on g1 cx cy"
    using cursor_at_on [of g0 "mx ms" "my ms"] assms(2,3) w by (simp add: cx_def cy_def g1_def [symmetric] cursor_on_def) (simp add: g0)
  have up: "mcursor_update ms g = g1\<lparr>gx_pix := fold flip3 (box g1 cx cy) (gx_pix g1)\<rparr>"
    using pos xor_in_eq [of g1 cx cy] bpp w by (simp add: mcursor_update_def Let_def g0_def [symmetric] g1_def [symmetric] cx_def cy_def)
  let ?u = "g1\<lparr>gx_pix := fold flip3 (box g1 cx cy) (gx_pix g1)\<rparr>"
  have ug: "geo ?u = geo g1" by (simp add: geo_def)
  have uon: "cursor_on ?u cx cy" using on by (simp add: cursor_on_def)
  have ub: "gx_bpp ?u = 24 \<or> gx_bpp ?u = 32" using bpp w by simp
  have uc: "gx_cur_x ?u = cx" "gx_cur_y ?u = cy" by (simp_all add: cx_def cy_def)
  have "gx_pix (xor_out cx cy ?u) = fold flip3 (box ?u cx cy) (gx_pix ?u)"
    unfolding xor_out_eq [OF ub uon] xor_in_eq [OF ub] by simp
  also have "\<dots> = gx_pix g1" unfolding box_cong [OF ug] by (simp add: fold_flip3_twice)
  also have "\<dots> = picture g" by (simp add: g1_def) (simp add: g0)
  finally have "picture ?u = picture g" unfolding picture_def [of ?u] uc .
  then show ?thesis unfolding up uc using uon ug gg by simp
qed

section \<open>Glyph lookup\<close>

definition font_sorted :: "font_cn \<Rightarrow> bool" where
  "font_sorted fc = (\<forall>i j. 0 \<le> i \<and> i < j \<and> j < fc_count fc \<longrightarrow> glyph_cp fc i < glyph_cp fc j)"

lemma font_search_spec:
  assumes "font_sorted fc" "0 \<le> lo" "hi < fc_count fc"
  shows "case font_search fc cp lo hi of
      Some p \<Rightarrow> \<exists>i. lo \<le> i \<and> i \<le> hi \<and> p = 4 + i * 34 \<and> glyph_cp fc i = cp
    | None \<Rightarrow> \<forall>i. lo \<le> i \<and> i \<le> hi \<longrightarrow> glyph_cp fc i \<noteq> cp"
  using assms
proof (induction fc cp lo hi rule: font_search.induct)
  case (1 fc cp lo hi)
  show ?case
  proof (cases "lo \<le> hi")
    case True
    define mid where "mid = (lo + hi) sdiv 2"
    have m: "lo \<le> mid" "mid \<le> hi" using sdiv_2_bounds [OF True] by (simp_all add: mid_def)
    have s: "glyph_cp fc i < glyph_cp fc j" if "0 \<le> i" "i < j" "j < fc_count fc" for i j
      using "1.prems"(1) that by (simp add: font_sorted_def)
    consider "glyph_cp fc mid = cp" | "glyph_cp fc mid \<noteq> cp" "glyph_cp fc mid < cp" | "glyph_cp fc mid \<noteq> cp" "\<not> glyph_cp fc mid < cp" by blast
    then show ?thesis
    proof cases
      case a: 1
      then have "font_search fc cp lo hi = Some (4 + mid * 34)"
        using True by (subst font_search.simps) (simp add: Let_def mid_def)
      then show ?thesis using a m by auto
    next
      case a: 2
      then have e: "font_search fc cp lo hi = font_search fc cp (mid + 1) hi"
        using True by (subst font_search.simps) (simp add: Let_def mid_def)
      have low: "glyph_cp fc i \<noteq> cp" if "lo \<le> i" "i \<le> mid" for i
        using s [of i mid] a that m "1.prems" by (cases "i = mid") auto
      have IH: "case font_search fc cp (mid + 1) hi of
          Some p \<Rightarrow> \<exists>i. mid + 1 \<le> i \<and> i \<le> hi \<and> p = 4 + i * 34 \<and> glyph_cp fc i = cp
        | None \<Rightarrow> \<forall>i. mid + 1 \<le> i \<and> i \<le> hi \<longrightarrow> glyph_cp fc i \<noteq> cp"
        using "1.IH"(1) [OF True mid_def a "1.prems"(1)] "1.prems" m by simp
      show ?thesis
      proof (cases "font_search fc cp (mid + 1) hi")
        case None
        have "glyph_cp fc i \<noteq> cp" if "lo \<le> i" "i \<le> hi" for i
          using IH None low [of i] that by (cases "i \<le> mid") auto
        then show ?thesis unfolding e None by simp
      next
        case (Some p)
        with IH obtain i where "mid + 1 \<le> i" "i \<le> hi" "p = 4 + i * 34" "glyph_cp fc i = cp" by auto
        with m show ?thesis unfolding e Some by (auto intro!: exI [of _ i])
      qed
    next
      case a: 3
      then have e: "font_search fc cp lo hi = font_search fc cp lo (mid - 1)"
        using True by (subst font_search.simps) (simp add: Let_def mid_def)
      have high: "glyph_cp fc i \<noteq> cp" if "mid \<le> i" "i \<le> hi" for i
        using s [of mid i] a that m "1.prems" by (cases "i = mid") auto
      have IH: "case font_search fc cp lo (mid - 1) of
          Some p \<Rightarrow> \<exists>i. lo \<le> i \<and> i \<le> mid - 1 \<and> p = 4 + i * 34 \<and> glyph_cp fc i = cp
        | None \<Rightarrow> \<forall>i. lo \<le> i \<and> i \<le> mid - 1 \<longrightarrow> glyph_cp fc i \<noteq> cp"
        using "1.IH"(2) [OF True mid_def a "1.prems"(1)] "1.prems" m by simp
      show ?thesis
      proof (cases "font_search fc cp lo (mid - 1)")
        case None
        have "glyph_cp fc i \<noteq> cp" if "lo \<le> i" "i \<le> hi" for i
          using IH None high [of i] that by (cases "mid \<le> i") auto
        then show ?thesis unfolding e None by simp
      next
        case (Some p)
        with IH obtain i where "lo \<le> i" "i \<le> mid - 1" "p = 4 + i * 34" "glyph_cp fc i = cp" by auto
        with m show ?thesis unfolding e Some by (auto intro!: exI [of _ i])
      qed
    qed
  qed (auto simp: font_search.simps)
qed

section \<open>Properties\<close>

text \<open>C29. The rectangle fill, which clips first and then stores whole rows, leaves the same screen as
  setting every point of the unclipped rectangle one by one, in both supported pixel formats, for every rectangle whose
  right and lower edges do not overflow an \<open>int\<close>.\<close>

theorem fill_rect_pixelwise:
  assumes "gfx_wf g" "- (2 ^ 31) \<le> x" "w < 2 ^ 31" "x + w < 2 ^ 31" "- (2 ^ 31) \<le> y" "h < 2 ^ 31" "y + h < 2 ^ 31"
  shows "fill_rect x y w h color g = for_int h (\<lambda>dy. for_int w (\<lambda>dx. set_pixel (x + dx) (y + dy) color)) g"
  using fill_rect_ref [OF assms(1)] assms(2-) by (simp add: fill_ref_def fill_ok_def)

definition demo_gfx :: gfx where
  "demo_gfx = \<lparr>gx_fb = 0x100000, gx_w = 20, gx_h = 32, gx_pitch = 80, gx_bpp = 32, gx_cols = 2, gx_rows = 2, gx_cx = 1, gx_cy = 1,
     gx_fg = 15, gx_bg = 0, gx_palette = replicate 256 0xAA, gx_cur_x = 0, gx_cur_y = 0, gx_cur_save = replicate 64 0,
     gx_pix = (\<lambda>_. 0), gx_font = (\<lambda>_. 0x81), gx_cn = \<lparr>fc_loaded = True, fc_buf = (\<lambda>i. if i = 0 then 1 else if i = 2 then 0x2D else if i = 3 then 0x4E else 0), fc_count = 1\<rparr>\<rparr>"

lemma demo_gfx_wf: "gfx_wf demo_gfx" "text_ok demo_gfx"
  by (simp_all add: gfx_wf_def text_ok_def demo_gfx_def)

theorem fill_rect_pixelwise_witness:
  "fill_rect (- 2) 30 5 9 3 demo_gfx = for_int 9 (\<lambda>dy. for_int 5 (\<lambda>dx. set_pixel (- 2 + dx) (30 + dy) 3)) demo_gfx"
  by (rule fill_rect_pixelwise [OF demo_gfx_wf(1)]) simp_all

text \<open>A rectangle that starts on the screen and whose right edge overflows is not clipped at all: every point of its row is
  stored, wherever the offset leads.\<close>

lemma row_stores:
  "0 \<le> k \<Longrightarrow> k < n \<Longrightarrow> gx_pix (for_int n (\<lambda>dx g. g\<lparr>gx_pix := put4 (base + 4 * (x + dx)) c (gx_pix g)\<rparr>) g) (base + 4 * (x + k)) = ucast c"
proof -
  have "gx_pix (fold (\<lambda>i g. g\<lparr>gx_pix := put4 (base + 4 * (x + int i)) c (gx_pix g)\<rparr>) [0..<m] g) (base + 4 * (x + int j)) = ucast c"
    if "j < m" for j m
    using that
  proof (induction m)
    case (Suc m)
    then show ?case by (cases "j = m") (auto simp: put4_def)
  qed simp
  from this [of "nat k" "nat n"] show "0 \<le> k \<Longrightarrow> k < n \<Longrightarrow> ?thesis" by (simp add: for_int_def)
qed

theorem fill_rect_overflow:
  assumes "gx_bpp g = 32" "0 \<le> x" "x < gx_w g" "0 \<le> y" "y < gx_h g" "y < 2 ^ 31 - 1" "w < 2 ^ 31" "2 ^ 31 \<le> x + w" "0 \<le> k" "k < w" "x < 2 ^ 31"
  shows "gx_pix (fill_rect x y w 1 color g) (y * gx_pitch g + 4 * (x + k)) = ucast (gx_palette g ! unat color)"
proof -
  have i: "i32 (x + w) = x + w - 2 ^ 32" "i32 (y + 1) = y + 1" using assms by (simp_all add: i32_over i32_range)
  have "\<not> i32 (x + w) > gx_w g" "\<not> i32 (y + 1) > gx_h g" unfolding i using assms by simp_all
  then have "fill_rect x y w 1 color g =
      for_int w (\<lambda>dx ga. ga\<lparr>gx_pix := put4 (y * gx_pitch ga + 4 * (x + dx)) (gx_palette g ! unat color) (gx_pix ga)\<rparr>) g"
    using assms by (simp add: fill_rect_def for_int_def sdiv_pos)
  moreover have "for_int w (\<lambda>dx ga. ga\<lparr>gx_pix := put4 (y * gx_pitch ga + 4 * (x + dx)) (gx_palette g ! unat color) (gx_pix ga)\<rparr>) g =
      for_int w (\<lambda>dx g'. g'\<lparr>gx_pix := put4 (y * gx_pitch g + 4 * (x + dx)) (gx_palette g ! unat color) (gx_pix g')\<rparr>) g"
    by (rule for_int_cong [where P = "\<lambda>s. gx_pitch s = gx_pitch g \<and> gx_palette s = gx_palette g"]) simp_all
  ultimately show ?thesis using row_stores [OF assms(9,10)] by simp
qed

theorem fill_rect_overflow_witness:
  "\<not> stays demo_gfx (fill_rect 1 0 0x7FFFFFFF 1 3 demo_gfx)"
proof -
  have "gx_pix (fill_rect 1 0 0x7FFFFFFF 1 3 demo_gfx) (0 * gx_pitch demo_gfx + 4 * (1 + 999)) = ucast (gx_palette demo_gfx ! unat (3 :: u8))"
    by (rule fill_rect_overflow) (simp_all add: demo_gfx_def)
  then have "gx_pix (fill_rect 1 0 0x7FFFFFFF 1 3 demo_gfx) 4000 \<noteq> gx_pix demo_gfx 4000"
    by (simp add: demo_gfx_def)
  moreover have "gx_h demo_gfx * gx_pitch demo_gfx \<le> 4000" by (simp add: demo_gfx_def)
  ultimately show ?thesis unfolding stays_def by blast
qed



text \<open>C31. Printing any byte string as UTF-8 text, valid or not, writes only inside the frame buffer and leaves
  the text cursor on the screen, through wrapping, scrolling, tabs and backspaces.\<close>

theorem puts_utf8_safe:
  assumes "gfx_wf g" "text_ok g"
  shows "stays g (puts_utf8 s g) \<and> text_ok (puts_utf8 s g)"
  by (simp add: stays_puts_utf8 puts_utf8_text assms)

theorem puts_utf8_safe_witness:
  "stays demo_gfx (puts_utf8 [0xE4, 0xB8, 0xAD, 9, 0x41, 10, 0xE4] demo_gfx) \<and> text_ok (puts_utf8 [0xE4, 0xB8, 0xAD, 9, 0x41, 10, 0xE4] demo_gfx)"
  by (rule puts_utf8_safe [OF demo_gfx_wf])

text \<open>C32. Moving the mouse cursor leaves no trace: the picture without the cursor is the same before and after
  an update, whatever the mouse position, and the new box lies on the screen again.\<close>

theorem mcursor_update_no_trace:
  assumes "gfx_wf g" "8 \<le> gx_w g" "8 \<le> gx_h g" "cursor_on g (gx_cur_x g) (gx_cur_y g)"
  shows "picture (mcursor_update ms g) = picture g \<and>
    cursor_on (mcursor_update ms g) (gx_cur_x (mcursor_update ms g)) (gx_cur_y (mcursor_update ms g))"
  using mcursor_update_eq [OF assms] by simp

definition demo_mouse :: mouse where
  "demo_mouse = \<lparr>mx = 19, my = 2, mbtn = 0, cycle = 0, wheel_mode = False, pkt = [0, 0, 0, 0]\<rparr>"

theorem mcursor_update_no_trace_witness:
  "picture (mcursor_update demo_mouse demo_gfx) = picture demo_gfx"
proof -
  have "8 \<le> gx_w demo_gfx" "8 \<le> gx_h demo_gfx" "cursor_on demo_gfx (gx_cur_x demo_gfx) (gx_cur_y demo_gfx)"
    by (simp_all add: demo_gfx_def cursor_on_def)
  from mcursor_update_no_trace [OF demo_gfx_wf(1) this, of demo_mouse] show ?thesis by simp
qed

text \<open>On a font file sorted by code point, the binary search finds the bitmap of exactly the code points
  the file has.\<close>

theorem font_lookup_correct:
  assumes "fc_loaded fc" "font_sorted fc"
  shows "font_cn_lookup_impl cp fc = Some p \<longleftrightarrow> (\<exists>i. 0 \<le> i \<and> i < fc_count fc \<and> p = 4 + i * 34 \<and> glyph_cp fc i = cp)"
proof -
  have u: "i = j" if "0 \<le> i" "i < fc_count fc" "0 \<le> j" "j < fc_count fc" "glyph_cp fc i = glyph_cp fc j" for i j
    using assms(2) that unfolding font_sorted_def by (metis less_irrefl linorder_neqE)
  have "font_cn_lookup_impl cp fc = font_search fc cp 0 (fc_count fc - 1)" using assms(1) by (simp add: font_cn_lookup_impl_def)
  with font_search_spec [OF assms(2), of 0 "fc_count fc - 1" cp] show ?thesis
    by (cases "font_search fc cp 0 (fc_count fc - 1)") (auto dest: u)
qed

theorem font_lookup_correct_witness:
  "font_cn_lookup_impl 0x4E2D (gx_cn demo_gfx) = Some 4"
proof -
  have s: "font_sorted (gx_cn demo_gfx)" "fc_loaded (gx_cn demo_gfx)" by (auto simp: demo_gfx_def font_sorted_def)
  have c: "fc_count (gx_cn demo_gfx) = 1" "glyph_cp (gx_cn demo_gfx) 0 = 0x4E2D"
    by (simp_all add: demo_gfx_def glyph_cp_def word_cat_eq)
  have "\<exists>i. 0 \<le> i \<and> i < fc_count (gx_cn demo_gfx) \<and> 4 = 4 + i * 34 \<and> glyph_cp (gx_cn demo_gfx) i = 0x4E2D"
    using c by (intro exI [of _ 0]) simp
  then show ?thesis by (simp only: font_lookup_correct [OF s(2,1)])
qed

end
