(* ===== verification/XE_Fat12.thy ===== *)
theory XE_Fat12
  imports XE_Vfs XE_Bcache XE_Gfx "HOL-Library.Monad_Syntax"
begin

text \<open>
  The FAT12 filesystem: \<^verbatim>\<open>src/src/fs/fat12.h\<close> and \<^verbatim>\<open>src/src/fs/fat12.cpp\<close>.

  The state is the \<open>FatFilesystem\<close> object together with the block cache and the screen it works on.
  An operation returns \<open>None\<close> where it follows a cluster chain forever, divides by zero, or where its
  behaviour is undefined because it uses a buffer that no read has filled or accesses one past its
  end; everything else, error codes included, is \<open>Some\<close>. A directory entry is the list of its 32 bytes.
  The lemmas treat the packed 12-bit table as a map from clusters to values, short names, and long
  file names.
\<close>

unbundle bit_operations_syntax

section \<open>State\<close>

record 'd fatfs =
  fbuf :: "u8 list"
  start_sec :: int
  fat_secs :: int
  root_secs :: int
  data_sec :: int
  spc :: u16
  bps :: u16
  num_fat :: u8
  root_ents :: u16
  cur_dir_cluster :: u16
  cur_dir_name :: "u8 list"
  lfn_u16 :: "u16 list"
  lfn_chars :: nat
  lfn_total :: u8
  lfn_cksum :: u8
  lfn_have :: bool
  lfn_ok :: bool
  fbc :: "'d bcache"
  fscr :: gfx
  stack_tail :: cstr

text \<open>\<open>stack_tail\<close>: the bytes that follow the nine characters of \<open>ss\<close> in \<open>dir\<close>, up to the next NUL.\<close>

definition cstr_of :: "u8 list \<Rightarrow> cstr" where
  "cstr_of b = takeWhile (\<lambda>c. c \<noteq> 0) b"

definition put_at :: "nat \<Rightarrow> u8 list \<Rightarrow> u8 list \<Rightarrow> u8 list" where
  "put_at i new b = take i b @ new @ drop (i + length new) b"

definition bytes16 :: "u16 \<Rightarrow> u8 list" where
  "bytes16 v = [ucast v, ucast (drop_bit 8 v)]"

definition bytes32 :: "u32 \<Rightarrow> u8 list" where
  "bytes32 v = [ucast v, ucast (drop_bit 8 v), ucast (drop_bit 16 v), ucast (drop_bit 24 v)]"

definition fat_read :: "'d blkio \<Rightarrow> int \<Rightarrow> 'd fatfs \<Rightarrow> (int \<times> u8 list) \<times> 'd fatfs" where
  "fat_read io lba s = (case bc_read io (of_int lba) 1 (fbc s) of (rb, c) \<Rightarrow> (rb, s\<lparr>fbc := c\<rparr>))"

definition fat_write :: "'d blkio \<Rightarrow> int \<Rightarrow> u8 \<Rightarrow> u8 list \<Rightarrow> 'd fatfs \<Rightarrow> int \<times> 'd fatfs" where
  "fat_write io lba n bs s = (case bc_write io (of_int lba) n bs (fbc s) of (r, c) \<Rightarrow> (r, s\<lparr>fbc := c\<rparr>))"

section \<open>The allocation table\<close>

definition read_root_sec :: "'d blkio \<Rightarrow> int \<Rightarrow> 'd fatfs \<Rightarrow> (int \<times> u8 list) \<times> 'd fatfs" where
  "read_root_sec io sector s = fat_read io (root_secs s + sector) s"

definition write_root_sec :: "'d blkio \<Rightarrow> int \<Rightarrow> u8 list \<Rightarrow> 'd fatfs \<Rightarrow> int \<times> 'd fatfs" where
  "write_root_sec io sector src s = fat_write io (root_secs s + sector) 1 src s"

text \<open>Byte offset of an entry in the table, and the entry inside the 16 bits found there.\<close>

definition fat_off :: "u16 \<Rightarrow> nat" where
  "fat_off cl = unat cl + unat cl div 2"

definition fat_val :: "u16 \<Rightarrow> u16 \<Rightarrow> u16" where
  "fat_val cl v = (if cl AND 1 \<noteq> 0 then drop_bit 4 v else v AND 0xFFF)"

definition fat_new :: "u16 \<Rightarrow> u16 \<Rightarrow> u16 \<Rightarrow> u16" where
  "fat_new cl v x = (if cl AND 1 \<noteq> 0 then (v AND 0x000F) OR push_bit 4 (x AND 0xFFF) else (v AND 0xF000) OR (x AND 0xFFF))"

definition next_cluster :: "'d blkio \<Rightarrow> u16 \<Rightarrow> 'd fatfs \<Rightarrow> (u16 \<times> 'd fatfs) option" where
  "next_cluster io cl s =
     (case fat_read io (start_sec s + int (fat_off cl div 512)) s of ((r, b), s1) \<Rightarrow>
        let pos = fat_off cl mod 512 in
        if r \<noteq> 0 \<or> length b \<le> pos + 1 then None else Some (fat_val cl (le16 b pos), s1))"

definition read_fat_entry :: "'d blkio \<Rightarrow> u16 \<Rightarrow> 'd fatfs \<Rightarrow> (u16 \<times> 'd fatfs) option" where
  "read_fat_entry io cl s =
     (case fat_read io (start_sec s + int (fat_off cl div 512)) s of ((r, b), s1) \<Rightarrow>
        let pos = fat_off cl mod 512 in
        if r \<noteq> 0 \<or> length b \<le> pos + 1 then None else Some (fat_val cl (le16 b pos), s1))"

definition write_fat_entry :: "'d blkio \<Rightarrow> u16 \<Rightarrow> u16 \<Rightarrow> 'd fatfs \<Rightarrow> 'd fatfs option" where
  "write_fat_entry io cl x s =
     (let sec = int (fat_off cl div 512); pos = fat_off cl mod 512 in
      case fat_read io (start_sec s + sec) s of ((r, b), s1) \<Rightarrow>
        if r \<noteq> 0 \<or> length b \<le> pos + 1 then None
        else let b1 = put_at pos (bytes16 (fat_new cl (le16 b pos) x)) b;
                 s2 = snd (fat_write io (start_sec s1 + sec) 1 b1 s1)
             in Some (fold (\<lambda>i s. snd (fat_write io (start_sec s + int i * fat_secs s + sec) 1 b1 s)) [1..<unat (num_fat s2)] s2))"

section \<open>Names\<close>

definition sanitize :: "u8 \<Rightarrow> u8" where
  "sanitize c = (if c < 0x20 \<or> 0x7E < c then 0x3F else c)"

definition name83_to_str :: "u8 list \<Rightarrow> cstr" where
  "name83_to_str e =
     (let n = takeWhile (\<lambda>c. c \<noteq> 0x20) (take 8 e) @ [0x2E] @ takeWhile (\<lambda>c. c \<noteq> 0x20) (take 3 (drop 8 e))
      in map sanitize (if last n = 0x2E then butlast n else n))"

definition conv83 :: "u8 \<Rightarrow> u8" where
  "conv83 c = (let u = upcase c in if u < 0x20 \<or> 0x7E < u then 0x5F else u)"

definition pad_to :: "nat \<Rightarrow> u8 list \<Rightarrow> u8 list" where
  "pad_to n xs = xs @ replicate (n - length xs) 0x20"

definition str_to_name83 :: "cstr \<Rightarrow> u8 list" where
  "str_to_name83 name =
     (let base = take 8 (takeWhile (\<lambda>c. c \<noteq> 0x2E) name);
          si = length base;
          ext = (if chr_at name si = 0x2E then take 3 (drop (si + 1) name) else [])
      in pad_to 8 (map conv83 base) @ pad_to 3 (map conv83 ext))"

definition lfn_cksum_of :: "u8 list \<Rightarrow> u8" where
  "lfn_cksum_of short83 = fold (\<lambda>c sum. push_bit 7 (sum AND 1) + drop_bit 1 sum + c) (take 11 short83) 0"

fun name_match :: "cstr \<Rightarrow> cstr \<Rightarrow> bool" where
  "name_match (a # as) (b # bs) = (upcase a = upcase b \<and> name_match as bs)"
| "name_match as bs = (as = [] \<and> bs = [])"

definition scan_reset :: "'d fatfs \<Rightarrow> 'd fatfs" where
  "scan_reset s = s\<lparr>lfn_chars := 0, lfn_total := 0, lfn_cksum := 0, lfn_have := False, lfn_ok := False\<rparr>"

definition lfn_offs :: "nat list" where
  "lfn_offs = [1, 3, 5, 7, 9, 14, 16, 18, 20, 22, 24, 28, 30]"

definition lfn_end :: "u16 list \<Rightarrow> nat \<Rightarrow> nat \<Rightarrow> nat" where
  "lfn_end arr base en = (case find (\<lambda>i. arr ! i = 0 \<or> arr ! i = 0xFFFF) [base..<en] of None \<Rightarrow> en | Some i \<Rightarrow> i)"

text \<open>One slot of a long name: whether the entry was one, and the name assembled so far.\<close>

definition lfn_absorb :: "u8 list \<Rightarrow> 'd fatfs \<Rightarrow> bool \<times> 'd fatfs" where
  "lfn_absorb e s =
     (if e ! 0 = 0xE5 then (False, s\<lparr>lfn_have := False\<rparr>)
      else if (e ! 11) AND 0x3F \<noteq> 0x0F then (False, s)
      else
        let seq = (e ! 0) AND 0x3F;
            s1 = (if (e ! 0) AND 0x40 \<noteq> 0
                  then s\<lparr>lfn_total := seq, lfn_cksum := e ! 13, lfn_have := True, lfn_ok := (1 \<le> seq \<and> seq \<le> 20),
                         lfn_chars := 0, lfn_u16 := replicate 260 0\<rparr>
                  else s)
        in if \<not> lfn_have s1 \<or> \<not> lfn_ok s1 \<or> seq < 1 \<or> lfn_total s1 < seq then (True, s1)
           else
             let base = (unat seq - 1) * 13;
                 arr = fold (\<lambda>i a. if base + i < 260 then a[base + i := le16 e (lfn_offs ! i)] else a) [0..<13] (lfn_u16 s1);
                 s2 = s1\<lparr>lfn_u16 := arr\<rparr>
             in (True, if seq = lfn_total s2
                       then s2\<lparr>lfn_chars := lfn_end arr base (min (unat (lfn_total s2) * 13) 260)\<rparr> else s2))"

definition utf8_of :: "u32 \<Rightarrow> u8 list" where
  "utf8_of cp =
     (if cp < 0x80 then [ucast cp]
      else if cp < 0x800 then [ucast (0xC0 OR drop_bit 6 cp), ucast (0x80 OR (cp AND 0x3F))]
      else if cp < 0x10000 then [ucast (0xE0 OR drop_bit 12 cp), ucast (0x80 OR (drop_bit 6 cp AND 0x3F)), ucast (0x80 OR (cp AND 0x3F))]
      else [ucast (0xF0 OR drop_bit 18 cp), ucast (0x80 OR (drop_bit 12 cp AND 0x3F)), ucast (0x80 OR (drop_bit 6 cp AND 0x3F)),
            ucast (0x80 OR (cp AND 0x3F))])"

text \<open>The first code point of a UTF-16 sequence and what follows it.\<close>

fun utf16_head :: "u16 list \<Rightarrow> u32 \<times> u16 list" where
  "utf16_head (u # v # us) =
     (if 0xD800 \<le> u \<and> u \<le> 0xDBFF \<and> 0xDC00 \<le> v \<and> v \<le> 0xDFFF
      then (0x10000 + push_bit 10 (ucast (u - 0xD800)) + ucast (v - 0xDC00), us)
      else (ucast u, v # us))"
| "utf16_head us = (ucast (hd us), tl us)"

lemma utf16_head_shorter: "us \<noteq> [] \<Longrightarrow> length (snd (utf16_head us)) < length us"
  by (cases us rule: utf16_head.cases) auto

text \<open>The bytes the loop of \<open>entry_name\<close> stores from position \<open>n\<close> on.\<close>

function lfn_bytes :: "nat \<Rightarrow> nat \<Rightarrow> u16 list \<Rightarrow> u8 list" where
  "lfn_bytes lim n us =
     (if us \<noteq> [] \<and> n + 4 < lim
      then let bs = utf8_of (fst (utf16_head us)) in bs @ lfn_bytes lim (n + length bs) (snd (utf16_head us))
      else [])"
  by pat_completeness auto
termination by (relation "measure (\<lambda>(lim, n, us). length us)") (auto dest: utf16_head_shorter)

declare lfn_bytes.simps [simp del]

definition entry_name :: "u8 list \<Rightarrow> nat \<Rightarrow> 'd fatfs \<Rightarrow> cstr \<times> 'd fatfs" where
  "entry_name e lim s =
     (let use_lfn = (lfn_have s \<and> lfn_ok s \<and> 0 < lfn_chars s \<and> lfn_cksum s = lfn_cksum_of e);
          s1 = s\<lparr>lfn_have := False\<rparr>
      in (if \<not> use_lfn \<or> lim < 8 then name83_to_str e else cstr_of (lfn_bytes lim 0 (take (lfn_chars s) (lfn_u16 s))), s1))"

definition entry_match :: "u8 list \<Rightarrow> cstr \<Rightarrow> 'd fatfs \<Rightarrow> bool \<times> 'd fatfs" where
  "entry_match e want s =
     (case entry_name e 64 s of (disp, s1) \<Rightarrow> (name_match disp want \<or> name_match (name83_to_str e) want, s1))"

section \<open>The current directory\<close>

definition in_chain :: "u16 \<Rightarrow> bool" where
  "in_chain cl = (2 \<le> cl \<and> cl < 0xFF0)"

definition cluster_lba :: "u16 \<Rightarrow> 'd fatfs \<Rightarrow> int" where
  "cluster_lba cl s = data_sec s + (uint cl - 2) * uint (spc s)"

partial_function (option) chain_secs :: "'d blkio \<Rightarrow> u16 \<Rightarrow> int \<Rightarrow> 'd fatfs \<Rightarrow> (int \<times> 'd fatfs) option" where
  "chain_secs io cl n s =
     (if in_chain cl
      then (case next_cluster io cl s of None \<Rightarrow> None | Some (nx, s1) \<Rightarrow> chain_secs io nx (n + uint (spc s)) s1)
      else Some (n, s))"

definition curdir_secs :: "'d blkio \<Rightarrow> 'd fatfs \<Rightarrow> (int \<times> 'd fatfs) option" where
  "curdir_secs io s =
     (if cur_dir_cluster s = 0 then Some (data_sec s - root_secs s, s) else chain_secs io (cur_dir_cluster s) 0 s)"

text \<open>The walk to the cluster that holds sector \<open>idx\<close> of the directory; the chain may end before it.\<close>

partial_function (option) seek_cluster :: "'d blkio \<Rightarrow> u16 \<Rightarrow> int \<Rightarrow> 'd fatfs \<Rightarrow> ((u16 \<times> int) option \<times> 'd fatfs) option" where
  "seek_cluster io cl idx s =
     (if uint (spc s) \<le> idx
      then (case next_cluster io cl s of None \<Rightarrow> None
            | Some (nx, s1) \<Rightarrow> if nx < 2 \<or> 0xFF0 \<le> nx then Some (None, s1) else seek_cluster io nx (idx - uint (spc s)) s1)
      else Some (Some (cl, idx), s))"

definition set_buf :: "(int \<times> u8 list) \<times> 'd fatfs \<Rightarrow> int \<times> 'd fatfs" where
  "set_buf x = (case x of ((r, b), s) \<Rightarrow> (r, if r = 0 then s\<lparr>fbuf := b\<rparr> else s))"

definition read_curdir :: "'d blkio \<Rightarrow> int \<Rightarrow> 'd fatfs \<Rightarrow> (int \<times> 'd fatfs) option" where
  "read_curdir io sec_idx s =
     (if cur_dir_cluster s = 0 then Some (set_buf (read_root_sec io sec_idx s))
      else do {
        (p, s1) \<leftarrow> seek_cluster io (cur_dir_cluster s) sec_idx s;
        case p of None \<Rightarrow> Some (- 1, s1)
        | Some (cl, idx) \<Rightarrow> Some (set_buf (fat_read io (cluster_lba cl s1 + idx) s1)) })"

definition write_curdir :: "'d blkio \<Rightarrow> int \<Rightarrow> 'd fatfs \<Rightarrow> (int \<times> 'd fatfs) option" where
  "write_curdir io sec_idx s =
     (if cur_dir_cluster s = 0 then Some (write_root_sec io sec_idx (fbuf s) s)
      else do {
        (p, s1) \<leftarrow> seek_cluster io (cur_dir_cluster s) sec_idx s;
        case p of None \<Rightarrow> Some (- 1, s1)
        | Some (cl, idx) \<Rightarrow> Some (fat_write io (cluster_lba cl s1 + idx) 1 (fbuf s1) s1) })"

section \<open>Mounting and cluster allocation\<close>

definition fat_init :: "'d blkio \<Rightarrow> 'd fatfs \<Rightarrow> (int \<times> 'd fatfs) option" where
  "fat_init io s0 =
     (case set_buf (fat_read io 0 s0) of (r, s) \<Rightarrow>
        if r \<noteq> 0 then Some (- 1, s)
        else
          let b = fbuf s; bp = le16 b 11; reserved = uint (le16 b 14); nf = byte_at b 16;
              re = le16 b 17; fsz = uint (le16 b 22); root = reserved + uint nf * fsz;
              s1 = s\<lparr>bps := bp, spc := ucast (byte_at b 13), num_fat := nf, root_ents := re, start_sec := reserved,
                     fat_secs := fsz, root_secs := root\<rparr>
          in if bp = 0 then None
             else Some (0, s1\<lparr>data_sec := root + (uint re * 32 + uint bp - 1) div uint bp\<rparr>))"

fun free_scan :: "'d blkio \<Rightarrow> u16 list \<Rightarrow> 'd fatfs \<Rightarrow> (u16 \<times> 'd fatfs) option" where
  "free_scan io [] s = Some (0, s)"
| "free_scan io (cl # cls) s = do { (v, s1) \<leftarrow> read_fat_entry io cl s; if v = 0 then Some (cl, s1) else free_scan io cls s1 }"

text \<open>The bound is computed as an \<open>int\<close> and cut to 16 bits.\<close>

definition max_cluster :: "'d fatfs \<Rightarrow> u16" where
  "max_cluster s = of_int ((fat_secs s * 512 * 2) div 3)"

definition find_free_cluster :: "'d blkio \<Rightarrow> 'd fatfs \<Rightarrow> (u16 \<times> 'd fatfs) option" where
  "find_free_cluster io s = free_scan io (map of_nat [2..<unat (max_cluster s)]) s"

definition alloc_cluster :: "'d blkio \<Rightarrow> 'd fatfs \<Rightarrow> (u16 \<times> 'd fatfs) option" where
  "alloc_cluster io s =
     do { (cl, s1) \<leftarrow> find_free_cluster io s;
          if cl = 0 then Some (0, s1) else do { s2 \<leftarrow> write_fat_entry io cl 0xFFF s1; Some (cl, s2) } }"

definition set_cluster :: "'d blkio \<Rightarrow> u16 \<Rightarrow> u16 \<Rightarrow> 'd fatfs \<Rightarrow> 'd fatfs option" where
  "set_cluster io cluster v s = write_fat_entry io cluster v s"

text \<open>\<open>while (cl >= 2 && cl < 0xFF0) ... write_fat_entry(cl, 0)\<close>\<close>

partial_function (option) free_chain :: "'d blkio \<Rightarrow> u16 \<Rightarrow> 'd fatfs \<Rightarrow> 'd fatfs option" where
  "free_chain io cl s =
     (if in_chain cl
      then (case next_cluster io cl s of None \<Rightarrow> None
            | Some (nx, s1) \<Rightarrow> (case write_fat_entry io cl 0 s1 of None \<Rightarrow> None | Some s2 \<Rightarrow> free_chain io nx s2))
      else Some s)"

section \<open>Directory scans\<close>

text \<open>The nested loops over sectors and entries. The body of the inner loop leaves the function with
  \<open>Some r\<close> or goes on with \<open>None\<close>; \<open>fail\<close> is what a failed sector read does.\<close>

fun scan_entries :: "(nat \<Rightarrow> 's \<Rightarrow> ('a option \<times> 's) option) \<Rightarrow> nat list \<Rightarrow> 's \<Rightarrow> ('a option \<times> 's) option" where
  "scan_entries body [] s = Some (None, s)"
| "scan_entries body (j # js) s =
     do { (r, s1) \<leftarrow> body j s; case r of Some x \<Rightarrow> Some (Some x, s1) | None \<Rightarrow> scan_entries body js s1 }"

definition entry_offs :: "nat list" where
  "entry_offs = map (\<lambda>i. 32 * i) [0..<16]"

fun scan_secs :: "(nat \<Rightarrow> 's \<Rightarrow> (int \<times> 's) option) \<Rightarrow> 'a option \<Rightarrow> (nat \<Rightarrow> nat \<Rightarrow> 's \<Rightarrow> ('a option \<times> 's) option) \<Rightarrow> nat list \<Rightarrow> 's \<Rightarrow>
    ('a option \<times> 's) option" where
  "scan_secs getsec fail body [] s = Some (None, s)"
| "scan_secs getsec fail body (k # ks) s =
     do { (r, s1) \<leftarrow> getsec k s;
          if r \<noteq> 0 then Some (fail, s1)
          else do { (x, s2) \<leftarrow> scan_entries (body k) entry_offs s1;
                    case x of Some y \<Rightarrow> Some (Some y, s2) | None \<Rightarrow> scan_secs getsec fail body ks s2 } }"

definition ent :: "nat \<Rightarrow> 'd fatfs \<Rightarrow> u8 list" where
  "ent j s = take 32 (drop j (fbuf s))"

text \<open>The head of most loop bodies: stop at a free entry, skip long-name slots, deleted entries and
  volume labels.\<close>

definition visit :: "'a \<Rightarrow> (u8 list \<Rightarrow> 'd fatfs \<Rightarrow> ('a option \<times> 'd fatfs) option) \<Rightarrow> nat \<Rightarrow> 'd fatfs \<Rightarrow> ('a option \<times> 'd fatfs) option" where
  "visit endr act j s =
     (let e = ent j s in
      if e ! 0 = 0 then Some (Some endr, s)
      else case lfn_absorb e s of (lfn, s1) \<Rightarrow>
        if lfn \<or> e ! 0 = 0xE5 \<or> (e ! 11) AND 0x08 \<noteq> 0 then Some (None, s1) else act e s1)"

text \<open>A scan of the current directory, from the number of its sectors on.\<close>

definition scan_dir :: "'d blkio \<Rightarrow> 'a option \<Rightarrow> (nat \<Rightarrow> nat \<Rightarrow> 'd fatfs \<Rightarrow> ('a option \<times> 'd fatfs) option) \<Rightarrow> 'a \<Rightarrow> 'd fatfs \<Rightarrow> ('a \<times> 'd fatfs) option" where
  "scan_dir io fail body dflt s =
     do { (maxs, s1) \<leftarrow> curdir_secs io s;
          (r, s2) \<leftarrow> scan_secs (\<lambda>k. read_curdir io (int k)) fail body [0..<nat maxs] (scan_reset s1);
          Some (case r of Some x \<Rightarrow> x | None \<Rightarrow> dflt, s2) }"

definition is_subdir :: "u8 list \<Rightarrow> bool" where
  "is_subdir e = ((e ! 11) AND 0x10 \<noteq> 0)"

section \<open>Reading files\<close>

text \<open>The sectors of one cluster: buffer, offset and remaining length.\<close>

fun read_cluster :: "'d blkio \<Rightarrow> int \<Rightarrow> nat list \<Rightarrow> u8 list \<Rightarrow> nat \<Rightarrow> u32 \<Rightarrow> 'd fatfs \<Rightarrow> ((u8 list \<times> nat \<times> u32) \<times> 'd fatfs) option" where
  "read_cluster io lba [] buf off remain s = Some ((buf, off, remain), s)"
| "read_cluster io lba (k # ks) buf off remain s =
     (if remain = 0 then Some ((buf, off, remain), s)
      else case fat_read io (lba + int k) s of ((r, sb), s1) \<Rightarrow>
        if r \<noteq> 0 then Some ((buf, off, remain), s1)
        else
          let n0 = (if remain < ucast (bps s1) then remain else ucast (bps s1));
              n = (if n0 > 512 then 512 else n0)
          in if off + unat n > length buf \<or> length sb < unat n then None
             else read_cluster io lba ks (put_at off (take (unat n) sb) buf) (off + unat n) (remain - n) s1)"

partial_function (option) read_chain :: "'d blkio \<Rightarrow> u16 \<Rightarrow> u8 list \<Rightarrow> nat \<Rightarrow> u32 \<Rightarrow> 'd fatfs \<Rightarrow> (u8 list \<times> 'd fatfs) option" where
  "read_chain io cl buf off remain s =
     (if in_chain cl \<and> remain \<noteq> 0
      then (case read_cluster io (cluster_lba cl s) [0..<unat (spc s)] buf off remain s of None \<Rightarrow> None
            | Some ((buf1, off1, remain1), s1) \<Rightarrow>
                (case next_cluster io cl s1 of None \<Rightarrow> None | Some (nx, s2) \<Rightarrow> read_chain io nx buf1 off1 remain1 s2))
      else Some (buf, s))"

definition open_entry :: "'d blkio \<Rightarrow> cstr \<Rightarrow> u8 list \<Rightarrow> u32 \<Rightarrow> u8 list \<Rightarrow> 'd fatfs \<Rightarrow> ((int \<times> u8 list) option \<times> 'd fatfs) option" where
  "open_entry io name buf max_len e s =
     (if is_subdir e then Some (None, s)
      else case entry_match e name s of (m, s1) \<Rightarrow>
        if \<not> m then Some (None, s1)
        else
          let size = le32 e 28; remain = (if size < max_len then size else max_len)
          in do { (buf1, s2) \<leftarrow> read_chain io (le16 e 26) buf 0 remain s1; Some (Some (sint size, buf1), s2) })"

definition fat_open :: "'d blkio \<Rightarrow> cstr \<Rightarrow> u8 list \<Rightarrow> u32 \<Rightarrow> 'd fatfs \<Rightarrow> ((int \<times> u8 list) \<times> 'd fatfs) option" where
  "fat_open io name buf max_len s =
     scan_dir io None (\<lambda>_. visit (- 1, buf) (open_entry io name buf max_len)) (- 1, buf) s"

definition stat_entry :: "cstr \<Rightarrow> u8 list \<Rightarrow> 'd fatfs \<Rightarrow> ((int \<times> int) option \<times> 'd fatfs) option" where
  "stat_entry name e s =
     (case entry_match e name s of (m, s1) \<Rightarrow>
        Some (if m then Some (sint (le32 e 28), if is_subdir e then 1 else 0) else None, s1))"

definition fat_stat :: "'d blkio \<Rightarrow> cstr \<Rightarrow> 'd fatfs \<Rightarrow> ((int \<times> int) \<times> 'd fatfs) option" where
  "fat_stat io name s = scan_dir io (Some (- 1, 0)) (\<lambda>_. visit (- 1, 0) (stat_entry name)) (- 1, 0) s"

text \<open>\<open>cat\<close>: \<open>db\<close> is the buffer, \<open>None\<close> until a read has filled it; a terminator past its 513 bytes is an
  access out of bounds.\<close>

partial_function (option) cat_chain :: "'d blkio \<Rightarrow> u16 \<Rightarrow> u32 \<Rightarrow> u8 list option \<Rightarrow> 'd fatfs \<Rightarrow> 'd fatfs option" where
  "cat_chain io cl remain db s =
     (if in_chain cl \<and> remain \<noteq> 0
      then (case fat_read io (cluster_lba cl s) s of ((r, b), s1) \<Rightarrow>
        let db1 = (if r = 0 then Some b else db);
            c0 = ucast (spc s1) * ucast (bps s1);
            chunk = (if c0 > remain then remain else c0)
        in case db1 of None \<Rightarrow> None
           | Some d \<Rightarrow>
               if chunk > 512 then None
               else case next_cluster io cl (s1\<lparr>fscr := puts_utf8 (cstr_of (take (unat chunk) d)) (fscr s1)\<rparr>) of None \<Rightarrow> None
                    | Some (nx, s2) \<Rightarrow> cat_chain io nx (remain - chunk) (Some (put_at (unat chunk) [0] d)) s2)
      else Some s)"

definition fat_cat :: "'d blkio \<Rightarrow> cstr \<Rightarrow> 'd fatfs \<Rightarrow> (int \<times> 'd fatfs) option" where
  "fat_cat io name s =
     scan_dir io None (\<lambda>_. visit (- 1) (\<lambda>e s.
       if is_subdir e then Some (None, s)
       else case entry_match e name s of (m, s1) \<Rightarrow>
         if \<not> m then Some (None, s1)
         else do { s2 \<leftarrow> cat_chain io (le16 e 26) (le32 e 28) None s1; Some (Some 0, s2) })) (- 1) s"

section \<open>Writing files\<close>

text \<open>The search of \<open>write\<close> for the entry to use; the state carries \<open>free_entry\<close>.\<close>

definition write_entry :: "'d blkio \<Rightarrow> cstr \<Rightarrow> nat \<Rightarrow> nat \<Rightarrow> int \<times> 'd fatfs \<Rightarrow> (int option \<times> int \<times> 'd fatfs) option" where
  "write_entry io name k j st =
     (case st of (fe, s) \<Rightarrow>
        let e = ent j s; here = int k * 512 + int j;
            fe1 = (if fe < 0 \<and> (e ! 0 = 0xE5 \<or> e ! 0 = 0) then here else fe)
        in if e ! 0 = 0 then Some (Some 0, fe1, s)
           else case lfn_absorb e s of (lfn, s1) \<Rightarrow>
             if lfn \<or> e ! 0 = 0xE5 \<or> (e ! 11) AND 0x08 \<noteq> 0 then Some (None, fe1, s1)
             else case entry_match e name s1 of (m, s2) \<Rightarrow>
               if \<not> m then Some (None, fe1, s2)
               else do { s3 \<leftarrow> free_chain io (le16 e 26) s2; Some (Some 0, here, s3) })"

definition find_entry :: "'d blkio \<Rightarrow> cstr \<Rightarrow> nat \<Rightarrow> 'd fatfs \<Rightarrow> (int option \<times> int \<times> 'd fatfs) option" where
  "find_entry io name maxs s =
     scan_secs (\<lambda>k st. case st of (fe, s) \<Rightarrow> map_option (\<lambda>(r, s1). (r, fe, s1)) (read_curdir io (int k) s))
       (Some (- 3)) (write_entry io name) [0..<maxs] (- 1, s)"

text \<open>The new chain: its first cluster, or \<open>None\<close> after the clusters taken so far were given back.\<close>

fun alloc_chain :: "'d blkio \<Rightarrow> nat \<Rightarrow> u16 \<Rightarrow> u16 \<Rightarrow> 'd fatfs \<Rightarrow> (u16 option \<times> 'd fatfs) option" where
  "alloc_chain io 0 first prev s = Some (Some first, s)"
| "alloc_chain io (Suc n) first prev s =
     do { (cl, s1) \<leftarrow> alloc_cluster io s;
          if cl = 0 then do { s2 \<leftarrow> free_chain io first s1; Some (None, s2) }
          else do { s2 \<leftarrow> (if prev \<noteq> 0 then write_fat_entry io prev cl s1 else Some s1);
                    alloc_chain io n (if first = 0 then cl else first) cl s2 } }"

partial_function (option) write_chain :: "'d blkio \<Rightarrow> u16 \<Rightarrow> u32 \<Rightarrow> u8 list \<Rightarrow> u32 \<Rightarrow> 'd fatfs \<Rightarrow> 'd fatfs option" where
  "write_chain io cl written data sz s =
     (if in_chain cl \<and> written < sz
      then (let c0 = ucast (spc s) * ucast (bps s);
                chunk = (if c0 > sz - written then sz - written else c0);
                sec_count = (chunk + ucast (bps s) - 1) div ucast (bps s);
                src = drop (unat written) data
            in if bps s = 0 then None
               else if sec_count > 0 \<and> length src < 512 * unat (ucast sec_count :: u8) then None
               else case next_cluster io cl (if sec_count > 0 then snd (fat_write io (cluster_lba cl s) (ucast sec_count) src s) else s) of
                      None \<Rightarrow> None
                    | Some (nx, s2) \<Rightarrow> write_chain io nx (written + chunk) data sz s2)
      else Some s)"

definition file_entry :: "u8 list \<Rightarrow> u8 \<Rightarrow> u16 \<Rightarrow> u32 \<Rightarrow> nat \<Rightarrow> u8 list \<Rightarrow> u8 list" where
  "file_entry fname attr cl sz off b =
     put_at (off + 28) (bytes32 sz) (put_at (off + 26) (bytes16 cl) (put_at off (fname @ [attr]) b))"

definition fat_write_file :: "'d blkio \<Rightarrow> cstr \<Rightarrow> u8 list \<Rightarrow> u32 \<Rightarrow> 'd fatfs \<Rightarrow> (int \<times> 'd fatfs) option" where
  "fat_write_file io name data sz s0 =
     do { (maxs, s1) \<leftarrow> curdir_secs io s0;
          (r, fe, s2) \<leftarrow> find_entry io name (nat maxs) (scan_reset s1);
          if r = Some (- 3) then Some (- 3, s2)
          else if fe < 0 then Some (- 4, s2)
          else
            let cb = ucast (spc s2) * ucast (bps s2) :: u32 in
            if cb = 0 then None
            else do {
              (fc, s3) \<leftarrow> alloc_chain io (unat ((sz + cb - 1) div cb)) 0 0 s2;
              case fc of None \<Rightarrow> Some (- 5, s3)
              | Some first \<Rightarrow> do {
                  s4 \<leftarrow> write_chain io first 0 data sz s3;
                  (r2, s5) \<leftarrow> read_curdir io (fe div 512) s4;
                  if r2 \<noteq> 0 then Some (- 3, s5)
                  else do {
                    (_, s6) \<leftarrow> write_curdir io (fe div 512)
                      (s5\<lparr>fbuf := file_entry (str_to_name83 name) 0x20 first sz (nat (fe mod 512)) (fbuf s5)\<rparr>);
                    Some (0, s6) } } } }"

section \<open>Removing and renaming\<close>

text \<open>Mark the entry at \<open>j\<close> deleted and write the sector back.\<close>

definition delete_entry :: "'d blkio \<Rightarrow> nat \<Rightarrow> nat \<Rightarrow> 'd fatfs \<Rightarrow> (int option \<times> 'd fatfs) option" where
  "delete_entry io k j s = map_option (\<lambda>(_, s1). (Some 0, s1)) (write_curdir io (int k) (s\<lparr>fbuf := (fbuf s)[j := 0xE5]\<rparr>))"

definition fat_remove :: "'d blkio \<Rightarrow> cstr \<Rightarrow> 'd fatfs \<Rightarrow> (int \<times> 'd fatfs) option" where
  "fat_remove io name s =
     scan_dir io (Some (- 1)) (\<lambda>k j. visit (- 1) (\<lambda>e s.
       case entry_match e name s of (m, s1) \<Rightarrow>
         if \<not> m then Some (None, s1)
         else do { s2 \<leftarrow> free_chain io (le16 e 26) s1; delete_entry io k j s2 }) j) (- 1) s"

text \<open>The first sector of a directory holds nothing besides its two own entries.\<close>

fun empty_check :: "nat list \<Rightarrow> u8 list \<Rightarrow> bool" where
  "empty_check [] b = True"
| "empty_check (k # ks) b =
     (if byte_at b k \<noteq> 0 \<and> byte_at b k \<noteq> 0xE5 then False else if byte_at b k = 0 then True else empty_check ks b)"

definition fat_rmdir :: "'d blkio \<Rightarrow> cstr \<Rightarrow> 'd fatfs \<Rightarrow> (int \<times> 'd fatfs) option" where
  "fat_rmdir io name s =
     scan_dir io None (\<lambda>k j. visit (- 1) (\<lambda>e s.
       if \<not> is_subdir e then Some (None, s)
       else case entry_match e name s of (m, s1) \<Rightarrow>
         if \<not> m then Some (None, s1)
         else case fat_read io (cluster_lba (le16 e 26) s1) s1 of ((r, check), s2) \<Rightarrow>
           if r \<noteq> 0 then None
           else if \<not> empty_check (drop 2 entry_offs) check then Some (Some (- 2), s2)
           else do { s3 \<leftarrow> free_chain io (le16 e 26) s2; delete_entry io k j s3 }) j) (- 1) s"

definition fat_rename :: "'d blkio \<Rightarrow> cstr \<Rightarrow> cstr \<Rightarrow> 'd fatfs \<Rightarrow> (int \<times> 'd fatfs) option" where
  "fat_rename io old_name new_name s =
     scan_dir io None (\<lambda>k j. visit (- 1) (\<lambda>e s.
       case entry_match e old_name s of (m, s1) \<Rightarrow>
         if \<not> m then Some (None, s1)
         else map_option (\<lambda>(_, s2). (Some 0, s2))
                (write_curdir io (int k) (s1\<lparr>fbuf := put_at j (str_to_name83 new_name) (fbuf s1)\<rparr>))) j) (- 1) s"

section \<open>Directories\<close>

definition dot_sector :: "u16 \<Rightarrow> u16 \<Rightarrow> u8 list" where
  "dot_sector cl up =
     (let ent = (\<lambda>nm c. pad_to 11 nm @ [0x10] @ replicate 14 0 @ bytes16 c @ replicate 4 0)
      in ent [0x2E] cl @ ent [0x2E, 0x2E] up @ replicate 448 0)"

definition mkdir_entry :: "'d blkio \<Rightarrow> cstr \<Rightarrow> u16 \<Rightarrow> nat \<Rightarrow> nat \<Rightarrow> 'd fatfs \<Rightarrow> (int option \<times> 'd fatfs) option" where
  "mkdir_entry io name cl k j s =
     (let e = ent j s in
      case lfn_absorb e s of (lfn, s1) \<Rightarrow>
        if lfn \<or> e ! 0 \<noteq> 0 \<and> e ! 0 \<noteq> 0xE5 then Some (None, s1)
        else map_option (\<lambda>(_, s2). (Some 0, s2))
               (write_curdir io (int k) (s1\<lparr>fbuf := file_entry (str_to_name83 name) 0x10 cl 0 j (fbuf s1)\<rparr>)))"

definition fat_mkdir :: "'d blkio \<Rightarrow> cstr \<Rightarrow> 'd fatfs \<Rightarrow> (int \<times> 'd fatfs) option" where
  "fat_mkdir io name s0 =
     do { ((r, _), s1) \<leftarrow> fat_stat io name s0;
          if r \<ge> 0 then Some (- 3, s1)
          else do {
            (cl, s2) \<leftarrow> alloc_cluster io s1;
            if cl = 0 then Some (- 2, s2)
            else scan_dir io None (mkdir_entry io name cl) (- 1)
                   (snd (fat_write io (cluster_lba cl s2) 1 (dot_sector cl (cur_dir_cluster s2)) s2)) } }"

definition backslash :: u8 where "backslash = 0x5C"

text \<open>\<open>last\<close> in the treatment of \<open>..\<close>: the position of the last backslash, 0 if there is none.\<close>

definition last_sep :: "cstr \<Rightarrow> nat" where
  "last_sep p = fold (\<lambda>i l. if p ! i = backslash then i else l) [0..<length p] 0"

definition cd_up :: "u8 list \<Rightarrow> 'd fatfs \<Rightarrow> 'd fatfs" where
  "cd_up e s =
     (let cl = le16 e 26; nm = (cur_dir_name s)[last_sep (cstr_of (cur_dir_name s)) := 0]
      in s\<lparr>cur_dir_cluster := cl, cur_dir_name := (if nm ! 0 = 0 \<and> cl \<noteq> 0 then nm[0 := 0x3F] else nm)\<rparr>)"

fun cd_up_scan :: "nat list \<Rightarrow> 'd fatfs \<Rightarrow> int \<times> 'd fatfs" where
  "cd_up_scan [] s = (- 1, s)"
| "cd_up_scan (j # js) s =
     (let e = ent j s in
      if e ! 0 = 0 then (- 1, s)
      else if e ! 0 = 0xE5 \<or> \<not> is_subdir e then cd_up_scan js s
      else if e ! 0 = 0x2E \<and> e ! 1 = 0x2E \<and> e ! 2 = 0x20 then (0, cd_up e s)
      else cd_up_scan js s)"

definition cd_down :: "u16 \<Rightarrow> cstr \<Rightarrow> 'd fatfs \<Rightarrow> 'd fatfs" where
  "cd_down cl dname s =
     (let old = cstr_of (cur_dir_name s);
          pre = (if old = [] \<or> last old \<noteq> backslash then old @ [backslash] else old);
          new = pre @ take (158 - length pre) dname @ [0]
      in s\<lparr>cur_dir_cluster := cl, cur_dir_name := new @ drop (length new) (cur_dir_name s)\<rparr>)"

definition cd_entry :: "cstr \<Rightarrow> u8 list \<Rightarrow> 'd fatfs \<Rightarrow> (int option \<times> 'd fatfs) option" where
  "cd_entry name e s =
     (if \<not> is_subdir e then Some (None, s)
      else case entry_name e 64 s of (dname, s1) \<Rightarrow>
        if \<not> name_match dname name \<and> \<not> name_match (name83_to_str e) name then Some (None, s1)
        else Some (Some 0, cd_down (le16 e 26) dname s1))"

definition fat_cd :: "'d blkio \<Rightarrow> cstr \<Rightarrow> 'd fatfs \<Rightarrow> (int \<times> 'd fatfs) option" where
  "fat_cd io name0 s =
     (if name0 = [backslash] then Some (0, s\<lparr>cur_dir_cluster := 0, cur_dir_name := (cur_dir_name s)[0 := 0]\<rparr>)
      else
        let name = dropWhile (\<lambda>c. c = 0x20) name0 in
        if name = [] then Some (- 1, s)
        else if name = [0x2E, 0x2E] then
          (if cur_dir_cluster s = 0 then Some (0, s)
           else do { (r, s1) \<leftarrow> read_curdir io 0 s; if r \<noteq> 0 then Some (- 1, s1) else Some (cd_up_scan entry_offs s1) })
        else if name = [0x2E] then Some (0, s)
        else scan_dir io None (\<lambda>_. visit (- 1) (cd_entry name)) (- 1) s)"

text \<open>\<open>cwd_str\<close>: the characters stored in the caller's buffer.\<close>

definition fat_cwd_str :: "int \<Rightarrow> 'd fatfs \<Rightarrow> u8 list" where
  "fat_cwd_str lim s =
     (if lim < 2 then []
      else if (cur_dir_name s) ! 0 = 0 then [backslash, 0]
      else take (nat (lim - 1)) (cstr_of (cur_dir_name s)) @ [0])"

section \<open>Listings\<close>

definition list_entry :: "nat \<Rightarrow> nat \<Rightarrow> nat \<Rightarrow> DirEntry list \<times> 'd fatfs \<Rightarrow> (unit option \<times> DirEntry list \<times> 'd fatfs) option" where
  "list_entry lim k j st =
     (case st of (es, s) \<Rightarrow>
        let e = ent j s in
        if e ! 0 = 0 then Some (Some (), es, s)
        else case lfn_absorb e s of (lfn, s1) \<Rightarrow>
          if lfn \<or> e ! 0 = 0xE5 \<or> (e ! 11) AND 0x08 \<noteq> 0 then Some (None, es, s1)
          else case entry_name e 64 s1 of (name, s2) \<Rightarrow>
            let es1 = es @ [\<lparr>is_dir = (if is_subdir e then 1 else 0), de_size = le32 e 28, de_name = take 31 name\<rparr>]
            in Some (if lim \<le> length es1 then Some () else None, es1, s2))"

definition fat_list :: "'d blkio \<Rightarrow> cstr \<Rightarrow> u32 \<Rightarrow> 'd fatfs \<Rightarrow> ((int \<times> DirEntry list) \<times> 'd fatfs) option" where
  "fat_list io path lim s =
     do { (maxs, s1) \<leftarrow> curdir_secs io s;
          (_, es, s2) \<leftarrow> scan_secs (\<lambda>k st. case st of (es, s) \<Rightarrow> map_option (\<lambda>(r, s1). (r, es, s1)) (read_curdir io (int k) s))
             None (list_entry (unat lim)) (if lim = 0 then [] else [0..<nat maxs]) ([], scan_reset s1);
          Some ((int (length es), es), s2) }"

text \<open>Nine characters, right-aligned; the digits beyond nine are dropped.\<close>

definition size_text :: "u32 \<Rightarrow> cstr" where
  "size_text sz =
     (let ds = (if sz = 0 then [48] else rev (take 9 (map (\<lambda>d. 48 + of_nat d) (map (\<lambda>i. unat sz div 10 ^ i mod 10)
        (filter (\<lambda>i. unat sz div 10 ^ i \<noteq> 0) [0..<10])))))
      in replicate (9 - length ds) 0x20 @ ds)"

definition dec2 :: "nat \<Rightarrow> cstr" where
  "dec2 n = [48 + of_nat (n div 10), 48 + of_nat (n mod 10)]"

definition stamp_text :: "u16 \<Rightarrow> u16 \<Rightarrow> cstr" where
  "stamp_text fat_time fat_date =
     (let hour = unat (drop_bit 11 fat_time AND 0x1F); mi = unat (drop_bit 5 fat_time AND 0x3F);
          year = 1980 + unat (drop_bit 9 fat_date AND 0x7F); mon = unat (drop_bit 5 fat_date AND 0x0F); day = unat (fat_date AND 0x1F)
      in [48 + of_nat (year div 1000), 48 + of_nat (year div 100 mod 10), 48 + of_nat (year div 10 mod 10), 48 + of_nat (year mod 10), 0x2D]
         @ dec2 mon @ [0x2D] @ dec2 day @ [0x20] @ dec2 hour @ [0x3A] @ dec2 mi)"

definition dir_line :: "cstr \<Rightarrow> u8 list \<Rightarrow> cstr \<Rightarrow> gfx \<Rightarrow> gfx" where
  "dir_line tail e name g0 =
     (let g1 = (if is_subdir e then gfx_puts (bytes_of ''DIR  '') (set_fg 0x0B g0) else gfx_puts (bytes_of ''     '') (set_fg 0x07 g0));
          g2 = gfx_puts (size_text (le32 e 28) @ tail) (set_fg 0x08 g1);
          ft = le16 e 22; fd = le16 e 24;
          g3 = (if fd \<noteq> 0 \<or> ft \<noteq> 0 then gfx_puts (stamp_text ft fd) (gfx_putc 0x20 (set_fg 0x0E g2)) else g2)
      in set_fg 0x07 (gfx_putc 10 (gfx_puts name (gfx_putc 0x20 (set_fg 0x0F g3)))))"

definition fat_dir :: "'d blkio \<Rightarrow> 'd fatfs \<Rightarrow> (int \<times> 'd fatfs) option" where
  "fat_dir io s =
     scan_dir io None (\<lambda>_. visit 0 (\<lambda>e s.
       case entry_name e 64 s of (name, s1) \<Rightarrow>
         Some (None, s1\<lparr>fscr := dir_line (stack_tail s1) e name (fscr s1)\<rparr>))) 0 s"

definition fat_dir_path :: "'d blkio \<Rightarrow> cstr \<Rightarrow> 'd fatfs \<Rightarrow> (int \<times> 'd fatfs) option" where
  "fat_dir_path io path s = fat_dir io s"

section \<open>Packed 12-bit entries\<close>

lemma fat_off_cases: "fat_off cl = (if even (unat cl) then 3 * (unat cl div 2) else 3 * (unat cl div 2) + 1)"
  by (auto simp: fat_off_def elim!: evenE oddE)

lemma odd_word: "(cl AND 1 \<noteq> (0 :: u16)) = odd (unat cl)"
proof -
  have "unat (cl AND 1) = unat cl mod 2" using unat_and_mask [of cl 1] by (simp add: mask_eq_exp_minus_1)
  then show ?thesis by (metis even_iff_mod_2_eq_zero unat_eq_zero)
qed

lemma fat_off_parity: "fat_off c mod 3 = unat c mod 2" "fat_off c div 3 = unat c div 2"
  by (cases "even (unat c)"; simp add: fat_off_cases odd_iff_mod_2_eq_one even_iff_mod_2_eq_zero)+

lemma fat_off_inj:
  assumes "fat_off c = fat_off d"
  shows "c = d"
proof -
  have "unat c = 2 * (unat c div 2) + unat c mod 2" by simp
  also have "\<dots> = unat d" unfolding fat_off_parity [symmetric] assms unfolding fat_off_parity by simp
  finally show ?thesis by (simp add: word_unat_eq_iff)
qed

lemma fat_off_next:
  assumes "fat_off d = fat_off c + 1"
  shows "odd (unat d)" "even (unat c)"
proof -
  have c: "fat_off c mod 3 < 2" "fat_off d mod 3 < 2" by (simp_all add: fat_off_parity)
  have "fat_off d mod 3 = (fat_off c mod 3 + 1) mod 3" using assms by (simp add: mod_simps)
  with c have "fat_off c mod 3 = 0 \<and> fat_off d mod 3 = 1" by (auto simp: less_2_cases_iff)
  then show "odd (unat d)" "even (unat c)" by (simp_all add: fat_off_parity odd_iff_mod_2_eq_one even_iff_mod_2_eq_zero)
qed

lemma byte_at_put:
  assumes "i + length new \<le> length b"
  shows "byte_at (put_at i new b) k = (if i \<le> k \<and> k < i + length new then new ! (k - i) else byte_at b k)"
  using assms by (auto simp: byte_at_def put_at_def nth_append)

lemma length_put_at [simp]: "i + length new \<le> length b \<Longrightarrow> length (put_at i new b) = length b"
  by (simp add: put_at_def)

lemma length_bytes16 [simp]: "length (bytes16 v) = 2"
  by (simp add: bytes16_def)

lemma le16_put:
  assumes "pos + 1 < length b"
  shows "le16 (put_at pos (bytes16 w) b) pos = w"
    "le16 (put_at pos (bytes16 w) b) (pos + 1) = word_cat (byte_at b (pos + 2)) (ucast (drop_bit 8 w) :: u8)"
    "Suc p = pos \<Longrightarrow> le16 (put_at pos (bytes16 w) b) p = word_cat (ucast w :: u8) (byte_at b p)"
    "p \<noteq> pos \<Longrightarrow> p \<noteq> pos + 1 \<Longrightarrow> Suc p \<noteq> pos \<Longrightarrow> le16 (put_at pos (bytes16 w) b) p = le16 b p"
proof -
  have a: "pos + length (bytes16 w) \<le> length b" using assms by simp
  note p = byte_at_put [OF a]
  have "word_cat (ucast (drop_bit 8 w) :: u8) (ucast w :: u8) = w"
    by (rule bit_word_eqI) (auto simp: bit_simps)
  then show "le16 (put_at pos (bytes16 w) b) pos = w" by (simp add: le16_def p) (simp add: bytes16_def)
  show "le16 (put_at pos (bytes16 w) b) (pos + 1) = word_cat (byte_at b (pos + 2)) (ucast (drop_bit 8 w) :: u8)"
    by (simp add: le16_def p) (simp add: bytes16_def)
  show "Suc p = pos \<Longrightarrow> le16 (put_at pos (bytes16 w) b) p = word_cat (ucast w :: u8) (byte_at b p)"
    by (auto simp: le16_def p) (simp add: bytes16_def)
  show "p \<noteq> pos \<Longrightarrow> p \<noteq> pos + 1 \<Longrightarrow> Suc p \<noteq> pos \<Longrightarrow> le16 (put_at pos (bytes16 w) b) p = le16 b p"
    by (auto simp: le16_def p)
qed

lemma mask_words16:
  "(0xFFF :: u16) = mask 12" "(0x000F :: u16) = mask 4" "(0xF000 :: u16) = push_bit 12 (mask 4)"
  by (simp_all add: mask_eq_exp_minus_1)

lemma fat_val_new: "fat_val cl (fat_new cl v x) = x AND 0xFFF"
  unfolding fat_val_def fat_new_def mask_words16
  by (cases "cl AND 1 = 0"; simp only: not_False_eq_True not_True_eq_False if_True if_False; rule bit_word_eqI; auto simp: bit_simps)

lemma fat_val_neighbour:
  "odd (unat d) \<Longrightarrow> even (unat c) \<Longrightarrow>
     fat_val d (word_cat h (ucast (drop_bit 8 (fat_new c (word_cat m l :: u16) x)) :: u8)) = fat_val d (word_cat (h :: u8) (m :: u8))"
  "even (unat d) \<Longrightarrow> odd (unat c) \<Longrightarrow>
     fat_val d (word_cat (ucast (fat_new c (word_cat h m :: u16) x) :: u8) l) = fat_val d (word_cat (m :: u8) (l :: u8))"
  for l m h :: u8
  unfolding fat_val_def fat_new_def odd_word mask_words16
  by (simp_all only: if_True if_False not_False_eq_True not_True_eq_False; rule bit_word_eqI; auto simp: bit_simps)+

text \<open>An update of one entry leaves the others in its sector alone.\<close>

lemma fat_update:
  fixes b c d x
  defines "pos \<equiv> fat_off c mod 512"
  assumes "length b = 512" "pos \<noteq> 511" "fat_off d div 512 = fat_off c div 512"
  shows "fat_val d (le16 (put_at pos (bytes16 (fat_new c (le16 b pos) x)) b) (fat_off d mod 512)) =
    (if d = c then x AND 0xFFF else fat_val d (le16 b (fat_off d mod 512)))"
proof -
  define p w where "p = fat_off d mod 512" and "w = fat_new c (le16 b pos) x"
  have q: "fat_off c = 512 * (fat_off c div 512) + pos" "fat_off d = 512 * (fat_off c div 512) + p"
    using assms(4) mult_div_mod_eq [of 512 "fat_off d"] by (simp_all add: pos_def p_def)
  have lt: "pos + 1 < length b" using assms(2,3) by (simp add: pos_def)
  note l = le16_put [OF lt, where w = w]
  consider "d = c" | "d \<noteq> c" "p = pos + 1" | "d \<noteq> c" "Suc p = pos" | "d \<noteq> c" "p \<noteq> pos" "p \<noteq> pos + 1" "Suc p \<noteq> pos"
    using q fat_off_inj [of c d] by fastforce
  then have "fat_val d (le16 (put_at pos (bytes16 w) b) p) = (if d = c then x AND 0xFFF else fat_val d (le16 b p))"
  proof cases
    case 1
    then have "p = pos" by (simp add: p_def pos_def)
    with 1 l(1) fat_val_new show ?thesis by (simp add: w_def)
  next
    case 2
    have e: "fat_off d = fat_off c + 1" using q 2 by simp
    note par = fat_off_next [OF e]
    have "le16 b p = word_cat (byte_at b (pos + 2)) (byte_at b (pos + 1))" using 2 by (simp add: le16_def)
    moreover have "le16 b pos = word_cat (byte_at b (pos + 1)) (byte_at b pos)" by (simp add: le16_def)
    ultimately show ?thesis
      using l(2) 2 fat_val_neighbour(1) [OF par] by (simp add: w_def)
  next
    case 3
    have e: "fat_off c = fat_off d + 1" using q 3 by simp
    note par = fat_off_next [OF e]
    have "le16 b p = word_cat (byte_at b pos) (byte_at b p)" using 3 by (simp add: le16_def)
    moreover have "le16 b pos = word_cat (byte_at b (pos + 1)) (byte_at b pos)" by (simp add: le16_def)
    ultimately show ?thesis
      using l(3) 3 fat_val_neighbour(2) [OF par(2,1)] by (simp add: w_def)
  qed (use l(4) in simp)
  then show ?thesis by (simp only: p_def w_def)
qed

section \<open>The table on disk as a map\<close>

text \<open>The entry of a cluster in the first copy of the table, on a volume with the given sectors.\<close>

definition tab :: "(u32 \<Rightarrow> u8 list) \<Rightarrow> 'd fatfs \<Rightarrow> u16 \<Rightarrow> u16" where
  "tab v s cl = fat_val cl (le16 (v (of_int (start_sec s + int (fat_off cl div 512)))) (fat_off cl mod 512))"

text \<open>The volume's layout, within 28-bit sector numbers.\<close>

definition fat_geo :: "'d fatfs \<Rightarrow> bool" where
  "fat_geo s = (0 \<le> start_sec s \<and> 0 < fat_secs s \<and> 1 \<le> num_fat s \<and>
     root_secs s = start_sec s + uint (num_fat s) * fat_secs s \<and> root_secs s \<le> data_sec s \<and> data_sec s < 2 ^ 28)"

text \<open>The clusters with an entry in the table. An entry may be split over two sectors (offset 511, first at cluster
  341): the driver then leaves its sector buffer. \<open>cl_ok\<close> are the other clusters.\<close>

definition in_fat :: "'d fatfs \<Rightarrow> u16 \<Rightarrow> bool" where
  "in_fat s cl = (int (fat_off cl div 512) < fat_secs s)"

definition split_entry :: "u16 \<Rightarrow> bool" where
  "split_entry cl = (fat_off cl mod 512 = 511)"

definition cl_ok :: "'d fatfs \<Rightarrow> u16 \<Rightarrow> bool" where
  "cl_ok s cl = (int (fat_off cl div 512) < fat_secs s \<and> fat_off cl mod 512 \<noteq> 511)"

lemma cl_ok_alt: "cl_ok s cl = (in_fat s cl \<and> \<not> split_entry cl)"
  by (simp add: cl_ok_def in_fat_def split_entry_def)

definition same_fat :: "'d fatfs \<Rightarrow> 'd fatfs \<Rightarrow> bool" where
  "same_fat s s' = (\<exists>c. s' = s\<lparr>fbc := c\<rparr>)"

lemma same_fat_simps:
  assumes "same_fat s s'"
  shows "start_sec s' = start_sec s" "fat_secs s' = fat_secs s" "root_secs s' = root_secs s" "data_sec s' = data_sec s"
    "num_fat s' = num_fat s" "spc s' = spc s" "bps s' = bps s" "cur_dir_cluster s' = cur_dir_cluster s" "fbuf s' = fbuf s"
    "fat_geo s' = fat_geo s" "cl_ok s' cl = cl_ok s cl" "tab v s' = tab v s" "max_cluster s' = max_cluster s" "in_fat s' cl = in_fat s cl"
  using assms by (auto simp: same_fat_def fat_geo_def cl_ok_def tab_def fun_eq_iff max_cluster_def in_fat_def)

lemma same_fat_refl [simp]: "same_fat s s"
  unfolding same_fat_def by (rule exI [of _ "fbc s"]) simp

lemma same_fat_trans: "same_fat s s1 \<Longrightarrow> same_fat s1 s2 \<Longrightarrow> same_fat s s2"
  by (auto simp: same_fat_def)

lemma of_int_inj_28:
  assumes "0 \<le> a" "a < 2 ^ 28" "0 \<le> b" "b < 2 ^ 28"
  shows "(of_int a :: u32) = of_int b \<longleftrightarrow> a = b"
proof
  assume "(of_int a :: u32) = of_int b"
  then have "uint (of_int a :: u32) = uint (of_int b :: u32)" by simp
  then show "a = b" using assms by (simp add: unsigned_of_int take_bit_int_eq_self)
qed simp

lemma mod_511: "x mod 512 \<noteq> 511 \<Longrightarrow> x mod 512 + 1 < 512" for x :: nat
  using mod_less_divisor [of 512 x] by linarith

locale fat_store = sector_store +
  assumes valid_low: "0 \<le> n \<Longrightarrow> n < 2 ^ 28 \<Longrightarrow> valid (of_int n)"
begin

lemma fat_read_ok:
  assumes "ok (fbc s)" "0 \<le> n" "n < 2 ^ 28"
  shows "\<exists>s'. fat_read io n s = ((0, vol (fbc s) (of_int n)), s') \<and> same_fat s s' \<and> ok (fbc s') \<and> vol (fbc s') = vol (fbc s)"
proof -
  obtain c' where "bc_read io (of_int n) 1 (fbc s) = ((0, vol (fbc s) (of_int n)), c')" "ok c'" "vol c' = vol (fbc s)"
    using read_law [OF assms(1) valid_low [OF assms(2,3)]] by blast
  then show ?thesis by (auto simp: fat_read_def same_fat_def)
qed

lemma fat_write_ok:
  assumes "ok (fbc s)" "0 \<le> n" "n < 2 ^ 28" "length bs = 512"
  shows "\<exists>s'. fat_write io n 1 bs s = (0, s') \<and> same_fat s s' \<and> ok (fbc s') \<and> vol (fbc s') = (vol (fbc s))(of_int n := bs)"
proof -
  obtain c' where "bc_write io (of_int n) 1 bs (fbc s) = (0, c')" "ok c'" "vol c' = (vol (fbc s))(of_int n := bs)"
    using write_law [OF assms(1) valid_low [OF assms(2,3)] assms(4)] by blast
  then show ?thesis by (auto simp: fat_write_def same_fat_def)
qed

lemma in_fat_bounds:
  assumes "fat_geo s" "in_fat s cl"
  shows "0 \<le> start_sec s + int (fat_off cl div 512)" "start_sec s + int (fat_off cl div 512) < 2 ^ 28"
    "start_sec s + int (fat_off cl div 512) < start_sec s + fat_secs s" "start_sec s + fat_secs s \<le> root_secs s"
proof -
  have "1 * fat_secs s \<le> uint (num_fat s) * fat_secs s"
    using assms(1) by (intro mult_right_mono) (auto simp: fat_geo_def word_le_def)
  then have n: "fat_secs s \<le> uint (num_fat s) * fat_secs s" by simp
  show "0 \<le> start_sec s + int (fat_off cl div 512)" "start_sec s + int (fat_off cl div 512) < 2 ^ 28"
    "start_sec s + int (fat_off cl div 512) < start_sec s + fat_secs s" "start_sec s + fat_secs s \<le> root_secs s"
    using assms n unfolding fat_geo_def in_fat_def by linarith+
qed

lemmas sec_bounds = in_fat_bounds [OF _ cl_ok_alt [THEN iffD1, THEN conjunct1]]

lemma split_entry_fails:
  assumes "ok (fbc s)" "fat_geo s" "in_fat s cl" "split_entry cl"
  shows "next_cluster io cl s = None" "write_fat_entry io cl x s = None"
proof -
  note b = in_fat_bounds [OF assms(2,3)]
  obtain s' where r: "fat_read io (start_sec s + int (fat_off cl div 512)) s =
      ((0, vol (fbc s) (of_int (start_sec s + int (fat_off cl div 512)))), s')"
    using fat_read_ok [OF assms(1) b(1,2)] by blast
  have "length (vol (fbc s) (of_int (start_sec s + int (fat_off cl div 512)))) = 512" by (rule vol_len [OF assms(1)])
  with r assms(4) show "next_cluster io cl s = None" "write_fat_entry io cl x s = None"
    by (simp_all add: next_cluster_def write_fat_entry_def Let_def split_entry_def)
qed

lemma next_cluster_ok:
  assumes "ok (fbc s)" "fat_geo s" "cl_ok s cl"
  shows "\<exists>s'. next_cluster io cl s = Some (tab (vol (fbc s)) s cl, s') \<and> same_fat s s' \<and> ok (fbc s') \<and> vol (fbc s') = vol (fbc s)"
proof -
  note b = sec_bounds [OF assms(2,3)]
  obtain s' where r: "fat_read io (start_sec s + int (fat_off cl div 512)) s =
      ((0, vol (fbc s) (of_int (start_sec s + int (fat_off cl div 512)))), s')" "same_fat s s'" "ok (fbc s')" "vol (fbc s') = vol (fbc s)"
    using fat_read_ok [OF assms(1) b(1,2)] by blast
  have "length (vol (fbc s) (of_int (start_sec s + int (fat_off cl div 512)))) = 512" by (rule vol_len [OF assms(1)])
  moreover have "fat_off cl mod 512 + 1 < 512" using assms(3) by (intro mod_511) (simp add: cl_ok_def)
  ultimately show ?thesis using r by (simp add: next_cluster_def Let_def tab_def)
qed

lemma read_fat_entry_eq: "read_fat_entry io cl s = next_cluster io cl s"
  by (simp add: read_fat_entry_def next_cluster_def)

text \<open>Writing the copies of a table sector.\<close>

lemma write_copies:
  assumes "ok (fbc s)" "fat_geo s" "cl_ok s cl" "length b = 512" "n \<le> unat (num_fat s)"
  shows "\<exists>s'. fold (\<lambda>i s. snd (fat_write io (start_sec s + int i * fat_secs s + int (fat_off cl div 512)) 1 b s)) [1..<n] s = s' \<and>
    same_fat s s' \<and> ok (fbc s') \<and>
    (\<forall>l. l < start_sec s + fat_secs s \<or> root_secs s \<le> l \<longrightarrow> 0 \<le> l \<longrightarrow> l < 2 ^ 28 \<longrightarrow> vol (fbc s') (of_int l) = vol (fbc s) (of_int l))"
  using assms(5)
proof (induction n)
  case (Suc n)
  then obtain s1 where s1: "fold (\<lambda>i s. snd (fat_write io (start_sec s + int i * fat_secs s + int (fat_off cl div 512)) 1 b s)) [1..<n] s = s1"
      "same_fat s s1" "ok (fbc s1)"
      "\<forall>l. l < start_sec s + fat_secs s \<or> root_secs s \<le> l \<longrightarrow> 0 \<le> l \<longrightarrow> l < 2 ^ 28 \<longrightarrow> vol (fbc s1) (of_int l) = vol (fbc s) (of_int l)"
    by auto
  show ?case
  proof (cases "1 \<le> n")
    case True
    note e = same_fat_simps [OF s1(2)]
    define k where "k = start_sec s + int n * fat_secs s + int (fat_off cl div 512)"
    have "uint (num_fat s) = int (unat (num_fat s))" by simp
    then have "int n + 1 \<le> uint (num_fat s)" using Suc.prems by linarith
    then have "(int n + 1) * fat_secs s \<le> uint (num_fat s) * fat_secs s" using assms(2) by (intro mult_right_mono) (auto simp: fat_geo_def)
    then have hi: "k < root_secs s" using assms(2,3) by (simp add: k_def fat_geo_def cl_ok_def distrib_right)
    have "1 * fat_secs s \<le> int n * fat_secs s" using True assms(2) by (intro mult_right_mono) (auto simp: fat_geo_def)
    then have lo: "start_sec s + fat_secs s \<le> k" by (simp add: k_def)
    have k: "0 \<le> k" "k < 2 ^ 28" using lo hi assms(2) by (auto simp: fat_geo_def)
    obtain s2 where s2: "fat_write io k 1 b s1 = (0, s2)" "same_fat s1 s2" "ok (fbc s2)" "vol (fbc s2) = (vol (fbc s1))(of_int k := b)"
      using fat_write_ok [OF s1(3) k assms(4)] by blast
    have "vol (fbc s2) (of_int l) = vol (fbc s) (of_int l)" if "l < start_sec s + fat_secs s \<or> root_secs s \<le> l" "0 \<le> l" "l < 2 ^ 28" for l
    proof -
      have "l \<noteq> k" using that lo hi by auto
      then have "(of_int l :: u32) \<noteq> of_int k" using of_int_inj_28 [OF that(2,3) k] by simp
      then show ?thesis using s1(4) [rule_format, OF that] s2(4) by simp
    qed
    then show ?thesis using s1(1,2) s2 True same_fat_trans e by (auto simp: k_def)
  qed (use s1 in \<open>auto simp: not_le\<close>)
qed (use assms(1) in auto)

lemma write_fat_entry_all:
  assumes "ok (fbc s)" "fat_geo s" "cl_ok s cl"
  shows "\<exists>s'. write_fat_entry io cl x s = Some s' \<and> same_fat s s' \<and> ok (fbc s') \<and>
    (\<forall>d. in_fat s d \<longrightarrow> tab (vol (fbc s')) s d = (if d = cl then x AND 0xFFF else tab (vol (fbc s)) s d)) \<and>
    (\<forall>l. root_secs s \<le> l \<longrightarrow> l < 2 ^ 28 \<longrightarrow> vol (fbc s') (of_int l) = vol (fbc s) (of_int l))"
proof -
  define k where "k = start_sec s + int (fat_off cl div 512)"
  define pos where "pos = fat_off cl mod 512"
  define b where "b = vol (fbc s) (of_int k)"
  define b1 where "b1 = put_at pos (bytes16 (fat_new cl (le16 b pos) x)) b"
  note kb = sec_bounds [OF assms(2,3), folded k_def]
  obtain s1 where s1: "fat_read io k s = ((0, b), s1)" "same_fat s s1" "ok (fbc s1)" "vol (fbc s1) = vol (fbc s)"
    using fat_read_ok [OF assms(1) kb(1,2)] by (auto simp: b_def)
  have len: "length b = 512" unfolding b_def by (rule vol_len [OF assms(1)])
  have pos: "pos + 1 < 512" "pos \<noteq> 511" using assms(3) mod_511 [of "fat_off cl"] by (simp_all add: cl_ok_def pos_def)
  have len1: "length b1 = 512" using len pos by (simp add: b1_def)
  obtain s2 where s2: "fat_write io k 1 b1 s1 = (0, s2)" "same_fat s1 s2" "ok (fbc s2)" "vol (fbc s2) = (vol (fbc s))(of_int k := b1)"
    using fat_write_ok [OF s1(3) kb(1,2) len1] s1(4) by auto
  have ss2: "same_fat s s2" using same_fat_trans s1(2) s2(2) by blast
  note e = same_fat_simps [OF ss2]
  obtain s3 where s3: "fold (\<lambda>i s. snd (fat_write io (start_sec s + int i * fat_secs s + int (fat_off cl div 512)) 1 b1 s)) [1..<unat (num_fat s)] s2 = s3"
      "same_fat s2 s3" "ok (fbc s3)"
      "\<forall>l. l < start_sec s + fat_secs s \<or> root_secs s \<le> l \<longrightarrow> 0 \<le> l \<longrightarrow> l < 2 ^ 28 \<longrightarrow> vol (fbc s3) (of_int l) = vol (fbc s2) (of_int l)"
    using write_copies [OF s2(3), of cl b1 "unat (num_fat s)"] assms(2,3) len1 by (auto simp: e)
  have w: "write_fat_entry io cl x s = Some s3"
    using s1(1) s2(1) s3(1) pos len e same_fat_simps [OF s1(2)]
    by (simp add: write_fat_entry_def Let_def k_def [symmetric] pos_def [symmetric] b1_def [symmetric])
  have "tab (vol (fbc s3)) s d = (if d = cl then x AND 0xFFF else tab (vol (fbc s)) s d)" if d: "in_fat s d" for d
  proof -
    define j where "j = start_sec s + int (fat_off d div 512)"
    note jb = in_fat_bounds [OF assms(2) d, folded j_def]
    have v3: "vol (fbc s3) (of_int j) = (if j = k then b1 else vol (fbc s) (of_int j))"
      using s3(4) jb s2(4) of_int_inj_28 [OF jb(1,2) kb(1,2)] by auto
    show ?thesis
    proof (cases "j = k")
      case True
      then have "fat_off d div 512 = fat_off cl div 512" by (simp add: j_def k_def)
      from fat_update [OF len _ this, of x] pos(2) True v3 show ?thesis
        by (simp add: tab_def j_def [symmetric] b1_def pos_def b_def)
    next
      case False
      then have "d \<noteq> cl" by (auto simp: j_def k_def)
      then show ?thesis using v3 False by (simp add: tab_def j_def [symmetric])
    qed
  qed
  moreover have "vol (fbc s3) (of_int l) = vol (fbc s) (of_int l)" if "root_secs s \<le> l" "l < 2 ^ 28" for l
  proof -
    have "0 \<le> l" "l \<noteq> k" using that kb by auto
    then show ?thesis using s3(4) that s2(4) of_int_inj_28 [of l k] kb by auto
  qed
  moreover have "same_fat s s3" using same_fat_trans ss2 s3(2) by blast
  ultimately show ?thesis using w s3(3) by blast
qed

lemma write_fat_entry_ok:
  assumes "ok (fbc s)" "fat_geo s" "cl_ok s cl"
  shows "\<exists>s'. write_fat_entry io cl x s = Some s' \<and> same_fat s s' \<and> ok (fbc s') \<and>
    (\<forall>d. cl_ok s d \<longrightarrow> tab (vol (fbc s')) s d = (if d = cl then x AND 0xFFF else tab (vol (fbc s)) s d)) \<and>
    (\<forall>l. root_secs s \<le> l \<longrightarrow> l < 2 ^ 28 \<longrightarrow> vol (fbc s') (of_int l) = vol (fbc s) (of_int l))"
  using write_fat_entry_all [OF assms, of x] by (auto simp: cl_ok_alt)

end

section \<open>Allocation and chains\<close>

text \<open>A chain: the clusters visited from \<open>cl\<close> on until a value outside the range of cluster numbers.\<close>

fun is_chain :: "(u16 \<Rightarrow> u16) \<Rightarrow> u16 \<Rightarrow> u16 list \<Rightarrow> bool" where
  "is_chain t cl [] = (\<not> in_chain cl)"
| "is_chain t cl (x # xs) = (x = cl \<and> in_chain cl \<and> is_chain t (t cl) xs)"

lemma is_chain_cong: "(\<And>x. x \<in> set xs \<Longrightarrow> t x = t' x) \<Longrightarrow> is_chain t cl xs = is_chain t' cl xs"
  by (induction xs arbitrary: cl) auto

context fat_store
begin

lemma free_scan_ok:
  assumes "ok (fbc s)" "fat_geo s" "\<forall>c \<in> set cls. c \<noteq> 0"
    "\<forall>pre c post. cls = pre @ c # post \<and> (\<forall>d \<in> set pre. tab (vol (fbc s)) s d \<noteq> 0) \<longrightarrow> cl_ok s c"
  shows "\<exists>cl s'. free_scan io cls s = Some (cl, s') \<and> same_fat s s' \<and> ok (fbc s') \<and> vol (fbc s') = vol (fbc s) \<and>
    (if cl = 0 then \<forall>d \<in> set cls. tab (vol (fbc s)) s d \<noteq> 0
     else \<exists>pre post. cls = pre @ cl # post \<and> (\<forall>d \<in> set pre. tab (vol (fbc s)) s d \<noteq> 0) \<and> tab (vol (fbc s)) s cl = 0)"
  using assms
proof (induction cls arbitrary: s)
  case (Cons c cls)
  let ?t = "tab (vol (fbc s)) s"
  have "cl_ok s c" using Cons.prems(4) by (metis append_Nil empty_iff list.set(1))
  then obtain s1 where s1: "next_cluster io c s = Some (?t c, s1)" "same_fat s s1" "ok (fbc s1)" "vol (fbc s1) = vol (fbc s)"
    using next_cluster_ok [OF Cons.prems(1,2)] by blast
  note e = same_fat_simps [OF s1(2)]
  show ?case
  proof (cases "?t c = 0")
    case True
    have "\<exists>pre post. c # cls = pre @ c # post \<and> (\<forall>d \<in> set pre. ?t d \<noteq> 0) \<and> ?t c = 0"
      using True by (intro exI [of _ "[]"] exI [of _ cls]) simp
    moreover have "free_scan io (c # cls) s = Some (c, s1)" using s1(1) True by (simp add: read_fat_entry_eq)
    moreover have "c \<noteq> 0" using Cons.prems(3) by simp
    ultimately show ?thesis using s1(2-4) by auto
  next
    case False
    have t1: "tab (vol (fbc s1)) s1 = ?t" using e(12) s1(4) by simp
    have pre: "\<forall>pre c' post. cls = pre @ c' # post \<and> (\<forall>d \<in> set pre. tab (vol (fbc s1)) s1 d \<noteq> 0) \<longrightarrow> cl_ok s1 c'"
    proof (intro allI impI, elim conjE)
      fix pre c' post assume "cls = pre @ c' # post" "\<forall>d \<in> set pre. tab (vol (fbc s1)) s1 d \<noteq> 0"
      then have "c # cls = (c # pre) @ c' # post" "\<forall>d \<in> set (c # pre). ?t d \<noteq> 0" using False t1 by auto
      then show "cl_ok s1 c'" using Cons.prems(4) e(11) by blast
    qed
    obtain cl s' where r: "free_scan io cls s1 = Some (cl, s')" "same_fat s1 s'" "ok (fbc s')" "vol (fbc s') = vol (fbc s1)"
      "if cl = 0 then \<forall>d \<in> set cls. ?t d \<noteq> 0 else \<exists>pre post. cls = pre @ cl # post \<and> (\<forall>d \<in> set pre. ?t d \<noteq> 0) \<and> ?t cl = 0"
      using Cons.IH [of s1] s1(3) Cons.prems(2,3) e(10) pre unfolding t1 by auto
    have "free_scan io (c # cls) s = Some (cl, s')" using s1(1) False r(1) by (simp add: read_fat_entry_eq)
    moreover have "\<exists>pre post. c # cls = pre @ cl # post \<and> (\<forall>d \<in> set pre. ?t d \<noteq> 0) \<and> ?t cl = 0" if nz: "cl \<noteq> 0"
    proof -
      obtain pre post where "cls = pre @ cl # post" "\<forall>d \<in> set pre. ?t d \<noteq> 0" "?t cl = 0" using r(5) nz by auto
      then show ?thesis using False by (intro exI [of _ "c # pre"] exI [of _ post]) auto
    qed
    ultimately show ?thesis using r s1 False same_fat_trans by auto
  qed
qed auto

lemma free_scan_split:
  assumes "ok (fbc s)" "fat_geo s" "\<forall>d \<in> set pre. cl_ok s d \<and> tab (vol (fbc s)) s d \<noteq> 0" "in_fat s c" "split_entry c"
  shows "free_scan io (pre @ c # post) s = None"
  using assms
proof (induction pre arbitrary: s)
  case Nil
  then show ?case by (simp add: read_fat_entry_eq split_entry_fails)
next
  case (Cons d pre)
  obtain s1 where s1: "next_cluster io d s = Some (tab (vol (fbc s)) s d, s1)" "same_fat s s1" "ok (fbc s1)" "vol (fbc s1) = vol (fbc s)"
    using next_cluster_ok [OF Cons.prems(1,2), of d] Cons.prems(3) by auto
  note e = same_fat_simps [OF s1(2)]
  have "free_scan io (pre @ c # post) s1 = None"
    by (rule Cons.IH) (use Cons.prems s1 e in auto)
  then show ?case using s1(1) Cons.prems(3) by (simp add: read_fat_entry_eq)
qed

lemma free_chain_split:
  assumes "ok (fbc s)" "fat_geo s" "is_chain (tab (vol (fbc s)) s) cl (xs @ c # ys)" "distinct (xs @ c # ys)"
    "\<forall>x \<in> set xs. cl_ok s x" "\<forall>x \<in> set (xs @ c # ys). in_fat s x" "split_entry c"
  shows "free_chain io cl s = None"
  using assms
proof (induction xs arbitrary: cl s)
  case Nil
  then show ?case by (subst free_chain.simps) (simp add: split_entry_fails)
next
  case (Cons x xs)
  let ?t = "tab (vol (fbc s)) s"
  have x: "x = cl" "in_chain cl" "is_chain ?t (?t cl) (xs @ c # ys)" "cl_ok s cl" "cl \<notin> set (xs @ c # ys)" using Cons.prems by auto
  obtain s1 where s1: "next_cluster io cl s = Some (?t cl, s1)" "same_fat s s1" "ok (fbc s1)" "vol (fbc s1) = vol (fbc s)"
    using next_cluster_ok [OF Cons.prems(1,2) x(4)] by blast
  note e1 = same_fat_simps [OF s1(2)]
  obtain s2 where s2: "write_fat_entry io cl 0 s1 = Some s2" "same_fat s1 s2" "ok (fbc s2)"
      "\<forall>d. in_fat s d \<longrightarrow> tab (vol (fbc s2)) s d = (if d = cl then 0 else ?t d)"
    using write_fat_entry_all [OF s1(3), of cl 0] Cons.prems(2) x(4) e1 s1(4) by auto
  have ss2: "same_fat s s2" using same_fat_trans s1(2) s2(2) by blast
  note e2 = same_fat_simps [OF ss2]
  have ch: "is_chain (tab (vol (fbc s2)) s2) (?t cl) (xs @ c # ys)"
    using x Cons.prems(6) s2(4) e2 by (subst is_chain_cong [where t' = ?t]) auto
  have "free_chain io (?t cl) s2 = None"
    by (rule Cons.IH [OF s2(3) _ ch]) (use Cons.prems e2 in auto)
  then show ?case using x(2) s1(1) s2(1) by (subst free_chain.simps) simp
qed

lemma free_chain_ok:
  assumes "ok (fbc s)" "fat_geo s" "is_chain (tab (vol (fbc s)) s) cl xs" "distinct xs" "\<forall>x \<in> set xs. cl_ok s x"
  shows "\<exists>s'. free_chain io cl s = Some s' \<and> same_fat s s' \<and> ok (fbc s') \<and>
    (\<forall>d. cl_ok s d \<longrightarrow> tab (vol (fbc s')) s d = (if d \<in> set xs then 0 else tab (vol (fbc s)) s d)) \<and>
    (\<forall>l. root_secs s \<le> l \<longrightarrow> l < 2 ^ 28 \<longrightarrow> vol (fbc s') (of_int l) = vol (fbc s) (of_int l))"
  using assms
proof (induction xs arbitrary: cl s)
  case Nil
  then show ?case by (subst free_chain.simps) auto
next
  case (Cons x xs)
  let ?t = "tab (vol (fbc s)) s"
  have x: "x = cl" "in_chain cl" "is_chain ?t (?t cl) xs" "cl_ok s cl" "cl \<notin> set xs" using Cons.prems by auto
  obtain s1 where s1: "next_cluster io cl s = Some (?t cl, s1)" "same_fat s s1" "ok (fbc s1)" "vol (fbc s1) = vol (fbc s)"
    using next_cluster_ok [OF Cons.prems(1,2) x(4)] by blast
  note e1 = same_fat_simps [OF s1(2)]
  obtain s2 where s2: "write_fat_entry io cl 0 s1 = Some s2" "same_fat s1 s2" "ok (fbc s2)"
      "\<forall>d. cl_ok s d \<longrightarrow> tab (vol (fbc s2)) s d = (if d = cl then 0 else ?t d)"
      "\<forall>l. root_secs s \<le> l \<longrightarrow> l < 2 ^ 28 \<longrightarrow> vol (fbc s2) (of_int l) = vol (fbc s) (of_int l)"
    using write_fat_entry_ok [OF s1(3), of cl 0] Cons.prems(2) x(4) e1 s1(4) by auto
  have ss2: "same_fat s s2" using same_fat_trans s1(2) s2(2) by blast
  note e2 = same_fat_simps [OF ss2]
  have "is_chain (tab (vol (fbc s2)) s2) (?t cl) xs"
    using x Cons.prems(5) s2(4) e2 by (subst is_chain_cong [where t' = ?t]) auto
  then obtain s3 where s3: "free_chain io (?t cl) s2 = Some s3" "same_fat s2 s3" "ok (fbc s3)"
      "\<forall>d. cl_ok s2 d \<longrightarrow> tab (vol (fbc s3)) s2 d = (if d \<in> set xs then 0 else tab (vol (fbc s2)) s2 d)"
      "\<forall>l. root_secs s2 \<le> l \<longrightarrow> l < 2 ^ 28 \<longrightarrow> vol (fbc s3) (of_int l) = vol (fbc s2) (of_int l)"
    using Cons.IH [of s2 "?t cl"] s2(3) Cons.prems(2,4,5) e2 by auto
  have "free_chain io cl s = Some s3" using x(2) s1(1) s2(1) s3(1) by (subst free_chain.simps) simp
  moreover have "same_fat s s3" using same_fat_trans ss2 s3(2) by blast
  moreover have "\<forall>d. cl_ok s d \<longrightarrow> tab (vol (fbc s3)) s d = (if d \<in> set (x # xs) then 0 else ?t d)"
    using s3(4) s2(4) e2 x(1) by simp
  moreover have "\<forall>l. root_secs s \<le> l \<longrightarrow> l < 2 ^ 28 \<longrightarrow> vol (fbc s3) (of_int l) = vol (fbc s) (of_int l)"
    using s3(5) s2(5) e2 by simp
  ultimately show ?case using s3(3) by blast
qed

end

text \<open>All clusters that the search for a free one looks at are accessible.\<close>

definition scan_ok :: "(u32 \<Rightarrow> u8 list) \<Rightarrow> 'd fatfs \<Rightarrow> bool" where
  "scan_ok v s = (\<forall>c. 2 \<le> c \<and> c < max_cluster s \<and> (\<forall>d. 2 \<le> d \<and> d < c \<longrightarrow> tab v s d \<noteq> 0) \<longrightarrow> cl_ok s c)"

lemma range16_split:
  fixes m c :: u16
  assumes "map of_nat [2..<unat m] = pre @ c # post"
  shows "2 \<le> c \<and> c < m \<and> set pre = {d. 2 \<le> d \<and> d < c}"
proof -
  define n where "n = length pre"
  have len: "n < unat m - 2" using arg_cong [OF assms, of length] by (simp add: n_def)
  have mb: "unat m < 65536" using unsigned_less [of m, where 'a = nat] by simp
  have "(map of_nat [2..<unat m] :: u16 list) ! n = c" using assms by (simp add: n_def)
  then have c: "c = of_nat (2 + n)" using len by simp
  have uc: "unat c = 2 + n" unfolding c unsigned_of_nat of_nat_id using len mb by (intro take_bit_nat_eq_self) simp
  have "take n (map of_nat [2..<unat m]) = pre" using assms by (simp add: n_def)
  then have pre: "pre = map of_nat [2..<2 + n]" using len by (simp add: take_map)
  have "d \<in> set pre \<longleftrightarrow> 2 \<le> d \<and> d < c" for d
  proof
    assume "d \<in> set pre"
    then obtain k where k: "2 \<le> k" "k < 2 + n" "d = of_nat k" unfolding pre set_map set_upt by (elim imageE) auto
    moreover have "unat d = k" using k len mb by (simp add: unsigned_of_nat take_bit_nat_eq_self)
    ultimately show "2 \<le> d \<and> d < c" using uc by (simp add: word_le_nat_alt word_less_nat_alt)
  next
    assume "2 \<le> d \<and> d < c"
    then have "2 \<le> unat d" "unat d < 2 + n" "d = of_nat (unat d)" using uc by (simp_all add: word_le_nat_alt word_less_nat_alt)
    then show "d \<in> set pre" unfolding pre set_map set_upt by (intro image_eqI [of _ _ "unat d"]) auto
  qed
  then show ?thesis using uc len mb by (auto simp: word_le_nat_alt word_less_nat_alt)
qed

context fat_store
begin

lemma alloc_cluster_ok:
  assumes "ok (fbc s)" "fat_geo s" "scan_ok (vol (fbc s)) s"
  shows "\<exists>cl s'. alloc_cluster io s = Some (cl, s') \<and> same_fat s s' \<and> ok (fbc s') \<and>
    (if cl = 0 then (\<forall>d. 2 \<le> d \<and> d < max_cluster s \<longrightarrow> tab (vol (fbc s)) s d \<noteq> 0) \<and> vol (fbc s') = vol (fbc s)
     else 2 \<le> cl \<and> cl < max_cluster s \<and> tab (vol (fbc s)) s cl = 0 \<and> cl_ok s cl \<and> (\<forall>d. 2 \<le> d \<and> d < cl \<longrightarrow> tab (vol (fbc s)) s d \<noteq> 0) \<and>
       (\<forall>d. cl_ok s d \<longrightarrow> tab (vol (fbc s')) s d = (if d = cl then 0xFFF else tab (vol (fbc s)) s d)) \<and>
       (\<forall>l. root_secs s \<le> l \<longrightarrow> l < 2 ^ 28 \<longrightarrow> vol (fbc s') (of_int l) = vol (fbc s) (of_int l)))"
proof -
  let ?t = "tab (vol (fbc s)) s" and ?cls = "map of_nat [2..<unat (max_cluster s)] :: u16 list"
  have nz: "\<forall>c \<in> set ?cls. c \<noteq> 0"
  proof
    fix c assume "c \<in> set ?cls"
    then obtain pre post where "?cls = pre @ c # post" using split_list by fast
    from conjunct1 [OF range16_split [OF this]] show "c \<noteq> 0" by auto
  qed
  have acc: "\<forall>pre c post. ?cls = pre @ c # post \<and> (\<forall>d \<in> set pre. ?t d \<noteq> 0) \<longrightarrow> cl_ok s c"
  proof (intro allI impI, elim conjE)
    fix pre c post assume p: "?cls = pre @ c # post" "\<forall>d \<in> set pre. ?t d \<noteq> 0"
    from range16_split [OF p(1)] p(2) have "2 \<le> c \<and> c < max_cluster s \<and> (\<forall>d. 2 \<le> d \<and> d < c \<longrightarrow> ?t d \<noteq> 0)" by simp
    with assms(3) show "cl_ok s c" unfolding scan_ok_def by blast
  qed
  obtain cl s1 where s1: "find_free_cluster io s = Some (cl, s1)" "same_fat s s1" "ok (fbc s1)" "vol (fbc s1) = vol (fbc s)"
      "if cl = 0 then \<forall>d \<in> set ?cls. ?t d \<noteq> 0 else \<exists>pre post. ?cls = pre @ cl # post \<and> (\<forall>d \<in> set pre. ?t d \<noteq> 0) \<and> ?t cl = 0"
    using free_scan_ok [OF assms(1,2) nz acc] by (auto simp: find_free_cluster_def)
  note e = same_fat_simps [OF s1(2)]
  show ?thesis
  proof (cases "cl = 0")
    case True
    have "?t d \<noteq> 0" if "2 \<le> d" "d < max_cluster s" for d
    proof -
      have "d = of_nat (unat d)" "unat d \<in> set [2..<unat (max_cluster s)]" using that by (simp_all add: word_le_nat_alt word_less_nat_alt)
      then have "d \<in> set ?cls" unfolding set_map by (rule image_eqI)
      moreover have "\<forall>d \<in> set ?cls. ?t d \<noteq> 0" using s1(5) unfolding True by (simp only: if_True refl)
      ultimately show ?thesis by blast
    qed
    then show ?thesis using s1(1-4) True by (simp add: alloc_cluster_def)
  next
    case False
    then obtain pre post where pp: "?cls = pre @ cl # post" "\<forall>d \<in> set pre. ?t d \<noteq> 0" "?t cl = 0" using s1(5) by auto
    note r = range16_split [OF pp(1)]
    have acl: "cl_ok s cl" using acc pp by blast
    obtain s2 where s2: "write_fat_entry io cl 0xFFF s1 = Some s2" "same_fat s1 s2" "ok (fbc s2)"
        "\<forall>d. cl_ok s d \<longrightarrow> tab (vol (fbc s2)) s d = (if d = cl then 0xFFF else ?t d)"
        "\<forall>l. root_secs s \<le> l \<longrightarrow> l < 2 ^ 28 \<longrightarrow> vol (fbc s2) (of_int l) = vol (fbc s) (of_int l)"
      using write_fat_entry_ok [OF s1(3), of cl "0xFFF"] assms(2) acl e s1(4) by auto
    have "alloc_cluster io s = Some (cl, s2)" using s1(1) s2(1) False by (simp add: alloc_cluster_def)
    moreover have "same_fat s s2" using same_fat_trans s1(2) s2(2) by blast
    ultimately show ?thesis using False r pp(2,3) acl s2(3-5) by auto
  qed
qed

end

text \<open>The bound of the search keeps it inside of the table.\<close>

lemma max_cluster_in_fat:
  assumes "0 < fat_secs s" "c < max_cluster s"
  shows "in_fat s c"
proof -
  let ?m = "(fat_secs s * 512 * 2) div 3"
  have "uint (max_cluster s) = ?m mod 2 ^ 16" by (simp add: max_cluster_def unsigned_of_int take_bit_eq_mod)
  also have "\<dots> \<le> ?m" using assms(1) by (intro zmod_le_nonneg_dividend) simp
  finally have "uint c < ?m" using assms(2) by (simp add: word_less_def)
  then have "3 * int (unat c) + 3 \<le> fat_secs s * 1024" by simp
  moreover have "fat_off c \<le> 3 * unat c div 2" by (simp add: fat_off_def)
  ultimately have "int (fat_off c) < fat_secs s * 512" by linarith
  then show ?thesis unfolding in_fat_def by (simp add: zdiv_int)
qed

lemma scan_split:
  assumes "\<not> scan_ok v s" "0 < fat_secs s"
  obtains pre c post where "map of_nat [2..<unat (max_cluster s)] = pre @ c # post"
    "\<forall>d \<in> set pre. cl_ok s d \<and> tab v s d \<noteq> 0" "in_fat s c" "split_entry c"
proof -
  let ?Q = "\<lambda>c. 2 \<le> c \<and> c < max_cluster s \<and> (\<forall>d. 2 \<le> d \<and> d < c \<longrightarrow> tab v s d \<noteq> 0) \<and> \<not> cl_ok s c"
  from assms(1) obtain c0 where "?Q c0" unfolding scan_ok_def by blast
  then have "\<exists>c. ?Q c \<and> (\<forall>d. ?Q d \<longrightarrow> unat c \<le> unat d)" by (rule ex_has_least_nat)
  then obtain c where c: "?Q c" "\<And>d. ?Q d \<Longrightarrow> unat c \<le> unat d" by blast
  have "c = of_nat (unat c)" "unat c \<in> set [2..<unat (max_cluster s)]"
    using c(1) by (simp_all add: word_le_nat_alt word_less_nat_alt)
  then have "c \<in> set (map of_nat [2..<unat (max_cluster s)])" unfolding set_map by (rule image_eqI)
  then obtain pre post where sp: "map of_nat [2..<unat (max_cluster s)] = pre @ c # post" using split_list by fast
  note r = range16_split [OF sp]
  have "cl_ok s d \<and> tab v s d \<noteq> 0" if "d \<in> set pre" for d
  proof -
    have d: "2 \<le> d" "d < c" using that r by auto
    then have "\<forall>e. 2 \<le> e \<and> e < d \<longrightarrow> tab v s e \<noteq> 0" "d < max_cluster s" using c(1) by auto
    then have "cl_ok s d" using c(2) [of d] d by (auto simp: word_less_nat_alt)
    then show ?thesis using d c(1) by blast
  qed
  moreover have "in_fat s c" using max_cluster_in_fat assms(2) c(1) by blast
  ultimately show thesis using that [OF sp] c(1) by (auto simp: cl_ok_alt)
qed

context prompt_drive begin

lemma fat_laws: "fat_store (ata_io P drive) (disk_vol drv drive) (disk_healthy lag drv drive) lba28"
proof (intro fat_store.intro fat_store_axioms.intro)
  show "sector_store (ata_io P drive) (disk_vol drv drive) (disk_healthy lag drv drive) lba28"
    by (rule good_disk.store.sector_store_axioms)
  fix n :: int assume "0 \<le> n" "n < 2 ^ 28"
  then show "lba28 (of_int n)" by (simp add: lba28_def unsigned_of_int take_bit_int_eq_self nat_less_iff)
qed

end

sublocale prompt_drive \<subseteq> fat: fat_store "ata_io P drive" "disk_vol drv drive" "disk_healthy lag drv drive" lba28 for drive
  by (rule fat_laws)

section \<open>Names\<close>

text \<open>Characters that survive in a short name.\<close>

definition plain :: "u8 \<Rightarrow> bool" where
  "plain c = (0x20 < c \<and> c \<le> 0x7E \<and> c \<noteq> 0x2E)"

definition valid83 :: "cstr \<Rightarrow> bool" where
  "valid83 nm = (\<exists>base ext. base \<noteq> [] \<and> length base \<le> 8 \<and> length ext \<le> 3 \<and> list_all plain base \<and> list_all plain ext \<and>
     nm = (if ext = [] then base else base @ [0x2E] @ ext))"

lemma plain_upcase: "plain c \<Longrightarrow> plain (upcase c) \<and> conv83 c = upcase c \<and> upcase (upcase c) = upcase c"
proof -
  assume c: "plain c"
  have l: "plain (c - 32) \<and> \<not> (0x61 \<le> c - 32 \<and> c - 32 \<le> 0x7A)" if "0x61 \<le> c" "c \<le> 0x7A"
  proof -
    have u: "unat c \<ge> 0x61" "unat c \<le> 0x7A" using that by (simp_all add: word_le_nat_alt)
    then have "unat (c - 32) = unat c - 32" by (subst unat_sub) (simp_all add: word_le_nat_alt)
    moreover have "c - 32 = 0x2E \<longleftrightarrow> unat (c - 32) = 0x2E" by (simp add: word_unat_eq_iff)
    ultimately show ?thesis using u by (auto simp: plain_def word_le_nat_alt word_less_nat_alt)
  qed
  have "conv83 c = upcase c" if "plain (upcase c)"
    using that by (auto simp: conv83_def plain_def Let_def)
  with c l show ?thesis by (auto simp: upcase_def)
qed

lemma takeWhile_pad:
  assumes "list_all plain xs" "length xs \<le> n"
  shows "takeWhile (\<lambda>c. c \<noteq> 0x20) (pad_to n (map upcase xs)) = map upcase xs"
proof -
  have "c \<noteq> 0x20" if "c \<in> set (map upcase xs)" for c
  proof -
    obtain d where "d \<in> set xs" "c = upcase d" using \<open>c \<in> set (map upcase xs)\<close> by auto
    then have "plain c" using assms(1) plain_upcase by (simp add: list_all_iff)
    then show ?thesis by (auto simp: plain_def)
  qed
  then have "takeWhile (\<lambda>c. c \<noteq> 0x20) (map upcase xs @ replicate k 0x20) = map upcase xs @ takeWhile (\<lambda>c. c \<noteq> 0x20) (replicate k 0x20)" for k
    by (rule takeWhile_append2)
  moreover have "takeWhile (\<lambda>c. c \<noteq> 0x20) (replicate k (0x20 :: u8)) = []" for k by (cases k) auto
  ultimately show ?thesis by (simp add: pad_to_def)
qed

lemma map_conv83: "list_all plain xs \<Longrightarrow> map conv83 xs = map upcase xs"
  by (induction xs) (auto simp: plain_upcase)

lemma map_sanitize: "list_all plain xs \<Longrightarrow> map sanitize (map upcase xs) = map upcase xs"
proof (induction xs)
  case (Cons c xs)
  then have "plain (upcase c)" using plain_upcase by simp
  then have "sanitize (upcase c) = upcase c" by (auto simp: plain_def sanitize_def)
  with Cons show ?case by simp
qed simp

lemma str_to_name83_parts:
  assumes "list_all plain base" "list_all plain ext" "length base \<le> 8" "length ext \<le> 3" "base \<noteq> []"
  shows "str_to_name83 (if ext = [] then base else base @ [0x2E] @ ext) = pad_to 8 (map upcase base) @ pad_to 3 (map upcase ext)"
proof -
  have nb: "\<forall>c \<in> set base. c \<noteq> 0x2E" using assms(1) by (auto simp: list_all_iff plain_def)
  have tw: "takeWhile (\<lambda>c. c \<noteq> 0x2E) base = base" using nb by (simp add: takeWhile_eq_all_conv)
  show ?thesis
  proof (cases "ext = []")
    case True
    then show ?thesis using assms by (simp add: str_to_name83_def Let_def chr_at_def map_conv83 tw)
  next
    case False
    have "takeWhile (\<lambda>c. c \<noteq> 0x2E) (base @ 0x2E # ext) = base" using nb by (simp add: takeWhile_append2)
    then show ?thesis using False assms by (simp add: str_to_name83_def Let_def chr_at_def map_conv83 nth_append)
  qed
qed

lemma length_pad_to [simp]: "length xs \<le> n \<Longrightarrow> length (pad_to n xs) = n"
  by (simp add: pad_to_def)

lemma name83_roundtrip_parts:
  assumes "list_all plain base" "list_all plain ext" "length base \<le> 8" "length ext \<le> 3" "base \<noteq> []"
  shows "name83_to_str (pad_to 8 (map upcase base) @ pad_to 3 (map upcase ext)) =
    map upcase (if ext = [] then base else base @ [0x2E] @ ext)"
proof -
  have up: "upcase 0x2E = 0x2E" "sanitize 0x2E = 0x2E" by (simp_all add: upcase_def sanitize_def)
  have l: "last (map upcase ext) \<noteq> 0x2E" if "ext \<noteq> []"
  proof -
    have "plain (last ext)" using assms(2) that by (simp add: list_all_iff)
    then show ?thesis using that plain_upcase by (auto simp: last_map plain_def)
  qed
  have e: "takeWhile (\<lambda>c. c \<noteq> 0x20) (take 8 (pad_to 8 (map upcase base) @ pad_to 3 (map upcase ext))) = map upcase base"
    "takeWhile (\<lambda>c. c \<noteq> 0x20) (take 3 (drop 8 (pad_to 8 (map upcase base) @ pad_to 3 (map upcase ext)))) = map upcase ext"
    using assms by (simp_all add: takeWhile_pad)
  show ?thesis
    unfolding name83_to_str_def Let_def e
    using l up map_sanitize [OF assms(1)] map_sanitize [OF assms(2)]
    by (cases "ext = []") (simp_all del: map_map)
qed

lemma name_match_upcase:
  assumes "list_all plain base" "list_all plain ext"
  shows "name_match (map upcase (if ext = [] then base else base @ [0x2E] @ ext)) (if ext = [] then base else base @ [0x2E] @ ext)"
proof -
  have g: "name_match (map upcase xs) xs" if "\<forall>c \<in> set xs. upcase (upcase c) = upcase c" for xs
    using that by (induction xs) auto
  have "upcase (upcase 0x2E) = upcase 0x2E" by (simp add: upcase_def)
  then show ?thesis using assms plain_upcase by (intro g) (auto simp: list_all_iff)
qed

text \<open>The bytes of a long name fit the buffer, with room for the terminator.\<close>

lemma length_utf8_of: "length (utf8_of cp) \<le> 4"
  by (simp add: utf8_of_def)

lemma lfn_bytes_fit: "n < lim \<Longrightarrow> n + length (lfn_bytes lim n us) < lim"
proof (induction lim n us rule: lfn_bytes.induct)
  case (1 lim n us)
  show ?case
  proof (cases "us \<noteq> [] \<and> n + 4 < lim")
    case True
    let ?bs = "utf8_of (fst (utf16_head us))"
    have "n + length ?bs < lim" using length_utf8_of [of "fst (utf16_head us)"] True by linarith
    with "1.IH" [OF True refl] True show ?thesis by (subst lfn_bytes.simps) (simp add: Let_def)
  qed (use "1.prems" in \<open>auto simp: lfn_bytes.simps\<close>)
qed

section \<open>Properties\<close>

text \<open>C33. The packed table is a map from clusters to 12-bit values, except for the entries that are split over two
  sectors: on a working drive, writing the entry of any other cluster of the table succeeds, and from then on reading that
  entry gives the low 12 bits of the value written while every other entry that is not split, also the one that shares a
  byte with it, reads as before. Reading or writing a split entry leaves the 512-byte sector buffer.\<close>

theorem fat_entry_roundtrip:
  assumes "prompt_drive P lag drv" "disk_healthy lag drv drive (fbc s)" "fat_geo s" "in_fat s cl"
  shows "if split_entry cl
    then write_fat_entry (ata_io P drive) cl x s = None \<and> read_fat_entry (ata_io P drive) cl s = None
    else \<exists>s'. write_fat_entry (ata_io P drive) cl x s = Some s' \<and>
      (\<forall>d. in_fat s d \<longrightarrow> (if split_entry d then read_fat_entry (ata_io P drive) d s' = None
         else \<exists>s''. read_fat_entry (ata_io P drive) d s' =
           Some (if d = cl then x AND 0xFFF else tab (disk_vol drv drive (fbc s)) s d, s'')))"
proof (cases "split_entry cl")
  case True
  with fat_store.split_entry_fails [OF prompt_drive.fat_laws [OF assms(1)] assms(2-4)] show ?thesis
    by (simp add: fat_store.read_fat_entry_eq [OF prompt_drive.fat_laws [OF assms(1)]])
next
  case False
  note fl = prompt_drive.fat_laws [OF assms(1), of drive]
  have "cl_ok s cl" using assms(4) False by (simp add: cl_ok_alt)
  then obtain s' where s': "write_fat_entry (ata_io P drive) cl x s = Some s'" "same_fat s s'" "disk_healthy lag drv drive (fbc s')"
      "\<forall>d. cl_ok s d \<longrightarrow> tab (disk_vol drv drive (fbc s')) s d = (if d = cl then x AND 0xFFF else tab (disk_vol drv drive (fbc s)) s d)"
    using fat_store.write_fat_entry_ok [OF fl assms(2,3), of cl x] by blast
  note e = same_fat_simps [OF s'(2)]
  have "if split_entry d then read_fat_entry (ata_io P drive) d s' = None else \<exists>s''. read_fat_entry (ata_io P drive) d s' =
      Some (if d = cl then x AND 0xFFF else tab (disk_vol drv drive (fbc s)) s d, s'')" if d: "in_fat s d" for d
    using fat_store.next_cluster_ok [OF fl s'(3), of d] fat_store.split_entry_fails(1) [OF fl s'(3), of d] assms(3) s'(4) e d
    by (auto simp: fat_store.read_fat_entry_eq [OF fl] cl_ok_alt)
  with s'(1) False show ?thesis by auto
qed

definition demo_fat :: "pio fatfs" where
  "demo_fat = \<lparr>fbuf = replicate 512 0, start_sec = 1, fat_secs = 1, root_secs = 3, data_sec = 10, spc = 1, bps = 512, num_fat = 2,
     root_ents = 112, cur_dir_cluster = 0, cur_dir_name = replicate 160 0, lfn_u16 = replicate 260 0, lfn_chars = 0, lfn_total = 0,
     lfn_cksum = 0, lfn_have = False, lfn_ok = False, fbc = demo_bc, fscr = demo_gfx, stack_tail = []\<rparr>"

lemma demo_fat_ok: "disk_healthy at_once as_is 1 (fbc demo_fat)" "fat_geo demo_fat" "in_fat demo_fat 2" "\<not> split_entry 2"
    "in_fat demo_fat 341" "split_entry 341" "in_fat demo_fat 3" "\<not> split_entry 3"
  by (simp_all add: demo_fat_def fat_geo_def in_fat_def split_entry_def fat_off_def coherent_def demo_bc_def BC_ENTRIES_def disk_good_def
      disk_ready_def drive_ok_def demo_pio_def)

lemma demo_fat_tab: "tab (disk_vol as_is 1 (fbc demo_fat)) demo_fat d = 0"
proof -
  have w: "bytes_of_words (replicate 256 0) = replicate 512 0" by (simp add: bytes_of_words_def numeral_eq_Suc)
  have b: "byte_at (replicate 512 0) i = 0" for i by (simp add: byte_at_def)
  have "le16 (replicate 512 0) i = 0" for i unfolding le16_def b by (simp add: word_cat_eq)
  then show ?thesis by (simp add: tab_def demo_fat_def demo_bc_def demo_pio_def disk_sec_def w fat_val_def)
qed

lemmas demo_fat_tabs = demo_fat_tab demo_fat_tab [unfolded One_nat_def]

theorem fat_entry_roundtrip_witness:
  "\<exists>s'. write_fat_entry (ata_io pio_ports 1) 2 0x1ABC demo_fat = Some s' \<and>
    (\<exists>s''. read_fat_entry (ata_io pio_ports 1) 2 s' = Some (0xABC, s'')) \<and>
    (\<exists>s''. read_fat_entry (ata_io pio_ports 1) 3 s' = Some (0, s'')) \<and> read_fat_entry (ata_io pio_ports 1) 341 s' = None"
proof -
  from fat_entry_roundtrip [OF instant.prompt_drive_axioms demo_fat_ok(1-3), of "0x1ABC"] demo_fat_ok(4)
  obtain s' where "write_fat_entry (ata_io pio_ports 1) 2 0x1ABC demo_fat = Some s'"
    and r: "\<forall>d. in_fat demo_fat d \<longrightarrow> (if split_entry d then read_fat_entry (ata_io pio_ports 1) d s' = None
         else \<exists>s''. read_fat_entry (ata_io pio_ports 1) d s' =
           Some (if d = 2 then 0x1ABC AND 0xFFF else tab (disk_vol as_is 1 (fbc demo_fat)) demo_fat d, s''))" by auto
  moreover note r [rule_format, OF demo_fat_ok(3)] r [rule_format, OF demo_fat_ok(7)] r [rule_format, OF demo_fat_ok(5)]
  ultimately show ?thesis using demo_fat_ok by (simp add: demo_fat_tabs)
qed

text \<open>C34. Cluster allocation returns the lowest free cluster and marks it as the end of a chain, or returns 0 and
  changes nothing if no cluster is free; no other entry of the table changes. This holds as long as the search meets no
  entry that is split over two sectors (\<open>scan_ok\<close>); if it does, that is once clusters 2 to 340 are in use on a volume with
  a longer table, it leaves the sector buffer.\<close>

theorem alloc_cluster_first_free:
  assumes "prompt_drive P lag drv" "disk_healthy lag drv drive (fbc s)" "fat_geo s"
  shows "if scan_ok (disk_vol drv drive (fbc s)) s then \<exists>cl s'. alloc_cluster (ata_io P drive) s = Some (cl, s') \<and>
    (if cl = 0 then (\<forall>d. 2 \<le> d \<and> d < max_cluster s \<longrightarrow> tab (disk_vol drv drive (fbc s)) s d \<noteq> 0) \<and> disk_vol drv drive (fbc s') = disk_vol drv drive (fbc s)
     else 2 \<le> cl \<and> cl < max_cluster s \<and> tab (disk_vol drv drive (fbc s)) s cl = 0 \<and>
       (\<forall>d. 2 \<le> d \<and> d < cl \<longrightarrow> tab (disk_vol drv drive (fbc s)) s d \<noteq> 0) \<and>
       (\<forall>d. cl_ok s d \<longrightarrow> tab (disk_vol drv drive (fbc s')) s d = (if d = cl then 0xFFF else tab (disk_vol drv drive (fbc s)) s d)))
    else alloc_cluster (ata_io P drive) s = None"
proof (cases "scan_ok (disk_vol drv drive (fbc s)) s")
  case True
  from fat_store.alloc_cluster_ok [OF prompt_drive.fat_laws [OF assms(1)] assms(2,3) True]
  obtain cl s' where a: "alloc_cluster (ata_io P drive) s = Some (cl, s')"
    and r: "if cl = 0 then (\<forall>d. 2 \<le> d \<and> d < max_cluster s \<longrightarrow> tab (disk_vol drv drive (fbc s)) s d \<noteq> 0) \<and> disk_vol drv drive (fbc s') = disk_vol drv drive (fbc s)
     else 2 \<le> cl \<and> cl < max_cluster s \<and> tab (disk_vol drv drive (fbc s)) s cl = 0 \<and>
       (\<forall>d. 2 \<le> d \<and> d < cl \<longrightarrow> tab (disk_vol drv drive (fbc s)) s d \<noteq> 0) \<and>
       (\<forall>d. cl_ok s d \<longrightarrow> tab (disk_vol drv drive (fbc s')) s d = (if d = cl then 0xFFF else tab (disk_vol drv drive (fbc s)) s d))"
    by (elim exE) (auto split: if_splits)
  from a r True show ?thesis by (simp only: if_True) blast
next
  case False
  have "0 < fat_secs s" using assms(3) by (simp add: fat_geo_def)
  from scan_split [OF False this]
  obtain pre c post where "map of_nat [2..<unat (max_cluster s)] = pre @ c # post"
    "\<forall>d \<in> set pre. cl_ok s d \<and> tab (disk_vol drv drive (fbc s)) s d \<noteq> 0" "in_fat s c" "split_entry c" .
  then have "find_free_cluster (ata_io P drive) s = None"
    using fat_store.free_scan_split [OF prompt_drive.fat_laws [OF assms(1)] assms(2,3)] by (simp add: find_free_cluster_def)
  then show ?thesis using False by (simp add: alloc_cluster_def)
qed

lemma demo_fat_scan: "scan_ok (disk_vol as_is 1 (fbc demo_fat)) demo_fat"
  unfolding scan_ok_def demo_fat_tab
proof (intro allI impI, elim conjE)
  fix c :: u16 assume "2 \<le> c" "c < max_cluster demo_fat" "\<forall>d. 2 \<le> d \<and> d < c \<longrightarrow> (0 :: u16) \<noteq> 0"
  then have "\<not> 2 < c" by auto
  with \<open>2 \<le> c\<close> have "c = 2" by simp
  then show "cl_ok demo_fat c" using demo_fat_ok(3,4) by (simp add: cl_ok_alt)
qed

theorem alloc_cluster_first_free_witness:
  "\<exists>s'. alloc_cluster (ata_io pio_ports 1) demo_fat = Some (2, s') \<and> tab (disk_vol as_is 1 (fbc s')) demo_fat 2 = 0xFFF"
proof -
  let ?t = "tab (disk_vol as_is 1 (fbc demo_fat)) demo_fat"
  from alloc_cluster_first_free [OF instant.prompt_drive_axioms demo_fat_ok(1,2)] demo_fat_scan
  obtain cl s' where a: "alloc_cluster (ata_io pio_ports 1) demo_fat = Some (cl, s')"
    and r: "if cl = 0 then (\<forall>d. 2 \<le> d \<and> d < max_cluster demo_fat \<longrightarrow> ?t d \<noteq> 0) \<and> disk_vol as_is 1 (fbc s') = disk_vol as_is 1 (fbc demo_fat)
     else 2 \<le> cl \<and> cl < max_cluster demo_fat \<and> ?t cl = 0 \<and> (\<forall>d. 2 \<le> d \<and> d < cl \<longrightarrow> ?t d \<noteq> 0) \<and>
       (\<forall>d. cl_ok demo_fat d \<longrightarrow> tab (disk_vol as_is 1 (fbc s')) demo_fat d = (if d = cl then 0xFFF else ?t d))"
    by (simp only: if_True) blast
  have m: "(2 :: u16) < max_cluster demo_fat" by (simp add: max_cluster_def demo_fat_def)
  have "cl \<noteq> 0" using r m by (auto simp: demo_fat_tabs dest: spec [of _ 2])
  then have c: "2 \<le> cl" "\<forall>d. 2 \<le> d \<and> d < cl \<longrightarrow> ?t d \<noteq> 0"
    "\<forall>d. cl_ok demo_fat d \<longrightarrow> tab (disk_vol as_is 1 (fbc s')) demo_fat d = (if d = cl then 0xFFF else ?t d)"
    using r by simp_all
  have "\<not> 2 < cl" using c(2) by (auto simp: demo_fat_tabs)
  then have "cl = 2" using c(1) by simp
  moreover have "cl_ok demo_fat 2" using demo_fat_ok(3,4) by (simp add: cl_ok_alt)
  ultimately show ?thesis using a c(3) by simp
qed

text \<open>C35. Freeing a chain ends whenever the chain does: for a chain of clusters of the table that visits no cluster twice and
  none whose entry is split over two sectors, every cluster of the chain becomes free and no other entry changes, nor any
  sector of the root directory or the data area. If the chain visits a cluster with a split entry, \<open>free_chain\<close> leaves
  the sector buffer there.\<close>

theorem free_chain_frees:
  assumes "prompt_drive P lag drv" "disk_healthy lag drv drive (fbc s)" "fat_geo s"
    "is_chain (tab (disk_vol drv drive (fbc s)) s) cl xs" "distinct xs" "\<forall>x \<in> set xs. in_fat s x"
  shows "if \<exists>x \<in> set xs. split_entry x then free_chain (ata_io P drive) cl s = None
    else \<exists>s'. free_chain (ata_io P drive) cl s = Some s' \<and>
      (\<forall>d. cl_ok s d \<longrightarrow> tab (disk_vol drv drive (fbc s')) s d = (if d \<in> set xs then 0 else tab (disk_vol drv drive (fbc s)) s d)) \<and>
      (\<forall>l. root_secs s \<le> l \<longrightarrow> l < 2 ^ 28 \<longrightarrow> disk_vol drv drive (fbc s') (of_int l) = disk_vol drv drive (fbc s) (of_int l))"
proof (cases "\<exists>x \<in> set xs. split_entry x")
  case True
  from split_list_first_prop [OF this] obtain ys c zs where
    xs: "xs = ys @ c # zs" "split_entry c" "\<forall>y \<in> set ys. \<not> split_entry y" by blast
  have "\<forall>y \<in> set ys. cl_ok s y" using xs assms(6) by (simp add: cl_ok_alt)
  from fat_store.free_chain_split [OF prompt_drive.fat_laws [OF assms(1)] assms(2,3) assms(4,5) [unfolded xs(1)] this _ xs(2)]
    assms(6) xs(1) True show ?thesis by simp
next
  case False
  then have "\<forall>x \<in> set xs. cl_ok s x" using assms(6) by (simp add: cl_ok_alt)
  from fat_store.free_chain_ok [OF prompt_drive.fat_laws [OF assms(1)] assms(2-5) this] False show ?thesis by (simp only: if_False) blast
qed

text \<open>A volume whose clusters 2 and 3 form a chain.\<close>

definition demo_chain :: "pio fatfs" where
  "demo_chain = demo_fat\<lparr>fbc := demo_bc\<lparr>dev := demo_pio\<lparr>sectors := \<lambda>_ l. if l = 1 then [0, 0x0300, 0xFFF0] @ replicate 253 0 else replicate 256 0\<rparr>\<rparr>\<rparr>"

lemma demo_chain_tab: "tab (disk_vol as_is 1 (fbc demo_chain)) demo_chain 2 = 3" "tab (disk_vol as_is 1 (fbc demo_chain)) demo_chain 3 = 0xFFF"
  by (simp_all add: tab_def demo_chain_def demo_fat_def demo_bc_def demo_pio_def disk_sec_def bytes_of_words_def fat_off_def le16_def byte_at_def
      fat_val_def word_cat_eq)

lemma demo_chain_ok: "disk_healthy at_once as_is 1 (fbc demo_chain)" "fat_geo demo_chain" "in_fat demo_chain 2" "in_fat demo_chain 3"
  by (simp_all add: demo_chain_def demo_fat_def fat_geo_def in_fat_def fat_off_def coherent_def demo_bc_def BC_ENTRIES_def disk_good_def
      disk_ready_def drive_ok_def demo_pio_def)

theorem free_chain_frees_witness:
  "\<exists>s'. free_chain (ata_io pio_ports 1) 2 demo_chain = Some s' \<and> tab (disk_vol as_is 1 (fbc s')) demo_chain 2 = 0 \<and>
     tab (disk_vol as_is 1 (fbc s')) demo_chain 3 = 0"
proof -
  have "is_chain (tab (disk_vol as_is 1 (fbc demo_chain)) demo_chain) 2 [2, 3]"
    by (simp only: is_chain.simps demo_chain_tab) (simp add: in_chain_def)
  from free_chain_frees [OF instant.prompt_drive_axioms demo_chain_ok(1,2) this] demo_chain_ok(3,4) demo_fat_ok(4,8)
  obtain s' where "free_chain (ata_io pio_ports 1) 2 demo_chain = Some s'"
    "\<forall>d. cl_ok demo_chain d \<longrightarrow> tab (disk_vol as_is 1 (fbc s')) demo_chain d =
      (if d \<in> set [2, 3] then 0 else tab (disk_vol as_is 1 (fbc demo_chain)) demo_chain d)" by auto
  then show ?thesis using demo_chain_ok(3,4) demo_fat_ok(4,8) by (simp add: cl_ok_alt)
qed

text \<open>A name of the 8.3 form, in any case, is found again: the name that \<open>name83_to_str\<close> makes of the stored
  short name matches it.\<close>

theorem short_name_found:
  assumes "valid83 nm"
  shows "length (str_to_name83 nm) = 11 \<and> name_match (name83_to_str (str_to_name83 nm)) nm"
proof -
  obtain base ext where be: "base \<noteq> []" "length base \<le> 8" "length ext \<le> 3" "list_all plain base" "list_all plain ext"
      "nm = (if ext = [] then base else base @ [0x2E] @ ext)" using assms unfolding valid83_def by blast
  note p = str_to_name83_parts [OF be(4,5,2,3,1)]
  show ?thesis
    unfolding be(6) p name83_roundtrip_parts [OF be(4,5,2,3,1)] using name_match_upcase [OF be(4,5)] be(2,3) by simp
qed

theorem short_name_found_witness:
  "name_match (name83_to_str (str_to_name83 (bytes_of ''Readme.txt''))) (bytes_of ''Readme.txt'')"
proof -
  have "valid83 (bytes_of ''Readme.txt'')" unfolding valid83_def
    by (intro exI [of _ "bytes_of ''Readme''"] exI [of _ "bytes_of ''txt''"]) (simp add: plain_def)
  from short_name_found [OF this] show ?thesis by simp
qed

text \<open>Whatever the long-name slots of a directory hold, the name assembled for an entry fits its buffer
  together with the terminating NUL.\<close>

theorem entry_name_fits:
  assumes "13 \<le> lim"
  shows "length (fst (entry_name e lim s)) < lim"
proof -
  have "length (name83_to_str e) \<le> 12"
  proof -
    have "length (takeWhile (\<lambda>c. c \<noteq> 0x20) (take 8 e)) \<le> 8" "length (takeWhile (\<lambda>c. c \<noteq> 0x20) (take 3 (drop 8 e))) \<le> 3"
      by (rule order_trans [OF length_takeWhile_le], simp)+
    then show ?thesis by (simp add: name83_to_str_def Let_def)
  qed
  moreover have "length (cstr_of (lfn_bytes lim 0 us)) < lim" for us
    using lfn_bytes_fit [of 0 lim us] assms length_takeWhile_le [of "\<lambda>c. c \<noteq> 0" "lfn_bytes lim 0 us"]
    by (simp add: cstr_of_def)
  ultimately show ?thesis using assms by (simp add: entry_name_def Let_def)
qed

theorem entry_name_fits_witness: "length (fst (entry_name (replicate 32 0x41) 64 demo_fat)) < 64"
  by (rule entry_name_fits) simp

end
