(* ===== verification/XE_Ext2.thy ===== *)
theory XE_Ext2
  imports XE_Fat12 XE_Input
begin

text \<open>
  The read-only ext2 filesystem: \<^verbatim>\<open>src/src/fs/ext2.h\<close> and \<^verbatim>\<open>src/src/fs/ext2.cpp\<close>.

  The state is the \<open>Ext2Filesystem\<close> object; its operations read through the block cache, and \<open>dir\<close> writes to the
  screen. An operation is \<open>None\<close> where it divides by zero, writes past a local buffer, or looks at
  bytes that no read has filled. On-disk structures are byte lists, accessed at the offsets of their fields.
  The lemmas relate the driver to a reference reading of the disk.
\<close>

unbundle bit_operations_syntax

section \<open>State and on-disk structures\<close>

record ext2fs =
  e_base_lba :: u32
  e_block_size :: u32
  e_inodes_per_group :: u32
  e_blocks_per_group :: u32
  e_num_block_groups :: u32
  e_first_data_block :: u32

definition EXT2_MAGIC :: u16 where "EXT2_MAGIC = 0xEF53"
definition EXT2_INODE_SIZE :: u32 where "EXT2_INODE_SIZE = 128"
definition EXT2_ROOT_INO :: u32 where "EXT2_ROOT_INO = 2"
definition EXT2_S_IFMT :: u16 where "EXT2_S_IFMT = 0xF000"
definition EXT2_S_IFREG :: u16 where "EXT2_S_IFREG = 0x8000"
definition EXT2_S_IFDIR :: u16 where "EXT2_S_IFDIR = 0x4000"

text \<open>Fields of the superblock, of a block group descriptor and of an inode.\<close>

definition s_inodes_count :: "u8 list \<Rightarrow> u32" where "s_inodes_count b = le32 b 0"
definition s_blocks_count :: "u8 list \<Rightarrow> u32" where "s_blocks_count b = le32 b 4"
definition s_first_data_block :: "u8 list \<Rightarrow> u32" where "s_first_data_block b = le32 b 20"
definition s_log_block_size :: "u8 list \<Rightarrow> u32" where "s_log_block_size b = le32 b 24"
definition s_blocks_per_group :: "u8 list \<Rightarrow> u32" where "s_blocks_per_group b = le32 b 32"
definition s_inodes_per_group :: "u8 list \<Rightarrow> u32" where "s_inodes_per_group b = le32 b 40"
definition s_magic :: "u8 list \<Rightarrow> u16" where "s_magic b = le16 b 56"
definition bg_inode_table :: nat where "bg_inode_table = 8"
definition i_mode :: "u8 list \<Rightarrow> u16" where "i_mode b = le16 b 0"
definition i_size :: "u8 list \<Rightarrow> u32" where "i_size b = le32 b 4"
definition i_block :: "u8 list \<Rightarrow> nat \<Rightarrow> u32" where "i_block b n = le32 b (40 + 4 * n)"

definition is_dir_mode :: "u8 list \<Rightarrow> bool" where
  "is_dir_mode ino = (i_mode ino AND EXT2_S_IFMT = EXT2_S_IFDIR)"

definition is_reg_mode :: "u8 list \<Rightarrow> bool" where
  "is_reg_mode ino = (i_mode ino AND EXT2_S_IFMT = EXT2_S_IFREG)"

text \<open>A 32-bit word of a buffer, at a byte offset; \<open>None\<close> behind the filled part.\<close>

definition get32 :: "u8 list \<Rightarrow> nat \<Rightarrow> u32 option" where
  "get32 b i = (if i + 4 \<le> length b then Some (le32 b i) else None)"

section \<open>Initialisation\<close>

fun dec_rev :: "nat \<Rightarrow> cstr" where
  "dec_rev n = (if n = 0 then [] else (48 + of_nat (n mod 10)) # dec_rev (n div 10))"

declare dec_rev.simps [simp del]

definition e2_log :: "'d ports \<Rightarrow> cstr \<Rightarrow> 'd bcache \<Rightarrow> 'd bcache" where
  "e2_log P bs c = c\<lparr>dev := serial_puts P bs (dev c)\<rparr>"

text \<open>Decimal output through \<open>char tmp[8]\<close>.\<close>

definition e2_dec :: "u32 \<Rightarrow> cstr option" where
  "e2_dec v = (let ds = dec_rev (unat v) in if length ds \<le> 8 then Some (rev ds) else None)"

definition e2_init :: "'d ports \<Rightarrow> 'd blkio \<Rightarrow> u32 \<Rightarrow> ext2fs \<Rightarrow> 'd bcache \<Rightarrow> (int \<times> ext2fs \<times> 'd bcache) option" where
  "e2_init P io base fs0 c0 =
     (let fs1 = fs0\<lparr>e_base_lba := base\<rparr> in
      case bc_read io (base + 2) 2 c0 of ((r, sb), c) \<Rightarrow>
        if r < 0 then Some (- 1, fs1, e2_log P (bytes_of ''ext2: superblock read failed'' @ [10]) c)
        else if s_magic sb \<noteq> EXT2_MAGIC then Some (- 2, fs1, e2_log P (bytes_of ''ext2: bad magic'' @ [10]) c)
        else if s_log_block_size sb \<ge> 32 then None
        else
          let bs = push_bit (unat (s_log_block_size sb)) 1024; fs2 = fs1\<lparr>e_block_size := bs\<rparr> in
          if bs > 4096 then Some (- 3, fs2, e2_log P (bytes_of ''ext2: block size > 4KB unsupported'' @ [10]) c)
          else if s_blocks_per_group sb = 0 then None
          else
            let fs3 = fs2\<lparr>e_inodes_per_group := s_inodes_per_group sb, e_blocks_per_group := s_blocks_per_group sb,
                  e_first_data_block := s_first_data_block sb,
                  e_num_block_groups := (s_blocks_count sb + s_blocks_per_group sb - 1) div s_blocks_per_group sb\<rparr>
            in case (e2_dec bs, e2_dec (s_inodes_count sb), e2_dec (s_blocks_count sb)) of
                 (Some a, Some b, Some d) \<Rightarrow>
                   Some (0, fs3, e2_log P (bytes_of ''ext2: magic OK, block_size='' @ a @ bytes_of '' inodes='' @ b @
                     bytes_of '' blocks='' @ d @ [10]) c)
               | _ \<Rightarrow> None)"

section \<open>Blocks and inodes\<close>

definition e2_read_block :: "'d blkio \<Rightarrow> ext2fs \<Rightarrow> u32 \<Rightarrow> 'd bcache \<Rightarrow> (int \<times> u8 list) \<times> 'd bcache" where
  "e2_read_block io fs block c =
     (let secs_per_block = ucast (e_block_size fs div 512) :: u8
      in bc_read io (e_base_lba fs + block * ucast secs_per_block) secs_per_block c)"

text \<open>The same into a local buffer of \<open>cap\<close> bytes.\<close>

definition read_into :: "nat \<Rightarrow> 'd blkio \<Rightarrow> ext2fs \<Rightarrow> u32 \<Rightarrow> 'd bcache \<Rightarrow> ((int \<times> u8 list) \<times> 'd bcache) option" where
  "read_into cap io fs block c =
     (case e2_read_block io fs block c of ((r, b), c1) \<Rightarrow> if length b > cap then None else Some ((r, b), c1))"

definition e2_read_inode :: "'d blkio \<Rightarrow> ext2fs \<Rightarrow> u32 \<Rightarrow> 'd bcache \<Rightarrow> ((int \<times> u8 list) \<times> 'd bcache) option" where
  "e2_read_inode io fs ino c =
     (if ino < 1 then Some ((- 1, []), c)
      else if e_inodes_per_group fs = 0 then None
      else let group = (ino - 1) div e_inodes_per_group fs; idx = (ino - 1) mod e_inodes_per_group fs in
        if group \<ge> e_num_block_groups fs then Some ((- 1, []), c)
        else case read_into 1024 io fs (e_first_data_block fs + 1) c of None \<Rightarrow> None
             | Some ((r, bgd), c1) \<Rightarrow>
                 if r < 0 then Some ((- 1, []), c1)
                 else if e_block_size fs = 0 then None
                 else case get32 bgd (unat (group * 32) + bg_inode_table) of None \<Rightarrow> None
                      | Some itable \<Rightarrow>
                          let inode_offset = idx * EXT2_INODE_SIZE; off = unat (inode_offset mod e_block_size fs) in
                          (case read_into 4096 io fs (itable + inode_offset div e_block_size fs) c1 of None \<Rightarrow> None
                           | Some ((r2, b), c2) \<Rightarrow>
                               if r2 < 0 then Some ((- 1, []), c2)
                               else if off + 128 \<le> length b then Some ((0, take 128 (drop off b)), c2) else None))"

text \<open>Entry \<open>i\<close> of the table in block \<open>block\<close>; 0 for a missing block or one that cannot be read.\<close>

definition indir :: "'d blkio \<Rightarrow> ext2fs \<Rightarrow> u32 \<Rightarrow> u32 \<Rightarrow> 'd bcache \<Rightarrow> (u32 \<times> 'd bcache) option" where
  "indir io fs block i c =
     (if block = 0 then Some (0, c)
      else case read_into 4096 io fs block c of None \<Rightarrow> None
           | Some ((r, b), c1) \<Rightarrow>
               if r < 0 then Some (0, c1) else map_option (\<lambda>v. (v, c1)) (get32 b (4 * unat i)))"

definition get_data_block :: "'d blkio \<Rightarrow> ext2fs \<Rightarrow> u8 list \<Rightarrow> u32 \<Rightarrow> 'd bcache \<Rightarrow> (u32 \<times> 'd bcache) option" where
  "get_data_block io fs ino n c =
     (let p = e_block_size fs div 4; n1 = n - 12; n2 = n1 - p; n3 = n2 - p * p in
      if n < 12 then Some (i_block ino (unat n), c)
      else if n1 < p then indir io fs (i_block ino 12) n1 c
      else if n2 < p * p then
        (case indir io fs (i_block ino 13) (n2 div p) c of None \<Rightarrow> None
         | Some (b1, c1) \<Rightarrow> indir io fs b1 (n2 mod p) c1)
      else if i_block ino 14 = 0 then Some (0, c)
      else if p * p = 0 then None
      else
        (case indir io fs (i_block ino 14) (n3 div (p * p)) c of None \<Rightarrow> None
         | Some (b1, c1) \<Rightarrow>
             (case indir io fs b1 (n3 mod (p * p) div p) c1 of None \<Rightarrow> None
              | Some (b2, c2) \<Rightarrow> indir io fs b2 (n3 mod (p * p) mod p) c2)))"

definition total_blocks :: "ext2fs \<Rightarrow> u32 \<Rightarrow> u32 option" where
  "total_blocks fs sz = (if e_block_size fs = 0 then None else Some ((sz + e_block_size fs - 1) div e_block_size fs))"

section \<open>Directories\<close>

fun match_name :: "u8 list \<Rightarrow> nat \<Rightarrow> cstr \<Rightarrow> bool option" where
  "match_name b i [] = Some True"
| "match_name b i (c # cs) = (if i < length b then (if b ! i = c then match_name b (Suc i) cs else Some False) else None)"

text \<open>The scan of one directory block: 0 when the name is not in it.\<close>

function dir_find :: "nat \<Rightarrow> u8 list \<Rightarrow> cstr \<Rightarrow> nat \<Rightarrow> u32 option" where
  "dir_find bs b nm off =
     (if off < bs then
        case get32 b off of None \<Rightarrow> None
        | Some ino \<Rightarrow>
            if ino = 0 then Some 0
            else if off + 6 > length b then None
            else if le16 b (off + 4) = 0 then Some 0
            else if off + 7 > length b then None
            else
              let next = dir_find bs b nm (off + unat (le16 b (off + 4))) in
              if b ! (off + 6) = of_nat (length nm) then
                (case match_name b (off + 8) nm of None \<Rightarrow> None | Some m \<Rightarrow> if m then Some ino else next)
              else next
      else Some 0)"
  by pat_completeness auto
termination
  by (relation "measure (\<lambda>(bs, b, nm, off). bs - off)")
    (auto simp: unat_gt_0 intro!: diff_less_mono2)

declare dir_find.simps [simp del]

fun find_blocks :: "'d blkio \<Rightarrow> ext2fs \<Rightarrow> u8 list \<Rightarrow> cstr \<Rightarrow> nat list \<Rightarrow> 'd bcache \<Rightarrow> (u32 \<times> 'd bcache) option" where
  "find_blocks io fs ino nm [] c = Some (0, c)"
| "find_blocks io fs ino nm (blk # blks) c =
     (case get_data_block io fs ino (of_nat blk) c of None \<Rightarrow> None
      | Some (db, c1) \<Rightarrow>
          if db = 0 then find_blocks io fs ino nm blks c1
          else case read_into 4096 io fs db c1 of None \<Rightarrow> None
               | Some ((r, b), c2) \<Rightarrow>
                   if r < 0 then find_blocks io fs ino nm blks c2
                   else case dir_find (unat (e_block_size fs)) b nm 0 of None \<Rightarrow> None
                        | Some found \<Rightarrow> if found \<noteq> 0 then Some (found, c2) else find_blocks io fs ino nm blks c2)"

definition path_comp :: "cstr \<Rightarrow> cstr" where
  "path_comp path = take 255 (takeWhile (\<lambda>ch. ch \<noteq> slash) path)"

definition path_rest :: "cstr \<Rightarrow> cstr" where
  "path_rest path = dropWhile (\<lambda>ch. ch = slash) (drop (length (path_comp path)) path)"

lemma path_rest_less: "path \<noteq> [] \<Longrightarrow> length (path_rest path) < length path"
proof -
  assume "path \<noteq> []"
  then obtain x xs where p: "path = x # xs" by (cases path) auto
  show ?thesis
  proof (cases "x = slash")
    case True
    then show ?thesis using length_dropWhile_le [of "\<lambda>ch. ch = slash" xs] by (simp add: p path_rest_def path_comp_def)
  next
    case False
    then have "0 < length (path_comp path)" by (simp add: p path_comp_def)
    moreover have "length (path_comp path) \<le> length path"
      using length_takeWhile_le [of "\<lambda>ch. ch \<noteq> slash" path] by (simp add: path_comp_def min.coboundedI2)
    ultimately show ?thesis using length_dropWhile_le [of "\<lambda>ch. ch = slash" "drop (length (path_comp path)) path"]
      unfolding path_rest_def length_drop by linarith
  qed
qed

function path_walk :: "'d blkio \<Rightarrow> ext2fs \<Rightarrow> u32 \<Rightarrow> cstr \<Rightarrow> 'd bcache \<Rightarrow> (u32 \<times> 'd bcache) option" where
  "path_walk io fs cur path c =
     (if path = [] then Some (cur, c)
      else case e2_read_inode io fs cur c of None \<Rightarrow> None
           | Some ((r, ino), c1) \<Rightarrow>
               if r < 0 \<or> \<not> is_dir_mode ino then Some (0, c1)
               else case total_blocks fs (i_size ino) of None \<Rightarrow> None
                    | Some n \<Rightarrow>
                        (case find_blocks io fs ino (path_comp path) [0..<unat n] c1 of None \<Rightarrow> None
                         | Some (found, c2) \<Rightarrow> if found = 0 then Some (0, c2) else path_walk io fs found (path_rest path) c2))"
  by pat_completeness auto
termination by (relation "measure (\<lambda>(io, fs, cur, path, c). length path)") (auto simp: path_rest_less)

declare path_walk.simps [simp del]

definition path_to_inode :: "'d blkio \<Rightarrow> ext2fs \<Rightarrow> cstr \<Rightarrow> 'd bcache \<Rightarrow> (u32 \<times> 'd bcache) option" where
  "path_to_inode io fs path c =
     (if path = [] then Some (0, c)
      else path_walk io fs EXT2_ROOT_INO (dropWhile (\<lambda>ch. ch = slash) path) c)"

section \<open>Files and listings\<close>

text \<open>The copy loop of \<open>open\<close>; it gives up silently at a hole or a block that cannot be read.\<close>

fun copy_blocks :: "'d blkio \<Rightarrow> ext2fs \<Rightarrow> u8 list \<Rightarrow> u32 \<Rightarrow> u32 \<Rightarrow> nat list \<Rightarrow> u32 \<Rightarrow> u8 list \<Rightarrow> 'd bcache \<Rightarrow> (u8 list \<times> 'd bcache) option" where
  "copy_blocks io fs ino to_read tot [] copied buf c = Some (buf, c)"
| "copy_blocks io fs ino to_read tot (blk # blks) copied buf c =
     (if \<not> copied < to_read then Some (buf, c)
      else case get_data_block io fs ino (of_nat blk) c of None \<Rightarrow> None
           | Some (db, c1) \<Rightarrow>
               if db = 0 then Some (buf, c1)
               else case read_into 4096 io fs db c1 of None \<Rightarrow> None
                    | Some ((r, b), c2) \<Rightarrow>
                        if r < 0 then Some (buf, c2)
                        else
                          let chunk0 = (if of_nat blk = tot - 1 then i_size ino - of_nat blk * e_block_size fs else e_block_size fs);
                              chunk = (if copied + chunk0 > to_read then to_read - copied else chunk0)
                          in if unat chunk \<le> length b \<and> unat copied + unat chunk \<le> length buf
                             then copy_blocks io fs ino to_read tot blks (copied + chunk) (put_at (unat copied) (take (unat chunk) b) buf) c2
                             else None)"

definition e2_open :: "'d blkio \<Rightarrow> ext2fs \<Rightarrow> cstr \<Rightarrow> u8 list \<Rightarrow> u32 \<Rightarrow> 'd bcache \<Rightarrow> ((int \<times> u8 list) \<times> 'd bcache) option" where
  "e2_open io fs path buf max_sz c =
     (case path_to_inode io fs path c of None \<Rightarrow> None
      | Some (n, c1) \<Rightarrow>
          if n = 0 then Some ((- 1, buf), c1)
          else case e2_read_inode io fs n c1 of None \<Rightarrow> None
               | Some ((r, ino), c2) \<Rightarrow>
                   if r < 0 \<or> \<not> is_reg_mode ino then Some ((- 1, buf), c2)
                   else let fsize = i_size ino; to_read = (if fsize < max_sz then fsize else max_sz) in
                     (case total_blocks fs fsize of None \<Rightarrow> None
                      | Some tot \<Rightarrow>
                          (case copy_blocks io fs ino to_read tot [0..<unat tot] 0 buf c2 of None \<Rightarrow> None
                           | Some (buf', c3) \<Rightarrow> Some ((sint fsize, buf'), c3))))"

definition e2_stat :: "'d blkio \<Rightarrow> ext2fs \<Rightarrow> cstr \<Rightarrow> int \<Rightarrow> 'd bcache \<Rightarrow> ((int \<times> int) \<times> 'd bcache) option" where
  "e2_stat io fs path isd c =
     (case path_to_inode io fs path c of None \<Rightarrow> None
      | Some (n, c1) \<Rightarrow>
          if n = 0 then Some ((- 1, isd), c1)
          else case e2_read_inode io fs n c1 of None \<Rightarrow> None
               | Some ((r, ino), c2) \<Rightarrow>
                   if r < 0 then Some ((- 1, isd), c2)
                   else Some ((sint (i_size ino), if is_dir_mode ino then 1 else 0), c2))"

text \<open>The size column: nine characters, digits of the signed size with C's remainder.\<close>

fun size_digits :: "nat \<Rightarrow> int \<Rightarrow> cstr" where
  "size_digits 0 t = []"
| "size_digits (Suc n) t =
     (if t = 0 then []
      else if t < 0 then of_int (48 - (- t) mod 10) # size_digits n (- ((- t) div 10))
      else of_int (48 + t mod 10) # size_digits n (t div 10))"

definition size_col :: "u32 \<Rightarrow> cstr" where
  "size_col sz = (let ds = (if sz = 0 then [48] else rev (size_digits 9 (sint sz))) in replicate (9 - length ds) 0x20 @ ds)"

definition e2_line :: "bool \<Rightarrow> u32 \<Rightarrow> cstr \<Rightarrow> gfx \<Rightarrow> gfx" where
  "e2_line isd sz name g =
     (let col = (if isd then 0x0B else 0x0F)
      in gfx_putc 10 (fold gfx_putc name (set_fg col (gfx_putc 0x20 (fold gfx_putc (size_col sz) (set_fg 0x08 (set_fg col g)))))))"

function list_entries :: "'d blkio \<Rightarrow> ext2fs \<Rightarrow> nat \<Rightarrow> u8 list \<Rightarrow> nat \<Rightarrow> gfx \<times> 'd bcache \<Rightarrow> (gfx \<times> 'd bcache) option" where
  "list_entries io fs bs b off gc =
     (if off < bs then
        case get32 b off of None \<Rightarrow> None
        | Some ino \<Rightarrow>
            if ino = 0 then Some gc
            else if off + 6 > length b then None
            else if le16 b (off + 4) = 0 then Some gc
            else case e2_read_inode io fs ino (snd gc) of None \<Rightarrow> None
                 | Some ((r, ei), c1) \<Rightarrow>
                     let sz = (if r = 0 then i_size ei else 0); isd = (r = 0 \<and> is_dir_mode ei) in
                     if off + 7 > length b \<or> off + 8 + unat (b ! (off + 6)) > length b then None
                     else list_entries io fs bs b (off + unat (le16 b (off + 4)))
                            (e2_line isd sz (take (unat (b ! (off + 6))) (drop (off + 8) b)) (fst gc), c1)
      else Some gc)"
  by pat_completeness auto
termination
  by (relation "measure (\<lambda>(io, fs, bs, b, off, gc). bs - off)") (auto simp: unat_gt_0 intro!: diff_less_mono2)

declare list_entries.simps [simp del]

fun list_blocks :: "'d blkio \<Rightarrow> ext2fs \<Rightarrow> u8 list \<Rightarrow> nat list \<Rightarrow> gfx \<times> 'd bcache \<Rightarrow> (gfx \<times> 'd bcache) option" where
  "list_blocks io fs ino [] gc = Some gc"
| "list_blocks io fs ino (blk # blks) gc =
     (case get_data_block io fs ino (of_nat blk) (snd gc) of None \<Rightarrow> None
      | Some (db, c1) \<Rightarrow>
          if db = 0 then list_blocks io fs ino blks (fst gc, c1)
          else case read_into 4096 io fs db c1 of None \<Rightarrow> None
               | Some ((r, b), c2) \<Rightarrow>
                   if r < 0 then list_blocks io fs ino blks (fst gc, c2)
                   else case list_entries io fs (unat (e_block_size fs)) b 0 (fst gc, c2) of None \<Rightarrow> None
                        | Some gc' \<Rightarrow> list_blocks io fs ino blks gc')"

definition e2_complain :: "cstr \<Rightarrow> gfx \<Rightarrow> gfx" where
  "e2_complain msg g = set_fg 0x07 (gfx_puts (msg @ [10]) (set_fg 0x0C g))"

definition e2_dir :: "'d blkio \<Rightarrow> ext2fs \<Rightarrow> cstr \<Rightarrow> gfx \<times> 'd bcache \<Rightarrow> (int \<times> gfx \<times> 'd bcache) option" where
  "e2_dir io fs path gc =
     (case path_to_inode io fs path (snd gc) of None \<Rightarrow> None
      | Some (n, c1) \<Rightarrow>
          if n = 0 then Some (- 1, e2_complain (bytes_of ''ext2: path not found'') (fst gc), c1)
          else case e2_read_inode io fs n c1 of None \<Rightarrow> None
               | Some ((r, ino), c2) \<Rightarrow>
                   if r < 0 then Some (- 1, fst gc, c2)
                   else if \<not> is_dir_mode ino then Some (- 1, e2_complain (bytes_of ''ext2: not a directory'') (fst gc), c2)
                   else case total_blocks fs (i_size ino) of None \<Rightarrow> None
                        | Some tot \<Rightarrow>
                            (case list_blocks io fs ino [0..<unat tot] (fst gc, c2) of None \<Rightarrow> None
                             | Some (g, c3) \<Rightarrow> Some (0, set_fg 0x07 g, c3)))"

end
