(* ===== verification/XE_Sys.thy ===== *)
theory XE_Sys
  imports XE_Sched XE_Uaccess XE_Ramdisk XE_Input XE_Ext2
begin

text \<open>
  The state that system calls work on, and the services they share
  (\<^verbatim>\<open>src/src/kernel/syscall.cpp\<close>): user memory through the current task's page directory, the serial
  log, the screen, the mounted filesystems and the kernel objects behind file descriptors.

  There is one piece of hardware: it is kept below the block cache and handed to the keyboard and mouse
  driver and back. The serial log goes to it as well. Contents of fresh heap blocks and of uninitialised
  stack buffers are parameters of the environment.

  Operations return \<open>None\<close> where the code does not return or its behaviour is undefined: a store outside of
  a kernel buffer or through the pointer of a device descriptor, a string without an end, an endless search.
\<close>

unbundle bit_operations_syntax

section \<open>State and environment\<close>

datatype fs_id = FsFat | FsExt2 | FsRam

record 'd sys =
  kern :: kst
  mtab :: "fs_id vfs"
  fatv :: "'d fatfs"
  e2v :: ext2fs
  rdv :: ramdisk
  hidv :: "'d hid"
  user_break :: u32
  g_user_pd :: u32
  g_ustr :: "u8 list"
  g_ubin :: "u8 list"
  disk_rbuf :: "u8 list"
  disk_wbuf :: "u8 list"
  ncalls :: nat
  g_ring0_mode :: bool

text \<open>\<open>efresh a i\<close> is the byte found at offset \<open>i\<close> of a block just
  allocated at \<open>a\<close>, \<open>estack i\<close> byte \<open>i\<close> of an uninitialised buffer on the stack.\<close>

record 'd env =
  eports :: "'d ports"
  edrive :: nat
  efresh :: "u32 \<Rightarrow> nat \<Rightarrow> u8"
  estack :: "nat \<Rightarrow> u8"

abbreviation eio :: "'d env \<Rightarrow> 'd blkio" where "eio E \<equiv> ata_io (eports E) (edrive E)"
abbreviation ct :: "'d sys \<Rightarrow> task_struct" where "ct s \<equiv> cur (kern s)"

definition onk :: "(kst \<Rightarrow> kst) \<Rightarrow> 'd sys \<Rightarrow> 'd sys" where
  "onk f s = s\<lparr>kern := f (kern s)\<rparr>"

definition updc :: "(task_struct \<Rightarrow> task_struct) \<Rightarrow> 'd sys \<Rightarrow> 'd sys" where
  "updc f s = onk (upd (current_task (kern s)) f) s"

section \<open>Hardware, screen, log\<close>

definition hwv :: "'d sys \<Rightarrow> 'd" where
  "hwv s = dev (fbc (fatv s))"

definition set_hw :: "'d \<Rightarrow> 'd sys \<Rightarrow> 'd sys" where
  "set_hw d s = s\<lparr>fatv := (fatv s)\<lparr>fbc := (fbc (fatv s))\<lparr>dev := d\<rparr>\<rparr>\<rparr>"

definition scr :: "'d sys \<Rightarrow> gfx" where
  "scr s = fscr (fatv s)"

definition on_scr :: "(gfx \<Rightarrow> gfx) \<Rightarrow> 'd sys \<Rightarrow> 'd sys" where
  "on_scr f s = s\<lparr>fatv := (fatv s)\<lparr>fscr := f (fscr (fatv s))\<rparr>\<rparr>"

text \<open>\<open>serial_write_str\<close>, \<open>serial_write_str_len\<close> and \<open>serial_write_char\<close> all send bytes to COM1.\<close>

definition say :: "'d env \<Rightarrow> cstr \<Rightarrow> 'd sys \<Rightarrow> 'd sys" where
  "say E bs s = set_hw (serial_puts (eports E) bs (hwv s)) s"

definition say_u32 :: "'d env \<Rightarrow> u32 \<Rightarrow> 'd sys \<Rightarrow> 'd sys" where
  "say_u32 E v s = say E (put_hex_u32 v) s"

text \<open>The input drivers see the hardware and the screen of the rest of the system.\<close>

definition on_hid :: "('d hid \<times> gfx \<Rightarrow> ('a \<times> 'd hid \<times> gfx) option) \<Rightarrow> 'd sys \<Rightarrow> ('a \<times> 'd sys) option" where
  "on_hid f s =
     (case f ((hidv s)\<lparr>hw := hwv s\<rparr>, scr s) of None \<Rightarrow> None
      | Some (x, h, g) \<Rightarrow> Some (x, set_hw (hw h) (on_scr (\<lambda>_. g) (s\<lparr>hidv := h\<rparr>))))"

section \<open>Replies\<close>

type_synonym 'd reply = "(registers_t \<times> 'd sys) option"

definition ret :: "u32 \<Rightarrow> registers_t \<Rightarrow> 'd sys \<Rightarrow> 'd reply" where
  "ret v r s = Some (r\<lparr>r_eax := v\<rparr>, s)"

abbreviation fail :: "registers_t \<Rightarrow> 'd sys \<Rightarrow> 'd reply" where
  "fail \<equiv> ret (- 1)"

abbreviation reti :: "int \<Rightarrow> registers_t \<Rightarrow> 'd sys \<Rightarrow> 'd reply" where
  "reti v \<equiv> ret (of_int v)"

section \<open>User memory\<close>

definition pd_at :: "u32 \<Rightarrow> 'd sys \<Rightarrow> pager option" where
  "pd_at a s = (if a = 0 then None else Some (pgr (kern s) a))"

definition user_pd :: "'d sys \<Rightarrow> pager option" where
  "user_pd s = current_user_pd (if current_task (kern s) = 0 then None else pd_at (paging (ct s)) s) (pd_at (g_user_pd s) s)"

text \<open>\<open>copy_from_user\<close> into a kernel buffer with the given contents: the result and the new contents.\<close>

definition from_user :: "u8 list \<Rightarrow> u32 \<Rightarrow> u32 \<Rightarrow> 'd sys \<Rightarrow> (bool \<times> u8 list) option" where
  "from_user b va len s =
     (case copy_from_user (ram (ph (kern s))) (user_pd s) (Some b) va len of
        Inr (ok, Some b') \<Rightarrow> Some (ok, b') | _ \<Rightarrow> None)"

definition set_ram :: "mem \<Rightarrow> kst \<Rightarrow> kst" where
  "set_ram m s = s\<lparr>ph := (ph s)\<lparr>ram := m\<rparr>\<rparr>"

definition to_user :: "u32 \<Rightarrow> u8 list \<Rightarrow> u32 \<Rightarrow> 'd sys \<Rightarrow> (bool \<times> 'd sys) option" where
  "to_user va b len s =
     (case copy_to_user (ram (ph (kern s))) (user_pd s) va (Some b) len of
        Inr (ok, m) \<Rightarrow> Some (ok, onk (set_ram m) s) | Inl _ \<Rightarrow> None)"

text \<open>A reply that hands bytes to the user: \<open>if (!copy_to_user(...)) -1 else v\<close>.\<close>

definition reply_bytes :: "u32 \<Rightarrow> u8 list \<Rightarrow> u32 \<Rightarrow> u32 \<Rightarrow> registers_t \<Rightarrow> 'd sys \<Rightarrow> 'd reply" where
  "reply_bytes va b len v r s =
     (case to_user va b len s of None \<Rightarrow> None | Some (ok, s1) \<Rightarrow> if ok then ret v r s1 else fail r s1)"

definition words_out :: "u32 list \<Rightarrow> u8 list" where
  "words_out ws = concat (map bytes32 ws)"

text \<open>A string argument read into a buffer \<open>b\<close>; a buffer without a NUL is no string.\<close>

definition str_into :: "u8 list \<Rightarrow> u32 \<Rightarrow> 'd sys \<Rightarrow> (bool \<times> u8 list) option" where
  "str_into b va s =
     (case copy_str_from_user (ram (ph (kern s))) (user_pd s) (Some b) va (of_nat (length b)) of
        Inr (ok, Some b') \<Rightarrow> if ok \<and> 0 \<notin> set b' then None else Some (ok, b') | _ \<Rightarrow> None)"

text \<open>A string argument in a local buffer of \<open>n\<close> bytes: \<open>None\<close> in the result when the copy fails.\<close>

definition str_arg :: "'d env \<Rightarrow> nat \<Rightarrow> u32 \<Rightarrow> 'd sys \<Rightarrow> (bool \<times> cstr) option" where
  "str_arg E n va s = map_option (\<lambda>(ok, b). (ok, cstr_of b)) (str_into (map (estack E) [0..<n]) va s)"

text \<open>\<open>char name[128]; if (!copy_str_from_user(...)) -1; ...\<close>\<close>

definition with_name :: "'d env \<Rightarrow> u32 \<Rightarrow> (cstr \<Rightarrow> registers_t \<Rightarrow> 'd sys \<Rightarrow> 'd reply) \<Rightarrow> registers_t \<Rightarrow> 'd sys \<Rightarrow> 'd reply" where
  "with_name E va f r s =
     (case str_arg E 128 va s of None \<Rightarrow> None | Some (ok, name) \<Rightarrow> if ok then f name r s else fail r s)"

section \<open>Kernel memory\<close>

definition new_buf :: "'d env \<Rightarrow> u32 \<Rightarrow> 'd sys \<Rightarrow> (u32 \<times> 'd sys) option" where
  "new_buf E n s =
     (case k_malloc n (kern s) of None \<Rightarrow> None
      | Some (a, k) \<Rightarrow>
          Some (a, s\<lparr>kern := (if a = 0 then k else k\<lparr>kbuf := (kbuf k)(a := map (efresh E a) [0..<unat n])\<rparr>)\<rparr>))"

definition set_buf_at :: "u32 \<Rightarrow> u8 list \<Rightarrow> 'd sys \<Rightarrow> 'd sys" where
  "set_buf_at a bs s = onk (\<lambda>k. k\<lparr>kbuf := (kbuf k)(a := bs)\<rparr>) s"

text \<open>What lies behind a descriptor's pointer: a file buffer or a pipe (whose first member is its buffer). The
  pointer of a device is 1. \<^verbatim>\<open>sys_gfx_putc\<close> and \<^verbatim>\<open>sys_gfx_puts\<close> store through it all the same,
  at 1 plus a position that \<open>lseek\<close> sets: any kernel object may be there, so that there is no result.\<close>

definition obj_get :: "u8 \<Rightarrow> u32 \<Rightarrow> nat \<Rightarrow> 'd sys \<Rightarrow> u8 option" where
  "obj_get ty a i s =
     (let bs = (if ty = 1 then kbuf (kern s) a else p_buf (pipes (kern s) a))
      in if (ty = 1 \<or> ty = 2 \<or> ty = 3) \<and> i < length bs then Some (bs ! i) else None)"

definition obj_put :: "u8 \<Rightarrow> u32 \<Rightarrow> nat \<Rightarrow> u8 \<Rightarrow> 'd sys \<Rightarrow> 'd sys option" where
  "obj_put ty a i v s =
     (let k = kern s in
      if ty = 1 then
        (if i < length (kbuf k a) then Some (onk (\<lambda>k. k\<lparr>kbuf := (kbuf k)(a := (kbuf k a)[i := v])\<rparr>) s) else None)
      else if ty = 2 \<or> ty = 3 then
        (if i < length (p_buf (pipes k a))
         then Some (onk (\<lambda>k. k\<lparr>pipes := (pipes k)(a := (pipes k a)\<lparr>p_buf := (p_buf (pipes k a))[i := v]\<rparr>)\<rparr>) s) else None)
      else None)"

fun obj_read :: "u8 \<Rightarrow> u32 \<Rightarrow> nat \<Rightarrow> nat \<Rightarrow> 'd sys \<Rightarrow> u8 list option" where
  "obj_read ty a i 0 s = Some []"
| "obj_read ty a i (Suc n) s =
     (case obj_get ty a i s of None \<Rightarrow> None
      | Some b \<Rightarrow> (case obj_read ty a (Suc i) n s of None \<Rightarrow> None | Some bs \<Rightarrow> Some (b # bs)))"

fun obj_write :: "u8 \<Rightarrow> u32 \<Rightarrow> nat \<Rightarrow> u8 list \<Rightarrow> 'd sys \<Rightarrow> 'd sys option" where
  "obj_write ty a i [] s = Some s"
| "obj_write ty a i (b # bs) s =
     (case obj_put ty a i b s of None \<Rightarrow> None | Some s1 \<Rightarrow> obj_write ty a (Suc i) bs s1)"

section \<open>Filesystems\<close>

definition on_fat :: "('d fatfs \<Rightarrow> ('a \<times> 'd fatfs) option) \<Rightarrow> 'd sys \<Rightarrow> ('a \<times> 'd sys) option" where
  "on_fat f s = map_option (\<lambda>(x, v). (x, s\<lparr>fatv := v\<rparr>)) (f (fatv s))"

definition fat_ops :: "'d env \<Rightarrow> 'd sys Filesystem" where
  "fat_ops E =
     \<lparr>fs_open = \<lambda>p b n. on_fat (fat_open (eio E) p b n),
      fs_write = \<lambda>p b n. on_fat (fat_write_file (eio E) p b n),
      fs_remove = \<lambda>p. on_fat (fat_remove (eio E) p),
      fs_stat = \<lambda>p isd. on_fat (fat_stat (eio E) p),
      fs_mkdir = \<lambda>p. on_fat (fat_mkdir (eio E) p),
      fs_rmdir = \<lambda>p. on_fat (fat_rmdir (eio E) p),
      fs_rename = \<lambda>p q. on_fat (fat_rename (eio E) p q),
      fs_dir = \<lambda>p. on_fat (fat_dir_path (eio E) p),
      fs_list = \<lambda>p n. on_fat (fat_list (eio E) p n)\<rparr>"

text \<open>The read-only filesystem works on the same block cache and screen.\<close>

definition on_e2 :: "(ext2fs \<Rightarrow> 'd bcache \<Rightarrow> ('a \<times> 'd bcache) option) \<Rightarrow> 'd sys \<Rightarrow> ('a \<times> 'd sys) option" where
  "on_e2 f s = map_option (\<lambda>(x, c). (x, s\<lparr>fatv := (fatv s)\<lparr>fbc := c\<rparr>\<rparr>)) (f (e2v s) (fbc (fatv s)))"

definition ext2_dir :: "'d env \<Rightarrow> cstr \<Rightarrow> 'd sys \<Rightarrow> (int \<times> 'd sys) option" where
  "ext2_dir E path s =
     map_option (\<lambda>(v, g, c). (v, s\<lparr>fatv := (fatv s)\<lparr>fbc := c, fscr := g\<rparr>\<rparr>)) (e2_dir (eio E) (e2v s) path (fscr (fatv s), fbc (fatv s)))"

definition ext2_ops :: "'d env \<Rightarrow> 'd sys Filesystem" where
  "ext2_ops E =
     \<lparr>fs_open = \<lambda>p b n. on_e2 (\<lambda>fs. e2_open (eio E) fs p b n),
      fs_write = \<lambda>p b n s. Some (- 1, s),
      fs_remove = \<lambda>p s. Some (- 1, s),
      fs_stat = \<lambda>p isd. on_e2 (\<lambda>fs. e2_stat (eio E) fs p isd),
      fs_mkdir = \<lambda>p s. Some (- 1, s),
      fs_rmdir = \<lambda>p s. Some (- 1, s),
      fs_rename = \<lambda>p q s. Some (- 1, s),
      fs_dir = ext2_dir E,
      fs_list = default_list\<rparr>"

text \<open>The ram disk allocates on the kernel heap, where a search may not end.\<close>

definition rd_kmalloc :: "u32 \<Rightarrow> kst option \<Rightarrow> u32 \<times> kst option" where
  "rd_kmalloc n h =
     (case h of None \<Rightarrow> (0, None)
      | Some k \<Rightarrow> (case k_malloc n k of None \<Rightarrow> (0, None) | Some (a, k') \<Rightarrow> (a, Some k')))"

definition sys_create :: "'d env \<Rightarrow> cstr \<Rightarrow> u8 list \<Rightarrow> u32 \<Rightarrow> 'd sys \<Rightarrow> (int \<times> 'd sys) option" where
  "sys_create E name data n s =
     (case rd_create rd_kmalloc (map (efresh E 0) [0..<4096]) (Some name) (Some data) n (rdv s, Some (kern s)) of
        (v, rd', Some k) \<Rightarrow> Some (v, s\<lparr>rdv := rd', kern := k\<rparr>) | _ \<Rightarrow> None)"

definition sys_unlink :: "cstr \<Rightarrow> 'd sys \<Rightarrow> (int \<times> 'd sys) option" where
  "sys_unlink name s =
     (case rd_remove k_free name (rdv s, kern s) of (v, rd', k) \<Rightarrow> Some (v, s\<lparr>rdv := rd', kern := k\<rparr>))"

text \<open>\<open>RamDisk::dir\<close> on the screen.\<close>

definition rd_dir_line :: "ramdisk_file \<Rightarrow> gfx \<Rightarrow> gfx" where
  "rd_dir_line f g =
     gfx_puts (bytes_of ''  ('' @ rev (dec_num (rsize f)) @ bytes_of '' bytes)'' @ [0x0A])
       (set_fg 8 (gfx_puts (rname f) (set_fg 15 g)))"

definition rd_dir :: "'d sys \<Rightarrow> (int \<times> 'd sys) option" where
  "rd_dir s = Some (0, on_scr (\<lambda>g. set_fg 7 (fold rd_dir_line (filter used (rdv s)) g)) s)"

definition ram_ops :: "'d env \<Rightarrow> 'd sys Filesystem" where
  "ram_ops E =
     \<lparr>fs_open = \<lambda>p b n s. Some (rd_open p b n (rdv s), s),
      fs_write = sys_create E,
      fs_remove = sys_unlink,
      fs_stat = \<lambda>p isd s. Some (rd_stat p isd (rdv s), s),
      fs_mkdir = \<lambda>p s. Some (- 1, s),
      fs_rmdir = \<lambda>p s. Some (- 1, s),
      fs_rename = \<lambda>p q s. Some (- 1, s),
      fs_dir = \<lambda>p. rd_dir,
      fs_list = \<lambda>p n s. Some (rd_list_entries False n (rdv s), s)\<rparr>"

definition fs_ops :: "'d env \<Rightarrow> fs_id \<Rightarrow> 'd sys Filesystem" where
  "fs_ops E f = (case f of FsFat \<Rightarrow> fat_ops E | FsExt2 \<Rightarrow> ext2_ops E | FsRam \<Rightarrow> ram_ops E)"

section \<open>Frame facts\<close>

lemma kern_say [simp]: "kern (say E b s) = kern s" "kern (say_u32 E v s) = kern s"
  by (simp_all add: say_def say_u32_def set_hw_def)

lemma kern_scr [simp]: "kern (on_scr f s) = kern s" "kern (set_hw d s) = kern s"
  by (simp_all add: on_scr_def set_hw_def)

lemma kern_onk [simp]: "kern (onk f s) = f (kern s)"
  by (simp add: onk_def)

lemma kern_updc [simp]: "kern (updc f s) = upd (current_task (kern s)) f (kern s)"
  by (simp add: updc_def)

lemma from_user_length: "from_user b va len s = Some (ok, b') \<Longrightarrow> length b' = length b"
  by (auto simp: from_user_def copy_from_user_def split: option.splits prod.splits if_splits)

section \<open>A sample system\<close>

text \<open>The tasks of \<open>demo_kst\<close>; the current one has the framebuffer as descriptor 0 and the address space of
  \<open>demo_ram\<close>.\<close>

definition demo_env :: "pio env" where
  "demo_env = \<lparr>eports = pio_ports, edrive = 1, efresh = \<lambda>_ _. 0, estack = \<lambda>_. 0\<rparr>"

definition demo_ksys :: kst where
  "demo_ksys = demo_kst\<lparr>tsk := (tsk demo_kst)(0x01001014 := (tsk demo_kst 0x01001014)\<lparr>fd_buf := (replicate 16 0)[0 := 1],
     fd_type := (replicate 16 0)[0 := 4]\<rparr>), pgr := \<lambda>_. demo_pg, ph := \<lparr>ram = demo_ram, pmm = demo_mm\<rparr>\<rparr>"

definition demo_sys :: "pio sys" where
  "demo_sys = \<lparr>kern = demo_ksys, mtab = vfs_init, fatv = demo_fat,
     e2v = \<lparr>e_base_lba = 4096, e_block_size = 1024, e_inodes_per_group = 256, e_blocks_per_group = 8192, e_num_block_groups = 1,
       e_first_data_block = 1\<rparr>, rdv = [],
     hidv = \<lparr>kbd = \<lparr>shift = False, caps = False, ctrl = False, kb_buf = replicate 256 0, kb_head = 0, kb_tail = 0\<rparr>, mou = demo_mouse,
       evq = demo_ring, hw = demo_pio\<rparr>, user_break = 0x10000000, g_user_pd = 0, g_ustr = replicate 4096 0, g_ubin = replicate 4096 0,
     disk_rbuf = replicate 512 0, disk_wbuf = replicate 512 0, ncalls = 0, g_ring0_mode = False\<rparr>"

definition demo_call :: "u32 \<Rightarrow> u32 \<Rightarrow> u32 \<Rightarrow> registers_t" where
  "demo_call b c d = demo_regs\<lparr>r_ebx := b, r_ecx := c, r_edx := d\<rparr>"

lemma demo_ksys_kinv: "kinv demo_ksys"
  by (rule kinv_cong [OF demo_kinv]) (simp_all add: demo_ksys_def)

lemma demo_sys_simps [simp]: "kern demo_sys = demo_ksys" "rdv demo_sys = []" "g_ubin demo_sys = replicate 4096 0"
  "current_task demo_ksys = 0x01001014" "all_tasks demo_ksys = [0x01000014, 0x01001014, 0x01006014]"
  "fd_buf (tsk demo_ksys 0x01001014) = (replicate 16 0)[0 := 1]" "fd_type (tsk demo_ksys 0x01001014) = (replicate 16 0)[0 := 4]"
  by (simp_all add: demo_sys_def demo_ksys_def demo_queue)

lemma demo_user_pd: "user_pd demo_sys = Some demo_pg" "ram (ph demo_ksys) = demo_ram"
  by (simp_all add: user_pd_def current_user_pd_def pd_at_def demo_ksys_def demo_kst_simps)

lemma demo_from_user:
  assumes "1 \<le> n" "n \<le> 4096" "n \<le> length b"
  shows "from_user b 0x400000 (of_nat n) demo_sys = Some (True, rd_bytes demo_ram 0x800000 n @ drop n b)"
proof -
  have tr: "translate_user demo_ram demo_pg 0x400000 = 0x800000" by (simp add: demo_translate)
  have u: "unat (of_nat n :: u32) = n" using assms(2) unfolding unsigned_of_nat of_nat_id by (simp add: take_bit_nat_eq_self)
  then have nz: "of_nat n \<noteq> (0 :: u32)" using assms(1) by (metis not_one_le_zero unat_0)
  have c: "chunk 0x400000 (of_nat n) = of_nat n"
    unfolding word_unat_eq_iff using assms(2) u by (simp add: unat_chunk)
  have "copy_from_loop demo_ram demo_pg 0x400000 (of_nat n) = (True, rd_bytes demo_ram 0x800000 n)"
    using nz tr c u by (subst copy_from_loop.simps) (simp add: Let_def copy_from_loop.simps [of _ _ _ 0])
  then show ?thesis using assms(3) by (simp add: from_user_def copy_from_user_def demo_user_pd)
qed

end
