(* ===== verification/XE_Fd.thy ===== *)
theory XE_Fd
  imports XE_Sys
begin

text \<open>
  File descriptors and pipes: the part of \<^verbatim>\<open>src/src/kernel/syscall.cpp\<close> that works on the descriptor table of
  the current task, from \<open>sys_open\<close> to the redirection of text output. Descriptor types: 1 file, 2 and 3 the read and write end of a pipe, 4 the
  framebuffer, 5 to 7 the null, zero and input devices; a null pointer marks a free slot.

  The lemmas show that a pipe is a bounded byte queue (through the locale \<open>byte_stream\<close>), that its
  counters stay in range, and what descriptors share after \<open>dup\<close>.
\<close>

unbundle bit_operations_syntax

section \<open>Pipes\<close>

definition PIPE_BUF_SZ :: nat where "PIPE_BUF_SZ = 4096"

fun pipe_fill :: "u8 list \<Rightarrow> pipe_t \<Rightarrow> pipe_t" where
  "pipe_fill [] p = p"
| "pipe_fill (b # bs) p = pipe_fill bs (p\<lparr>p_buf := (p_buf p)[p_wpos p := b], p_wpos := (p_wpos p + 1) mod PIPE_BUF_SZ\<rparr>)"

text \<open>The write end: the value returned and the pipe.\<close>

definition pipe_write :: "u8 list \<Rightarrow> u32 \<Rightarrow> pipe_t \<Rightarrow> u32 \<times> pipe_t" where
  "pipe_write data len0 p =
     (if p_broken p then (- 1, p)
      else let avail = of_nat PIPE_BUF_SZ - p_count p; len = (if len0 > avail then avail else len0)
           in if len = 0 then (0, p)
              else (len, (pipe_fill (take (unat len) data) p)\<lparr>p_count := p_count p + len\<rparr>))"

fun pipe_take :: "nat \<Rightarrow> pipe_t \<Rightarrow> u8 list \<times> pipe_t" where
  "pipe_take 0 p = ([], p)"
| "pipe_take (Suc n) p =
     (case pipe_take n (p\<lparr>p_rpos := (p_rpos p + 1) mod PIPE_BUF_SZ\<rparr>) of (bs, p') \<Rightarrow> (p_buf p ! p_rpos p # bs, p'))"

text \<open>The read end: the value returned, the bytes put into \<open>g_ubin\<close>, the pipe.\<close>

definition pipe_read :: "u32 \<Rightarrow> pipe_t \<Rightarrow> u32 \<times> u8 list \<times> pipe_t" where
  "pipe_read len p =
     (let n = (if p_count p > len then len else p_count p)
      in if n = 0 then (if p_broken p then - 1 else 0, [], p)
         else case pipe_take (unat n) p of (bs, p') \<Rightarrow> (n, bs, p'\<lparr>p_count := p_count p - n\<rparr>))"

definition set_pipe :: "u32 \<Rightarrow> pipe_t \<Rightarrow> 'd sys \<Rightarrow> 'd sys" where
  "set_pipe a p s = onk (\<lambda>k. k\<lparr>pipes := (pipes k)(a := p)\<rparr>) s"

section \<open>The descriptor table\<close>

abbreviation fbuf_of :: "u32 \<Rightarrow> 'd sys \<Rightarrow> u32" where "fbuf_of fd s \<equiv> fd_buf (ct s) ! unat fd"
abbreviation fsize_of :: "u32 \<Rightarrow> 'd sys \<Rightarrow> u32" where "fsize_of fd s \<equiv> fd_size (ct s) ! unat fd"
abbreviation fpos_of :: "u32 \<Rightarrow> 'd sys \<Rightarrow> u32" where "fpos_of fd s \<equiv> fd_pos (ct s) ! unat fd"
abbreviation ftype_of :: "u32 \<Rightarrow> 'd sys \<Rightarrow> u8" where "ftype_of fd s \<equiv> fd_type (ct s) ! unat fd"

definition fd_live :: "u32 \<Rightarrow> 'd sys \<Rightarrow> bool" where
  "fd_live fd s = (unat fd < MAX_FD \<and> fbuf_of fd s \<noteq> 0)"

definition set_fd :: "nat \<Rightarrow> u32 \<Rightarrow> u32 \<Rightarrow> u32 \<Rightarrow> u8 \<Rightarrow> task_struct \<Rightarrow> task_struct" where
  "set_fd i b sz p ty t = t\<lparr>fd_buf := (fd_buf t)[i := b], fd_size := (fd_size t)[i := sz], fd_pos := (fd_pos t)[i := p],
     fd_type := (fd_type t)[i := ty]\<rparr>"

definition set_pos :: "u32 \<Rightarrow> u32 \<Rightarrow> 'd sys \<Rightarrow> 'd sys" where
  "set_pos fd v s = updc (\<lambda>t. t\<lparr>fd_pos := (fd_pos t)[unat fd := v]\<rparr>) s"

definition free_fds :: "'d sys \<Rightarrow> nat list" where
  "free_fds s = filter (\<lambda>i. fd_buf (ct s) ! i = 0) [0..<MAX_FD]"

definition has_cap :: "u32 \<Rightarrow> 'd sys \<Rightarrow> bool" where
  "has_cap c s = (current_task (kern s) = 0 \<or> task_struct.caps (ct s) AND c \<noteq> 0)"

section \<open>Reading and writing\<close>

definition sys_write :: "'d env \<Rightarrow> registers_t \<Rightarrow> 'd sys \<Rightarrow> 'd reply" where
  "sys_write E r s =
     (let len = r_ecx r in
      if len > 4096 then fail r s
      else case from_user (g_ustr s) (r_ebx r) len s of None \<Rightarrow> None
           | Some (ok, b) \<Rightarrow>
               let s1 = s\<lparr>g_ustr := b\<rparr>
               in if ok then ret len r (say E (take (unat len) b @ [10]) s1) else fail r s1)"

definition write_file :: "u32 \<Rightarrow> u32 \<Rightarrow> u8 list \<Rightarrow> registers_t \<Rightarrow> 'd sys \<Rightarrow> 'd reply" where
  "write_file fd len0 data r s =
     (if \<not> has_cap CAP_FILE_WRITE s then fail r s
      else let space = fsize_of fd s - fpos_of fd s; len = (if len0 > space then space else len0)
           in if len = 0 then ret 0 r s
              else case obj_write 1 (fbuf_of fd s) (unat (fpos_of fd s)) (take (unat len) data) s of None \<Rightarrow> None
                   | Some s1 \<Rightarrow> ret len r (set_pos fd (fpos_of fd s + len) s1))"

text \<open>The framebuffer as an output file: the text is terminated inside \<open>g_ubin\<close>.\<close>

definition write_screen :: "'d env \<Rightarrow> u32 \<Rightarrow> registers_t \<Rightarrow> 'd sys \<Rightarrow> 'd reply" where
  "write_screen E len r s =
     (if unat len < length (g_ubin s) then
        (let b = (g_ubin s)[unat len := 0]
         in ret len r (on_scr (puts_utf8 (cstr_of b)) (say E (take (unat len) b) (s\<lparr>g_ubin := b\<rparr>))))
      else None)"

definition sys_fwrite :: "'d env \<Rightarrow> registers_t \<Rightarrow> 'd sys \<Rightarrow> 'd reply" where
  "sys_fwrite E r s =
     (let fd = r_ebx r; len = (if r_edx r > 4096 then 4096 else r_edx r) in
      if \<not> fd_live fd s then fail r s
      else let ty = ftype_of fd s in
        if ty = 5 \<or> ty = 6 then ret len r s
        else case from_user (g_ubin s) (r_ecx r) len s of None \<Rightarrow> None
             | Some (ok, b) \<Rightarrow>
                 let s1 = s\<lparr>g_ubin := b\<rparr>; a = fbuf_of fd s in
                 if \<not> ok then fail r s1
                 else if ty = 3 then
                   (case pipe_write b len (pipes (kern s1) a) of (v, p) \<Rightarrow> ret v r (set_pipe a p s1))
                 else if ty = 1 then write_file fd len b r s1
                 else if ty = 4 then write_screen E len r s1
                 else fail r s1)"

definition event_bytes :: "input_event \<Rightarrow> u8 list" where
  "event_bytes e = words_out [ev_type e, of_int (ev_x e), of_int (ev_y e), ev_arg e]"

text \<open>Storing at the start of \<open>g_ubin\<close>.\<close>

definition set_ubin :: "u8 list \<Rightarrow> 'd sys \<Rightarrow> 'd sys" where
  "set_ubin bs s = s\<lparr>g_ubin := bs @ drop (length bs) (g_ubin s)\<rparr>"

definition read_input :: "u32 \<Rightarrow> u32 \<Rightarrow> registers_t \<Rightarrow> 'd sys \<Rightarrow> 'd reply" where
  "read_input buf len r s =
     (if len < 16 then fail r s
      else case input_pop (evq (hidv s)) of ((n, e), q) \<Rightarrow>
        let s1 = s\<lparr>hidv := (hidv s)\<lparr>evq := q\<rparr>\<rparr> in
        case e of None \<Rightarrow> ret 0 r s1
        | Some ev \<Rightarrow> reply_bytes buf (event_bytes ev) 16 (of_int n) r s1)"

definition read_pipe :: "u32 \<Rightarrow> u32 \<Rightarrow> u32 \<Rightarrow> registers_t \<Rightarrow> 'd sys \<Rightarrow> 'd reply" where
  "read_pipe a buf len r s =
     (case pipe_read len (pipes (kern s) a) of (v, bs, p) \<Rightarrow>
        if bs = [] then ret v r s
        else reply_bytes buf (g_ubin (set_ubin bs s)) v v r (set_pipe a p (set_ubin bs s)))"

definition read_file :: "u32 \<Rightarrow> u32 \<Rightarrow> u32 \<Rightarrow> registers_t \<Rightarrow> 'd sys \<Rightarrow> 'd reply" where
  "read_file fd buf len0 r s =
     (if ftype_of fd s = 1 \<and> \<not> has_cap CAP_FILE_READ s then fail r s
      else let remain = fsize_of fd s - fpos_of fd s; len = (if len0 > remain then remain else len0)
           in case obj_read (ftype_of fd s) (fbuf_of fd s) (unat (fpos_of fd s)) (unat len) s of None \<Rightarrow> None
              | Some bs \<Rightarrow>
                  let s1 = set_ubin bs s in
                  if len = 0 then ret 0 r s1
                  else case to_user buf (g_ubin s1) len s1 of None \<Rightarrow> None
                       | Some (ok, s2) \<Rightarrow> if ok then ret len r (set_pos fd (fpos_of fd s + len) s2) else fail r s2)"

definition sys_fread :: "registers_t \<Rightarrow> 'd sys \<Rightarrow> 'd reply" where
  "sys_fread r s =
     (let fd = r_ebx r; buf = r_ecx r; len = (if r_edx r > 4096 then 4096 else r_edx r) in
      if \<not> fd_live fd s then fail r s
      else let ty = ftype_of fd s in
        if ty = 5 then ret 0 r s
        else if ty = 6 then
          (let s1 = set_ubin (replicate (unat len) 0) s in reply_bytes buf (g_ubin s1) len len r s1)
        else if ty = 7 then read_input buf (r_edx r) r s
        else if ty = 2 then read_pipe (fbuf_of fd s) buf len r s
        else read_file fd buf len r s)"

section \<open>Closing\<close>

text \<open>One reference of a pipe goes away; \<open>close\<close> and exit also mark the pipe broken, \<open>dup2\<close> does not.\<close>

definition drop_pipe :: "bool \<Rightarrow> u32 \<Rightarrow> 'd sys \<Rightarrow> 'd sys" where
  "drop_pipe brk a s =
     (let p = pipes (kern s) a;
          p1 = p\<lparr>p_refs := p_refs p - 1, p_broken := (brk \<or> p_broken p)\<rparr>;
          s1 = set_pipe a p1 s
      in if p_refs p1 \<le> 0 then onk (k_free a) s1 else s1)"

definition close_obj :: "bool \<Rightarrow> u8 \<Rightarrow> u32 \<Rightarrow> 'd sys \<Rightarrow> 'd sys" where
  "close_obj brk ty a s =
     (if ty = 2 \<or> ty = 3 then drop_pipe brk a s
      else if ty \<noteq> 4 \<and> ty \<noteq> 5 \<and> ty \<noteq> 6 \<and> ty \<noteq> 7 then onk (k_free a) s
      else s)"

definition sys_close :: "registers_t \<Rightarrow> 'd sys \<Rightarrow> 'd reply" where
  "sys_close r s =
     (let fd = r_ebx r in
      if \<not> fd_live fd s then fail r s
      else ret 0 r (updc (set_fd (unat fd) 0 0 0 0) (close_obj True (ftype_of fd s) (fbuf_of fd s) s)))"

definition cleanup_fd :: "u32 \<Rightarrow> nat \<Rightarrow> 'd sys \<Rightarrow> 'd sys" where
  "cleanup_fd t i s =
     (let x = tsk (kern s) t in
      if fd_buf x ! i = 0 then s
      else onk (upd t (set_fd i 0 0 0 0)) (close_obj True (fd_type x ! i) (fd_buf x ! i) s))"

definition syscall_cleanup_fds :: "u32 \<Rightarrow> 'd sys \<Rightarrow> 'd sys" where
  "syscall_cleanup_fds t s = (if t = 0 then s else fold (cleanup_fd t) [0..<MAX_FD] s)"

section \<open>Seeking and duplicating\<close>

definition sys_lseek :: "registers_t \<Rightarrow> 'd sys \<Rightarrow> 'd reply" where
  "sys_lseek r s =
     (let fd = r_ebx r; offset = r_ecx r; whence = sint (r_edx r) in
      if \<not> fd_live fd s then fail r s
      else if whence < 0 \<or> 2 < whence then fail r s
      else let p = (if whence = 0 then offset
                    else if whence = 1 then fpos_of fd s + offset
                    else fsize_of fd s + offset);
               new_pos = (if p > fsize_of fd s then fsize_of fd s else p)
           in ret new_pos r (set_pos fd new_pos s))"

definition file_alloc :: "u32 \<Rightarrow> u32" where
  "file_alloc sz = (if sz \<noteq> 0 then (sz + 0xFFF) AND NOT 0xFFF else 4096)"

text \<open>A copy of a file's buffer; the address 0 when the heap is exhausted.\<close>

definition copy_file_buf :: "'d env \<Rightarrow> u32 \<Rightarrow> u32 \<Rightarrow> 'd sys \<Rightarrow> (u32 \<times> 'd sys) option" where
  "copy_file_buf E a sz s =
     (case new_buf E (file_alloc sz) s of None \<Rightarrow> None
      | Some (nb, s1) \<Rightarrow>
          if nb = 0 then Some (0, s1)
          else case obj_read 1 a 0 (unat sz) s1 of None \<Rightarrow> None
               | Some bs \<Rightarrow> (case obj_write 1 nb 0 bs s1 of None \<Rightarrow> None | Some s2 \<Rightarrow> Some (nb, s2)))"

definition dup_file_fd :: "'d env \<Rightarrow> u32 \<Rightarrow> nat \<Rightarrow> 'd sys \<Rightarrow> (bool \<times> 'd sys) option" where
  "dup_file_fd E old_fd new_fd s =
     (if ftype_of old_fd s \<noteq> 1 then Some (True, s)
      else case copy_file_buf E (fbuf_of old_fd s) (fsize_of old_fd s) s of None \<Rightarrow> None
           | Some (nb, s1) \<Rightarrow>
               if nb = 0 then Some (False, s1)
               else Some (True, updc (set_fd new_fd nb (fsize_of old_fd s1) (fpos_of old_fd s1) (ftype_of old_fd s1)) s1))"

text \<open>The common end of \<open>dup\<close> and \<open>dup2\<close>.\<close>

definition dup_into :: "'d env \<Rightarrow> u32 \<Rightarrow> nat \<Rightarrow> registers_t \<Rightarrow> 'd sys \<Rightarrow> 'd reply" where
  "dup_into E old_fd new_fd r s =
     (if ftype_of old_fd s = 1 then
        (case dup_file_fd E old_fd new_fd s of None \<Rightarrow> None
         | Some (ok, s1) \<Rightarrow> if ok then ret (of_nat new_fd) r s1 else fail r s1)
      else
        let a = fbuf_of old_fd s; ty = ftype_of old_fd s;
            s1 = updc (set_fd new_fd a (fsize_of old_fd s) (fpos_of old_fd s) ty) s;
            p = pipes (kern s1) a;
            s2 = (if ty = 2 \<or> ty = 3 then set_pipe a (p\<lparr>p_refs := p_refs p + 1\<rparr>) s1 else s1)
        in ret (of_nat new_fd) r s2)"

definition sys_dup :: "'d env \<Rightarrow> registers_t \<Rightarrow> 'd sys \<Rightarrow> 'd reply" where
  "sys_dup E r s =
     (let old_fd = r_ebx r in
      if \<not> fd_live old_fd s then fail r s
      else case free_fds s of [] \<Rightarrow> fail r s | new_fd # _ \<Rightarrow> dup_into E old_fd new_fd r s)"

definition sys_dup2 :: "'d env \<Rightarrow> registers_t \<Rightarrow> 'd sys \<Rightarrow> 'd reply" where
  "sys_dup2 E r s =
     (let old_fd = r_ebx r; new_fd = r_ecx r in
      if unat old_fd \<ge> MAX_FD \<or> unat new_fd \<ge> MAX_FD \<or> fbuf_of old_fd s = 0 then fail r s
      else if old_fd = new_fd then ret new_fd r s
      else dup_into E old_fd (unat new_fd) r
             (if fbuf_of new_fd s \<noteq> 0 then close_obj False (ftype_of new_fd s) (fbuf_of new_fd s) s else s))"

section \<open>Creating pipes\<close>

definition PIPE_SIZE :: u32 where "PIPE_SIZE = 4116"

definition fresh_pipe :: "'d env \<Rightarrow> u32 \<Rightarrow> pipe_t" where
  "fresh_pipe E a = \<lparr>p_buf = map (efresh E a) [0..<PIPE_BUF_SZ], p_rpos = 0, p_wpos = 0, p_count = 0, p_refs = 2, p_broken = False\<rparr>"

definition sys_pipe :: "'d env \<Rightarrow> registers_t \<Rightarrow> 'd sys \<Rightarrow> 'd reply" where
  "sys_pipe E r s =
     (case k_malloc PIPE_SIZE (kern s) of None \<Rightarrow> None
      | Some (a, k) \<Rightarrow>
          let s0 = s\<lparr>kern := k\<rparr> in
          if a = 0 then fail r s0
          else let s1 = set_pipe a (fresh_pipe E a) s0 in
            case free_fds s1 of
              rfd # wfd # _ \<Rightarrow>
                let s2 = updc (set_fd wfd a (of_nat PIPE_BUF_SZ) 0 3 \<circ> set_fd rfd a (of_nat PIPE_BUF_SZ) 0 2) s1
                in (case to_user (r_ebx r) (words_out [of_nat rfd, of_nat wfd]) 8 s2 of None \<Rightarrow> None
                    | Some (ok, s3) \<Rightarrow>
                        if ok then ret 0 r s3
                        else fail r (onk (k_free a) (updc (\<lambda>t. t\<lparr>fd_buf := (fd_buf t)[rfd := 0, wfd := 0],
                               fd_type := (fd_type t)[rfd := 0, wfd := 0]\<rparr>) s3)))
            | _ \<Rightarrow> fail r (onk (k_free a) s1))"

section \<open>Opening\<close>

abbreviation vfsE :: "'d env \<Rightarrow> fs_id \<Rightarrow> 'd sys Filesystem" where "vfsE \<equiv> fs_ops"

definition open_alloc :: "u32 \<Rightarrow> u32" where
  "open_alloc fsize =
     (let a = (fsize + 0xFFF) AND NOT 0xFFF; b = (if a < 4096 then 4096 else a) in if b > 65536 then 65536 else b)"

definition open_file :: "'d env \<Rightarrow> nat \<Rightarrow> cstr \<Rightarrow> registers_t \<Rightarrow> 'd sys \<Rightarrow> 'd reply" where
  "open_file E fd name r s =
     (if \<not> has_cap CAP_FILE_READ s then fail r s
      else case vfs_stat (vfsE E) (mtab s) (Some name) 0 s of None \<Rightarrow> None
           | Some ((fsize, isd), s1) \<Rightarrow>
               if fsize < 0 then fail r (say E (bytes_of ''open: not found: '' @ name @ [10]) s1)
               else let alloc = open_alloc (of_int fsize) in
                 case new_buf E alloc s1 of None \<Rightarrow> None
                 | Some (fb, s2) \<Rightarrow>
                     if fb = 0 then fail r s2
                     else case vfs_open (vfsE E) (mtab s2) (Some name) (kbuf (kern s2) fb) alloc s2 of None \<Rightarrow> None
                          | Some ((sz, bs), s3) \<Rightarrow>
                              let s4 = set_buf_at fb bs s3 in
                              if sz \<le> 0 then fail r (onk (k_free fb) s4)
                              else ret (of_nat fd) r (updc (set_fd fd fb (of_int sz) 0 1) s4))"

definition open_named :: "'d env \<Rightarrow> cstr \<Rightarrow> registers_t \<Rightarrow> 'd sys \<Rightarrow> 'd reply" where
  "open_named E name r s =
     (case free_fds s of [] \<Rightarrow> fail r s
      | fd # _ \<Rightarrow>
          if name = bytes_of ''/dev/null'' then ret (of_nat fd) r (updc (set_fd fd 1 0 0 5) s)
          else if name = bytes_of ''/dev/zero'' then ret (of_nat fd) r (updc (set_fd fd 1 (- 1) 0 6) s)
          else if name = bytes_of ''/dev/input'' then ret (of_nat fd) r (updc (set_fd fd 1 (- 1) 0 7) s)
          else open_file E fd name r s)"

definition sys_open :: "'d env \<Rightarrow> registers_t \<Rightarrow> 'd sys \<Rightarrow> 'd reply" where
  "sys_open E r s = with_name E (r_ebx r) (open_named E) r s"

section \<open>Redirected text output\<close>

definition sys_set_outfd :: "registers_t \<Rightarrow> 'd sys \<Rightarrow> 'd reply" where
  "sys_set_outfd r s =
     (if current_task (kern s) = 0 then fail r s
      else let fd0 = sint (r_ebx r);
               fd = (if fd0 < - 1 \<or> int MAX_FD \<le> fd0 then - 1 else fd0);
               fd' = (if 0 \<le> fd \<and> fd_buf (ct s) ! nat fd = 0 then - 1 else fd)
           in reti (output_fd (ct s)) r (updc (\<lambda>t. t\<lparr>output_fd := fd'\<rparr>) s))"

definition redirect :: "'d sys \<Rightarrow> u32 option" where
  "redirect s =
     (let ofd = (if current_task (kern s) = 0 then - 1 else output_fd (ct s))
      in if 0 \<le> ofd \<and> ofd < int MAX_FD \<and> fd_buf (ct s) ! nat ofd \<noteq> 0 then Some (of_int ofd) else None)"

definition put_text :: "u32 \<Rightarrow> cstr \<Rightarrow> 'd sys \<Rightarrow> 'd sys option" where
  "put_text ofd str s =
     (let out = take (unat (fsize_of ofd s) - unat (fpos_of ofd s)) str
      in case obj_write (ftype_of ofd s) (fbuf_of ofd s) (unat (fpos_of ofd s)) out s of None \<Rightarrow> None
         | Some s1 \<Rightarrow> Some (set_pos ofd (fpos_of ofd s + of_nat (length out)) s1))"

definition sys_gfx_putc :: "registers_t \<Rightarrow> 'd sys \<Rightarrow> 'd reply" where
  "sys_gfx_putc r s =
     (case redirect s of
        Some ofd \<Rightarrow> (case put_text ofd [ucast (r_ebx r)] s of None \<Rightarrow> None | Some s1 \<Rightarrow> ret 0 r s1)
      | None \<Rightarrow> ret 0 r (on_scr (gfx_putc (ucast (r_ebx r))) s))"

definition sys_gfx_puts :: "registers_t \<Rightarrow> 'd sys \<Rightarrow> 'd reply" where
  "sys_gfx_puts r s =
     (case str_into (g_ustr s) (r_ebx r) s of None \<Rightarrow> None
      | Some (ok, b) \<Rightarrow>
          let s1 = s\<lparr>g_ustr := b\<rparr> in
          if \<not> ok then fail r s1
          else case redirect s1 of
                 Some ofd \<Rightarrow> (case put_text ofd (cstr_of b) s1 of None \<Rightarrow> None | Some s2 \<Rightarrow> ret 0 r s2)
               | None \<Rightarrow> ret 0 r (on_scr (puts_utf8 (cstr_of b)) s1))"

section \<open>A pipe is a bounded byte queue\<close>

text \<open>The interface: operations that accept as many bytes as fit and hand out the oldest ones. A run of
  the two in any order delivers what was accepted, in order and without loss.\<close>

datatype stream_op = Put "u8 list" | Get nat

fun stream_run :: "(u8 list \<Rightarrow> 's \<Rightarrow> nat \<times> 's) \<Rightarrow> (nat \<Rightarrow> 's \<Rightarrow> u8 list \<times> 's) \<Rightarrow> stream_op list \<Rightarrow> 's \<Rightarrow> u8 list \<times> u8 list \<times> 's" where
  "stream_run put get [] s = ([], [], s)"
| "stream_run put get (Put bs # ops) s =
     (case put bs s of (n, s1) \<Rightarrow> case stream_run put get ops s1 of (acc, del, s2) \<Rightarrow> (take n bs @ acc, del, s2))"
| "stream_run put get (Get n # ops) s =
     (case get n s of (bs, s1) \<Rightarrow> case stream_run put get ops s1 of (acc, del, s2) \<Rightarrow> (acc, bs @ del, s2))"

locale byte_stream =
  fixes inv :: "'s \<Rightarrow> bool"
    and content :: "'s \<Rightarrow> u8 list"
    and room :: nat
    and put :: "u8 list \<Rightarrow> 's \<Rightarrow> nat \<times> 's"
    and get :: "nat \<Rightarrow> 's \<Rightarrow> u8 list \<times> 's"
  assumes fits: "inv s \<Longrightarrow> length (content s) \<le> room"
    and put_law: "inv s \<Longrightarrow> put bs s = (n, s') \<Longrightarrow>
      inv s' \<and> n = min (length bs) (room - length (content s)) \<and> content s' = content s @ take n bs"
    and get_law: "inv s \<Longrightarrow> get k s = (bs, s') \<Longrightarrow> inv s' \<and> bs = take (min k room) (content s) \<and> content s = bs @ content s'"
begin

lemma run_delivers:
  assumes "inv s" "stream_run put get ops s = (acc, del, s')"
  shows "inv s' \<and> content s @ acc = del @ content s'"
  using assms
proof (induction ops arbitrary: s acc del)
  case (Cons x ops)
  show ?case
  proof (cases x)
    case (Put bs)
    obtain n s1 where p: "put bs s = (n, s1)" by fastforce
    obtain acc1 where r: "stream_run put get ops s1 = (acc1, del, s')" "acc = take n bs @ acc1"
      using Cons.prems(2) Put p by (auto split: prod.splits)
    then show ?thesis using Cons.IH [OF _ r(1)] put_law [OF Cons.prems(1) p] by simp
  next
    case (Get k)
    obtain bs s1 where g: "get k s = (bs, s1)" by fastforce
    obtain del1 where r: "stream_run put get ops s1 = (acc, del1, s')" "del = bs @ del1"
      using Cons.prems(2) Get g by (auto split: prod.splits)
    have law: "inv s1" "content s = bs @ content s1" using get_law [OF Cons.prems(1) g] by blast+
    have "inv s' \<and> content s1 @ acc = del1 @ content s'" by (rule Cons.IH [OF law(1) r(1)])
    then show ?thesis unfolding law(2) r(2) append_assoc by blast
  qed
qed simp

lemma run_bounded:
  assumes "inv s" "stream_run put get ops s = (acc, del, s')"
  shows "length (content s') \<le> room \<and> length del \<le> length (content s) + length acc"
proof -
  have d: "inv s'" "content s @ acc = del @ content s'" using run_delivers [OF assms] by blast+
  have "length (content s @ acc) = length (del @ content s')" by (rule arg_cong [OF d(2)])
  then show ?thesis using fits [OF d(1)] by simp
qed

end

text \<open>The contents of the buffer from the read position on.\<close>

definition pipe_seg :: "nat \<Rightarrow> pipe_t \<Rightarrow> u8 list" where
  "pipe_seg c p = map (\<lambda>i. p_buf p ! ((p_rpos p + i) mod PIPE_BUF_SZ)) [0..<c]"

definition pipe_list :: "pipe_t \<Rightarrow> u8 list" where
  "pipe_list p = pipe_seg (unat (p_count p)) p"

definition pipe_ok :: "pipe_t \<Rightarrow> bool" where
  "pipe_ok p = (length (p_buf p) = PIPE_BUF_SZ \<and> p_rpos p < PIPE_BUF_SZ \<and> unat (p_count p) \<le> PIPE_BUF_SZ \<and>
     p_wpos p = (p_rpos p + unat (p_count p)) mod PIPE_BUF_SZ)"

lemma PIPE_pos [simp]: "0 < PIPE_BUF_SZ"
  by (simp add: PIPE_BUF_SZ_def)

lemma length_pipe_seg [simp]: "length (pipe_seg c p) = c"
  by (simp add: pipe_seg_def)

lemma ring_slot_neq:
  fixes r i c n :: nat
  assumes "i < c" "c < n"
  shows "(r + i) mod n \<noteq> (r + c) mod n"
proof
  assume "(r + i) mod n = (r + c) mod n"
  then have "n dvd (r + c) - (r + i)" using assms by (metis add_le_cancel_left less_imp_le mod_eq_dvd_iff_nat)
  then show False using assms by (auto dest: dvd_imp_le)
qed

lemma pipe_fill_spec:
  assumes "length (p_buf p) = PIPE_BUF_SZ" "p_wpos p = (p_rpos p + c) mod PIPE_BUF_SZ" "c + length bs \<le> PIPE_BUF_SZ"
  shows "pipe_seg (c + length bs) (pipe_fill bs p) = pipe_seg c p @ bs \<and>
    length (p_buf (pipe_fill bs p)) = PIPE_BUF_SZ \<and>
    p_wpos (pipe_fill bs p) = (p_rpos p + (c + length bs)) mod PIPE_BUF_SZ \<and>
    p_rpos (pipe_fill bs p) = p_rpos p \<and> p_count (pipe_fill bs p) = p_count p \<and>
    p_refs (pipe_fill bs p) = p_refs p \<and> p_broken (pipe_fill bs p) = p_broken p"
  using assms
proof (induction bs arbitrary: p c)
  case (Cons b bs)
  let ?p = "p\<lparr>p_buf := (p_buf p)[p_wpos p := b], p_wpos := (p_wpos p + 1) mod PIPE_BUF_SZ\<rparr>"
  have w: "p_wpos ?p = (p_rpos ?p + Suc c) mod PIPE_BUF_SZ"
    using Cons.prems(2) by (simp add: mod_Suc_eq)
  have old: "p_buf ?p ! ((p_rpos p + i) mod PIPE_BUF_SZ) = p_buf p ! ((p_rpos p + i) mod PIPE_BUF_SZ)" if "i < c" for i
    using ring_slot_neq [OF that, of PIPE_BUF_SZ "p_rpos p"] Cons.prems by (simp add: nth_list_update)
  have new: "p_buf ?p ! ((p_rpos p + c) mod PIPE_BUF_SZ) = b"
    using Cons.prems by simp
  have "pipe_seg (Suc c) ?p = pipe_seg c p @ [b]"
    using old new by (simp add: pipe_seg_def)
  then show ?case using Cons.IH [of ?p "Suc c"] w Cons.prems by simp
qed (simp add: pipe_seg_def)

lemma pipe_take_spec:
  "n \<le> c \<Longrightarrow> p_rpos p < PIPE_BUF_SZ \<Longrightarrow>
     pipe_take n p = (take n (pipe_seg c p), p\<lparr>p_rpos := (p_rpos p + n) mod PIPE_BUF_SZ\<rparr>)"
proof (induction n arbitrary: p c)
  case (Suc n)
  let ?p = "p\<lparr>p_rpos := (p_rpos p + 1) mod PIPE_BUF_SZ\<rparr>"
  obtain c' where c: "c = Suc c'" using Suc.prems(1) by (cases c) auto
  have seg: "pipe_seg c p = p_buf p ! p_rpos p # pipe_seg c' ?p"
  proof (rule nth_equalityI)
    fix i
    assume "i < length (pipe_seg c p)"
    then show "pipe_seg c p ! i = (p_buf p ! p_rpos p # pipe_seg c' ?p) ! i"
      using Suc.prems(2) c by (cases i) (simp_all add: pipe_seg_def mod_Suc_eq mod_add_left_eq del: upt_Suc)
  qed (simp add: c)
  have "pipe_take n ?p = (take n (pipe_seg c' ?p), ?p\<lparr>p_rpos := (p_rpos ?p + n) mod PIPE_BUF_SZ\<rparr>)"
    using Suc.IH [of c' ?p] Suc.prems(1) c by simp
  then show ?case using seg by (simp add: mod_add_left_eq)
qed simp

lemma pipe_seg_drop:
  "pipe_seg (c - n) (p\<lparr>p_rpos := (p_rpos p + n) mod PIPE_BUF_SZ, p_count := k\<rparr>) = drop n (pipe_seg c p)"
  unfolding pipe_seg_def drop_map by (rule nth_equalityI) (simp_all add: mod_add_left_eq add.assoc)

lemma pipe_write_spec:
  assumes ok: "pipe_ok p" and nb: "\<not> p_broken p" and len: "unat len \<le> length data" and w: "pipe_write data len p = (v, p')"
  shows "pipe_ok p' \<and> \<not> p_broken p' \<and> p_refs p' = p_refs p \<and> unat v = min (unat len) (PIPE_BUF_SZ - length (pipe_list p)) \<and>
    pipe_list p' = pipe_list p @ take (unat v) data"
proof -
  let ?avail = "of_nat PIPE_BUF_SZ - p_count p"
  let ?n = "if len > ?avail then ?avail else len"
  have c: "unat (p_count p) \<le> 4096" using ok by (simp add: pipe_ok_def PIPE_BUF_SZ_def)
  then have av: "unat ?avail = 4096 - unat (p_count p)" by (simp add: PIPE_BUF_SZ_def unat_sub word_le_nat_alt)
  have n: "unat ?n = min (unat len) (4096 - unat (p_count p))" using av by (simp add: word_less_nat_alt)
  have cnt: "unat (p_count p + ?n) = unat (p_count p) + unat ?n"
  proof (rule unat_add_lem [THEN iffD1])
    have "unat ?n \<le> 4096 - unat (p_count p)" unfolding n by simp
    then show "unat (p_count p) + unat ?n < 2 ^ LENGTH(32)" using c by simp
  qed
  show ?thesis
  proof (cases "?n = 0")
    case True
    then have "min (unat len) (4096 - unat (p_count p)) = 0" using n by simp
    then have z: "min (unat len) (PIPE_BUF_SZ - length (pipe_list p)) = 0" by (simp add: pipe_list_def PIPE_BUF_SZ_def)
    have "(v, p') = (0, p)" using w nb True unfolding pipe_write_def Let_def by simp
    with z show ?thesis using nb ok by simp
  next
    case False
    then have v: "v = ?n" and p': "p' = (pipe_fill (take (unat ?n) data) p)\<lparr>p_count := p_count p + ?n\<rparr>"
      using w nb by (auto simp: pipe_write_def Let_def split: if_splits)
    have l: "length (take (unat ?n) data) = unat ?n" using n len by simp
    have "unat ?n \<le> 4096 - unat (p_count p)" unfolding n by simp
    then have "unat (p_count p) + unat ?n \<le> PIPE_BUF_SZ" using c unfolding PIPE_BUF_SZ_def by linarith
    then have f: "pipe_seg (unat (p_count p) + unat ?n) (pipe_fill (take (unat ?n) data) p) = pipe_list p @ take (unat ?n) data \<and>
        length (p_buf (pipe_fill (take (unat ?n) data) p)) = PIPE_BUF_SZ \<and>
        p_wpos (pipe_fill (take (unat ?n) data) p) = (p_rpos p + (unat (p_count p) + unat ?n)) mod PIPE_BUF_SZ \<and>
        p_rpos (pipe_fill (take (unat ?n) data) p) = p_rpos p \<and> p_count (pipe_fill (take (unat ?n) data) p) = p_count p \<and>
        p_refs (pipe_fill (take (unat ?n) data) p) = p_refs p \<and> p_broken (pipe_fill (take (unat ?n) data) p) = p_broken p"
      using pipe_fill_spec [of p "unat (p_count p)" "take (unat ?n) data"] ok unfolding l pipe_list_def
      by (simp add: pipe_ok_def)
    have seg: "pipe_list p' = pipe_seg (unat (p_count p) + unat ?n) (pipe_fill (take (unat ?n) data) p)"
      unfolding pipe_list_def p' using cnt by (simp add: pipe_seg_def)
    have "pipe_ok p'" using f ok cnt \<open>unat (p_count p) + unat ?n \<le> PIPE_BUF_SZ\<close> unfolding p' by (simp add: pipe_ok_def)
    moreover have "unat v = min (unat len) (PIPE_BUF_SZ - length (pipe_list p))"
      using n v by (simp add: pipe_list_def PIPE_BUF_SZ_def)
    moreover have "p_refs p' = p_refs p" "\<not> p_broken p'" using f nb unfolding p' by simp_all
    ultimately show ?thesis using seg f v by simp
  qed
qed

lemma pipe_read_spec:
  assumes ok: "pipe_ok p" and r: "pipe_read len p = (v, bs, p')"
  shows "pipe_ok p' \<and> p_broken p' = p_broken p \<and> p_refs p' = p_refs p \<and> bs = take (unat len) (pipe_list p) \<and>
    pipe_list p = bs @ pipe_list p' \<and> (bs \<noteq> [] \<longrightarrow> v = of_nat (length bs)) \<and> (bs = [] \<longrightarrow> v = (if p_broken p then - 1 else 0))"
proof -
  let ?n = "if p_count p > len then len else p_count p"
  have n: "unat ?n = min (unat len) (unat (p_count p))" by (simp add: word_less_nat_alt)
  have le: "?n \<le> p_count p" by auto
  have sub: "unat (p_count p - ?n) = unat (p_count p) - unat ?n" using le by (rule unat_sub)
  show ?thesis
  proof (cases "?n = 0")
    case True
    then have "min (unat len) (unat (p_count p)) = 0" using n by simp
    then have "take (unat len) (pipe_list p) = []" by (auto simp: pipe_list_def pipe_seg_def min_def split: if_splits)
    moreover have "v = (if p_broken p then - 1 else 0)" "bs = []" "p' = p"
      using True r by (auto simp: pipe_read_def Let_def split: if_splits)
    ultimately show ?thesis using ok by simp
  next
    case False
    have pos: "p_rpos p < PIPE_BUF_SZ" using ok by (simp add: pipe_ok_def)
    have t: "pipe_take (unat ?n) p = (take (unat ?n) (pipe_list p), p\<lparr>p_rpos := (p_rpos p + unat ?n) mod PIPE_BUF_SZ\<rparr>)"
      unfolding pipe_list_def by (rule pipe_take_spec) (use n pos in auto)
    then have v: "v = ?n" and b: "bs = take (unat ?n) (pipe_list p)"
      and p': "p' = p\<lparr>p_rpos := (p_rpos p + unat ?n) mod PIPE_BUF_SZ, p_count := p_count p - ?n\<rparr>"
      using r False by (auto simp: pipe_read_def Let_def split: if_splits)
    have l: "length (pipe_list p) = unat (p_count p)" by (simp add: pipe_list_def)
    have b2: "bs = take (unat len) (pipe_list p)" unfolding b using n l by (simp add: min_def)
    have "unat (p_count p') = unat (p_count p) - unat ?n" using p' sub by simp
    then have "pipe_list p' = drop (unat ?n) (pipe_list p)" unfolding pipe_list_def p' using pipe_seg_drop by simp
    then have app: "pipe_list p = bs @ pipe_list p'" unfolding b by simp
    have len_bs: "length bs = unat ?n" unfolding b using n l by simp
    have nle: "unat ?n \<le> unat (p_count p)" unfolding n by simp
    have "((p_rpos p + unat ?n) mod PIPE_BUF_SZ + (unat (p_count p) - unat ?n)) mod PIPE_BUF_SZ =
        (p_rpos p + unat ?n + (unat (p_count p) - unat ?n)) mod PIPE_BUF_SZ" by (rule mod_add_left_eq)
    also have "p_rpos p + unat ?n + (unat (p_count p) - unat ?n) = p_rpos p + unat (p_count p)" using nle by linarith
    finally have "p_wpos p' = (p_rpos p' + unat (p_count p')) mod PIPE_BUF_SZ"
      using ok \<open>unat (p_count p') = unat (p_count p) - unat ?n\<close> unfolding p' by (simp add: pipe_ok_def)
    moreover have "unat (p_count p') \<le> PIPE_BUF_SZ"
      using ok \<open>unat (p_count p') = unat (p_count p) - unat ?n\<close> unfolding pipe_ok_def by linarith
    moreover have "length (p_buf p') = PIPE_BUF_SZ" using ok unfolding p' by (simp add: pipe_ok_def)
    moreover have "p_rpos p' < PIPE_BUF_SZ" unfolding p' by simp
    ultimately have "pipe_ok p'" unfolding pipe_ok_def by blast
    moreover have "bs \<noteq> []" using len_bs False by (metis list.size(3) unat_eq_zero)
    moreover have "v = of_nat (length bs)" unfolding len_bs v by simp
    moreover have "p_broken p' = p_broken p" "p_refs p' = p_refs p" unfolding p' by simp_all
    ultimately show ?thesis using app b2 by blast
  qed
qed

text \<open>The two ends of a pipe as the system calls use them: at most 4096 bytes at a time.\<close>

definition pipe_put :: "u8 list \<Rightarrow> pipe_t \<Rightarrow> nat \<times> pipe_t" where
  "pipe_put bs p = (case pipe_write (take PIPE_BUF_SZ bs) (of_nat (min PIPE_BUF_SZ (length bs))) p of (v, p') \<Rightarrow> (unat v, p'))"

definition pipe_get :: "nat \<Rightarrow> pipe_t \<Rightarrow> u8 list \<times> pipe_t" where
  "pipe_get n p = (case pipe_read (of_nat (min n PIPE_BUF_SZ)) p of (v, bs, p') \<Rightarrow> (bs, p'))"

definition pipe_open :: "pipe_t \<Rightarrow> bool" where
  "pipe_open p = (pipe_ok p \<and> \<not> p_broken p)"

lemma unat_small_len: "unat (of_nat (min n PIPE_BUF_SZ) :: u32) = min n PIPE_BUF_SZ"
  unfolding unsigned_of_nat of_nat_id PIPE_BUF_SZ_def by (simp add: take_bit_nat_eq_self min_def)

interpretation pipe_stream: byte_stream pipe_open pipe_list PIPE_BUF_SZ pipe_put pipe_get
proof
  fix s :: pipe_t
  assume "pipe_open s"
  then show "length (pipe_list s) \<le> PIPE_BUF_SZ" by (simp add: pipe_open_def pipe_ok_def pipe_list_def)
next
  fix s s' :: pipe_t and bs n
  assume o: "pipe_open s" and p: "pipe_put bs s = (n, s')"
  obtain v where w: "pipe_write (take PIPE_BUF_SZ bs) (of_nat (min PIPE_BUF_SZ (length bs))) s = (v, s')" and n: "n = unat v"
    using p by (auto simp: pipe_put_def split: prod.splits)
  have u: "unat (of_nat (min PIPE_BUF_SZ (length bs)) :: u32) = min PIPE_BUF_SZ (length bs)"
    using unat_small_len [of "length bs"] by (simp add: min.commute)
  have "length (pipe_list s) \<le> PIPE_BUF_SZ" using o by (simp add: pipe_open_def pipe_ok_def pipe_list_def)
  then show "pipe_open s' \<and> n = min (length bs) (PIPE_BUF_SZ - length (pipe_list s)) \<and> pipe_list s' = pipe_list s @ take n bs"
    using pipe_write_spec [OF _ _ _ w] o u n by (auto simp: pipe_open_def min_def)
next
  fix s s' :: pipe_t and bs k
  assume "pipe_open s" "pipe_get k s = (bs, s')"
  then obtain v where o: "pipe_ok s" "\<not> p_broken s" and r: "pipe_read (of_nat (min k PIPE_BUF_SZ)) s = (v, bs, s')"
    by (auto simp: pipe_open_def pipe_get_def split: prod.splits)
  show "pipe_open s' \<and> bs = take (min k PIPE_BUF_SZ) (pipe_list s) \<and> pipe_list s = bs @ pipe_list s'"
    using pipe_read_spec [OF o(1) r] o(2) unfolding pipe_open_def unat_small_len by blast
qed

section \<open>Properties\<close>

text \<open>C3. A pipe is a lossless queue: whatever sequence of writes and reads its two ends perform, the bytes
  delivered so far are the bytes that were in the pipe followed by those the writes accepted, in order, up to
  the bytes that are still in the pipe; and the pipe never holds more than 4096 bytes.\<close>

theorem pipe_fifo:
  assumes "pipe_open p" "stream_run pipe_put pipe_get ops p = (acc, del, p')"
  shows "pipe_open p' \<and> pipe_list p @ acc = del @ pipe_list p' \<and> length (pipe_list p') \<le> PIPE_BUF_SZ"
  using pipe_stream.run_delivers [OF assms] pipe_stream.run_bounded [OF assms] by blast

definition demo_pipe :: pipe_t where
  "demo_pipe = \<lparr>p_buf = replicate 4096 7, p_rpos = 4094, p_wpos = 4094, p_count = 0, p_refs = 2, p_broken = False\<rparr>"

lemma demo_pipe_open: "pipe_open demo_pipe"
  by (simp add: pipe_open_def pipe_ok_def demo_pipe_def PIPE_BUF_SZ_def)

theorem pipe_fifo_witness:
  "pipe_open demo_pipe \<and>
   (case stream_run pipe_put pipe_get [Put [1, 2, 3], Get 2, Put [4], Get 9] demo_pipe of
      (acc, del, p') \<Rightarrow> pipe_list demo_pipe @ acc = del @ pipe_list p')"
  using demo_pipe_open
    pipe_fifo [of demo_pipe "[Put [1, 2, 3], Get 2, Put [4], Get 9]"
      "fst (stream_run pipe_put pipe_get [Put [1, 2, 3], Get 2, Put [4], Get 9] demo_pipe)"
      "fst (snd (stream_run pipe_put pipe_get [Put [1, 2, 3], Get 2, Put [4], Get 9] demo_pipe))"
      "snd (snd (stream_run pipe_put pipe_get [Put [1, 2, 3], Get 2, Put [4], Get 9] demo_pipe))"]
  unfolding prod.collapse split_beta by blast

text \<open>C36. A write of 4096 bytes or more to the screen overruns \<open>g_ubin\<close>: the length is capped at the size of the
  buffer, and the terminator goes behind its last byte.\<close>

theorem fwrite_screen_overflow:
  assumes "fd_live (r_ebx r) s" "ftype_of (r_ebx r) s = 4" "length (g_ubin s) = 4096" "4096 \<le> r_edx r"
    "from_user (g_ubin s) (r_ecx r) 4096 s = Some (True, b)"
  shows "sys_fwrite E r s = None"
proof -
  have len: "(if 4096 < r_edx r then 4096 else r_edx r) = 4096" using assms(4) by auto
  have "length b = 4096" using from_user_length [OF assms(5)] assms(3) by simp
  then show ?thesis using assms(1,2,5) unfolding sys_fwrite_def Let_def len by (simp add: write_screen_def)
qed

theorem fwrite_screen_overflow_witness:
  "sys_fwrite demo_env (demo_call 0 0x400000 5000) demo_sys = None"
  using fwrite_screen_overflow [of "demo_call 0 0x400000 5000" demo_sys] demo_from_user [of 4096 "replicate 4096 0"]
  by (simp add: fd_live_def demo_call_def MAX_FD_def)

text \<open>C37. Closing one of several descriptors for the write end of a pipe breaks the pipe for all of them: the next
  write through another descriptor fails, although the pipe is still referenced and can take data.\<close>

theorem close_breaks_shared_pipe:
  assumes "fd_live i s" "fd_live j s" "i \<noteq> j" "ftype_of i s = 3" "ftype_of j s = 3" "fbuf_of j s = fbuf_of i s"
    "r_ebx rc = i" "r_ebx rw = j"
    "from_user (g_ubin s) (r_ecx rw) (if 4096 < r_edx rw then 4096 else r_edx rw) s = Some (True, b)"
  shows "\<exists>s1 s2. sys_close rc s = Some (rc\<lparr>r_eax := 0\<rparr>, s1) \<and> sys_fwrite E rw s1 = Some (rw\<lparr>r_eax := - 1\<rparr>, s2)"
proof -
  let ?a = "fbuf_of i s" and ?k = "kern s"
  define s1 where "s1 = updc (set_fd (unat i) 0 0 0 0) (drop_pipe True ?a s)"
  have cl: "sys_close rc s = Some (rc\<lparr>r_eax := 0\<rparr>, s1)"
    using assms(1,4,7) by (simp add: sys_close_def ret_def close_obj_def s1_def Let_def)
  have ij: "unat i \<noteq> unat j" using assms(3) by (simp add: word_unat_eq_iff)
  have k: "\<exists>h. kern (drop_pipe True ?a s) = ?k\<lparr>pipes := (pipes ?k)(?a := (pipes ?k ?a)\<lparr>p_refs := p_refs (pipes ?k ?a) - 1, p_broken := True\<rparr>),
      kheap := h\<rparr> \<and> g_ubin (drop_pipe True ?a s) = g_ubin s \<and> g_user_pd (drop_pipe True ?a s) = g_user_pd s"
    by (auto simp: drop_pipe_def set_pipe_def onk_def k_free_def Let_def intro: exI [of _ "kheap ?k"])
  then obtain h where k1: "kern s1 = upd (current_task ?k) (set_fd (unat i) 0 0 0 0)
      (?k\<lparr>pipes := (pipes ?k)(?a := (pipes ?k ?a)\<lparr>p_refs := p_refs (pipes ?k ?a) - 1, p_broken := True\<rparr>), kheap := h\<rparr>)"
    and g1: "g_ubin s1 = g_ubin s" "g_user_pd s1 = g_user_pd s"
    by (auto simp: s1_def updc_def onk_def)
  have j1: "fbuf_of j s1 = ?a" "ftype_of j s1 = 3" "fd_live j s1" "p_broken (pipes (kern s1) ?a)"
    using assms(1,2,5,6) ij unfolding fd_live_def k1 by (simp_all add: upd_def set_fd_def)
  have "user_pd s1 = user_pd s" using g1(2) by (simp add: user_pd_def pd_at_def k1 upd_def set_fd_def)
  moreover have "ram (ph (kern s1)) = ram (ph ?k)" by (simp add: k1 upd_def)
  ultimately have u: "from_user (g_ubin s1) (r_ecx rw) (if 4096 < r_edx rw then 4096 else r_edx rw) s1 = Some (True, b)"
    using assms(9) g1(1) by (simp add: from_user_def)
  have "\<exists>s2. sys_fwrite E rw s1 = Some (rw\<lparr>r_eax := - 1\<rparr>, s2)"
    using u j1 assms(8) unfolding sys_fwrite_def Let_def by (simp add: pipe_write_def ret_def)
  with cl show ?thesis by blast
qed

definition demo_shared :: "pio sys" where
  "demo_shared = onk (\<lambda>k. k\<lparr>pipes := (\<lambda>_. demo_pipe\<lparr>p_refs := 3\<rparr>)\<rparr>) (updc (set_fd 2 64 4096 0 3 \<circ> set_fd 1 64 4096 0 3) demo_sys)"

theorem close_breaks_shared_pipe_witness:
  "\<exists>s1 s2. sys_close (demo_call 1 0 0) demo_shared = Some ((demo_call 1 0 0)\<lparr>r_eax := 0\<rparr>, s1) \<and>
     sys_fwrite demo_env (demo_call 2 0x400000 3) s1 = Some ((demo_call 2 0x400000 3)\<lparr>r_eax := - 1\<rparr>, s2)"
proof -
  have t: "tsk (kern demo_shared) 0x01001014 = set_fd 2 64 4096 0 3 (set_fd 1 64 4096 0 3 (tsk demo_ksys 0x01001014))"
    "current_task (kern demo_shared) = 0x01001014"
    by (simp_all add: demo_shared_def upd_def)
  have "user_pd demo_shared = user_pd demo_sys" "ram (ph (kern demo_shared)) = ram (ph (kern demo_sys))" "g_ubin demo_shared = g_ubin demo_sys"
    by (simp_all add: user_pd_def pd_at_def demo_shared_def updc_def onk_def upd_def set_fd_def)
  then have "from_user (g_ubin demo_shared) 0x400000 3 demo_shared = Some (True, rd_bytes demo_ram 0x800000 3 @ drop 3 (replicate 4096 0))"
    using demo_from_user [of 3 "replicate 4096 0"] by (simp add: from_user_def)
  then show ?thesis
    using close_breaks_shared_pipe [of 1 demo_shared 2 "demo_call 1 0 0" "demo_call 2 0x400000 3" _ demo_env] t
    by (simp add: fd_live_def demo_call_def MAX_FD_def set_fd_def)
qed

end
