(* ===== verification/XE_Fdinv.thy ===== *)
theory XE_Fdinv
  imports XE_Fd
begin

text \<open>
  Ownership of the kernel objects behind file descriptors. A file buffer belongs to exactly one
  descriptor of one task, a pipe to as many as its reference count says, and none of them is a task
  struct, a kernel stack, a page directory or a block of the ram disk. The system calls on descriptors keep
  this, so no block is freed twice or used after it was freed; the one exception is \<open>dup2\<close> on an
  exhausted heap. The last property shows what the text calls do with the pointer of a device descriptor.
\<close>

unbundle bit_operations_syntax

section \<open>Ownership, abstractly\<close>

datatype fobj = NoObj | FileObj u32 | PipeObj u32

definition pipe_users :: "'x set \<Rightarrow> ('x \<Rightarrow> fobj) \<Rightarrow> u32 \<Rightarrow> 'x set" where
  "pipe_users D S a = {x \<in> D. S x = PipeObj a}"

definition addrs :: "'x set \<Rightarrow> ('x \<Rightarrow> fobj) \<Rightarrow> u32 set" where
  "addrs D S = {a. \<exists>x \<in> D. S x = FileObj a \<or> S x = PipeObj a}"

text \<open>Slots \<open>D\<close> with contents \<open>S\<close>, reference counts, blocks of other owners, the heap.\<close>

definition obj_inv :: "'x set \<Rightarrow> ('x \<Rightarrow> fobj) \<Rightarrow> (u32 \<Rightarrow> int) \<Rightarrow> u32 set \<Rightarrow> hheap \<Rightarrow> bool" where
  "obj_inv D S refs others h =
     (finite D \<and>
      (\<forall>x \<in> D. \<forall>y \<in> D. \<forall>a. S x = FileObj a \<longrightarrow> S y = FileObj a \<longrightarrow> x = y) \<and>
      (\<forall>x \<in> D. \<forall>y \<in> D. \<forall>a. S x = FileObj a \<longrightarrow> S y \<noteq> PipeObj a) \<and>
      addrs D S \<inter> others = {} \<and> 0 \<notin> addrs D S \<and>
      (\<forall>a. pipe_users D S a \<noteq> {} \<longrightarrow> refs a = int (card (pipe_users D S a))) \<and>
      held h (others \<union> addrs D S))"

lemma obj_invD:
  assumes "obj_inv D S refs others h"
  shows "finite D" "x \<in> D \<Longrightarrow> y \<in> D \<Longrightarrow> S x = FileObj a \<Longrightarrow> S y = FileObj a \<Longrightarrow> x = y"
    "x \<in> D \<Longrightarrow> y \<in> D \<Longrightarrow> S x = FileObj a \<Longrightarrow> S y = PipeObj a \<Longrightarrow> False"
    "addrs D S \<inter> others = {}" "0 \<notin> addrs D S"
    "x \<in> D \<Longrightarrow> S x = PipeObj a \<Longrightarrow> refs a = int (card (pipe_users D S a))"
    "held h (others \<union> addrs D S)"
  using assms unfolding obj_inv_def pipe_users_def by blast+

lemma obj_invI:
  assumes "finite D" "\<And>x y a. x \<in> D \<Longrightarrow> y \<in> D \<Longrightarrow> S x = FileObj a \<Longrightarrow> S y = FileObj a \<Longrightarrow> x = y"
    "\<And>x y a. x \<in> D \<Longrightarrow> y \<in> D \<Longrightarrow> S x = FileObj a \<Longrightarrow> S y = PipeObj a \<Longrightarrow> False"
    "\<And>a. a \<in> addrs D S \<Longrightarrow> a \<notin> others \<and> a \<noteq> 0"
    "\<And>x a. x \<in> D \<Longrightarrow> S x = PipeObj a \<Longrightarrow> refs a = int (card (pipe_users D S a))"
    "held h (others \<union> addrs D S)"
  shows "obj_inv D S refs others h"
proof -
  have "refs a = int (card (pipe_users D S a))" if "pipe_users D S a \<noteq> {}" for a
    using that assms(5) by (auto simp: pipe_users_def)
  then show ?thesis unfolding obj_inv_def using assms(1-4,6) by blast
qed

text \<open>What freeing the contents of a slot does to the counts and to the heap.\<close>

definition refs_after :: "fobj \<Rightarrow> (u32 \<Rightarrow> int) \<Rightarrow> u32 \<Rightarrow> int" where
  "refs_after x refs = (case x of PipeObj a \<Rightarrow> refs(a := refs a - 1) | _ \<Rightarrow> refs)"

definition heap_after :: "fobj \<Rightarrow> (u32 \<Rightarrow> int) \<Rightarrow> hheap \<Rightarrow> hheap" where
  "heap_after x refs h =
     (case x of NoObj \<Rightarrow> h | FileObj a \<Rightarrow> kfree a h | PipeObj a \<Rightarrow> if refs a - 1 \<le> 0 then kfree a h else h)"

lemma addrs_upd:
  "x \<in> D \<Longrightarrow> addrs D (S(x := v)) = addrs (D - {x}) S \<union> (case v of NoObj \<Rightarrow> {} | FileObj a \<Rightarrow> {a} | PipeObj a \<Rightarrow> {a})"
  by (auto simp: addrs_def split: fobj.splits)

lemma addrs_rest: "addrs (D - {x}) S \<subseteq> addrs D S"
  by (auto simp: addrs_def)

lemma addrs_free: "S x = NoObj \<Longrightarrow> addrs (D - {x}) S = addrs D S"
  unfolding addrs_def by (metis Diff_iff fobj.distinct(1,3) singletonD)

lemma addrs_mem: "x \<in> D \<Longrightarrow> S x = FileObj a \<or> S x = PipeObj a \<Longrightarrow> a \<in> addrs D S"
  by (auto simp: addrs_def)

lemma pipe_users_upd:
  "x \<in> D \<Longrightarrow> pipe_users D (S(x := v)) a = (if v = PipeObj a then insert x (pipe_users D S a) else pipe_users D S a - {x})"
  by (auto simp: pipe_users_def)

lemma obj_inv_drop:
  assumes inv: "obj_inv D S refs others h" and x: "x \<in> D"
  shows "obj_inv D (S(x := NoObj)) (refs_after (S x) refs) others (heap_after (S x) refs h)"
proof -
  note I = obj_invD [OF inv]
  let ?S = "S(x := NoObj)"
  have sub: "addrs D ?S = addrs (D - {x}) S" using x by (simp add: addrs_upd)
  have fin: "finite (pipe_users D S a)" for a using I(1) by (simp add: pipe_users_def)
  have rest: "others \<union> addrs (D - {x}) S \<subseteq> others \<union> addrs D S" using addrs_rest [of D x S] by blast
  have held: "held (heap_after (S x) refs h) (others \<union> addrs (D - {x}) S)"
  proof (cases "S x")
    case NoObj
    then have "heap_after (S x) refs h = h" by (simp add: heap_after_def)
    then show ?thesis using held_mono [OF I(7) rest] by simp
  next
    case (FileObj a)
    have "a \<notin> others" using I(4) x FileObj by (auto simp: addrs_def)
    moreover have "a \<notin> addrs (D - {x}) S"
      using I(2) [OF x _ FileObj] I(3) [OF x _ FileObj] by (fastforce simp: addrs_def)
    moreover have "held h (insert a (others \<union> addrs (D - {x}) S))"
      by (rule held_mono [OF I(7)]) (use x FileObj addrs_rest [of D x S] in \<open>auto simp: addrs_def\<close>)
    ultimately show ?thesis using FileObj by (simp add: heap_after_def held_free)
  next
    case (PipeObj a)
    have u: "x \<in> pipe_users D S a" using x PipeObj by (simp add: pipe_users_def)
    show ?thesis
    proof (cases "refs a - 1 \<le> 0")
      case True
      then have "card (pipe_users D S a) \<le> 1" using I(6) [OF x PipeObj] by simp
      then have "card (pipe_users D S a) = 1" using u fin [of a] by (metis One_nat_def card_0_eq empty_iff le_SucE le_zero_eq)
      then have "pipe_users D S a = {x}" using u by (metis card_1_singletonE singletonD)
      then have "a \<notin> addrs (D - {x}) S" using I(3) [OF _ x _ PipeObj] by (auto simp: addrs_def pipe_users_def)
      moreover have "a \<notin> others" using I(4) x PipeObj by (auto simp: addrs_def)
      moreover have "held h (insert a (others \<union> addrs (D - {x}) S))"
        by (rule held_mono [OF I(7)]) (use x PipeObj addrs_rest [of D x S] in \<open>auto simp: addrs_def\<close>)
      ultimately show ?thesis using PipeObj True by (simp add: heap_after_def held_free)
    next
      case False
      then have "heap_after (S x) refs h = h" using PipeObj by (simp add: heap_after_def)
      then show ?thesis using held_mono [OF I(7) rest] by simp
    qed
  qed
  show ?thesis
  proof (rule obj_invI)
    fix y a
    assume y: "y \<in> D" "?S y = PipeObj a"
    then have ne: "y \<noteq> x" and Sy: "S y = PipeObj a" by (auto split: if_splits)
    have r: "refs a = int (card (pipe_users D S a))" by (rule I(6) [OF y(1) Sy])
    show "refs_after (S x) refs a = int (card (pipe_users D ?S a))"
    proof (cases "S x = PipeObj a")
      case True
      then have "x \<in> pipe_users D S a" using x by (simp add: pipe_users_def)
      then have "0 < card (pipe_users D S a)" "card (pipe_users D S a - {x}) = card (pipe_users D S a) - 1"
        using fin [of a] by (auto simp: card_gt_0_iff)
      then show ?thesis using r True x by (simp add: refs_after_def pipe_users_upd of_nat_diff)
    next
      case False
      then have "x \<notin> pipe_users D S a" by (simp add: pipe_users_def)
      then show ?thesis using r False x by (auto simp: refs_after_def pipe_users_upd split: fobj.splits)
    qed
  qed (use I x sub addrs_rest [of D x S] held in \<open>auto split: if_splits\<close>)
qed

lemma obj_inv_share:
  assumes inv: "obj_inv D S refs others h" and x: "x \<in> D" "S x = NoObj" and y: "y \<in> D" "S y = PipeObj a"
  shows "obj_inv D (S(x := PipeObj a)) (refs(a := refs a + 1)) others h"
proof -
  note I = obj_invD [OF inv]
  have ad: "addrs D (S(x := PipeObj a)) = addrs D S"
    using x addrs_mem [of y D S a] y by (simp add: addrs_upd addrs_free insert_absorb)
  have fin: "finite (pipe_users D S b)" for b using I(1) by (simp add: pipe_users_def)
  have nx: "x \<notin> pipe_users D S b" for b using x(2) by (simp add: pipe_users_def)
  show ?thesis
  proof (rule obj_invI)
    fix z b
    assume z: "z \<in> D" "(S(x := PipeObj a)) z = PipeObj b"
    show "(refs(a := refs a + 1)) b = int (card (pipe_users D (S(x := PipeObj a)) b))"
    proof (cases "b = a")
      case True
      then show ?thesis using I(6) [OF y] fin nx x(1) by (simp add: pipe_users_upd)
    next
      case False
      then have "S z = PipeObj b" using z by (auto split: if_splits)
      then show ?thesis using I(6) [OF z(1)] False nx x(1) by (simp add: pipe_users_upd)
    qed
  qed (use I x y ad in \<open>auto split: if_splits\<close>)
qed

lemma obj_inv_file:
  assumes inv: "obj_inv D S refs others h" and x: "x \<in> D" "S x = NoObj" and a: "a \<noteq> 0" "a \<notin> others \<union> addrs D S"
    and h: "held h' (insert a (others \<union> addrs D S))"
  shows "obj_inv D (S(x := FileObj a)) refs others h'"
proof -
  note I = obj_invD [OF inv]
  have ad: "addrs D (S(x := FileObj a)) = insert a (addrs D S)" using x by (simp add: addrs_upd addrs_free)
  have nx: "x \<notin> pipe_users D S b" for b using x(2) by (simp add: pipe_users_def)
  have no: "S z \<noteq> FileObj a" "S z \<noteq> PipeObj a" if "z \<in> D" for z using that a(2) by (auto simp: addrs_def)
  show ?thesis
  proof (rule obj_invI)
    fix z b
    assume z: "z \<in> D" "(S(x := FileObj a)) z = PipeObj b"
    then have "S z = PipeObj b" by (auto split: if_splits)
    then show "refs b = int (card (pipe_users D (S(x := FileObj a)) b))" using I(6) [OF z(1)] nx x(1) by (simp add: pipe_users_upd)
  qed (use I x a ad h no in \<open>auto split: if_splits\<close>)
qed

lemma obj_inv_pipe:
  assumes inv: "obj_inv D S refs others h" and x: "x \<in> D" "S x = NoObj" and y: "y \<in> D" "S y = NoObj" "y \<noteq> x"
    and a: "a \<noteq> 0" "a \<notin> others \<union> addrs D S" "refs a = 2" and h: "held h' (insert a (others \<union> addrs D S))"
  shows "obj_inv D (S(x := PipeObj a, y := PipeObj a)) refs others h'"
proof -
  note I = obj_invD [OF inv]
  let ?S = "S(x := PipeObj a, y := PipeObj a)"
  have "addrs D ?S = insert a (addrs (D - {y}) (S(x := PipeObj a)))" using y(1) by (simp add: addrs_upd)
  also have "addrs (D - {y}) (S(x := PipeObj a)) = insert a (addrs (D - {y} - {x}) S)" using x(1) y(3) by (simp add: addrs_upd)
  also have "addrs (D - {y} - {x}) S = addrs D S" using x(2) y(2) by (simp add: addrs_free)
  finally have ad: "addrs D ?S = insert a (addrs D S)" by (simp only: insert_absorb2)
  have no: "S z \<noteq> FileObj a" "S z \<noteq> PipeObj a" if "z \<in> D" for z using that a(2) by (auto simp: addrs_def)
  have ua: "pipe_users D ?S a = {x, y}" using no x y by (auto simp: pipe_users_def)
  have ub: "pipe_users D ?S b = pipe_users D S b" if "b \<noteq> a" for b using that x y by (auto simp: pipe_users_def)
  show ?thesis
  proof (rule obj_invI)
    fix z b
    assume z: "z \<in> D" "?S z = PipeObj b"
    show "refs b = int (card (pipe_users D ?S b))"
    proof (cases "b = a")
      case True
      then show ?thesis using ua y(3) a(3) by simp
    next
      case False
      then have "S z = PipeObj b" using z by (auto split: if_splits)
      then show ?thesis using I(6) [OF z(1)] ub [OF False] by simp
    qed
  next
    fix z w b
    assume zw: "z \<in> D" "w \<in> D" "?S z = FileObj b"
    then have z: "S z = FileObj b" by (auto split: if_splits)
    show "?S w = FileObj b \<Longrightarrow> z = w" using I(2) [OF zw(1,2) z] by (auto split: if_splits)
    show "?S w = PipeObj b \<Longrightarrow> False" using I(3) [OF zw(1,2) z] no(1) [OF zw(1)] z by (auto split: if_splits)
  next
    show "b \<notin> others \<and> b \<noteq> 0" if "b \<in> addrs D ?S" for b using that a I(4,5) unfolding ad by blast
  qed (use I(1) h ad in simp_all)
qed

lemma obj_inv_none: "obj_inv D S refs others h \<Longrightarrow> S x = NoObj \<Longrightarrow> obj_inv D (S(x := NoObj)) refs others h"
  by (simp add: fun_upd_idem)

lemma obj_inv_heap: "obj_inv D S refs others h \<Longrightarrow> held h' (others \<union> addrs D S) \<Longrightarrow> obj_inv D S refs others h'"
  unfolding obj_inv_def by blast

lemma obj_inv_refs:
  assumes "obj_inv D S refs others h" "\<And>b. b \<in> addrs D S \<Longrightarrow> refs' b = refs b"
  shows "obj_inv D S refs' others h"
proof -
  note I = obj_invD [OF assms(1)]
  show ?thesis
  proof (rule obj_invI)
    show "refs' b = int (card (pipe_users D S b))" if "x \<in> D" "S x = PipeObj b" for x b
      using I(6) [OF that] assms(2) [OF addrs_mem [of x D S b]] that by simp
  qed (use I in auto)
qed

lemma list_update_twice: "j \<noteq> i \<Longrightarrow> xs[i := p, j := q, i := v, j := w] = xs[i := v, j := w]"
  by (subst list_update_swap [of j i]) simp_all

section \<open>Ownership in the kernel\<close>

definition fobj_of :: "u8 \<Rightarrow> u32 \<Rightarrow> fobj" where
  "fobj_of ty a =
     (if a = 0 \<or> ty = 4 \<or> ty = 5 \<or> ty = 6 \<or> ty = 7 then NoObj
      else if ty = 2 \<or> ty = 3 then PipeObj a else FileObj a)"

definition slots :: "kst \<Rightarrow> (u32 \<times> nat) set" where
  "slots k = set (all_tasks k) \<times> {..<MAX_FD}"

definition slot_obj :: "kst \<Rightarrow> u32 \<times> nat \<Rightarrow> fobj" where
  "slot_obj k x = fobj_of (fd_type (tsk k (fst x)) ! snd x) (fd_buf (tsk k (fst x)) ! snd x)"

abbreviation krefs :: "kst \<Rightarrow> u32 \<Rightarrow> int" where
  "krefs k \<equiv> \<lambda>a. p_refs (pipes k a)"

definition rd_addrs :: "ramdisk \<Rightarrow> u32 set" where
  "rd_addrs fs = {a. \<exists>f \<in> set fs. \<exists>bs. rdata f = Some (a, bs)}"

definition others :: "'d sys \<Rightarrow> u32 set" where
  "others s = set (owned (kern s)) \<union> rd_addrs (rdv s)"

definition fd_lens :: "kst \<Rightarrow> bool" where
  "fd_lens k = (\<forall>t \<in> set (all_tasks k). length (fd_buf (tsk k t)) = MAX_FD \<and> length (fd_size (tsk k t)) = MAX_FD \<and>
     length (fd_pos (tsk k t)) = MAX_FD \<and> length (fd_type (tsk k t)) = MAX_FD \<and>
     (\<forall>i < MAX_FD. fd_buf (tsk k t) ! i \<noteq> 0 \<longrightarrow> 1 \<le> fd_type (tsk k t) ! i \<and> fd_type (tsk k t) ! i \<le> 7))"

text \<open>The invariant of the system calls: the scheduler's, full descriptor tables with known types,
  ownership. Between the release of a slot's object and its reuse, ownership holds for the other slots.\<close>

definition sys_inv :: "'d sys \<Rightarrow> bool" where
  "sys_inv s = (kinv (kern s) \<and> fd_lens (kern s) \<and>
     obj_inv (slots (kern s)) (slot_obj (kern s)) (krefs (kern s)) (others s) (kheap (kern s)))"

definition sys_inv_but :: "u32 \<times> nat \<Rightarrow> 'd sys \<Rightarrow> bool" where
  "sys_inv_but x s = (kinv (kern s) \<and> fd_lens (kern s) \<and>
     obj_inv (slots (kern s)) ((slot_obj (kern s))(x := NoObj)) (krefs (kern s)) (others s) (kheap (kern s)))"

text \<open>What a system call on descriptors leaves alone.\<close>

definition same_sched :: "kst \<Rightarrow> kst \<Rightarrow> bool" where
  "same_sched k k' = (all_tasks k' = all_tasks k \<and> ready_queue k' = ready_queue k \<and> zombie_reap k' = zombie_reap k \<and>
     current_task k' = current_task k \<and> main_task k' = main_task k \<and> kernel_paging k' = kernel_paging k \<and>
     (\<forall>a. state (tsk k' a) = state (tsk k a) \<and> kernel_stack (tsk k' a) = kernel_stack (tsk k a) \<and>
        paging (tsk k' a) = paging (tsk k a) \<and> parent (tsk k' a) = parent (tsk k a) \<and> pid (tsk k' a) = pid (tsk k a)))"

lemma same_sched_refl [simp]: "same_sched k k"
  by (simp add: same_sched_def)

lemma same_sched_trans: "same_sched a b \<Longrightarrow> same_sched b c \<Longrightarrow> same_sched a c"
  by (simp add: same_sched_def)

lemma same_sched_owned: "same_sched k k' \<Longrightarrow> owned k' = owned k"
  by (rule owned_cong) (simp_all add: same_sched_def)

lemma kinv_same_sched:
  assumes "kinv k" "same_sched k k'" "held (kheap k') (set (owned k))"
  shows "kinv k'"
proof -
  let ?k = "k'\<lparr>kheap := kheap k\<rparr>"
  have "kinv ?k" by (rule kinv_cong [OF assms(1)]) (use assms(2) in \<open>simp_all add: same_sched_def\<close>)
  moreover have "owned ?k = owned k'" by (rule owned_cong) simp_all
  moreover have "own_wf k'"
    using kinvD(2) [OF assms(1)] assms(3) same_sched_owned [OF assms(2)] by (simp add: own_wf_def)
  ultimately show ?thesis
    by (auto simp: kinv_def sched_inv_def q_wf_def par_wf_def boot_wf_def Let_def)
qed

lemma sys_invI:
  assumes inv: "kinv (kern s)" and ss: "same_sched (kern s) (kern s')" and rd: "rd_addrs (rdv s') = rd_addrs (rdv s)"
    and len: "fd_lens (kern s')"
    and obj: "obj_inv (slots (kern s)) (slot_obj (kern s')) (krefs (kern s')) (others s) (kheap (kern s'))"
  shows "sys_inv s'"
proof -
  have "held (kheap (kern s')) (set (owned (kern s)))"
    by (rule held_mono [OF obj_invD(7) [OF obj]]) (auto simp: others_def)
  then have "kinv (kern s')" using inv by (intro kinv_same_sched [OF _ ss]) (simp_all add: sys_inv_def)
  moreover have "others s' = others s" using same_sched_owned [OF ss] rd by (simp add: others_def)
  moreover have "slots (kern s') = slots (kern s)" using ss by (simp add: slots_def same_sched_def)
  ultimately show ?thesis using len obj by (simp add: sys_inv_def)
qed

lemma slot_obj_set:
  assumes "length (fd_buf (tsk k t)) = MAX_FD" "length (fd_type (tsk k t)) = MAX_FD" "i < MAX_FD"
  shows "slot_obj (upd t (set_fd i b sz p ty) k) = (slot_obj k)((t, i) := fobj_of ty b)"
proof
  fix x :: "u32 \<times> nat"
  show "slot_obj (upd t (set_fd i b sz p ty) k) x = ((slot_obj k)((t, i) := fobj_of ty b)) x"
    using assms by (cases x) (auto simp: slot_obj_def upd_def set_fd_def)
qed

lemma same_sched_set: "same_sched k (upd t (set_fd i b sz p ty) k)"
  by (simp add: same_sched_def upd_def set_fd_def)

lemma fd_lens_set: "fd_lens k \<Longrightarrow> b = 0 \<or> 1 \<le> ty \<and> ty \<le> 7 \<Longrightarrow> fd_lens (upd t (set_fd i b sz p ty) k)"
proof -
  assume k: "fd_lens k" and b: "b = 0 \<or> 1 \<le> ty \<and> ty \<le> 7"
  have "1 \<le> (fd_type (tsk k a))[i := ty] ! j \<and> (fd_type (tsk k a))[i := ty] ! j \<le> 7"
    if "a \<in> set (all_tasks k)" "j < MAX_FD" "(fd_buf (tsk k a))[i := b] ! j \<noteq> 0" for a j
    using that k b by (cases "j = i") (auto simp: fd_lens_def)
  then show ?thesis using k by (simp add: fd_lens_def upd_def set_fd_def)
qed

lemma sys_inv_lens:
  assumes "sys_inv s" "t \<in> set (all_tasks (kern s))"
  shows "length (fd_buf (tsk (kern s) t)) = MAX_FD" "length (fd_type (tsk (kern s) t)) = MAX_FD"
  using assms by (auto simp: sys_inv_def fd_lens_def)

lemma sys_inv_current: "sys_inv s \<Longrightarrow> current_task (kern s) \<in> set (all_tasks (kern s)) \<and> current_task (kern s) \<noteq> 0"
  using kinvD(3,9) by (auto simp: sys_inv_def)

lemma slots_iff [simp]: "(t, i) \<in> slots k \<longleftrightarrow> t \<in> set (all_tasks k) \<and> i < MAX_FD"
  by (simp add: slots_def)

text \<open>Closing the object of a slot, as an operation on the heap and the counts only.\<close>

lemma close_obj_kern:
  assumes "a \<noteq> 0"
  shows "\<exists>pp. close_obj brk ty a s = s\<lparr>kern := (kern s)\<lparr>pipes := pp,
      kheap := heap_after (fobj_of ty a) (krefs (kern s)) (kheap (kern s))\<rparr>\<rparr> \<and>
    (\<lambda>b. p_refs (pp b)) = refs_after (fobj_of ty a) (krefs (kern s))"
proof (cases "ty = 2 \<or> ty = 3")
  case True
  let ?p = "pipes (kern s) a"
  have "close_obj brk ty a s = s\<lparr>kern := (kern s)\<lparr>pipes := (pipes (kern s))(a := ?p\<lparr>p_refs := p_refs ?p - 1, p_broken := (brk \<or> p_broken ?p)\<rparr>),
      kheap := heap_after (fobj_of ty a) (krefs (kern s)) (kheap (kern s))\<rparr>\<rparr>"
    using True assms by (auto simp: close_obj_def drop_pipe_def set_pipe_def onk_def k_free_def heap_after_def fobj_of_def Let_def)
  moreover have "(\<lambda>b. p_refs (((pipes (kern s))(a := ?p\<lparr>p_refs := p_refs ?p - 1, p_broken := (brk \<or> p_broken ?p)\<rparr>)) b)) =
      refs_after (fobj_of ty a) (krefs (kern s))"
    using True assms by (auto simp: refs_after_def fobj_of_def)
  ultimately show ?thesis by blast
next
  case False
  then have "close_obj brk ty a s = s\<lparr>kern := (kern s)\<lparr>pipes := pipes (kern s),
      kheap := heap_after (fobj_of ty a) (krefs (kern s)) (kheap (kern s))\<rparr>\<rparr>"
    using assms by (auto simp: close_obj_def onk_def k_free_def heap_after_def fobj_of_def)
  moreover have "krefs (kern s) = refs_after (fobj_of ty a) (krefs (kern s))"
    using False assms by (auto simp: refs_after_def fobj_of_def)
  ultimately show ?thesis by blast
qed

text \<open>After the object of slot \<open>(t, i)\<close> is closed, the slot still has to be overwritten.\<close>

lemma close_then_set:
  assumes inv: "sys_inv s" and t: "t \<in> set (all_tasks (kern s))" and i: "i < MAX_FD" and a: "fd_buf (tsk (kern s) t) ! i \<noteq> 0"
    and s1: "s1 = close_obj brk (fd_type (tsk (kern s) t) ! i) (fd_buf (tsk (kern s) t) ! i) s"
  shows "tsk (kern s1) = tsk (kern s)" "same_sched (kern s) (kern s1)" "rdv s1 = rdv s" "fd_lens (kern s1)"
    "obj_inv (slots (kern s)) ((slot_obj (kern s))((t, i) := NoObj)) (krefs (kern s1)) (others s) (kheap (kern s1))"
proof -
  let ?k = "kern s"
  obtain pp where c: "s1 = s\<lparr>kern := ?k\<lparr>pipes := pp, kheap := heap_after (slot_obj ?k (t, i)) (krefs ?k) (kheap ?k)\<rparr>\<rparr>"
    and r: "(\<lambda>b. p_refs (pp b)) = refs_after (slot_obj ?k (t, i)) (krefs ?k)"
    using close_obj_kern [OF a, of brk "fd_type (tsk ?k t) ! i" s] unfolding s1 slot_obj_def by auto
  show "tsk (kern s1) = tsk ?k" "same_sched ?k (kern s1)" "rdv s1 = rdv s" "fd_lens (kern s1)"
    unfolding c using inv by (simp_all add: same_sched_def sys_inv_def fd_lens_def)
  have "obj_inv (slots ?k) ((slot_obj ?k)((t, i) := NoObj)) (refs_after (slot_obj ?k (t, i)) (krefs ?k)) (others s)
      (heap_after (slot_obj ?k (t, i)) (krefs ?k) (kheap ?k))"
    using inv t i by (intro obj_inv_drop) (simp_all add: sys_inv_def)
  then show "obj_inv (slots ?k) ((slot_obj ?k)((t, i) := NoObj)) (krefs (kern s1)) (others s) (kheap (kern s1))"
    unfolding c using r by simp
qed

lemma slot_obj_tsk: "tsk k = tsk k' \<Longrightarrow> slot_obj k = slot_obj k'"
  by (simp add: slot_obj_def fun_eq_iff)

lemma close_slot_inv:
  assumes inv: "sys_inv s" and t: "t \<in> set (all_tasks (kern s))" and i: "i < MAX_FD" and a: "fd_buf (tsk (kern s) t) ! i \<noteq> 0"
    and s1: "s1 = onk (upd t (set_fd i 0 0 0 0)) (close_obj brk (fd_type (tsk (kern s) t) ! i) (fd_buf (tsk (kern s) t) ! i) s)"
  shows "sys_inv s1 \<and> slot_obj (kern s1) = (slot_obj (kern s))((t, i) := NoObj)"
proof -
  define c where "c = close_obj brk (fd_type (tsk (kern s) t) ! i) (fd_buf (tsk (kern s) t) ! i) s"
  note C = close_then_set [OF inv t i a c_def]
  have s1: "s1 = onk (upd t (set_fd i 0 0 0 0)) c" unfolding s1 c_def ..
  have S: "slot_obj (kern s1) = (slot_obj (kern s))((t, i) := NoObj)"
    using slot_obj_set [of "kern c" t i 0 0 0 0] slot_obj_tsk [OF C(1)] sys_inv_lens [OF inv t] i C(1)
    unfolding s1 by (simp add: fobj_of_def)
  have "sys_inv s1"
  proof (rule sys_invI)
    show "kinv (kern s)" using inv by (simp add: sys_inv_def)
    show "same_sched (kern s) (kern s1)" unfolding s1 using same_sched_trans [OF C(2) same_sched_set] by simp
    show "rd_addrs (rdv s1) = rd_addrs (rdv s)" unfolding s1 using C(3) by (simp add: onk_def)
    show "fd_lens (kern s1)" unfolding s1 using C(4) fd_lens_set by simp
    have "krefs (kern s1) = krefs (kern c)" "kheap (kern s1) = kheap (kern c)" unfolding s1 by (simp_all add: upd_def)
    then show "obj_inv (slots (kern s)) (slot_obj (kern s1)) (krefs (kern s1)) (others s) (kheap (kern s1))"
      using C(5) S by simp
  qed
  then show ?thesis using S by blast
qed

section \<open>System calls that move data only\<close>

definition fd_same :: "'d sys \<Rightarrow> 'd sys \<Rightarrow> bool" where
  "fd_same s s' = (same_sched (kern s) (kern s') \<and> rdv s' = rdv s \<and> kheap (kern s') = kheap (kern s) \<and>
     krefs (kern s') = krefs (kern s) \<and>
     (\<forall>t. fd_buf (tsk (kern s') t) = fd_buf (tsk (kern s) t) \<and> fd_type (tsk (kern s') t) = fd_type (tsk (kern s) t) \<and>
        length (fd_size (tsk (kern s') t)) = length (fd_size (tsk (kern s) t)) \<and>
        length (fd_pos (tsk (kern s') t)) = length (fd_pos (tsk (kern s) t))))"

lemma fd_same_inv:
  assumes "sys_inv s" "fd_same s s'"
  shows "sys_inv s'"
proof (rule sys_invI)
  show "kinv (kern s)" using assms(1) by (simp add: sys_inv_def)
  have "slot_obj (kern s') = slot_obj (kern s)" using assms(2) by (auto simp: slot_obj_def fd_same_def)
  then show "obj_inv (slots (kern s)) (slot_obj (kern s')) (krefs (kern s')) (others s) (kheap (kern s'))"
    using assms by (simp add: fd_same_def sys_inv_def)
qed (use assms in \<open>auto simp: fd_same_def sys_inv_def fd_lens_def same_sched_def\<close>)

lemma fd_same_refl [simp, intro]: "fd_same s s"
  by (simp add: fd_same_def)

lemma fd_same_trans [trans]: "fd_same a b \<Longrightarrow> fd_same b c \<Longrightarrow> fd_same a c"
  by (simp add: fd_same_def same_sched_def fun_eq_iff)

lemma fd_same_kern: "fd_same s t \<Longrightarrow> kern t' = kern t \<Longrightarrow> rdv t' = rdv t \<Longrightarrow> fd_same s t'"
  by (simp add: fd_same_def)

lemma fd_same_kern_id: "kern t = kern s \<Longrightarrow> rdv t = rdv s \<Longrightarrow> fd_same s t"
  by (simp add: fd_same_def)

lemma fd_same_pos: "fd_same s (set_pos fd v s)"
  by (simp add: fd_same_def set_pos_def updc_def onk_def upd_def same_sched_def)

lemma fd_same_ram: "fd_same s (onk (set_ram m) s)"
  by (simp add: fd_same_def onk_def set_ram_def same_sched_def)

lemma fd_same_pipe: "p_refs p = p_refs (pipes (kern s) a) \<Longrightarrow> fd_same s (set_pipe a p s)"
  by (simp add: fd_same_def set_pipe_def onk_def same_sched_def fun_eq_iff)

lemma fd_same_to_user: "to_user va b len s = Some (ok, s') \<Longrightarrow> fd_same s s'"
  by (auto simp: to_user_def fd_same_ram split: sum.splits prod.splits)

lemma fd_same_obj_put: "obj_put ty a i v s = Some s' \<Longrightarrow> fd_same s s'"
  by (auto simp: obj_put_def Let_def fd_same_def onk_def set_ram_def same_sched_def fun_eq_iff split: if_splits)

lemma fd_same_obj_write: "obj_write ty a i bs s = Some s' \<Longrightarrow> fd_same s s'"
proof (induction bs arbitrary: i s)
  case (Cons b bs)
  then obtain s1 where s1: "obj_put ty a i b s = Some s1" "obj_write ty a (Suc i) bs s1 = Some s'" by (auto split: option.splits)
  from fd_same_obj_put [OF s1(1)] Cons.IH [OF s1(2)] show ?case by (rule fd_same_trans)
qed simp

lemma fd_same_ret: "ret v r s = Some (r', s') \<Longrightarrow> fd_same t s \<Longrightarrow> fd_same t s'"
  by (simp add: ret_def)

lemma fd_same_reply: "reply_bytes va b len v r s = Some (r', s') \<Longrightarrow> fd_same s s'"
  by (auto simp: reply_bytes_def ret_def split: option.splits if_splits dest: fd_same_to_user)

lemma fd_same_ubin [simp]: "fd_same s (s\<lparr>g_ubin := b\<rparr>)" "fd_same s (s\<lparr>g_ustr := b\<rparr>)" "fd_same s (set_ubin bs s)"
    "fd_same s (s\<lparr>hidv := h\<rparr>)" "fd_same s (say E bs s)" "fd_same s (on_scr f s)"
  by (rule fd_same_kern_id; simp add: set_ubin_def say_def set_hw_def on_scr_def)+

lemma pipe_fill_refs [simp]: "p_refs (pipe_fill bs p) = p_refs p"
  by (induction bs p rule: pipe_fill.induct) simp_all

lemma pipe_take_refs: "pipe_take n p = (bs, p') \<Longrightarrow> p_refs p' = p_refs p"
  by (induction n arbitrary: p bs) (fastforce split: prod.splits)+

lemma pipe_write_refs: "pipe_write data len p = (v, p') \<Longrightarrow> p_refs p' = p_refs p"
  by (auto simp: pipe_write_def Let_def split: if_splits)

lemma pipe_read_refs: "pipe_read len p = (v, bs, p') \<Longrightarrow> p_refs p' = p_refs p"
  by (auto simp: pipe_read_def Let_def split: if_splits prod.splits dest: pipe_take_refs)

lemma fd_same_write_file: "write_file fd len b r s = Some (r', s') \<Longrightarrow> fd_same s s'"
  by (auto simp: write_file_def Let_def ret_def split: if_splits option.splits
      intro: fd_same_trans [OF fd_same_obj_write fd_same_pos])

lemma fd_same_write_screen: "write_screen E len r s = Some (r', s') \<Longrightarrow> fd_same s s'"
  by (auto simp: write_screen_def Let_def ret_def split: if_splits intro!: fd_same_kern_id)
    (simp_all add: say_def set_hw_def on_scr_def)

lemma sys_fwrite_same:
  assumes "sys_fwrite E r s = Some (r', s')"
  shows "fd_same s s'"
proof (cases "fd_live (r_ebx r) s \<and> ftype_of (r_ebx r) s \<noteq> 5 \<and> ftype_of (r_ebx r) s \<noteq> 6")
  case True
  let ?a = "fbuf_of (r_ebx r) s" and ?len = "if r_edx r > 4096 then 4096 else r_edx r"
  obtain ok b where u: "from_user (g_ubin s) (r_ecx r) ?len s = Some (ok, b)"
    using assms True by (auto simp: sys_fwrite_def Let_def split: option.splits)
  let ?s = "s\<lparr>g_ubin := b\<rparr>"
  have 0: "fd_same s ?s" by simp
  consider "s' = ?s" | v p where "pipe_write b ?len (pipes (kern ?s) ?a) = (v, p)" "s' = set_pipe ?a p ?s"
    | "write_file (r_ebx r) ?len b r ?s = Some (r', s')" | "write_screen E ?len r ?s = Some (r', s')"
    using assms True u by (auto simp: sys_fwrite_def Let_def ret_def split: if_splits prod.splits)
  then show ?thesis
  proof cases
    case 2
    then show ?thesis using fd_same_trans [OF 0 fd_same_pipe] pipe_write_refs [OF 2(1)] by simp
  next
    case 3
    then show ?thesis by (rule fd_same_trans [OF 0 fd_same_write_file])
  next
    case 4
    then show ?thesis by (rule fd_same_trans [OF 0 fd_same_write_screen])
  qed simp
qed (use assms in \<open>auto simp: sys_fwrite_def Let_def ret_def split: if_splits\<close>)

lemma sys_fread_same:
  assumes "sys_fread r s = Some (r', s')"
  shows "fd_same s s'"
proof -
  have inp: "fd_same s s'" if "read_input b l r s = Some (r', s')" for b l
    using that fd_same_trans [OF fd_same_ubin(4) fd_same_reply]
    by (auto simp: read_input_def Let_def ret_def split: if_splits prod.splits option.splits)
  have pip: "fd_same s s'" if "read_pipe a b l r s = Some (r', s')" for a b l
  proof -
    obtain v bs p where p: "pipe_read l (pipes (kern s) a) = (v, bs, p)" by (metis prod_cases3)
    have "fd_same s (set_pipe a p (set_ubin bs s))"
      using fd_same_trans [OF fd_same_ubin(3) fd_same_pipe] pipe_read_refs [OF p] by (simp add: set_ubin_def)
    then show ?thesis using that p fd_same_trans [OF _ fd_same_reply] by (auto simp: read_pipe_def ret_def split: if_splits)
  qed
  have fil: "fd_same s s'" if "read_file a b l r s = Some (r', s')" for a b l
    using that fd_same_trans [OF fd_same_ubin(3) fd_same_trans [OF fd_same_to_user fd_same_pos]]
      fd_same_trans [OF fd_same_ubin(3) fd_same_to_user]
    by (auto simp: read_file_def Let_def ret_def split: if_splits option.splits)
  show ?thesis
    using assms inp pip fil fd_same_trans [OF fd_same_ubin(3) fd_same_reply]
    by (auto simp: sys_fread_def Let_def ret_def split: if_splits)
qed

lemma sys_lseek_same: "sys_lseek r s = Some (r', s') \<Longrightarrow> fd_same s s'"
  using fd_same_pos by (auto simp: sys_lseek_def Let_def ret_def split: if_splits)

lemma fd_same_put_text: "put_text ofd str s = Some s' \<Longrightarrow> fd_same s s'"
  by (auto simp: put_text_def Let_def split: option.splits intro: fd_same_trans [OF fd_same_obj_write fd_same_pos])

lemma sys_outfd_same:
  "sys_set_outfd r s = Some (r', s') \<Longrightarrow> fd_same s s'" "sys_gfx_putc r s = Some (r', s') \<Longrightarrow> fd_same s s'"
  "sys_gfx_puts r s = Some (r', s') \<Longrightarrow> fd_same s s'"
proof -
  have "fd_same s (updc (\<lambda>t. t\<lparr>output_fd := v\<rparr>) s)" for v
    by (simp add: fd_same_def updc_def onk_def upd_def same_sched_def)
  then show "sys_set_outfd r s = Some (r', s') \<Longrightarrow> fd_same s s'"
    by (auto simp: sys_set_outfd_def Let_def ret_def split: if_splits)
  show "sys_gfx_putc r s = Some (r', s') \<Longrightarrow> fd_same s s'"
    by (auto simp: sys_gfx_putc_def ret_def fd_same_put_text split: option.splits)
  show "sys_gfx_puts r s = Some (r', s') \<Longrightarrow> fd_same s s'"
    using fd_same_trans [OF fd_same_ubin(2) fd_same_put_text] fd_same_trans [OF fd_same_ubin(2) fd_same_ubin(6)]
    by (auto simp: sys_gfx_puts_def Let_def ret_def split: option.splits if_splits)
qed

section \<open>System calls that make and release objects\<close>

lemma close_obj_current [simp]: "current_task (kern (close_obj brk ty a s)) = current_task (kern s)"
  by (simp add: close_obj_def drop_pipe_def set_pipe_def onk_def k_free_def Let_def)

lemma sys_close_inv: "sys_inv s \<Longrightarrow> sys_close r s = Some (r', s') \<Longrightarrow> sys_inv s'"
  using close_slot_inv [of s "current_task (kern s)" "unat (r_ebx r)" _ True] sys_inv_current [of s]
  by (auto simp: sys_close_def fd_live_def updc_def ret_def Let_def split: if_splits)

lemma cleanup_fd_inv:
  assumes "sys_inv s" "t \<in> set (all_tasks (kern s))" "i < MAX_FD"
  shows "sys_inv (cleanup_fd t i s) \<and> all_tasks (kern (cleanup_fd t i s)) = all_tasks (kern s) \<and>
    slot_obj (kern (cleanup_fd t i s)) = (slot_obj (kern s))((t, i) := NoObj)"
proof (cases "fd_buf (tsk (kern s) t) ! i = 0")
  case True
  then have "slot_obj (kern s) (t, i) = NoObj" by (simp add: slot_obj_def fobj_of_def)
  then show ?thesis using assms True by (simp add: cleanup_fd_def fun_upd_idem)
next
  case False
  let ?s = "onk (upd t (set_fd i 0 0 0 0)) (close_obj True (fd_type (tsk (kern s) t) ! i) (fd_buf (tsk (kern s) t) ! i) s)"
  have "same_sched (kern s) (kern ?s)"
    using same_sched_trans [OF close_then_set(2) [OF assms False refl, of True] same_sched_set] by simp
  then have "all_tasks (kern ?s) = all_tasks (kern s)" by (simp add: same_sched_def)
  moreover have "cleanup_fd t i s = ?s" using False by (simp add: cleanup_fd_def Let_def)
  ultimately show ?thesis using close_slot_inv [OF assms False refl, of True] by simp
qed

lemma cleanup_fds_fold:
  assumes "sys_inv s" "t \<in> set (all_tasks (kern s))" "set xs \<subseteq> {..<MAX_FD}"
  shows "sys_inv (fold (cleanup_fd t) xs s) \<and>
    (\<forall>i. slot_obj (kern (fold (cleanup_fd t) xs s)) (t, i) = (if i \<in> set xs then NoObj else slot_obj (kern s) (t, i)))"
  using assms
proof (induction xs arbitrary: s)
  case (Cons i xs)
  have "sys_inv (cleanup_fd t i s) \<and> all_tasks (kern (cleanup_fd t i s)) = all_tasks (kern s) \<and>
    slot_obj (kern (cleanup_fd t i s)) = (slot_obj (kern s))((t, i) := NoObj)"
    using Cons.prems by (intro cleanup_fd_inv) auto
  then show ?case using Cons.IH [of "cleanup_fd t i s"] Cons.prems by simp
qed simp

lemma syscall_cleanup_inv:
  assumes "sys_inv s" "t \<in> set (all_tasks (kern s))"
  shows "sys_inv (syscall_cleanup_fds t s)" "i < MAX_FD \<Longrightarrow> slot_obj (kern (syscall_cleanup_fds t s)) (t, i) = NoObj"
proof -
  have "t \<noteq> 0" using own_wf_nonzero [of "kern s" t] kinvD(2) [of "kern s"] assms by (simp add: sys_inv_def)
  moreover have "set [0..<MAX_FD] \<subseteq> {..<MAX_FD}" by auto
  ultimately show "sys_inv (syscall_cleanup_fds t s)"
    "i < MAX_FD \<Longrightarrow> slot_obj (kern (syscall_cleanup_fds t s)) (t, i) = NoObj"
    using cleanup_fds_fold [OF assms, of "[0..<MAX_FD]"] by (simp_all add: syscall_cleanup_fds_def)
qed

text \<open>Allocation on an owned heap.\<close>

lemma k_malloc_owned:
  assumes h: "held (kheap k) A" and m: "k_malloc n k = Some (a, k')"
  shows "\<exists>h'. k' = k\<lparr>kheap := h'\<rparr> \<and> (if a = 0 then held h' A else a \<notin> A \<and> held h' (insert a A))"
proof (cases "n = 0")
  case True
  then have "a = 0" "k' = k" using m by (auto simp: k_malloc_def kmalloc_def)
  then show ?thesis using h by (intro exI [of _ "kheap k"]) simp
next
  case False
  then show ?thesis using m held_alloc [OF h False] by (auto simp: k_malloc_def split: option.splits prod.splits)
qed

lemma sys_inv_but_heap:
  assumes "sys_inv_but x s" "kern s' = (kern s)\<lparr>kheap := h'\<rparr>" "rdv s' = rdv s"
    "held h' (others s \<union> addrs (slots (kern s)) ((slot_obj (kern s))(x := NoObj)))"
  shows "sys_inv_but x s'"
proof -
  have ss: "same_sched (kern s) (kern s')" using assms(2) by (simp add: same_sched_def)
  have oth: "others s' = others s" using same_sched_owned [OF ss] assms(3) by (simp add: others_def)
  have sl: "slot_obj (kern s') = slot_obj (kern s)" by (rule slot_obj_tsk) (simp add: assms(2))
  have "kinv (kern s')" using assms(1,2,4) held_mono [OF assms(4), of "set (owned (kern s))"]
    by (intro kinv_same_sched [OF _ ss]) (auto simp: sys_inv_but_def others_def)
  moreover have "slots (kern s') = slots (kern s)" "krefs (kern s') = krefs (kern s)" "kheap (kern s') = h'" "fd_lens (kern s')"
    using assms(1,2) by (simp_all add: slots_def sys_inv_but_def fd_lens_def)
  moreover have "obj_inv (slots (kern s)) ((slot_obj (kern s))(x := NoObj)) (krefs (kern s)) (others s) h'"
    using assms(1,4) unfolding sys_inv_but_def by (metis obj_inv_heap)
  ultimately show ?thesis using oth sl by (simp add: sys_inv_but_def)
qed

text \<open>Filling a released slot.\<close>

lemma fill_slot_inv:
  assumes but: "sys_inv_but (t, i) s" and ss: "same_sched (kern s) (kern s1)" and rd: "rdv s1 = rdv s" and len: "fd_lens (kern s1)"
    and tk: "\<forall>t. fd_buf (tsk (kern s1) t) = fd_buf (tsk (kern s) t) \<and> fd_type (tsk (kern s1) t) = fd_type (tsk (kern s) t)"
    and t: "t \<in> set (all_tasks (kern s))" and i: "i < MAX_FD" and ty: "b = 0 \<or> 1 \<le> ty \<and> ty \<le> 7"
    and obj: "obj_inv (slots (kern s)) ((slot_obj (kern s))((t, i) := fobj_of ty b)) (krefs (kern s1)) (others s) (kheap (kern s1))"
  shows "sys_inv (onk (upd t (set_fd i b sz p ty)) s1)"
proof (rule sys_invI [of s])
  have sl: "slot_obj (kern s1) = slot_obj (kern s)" using tk by (simp add: slot_obj_def fun_eq_iff)
  have l: "length (fd_buf (tsk (kern s1) t)) = MAX_FD" "length (fd_type (tsk (kern s1) t)) = MAX_FD"
    using len t ss by (auto simp: fd_lens_def same_sched_def)
  show "obj_inv (slots (kern s)) (slot_obj (kern (onk (upd t (set_fd i b sz p ty)) s1))) (krefs (kern (onk (upd t (set_fd i b sz p ty)) s1)))
      (others s) (kheap (kern (onk (upd t (set_fd i b sz p ty)) s1)))"
    using obj slot_obj_set [OF l i, of b sz p ty] sl by (simp add: upd_def)
  show "same_sched (kern s) (kern (onk (upd t (set_fd i b sz p ty)) s1))" using same_sched_trans [OF ss same_sched_set] by simp
qed (use but rd len ty fd_lens_set in \<open>simp_all add: sys_inv_but_def onk_def\<close>)

lemma new_buf_owned:
  assumes h: "held (kheap (kern s)) A" and m: "new_buf E n s = Some (a, s1)"
  shows "\<exists>h' kb. s1 = s\<lparr>kern := (kern s)\<lparr>kheap := h', kbuf := kb\<rparr>\<rparr> \<and>
    (if a = 0 then held h' A \<and> kb = kbuf (kern s) else a \<notin> A \<and> held h' (insert a A))"
proof -
  obtain k where k: "k_malloc n (kern s) = Some (a, k)"
    and s1: "s1 = s\<lparr>kern := (if a = 0 then k else k\<lparr>kbuf := (kbuf k)(a := map (efresh E a) [0..<unat n])\<rparr>)\<rparr>"
    using m by (auto simp: new_buf_def split: option.splits prod.splits)
  then show ?thesis using k_malloc_owned [OF h k] by (cases "a = 0") auto
qed

lemma copy_file_buf_owned:
  assumes h: "held (kheap (kern s)) A" and m: "copy_file_buf E b sz s = Some (a, s1)"
  shows "\<exists>h' kb. s1 = s\<lparr>kern := (kern s)\<lparr>kheap := h', kbuf := kb\<rparr>\<rparr> \<and>
    (if a = 0 then held h' A \<and> kb = kbuf (kern s) else a \<notin> A \<and> held h' (insert a A))"
proof -
  obtain s0 where n: "new_buf E (file_alloc sz) s = Some (a, s0)"
    and w: "if a = 0 then s1 = s0 else \<exists>bs. obj_write 1 a 0 bs s0 = Some s1"
    using m by (auto simp: copy_file_buf_def split: option.splits prod.splits if_splits)
  have kb: "\<exists>kb. t' = t\<lparr>kern := (kern t)\<lparr>kbuf := kb\<rparr>\<rparr>" if "obj_write 1 a i bs t = Some t'" for i bs t t'
    using that
  proof (induction bs arbitrary: i t)
    case Nil
    then show ?case by (intro exI [of _ "kbuf (kern t)"]) simp
  next
    case (Cons c bs)
    then obtain t1 where t1: "obj_put 1 a i c t = Some t1" "obj_write 1 a (Suc i) bs t1 = Some t'" by (auto split: option.splits)
    obtain kb where "t' = t1\<lparr>kern := (kern t1)\<lparr>kbuf := kb\<rparr>\<rparr>" using Cons.IH [OF t1(2)] by blast
    moreover obtain kb' where "t1 = t\<lparr>kern := (kern t)\<lparr>kbuf := kb'\<rparr>\<rparr>" using t1(1) by (auto simp: obj_put_def Let_def onk_def split: if_splits)
    ultimately show ?case by auto
  qed
  obtain h' kb' where s0: "s0 = s\<lparr>kern := (kern s)\<lparr>kheap := h', kbuf := kb'\<rparr>\<rparr>"
    and h': "if a = 0 then held h' A \<and> kb' = kbuf (kern s) else a \<notin> A \<and> held h' (insert a A)"
    using new_buf_owned [OF h n] by blast
  show ?thesis
  proof (cases "a = 0")
    case True
    then show ?thesis using w s0 h' by (intro exI [of _ h'] exI [of _ kb']) simp
  next
    case False
    then obtain bs where "obj_write 1 a 0 bs s0 = Some s1" using w by auto
    from kb [OF this] obtain kb1 where "s1 = s0\<lparr>kern := (kern s0)\<lparr>kbuf := kb1\<rparr>\<rparr>" by blast
    then show ?thesis using False s0 h' by (intro exI [of _ h'] exI [of _ kb1]) simp
  qed
qed

lemma u8_small: "1 \<le> t \<Longrightarrow> t \<le> 7 \<Longrightarrow> t \<noteq> 1 \<Longrightarrow> \<not> (t = 2 \<or> t = 3) \<Longrightarrow> t = 4 \<or> t = 5 \<or> t = 6 \<or> t = 7" for t :: u8
proof -
  assume t: "1 \<le> t" "t \<le> 7" "t \<noteq> 1" "\<not> (t = 2 \<or> t = 3)"
  obtain n where n: "t = of_nat n" "1 \<le> n" "n \<le> 7"
    using t(1,2) by (intro that [of "unat t"]) (simp_all add: word_le_nat_alt)
  then have "n = 1 \<or> n = 2 \<or> n = 3 \<or> n = 4 \<or> n = 5 \<or> n = 6 \<or> n = 7" by linarith
  then show ?thesis using n(1) t(3,4) by auto
qed

lemma set_fd_current: "updc (set_fd i b sz p ty) s = onk (upd (current_task (kern s)) (set_fd i b sz p ty)) s"
  by (simp add: updc_def)

lemma dup_into_inv:
  assumes but: "sys_inv_but (current_task (kern s), new) s" and new: "new < MAX_FD"
    and old: "unat old < MAX_FD" "unat old \<noteq> new" "fbuf_of old s \<noteq> 0"
    and res: "dup_into E old new r s = Some (r', s')"
  shows "sys_inv s' \<or> r_eax r' = - 1 \<and> sys_inv_but (current_task (kern s), new) s'"
proof -
  let ?c = "current_task (kern s)" and ?k = "kern s"
  let ?S = "(slot_obj ?k)((?c, new) := NoObj)"
  have obj: "obj_inv (slots ?k) ?S (krefs ?k) (others s) (kheap ?k)" and k: "kinv ?k" and len: "fd_lens ?k"
    using but by (auto simp: sys_inv_but_def)
  have c: "?c \<in> set (all_tasks ?k)" by (rule kinvD(3) [OF k])
  have ty: "1 \<le> ftype_of old s" "ftype_of old s \<le> 7" using len c old by (auto simp: fd_lens_def)
  show ?thesis
  proof (cases "ftype_of old s = 1")
    case True
    obtain nb s1 where cp: "copy_file_buf E (fbuf_of old s) (fsize_of old s) s = Some (nb, s1)"
      using res True by (auto simp: dup_into_def dup_file_fd_def split: option.splits)
    obtain h' kb where s1: "s1 = s\<lparr>kern := ?k\<lparr>kheap := h', kbuf := kb\<rparr>\<rparr>"
      and nb: "if nb = 0 then held h' (others s \<union> addrs (slots ?k) ?S) \<and> kb = kbuf ?k
        else nb \<notin> others s \<union> addrs (slots ?k) ?S \<and> held h' (insert nb (others s \<union> addrs (slots ?k) ?S))"
      using copy_file_buf_owned [OF obj_invD(7) [OF obj] cp] by blast
    show ?thesis
    proof (cases "nb = 0")
      case z: True
      have h: "held h' (others s \<union> addrs (slots ?k) ?S)" "kb = kbuf ?k" using nb z by simp_all
      have "sys_inv_but (?c, new) s1" by (rule sys_inv_but_heap [OF but _ _ h(1)]) (use h(2) s1 in simp_all)
      moreover have "s' = s1" "r_eax r' = - 1" using res True cp z by (auto simp: dup_into_def dup_file_fd_def ret_def)
      ultimately show ?thesis by simp
    next
      case nz: False
      have o1: "obj_inv (slots ?k) (?S((?c, new) := FileObj nb)) (krefs ?k) (others s) h'"
        by (rule obj_inv_file [OF obj]) (use nb nz c new in auto)
      have "sys_inv (onk (upd ?c (set_fd new nb (fsize_of old s1) (fpos_of old s1) 1)) s1)"
        by (rule fill_slot_inv [OF but]) (use o1 nz len c new s1 in \<open>simp_all add: same_sched_def fobj_of_def fd_lens_def\<close>)
      moreover have "s' = onk (upd ?c (set_fd new nb (fsize_of old s1) (fpos_of old s1) 1)) s1"
        using res True cp nz s1 by (auto simp: dup_into_def dup_file_fd_def ret_def set_fd_current)
      ultimately show ?thesis by simp
    qed
  next
    case False
    let ?a = "fbuf_of old s" and ?ty = "ftype_of old s"
    let ?f = "set_fd new ?a (fsize_of old s) (fpos_of old s) ?ty"
    show ?thesis
    proof (cases "?ty = 2 \<or> ?ty = 3")
      case True
      define p where "p = (pipes ?k ?a)\<lparr>p_refs := p_refs (pipes ?k ?a) + 1\<rparr>"
      have s': "s' = onk (upd ?c ?f) (set_pipe ?a p s)"
        using res False True by (auto simp: dup_into_def ret_def Let_def updc_def onk_def upd_def set_pipe_def p_def)
      have S: "?S (?c, unat old) = PipeObj ?a" using True old by (auto simp: slot_obj_def fobj_of_def)
      have o1: "obj_inv (slots ?k) (?S((?c, new) := PipeObj ?a)) ((krefs ?k)(?a := krefs ?k ?a + 1)) (others s) (kheap ?k)"
        by (rule obj_inv_share [OF obj _ _ _ S]) (use c new old in simp_all)
      have r1: "(\<lambda>b. p_refs (((pipes ?k)(?a := p)) b)) = (krefs ?k)(?a := krefs ?k ?a + 1)" by (auto simp: p_def)
      have "sys_inv (onk (upd ?c ?f) (set_pipe ?a p s))"
        by (rule fill_slot_inv [OF but])
          (use o1 r1 True old ty c new len in \<open>auto simp: set_pipe_def onk_def same_sched_def fobj_of_def fd_lens_def\<close>)
      then show ?thesis using s' by simp
    next
      case nop: False
      have s': "s' = onk (upd ?c ?f) s" using res False nop by (auto simp: dup_into_def ret_def Let_def updc_def)
      have "?ty = 4 \<or> ?ty = 5 \<or> ?ty = 6 \<or> ?ty = 7" using ty False nop by (rule u8_small)
      then have "fobj_of ?ty ?a = NoObj" by (auto simp: fobj_of_def)
      then have "sys_inv (onk (upd ?c ?f) s)" by (intro fill_slot_inv [OF but]) (use obj ty c new len in simp_all)
      then show ?thesis using s' by simp
    qed
  qed
qed

lemma free_fds_iff: "i \<in> set (free_fds s) \<longleftrightarrow> i < MAX_FD \<and> fd_buf (ct s) ! i = 0"
  by (auto simp: free_fds_def)

lemma sys_inv_free_slot:
  assumes "sys_inv s" "i < MAX_FD" "fd_buf (ct s) ! i = 0"
  shows "sys_inv_but (current_task (kern s), i) s"
proof -
  have "slot_obj (kern s) (current_task (kern s), i) = NoObj" using assms(3) by (simp add: slot_obj_def fobj_of_def)
  then show ?thesis using assms(1) by (simp add: sys_inv_def sys_inv_but_def fun_upd_idem)
qed

lemma sys_inv_but_free: "sys_inv_but x s \<Longrightarrow> slot_obj (kern s) x = NoObj \<Longrightarrow> sys_inv s"
  by (simp add: sys_inv_def sys_inv_but_def fun_upd_idem)

lemma dup_keeps_slot:
  assumes "dup_into E old new r s = Some (r', s')" "r_eax r' = - 1" "new < MAX_FD"
  shows "tsk (kern s') = tsk (kern s)"
proof -
  have ne: "of_nat new \<noteq> (- 1 :: u32)"
  proof
    assume "of_nat new = (- 1 :: u32)"
    then have "unat (of_nat new :: u32) = unat (- 1 :: u32)" by (rule arg_cong)
    moreover have "unat (of_nat new :: u32) = new"
      using assms(3) unfolding unsigned_of_nat of_nat_id MAX_FD_def by (simp add: take_bit_nat_eq_self)
    ultimately show False using assms(3) by (simp add: MAX_FD_def unsigned_minus_1_eq_mask mask_eq_exp_minus_1)
  qed
  obtain s1 where "copy_file_buf E (fbuf_of old s) (fsize_of old s) s = Some (0, s1)" "s' = s1"
    using assms(1,2) ne by (auto simp: dup_into_def dup_file_fd_def ret_def Let_def split: option.splits if_splits prod.splits)
  then show ?thesis
    by (auto simp: copy_file_buf_def new_buf_def k_malloc_def split: option.splits prod.splits if_splits)
qed

lemma sys_dup_inv:
  assumes inv: "sys_inv s" and res: "sys_dup E r s = Some (r', s')"
  shows "sys_inv s'"
proof (cases "fd_live (r_ebx r) s \<and> free_fds s \<noteq> []")
  case True
  then obtain new rest where f: "free_fds s = new # rest" by (cases "free_fds s") auto
  then have new: "new < MAX_FD" "fd_buf (ct s) ! new = 0" using free_fds_iff [of new s] by auto
  have d: "dup_into E (r_ebx r) new r s = Some (r', s')" using res True f by (simp add: sys_dup_def)
  have old: "unat (r_ebx r) < MAX_FD" "unat (r_ebx r) \<noteq> new" "fbuf_of (r_ebx r) s \<noteq> 0"
    using True new by (auto simp: fd_live_def)
  have "sys_inv s' \<or> r_eax r' = - 1 \<and> sys_inv_but (current_task (kern s), new) s'"
    by (rule dup_into_inv [OF sys_inv_free_slot [OF inv new] new(1) old d])
  moreover have "slot_obj (kern s') (current_task (kern s), new) = NoObj" if "r_eax r' = - 1"
    using dup_keeps_slot [OF d that new(1)] new(2) by (simp add: slot_obj_def fobj_of_def)
  ultimately show ?thesis using sys_inv_but_free by blast
qed (use assms in \<open>auto simp: sys_dup_def ret_def Let_def split: list.splits if_splits\<close>)

text \<open>A successful \<open>dup2\<close>, or one whose target was free.\<close>

lemma sys_dup2_inv:
  assumes inv: "sys_inv s" and res: "sys_dup2 E r s = Some (r', s')"
    and ok: "r_eax r' \<noteq> - 1 \<or> unat (r_ecx r) \<ge> MAX_FD \<or> fbuf_of (r_ecx r) s = 0"
  shows "sys_inv s'"
proof (cases "unat (r_ebx r) \<ge> MAX_FD \<or> unat (r_ecx r) \<ge> MAX_FD \<or> fbuf_of (r_ebx r) s = 0 \<or> r_ebx r = r_ecx r")
  case True
  then show ?thesis using inv res by (auto simp: sys_dup2_def ret_def Let_def split: if_splits)
next
  case False
  let ?c = "current_task (kern s)" and ?new = "unat (r_ecx r)"
  define s1 where "s1 = (if fbuf_of (r_ecx r) s \<noteq> 0 then close_obj False (ftype_of (r_ecx r) s) (fbuf_of (r_ecx r) s) s else s)"
  have d: "dup_into E (r_ebx r) ?new r s1 = Some (r', s')" using res False by (simp add: sys_dup2_def Let_def s1_def)
  have c: "?c \<in> set (all_tasks (kern s))" using sys_inv_current [OF inv] by simp
  have new: "?new < MAX_FD" using False by simp
  have but: "sys_inv_but (?c, ?new) s1 \<and> current_task (kern s1) = ?c \<and> tsk (kern s1) = tsk (kern s)"
  proof (cases "fbuf_of (r_ecx r) s = 0")
    case True
    then show ?thesis using sys_inv_free_slot [OF inv new] by (simp add: s1_def)
  next
    case nz: False
    then have s1: "s1 = close_obj False (ftype_of (r_ecx r) s) (fbuf_of (r_ecx r) s) s" by (simp add: s1_def)
    note C = close_then_set [OF inv c new nz s1]
    have oth: "others s1 = others s" using same_sched_owned [OF C(2)] C(3) by (simp add: others_def)
    have "held (kheap (kern s1)) (set (owned (kern s)))"
      by (rule held_mono [OF obj_invD(7) [OF C(5)]]) (auto simp: others_def)
    then have "kinv (kern s1)" using inv by (intro kinv_same_sched [OF _ C(2)]) (simp_all add: sys_inv_def)
    moreover have "slots (kern s1) = slots (kern s)" using C(2) by (simp add: slots_def same_sched_def)
    ultimately show ?thesis using C oth slot_obj_tsk [OF C(1)] by (simp add: sys_inv_but_def same_sched_def)
  qed
  have old: "unat (r_ebx r) < MAX_FD" "unat (r_ebx r) \<noteq> ?new" "fbuf_of (r_ebx r) s1 \<noteq> 0"
    using False but by (simp_all add: word_unat_eq_iff [of "r_ebx r"])
  have "sys_inv s' \<or> r_eax r' = - 1 \<and> sys_inv_but (?c, ?new) s'"
    using dup_into_inv [of s1 ?new "r_ebx r" E r r' s'] but new old d by simp
  moreover have "slot_obj (kern s') (?c, ?new) = NoObj" if "r_eax r' = - 1"
    using ok that dup_keeps_slot [OF d that new] but new by (simp add: slot_obj_def fobj_of_def)
  ultimately show ?thesis using sys_inv_but_free by blast
qed

text \<open>A new pipe before its descriptors are filled in, and after they were taken back.\<close>

lemma pipe_alloc_inv:
  assumes inv: "sys_inv s" and m: "k_malloc PIPE_SIZE (kern s) = Some (a, k)" and a: "a \<noteq> 0"
    and k1: "k1 = k\<lparr>pipes := (pipes k)(a := p)\<rparr>"
  shows "same_sched (kern s) k1" "tsk k1 = tsk (kern s)" "fd_lens k1"
    "obj_inv (slots (kern s)) (slot_obj (kern s)) (krefs k1) (others s) (kfree a (kheap k1))"
    "p_refs p = 2 \<Longrightarrow> x \<in> slots (kern s) \<Longrightarrow> y \<in> slots (kern s) \<Longrightarrow> slot_obj (kern s) x = NoObj \<Longrightarrow> slot_obj (kern s) y = NoObj \<Longrightarrow>
       y \<noteq> x \<Longrightarrow> obj_inv (slots (kern s)) ((slot_obj (kern s))(x := PipeObj a, y := PipeObj a)) (krefs k1) (others s) (kheap k1)"
proof -
  let ?k = "kern s"
  let ?A = "others s \<union> addrs (slots ?k) (slot_obj ?k)"
  have o: "obj_inv (slots ?k) (slot_obj ?k) (krefs ?k) (others s) (kheap ?k)" using inv by (simp add: sys_inv_def)
  obtain h' where k: "k = ?k\<lparr>kheap := h'\<rparr>" and h: "a \<notin> ?A" "held h' (insert a ?A)"
    using k_malloc_owned [OF obj_invD(7) [OF o] m] a by auto
  have r: "obj_inv (slots ?k) (slot_obj ?k) (krefs k1) (others s) (kheap ?k)"
    by (rule obj_inv_refs [OF o]) (use h(1) in \<open>auto simp: k1 k\<close>)
  show "same_sched ?k k1" "tsk k1 = tsk ?k" "fd_lens k1" using inv by (simp_all add: k1 k same_sched_def sys_inv_def fd_lens_def)
  show "obj_inv (slots ?k) (slot_obj ?k) (krefs k1) (others s) (kfree a (kheap k1))"
    by (rule obj_inv_heap [OF r]) (use held_free [OF h(2,1)] in \<open>simp add: k1 k\<close>)
  have "held (kheap k1) (insert a ?A)" using h(2) by (simp add: k1 k)
  then show "obj_inv (slots ?k) ((slot_obj ?k)(x := PipeObj a, y := PipeObj a)) (krefs k1) (others s) (kheap k1)"
    if "p_refs p = 2" "x \<in> slots ?k" "y \<in> slots ?k" "slot_obj ?k x = NoObj" "slot_obj ?k y = NoObj" "y \<noteq> x"
    by (intro obj_inv_pipe [OF r]) (use that h(1) a in \<open>simp_all add: k1\<close>)
qed

lemma fd_lens_clear2:
  assumes "fd_lens k"
  shows "fd_lens (upd c (\<lambda>t. t\<lparr>fd_buf := (fd_buf t)[i := 0, j := 0], fd_type := (fd_type t)[i := 0, j := 0]\<rparr>) k)"
proof -
  have "1 \<le> (fd_type (tsk k a))[i := 0, j := 0] ! n \<and> (fd_type (tsk k a))[i := 0, j := 0] ! n \<le> 7"
    if "a \<in> set (all_tasks k)" "n < MAX_FD" "(fd_buf (tsk k a))[i := 0, j := 0] ! n \<noteq> 0" for a n
    using that assms by (cases "n = j"; cases "n = i") (auto simp: fd_lens_def)
  then show ?thesis using assms by (simp add: fd_lens_def upd_def)
qed

lemma slot_obj_clear2:
  assumes "\<And>t. fd_buf (tsk k' t) = (if t = c then (fd_buf (tsk k c))[i := 0, j := 0] else fd_buf (tsk k t))"
    "\<And>t. fd_type (tsk k' t) = (if t = c then (fd_type (tsk k c))[i := 0, j := 0] else fd_type (tsk k t))"
    "length (fd_buf (tsk k c)) = MAX_FD" "length (fd_type (tsk k c)) = MAX_FD" "i < MAX_FD" "j < MAX_FD"
    "fd_buf (tsk k c) ! i = 0" "fd_buf (tsk k c) ! j = 0"
  shows "slot_obj k' = slot_obj k"
proof
  fix x :: "u32 \<times> nat"
  obtain t n where x: "x = (t, n)" by fastforce
  have "fobj_of ((fd_type (tsk k c))[i := 0, j := 0] ! n) ((fd_buf (tsk k c))[i := 0, j := 0] ! n) =
      fobj_of (fd_type (tsk k c) ! n) (fd_buf (tsk k c) ! n)"
    using assms(3-8) by (cases "n = j"; cases "n = i") (simp_all add: fobj_of_def)
  then show "slot_obj k' x = slot_obj k x" unfolding x slot_obj_def fst_conv snd_conv assms(1,2) by simp
qed

lemma sys_pipe_inv:
  assumes inv: "sys_inv s" and res: "sys_pipe E r s = Some (r', s')"
  shows "sys_inv s'"
proof -
  let ?k = "kern s" and ?c = "current_task (kern s)"
  obtain a k where m: "k_malloc PIPE_SIZE ?k = Some (a, k)" using res by (auto simp: sys_pipe_def split: option.splits)
  have kinv: "kinv ?k" and o: "obj_inv (slots ?k) (slot_obj ?k) (krefs ?k) (others s) (kheap ?k)" and len: "fd_lens ?k"
    using inv by (auto simp: sys_inv_def)
  show ?thesis
  proof (cases "a = 0")
    case True
    then obtain h' where k: "k = ?k\<lparr>kheap := h'\<rparr>" and h: "held h' (others s \<union> addrs (slots ?k) (slot_obj ?k))"
      using k_malloc_owned [OF obj_invD(7) [OF o] m] by auto
    have "s' = s\<lparr>kern := k\<rparr>" using res m True by (auto simp: sys_pipe_def ret_def)
    then show ?thesis using obj_inv_heap [OF o h] len
      by (intro sys_invI [OF kinv]) (simp_all add: k same_sched_def fd_lens_def slot_obj_def [abs_def])
  next
    case False
    define k1 where "k1 = k\<lparr>pipes := (pipes k)(a := fresh_pipe E a)\<rparr>"
    define s1 where "s1 = s\<lparr>kern := k1\<rparr>"
    note P = pipe_alloc_inv [OF inv m False k1_def]
    have s1: "set_pipe a (fresh_pipe E a) (s\<lparr>kern := k\<rparr>) = s1" by (simp add: s1_def k1_def set_pipe_def onk_def)
    have undo: "sys_inv t" if "same_sched k1 (kern t)" "rdv t = rdv s" "fd_lens (kern t)" "slot_obj (kern t) = slot_obj ?k"
        "krefs (kern t) = krefs k1" "kheap (kern t) = kfree a (kheap k1)" for t
      by (rule sys_invI [OF kinv]) (use that P(4) same_sched_trans [OF P(1) that(1)] in simp_all)
    show ?thesis
    proof (cases "\<exists>i j js. free_fds s1 = i # j # js")
      case no: False
      then have "s' = onk (k_free a) s1" using res m False s1
        by (auto simp: sys_pipe_def ret_def Let_def split: list.splits)
      then show ?thesis using P(3) slot_obj_tsk [OF P(2)]
        by (intro undo) (simp_all add: s1_def onk_def k_free_def same_sched_def fd_lens_def slot_obj_def [abs_def])
    next
      case True
      then obtain i j js where f: "free_fds s1 = i # j # js" by blast
      have c1: "current_task k1 = ?c" using P(1) by (simp add: same_sched_def)
      have fr: "i < MAX_FD" "j < MAX_FD" "fd_buf (tsk ?k ?c) ! i = 0" "fd_buf (tsk ?k ?c) ! j = 0"
        using free_fds_iff [of _ s1] f P(2) c1 by (auto simp: s1_def)
      have "distinct (free_fds s1)" by (simp add: free_fds_def)
      then have ij: "j \<noteq> i" using f by auto
      let ?f = "set_fd i a (of_nat PIPE_BUF_SZ) 0 2" and ?g = "set_fd j a (of_nat PIPE_BUF_SZ) 0 3"
      define s2 where "s2 = updc (?g \<circ> ?f) s1"
      have k2: "kern s2 = upd ?c ?g (upd ?c ?f k1)" using c1 by (simp add: s2_def s1_def upd_def)
      have c: "?c \<in> set (all_tasks ?k)" using sys_inv_current [OF inv] by simp
      have L: "length (fd_buf (tsk ?k ?c)) = MAX_FD" "length (fd_type (tsk ?k ?c)) = MAX_FD" using sys_inv_lens [OF inv c] by auto
      have S2: "slot_obj (kern s2) = (slot_obj ?k)((?c, i) := PipeObj a, (?c, j) := PipeObj a)"
        unfolding k2 using slot_obj_set [of "upd ?c ?f k1" ?c j a] slot_obj_set [of k1 ?c i a] L P(2) fr False slot_obj_tsk [OF P(2)]
        by (simp add: upd_def set_fd_def fobj_of_def)
      have N: "slot_obj ?k (?c, i) = NoObj" "slot_obj ?k (?c, j) = NoObj" using fr by (simp_all add: slot_obj_def fobj_of_def)
      have i2: "sys_inv s2"
      proof (rule sys_invI [OF kinv])
        show "same_sched ?k (kern s2)" unfolding k2 by (intro same_sched_trans [OF P(1)] same_sched_trans [OF same_sched_set same_sched_set])
        show "fd_lens (kern s2)" unfolding k2 by (intro fd_lens_set P(3)) simp_all
        have "krefs (kern s2) = krefs k1" "kheap (kern s2) = kheap k1" by (simp_all add: k2 upd_def)
        then show "obj_inv (slots ?k) (slot_obj (kern s2)) (krefs (kern s2)) (others s) (kheap (kern s2))"
          using P(5) [of "(?c, i)" "(?c, j)"] N ij c fr S2 by (simp add: fresh_pipe_def)
        show "rd_addrs (rdv s2) = rd_addrs (rdv s)" by (simp add: s2_def s1_def updc_def onk_def)
      qed
      obtain ok s3 where u: "to_user (r_ebx r) (words_out [of_nat i, of_nat j]) 8 s2 = Some (ok, s3)"
        using res m False s1 f by (auto simp: sys_pipe_def Let_def s2_def split: option.splits)
      have same: "fd_same s2 s3" by (rule fd_same_to_user [OF u])
      let ?u = "\<lambda>t. t\<lparr>fd_buf := (fd_buf t)[i := 0, j := 0], fd_type := (fd_type t)[i := 0, j := 0]\<rparr>"
      have s': "s' = (if ok then s3 else onk (k_free a) (updc ?u s3))"
        using res m False s1 f u by (auto simp: sys_pipe_def Let_def s2_def ret_def split: if_splits)
      show ?thesis
      proof (cases ok)
        case True
        then show ?thesis using s' fd_same_inv [OF i2 same] by simp
      next
        case ko: False
        have c3: "current_task (kern s3) = ?c" "all_tasks (kern s3) = all_tasks ?k"
          using same k2 c1 P(1) by (auto simp: fd_same_def same_sched_def upd_def)
        have tk: "fd_buf (tsk (kern s3) t) = fd_buf (tsk (kern s2) t) \<and> fd_type (tsk (kern s3) t) = fd_type (tsk (kern s2) t)" for t
          using same by (simp add: fd_same_def)
        have b2: "fd_buf (tsk (kern s2) t) = (if t = ?c then (fd_buf (tsk ?k ?c))[i := a, j := a] else fd_buf (tsk ?k t))"
          "fd_type (tsk (kern s2) t) = (if t = ?c then (fd_type (tsk ?k ?c))[i := 2, j := 3] else fd_type (tsk ?k t))" for t
          using P(2) by (simp_all add: k2 upd_def set_fd_def)
        have ks': "kern s' = k_free a (upd ?c ?u (kern s3))" using s' ko c3 by simp
        have u': "fd_buf (tsk (kern s') t) = (if t = ?c then (fd_buf (tsk (kern s3) ?c))[i := 0, j := 0] else fd_buf (tsk (kern s3) t))"
          "fd_type (tsk (kern s') t) = (if t = ?c then (fd_type (tsk (kern s3) ?c))[i := 0, j := 0] else fd_type (tsk (kern s3) t))" for t
          by (simp_all add: ks' k_free_def upd_def)
        have b': "fd_buf (tsk (kern s') t) = (if t = ?c then (fd_buf (tsk ?k ?c))[i := 0, j := 0] else fd_buf (tsk ?k t))"
          "fd_type (tsk (kern s') t) = (if t = ?c then (fd_type (tsk ?k ?c))[i := 0, j := 0] else fd_type (tsk ?k t))" for t
          unfolding u' using tk b2 by (simp_all add: list_update_twice [OF ij])
        have S': "slot_obj (kern s') = slot_obj ?k" by (rule slot_obj_clear2 [OF b' L fr])
        have "same_sched k1 (kern s2)" unfolding k2 by (rule same_sched_trans [OF same_sched_set same_sched_set])
        moreover have "same_sched (kern s2) (kern s3)" using same by (simp add: fd_same_def)
        moreover have "same_sched (kern s3) (kern s')" by (simp add: ks' same_sched_def k_free_def upd_def)
        ultimately have sc: "same_sched k1 (kern s')" by (blast intro: same_sched_trans)
        show ?thesis
        proof (rule undo [OF sc _ _ S'])
          show "rdv s' = rdv s" using s' ko same by (simp add: fd_same_def onk_def updc_def s2_def s1_def)
          show "krefs (kern s') = krefs k1" "kheap (kern s') = kfree a (kheap k1)"
            using same unfolding ks' fd_same_def k2 by (simp_all add: k_free_def upd_def)
          have "fd_lens (kern s3)" using fd_same_inv [OF i2 same] by (simp add: sys_inv_def)
          then show "fd_lens (kern s')" using fd_lens_clear2 unfolding ks' k_free_def by (simp add: fd_lens_def)
        qed
      qed
    qed
  qed
qed

section \<open>Opening\<close>

text \<open>Reading a file touches neither the kernel's objects nor the ram disk.\<close>

lemma vfs_read_quiet:
  "vfs_stat (fs_ops E) v p d s = Some (x, s') \<Longrightarrow> kern s' = kern s \<and> rdv s' = rdv s"
  "vfs_open (fs_ops E) v p b n s = Some (y, s') \<Longrightarrow> kern s' = kern s \<and> rdv s' = rdv s"
  by (auto simp: vfs_stat_def vfs_open_def fs_ops_def fat_ops_def ext2_ops_def ram_ops_def on_fat_def on_e2_def
      split: option.splits prod.splits fs_id.splits)

lemma open_device_inv:
  assumes "sys_inv s" "i \<in> set (free_fds s)" "ty = 5 \<or> ty = 6 \<or> ty = 7"
  shows "sys_inv (updc (set_fd i 1 sz 0 ty) s)"
proof -
  have i: "i < MAX_FD" "fd_buf (ct s) ! i = 0" using assms(2) free_fds_iff [of i s] by auto
  note but = sys_inv_free_slot [OF assms(1) i]
  have f: "fobj_of ty 1 = NoObj" "1 \<le> ty \<and> ty \<le> 7" using assms(3) by (auto simp: fobj_of_def)
  show ?thesis unfolding set_fd_current
    by (rule fill_slot_inv [OF but]) (use but f i sys_inv_current [OF assms(1)] in \<open>auto simp: sys_inv_but_def\<close>)
qed

lemma open_file_inv:
  assumes inv: "sys_inv s" and fd: "i \<in> set (free_fds s)" and res: "open_file E i name r s = Some (r', s')"
  shows "sys_inv s'"
proof -
  have quiet: "sys_inv t'" if "sys_inv t" "kern t' = kern t" "rdv t' = rdv t" for t t' :: "'a sys"
    using fd_same_inv [OF that(1) fd_same_kern_id [OF that(2,3)]] .
  have i: "i < MAX_FD" "fd_buf (ct s) ! i = 0" using fd free_fds_iff [of i s] by auto
  show ?thesis
  proof (cases "has_cap CAP_FILE_READ s")
    case False
    then show ?thesis using res inv by (simp add: open_file_def ret_def)
  next
    case True
    then obtain fsize isd s1 where s1: "vfs_stat (fs_ops E) (mtab s) (Some name) 0 s = Some ((fsize, isd), s1)"
      using res by (auto simp: open_file_def split: option.splits)
    have k1: "kern s1 = kern s" "rdv s1 = rdv s" using vfs_read_quiet(1) [OF s1] by auto
    have i1: "sys_inv s1" by (rule quiet [OF inv k1])
    show ?thesis
    proof (cases "fsize < 0")
      case True
      then have "s' = say E (bytes_of ''open: not found: '' @ name @ [10]) s1"
        using res s1 \<open>has_cap CAP_FILE_READ s\<close> by (auto simp: open_file_def ret_def)
      then show ?thesis by (intro quiet [OF i1]) (simp_all add: say_def set_hw_def)
    next
      case False
      let ?c = "current_task (kern s)" and ?A = "others s1 \<union> addrs (slots (kern s1)) (slot_obj (kern s1))"
      obtain fb s2 where s2: "new_buf E (open_alloc (of_int fsize)) s1 = Some (fb, s2)"
        using res s1 True False by (auto simp: open_file_def Let_def split: option.splits)
      have obj: "obj_inv (slots (kern s1)) (slot_obj (kern s1)) (krefs (kern s1)) (others s1) (kheap (kern s1))"
        using i1 by (simp add: sys_inv_def)
      obtain h' kb where e2: "s2 = s1\<lparr>kern := (kern s1)\<lparr>kheap := h', kbuf := kb\<rparr>\<rparr>"
        and h': "if fb = 0 then held h' ?A \<and> kb = kbuf (kern s1) else fb \<notin> ?A \<and> held h' (insert fb ?A)"
        using new_buf_owned [OF obj_invD(7) [OF obj] s2] by blast
      have undo: "sys_inv t" if "kern t = (kern s1)\<lparr>kheap := h, kbuf := kb'\<rparr>" "rdv t = rdv s1" "held h ?A" for t :: "'a sys" and h kb'
        by (rule sys_invI [of s1]) (use i1 that obj_inv_heap [OF obj] slot_obj_tsk [of "kern t" "kern s1"] in
            \<open>auto simp: sys_inv_def same_sched_def fd_lens_def\<close>)
      show ?thesis
      proof (cases "fb = 0")
        case z: True
        then have "s' = s2" using res s1 s2 True False by (auto simp: open_file_def Let_def ret_def)
        then show ?thesis using z h' e2 by (intro undo [where h = h' and kb' = "kbuf (kern s1)"]) simp_all
      next
        case nz: False
        obtain sz bs s3 where s3: "vfs_open (fs_ops E) (mtab s2) (Some name) (kbuf (kern s2) fb) (open_alloc (of_int fsize)) s2 = Some ((sz, bs), s3)"
          using res s1 s2 True False nz by (auto simp: open_file_def Let_def split: option.splits)
        have k3: "kern s3 = kern s2" "rdv s3 = rdv s2" using vfs_read_quiet(2) [OF s3] by auto
        let ?s4 = "set_buf_at fb bs s3"
        have k4: "kern ?s4 = (kern s1)\<lparr>kheap := h', kbuf := kb(fb := bs)\<rparr>" "rdv ?s4 = rdv s1"
          using k3 e2 by (simp_all add: set_buf_at_def onk_def)
        show ?thesis
        proof (cases "sz \<le> 0")
          case sz: True
          then have "s' = onk (k_free fb) ?s4" using res s1 s2 s3 True False nz by (auto simp: open_file_def Let_def ret_def)
          then show ?thesis using k4 held_free [of h' fb ?A] h' nz
            by (intro undo [where h = "kfree fb h'" and kb' = "kb(fb := bs)"]) (simp_all add: k_free_def, simp add: onk_def)
        next
          case sz: False
          have s': "s' = onk (upd ?c (set_fd i fb (of_int sz) 0 1)) ?s4"
            using res s1 s2 s3 True False nz sz k4(1) k1 by (auto simp: open_file_def Let_def ret_def set_fd_current)
          have i0: "fd_buf (ct s1) ! i = 0" "?c = current_task (kern s1)" using i k1 by simp_all
          note but = sys_inv_free_slot [OF i1 i(1) i0(1)]
          have c: "current_task (kern s1) \<in> set (all_tasks (kern s1))" using sys_inv_current [OF i1] by blast
          have no: "slot_obj (kern s1) (?c, i) = NoObj" using i0 by (simp add: slot_obj_def fobj_of_def)
          have "obj_inv (slots (kern s1)) ((slot_obj (kern s1))((?c, i) := FileObj fb)) (krefs (kern s1)) (others s1) h'"
            by (rule obj_inv_file [OF obj _ no]) (use h' nz c i k1 in auto)
          then show ?thesis unfolding s' i0(2)
            by (intro fill_slot_inv [OF but]) (use i1 nz c i k4 in \<open>auto simp: same_sched_def fobj_of_def fd_lens_def sys_inv_def\<close>)
        qed
      qed
    qed
  qed
qed

lemma sys_open_inv:
  assumes "sys_inv s" "sys_open E r s = Some (r', s')"
  shows "sys_inv s'"
proof -
  have named: "sys_inv s'" if o: "open_named E name r s = Some (r', s')" for name
  proof (cases "free_fds s")
    case (Cons fd rest)
    then have f: "fd \<in> set (free_fds s)" by simp
    show ?thesis using o Cons open_device_inv [OF assms(1) f] open_file_inv [OF assms(1) f]
      by (auto simp: open_named_def ret_def split: if_splits)
  qed (use o assms(1) in \<open>simp add: open_named_def ret_def\<close>)
  show ?thesis using assms named
    by (auto simp: sys_open_def with_name_def ret_def split: option.splits prod.splits if_splits)
qed

section \<open>Properties\<close>

text \<open>The system calls on descriptors, in any order, and the cleanup on exit. \<open>dup2\<close> onto an open
  descriptor takes part when it succeeds.\<close>

inductive fd_step :: "'d env \<Rightarrow> 'd sys \<Rightarrow> 'd sys \<Rightarrow> bool" for E where
  fd_open: "sys_open E r s = Some (r', s') \<Longrightarrow> fd_step E s s'"
| fd_write: "sys_fwrite E r s = Some (r', s') \<Longrightarrow> fd_step E s s'"
| fd_read: "sys_fread r s = Some (r', s') \<Longrightarrow> fd_step E s s'"
| fd_seek: "sys_lseek r s = Some (r', s') \<Longrightarrow> fd_step E s s'"
| fd_close: "sys_close r s = Some (r', s') \<Longrightarrow> fd_step E s s'"
| fd_dup: "sys_dup E r s = Some (r', s') \<Longrightarrow> fd_step E s s'"
| fd_dup2: "sys_dup2 E r s = Some (r', s') \<Longrightarrow>
    r_eax r' \<noteq> - 1 \<or> unat (r_ecx r) \<ge> MAX_FD \<or> fbuf_of (r_ecx r) s = 0 \<Longrightarrow> fd_step E s s'"
| fd_pipe: "sys_pipe E r s = Some (r', s') \<Longrightarrow> fd_step E s s'"
| fd_outfd: "sys_set_outfd r s = Some (r', s') \<Longrightarrow> fd_step E s s'"
| fd_putc: "sys_gfx_putc r s = Some (r', s') \<Longrightarrow> fd_step E s s'"
| fd_puts: "sys_gfx_puts r s = Some (r', s') \<Longrightarrow> fd_step E s s'"
| fd_cleanup: "t \<in> set (all_tasks (kern s)) \<Longrightarrow> fd_step E s (syscall_cleanup_fds t s)"

lemmas fd_data_same = sys_fwrite_same sys_fread_same sys_lseek_same sys_outfd_same

lemma fd_step_inv: "fd_step E s s' \<Longrightarrow> sys_inv s \<Longrightarrow> sys_inv s'"
  by (induction rule: fd_step.induct)
    (blast intro: fd_same_inv fd_data_same sys_open_inv sys_close_inv sys_dup_inv sys_dup2_inv sys_pipe_inv syscall_cleanup_inv(1))+

text \<open>The call left out of \<open>fd_step\<close>: \<open>dup2\<close> of a file onto a file, without memory for the copy. The new
  descriptor keeps the address of the buffer that has just been freed.\<close>

lemma k_malloc_null:
  assumes "k_malloc n k = Some (0, k')" "heap_live (kheap k) L"
  shows "k' = k"
proof (cases "n = 0")
  case True
  then show ?thesis using assms(1) by (simp add: k_malloc_def kmalloc_def)
next
  case False
  then show ?thesis using assms(1) kheap.alloc_cases [OF assms(2) False] by (auto simp: k_malloc_def)
qed

lemma dup2_leaves_dangling:
  assumes inv: "sys_inv s" and fd: "unat (r_ebx r) < MAX_FD" "unat (r_ecx r) < MAX_FD" "r_ebx r \<noteq> r_ecx r"
    and old: "fbuf_of (r_ebx r) s \<noteq> 0" "ftype_of (r_ebx r) s = 1" and new: "fbuf_of (r_ecx r) s = b" "b \<noteq> 0" "ftype_of (r_ecx r) s = 1"
    and m: "k_malloc (file_alloc (fsize_of (r_ebx r) s)) (k_free b (kern s)) = Some (0, k1)"
  shows "\<exists>s'. sys_dup2 E r s = Some (r\<lparr>r_eax := - 1\<rparr>, s') \<and> fbuf_of (r_ecx r) s' = b \<and> ftype_of (r_ecx r) s' = 1 \<and>
    (\<forall>L. heap_live (kheap (kern s')) L \<longrightarrow> b \<notin> fst ` L)"
proof -
  let ?c = "current_task (kern s)"
  have c: "?c \<in> set (all_tasks (kern s))" using sys_inv_current [OF inv] by blast
  have "slot_obj (kern s) (?c, unat (r_ecx r)) = FileObj b" using new by (simp add: slot_obj_def fobj_of_def)
  then have "b \<in> addrs (slots (kern s)) (slot_obj (kern s))" using c fd(2) by (intro addrs_mem) auto
  moreover have "held (kheap (kern s)) (others s \<union> addrs (slots (kern s)) (slot_obj (kern s)))"
    using inv by (auto simp: sys_inv_def intro: obj_invD(7))
  ultimately obtain L where L: "heap_live (kheap (kern s)) L" "b \<in> fst ` L" unfolding held_def by blast
  have fr: "heap_live (kheap (k_free b (kern s))) {x \<in> L. fst x \<noteq> b}" using heap_live_free [OF L] by (simp add: k_free_def)
  have k1: "k1 = k_free b (kern s)" by (rule k_malloc_null [OF m fr])
  have cl: "close_obj False (ftype_of (r_ecx r) s) (fbuf_of (r_ecx r) s) s = onk (k_free b) s" using new by (simp add: close_obj_def)
  have t: "tsk (k_free b (kern s)) = tsk (kern s)" "current_task (k_free b (kern s)) = ?c" by (simp_all add: k_free_def)
  have nb: "new_buf E (file_alloc (fsize_of (r_ebx r) s)) (onk (k_free b) s) = Some (0, onk (k_free b) s)"
    using m by (simp add: new_buf_def k1 onk_def)
  have "sys_dup2 E r s = Some (r\<lparr>r_eax := - 1\<rparr>, onk (k_free b) s)"
    using fd old new cl nb t by (simp add: sys_dup2_def dup_into_def dup_file_fd_def copy_file_buf_def ret_def Let_def)
  moreover have "b \<notin> fst ` L'" if "heap_live (kheap (kern (onk (k_free b) s))) L'" for L'
    using heap_live_det [OF that] fr by auto
  ultimately show ?thesis using new t by (intro exI [of _ "onk (k_free b) s"]) simp
qed

text \<open>C2. Whatever calls a program makes on its descriptors - opening files and devices, reading, writing, seeking,
  duplicating, closing, making pipes, redirecting its output - and however its exit cleans them up, every kernel
  object behind a descriptor stays allocated and owned: each file buffer by one descriptor, each pipe by as many
  descriptors as its reference count says, none of them shared with tasks, stacks, page directories or the ram
  disk. So no block is freed twice and no descriptor refers to a freed block. One call is left out, a \<open>dup2\<close>
  onto an open descriptor that fails for want of memory: it leaves a descriptor on a freed buffer
  (\<open>dup2_leaves_dangling\<close>). Calls without a result are not followed: output redirected to a device descriptor
  stores anywhere in the kernel (the last property of this theory).\<close>

theorem fd_ownership:
  assumes "(fd_step E)\<^sup>*\<^sup>* s s'" "sys_inv s"
  shows "sys_inv s'"
  using assms by (induction rule: rtranclp_induct) (blast intro: fd_step_inv)+

lemma demo_sys_inv: "sys_inv demo_sys"
proof -
  have fds: "fd_buf (tsk demo_ksys t) = (if t = 0x01001014 then (replicate 16 0)[0 := 1] else replicate 16 0)"
    "fd_type (tsk demo_ksys t) = (if t = 0x01001014 then (replicate 16 0)[0 := 4] else replicate 16 0)"
    "length (fd_size (tsk demo_ksys t)) = 16" "length (fd_pos (tsk demo_ksys t)) = 16" for t
    by (simp_all add: demo_ksys_def demo_kst_simps)
  have no: "slot_obj demo_ksys x = NoObj" if "snd x < MAX_FD" for x
    using that fds by (auto simp: slot_obj_def fobj_of_def MAX_FD_def nth_list_update)
  have "owned demo_ksys = owned demo_kst" by (rule owned_cong) (simp_all add: demo_ksys_def)
  then have own: "held (kheap demo_ksys) (set (owned demo_ksys))"
    using kinvD(2) [OF demo_kinv] by (simp add: own_wf_def demo_ksys_def)
  have ad: "addrs (slots demo_ksys) (slot_obj demo_ksys) = {}" using no by (auto simp: addrs_def slots_def)
  have "obj_inv (slots demo_ksys) (slot_obj demo_ksys) (krefs demo_ksys) (others demo_sys) (kheap demo_ksys)"
    by (rule obj_invI) (use no own ad in \<open>auto simp: slots_def others_def rd_addrs_def\<close>)
  moreover have "fd_lens demo_ksys" using fds by (auto simp: fd_lens_def MAX_FD_def nth_list_update split: if_splits)
  ultimately show ?thesis using demo_ksys_kinv by (simp add: sys_inv_def)
qed

text \<open>The sample task with a file and the two ends of a pipe as descriptors 1 to 3.\<close>

definition demo_fd_blocks :: "blk list" where
  "demo_fd_blocks = butlast demo_blocks @ [\<lparr>addr = 0x0100B000, bsize = 0x1030, bused = True\<rparr>,
     \<lparr>addr = 0x0100C030, bsize = 0x1020, bused = True\<rparr>, \<lparr>addr = 0x0100D050, bsize = 0xEF2FB0, bused = False\<rparr>]"

definition demo_fd_heap :: hheap where
  "demo_fd_heap = demo_heap\<lparr>h_size := (h_size demo_heap)(0x0100B000 := 0x1030, 0x0100C030 := 0x1020, 0x0100D050 := 0xEF2FB0),
     h_next := (h_next demo_heap)(0x0100B000 := 0x0100C030, 0x0100C030 := 0x0100D050),
     h_prev := (h_prev demo_heap)(0x0100C030 := 0x0100B000, 0x0100D050 := 0x0100C030), h_used := (\<lambda>_. 1)(0x0100D050 := 0)\<rparr>"

definition demo_fd_sys :: "pio sys" where
  "demo_fd_sys = demo_sys\<lparr>kern := demo_ksys\<lparr>kheap := demo_fd_heap,
     kbuf := (kbuf demo_ksys)(0x0100C044 := replicate 4096 0),
     pipes := (pipes demo_ksys)(0x0100B014 := fresh_pipe demo_env 0x0100B014),
     tsk := (tsk demo_ksys)(0x01001014 := (tsk demo_ksys 0x01001014)\<lparr>fd_buf := [1, 0x0100C044, 0x0100B014, 0x0100B014] @ replicate 12 0,
       fd_type := [4, 1, 2, 3] @ replicate 12 0, fd_size := [0, 100, 4096, 4096] @ replicate 12 0\<rparr>)\<rparr>\<rparr>"

lemma demo_fd_heap_inv: "heap_inv demo_fd_heap demo_fd_blocks"
  by (simp add: heap_inv_def demo_fd_heap_def demo_heap_def demo_fd_blocks_def demo_blocks_def heap_start_def heap_end_def)

lemma demo_fd_simps:
  "current_task (kern demo_fd_sys) = 0x01001014" "all_tasks (kern demo_fd_sys) = [0x01000014, 0x01001014, 0x01006014]"
  "kheap (kern demo_fd_sys) = demo_fd_heap" "rdv demo_fd_sys = []" "pipes (kern demo_fd_sys) 0x0100B014 = fresh_pipe demo_env 0x0100B014"
  "tsk (kern demo_fd_sys) 0x01001014 = (tsk demo_ksys 0x01001014)\<lparr>fd_buf := [1, 0x0100C044, 0x0100B014, 0x0100B014] @ replicate 12 0,
     fd_type := [4, 1, 2, 3] @ replicate 12 0, fd_size := [0, 100, 4096, 4096] @ replicate 12 0\<rparr>"
  "x \<noteq> 0x01001014 \<Longrightarrow> tsk (kern demo_fd_sys) x = tsk demo_ksys x"
  by (simp_all add: demo_fd_sys_def)

lemma nth_short: "i < 16 \<Longrightarrow> ([a, b, c, d] @ replicate 12 z) ! i = (if i = 0 then a else if i = 1 then b else if i = 2 then c else if i = 3 then d else z)"
  by (simp add: nth_append nth_Cons' nth_Cons_numeral)

lemma demo_fd_inv: "sys_inv demo_fd_sys"
proof -
  let ?k = "kern demo_fd_sys" and ?t = "0x01001014 :: u32"
  have z: "fd_buf (tsk demo_ksys t) = replicate 16 0" "fd_type (tsk demo_ksys t) = replicate 16 0" "length (fd_size (tsk demo_ksys t)) = 16"
    "length (fd_pos (tsk demo_ksys t)) = 16" if "t \<noteq> ?t" for t using that by (simp_all add: demo_ksys_def demo_kst_simps)
  have zp: "length (fd_pos (tsk demo_ksys ?t)) = 16" by (simp add: demo_ksys_def demo_kst_simps)
  have S: "slot_obj ?k (t, i) = (if t = ?t \<and> i = 1 then FileObj 0x0100C044 else if t = ?t \<and> (i = 2 \<or> i = 3) then PipeObj 0x0100B014 else NoObj)"
    if "i < 16" for t i
    using that z [of t] by (cases "t = ?t") (simp_all add: slot_obj_def demo_fd_simps nth_short fobj_of_def del: append.simps)
  have ss: "same_sched demo_ksys ?k" by (simp add: same_sched_def demo_fd_sys_def)
  have ow: "owned ?k = owned demo_ksys" by (rule same_sched_owned [OF ss])
  have o: "set (owned demo_ksys) \<subseteq> {0x01000014, 0x01001014, 0x01002014, 0x01006014, 0x01007014}"
    by (simp add: owned_def demo_ksys_def demo_kst_simps task_objs_def)
  have "{0x01000014, 0x01001014, 0x01002014, 0x01006014, 0x01007014, 0x0100B014, 0x0100C044} \<subseteq> fst ` live_of demo_fd_blocks"
    by (simp add: demo_fd_blocks_def demo_blocks_def HEADER_SIZE_def)
  then have h: "held demo_fd_heap {0x01000014, 0x01001014, 0x01002014, 0x01006014, 0x01007014, 0x0100B014, 0x0100C044}"
    using demo_fd_heap_inv by (auto simp: held_def heap_live_def)
  have sl: "x \<in> slots ?k \<longleftrightarrow> fst x \<in> {0x01000014, ?t, 0x01006014} \<and> snd x < 16" for x
    by (cases x) (auto simp: slots_def demo_fd_simps MAX_FD_def)
  have pu: "pipe_users (slots ?k) (slot_obj ?k) 0x0100B014 = {(?t, 2), (?t, 3)}"
    using S sl by (auto simp: pipe_users_def split: if_splits)
  have oth: "others demo_fd_sys = set (owned demo_ksys)" by (simp add: others_def ow rd_addrs_def demo_fd_simps)
  have ad: "addrs (slots ?k) (slot_obj ?k) \<subseteq> {0x0100B014, 0x0100C044}" using S sl by (auto simp: addrs_def split: if_splits)
  have kin: "kinv ?k"
    by (rule kinv_same_sched [OF demo_ksys_kinv ss]) (use held_mono [OF h] o in \<open>auto simp: demo_fd_simps\<close>)
  have obj: "obj_inv (slots ?k) (slot_obj ?k) (krefs ?k) (others demo_fd_sys) (kheap ?k)"
  proof (rule obj_invI)
    show "finite (slots ?k)" by (simp add: slots_def)
    show "x = y" if "x \<in> slots ?k" "y \<in> slots ?k" "slot_obj ?k x = FileObj a" "slot_obj ?k y = FileObj a" for x y a
      using that S sl by (cases x; cases y) (auto split: if_splits)
    show False if "x \<in> slots ?k" "y \<in> slots ?k" "slot_obj ?k x = FileObj a" "slot_obj ?k y = PipeObj a" for x y a
      using that S sl by (cases x; cases y) (auto split: if_splits)
    show "a \<notin> others demo_fd_sys \<and> a \<noteq> 0" if "a \<in> addrs (slots ?k) (slot_obj ?k)" for a
    proof -
      have "a = 0x0100B014 \<or> a = 0x0100C044" using that ad by blast
      moreover have "0x0100B014 \<notin> set (owned demo_ksys)" "0x0100C044 \<notin> set (owned demo_ksys)" using o by auto
      ultimately show ?thesis unfolding oth by auto
    qed
    show "p_refs (pipes ?k a) = int (card (pipe_users (slots ?k) (slot_obj ?k) a))" if "x \<in> slots ?k" "slot_obj ?k x = PipeObj a" for x a
    proof -
      have "a = 0x0100B014" using that S sl by (cases x) (auto split: if_splits)
      then show ?thesis by (simp add: pu demo_fd_simps fresh_pipe_def)
    qed
    show "held (kheap ?k) (others demo_fd_sys \<union> addrs (slots ?k) (slot_obj ?k))"
      unfolding oth demo_fd_simps(3) using o ad by (intro held_mono [OF h]) auto
  qed
  have "fd_lens ?k" unfolding fd_lens_def
  proof (intro ballI conjI allI impI)
    fix t assume "t \<in> set (all_tasks ?k)"
    show "length (fd_buf (tsk ?k t)) = MAX_FD" "length (fd_size (tsk ?k t)) = MAX_FD" "length (fd_pos (tsk ?k t)) = MAX_FD" "length (fd_type (tsk ?k t)) = MAX_FD"
      using z [of t] zp by (cases "t = ?t"; simp add: demo_fd_simps MAX_FD_def)+
    fix i assume i: "i < MAX_FD" "fd_buf (tsk ?k t) ! i \<noteq> 0"
    show "1 \<le> fd_type (tsk ?k t) ! i" "fd_type (tsk ?k t) ! i \<le> 7"
      using i z [of t] by (cases "t = ?t"; simp add: demo_fd_simps MAX_FD_def nth_short split: if_splits del: append.simps)+
  qed
  with kin obj show ?thesis by (simp add: sys_inv_def)
qed

theorem fd_ownership_witness:
  "\<exists>s1 s2. fd_step demo_env demo_fd_sys s1 \<and> fd_step demo_env s1 s2 \<and> fd_buf (ct s1) ! 4 = 0x0100B014 \<and> p_refs (pipes (kern s1) 0x0100B014) = 3 \<and>
     fd_buf (ct s2) ! 1 = 0 \<and> kheap (kern s2) = kfree 0x0100C044 demo_fd_heap \<and> sys_inv s2"
proof -
  let ?p = "(fresh_pipe demo_env 0x0100B014)\<lparr>p_refs := 3\<rparr>"
  define s1 where "s1 = set_pipe 0x0100B014 ?p (updc (set_fd 4 0x0100B014 4096 0 2) demo_fd_sys)"
  define s2 where "s2 = updc (set_fd 1 0 0 0 0) (onk (k_free 0x0100C044) s1)"
  have z: "fd_pos (tsk demo_ksys 0x01001014) = replicate 16 0" by (simp add: demo_ksys_def demo_kst_simps)
  have nth: "i < 16 \<Longrightarrow> fd_buf (ct demo_fd_sys) ! i = (if i = 0 then 1 else if i = 1 then 0x0100C044 else if i = 2 then 0x0100B014 else if i = 3 then 0x0100B014 else 0)" for i
    by (simp add: demo_fd_simps nth_short del: append.simps)
  have "free_fds demo_fd_sys = [4..<16]" by (simp add: free_fds_def MAX_FD_def nth upt_rec)
  then have "free_fds demo_fd_sys = 4 # [5..<16]" by (simp add: upt_rec)
  then have "sys_dup demo_env (demo_call 2 0 0) demo_fd_sys = Some ((demo_call 2 0 0)\<lparr>r_eax := 4\<rparr>, s1)"
    using z by (simp add: sys_dup_def fd_live_def demo_call_def MAX_FD_def dup_into_def ret_def s1_def demo_fd_simps Let_def set_pipe_def onk_def
        updc_def upd_def fresh_pipe_def)
  then have a: "fd_step demo_env demo_fd_sys s1" by (rule fd_dup)
  have t1: "current_task (kern s1) = 0x01001014" "tsk (kern s1) 0x01001014 = set_fd 4 0x0100B014 4096 0 2 (tsk (kern demo_fd_sys) 0x01001014)"
    "kheap (kern s1) = demo_fd_heap" "pipes (kern s1) 0x0100B014 = ?p"
    by (simp_all add: s1_def set_pipe_def upd_def demo_fd_simps)
  have "sys_close (demo_call 1 0 0) s1 = Some ((demo_call 1 0 0)\<lparr>r_eax := 0\<rparr>, s2)"
    using t1 by (simp add: sys_close_def fd_live_def demo_call_def MAX_FD_def ret_def close_obj_def s2_def set_fd_def demo_fd_simps)
  then have b: "fd_step demo_env s1 s2" by (rule fd_close)
  have "sys_inv s2" using fd_ownership [OF _ demo_fd_inv, of demo_env s2] a b by (meson rtranclp.simps)
  moreover have "fd_buf (ct s1) ! 4 = 0x0100B014" "p_refs (pipes (kern s1) 0x0100B014) = 3" "fd_buf (ct s2) ! 1 = 0"
    "kheap (kern s2) = kfree 0x0100C044 demo_fd_heap"
    using t1 by (simp_all add: set_fd_def s2_def upd_def k_free_def demo_fd_simps fresh_pipe_def)
  ultimately show ?thesis using a b by blast
qed

text \<open>C5. A program needs no capability to make the kernel store a byte anywhere in kernel memory: it opens
  \<open>/dev/zero\<close>, whose descriptor has the pointer 1 and the size 0xFFFFFFFF, seeks to \<open>a - 1\<close> and redirects its
  text output to the descriptor. The guard of \<open>sys_gfx_putc\<close> then holds and the store goes to address \<open>a\<close>, for
  every \<open>a\<close> but 0: a task struct with its capabilities, the kernel's code, a page table. The model has no result
  for it.\<close>

theorem device_write_anywhere:
  assumes "current_task (kern s) \<noteq> 0" "free_fds s = fd # fds" "length (fd_buf (ct s)) = MAX_FD" "length (fd_size (ct s)) = MAX_FD"
    "length (fd_pos (ct s)) = MAX_FD" "length (fd_type (ct s)) = MAX_FD" "a \<noteq> 0"
  shows "\<exists>s1 s2 s3 r2 r3. open_named E (bytes_of ''/dev/zero'') r s = Some (r\<lparr>r_eax := of_nat fd\<rparr>, s1) \<and>
    sys_lseek (r\<lparr>r_ebx := of_nat fd, r_ecx := a - 1, r_edx := 0\<rparr>) s1 = Some (r2, s2) \<and>
    sys_set_outfd (r\<lparr>r_ebx := of_nat fd\<rparr>) s2 = Some (r3, s3) \<and>
    redirect s3 = Some (of_nat fd) \<and> fpos_of (of_nat fd) s3 < fsize_of (of_nat fd) s3 \<and>
    fbuf_of (of_nat fd) s3 + fpos_of (of_nat fd) s3 = a \<and> (\<forall>b. sys_gfx_putc (r\<lparr>r_ebx := b\<rparr>) s3 = None)"
proof -
  let ?c = "current_task (kern s)" and ?t0 = "ct s"
  have fd: "fd < 16" using free_fds_iff [of fd s] assms(2) by (simp add: MAX_FD_def)
  have u: "unat (of_nat fd :: u32) = fd" using fd by (simp add: unat_of_nat)
  have "sint (word_of_int (int fd) :: u32) = signed_take_bit 31 (int fd)" by (simp only: sint_sbintrunc') simp
  also have "\<dots> = int fd" using fd by (intro signed_take_bit_int_eq_self) simp_all
  finally have si: "sint (of_nat fd :: u32) = int fd" by simp
  have l: "length (fd_buf ?t0) = 16" "length (fd_size ?t0) = 16" "length (fd_pos ?t0) = 16" "length (fd_type ?t0) = 16"
    using assms(3-6) by (simp_all add: MAX_FD_def)
  define s1 where "s1 = updc (set_fd fd 1 (- 1) 0 6) s"
  define s2 where "s2 = set_pos (of_nat fd) (a - 1) s1"
  define s3 where "s3 = updc (\<lambda>t. t\<lparr>output_fd := int fd\<rparr>) s2"
  have t1: "current_task (kern s1) = ?c" "tsk (kern s1) ?c = set_fd fd 1 (- 1) 0 6 ?t0" by (simp_all add: s1_def upd_def)
  have t2: "current_task (kern s2) = ?c" "tsk (kern s2) ?c = (tsk (kern s1) ?c)\<lparr>fd_pos := (fd_pos (tsk (kern s1) ?c))[fd := a - 1]\<rparr>"
    using t1 u by (simp_all add: s2_def set_pos_def upd_def)
  have t3: "current_task (kern s3) = ?c" "tsk (kern s3) ?c = (tsk (kern s2) ?c)\<lparr>output_fd := int fd\<rparr>" using t2 by (simp_all add: s3_def upd_def)
  have f3: "fbuf_of (of_nat fd) s3 = 1" "fsize_of (of_nat fd) s3 = - 1" "fpos_of (of_nat fd) s3 = a - 1" "ftype_of (of_nat fd) s3 = 6"
    using l fd u by (simp_all add: t3 t2 t1 set_fd_def)
  have "bytes_of ''/dev/zero'' \<noteq> bytes_of ''/dev/null''" by (simp add: bytes_of_def)
  then have o: "open_named E (bytes_of ''/dev/zero'') r s = Some (r\<lparr>r_eax := of_nat fd\<rparr>, s1)"
    using assms(2) by (simp add: open_named_def ret_def s1_def)
  have live: "fd_live (of_nat fd) s1" using l fd u by (simp add: fd_live_def t1 set_fd_def MAX_FD_def)
  have sk: "sys_lseek (r\<lparr>r_ebx := of_nat fd, r_ecx := a - 1, r_edx := 0\<rparr>) s1 = Some (r\<lparr>r_ebx := of_nat fd, r_ecx := a - 1, r_edx := 0, r_eax := a - 1\<rparr>, s2)"
    using l fd u live by (simp add: sys_lseek_def Let_def ret_def t1 set_fd_def s2_def word_order.extremum)
  have so: "sys_set_outfd (r\<lparr>r_ebx := of_nat fd\<rparr>) s2 = Some (r\<lparr>r_ebx := of_nat fd, r_eax := of_int (output_fd (ct s2))\<rparr>, s3)"
    using assms(1) l fd u si by (simp add: sys_set_outfd_def Let_def ret_def t2 t1 set_fd_def s3_def MAX_FD_def)
  have rd: "redirect s3 = Some (of_nat fd)"
    using assms(1) f3 fd u by (simp add: redirect_def Let_def t3 MAX_FD_def) 
  have lt: "a - 1 < - 1" using assms(7) by (metis diff_0 diff_add_cancel word_order.not_eq_extremum)
  then have "unat (a - 1) < unat (- 1 :: u32)" by (simp only: word_less_nat_alt)
  then have tk: "take (unat (- 1 :: u32) - unat (a - 1)) [x] = [x]" for x :: u8 by simp
  have "sys_gfx_putc (r\<lparr>r_ebx := b\<rparr>) s3 = None" for b
    using rd f3 tk by (simp add: sys_gfx_putc_def put_text_def obj_put_def Let_def)
  then show ?thesis using o sk so rd f3 lt by auto
qed

theorem device_write_anywhere_witness:
  "\<exists>s1 s2 s3 r2 r3. open_named demo_env (bytes_of ''/dev/zero'') demo_regs demo_sys = Some (demo_regs\<lparr>r_eax := 1\<rparr>, s1) \<and>
    sys_lseek (demo_regs\<lparr>r_ebx := 1, r_ecx := 0x01001013, r_edx := 0\<rparr>) s1 = Some (r2, s2) \<and>
    sys_set_outfd (demo_regs\<lparr>r_ebx := 1\<rparr>) s2 = Some (r3, s3) \<and> redirect s3 = Some 1 \<and> fbuf_of 1 s3 + fpos_of 1 s3 = current_task demo_ksys"
proof -
  have f: "free_fds demo_sys = 1 # [2..<16]" by (simp add: free_fds_def MAX_FD_def upt_rec)
  have l: "length (fd_size (ct demo_sys)) = MAX_FD" "length (fd_pos (ct demo_sys)) = MAX_FD"
    by (simp_all add: demo_sys_def demo_ksys_def demo_kst_simps MAX_FD_def)
  show ?thesis
    using device_write_anywhere [OF _ f _ l(1) l(2), where a = "0x01001014" and E = demo_env and r = demo_regs] by (auto simp: MAX_FD_def)
qed

end
