(* ===== verification/XE_Proc.thy ===== *)
theory XE_Proc
  imports XE_Fd
begin

text \<open>
  Process system calls of \<^verbatim>\<open>src/src/kernel/syscall.cpp\<close> (\<open>sbrk\<close>, \<open>fork\<close>, \<open>exec\<close>, \<open>exec_fd\<close>) and the
  delivery of signals of \<^verbatim>\<open>src/src/kernel/task.cpp\<close>. Page directories are edited in physical memory
  through the operations of \<^verbatim>\<open>XE_Paging\<close>.
\<close>

unbundle bit_operations_syntax

section \<open>Address spaces\<close>

definition PT_FLAGS :: u32 where "PT_FLAGS = PAGE_PRESENT OR PAGE_RW OR PAGE_USER"

definition k_alloc_page :: "kst \<Rightarrow> u32 \<times> kst" where
  "k_alloc_page k = (case mm_alloc_page (pmm (ph k)) of (a, m) \<Rightarrow> (a, k\<lparr>ph := (ph k)\<lparr>pmm := m\<rparr>\<rparr>))"

text \<open>\<open>pd->map_page(...); pd->track_owned(...)\<close>\<close>

definition map_owned :: "u32 \<Rightarrow> u32 \<Rightarrow> u32 \<Rightarrow> u32 \<Rightarrow> kst \<Rightarrow> kst" where
  "map_owned pd va pa flags k =
     k\<lparr>ph := map_page va pa flags (pgr k pd) (ph k), pgr := (pgr k)(pd := track_owned pa (pgr k pd))\<rparr>"

text \<open>\<open>new PagingManager()\<close>: the constructor runs on whatever \<open>kmalloc\<close> returns; at address 0 that is
  undefined.\<close>

definition PAGING_SIZE :: u32 where "PAGING_SIZE = 2060"

definition new_paging :: "kst \<Rightarrow> (u32 \<times> kst) option" where
  "new_paging k =
     (case k_malloc PAGING_SIZE k of None \<Rightarrow> None
      | Some (a, k1) \<Rightarrow>
          if a = 0 then None
          else case pager_new (if kernel_paging k1 = 0 then None else Some (pgr k1 (kernel_paging k1))) (ph k1) of
                 (pg, p) \<Rightarrow> Some (a, k1\<lparr>pgr := (pgr k1)(a := pg), ph := p\<rparr>))"

text \<open>The loop of \<open>sys_sbrk\<close> and those of \<open>exec\<close>: a fresh page for each address.\<close>

fun map_fresh :: "u32 \<Rightarrow> u32 list \<Rightarrow> kst \<Rightarrow> (bool \<times> nat) \<times> kst" where
  "map_fresh pd [] k = ((True, 0), k)"
| "map_fresh pd (va # vas) k =
     (case k_alloc_page k of (pa, k1) \<Rightarrow>
        if pa = 0 then ((False, 0), k1)
        else case map_fresh pd vas (map_owned pd va pa PT_FLAGS k1) of ((ok, n), k2) \<Rightarrow> ((ok, Suc n), k2))"

definition pages_from :: "u32 \<Rightarrow> nat \<Rightarrow> u32 list" where
  "pages_from va n = map (\<lambda>i. va + of_nat i * 0x1000) [0..<n]"

section \<open>The heap break\<close>

definition sbrk_pd :: "'d sys \<Rightarrow> u32" where
  "sbrk_pd s = (if current_task (kern s) \<noteq> 0 \<and> paging (ct s) \<noteq> 0 then paging (ct s) else g_user_pd s)"

definition sys_sbrk :: "registers_t \<Rightarrow> 'd sys \<Rightarrow> 'd reply" where
  "sys_sbrk r s =
     (let bytes = r_ebx r in
      if bytes = 0 then ret (user_break s) r s
      else if sbrk_pd s = 0 then fail r s
      else case map_fresh (sbrk_pd s) (pages_from (user_break s) (unat ((bytes + 0xFFF) div 0x1000))) (kern s) of
             ((ok, n), k) \<Rightarrow>
               let s1 = s\<lparr>kern := k, user_break := user_break s + of_nat n * 0x1000\<rparr>
               in if ok then ret (user_break s) r s1 else fail r s1)"

section \<open>Fork\<close>

definition copy_page :: "u32 \<Rightarrow> u32 \<Rightarrow> mem \<Rightarrow> mem" where
  "copy_page src dst m = fold (\<lambda>i m. st32 m (dst + 4 * of_nat i) (ld32 m (src + 4 * of_nat i))) [0..<1024] m"

fun fork_ptes :: "u32 \<Rightarrow> u32 \<Rightarrow> u32 \<Rightarrow> u32 list \<Rightarrow> kst \<Rightarrow> bool \<times> kst" where
  "fork_ptes child pde src_pt [] k = (True, k)"
| "fork_ptes child pde src_pt (pte # ptes) k =
     (let e = ld32 (ram (ph k)) (slot src_pt pte) in
      if e AND 1 = 0 then fork_ptes child pde src_pt ptes k
      else case k_alloc_page k of (new_phys, k1) \<Rightarrow>
        if new_phys = 0 then (False, k1)
        else fork_ptes child pde src_pt ptes
               (map_owned child (push_bit 22 pde OR push_bit 12 pte) new_phys (e AND 0xFFF)
                 (set_ram (copy_page (e AND 0xFFFFF000) new_phys (ram (ph k1))) k1)))"

fun fork_pdes :: "u32 \<Rightarrow> u32 \<Rightarrow> u32 list \<Rightarrow> kst \<Rightarrow> bool \<times> kst" where
  "fork_pdes pa child [] k = (True, k)"
| "fork_pdes pa child (pde # pdes) k =
     (let e = get_pde (ram (ph k)) (pgr k pa) pde in
      if e AND 1 = 0 then fork_pdes pa child pdes k
      else if e AND 0x80 \<noteq> 0 then
        fork_pdes pa child pdes (if e AND 4 \<noteq> 0 then set_ram (set_pde (ram (ph k)) (pgr k child) pde e) k else k)
      else case fork_ptes child pde (e AND 0xFFFFF000) entries k of (ok, k1) \<Rightarrow>
        if ok then fork_pdes pa child pdes k1 else (False, k1))"

text \<open>The child's struct but for its descriptors.\<close>

definition fork_struct :: "registers_t \<Rightarrow> u32 \<Rightarrow> u32 \<Rightarrow> u32 \<Rightarrow> u32 \<Rightarrow> task_struct \<Rightarrow> task_struct \<Rightarrow> task_struct" where
  "fork_struct r p kstack child_pd c par junk =
     junk\<lparr>pid := p, t_ecx := r_ecx r, t_edx := r_edx r, t_ebx := r_ebx r, t_ebp := r_ebp r, t_esi := r_esi r, t_edi := r_edi r,
       t_eax := 0, t_eip := r_eip r, t_cs := r_cs r, t_eflags := r_eflags r, t_esp := r_esp r,
       user_esp := (if r_cs r AND 3 \<noteq> 0 then r_user_esp r else user_esp par), user_ss := 0x23, state := TASK_READY,
       kernel_stack := kstack, entry := 0, arg := 0, paging := child_pd, user_stack := user_stack par, parent := c, exit_code := 0,
       children := [], priority := priority par, dynamic_boost := 0, boost_expire := 0, wake_tick := 0, quantum := TASK_QUANTUM,
       task_struct.caps := task_struct.caps par, output_fd := - 1, pending_signals := 0, blocked_signals := 0,
       sig_handlers := replicate 32 0, sig_saved_eip := 0, sig_saved_esp := 0\<rparr>"

text \<open>Descriptor \<open>i\<close> of the child: a copy of a file's buffer, another reference to a pipe. The first
  component is False when the heap is exhausted.\<close>

definition fork_fd :: "'d env \<Rightarrow> u32 \<Rightarrow> nat \<Rightarrow> 'd sys \<Rightarrow> (bool \<times> 'd sys) option" where
  "fork_fd E child i s =
     (let b = fd_buf (ct s) ! i; sz = fd_size (ct s) ! i; ty = fd_type (ct s) ! i;
          s1 = onk (upd child (set_fd i b sz (fd_pos (ct s) ! i) ty)) s
      in if ty = 1 \<and> b \<noteq> 0 then
           (case copy_file_buf E b sz s1 of None \<Rightarrow> None
            | Some (nb, s2) \<Rightarrow>
                if nb = 0 then Some (False, s2)
                else Some (True, onk (upd child (\<lambda>t. t\<lparr>fd_buf := (fd_buf t)[i := nb]\<rparr>)) s2))
         else if (ty = 2 \<or> ty = 3) \<and> b \<noteq> 0 then
           (let p = pipes (kern s1) b in Some (True, set_pipe b (p\<lparr>p_refs := p_refs p + 1\<rparr>) s1))
         else Some (True, s1))"

definition unfork_fd :: "u32 \<Rightarrow> nat \<Rightarrow> 'd sys \<Rightarrow> 'd sys" where
  "unfork_fd child j s =
     (let b = fd_buf (tsk (kern s) child) ! j; ty = fd_type (tsk (kern s) child) ! j in
      if ty = 1 \<and> b \<noteq> 0 then onk (k_free b) s
      else if (ty = 2 \<or> ty = 3) \<and> b \<noteq> 0 then
        (let p = pipes (kern s) b in set_pipe b (p\<lparr>p_refs := p_refs p - 1\<rparr>) s)
      else s)"

fun fork_fds :: "'d env \<Rightarrow> u32 \<Rightarrow> nat list \<Rightarrow> 'd sys \<Rightarrow> (bool \<times> 'd sys) option" where
  "fork_fds E child [] s = Some (True, s)"
| "fork_fds E child (i # is') s =
     (case fork_fd E child i s of None \<Rightarrow> None
      | Some (ok, s1) \<Rightarrow>
          if ok then fork_fds E child is' s1 else Some (False, fold (unfork_fd child) [0..<i] s1))"

definition frame_words :: "registers_t \<Rightarrow> u32 list" where
  "frame_words r = [r_edi r, r_esi r, r_ebp r, r_esp r, r_ebx r, r_edx r, r_ecx r, r_eax r, r_vec r, r_err_code r, r_eip r, r_cs r,
     r_eflags r, r_user_esp r, r_user_ss r]"

definition store_words :: "u32 \<Rightarrow> u32 list \<Rightarrow> mem \<Rightarrow> mem" where
  "store_words a ws m = fold (\<lambda>i m. st32 m (a + 4 * of_nat i) (ws ! i)) [0..<length ws] m"

text \<open>The interrupt frame on the child's kernel stack.\<close>

definition fork_frame :: "registers_t \<Rightarrow> u32 \<Rightarrow> task_struct \<Rightarrow> mem \<Rightarrow> mem" where
  "fork_frame r cr t m =
     (let m1 = store_words cr (take (if r_cs r AND 3 \<noteq> 0 then 15 else 13) (frame_words r)) m
      in st32 (st32 (st32 m1 (cr + 28) 0) (cr + 52) (user_esp t)) (cr + 56) (user_ss t))"

definition fork_link :: "'d env \<Rightarrow> registers_t \<Rightarrow> u32 \<Rightarrow> u32 \<Rightarrow> 'd sys \<Rightarrow> 'd reply" where
  "fork_link E r child kstack s =
     (let cr = kstack + KSTACK_SIZE - 60;
          s1 = onk (\<lambda>k. all_add_tail child (rq_add_tail child (upd (current_task k) (\<lambda>t. t\<lparr>children := children t @ [child]\<rparr>) k))) s;
          s2 = onk (\<lambda>k. upd child (\<lambda>t. t\<lparr>t_esp := cr + 32\<rparr>) (set_ram (fork_frame r cr (tsk k child) (ram (ph k))) k)) s1;
          t = tsk (kern s2) child;
          s3 = say E (bytes_of ''fork: child pid '' @ put_hex_u32 (pid t) @ bytes_of '' eip=0x'' @ put_hex_u32 (t_eip t) @
                 bytes_of '' cs=0x'' @ put_hex_u32 (t_cs t) @ bytes_of '' esp=0x'' @ put_hex_u32 (t_esp t) @
                 bytes_of '' frame=0x'' @ put_hex_u32 cr @ [10]) s2
      in ret (pid t) r s3)"

definition fork_task :: "'d env \<Rightarrow> registers_t \<Rightarrow> u32 \<Rightarrow> 'd sys \<Rightarrow> 'd reply" where
  "fork_task E r child_pd s =
     (case k_malloc TASK_SIZE (kern s) of None \<Rightarrow> None
      | Some (child, k1) \<Rightarrow>
          (case k_malloc KSTACK_SIZE k1 of None \<Rightarrow> None
           | Some (kstack, k2) \<Rightarrow>
               if child = 0 \<or> kstack = 0 then
                 fail r (s\<lparr>kern := delete_paging child_pd (k_free kstack (k_free child k2))\<rparr>)
               else
                 let c = current_task k2;
                     k3 = upd child (fork_struct r (next_pid k2) kstack child_pd c (tsk k2 c))
                            (k2\<lparr>next_pid := next_pid k2 + 1, freed := freed k2 - {child}\<rparr>)
                 in (case fork_fds E child [0..<MAX_FD] (s\<lparr>kern := k3\<rparr>) of None \<Rightarrow> None
                     | Some (ok, s4) \<Rightarrow>
                         if ok then fork_link E r child kstack s4
                         else fail r (onk (\<lambda>k. delete_paging child_pd (k_free kstack (k_free child k))) s4))))"

text \<open>The refusal in ring-0 mode, a message in UTF-8.\<close>

definition ring0_msg :: cstr where
  "ring0_msg = bytes_of ''fork: ring0 '' @
     [0xE5, 0x85, 0xBC, 0xE5, 0xAE, 0xB9,
      0xE6, 0xA8, 0xA1, 0xE5, 0xBC, 0x8F, 0xE4, 0xB8, 0x8B, 0xE4, 0xB8, 0x8D, 0xE6, 0x94, 0xAF, 0xE6, 0x8C, 0x81] @ bytes_of '' ('' @
     [0xE8, 0xBF, 0x94, 0xE5, 0x9B, 0x9E] @ bytes_of '' -1)'' @ [10]"

definition sys_fork :: "'d env \<Rightarrow> registers_t \<Rightarrow> 'd sys \<Rightarrow> 'd reply" where
  "sys_fork E r s =
     (if g_ring0_mode s then fail r (say E ring0_msg s)
      else if current_task (kern s) = 0 \<or> pid (ct s) = 0 then fail r s
      else let parent_pd = paging (ct s) in
        if parent_pd = 0 then fail r s
        else case new_paging (kern s) of None \<Rightarrow> None
             | Some (child_pd, k1) \<Rightarrow>
                 (case fork_pdes parent_pd child_pd (drop 1 entries) k1 of (ok, k2) \<Rightarrow>
                    if ok then fork_task E r child_pd (s\<lparr>kern := k2\<rparr>)
                    else fail r (s\<lparr>kern := delete_paging child_pd k2\<rparr>)))"

section \<open>Exec\<close>

abbreviation (input) load_addr :: u32 where "load_addr \<equiv> 0x400000"
abbreviation (input) stack_top :: u32 where "stack_top \<equiv> 0x440000"
abbreviation (input) stack_base :: u32 where "stack_base \<equiv> 0x430000"

definition exec_map_size :: "u32 \<Rightarrow> u32" where
  "exec_map_size sz = (if sz < 0x1000 then 0x1000 else (sz + 0xFFF) AND NOT 0xFFF) + 0x10000"

text \<open>The contents of the page at offset \<open>off\<close>: the program's bytes, then zeros. \<open>None\<close>: the program is longer
  than its buffer.\<close>

definition exec_page :: "u8 list \<Rightarrow> u32 \<Rightarrow> u32 \<Rightarrow> u8 list option" where
  "exec_page data sz off =
     (let n = (if off < sz then (if sz - off > 0x1000 then 0x1000 else sz - off) else 0)
      in if unat off + unat n \<le> length data \<or> n = 0
         then Some (take (unat n) (drop (unat off) data) @ replicate (4096 - unat n) 0) else None)"

fun exec_fill :: "u32 \<Rightarrow> u8 list \<Rightarrow> u32 \<Rightarrow> u32 list \<Rightarrow> kst \<Rightarrow> kst option" where
  "exec_fill pd data sz [] k = Some k"
| "exec_fill pd data sz (off # offs) k =
     (case exec_page data sz off of None \<Rightarrow> None
      | Some page \<Rightarrow>
          exec_fill pd data sz offs
            (set_ram (wr_bytes (ram (ph k)) (translate_user (ram (ph k)) (pgr k pd) (load_addr + off)) page) k))"

definition clear_pages :: "u32 \<Rightarrow> u32 list \<Rightarrow> kst \<Rightarrow> kst" where
  "clear_pages pd vas k =
     fold (\<lambda>va k. set_ram (wr_bytes (ram (ph k)) (translate_user (ram (ph k)) (pgr k pd) va) (replicate 4096 0)) k) vas k"

text \<open>Steps 1 and 2: build the address space and fill it; \<open>Some (False, _)\<close> leaves the caller's alone.\<close>

definition exec_build :: "u32 \<Rightarrow> u8 list \<Rightarrow> u32 \<Rightarrow> kst \<Rightarrow> (bool \<times> kst) option" where
  "exec_build np data sz k0 =
     (let map_sz = exec_map_size sz; n = unat (map_sz div 0x1000);
          codes = pages_from load_addr n; stacks = pages_from stack_base 16
      in case map_fresh np codes k0 of ((ok1, _), k1) \<Rightarrow>
           if \<not> ok1 then Some (False, delete_paging np k1)
           else case map_fresh np stacks k1 of ((ok2, _), k2) \<Rightarrow>
             if \<not> ok2 then Some (False, delete_paging np k2)
             else
               let fbaddr = ld32 (ram (ph k2)) 0x500;
                   k3 = (if fbaddr \<ge> 0x100000 then set_ram (map_user_4mb fbaddr fbaddr (pgr k2 np) (ram (ph k2))) k2 else k2);
                   tr = translate_user (ram (ph k3)) (pgr k3 np)
               in if tr load_addr = 0 \<or> tr (load_addr + map_sz - 4) = 0 \<or> tr (stack_top - 4) = 0
                  then Some (False, delete_paging np k3)
                  else map_option (\<lambda>k4. (True, clear_pages np stacks k4)) (exec_fill np data sz (pages_from 0 n) k3))"

text \<open>Step 3: the switch, the frame for the scheduler and the one of this interrupt.\<close>

definition exec_switch :: "u32 \<Rightarrow> kst \<Rightarrow> kst" where
  "exec_switch np k =
     (let c = current_task k; old_pd = paging (tsk k c);
          k1 = (if old_pd \<noteq> 0 \<and> old_pd \<noteq> kernel_paging k then delete_paging old_pd k else k);
          k2 = load_paging np (upd c (\<lambda>t. t\<lparr>paging := np\<rparr>) k1)
      in case push_pusha (push_all [0x23, stack_top, 0x202, 0x2B, load_addr] (kernel_stack (tsk k2 c) + KSTACK_SIZE, k2)) of
           (sp, k3) \<Rightarrow>
             upd c (\<lambda>t. t\<lparr>t_eip := load_addr, t_esp := sp, t_eflags := 0x202, user_stack := stack_top, user_esp := stack_top,
               user_ss := 0x23\<rparr>) k3)"

definition exec_regs :: "registers_t \<Rightarrow> registers_t" where
  "exec_regs r = r\<lparr>r_eip := load_addr, r_cs := 0x2B, r_eflags := 0x202, r_user_esp := stack_top, r_user_ss := 0x23, r_eax := 0,
     r_ecx := 0, r_edx := 0, r_ebx := 0, r_ebp := 0, r_esi := 0, r_edi := 0\<rparr>"

definition exec_replace_address_space :: "'d env \<Rightarrow> registers_t \<Rightarrow> u8 list \<Rightarrow> u32 \<Rightarrow> 'd sys \<Rightarrow> ((bool \<times> registers_t) \<times> 'd sys) option" where
  "exec_replace_address_space E r data sz s =
     (case new_paging (kern s) of None \<Rightarrow> None
      | Some (np, k0) \<Rightarrow>
          if exec_map_size sz > stack_base - load_addr then
            Some ((False, r), (say E (bytes_of ''exec: program too large'' @ [10]) s)\<lparr>kern := delete_paging np k0\<rparr>)
          else case exec_build np data sz k0 of None \<Rightarrow> None
               | Some (ok, k1) \<Rightarrow>
                   if \<not> ok then Some ((False, r), s\<lparr>kern := k1\<rparr>)
                   else Some ((True, exec_regs r),
                     say E (bytes_of ''exec: loaded '' @ put_hex_u32 sz @ bytes_of ''B at 0x400000'' @ [10]) (s\<lparr>kern := exec_switch np k1\<rparr>)))"

definition sys_exec :: "'d env \<Rightarrow> registers_t \<Rightarrow> 'd sys \<Rightarrow> 'd reply" where
  "sys_exec E r s = with_name E (r_ebx r) (\<lambda>path r s.
     case new_buf E 65536 s of None \<Rightarrow> None
     | Some (a, s1) \<Rightarrow>
         if a = 0 then fail r s1
         else case vfs_open (fs_ops E) (mtab s1) (Some path) (kbuf (kern s1) a) 65536 s1 of None \<Rightarrow> None
              | Some ((sz, bs), s2) \<Rightarrow>
                  let s3 = set_buf_at a bs s2 in
                  if sz \<le> 0 then fail r (onk (k_free a) s3)
                  else case exec_replace_address_space E r bs (of_int sz) s3 of None \<Rightarrow> None
                       | Some ((ok, r'), s4) \<Rightarrow>
                           let s5 = onk (k_free a) s4 in if ok then Some (r', s5) else fail r s5) r s"

definition sys_exec_fd :: "'d env \<Rightarrow> registers_t \<Rightarrow> 'd sys \<Rightarrow> 'd reply" where
  "sys_exec_fd E r s =
     (let fd = r_ebx r in
      if \<not> fd_live fd s then fail r s
      else if ftype_of fd s \<noteq> 1 then fail r s
      else let sz = fsize_of fd s in
        if sz = 0 \<or> sz > 65536 then fail r (say E (bytes_of ''exec_fd: bad size'' @ [10]) s)
        else case exec_replace_address_space E r (kbuf (kern s) (fbuf_of fd s)) sz s of None \<Rightarrow> None
             | Some ((ok, r'), s1) \<Rightarrow>
                 if ok then Some (r', s1) else fail r (say E (bytes_of ''exec_fd: map failed'' @ [10]) s1))"

section \<open>Signals\<close>

text \<open>How control leaves the kernel: back into the frame, into the frame of another task built on the
  reaper's stack, into the boot loop, or not at all.\<close>

datatype 'd outcome = Ret registers_t "'d sys" | Jump registers_t "'d sys" | Boot "'d sys" | Panic "'d sys"

definition lift_resume :: "'d sys \<Rightarrow> resume \<Rightarrow> 'd outcome" where
  "lift_resume s x =
     (case x of Returns r k \<Rightarrow> Ret r (s\<lparr>kern := k\<rparr>) | Iret r k \<Rightarrow> Jump r (s\<lparr>kern := k\<rparr>) | BootLoop k \<Rightarrow> Boot (s\<lparr>kern := k\<rparr>))"

text \<open>The log of \<open>task_do_exit\<close> when it wakes the parent; the rest of that function is \<open>XE_Task.task_do_exit\<close>.\<close>

definition exit_log :: "'d env \<Rightarrow> u32 \<Rightarrow> 'd sys \<Rightarrow> 'd sys" where
  "exit_log E code s =
     (let k = exit_mark code (kern s); p = parent (ct s); t = tsk k p in
      if p \<noteq> 0 \<and> pid t \<noteq> 0 \<and> state t = TASK_BLOCKED
      then say E (bytes_of ''exit-wake: parent pid '' @ put_hex_u32 (pid t) @ bytes_of '' uesp='' @ put_hex_u32 (user_esp t) @
             bytes_of '' ebp='' @ put_hex_u32 (t_ebp t) @ [10]) s
      else s)"

definition do_exit :: "'d env \<Rightarrow> registers_t \<Rightarrow> u32 \<Rightarrow> 'd sys \<Rightarrow> 'd outcome option" where
  "do_exit E r code s =
     (if current_task (kern s) = 0 then Some (Ret r s)
      else let s1 = exit_log E code s in map_option (lift_resume s1) (task_do_exit r code (kern s1)))"

definition digit :: "nat \<Rightarrow> u8" where "digit n = of_nat (48 + n mod 10)"

definition two_digits :: "nat \<Rightarrow> cstr" where "two_digits n = [digit (n div 10), digit n]"

definition fatal_sig :: "nat \<Rightarrow> bool" where
  "fatal_sig sig = (sig = SIGKILL \<or> sig = SIGSEGV \<or> sig = SIGINT \<or> sig = SIGTERM)"

definition sig_bit :: "nat \<Rightarrow> u32" where "sig_bit n = push_bit n 1"

fun sig_loop :: "'d env \<Rightarrow> nat list \<Rightarrow> registers_t \<Rightarrow> 'd sys \<Rightarrow> 'd outcome option" where
  "sig_loop E [] r s = Some (Ret r s)"
| "sig_loop E (sig # sigs) r s =
     (if pending_signals (ct s) AND sig_bit sig = 0 \<or> blocked_signals (ct s) AND sig_bit sig \<noteq> 0
      then sig_loop E sigs r s
      else
        let c = current_task (kern s); p2 = two_digits (unat (pid (ct s)));
            s1 = updc (\<lambda>t. t\<lparr>pending_signals := pending_signals t AND NOT (sig_bit sig)\<rparr>) s;
            handler = sig_handlers (ct s1) ! sig
        in if handler = SIG_DFL \<and> fatal_sig sig then
             do_exit E r (of_nat sig) (syscall_cleanup_fds c
               (say E (bytes_of ''signal: killing pid '' @ p2 @ bytes_of '' with signal '' @ two_digits sig @ [10]) s1))
           else if handler = SIG_IGN \<or> handler = SIG_DFL then sig_loop E sigs r s1
           else if paging (ct s1) = 0 \<or> translate_user (ram (ph (kern s1))) (pgr (kern s1) (paging (ct s1))) handler = 0 then
             sig_loop E sigs r (say E (bytes_of ''sig: bad handler '' @ [digit sig] @ bytes_of '' pid='' @ p2 @ bytes_of '' ignored'' @ [10]) s1)
           else if r_cs r AND 3 = 0 then sig_loop E sigs r s1
           else
             let s2 = say E (bytes_of ''sig: '' @ [digit sig] @ bytes_of '' -> pid '' @ p2 @ [10]) s1;
                 s3 = updc (\<lambda>t. t\<lparr>sig_saved_eip := r_eip r, sig_saved_esp := r_user_esp r\<rparr>) s2
             in case to_user (r_user_esp r - 8) (words_out [of_nat sig, 0]) 8 s3 of None \<Rightarrow> None
                | Some (ok, s4) \<Rightarrow>
                    if ok then Some (Ret (r\<lparr>r_eip := handler, r_user_esp := r_user_esp r - 8\<rparr>) s4) else sig_loop E sigs r s4)"

definition task_check_signals :: "'d env \<Rightarrow> registers_t \<Rightarrow> 'd sys \<Rightarrow> 'd outcome option" where
  "task_check_signals E r s =
     (if current_task (kern s) = 0 \<or> pid (ct s) = 0 then Some (Ret r s)
      else if pending_signals (ct s) = 0 then Some (Ret r s)
      else sig_loop E [1..<32] r s)"

end
