(* ===== verification/XE_Syscall.thy ===== *)
theory XE_Syscall
  imports XE_Fdinv XE_Proc
begin

text \<open>
  The remaining system calls and the dispatcher of \<^verbatim>\<open>src/src/kernel/syscall.cpp\<close>.
\<close>

unbundle bit_operations_syntax

section \<open>Console, clock, screen information\<close>

definition sys_read :: "'d env \<Rightarrow> registers_t \<Rightarrow> 'd sys \<Rightarrow> 'd reply" where
  "sys_read E r s =
     (let mx = sint (r_ecx r) in
      if mx \<le> 0 \<or> 4096 < mx then ret 0 r s
      else case on_hid (kb_readline (eports E) (gx_w (scr s)) (gx_h (scr s)) gfx_putc (mx - 1)) s of None \<Rightarrow> None
           | Some (line, s1) \<Rightarrow>
               let b = (put_at 0 (line @ [0]) (g_ustr s1))[nat (mx - 1) := 0]; n = length (cstr_of b);
                   s2 = say E (bytes_of ''[READ] \"'' @ take n b @ bytes_of ''\" len='' @ put_hex_u32 (of_nat n) @ [10]) (s1\<lparr>g_ustr := b\<rparr>)
               in reply_bytes (r_ebx r) b (of_nat n + 1) (of_nat n) r s2)"

definition sys_getcwd :: "registers_t \<Rightarrow> 'd sys \<Rightarrow> 'd reply" where
  "sys_getcwd r s =
     (let mx = sint (r_ecx r) in
      if mx \<le> 0 \<or> 256 < mx then fail r s
      else let b = put_at 0 (fat_cwd_str mx (fatv s)) (g_ustr s); n = length (cstr_of b) in
        if 0 \<in> set b then reply_bytes (r_ebx r) b (of_nat n + 1) (of_nat n) r (s\<lparr>g_ustr := b\<rparr>) else None)"

definition bcd :: "u8 \<Rightarrow> u8" where
  "bcd v = (drop_bit 4 v AND 0x0F) * 10 + (v AND 0x0F)"

definition rtc_read :: "'d ports \<Rightarrow> u8 \<Rightarrow> 'd \<Rightarrow> u8 \<times> 'd" where
  "rtc_read P reg d = (case inb P 0x71 (outb P 0x70 reg d) of (v, d1) \<Rightarrow> (bcd v, d1))"

definition two_dec :: "u8 \<Rightarrow> u8 list" where
  "two_dec v = [48 + v div 10, 48 + v mod 10]"

definition sys_time :: "'d env \<Rightarrow> registers_t \<Rightarrow> 'd sys \<Rightarrow> 'd reply" where
  "sys_time E r s =
     (case rtc_read (eports E) 4 (hwv s) of (h, d1) \<Rightarrow>
      case rtc_read (eports E) 2 d1 of (m, d2) \<Rightarrow>
      case rtc_read (eports E) 0 d2 of (sec, d3) \<Rightarrow>
        reply_bytes (r_ebx r) (two_dec h @ [0x3A] @ two_dec m @ [0x3A] @ two_dec sec @ [0]) 9 8 r (set_hw d3 s))"

definition sys_getfb :: "registers_t \<Rightarrow> 'd sys \<Rightarrow> 'd reply" where
  "sys_getfb r s =
     (let g = scr s in
      reply_bytes (r_ebx r) (words_out [gx_fb g, of_int (gx_w g), of_int (gx_h g), of_int (gx_pitch g), of_int (gx_bpp g)]) 20 5 r s)"

definition sys_mouse :: "registers_t \<Rightarrow> 'd sys \<Rightarrow> 'd reply" where
  "sys_mouse r s =
     (case mouse_get (mou (hidv s)) of (x, y, btn) \<Rightarrow> reply_bytes (r_ebx r) (words_out [of_int x, of_int y, btn]) 12 3 r s)"

definition sys_cls :: "registers_t \<Rightarrow> 'd sys \<Rightarrow> 'd reply" where
  "sys_cls r s = ret 0 r (on_scr (gfx_clear (ucast (r_ebx r))) s)"

definition sys_gfx_set_fg :: "registers_t \<Rightarrow> 'd sys \<Rightarrow> 'd reply" where
  "sys_gfx_set_fg r s = ret 0 r (on_scr (set_fg (ucast (r_ebx r))) s)"

section \<open>Files\<close>

definition sys_stat :: "'d env \<Rightarrow> registers_t \<Rightarrow> 'd sys \<Rightarrow> 'd reply" where
  "sys_stat E r s = with_name E (r_ebx r) (\<lambda>path r s.
     if \<not> has_cap CAP_FILE_READ s then fail r s
     else case vfs_stat (vfsE E) (mtab s) (Some path) (uint (estack E 0)) s of None \<Rightarrow> None
          | Some ((sz, isd), s1) \<Rightarrow>
              if sz < 0 then fail r s1
              else reply_bytes (r_ecx r) (words_out [of_int sz, if isd \<noteq> 0 then 1 else 0, 0, 0]) 16 0 r s1) r s"

definition sys_fsync :: "'d env \<Rightarrow> registers_t \<Rightarrow> 'd sys \<Rightarrow> 'd reply" where
  "sys_fsync E r s =
     (let fd = r_ebx r in
      if \<not> fd_live fd s \<or> ftype_of fd s \<noteq> 1 then fail r s
      else with_name E (r_ecx r) (\<lambda>name r s.
        if \<not> has_cap CAP_FILE_WRITE s then fail r s
        else case vfs_write (vfsE E) (mtab s) (Some name) (kbuf (kern s) (fbuf_of fd s)) (fpos_of fd s) s of None \<Rightarrow> None
             | Some (v, s1) \<Rightarrow> reti v r s1) r s)"

text \<open>The calls that take one path and return what the filesystem returns.\<close>

definition path_call :: "'d env \<Rightarrow> (cstr \<Rightarrow> 'd sys \<Rightarrow> (int \<times> 'd sys) option) \<Rightarrow> registers_t \<Rightarrow> 'd sys \<Rightarrow> 'd reply" where
  "path_call E f r s = with_name E (r_ebx r) (\<lambda>name r s. case f name s of None \<Rightarrow> None | Some (v, s1) \<Rightarrow> reti v r s1) r s"

definition sys_fat_dir :: "'d env \<Rightarrow> registers_t \<Rightarrow> 'd sys \<Rightarrow> 'd reply" where
  "sys_fat_dir E r s = (case on_fat (fat_dir (eio E)) s of None \<Rightarrow> None | Some (_, s1) \<Rightarrow> ret 0 r s1)"

definition sys_fat_cd :: "'d env \<Rightarrow> registers_t \<Rightarrow> 'd sys \<Rightarrow> 'd reply" where
  "sys_fat_cd E = path_call E (\<lambda>name. on_fat (fat_cd (eio E) name))"

definition sys_fat_mkdir :: "'d env \<Rightarrow> registers_t \<Rightarrow> 'd sys \<Rightarrow> 'd reply" where
  "sys_fat_mkdir E = path_call E (\<lambda>name s. vfs_mkdir (vfsE E) (mtab s) (Some name) s)"

definition sys_fat_rmdir :: "'d env \<Rightarrow> registers_t \<Rightarrow> 'd sys \<Rightarrow> 'd reply" where
  "sys_fat_rmdir E = path_call E (\<lambda>name s. vfs_rmdir (vfsE E) (mtab s) (Some name) s)"

definition sys_fat_delete :: "'d env \<Rightarrow> registers_t \<Rightarrow> 'd sys \<Rightarrow> 'd reply" where
  "sys_fat_delete E = path_call E (\<lambda>name s. vfs_remove (vfsE E) (mtab s) (Some name) s)"

definition sys_vfs_dir :: "'d env \<Rightarrow> registers_t \<Rightarrow> 'd sys \<Rightarrow> 'd reply" where
  "sys_vfs_dir E = path_call E (\<lambda>name s. vfs_dir (vfsE E) (mtab s) (Some name) s)"

definition sys_fat_rename :: "'d env \<Rightarrow> registers_t \<Rightarrow> 'd sys \<Rightarrow> 'd reply" where
  "sys_fat_rename E r s = with_name E (r_ebx r) (\<lambda>old r s. with_name E (r_ecx r) (\<lambda>new r s.
     case vfs_rename (vfsE E) (mtab s) (Some old) (Some new) s of None \<Rightarrow> None | Some (v, s1) \<Rightarrow> reti v r s1) r s) r s"

definition sys_fat_write :: "'d env \<Rightarrow> registers_t \<Rightarrow> 'd sys \<Rightarrow> 'd reply" where
  "sys_fat_write E r s =
     (let size = r_edx r in
      if size > 4096 then fail r s
      else with_name E (r_ebx r) (\<lambda>name r s.
        case from_user (g_ubin s) (r_ecx r) size s of None \<Rightarrow> None
        | Some (ok, b) \<Rightarrow>
            let s1 = s\<lparr>g_ubin := b\<rparr> in
            if \<not> ok then fail r s1
            else case vfs_write (vfsE E) (mtab s1) (Some name) b size s1 of None \<Rightarrow> None | Some (v, s2) \<Rightarrow> reti v r s2) r s)"

text \<open>A directory entry as the user sees it; the bytes behind the name's end are not set.\<close>

definition entry_bytes :: "'d env \<Rightarrow> DirEntry \<Rightarrow> u8 list" where
  "entry_bytes E e = words_out [of_int (is_dir e), de_size e] @ take 32 (de_name e @ [0] @ map (estack E) [0..<32])"

definition sys_vfs_list :: "'d env \<Rightarrow> registers_t \<Rightarrow> 'd sys \<Rightarrow> 'd reply" where
  "sys_vfs_list E r s = with_name E (r_ebx r) (\<lambda>path r s.
     let mx = r_edx r in
     if mx = 0 \<or> mx > 64 then fail r s
     else case vfs_list_dir (vfsE E) (mtab s) (Some path) mx s of None \<Rightarrow> None
          | Some ((n, es), s1) \<Rightarrow>
              if n > 0 then reply_bytes (r_ecx r) (concat (map (entry_bytes E) es)) (of_int n * 40) (of_int n) r s1
              else reti n r s1) r s"

section \<open>The ram disk\<close>

definition sys_rd_create :: "'d env \<Rightarrow> registers_t \<Rightarrow> 'd sys \<Rightarrow> 'd reply" where
  "sys_rd_create E r s =
     (let size = r_edx r in
      if size > 4096 then fail r s
      else case str_arg E (RAMDISK_NAME_LEN + 4) (r_ebx r) s of None \<Rightarrow> None
           | Some (ok, name) \<Rightarrow>
               if \<not> ok then fail r s
               else case from_user (g_ubin s) (r_ecx r) size s of None \<Rightarrow> None
                    | Some (ok', b) \<Rightarrow>
                        let s1 = s\<lparr>g_ubin := b\<rparr> in
                        if \<not> ok' then fail r s1
                        else case sys_create E name b size s1 of None \<Rightarrow> None | Some (v, s2) \<Rightarrow> reti v r s2)"

definition sys_rd_read :: "'d env \<Rightarrow> registers_t \<Rightarrow> 'd sys \<Rightarrow> 'd reply" where
  "sys_rd_read E r s =
     (let mx = (if r_edx r > 4096 then 4096 else r_edx r) in
      case str_arg E (RAMDISK_NAME_LEN + 4) (r_ebx r) s of None \<Rightarrow> None
      | Some (ok, name) \<Rightarrow>
          if \<not> ok then fail r s
          else case rd_read name mx (rdv s) of (n, bs) \<Rightarrow>
            let s1 = set_ubin bs s in
            if n > 0 then reply_bytes (r_ecx r) (g_ubin s1) (of_int n) (of_int n) r s1 else reti n r s1)"

definition sys_rd_list :: "registers_t \<Rightarrow> 'd sys \<Rightarrow> 'd reply" where
  "sys_rd_list r s =
     (let mx = (if r_ecx r > 4096 then 4096 else r_ecx r) in
      case rd_list mx (rdv s) of (n, bs) \<Rightarrow>
        let s1 = s\<lparr>g_ustr := put_at 0 bs (g_ustr s)\<rparr> in
        if n > 0 then reply_bytes (r_ebx r) (g_ustr s1) (of_int n + 1) (of_int n) r s1 else reti n r s1)"

definition sys_rd_remove :: "'d env \<Rightarrow> registers_t \<Rightarrow> 'd sys \<Rightarrow> 'd reply" where
  "sys_rd_remove E r s =
     (case str_arg E (RAMDISK_NAME_LEN + 4) (r_ebx r) s of None \<Rightarrow> None
      | Some (ok, name) \<Rightarrow>
          if \<not> ok then fail r s
          else case sys_unlink name s of None \<Rightarrow> None | Some (v, s1) \<Rightarrow> reti v r s1)"


section \<open>The framebuffer device\<close>

text \<open>A structure read from the user into a local buffer.\<close>

definition with_struct :: "'d env \<Rightarrow> nat \<Rightarrow> u32 \<Rightarrow> (u8 list \<Rightarrow> 'd reply) \<Rightarrow> registers_t \<Rightarrow> 'd sys \<Rightarrow> 'd reply" where
  "with_struct E n va f r s =
     (case from_user (map (estack E) [0..<n]) va (of_nat n) s of None \<Rightarrow> None
      | Some (ok, b) \<Rightarrow> if ok then f b else fail r s)"

text \<open>\<open>(i16)(b[i] | (b[i+1] << 8))\<close>\<close>

definition i16_at :: "u8 list \<Rightarrow> nat \<Rightarrow> int" where
  "i16_at b i = sint (le16 b i)"

definition ioctl_shape :: "'d env \<Rightarrow> (int \<Rightarrow> int \<Rightarrow> int \<Rightarrow> int \<Rightarrow> u8 \<Rightarrow> gfx \<Rightarrow> gfx option) \<Rightarrow> registers_t \<Rightarrow> 'd sys \<Rightarrow> 'd reply" where
  "ioctl_shape E f r s = with_struct E 9 (r_edx r) (\<lambda>b.
     case f (i16_at b 0) (i16_at b 2) (i16_at b 4) (i16_at b 6) (b ! 8) (scr s) of None \<Rightarrow> None
     | Some g \<Rightarrow> ret 0 r (on_scr (\<lambda>_. g) s)) r s"

definition ioctl_pixel :: "'d env \<Rightarrow> registers_t \<Rightarrow> 'd sys \<Rightarrow> 'd reply" where
  "ioctl_pixel E r s = with_struct E 5 (r_edx r) (\<lambda>b.
     ret 0 r (on_scr (set_pixel (i16_at b 0) (i16_at b 2) (b ! 4)) s)) r s"

text \<open>The string of \<open>n - 1\<close> bytes at most behind the colour.\<close>

definition ioctl_text :: "'d env \<Rightarrow> nat \<Rightarrow> (int \<Rightarrow> int \<Rightarrow> cstr \<Rightarrow> u8 \<Rightarrow> gfx \<Rightarrow> gfx) \<Rightarrow> registers_t \<Rightarrow> 'd sys \<Rightarrow> 'd reply" where
  "ioctl_text E n f r s = with_struct E (n + 4) (r_edx r) (\<lambda>b.
     ret 0 r (on_scr (f (i16_at b 0) (i16_at b 2) (cstr_of (take (n - 1) (drop 5 b))) (b ! 4)) s)) r s"

definition ioctl_bitblt :: "'d env \<Rightarrow> registers_t \<Rightarrow> 'd sys \<Rightarrow> 'd reply" where
  "ioctl_bitblt E r s = with_struct E 8 (r_edx r) (\<lambda>b.
     let x = i16_at b 0; y = i16_at b 2; w = i16_at b 4; h = i16_at b 6; n = of_int w * of_int h in
     if w \<le> 0 \<or> h \<le> 0 \<or> n > 4088 then fail r s
     else case from_user (g_ubin s) (r_edx r + 8) n s of None \<Rightarrow> None
          | Some (ok, px) \<Rightarrow>
              let s1 = s\<lparr>g_ubin := px\<rparr> in
              if \<not> ok then fail r s1
              else ret 0 r (on_scr (for_int h (\<lambda>j. for_int w (\<lambda>i. set_pixel (x + i) (y + j) (px ! nat (j * w + i))))) s1)) r s"

definition sys_ioctl :: "'d env \<Rightarrow> registers_t \<Rightarrow> 'd sys \<Rightarrow> 'd reply" where
  "sys_ioctl E r s =
     (let fd = r_ebx r; cmd = r_ecx r; a = r_edx r in
      if \<not> fd_live fd s then fail r s
      else if ftype_of fd s \<noteq> 4 then fail r s
      else if cmd = 1 then ret 0 r (on_scr (set_fg (ucast a)) s)
      else if cmd = 2 then ret 0 r (on_scr (gfx_clear (ucast a)) s)
      else if cmd = 6 then ioctl_pixel E r s
      else if cmd = 3 then ioctl_shape E (\<lambda>x y w h c g. Some (fill_rect x y w h c g)) r s
      else if cmd = 4 then ioctl_shape E draw_line r s
      else if cmd = 5 then ioctl_shape E draw_rect r s
      else if cmd = 7 then ioctl_text E 64 puts_at r s
      else if cmd = 9 then ioctl_text E 80 puts_at_utf8 r s
      else if cmd = 8 then ioctl_bitblt E r s
      else fail r s)"

section \<open>Tasks, signals, capabilities, raw disk\<close>

definition sys_getpid :: "registers_t \<Rightarrow> 'd sys \<Rightarrow> 'd reply" where
  "sys_getpid r s = (if current_task (kern s) \<noteq> 0 then ret (pid (ct s)) r s else fail r s)"

definition sys_kill :: "registers_t \<Rightarrow> 'd sys \<Rightarrow> 'd reply" where
  "sys_kill r s =
     (if \<not> has_cap CAP_SIGNAL s then fail r s
      else case task_send_signal (r_ebx r) (sint (r_ecx r)) (kern s) of (v, k) \<Rightarrow> reti v r (s\<lparr>kern := k\<rparr>))"

definition sys_sigaction :: "registers_t \<Rightarrow> 'd sys \<Rightarrow> 'd reply" where
  "sys_sigaction r s =
     (let sig = sint (r_ebx r) in
      if sig < 1 \<or> 31 < sig \<or> current_task (kern s) = 0 then fail r s
      else ret (sig_handlers (ct s) ! nat sig) r (updc (\<lambda>t. t\<lparr>sig_handlers := (sig_handlers t)[nat sig := r_ecx r]\<rparr>) s))"

definition sys_sigreturn :: "registers_t \<Rightarrow> 'd sys \<Rightarrow> 'd reply" where
  "sys_sigreturn r s =
     (if current_task (kern s) = 0 then Some (r, s)
      else ret 0 (r\<lparr>r_eip := sig_saved_eip (ct s), r_user_esp := sig_saved_esp (ct s)\<rparr>) s)"

definition sys_drop_cap :: "registers_t \<Rightarrow> 'd sys \<Rightarrow> 'd reply" where
  "sys_drop_cap r s = (case task_drop_cap (r_ebx r) (kern s) of (v, k) \<Rightarrow> reti v r (s\<lparr>kern := k\<rparr>))"

text \<open>Raw sectors, past the block cache.\<close>

definition sys_disk_read :: "'d env \<Rightarrow> registers_t \<Rightarrow> 'd sys \<Rightarrow> 'd reply" where
  "sys_disk_read E r s =
     (if \<not> has_cap CAP_DISK_READ s then fail r s
      else case ata_read (eports E) (edrive E) (r_ebx r) 1 (hwv s) of ((res, ws), d) \<Rightarrow>
        let b = put_at 0 (bytes_of_words ws) (disk_rbuf s); s1 = (set_hw d s)\<lparr>disk_rbuf := b\<rparr> in
        if res = 0 then reply_bytes (r_ecx r) b 512 0 r s1 else reti res r s1)"

definition sys_disk_write :: "'d env \<Rightarrow> registers_t \<Rightarrow> 'd sys \<Rightarrow> 'd reply" where
  "sys_disk_write E r s =
     (if \<not> has_cap CAP_DISK_WRITE s then fail r s
      else case from_user (disk_wbuf s) (r_ecx r) 512 s of None \<Rightarrow> None
           | Some (ok, b) \<Rightarrow>
               let s1 = s\<lparr>disk_wbuf := b\<rparr> in
               if \<not> ok then fail r s1
               else case ata_write (eports E) (edrive E) (r_ebx r) 1 (words_of_bytes b) (hwv s1) of (res, d) \<Rightarrow>
                 let s2 = set_hw d s1;
                     s3 = (if res = 0 then s2\<lparr>fatv := (fatv s2)\<lparr>fbc := bc_invalidate (eio E) (r_ebx r) 1 (fbc (fatv s2))\<rparr>\<rparr> else s2)
                 in reti res r s3)"

definition sys_meminfo :: "registers_t \<Rightarrow> 'd sys \<Rightarrow> 'd reply" where
  "sys_meminfo r s =
     (let m = pmm (ph (kern s)) in ret (mm_free_count m) (r\<lparr>r_ebx := mm_total_pages m\<rparr>) s)"

definition state_code :: "task_state \<Rightarrow> u32" where
  "state_code t = (case t of TASK_RUNNING \<Rightarrow> 0 | TASK_READY \<Rightarrow> 1 | TASK_BLOCKED \<Rightarrow> 2 | TASK_DEAD \<Rightarrow> 3)"

definition info_bytes :: "task_info \<Rightarrow> u8 list" where
  "info_bytes t = words_out [ti_pid t, state_code (ti_state t), ti_priority t, ti_ring3 t]"

definition sys_task_list :: "registers_t \<Rightarrow> 'd sys \<Rightarrow> 'd reply" where
  "sys_task_list r s =
     (let mx = r_ecx r in
      if mx = 0 \<or> mx > of_int TASK_INFO_MAX then fail r s
      else let ts = task_snapshot (sint mx) (kern s); n = of_nat (length ts) in
        if ts \<noteq> [] then reply_bytes (r_ebx r) (concat (map info_bytes ts)) (n * 16) n r s else ret 0 r s)"

text \<open>\<open>waitpid\<close> and \<open>sleep\<close> only touch the tasks.\<close>

definition on_tasks :: "(registers_t \<Rightarrow> kst \<Rightarrow> (registers_t \<times> kst) option) \<Rightarrow> registers_t \<Rightarrow> 'd sys \<Rightarrow> 'd reply" where
  "on_tasks f r s = map_option (\<lambda>(r', k). (r', s\<lparr>kern := k\<rparr>)) (f r (kern s))"

definition cur_pid :: "'d sys \<Rightarrow> u32" where
  "cur_pid s = (if current_task (kern s) = 0 then 0 else pid (ct s))"

definition sys_exit :: "'d env \<Rightarrow> registers_t \<Rightarrow> 'd sys \<Rightarrow> 'd outcome option" where
  "sys_exit E r s =
     do_exit E r (r_ebx r) (syscall_cleanup_fds (current_task (kern s))
       (say E (bytes_of ''exit: pid '' @ put_hex_u32 (cur_pid s) @ [10]) s))"

section \<open>The dispatcher\<close>

definition sys_table :: "'d env \<Rightarrow> u32 \<Rightarrow> registers_t \<Rightarrow> 'd sys \<Rightarrow> 'd reply" where
  "sys_table E n =
     (if n = 1 then sys_write E
      else if n = 3 then sys_read E
      else if n = 4 then sys_open E
      else if n = 5 then sys_fread
      else if n = 6 then sys_sbrk
      else if n = 7 then sys_getcwd
      else if n = 8 then sys_time E
      else if n = 9 then sys_getfb
      else if n = 10 then sys_close
      else if n = 11 then sys_mouse
      else if n = 12 then on_tasks sys_sleep
      else if n = 13 then sys_cls
      else if n = 14 then sys_gfx_putc
      else if n = 15 then sys_gfx_puts
      else if n = 16 then sys_gfx_set_fg
      else if n = 17 then sys_fat_dir E
      else if n = 18 then sys_fat_cd E
      else if n = 19 then sys_fat_mkdir E
      else if n = 20 then sys_fat_rmdir E
      else if n = 21 then sys_fat_delete E
      else if n = 22 then sys_fat_rename E
      else if n = 23 then sys_fat_write E
      else if n = 24 then sys_fork E
      else if n = 25 then sys_exec E
      else if n = 26 then on_tasks sys_waitpid
      else if n = 27 then sys_getpid
      else if n = 28 then sys_kill
      else if n = 29 then sys_sigaction
      else if n = 30 then sys_sigreturn
      else if n = 31 then sys_stat E
      else if n = 32 then sys_lseek
      else if n = 33 then sys_dup E
      else if n = 34 then sys_dup2 E
      else if n = 35 then sys_pipe E
      else if n = 36 then sys_fwrite E
      else if n = 37 then sys_set_outfd
      else if n = 38 then sys_fsync E
      else if n = 39 then sys_rd_create E
      else if n = 40 then sys_rd_read E
      else if n = 41 then sys_rd_list
      else if n = 42 then sys_rd_remove E
      else if n = 43 then sys_drop_cap
      else if n = 44 then sys_disk_read E
      else if n = 45 then sys_disk_write E
      else if n = 46 then sys_ioctl E
      else if n = 47 then sys_exec_fd E
      else if n = 48 then sys_vfs_dir E
      else if n = 49 then sys_meminfo
      else if n = 50 then sys_vfs_list E
      else if n = 51 then sys_task_list
      else fail)"

text \<open>The first six calls are logged.\<close>

definition log_call :: "'d env \<Rightarrow> registers_t \<Rightarrow> 'd sys \<Rightarrow> 'd sys" where
  "log_call E r s =
     (if (r_cs r AND 3 \<noteq> 0 \<or> g_ring0_mode s) \<and> ncalls s < 6
      then say E (bytes_of ''ring3 sys='' @ put_hex_u32 (r_eax r) @ bytes_of '' pid='' @ put_hex_u32 (cur_pid s) @ [10])
             (s\<lparr>ncalls := ncalls s + 1\<rparr>)
      else s)"

definition syscall_handler :: "'d env \<Rightarrow> registers_t \<Rightarrow> 'd sys \<Rightarrow> 'd outcome option" where
  "syscall_handler E r s =
     (let s1 = log_call E r s in
      if r_eax r = 2 then sys_exit E r s1
      else map_option (\<lambda>(r', s'). Ret r' s') (sys_table E (r_eax r) r s1))"

end
