(* ===== verification/XE_Isr.thy ===== *)
theory XE_Isr
  imports XE_Syscall
begin

text \<open>
  The interrupt handler of \<^verbatim>\<open>src/src/kernel/isr.cpp\<close> with the handler table of \<^verbatim>\<open>src/src/kernel/isr.h\<close>, the
  panic screen of \<^verbatim>\<open>src/src/kernel/panic.cpp\<close> and the timer's own handler of \<^verbatim>\<open>src/src/drivers/pit.cpp\<close>.
  The processor's fault address is an argument.
\<close>

unbundle bit_operations_syntax

section \<open>The handler table\<close>

text \<open>The functions the drivers register.\<close>

datatype irq = PitHandler | KbHandler

type_synonym isr_mgr = "irq option list"

definition no_handlers :: isr_mgr where "no_handlers = replicate 256 None"

definition register_handler :: "int \<Rightarrow> irq \<Rightarrow> isr_mgr \<Rightarrow> isr_mgr" where
  "register_handler vec fn m = (if 0 \<le> vec \<and> vec < 256 then m[nat vec := Some fn] else m)"

definition isr_lookup :: "u32 \<Rightarrow> isr_mgr \<Rightarrow> irq option" where
  "isr_lookup vec m = m ! unat (vec AND 255)"

text \<open>After \<open>PitTimer::init\<close> and \<open>Keyboard::init\<close>.\<close>

definition driver_handlers :: isr_mgr where
  "driver_handlers = register_handler 0x21 KbHandler (register_handler 0x20 PitHandler no_handlers)"

section \<open>Panic\<close>

definition panic_screen :: "registers_t \<Rightarrow> cstr \<Rightarrow> gfx \<Rightarrow> gfx" where
  "panic_screen r msg g =
     fold (\<lambda>(s, v) g. gfx_put_hex_u32 v (gfx_puts (bytes_of s) g))
       [(''EIP=0x'', r_eip r), ('' CS=0x'', r_cs r), ('' EFLAGS=0x'', r_eflags r), ('' ESP=0x'', r_esp r), ('' EBP=0x'', r_ebp r),
        ('' VEC='', r_vec r), ('' ERR='', r_err_code r)]
       (gfx_putc 10 (gfx_puts msg (gfx_puts ([10] @ bytes_of ''KERNEL PANIC: '') g)))"

definition panic_log :: "registers_t \<Rightarrow> cstr \<Rightarrow> cstr" where
  "panic_log r msg =
     [10] @ bytes_of ''KERNEL PANIC: '' @ msg @ [10] @ bytes_of ''EIP=0x'' @ put_hex_u32 (r_eip r) @
     bytes_of '' CS=0x'' @ put_hex_u32 (r_cs r) @ bytes_of '' EFLAGS=0x'' @ put_hex_u32 (r_eflags r) @
     bytes_of '' ESP=0x'' @ put_hex_u32 (r_esp r) @ bytes_of '' EBP=0x'' @ put_hex_u32 (r_ebp r) @ [10]"

text \<open>The screen and the log do not depend on each other; the processor halts with interrupts off.\<close>

definition kernel_panic :: "'d env \<Rightarrow> registers_t \<Rightarrow> cstr \<Rightarrow> 'd sys \<Rightarrow> 'd outcome" where
  "kernel_panic E r msg s =
     Panic (say E (panic_log r msg) (on_scr (\<lambda>g. gfx_putc 10 (panic_screen r msg g)) s))"

section \<open>Interrupts\<close>

definition and_then :: "'d outcome option \<Rightarrow> (registers_t \<Rightarrow> 'd sys \<Rightarrow> 'd outcome option) \<Rightarrow> 'd outcome option" where
  "and_then x f = (case x of Some (Ret r s) \<Rightarrow> f r s | _ \<Rightarrow> x)"

text \<open>\<open>PitTimer::handler\<close>\<close>

definition pit_irq :: "'d sys \<Rightarrow> 'd sys" where
  "pit_irq s = on_scr (mcursor_update (mou (hidv s))) (onk (\<lambda>k. k\<lparr>pit_ticks := pit_handler (pit_ticks k)\<rparr>) s)"

definition kb_irq :: "'d env \<Rightarrow> 'd sys \<Rightarrow> 'd sys" where
  "kb_irq E s =
     (let h = kb_irq_handler (eports E) (gx_w (scr s)) (gx_h (scr s)) ((hidv s)\<lparr>hw := hwv s\<rparr>) in set_hw (hw h) (s\<lparr>hidv := h\<rparr>))"

definition run_handler :: "'d env \<Rightarrow> irq option \<Rightarrow> 'd sys \<Rightarrow> 'd sys" where
  "run_handler E h s = (case h of None \<Rightarrow> s | Some PitHandler \<Rightarrow> pit_irq s | Some KbHandler \<Rightarrow> kb_irq E s)"

definition port_out :: "'d env \<Rightarrow> u16 \<Rightarrow> u8 \<Rightarrow> 'd sys \<Rightarrow> 'd sys" where
  "port_out E p v s = set_hw (outb (eports E) p v (hwv s)) s"

text \<open>The keyboard's part of a timer tick: drain the controller, turn Ctrl+C into a signal.\<close>

definition tick_keys :: "'d env \<Rightarrow> registers_t \<Rightarrow> 'd sys \<Rightarrow> 'd sys option" where
  "tick_keys E r s =
     map_option (\<lambda>h.
         let s1 = set_hw (hw h) s in
         case kb_ctrl_c (kbd h) of (c, k) \<Rightarrow>
           let s2 = s1\<lparr>hidv := h\<lparr>kbd := k\<rparr>\<rparr>; p = pid (ct s2) in
           if c \<and> current_task (kern s2) \<noteq> 0 \<and> r_cs r AND 3 = 3
           then onk (\<lambda>k. snd (task_send_signal p (int SIGINT) (task_boost_priority p 5 k))) s2 else s2)
       (kb_drain (eports E) (gx_w (scr s)) (gx_h (scr s)) ((hidv s)\<lparr>hw := hwv s\<rparr>))"

definition timer_irq :: "'d env \<Rightarrow> registers_t \<Rightarrow> 'd sys \<Rightarrow> 'd outcome option" where
  "timer_irq E r s =
     (case tick_keys E r (onk wake_sleepers (port_out E 0x20 0x20 s)) of None \<Rightarrow> None
      | Some s1 \<Rightarrow>
          let s2 = on_scr (mcursor_update (mou (hidv s1))) s1 in
          and_then (if r_cs r AND 3 \<noteq> 0 then task_check_signals E r s2 else Some (Ret r s2))
            (\<lambda>r s. map_option (\<lambda>(r', s'). Ret r' s') (on_tasks timer_preempt r s)))"

text \<open>Exceptions.\<close>

definition exc_names :: "cstr list" where
  "exc_names = map bytes_of [''#DE'', ''#DB'', ''NMI'', ''#BP'', ''#OF'', ''#BR'', ''#UD'', ''#NM'', ''#DF'', '''', ''#TS'', ''#NP'', ''#SS'',
     ''#GP'', ''#PF'', '''', ''#MF'', ''#AC'', ''#MC'', ''#XM'', ''#VE'']"

definition exc_name :: "nat \<Rightarrow> cstr" where
  "exc_name vec = (if vec \<le> 20 \<and> exc_names ! vec \<noteq> [] then exc_names ! vec else bytes_of ''?'')"

definition user_fault :: "'d env \<Rightarrow> u32 \<Rightarrow> registers_t \<Rightarrow> 'd sys \<Rightarrow> 'd sys" where
  "user_fault E cr2 r s =
     (let s1 = say E (bytes_of ''user #PF at EIP=0x'' @ put_hex_u32 (r_eip r) @ bytes_of '' CR2=0x'' @ put_hex_u32 cr2 @
                 bytes_of '' SIGSEGV'' @ [10]) s
      in if current_task (kern s1) \<noteq> 0 \<and> pid (ct s1) \<noteq> 0
         then onk (\<lambda>k. snd (task_send_signal (pid (cur k)) (int SIGSEGV) k)) s1 else s1)"

definition fault_screen :: "u32 \<Rightarrow> registers_t \<Rightarrow> gfx \<Rightarrow> gfx" where
  "fault_screen cr2 r g =
     (let err = r_err_code r;
          g1 = gfx_put_hex_u32 (r_eip r) (gfx_puts ([10] @ bytes_of ''#PF at EIP=0x'') g);
          g2 = gfx_put_hex_u32 err (gfx_puts (bytes_of '' err='') (gfx_put_hex_u32 cr2 (gfx_puts (bytes_of '' fault_addr=0x'') g1)));
          say = (\<lambda>bit a b. gfx_puts (bytes_of (if err AND bit \<noteq> 0 then a else b)))
      in gfx_putc 10 (say 8 '' reserved'' '''' (say 4 '' user'' '' supervisor'' (say 2 '' write'' '' read''
           (say 1 '' present'' '' not-present'' g2)))))"

text \<open>Everything behind the timer branch.\<close>

definition other_irq :: "'d env \<Rightarrow> u32 \<Rightarrow> registers_t \<Rightarrow> 'd sys \<Rightarrow> 'd outcome option" where
  "other_irq E cr2 r s =
     (let vec = r_vec r; fault = (vec = 14); user = (r_err_code r AND 4 \<noteq> 0);
          s1 = (if fault then (if user then user_fault E cr2 r s else on_scr (fault_screen cr2 r) s) else s);
          s2 = (if 0x20 \<le> vec \<and> vec \<le> 0x2F then port_out E 0x20 0x20 s1 else s1);
          s3 = (if 0x28 \<le> vec \<and> vec \<le> 0x2F then port_out E 0xA0 0x20 s2 else s2)
      in if fault \<and> \<not> user then Some (kernel_panic E r (bytes_of ''Page Fault'') s1)
         else if vec < 0x20 then Some (kernel_panic E r (exc_name (unat vec)) s3)
         else if r_cs r AND 3 = 3 then task_check_signals E r s3
         else Some (Ret r s3))"

text \<open>\<open>vec\<close> is the number the entry stub pushed: 0 to 47, or 0x80.\<close>

definition c_isr_handler :: "'d env \<Rightarrow> isr_mgr \<Rightarrow> u32 \<Rightarrow> registers_t \<Rightarrow> 'd sys \<Rightarrow> 'd outcome option" where
  "c_isr_handler E H cr2 r s =
     (let vec = r_vec r; from_user = (r_cs r AND 3 = 3); s1 = run_handler E (isr_lookup vec H) s
      in if vec = 0x80 then and_then (syscall_handler E r s1) (\<lambda>r s. if from_user then task_check_signals E r s else Some (Ret r s))
         else if vec = 0x20 then timer_irq E r s1
         else other_irq E cr2 r s1)"

end
