(* ===== verification/XE_Frame.thy ===== *)
theory XE_Frame
  imports XE_Isr
begin

text \<open>
  What an interrupt may do to the task structs. Two properties of the whole kernel interface rest on it: no
  capability ever appears in a task that neither had it nor was forked from a task that had it, and the
  descriptor tables of all listed tasks stay well typed. The proof goes through every system call, the
  signal delivery, the scheduler and the exit path.

  The locale \<open>task_neutral\<close> is the contract a filesystem has to meet: its operations leave the task structs alone.
\<close>

unbundle bit_operations_syntax

section \<open>Well-typed structs\<close>

text \<open>The arrays of a struct have their declared lengths; a descriptor type is at most 7.\<close>

definition lens :: "task_struct \<Rightarrow> bool" where
  "lens t = (length (fd_buf t) = MAX_FD \<and> length (fd_size t) = MAX_FD \<and> length (fd_pos t) = MAX_FD \<and>
     length (fd_type t) = MAX_FD \<and> length (sig_handlers t) = 32)"

definition tab_ok :: "task_struct \<Rightarrow> bool" where
  "tab_ok t = (lens t \<and> (\<forall>ty \<in> set (fd_type t). ty \<le> 7))"

definition cap_le :: "u32 \<Rightarrow> u32 \<Rightarrow> bool" where
  "cap_le c c' = (c AND c' = c)"

definition good_upd :: "(task_struct \<Rightarrow> task_struct) \<Rightarrow> bool" where
  "good_upd f = (\<forall>t. cap_le (task_struct.caps (f t)) (task_struct.caps t) \<and> (lens t \<longrightarrow> lens (f t)) \<and> (tab_ok t \<longrightarrow> tab_ok (f t)))"

definition at_most :: "(u32 \<Rightarrow> bool) \<Rightarrow> kst \<Rightarrow> kst \<Rightarrow> bool" where
  "at_most P k k' = (\<forall>a. P a \<longrightarrow> cap_le (task_struct.caps (tsk k' a)) (task_struct.caps (tsk k a)) \<and>
     (lens (tsk k a) \<longrightarrow> lens (tsk k' a)) \<and> (tab_ok (tsk k a) \<longrightarrow> tab_ok (tsk k' a)))"

definition tk_le :: "kst \<Rightarrow> kst \<Rightarrow> bool" where
  "tk_le k k' = (set (all_tasks k') \<subseteq> set (all_tasks k) \<and> at_most (\<lambda>_. True) k k')"

definition same :: "kst \<Rightarrow> kst \<Rightarrow> bool" where
  "same k k' = (tsk k' = tsk k \<and> all_tasks k' = all_tasks k \<and> current_task k' = current_task k)"

lemma cap_le_refl [simp]: "cap_le c c"
  by (simp add: cap_le_def)

lemma cap_le_trans: "cap_le c d \<Longrightarrow> cap_le d e \<Longrightarrow> cap_le c e"
  unfolding cap_le_def by (metis and.assoc)

lemma cap_le_drop [simp]: "cap_le (c AND d) c"
  unfolding cap_le_def by (metis and.assoc and.commute and.idem)

lemma tab_okD: "tab_ok t \<Longrightarrow> lens t" "tab_ok t \<Longrightarrow> i < MAX_FD \<Longrightarrow> fd_type t ! i \<le> 7"
  by (auto simp: tab_ok_def lens_def)

lemma at_most_trans: "at_most P k k' \<Longrightarrow> at_most P k' k'' \<Longrightarrow> at_most P k k''"
  unfolding at_most_def by (meson cap_le_trans)

lemma tk_le_trans: "tk_le k k' \<Longrightarrow> tk_le k' k'' \<Longrightarrow> tk_le k k''"
  unfolding tk_le_def using at_most_trans by blast

lemma same_refl [simp, intro]: "same k k"
  by (simp add: same_def)

lemma same_trans: "same k k' \<Longrightarrow> same k' k'' \<Longrightarrow> same k k''"
  by (simp add: same_def)

lemma same_le: "same k k' \<Longrightarrow> tk_le k k'"
  by (simp add: same_def tk_le_def at_most_def)

lemma tk_le_refl [simp, intro]: "tk_le k k"
  by (rule same_le) simp

text \<open>Nothing but these three fields matters.\<close>

lemma tk_le_cong: "same k0 k \<Longrightarrow> same k1 k' \<Longrightarrow> tk_le k0 k1 \<longleftrightarrow> tk_le k k'"
  by (simp add: same_def tk_le_def at_most_def)

lemma tk_le_upd: "good_upd f \<Longrightarrow> tk_le k (upd a f k)"
  by (simp add: good_upd_def tk_le_def at_most_def upd_def)

lemma tk_le_fold:
  assumes "\<And>x k. tk_le k (f x k)"
  shows "tk_le k (fold f xs k)"
proof (induction xs arbitrary: k)
  case (Cons x xs)
  then show ?case using assms tk_le_trans by fastforce
qed simp

section \<open>Primitive steps\<close>

lemma good_set_fd: "ty \<le> 7 \<Longrightarrow> good_upd (set_fd i b sz p ty)"
  using set_update_subset_insert by (fastforce simp: good_upd_def set_fd_def tab_ok_def lens_def)

lemma good_comp: "good_upd f \<Longrightarrow> good_upd g \<Longrightarrow> good_upd (f \<circ> g)"
  unfolding good_upd_def using cap_le_trans by (simp) blast

text \<open>An update of other fields.\<close>

lemma good_other:
  assumes "\<And>t. task_struct.caps (f t) = task_struct.caps t" "\<And>t. fd_buf (f t) = fd_buf t" "\<And>t. fd_size (f t) = fd_size t"
    "\<And>t. length (fd_pos (f t)) = length (fd_pos t)" "\<And>t. fd_type (f t) = fd_type t" "\<And>t. length (sig_handlers (f t)) = length (sig_handlers t)"
  shows "good_upd f"
  using assms by (simp add: good_upd_def tab_ok_def lens_def)

lemma tk_le_other:
  assumes "\<And>t. task_struct.caps (f t) = task_struct.caps t" "\<And>t. fd_buf (f t) = fd_buf t" "\<And>t. fd_size (f t) = fd_size t"
    "\<And>t. length (fd_pos (f t)) = length (fd_pos t)" "\<And>t. fd_type (f t) = fd_type t" "\<And>t. length (sig_handlers (f t)) = length (sig_handlers t)"
  shows "tk_le k (upd a f k)"
  using assms by (intro tk_le_upd good_other)

lemma same_prims [simp]:
  "same k (k_free a k)" "same k (free_task a k)" "same k (delete_paging p k)" "same k (load_paging p k)" "same k (touch a k)"
  "same k (rq_add_tail a k)" "same k (rq_del a k)" "same k (set_ram m k)"
  by (simp_all add: same_def k_defs set_ram_def)

lemma all_del_le [simp]: "tk_le k (all_del a k)"
  using set_remove1_subset by (fastforce simp: tk_le_def at_most_def all_del_def)

section \<open>The scheduler\<close>

lemma wake_one_le: "tk_le k (wake_one now a k)"
  unfolding wake_one_def using tk_le_trans [OF tk_le_other same_le [OF same_prims(6)]] by simp

lemma wake_sleepers_le: "tk_le k (wake_sleepers k)"
  unfolding wake_sleepers_def by (rule tk_le_fold) (rule wake_one_le)

lemma idle_tick_le: "tk_le k (idle_tick k)"
  unfolding idle_tick_def using wake_sleepers_le [of "k\<lparr>pit_ticks := pit_ticks k + 1\<rparr>"] by (simp add: tk_le_def at_most_def)

lemma idle_wait_le:
  assumes "idle_wait k = Some k'"
  shows "tk_le k k'"
proof -
  have "tk_le k ((idle_tick ^^ n) k)" for n by (induction n) (use idle_tick_le tk_le_trans in auto)
  then show ?thesis using idle_wait_Some [OF assms] by blast
qed

lemma reap_zombie_le: "tk_le k (reap_zombie a k)"
  using set_remove1_subset [of a "all_tasks k"] by (auto simp: reap_zombie_def Let_def tk_le_def at_most_def k_defs)

lemma reap_dead_le: "tk_le k (reap_dead a k)"
  using set_remove1_subset [of a "all_tasks k"] by (auto simp: reap_dead_def Let_def tk_le_def at_most_def k_defs)

lemma decay_le: "tk_le k (decay k)"
proof -
  have "tk_le k (fold (\<lambda>a s. if 0 < dynamic_boost (tsk s a) then upd a (\<lambda>t. t\<lparr>dynamic_boost := dynamic_boost t - 1\<rparr>) s else s)
      (ready_queue k) (k\<lparr>decay_counter := 0\<rparr>))"
    by (rule tk_le_trans [OF same_le [of k "k\<lparr>decay_counter := 0\<rparr>"] tk_le_fold]) (simp_all add: same_def tk_le_other)
  then show ?thesis by (simp add: decay_def same_le same_def)
qed

lemma switch_to_le: "switch_to nt r k = (r', k') \<Longrightarrow> tk_le k k'"
proof -
  assume a: "switch_to nt r k = (r', k')"
  define k1 where "k1 = upd nt (\<lambda>t. t\<lparr>state := TASK_RUNNING, quantum := TASK_QUANTUM\<rparr>) (rq_del nt k)"
  define k2 where "k2 = decay (touch (current_task k1) k1)"
  have 1: "tk_le k k1" unfolding k1_def by (rule tk_le_trans [OF same_le [OF same_prims(7)] tk_le_other]) simp_all
  have 2: "tk_le k1 k2" unfolding k2_def by (rule tk_le_trans [OF same_le [OF same_prims(5)] decay_le])
  have "tsk k' = tsk k2 \<and> all_tasks k' = all_tasks k2"
    using a by (auto simp: switch_to_def Let_def k1_def [symmetric] k2_def [symmetric] load_paging_def)
  then have "tk_le k2 k'" by (simp add: tk_le_def at_most_def)
  with 1 2 show ?thesis using tk_le_trans by blast
qed

lemma save_context_good: "good_upd (save_context r)"
  by (rule good_other) (simp_all add: save_context_def Let_def)

lemma schedule_le:
  assumes "schedule r k = Some (r', k')"
  shows "tk_le k k'"
proof (cases "current_task k = 0")
  case False
  define k1 where "k1 = (if state (cur k) \<noteq> TASK_DEAD then upd (current_task k) (save_context r) k else k)"
  define k2 where "k2 = reap_ready (reap_zombies k1)"
  have 1: "tk_le k k1" by (simp add: k1_def tk_le_upd save_context_good)
  have 2: "tk_le k1 k2" unfolding k2_def reap_ready_def reap_zombies_def
    by (rule tk_le_trans [OF tk_le_fold tk_le_fold]) (rule reap_zombie_le reap_dead_le)+
  have "tk_le k2 (requeue k2)" unfolding requeue_def by (rule tk_le_trans [OF tk_le_other same_le [OF same_prims(6)]]) simp_all
  moreover have "before_pick r k = (if state (cur k) = TASK_RUNNING then requeue k2 else k2)"
    unfolding before_pick_def k2_def k1_def Let_def by (rule refl)
  ultimately have 3: "tk_le k2 (before_pick r k)" by simp
  have b: "tk_le k (before_pick r k)" using 1 2 3 tk_le_trans by blast
  obtain k4 where k4: "idle_wait (before_pick r k) = Some k4" "switch_to (pick_next (tsk k4) (ready_queue k4)) r k4 = (r', k')"
    using assms by (auto simp: schedule_alt [OF False] split: if_splits option.splits)
  show ?thesis using b idle_wait_le [OF k4(1)] switch_to_le [OF k4(2)] tk_le_trans by blast
qed (use assms in \<open>simp add: schedule_def\<close>)

lemma exit_mark_le: "tk_le k (exit_mark code k)"
  unfolding exit_mark_def Let_def
  using tk_le_trans [OF tk_le_other same_le [OF same_prims(7)]] by (simp add: tk_le_other)

lemma sibling_del_le: "sibling_del a k = Some k' \<Longrightarrow> tk_le k k'"
  by (auto simp: sibling_del_def Let_def tk_le_other split: if_splits)

lemma exit_finish_le: "tk_le k (exit_finish self p k)"
proof -
  define k4 where "k4 = (if state (tsk k p) = TASK_BLOCKED
    then rq_add_tail p (upd p (\<lambda>t. t\<lparr>t_eax := pid (tsk k self), state := TASK_READY\<rparr>) k) else k)"
  define k5 where "k5 = load_paging (kernel_paging k4) k4"
  define k6 where "k6 = (if paging (tsk k5 self) \<noteq> 0 \<and> paging (tsk k5 self) \<noteq> kernel_paging k5
    then upd self (\<lambda>t. t\<lparr>paging := kernel_paging k5\<rparr>) (delete_paging (paging (tsk k5 self)) k5) else k5)"
  have 4: "tk_le k k4" unfolding k4_def using tk_le_trans [OF tk_le_other same_le [OF same_prims(6)]] by simp
  have 5: "tk_le k4 k5" unfolding k5_def by (rule same_le) simp
  have 6: "tk_le k5 k6" unfolding k6_def using tk_le_trans [OF same_le [OF same_prims(3)] tk_le_other] by simp
  have "tk_le k6 (k6\<lparr>zombie_reap := zombie_reap k6 @ [self]\<rparr>)" by (rule same_le) (simp add: same_def)
  moreover have "exit_finish self p k = k6\<lparr>zombie_reap := zombie_reap k6 @ [self]\<rparr>"
    unfolding exit_finish_def Let_def k6_def k5_def k4_def by (rule refl)
  ultimately show ?thesis using 4 5 6 tk_le_trans by metis
qed

text \<open>The state a \<open>resume\<close> leaves behind.\<close>

fun res_kst :: "resume \<Rightarrow> kst" where
  "res_kst (Returns r k) = k"
| "res_kst (Iret r k) = k"
| "res_kst (BootLoop k) = k"

lemma task_do_exit_le:
  assumes "task_do_exit r code k = Some x"
  shows "tk_le k (res_kst x)"
proof (cases "current_task k = 0")
  case False
  let ?p = "parent (cur k)"
  show ?thesis
  proof (cases "?p \<noteq> 0 \<and> pid (tsk (exit_mark code k) ?p) \<noteq> 0")
    case True
    then obtain k3 k7 r' k' where k: "sibling_del (current_task k) (touch ?p (exit_mark code k)) = Some k3"
        "k7 = exit_finish (current_task k) ?p k3" "schedule (r\<lparr>r_eflags := 0x202, r_eip := 0, r_esp := 0\<rparr>) k7 = Some (r', k')" "x = Iret r' k'"
      using assms False by (auto simp: task_do_exit_def exit_state_def Let_def split: option.splits)
    have "tk_le k (touch ?p (exit_mark code k))" using exit_mark_le same_le [OF same_prims(5)] tk_le_trans by blast
    moreover have "tk_le k3 k'" using exit_finish_le schedule_le [OF k(3)] k(2) tk_le_trans by blast
    ultimately show ?thesis using sibling_del_le [OF k(1)] k(4) tk_le_trans by (metis res_kst.simps(2))
  next
    case no_par: False
    have x: "x = BootLoop (load_paging (kernel_paging (exit_mark code k)) (if ?p \<noteq> 0 then touch ?p (exit_mark code k) else exit_mark code k))"
      using assms False no_par by (auto simp: task_do_exit_def Let_def)
    have "same (exit_mark code k) (res_kst x)" by (simp add: x same_def k_defs)
    then show ?thesis using exit_mark_le same_le tk_le_trans by blast
  qed
qed (use assms in \<open>auto simp: task_do_exit_def\<close>)

lemma find_task_good: "good_upd f \<Longrightarrow> tk_le k (case find_task p k of None \<Rightarrow> k | Some a \<Rightarrow> upd a f k)"
  by (simp add: tk_le_upd split: option.split)

lemma task_send_signal_le: "tk_le k (snd (task_send_signal p sig k))"
  by (auto simp: task_send_signal_def tk_le_other split: option.split)

lemma task_boost_priority_le: "tk_le k (task_boost_priority p n k)"
  unfolding task_boost_priority_def by (rule find_task_good) (rule good_other; simp add: Let_def)

lemma task_drop_cap_le: "tk_le k (snd (task_drop_cap c k))"
  by (auto simp: task_drop_cap_def good_upd_def lens_def tab_ok_def intro!: tk_le_upd)

lemma sys_waitpid_le:
  assumes "sys_waitpid r k = Some (r', k')"
  shows "tk_le k k'"
proof (cases "children (cur k) = []")
  case False
  let ?k0 = "upd (current_task k) (\<lambda>t. t\<lparr>state := TASK_BLOCKED\<rparr>) k"
  obtain r1 k1 where s: "schedule r ?k0 = Some (r1, k1)"
      "k' = (if current_task k1 = current_task k then upd (current_task k) (\<lambda>t. t\<lparr>state := TASK_RUNNING\<rparr>) k1 else k1)"
    using assms False by (auto simp: sys_waitpid_def Let_def split: option.splits if_splits)
  have "tk_le k k1" using tk_le_trans [OF tk_le_other schedule_le [OF s(1)]] by simp
  then show ?thesis using s(2) tk_le_trans [OF _ tk_le_other] by simp
qed (use assms in \<open>simp add: sys_waitpid_def\<close>)

lemma sys_sleep_le:
  assumes "sys_sleep r k = Some (r', k')"
  shows "tk_le k k'"
  using assms unfolding sys_sleep_def Let_def by (rule tk_le_trans [OF tk_le_other schedule_le, rotated -1]) simp_all

lemma timer_preempt_le:
  assumes "timer_preempt r k = Some (r', k')"
  shows "tk_le k k'"
proof -
  have q: "tk_le k (upd a (\<lambda>t. t\<lparr>quantum := quantum t - 1\<rparr>) k)" for a by (rule tk_le_other) simp_all
  show ?thesis
    using assms schedule_le [of r k] schedule_le [of r "upd (current_task k) (\<lambda>t. t\<lparr>quantum := quantum t - 1\<rparr>) k"] q
    by (auto simp: timer_preempt_def Let_def split: if_splits intro: tk_le_trans)
qed

section \<open>Replies\<close>

text \<open>Every state a reply can leave behind.\<close>

definition rep :: "kst \<Rightarrow> 'd reply \<Rightarrow> bool" where
  "rep k x = (\<forall>r' s'. x = Some (r', s') \<longrightarrow> tk_le k (kern s'))"

definition neutral :: "('d sys \<Rightarrow> ('a \<times> 'd sys) option) \<Rightarrow> bool" where
  "neutral f = (\<forall>s x s'. f s = Some (x, s') \<longrightarrow> same (kern s) (kern s'))"

lemma neutralD: "neutral f \<Longrightarrow> f s = Some (x, s') \<Longrightarrow> same (kern s) (kern s')"
  by (auto simp: neutral_def)

lemma rep_rules:
  "tk_le k (kern s) \<Longrightarrow> rep k (ret v r s)"
  "tk_le k (kern s) \<Longrightarrow> rep k (Some (r, s))"
  "rep k None"
  "(c \<Longrightarrow> rep k x) \<Longrightarrow> (\<not> c \<Longrightarrow> rep k y) \<Longrightarrow> rep k (if c then x else y)"
  "(\<And>z. m = Some z \<Longrightarrow> rep k (f z)) \<Longrightarrow> rep k (case m of None \<Rightarrow> None | Some z \<Rightarrow> f z)"
  "(\<And>a b. p = (a, b) \<Longrightarrow> rep k (g a b)) \<Longrightarrow> rep k (case p of (a, b) \<Rightarrow> g a b)"
  by (auto simp: rep_def ret_def split: option.splits prod.splits)

text \<open>A neutral step in front.\<close>

lemma tk_le_same: "same k k' \<Longrightarrow> tk_le k0 k \<Longrightarrow> tk_le k0 k'"
  using same_le tk_le_trans by blast

lemma tk_le_step: "good_upd f \<Longrightarrow> tk_le k k1 \<Longrightarrow> tk_le k (upd a f k1)"
  using tk_le_upd tk_le_trans by blast

lemma to_user_same: "to_user va b len s = Some (ok, s') \<Longrightarrow> same (kern s) (kern s')"
  by (auto simp: to_user_def split: sum.splits prod.splits)

lemma rep_bytes: "tk_le k (kern s) \<Longrightarrow> rep k (reply_bytes va b len v r s)"
  unfolding reply_bytes_def by (intro rep_rules) (auto intro: tk_le_same to_user_same)

lemma rep_with_name: "(\<And>name. rep k (f name r s)) \<Longrightarrow> tk_le k (kern s) \<Longrightarrow> rep k (with_name E va f r s)"
  unfolding with_name_def by (intro rep_rules) auto

lemma rep_with_struct: "(\<And>b. rep k (f b)) \<Longrightarrow> tk_le k (kern s) \<Longrightarrow> rep k (with_struct E n va f r s)"
  unfolding with_struct_def by (intro rep_rules) auto

lemma set_pos_good: "good_upd (\<lambda>t. t\<lparr>fd_pos := (fd_pos t)[i := v]\<rparr>)"
  by (rule good_other) simp_all

lemma k_malloc_same: "k_malloc n k = Some (a, k') \<Longrightarrow> same k k'"
  by (auto simp: k_malloc_def same_def split: option.splits)

lemma new_buf_same: "new_buf E n s = Some (a, s') \<Longrightarrow> same (kern s) (kern s')"
  using k_malloc_same by (fastforce simp: new_buf_def same_def split: option.splits if_splits)

lemma set_pipe_same [simp]: "same (kern s) (kern (set_pipe a p s))"
  by (simp add: set_pipe_def same_def)

lemma set_pipe_le [simp]: "tk_le k (kern (set_pipe a p s)) = tk_le k (kern s)"
  by (simp add: set_pipe_def tk_le_def at_most_def)

lemma set_buf_at_le [simp]: "tk_le k (kern (set_buf_at a bs s)) = tk_le k (kern s)"
  by (simp add: set_buf_at_def tk_le_def at_most_def)

lemma k_free_le [simp]: "tk_le k (k_free a k') = tk_le k k'"
  by (simp add: k_free_def tk_le_def at_most_def)

lemma obj_put_same: "obj_put ty a i v s = Some s' \<Longrightarrow> same (kern s) (kern s')"
  by (auto simp: obj_put_def same_def set_ram_def Let_def split: if_splits)

lemma obj_write_same: "obj_write ty a i bs s = Some s' \<Longrightarrow> same (kern s) (kern s')"
proof (induction bs arbitrary: i s)
  case (Cons b bs)
  then obtain s1 where "obj_put ty a i b s = Some s1" "obj_write ty a (Suc i) bs s1 = Some s'" by (auto split: option.splits)
  then show ?case using Cons.IH obj_put_same same_trans by blast
qed simp

lemma copy_file_buf_same: "copy_file_buf E a sz s = Some (nb, s') \<Longrightarrow> same (kern s) (kern s')"
  by (auto simp: copy_file_buf_def split: option.splits if_splits dest!: new_buf_same obj_write_same intro: same_trans)

lemma close_obj_same: "same (kern s) (kern (close_obj brk ty a s))"
  by (auto simp: close_obj_def drop_pipe_def Let_def set_pipe_def same_def k_free_def)

lemma close_obj_le [simp]: "tk_le k (kern (close_obj brk ty a s)) = tk_le k (kern s)"
  using close_obj_same [of s brk ty a] by (simp add: same_def tk_le_def at_most_def)

lemma ubin_kern [simp]: "kern (set_ubin bs s) = kern s"
  by (simp add: set_ubin_def)

section \<open>Descriptor calls\<close>

lemma write_file_rep: "rep (kern s) (write_file fd len data r s)"
  unfolding write_file_def Let_def set_pos_def
  by (intro rep_rules) (auto intro!: tk_le_step set_pos_good intro: same_le obj_write_same)

lemma sys_write_rep: "rep (kern s) (sys_write E r s)"
  unfolding sys_write_def Let_def by (intro rep_rules) auto

lemma sys_fwrite_rep: "rep (kern s) (sys_fwrite E r s)"
proof -
  have w: "rep (kern s) (write_file fd len b r (s\<lparr>g_ubin := b\<rparr>))" for fd len b
    using write_file_rep [of "s\<lparr>g_ubin := b\<rparr>"] by simp
  show ?thesis unfolding sys_fwrite_def Let_def write_screen_def
    by (intro rep_rules w) (auto intro: same_le)
qed

lemma read_file_rep: "rep (kern s) (read_file fd buf len r s)"
  unfolding read_file_def Let_def set_pos_def
  by (intro rep_rules) (auto intro!: tk_le_step set_pos_good dest!: to_user_same intro: same_le)

lemma read_pipe_rep: "rep (kern s) (read_pipe a buf len r s)"
  unfolding read_pipe_def Let_def by (intro rep_rules rep_bytes) (auto intro: tk_le_same)

lemma read_input_rep: "rep (kern s) (read_input buf len r s)"
  unfolding read_input_def Let_def by (intro rep_rules) (auto simp: rep_bytes rep_rules split: option.split)

lemma sys_fread_rep: "rep (kern s) (sys_fread r s)"
  unfolding sys_fread_def Let_def by (intro rep_rules rep_bytes read_file_rep read_pipe_rep read_input_rep) auto

lemma sys_close_rep: "rep (kern s) (sys_close r s)"
  unfolding sys_close_def Let_def by (intro rep_rules) (auto intro!: tk_le_step good_set_fd)

lemma sys_lseek_rep: "rep (kern s) (sys_lseek r s)"
  unfolding sys_lseek_def Let_def set_pos_def by (intro rep_rules) (auto intro!: tk_le_step set_pos_good)

lemma cleanup_le: "tk_le (kern s) (kern (syscall_cleanup_fds t s))"
proof -
  have one: "tk_le (kern s) (kern (cleanup_fd t i s))" for i and s :: "'a sys"
    by (simp add: cleanup_fd_def Let_def tk_le_step good_set_fd)
  have "tk_le (kern s) (kern (fold (cleanup_fd t) is' s))" for is' and s :: "'a sys"
    by (induction is' arbitrary: s) (use one tk_le_trans in fastforce)+
  then show ?thesis by (simp add: syscall_cleanup_fds_def)
qed

text \<open>A descriptor that takes the type of another one of the same table.\<close>

lemma tk_le_dup:
  assumes "i < MAX_FD" "ty = fd_type (tsk k1 a) ! i" "tk_le k k1"
  shows "tk_le k (upd a (set_fd n b sz p ty) k1)"
proof -
  let ?t = "tsk k1 a"
  have "tab_ok ?t \<Longrightarrow> tab_ok (set_fd n b sz p ty ?t)"
    using tab_okD(2) [of ?t i] assms(1,2) good_set_fd [of ty n b sz p] by (simp add: good_upd_def)
  then have "tk_le k1 (upd a (set_fd n b sz p ty) k1)"
    by (auto simp: tk_le_def at_most_def upd_def set_fd_def lens_def)
  then show ?thesis using assms(3) tk_le_trans by blast
qed

lemma dup_into_rep:
  assumes "unat old < MAX_FD"
  shows "rep (kern s) (dup_into E old new r s)"
proof -
  have d: "tk_le (kern s) (kern s1)" if f: "dup_file_fd E old new s = Some (ok, s1)" for ok s1
  proof -
    consider "s1 = s" | nb s2 where "copy_file_buf E (fbuf_of old s) (fsize_of old s) s = Some (nb, s2)"
        "s1 = s2 \<or> s1 = updc (set_fd new nb (fsize_of old s2) (fpos_of old s2) (ftype_of old s2)) s2"
      using f by (auto simp: dup_file_fd_def split: if_splits option.splits)
    then show ?thesis
    proof cases
      case 2
      then have "tk_le (kern s) (kern s2)" using copy_file_buf_same same_le by blast
      then show ?thesis using 2(2) assms tk_le_dup [of "unat old"] by auto
    qed simp
  qed
  show ?thesis unfolding dup_into_def Let_def
    by (intro rep_rules) (auto dest: d intro!: tk_le_dup [OF assms])
qed

lemma sys_dup_rep: "rep (kern s) (sys_dup E r s)"
  unfolding sys_dup_def Let_def by (intro rep_rules) (auto simp: fd_live_def rep_rules dup_into_rep split: list.split)

lemma sys_dup2_rep: "rep (kern s) (sys_dup2 E r s)"
proof -
  have d: "rep (kern s) (dup_into E old new r s1)" if "unat old < MAX_FD" "tk_le (kern s) (kern s1)" for old new and s1 :: "'a sys"
    using dup_into_rep [OF that(1), of s1 E new r] that(2) tk_le_trans by (fastforce simp: rep_def)
  show ?thesis unfolding sys_dup2_def Let_def by (intro rep_rules d) auto
qed

lemma sys_pipe_rep: "rep (kern s) (sys_pipe E r s)"
proof -
  have good0: "good_upd (\<lambda>t. t\<lparr>fd_buf := (fd_buf t)[i := 0, j := 0], fd_type := (fd_type t)[i := 0, j := 0]\<rparr>)" for i j
    unfolding good_upd_def tab_ok_def lens_def by (auto dest!: subsetD [OF set_update_subset_insert])
  have good2: "good_upd (set_fd j a n 0 3 \<circ> set_fd i a n 0 2)" for i j a n by (intro good_comp good_set_fd) simp_all
  have u: "tk_le (kern s) (kern s3)"
    if "same (upd c (set_fd j a n 0 3 \<circ> set_fd i a n 0 2) (kern (set_pipe a p (s\<lparr>kern := k\<rparr>)))) (kern s3)" "same (kern s) k"
    for c i j a n p k and s3 :: "'a sys"
    using tk_le_same [OF that(1) tk_le_step [OF good2]] same_le [OF that(2)] by simp
  show ?thesis unfolding sys_pipe_def Let_def
    apply (intro rep_rules)
     apply (auto dest: k_malloc_same same_le) [1]
    apply (simp split: list.split)
    apply (intro conjI allI impI rep_rules)
       apply (auto dest!: k_malloc_same to_user_same dest: u intro!: tk_le_step good0 intro: same_le)
    done
qed

lemma sys_set_outfd_rep: "rep (kern s) (sys_set_outfd r s)"
  unfolding sys_set_outfd_def Let_def by (intro rep_rules) (auto intro!: tk_le_step good_other)

lemma put_text_le: "put_text ofd str s = Some s' \<Longrightarrow> tk_le (kern s) (kern s')"
  by (auto simp: put_text_def set_pos_def Let_def split: option.splits dest!: obj_write_same intro!: tk_le_step set_pos_good intro: same_le)

lemma sys_gfx_putc_rep: "rep (kern s) (sys_gfx_putc r s)"
  by (auto simp: sys_gfx_putc_def dest: put_text_le split: option.split intro!: rep_rules)

lemma sys_gfx_puts_rep: "rep (kern s) (sys_gfx_puts r s)"
  unfolding sys_gfx_puts_def Let_def
  by (intro rep_rules) (auto dest: put_text_le split: option.split intro!: rep_rules)

section \<open>Filesystems\<close>

locale task_neutral =
  fixes F :: "'d sys Filesystem"
  assumes open_neutral: "neutral (fs_open F p b n)"
    and write_neutral: "neutral (fs_write F p b n)"
    and remove_neutral: "neutral (fs_remove F p)"
    and stat_neutral: "neutral (fs_stat F p d)"
    and mkdir_neutral: "neutral (fs_mkdir F p)"
    and rmdir_neutral: "neutral (fs_rmdir F p)"
    and rename_neutral: "neutral (fs_rename F p q)"
    and dir_neutral: "neutral (fs_dir F p)"
    and list_neutral: "neutral (fs_list F p n)"
begin

text \<open>\<open>sys_open\<close> calls \<open>stat\<close>, then \<open>open\<close>.\<close>

lemma stat_open_same:
  "fs_stat F p d s = Some (x, s1) \<Longrightarrow> fs_open F p b n s1 = Some (y, s2) \<Longrightarrow> same (kern s) (kern s2)"
  using neutralD [OF stat_neutral] neutralD [OF open_neutral] same_trans by blast

lemmas neutral_ops = open_neutral write_neutral remove_neutral stat_neutral mkdir_neutral rmdir_neutral rename_neutral
  dir_neutral list_neutral

end

lemma on_fat_neutral: "neutral (on_fat f)"
  by (auto simp: neutral_def on_fat_def same_def)

interpretation fat_neutral: task_neutral "fat_ops E" for E
  by unfold_locales (simp_all add: fat_ops_def on_fat_neutral)

lemma rd_kmalloc_same: "rd_kmalloc n (Some k) = (a, Some k') \<Longrightarrow> same k k'"
  using k_malloc_same by (auto simp: rd_kmalloc_def split: option.splits)

lemma sys_create_same: "sys_create E name data n s = Some (v, s') \<Longrightarrow> same (kern s) (kern s')"
  using rd_kmalloc_same [of RAMDISK_MAX_SIZE "kern s"]
  by (auto simp: sys_create_def rd_create_def Let_def split: option.splits prod.splits if_splits)

lemma sys_unlink_same: "sys_unlink name s = Some (v, s') \<Longrightarrow> same (kern s) (kern s')"
  by (auto simp: sys_unlink_def rd_remove_def Let_def split: prod.splits option.splits if_splits)

interpretation ram_neutral: task_neutral "ram_ops E" for E
  by unfold_locales (auto simp: ram_ops_def neutral_def rd_dir_def dest: sys_create_same sys_unlink_same)

interpretation ext2_neutral: task_neutral "ext2_ops E" for E
  by unfold_locales (auto simp: ext2_ops_def neutral_def on_e2_def ext2_dir_def default_list_def same_def)

text \<open>The dispatch to a mounted filesystem.\<close>

lemma fs_ops_neutral: "task_neutral (fs_ops E f)"
  by (cases f) (simp_all add: fs_ops_def fat_neutral.task_neutral_axioms ram_neutral.task_neutral_axioms ext2_neutral.task_neutral_axioms)

lemma neutral_case:
  "(\<And>a b. neutral (g a b)) \<Longrightarrow> neutral (\<lambda>s. case m of None \<Rightarrow> Some (x, s) | Some (a, b) \<Rightarrow> g a b s)"
  by (fastforce simp: neutral_def split: option.splits prod.splits)

lemma vfs_neutral:
  assumes "\<And>f. task_neutral (F f)"
  shows "neutral (vfs_open F v p b n)" "neutral (vfs_write F v p b n)" "neutral (vfs_remove F v p)" "neutral (vfs_stat F v p d)"
    "neutral (vfs_mkdir F v p)" "neutral (vfs_rmdir F v p)" "neutral (vfs_rename F v p q)" "neutral (vfs_dir F v p)" "neutral (vfs_list_dir F v p n)"
  using task_neutral.neutral_ops [OF assms]
  by (simp_all add: neutral_case vfs_open_def [abs_def] vfs_write_def [abs_def] vfs_remove_def [abs_def] vfs_stat_def [abs_def]
    vfs_mkdir_def [abs_def] vfs_rmdir_def [abs_def] vfs_dir_def [abs_def] vfs_list_dir_def [abs_def])
    (auto simp: neutral_def vfs_rename_def split: option.splits prod.splits if_splits)

lemmas fs_neutral = vfs_neutral [of "fs_ops E" for E, OF fs_ops_neutral]

section \<open>The other calls\<close>

lemma on_hid_neutral: "neutral (on_hid f)"
  by (auto simp: neutral_def on_hid_def split: option.splits)

lemma sys_read_rep: "rep (kern s) (sys_read E r s)"
  unfolding sys_read_def Let_def
  by (intro rep_rules rep_bytes) (auto dest!: neutralD [OF on_hid_neutral] intro: same_le)

lemma simple_reps:
  "rep (kern s) (sys_getcwd r s)" "rep (kern s) (sys_time E r s)" "rep (kern s) (sys_getfb r s)" "rep (kern s) (sys_mouse r s)"
  "rep (kern s) (sys_cls r s)" "rep (kern s) (sys_gfx_set_fg r s)" "rep (kern s) (sys_getpid r s)" "rep (kern s) (sys_meminfo r s)"
  "rep (kern s) (sys_task_list r s)" "rep (kern s) (sys_disk_read E r s)" "rep (kern s) (sys_disk_write E r s)"
  "rep (kern s) (sys_sigreturn r s)" "rep (kern s) (sys_rd_read E r s)" "rep (kern s) (sys_rd_list r s)"
  unfolding sys_getcwd_def sys_time_def sys_getfb_def sys_mouse_def sys_cls_def sys_gfx_set_fg_def sys_getpid_def sys_meminfo_def
    sys_task_list_def sys_disk_read_def sys_disk_write_def sys_sigreturn_def sys_rd_read_def sys_rd_list_def Let_def
  by (intro rep_rules rep_bytes; simp)+

lemma ioctl_rep: "rep (kern s) (sys_ioctl E r s)"
  unfolding sys_ioctl_def Let_def ioctl_pixel_def ioctl_shape_def ioctl_text_def ioctl_bitblt_def
  by (intro rep_rules rep_with_struct; simp)

lemma sys_kill_rep: "rep (kern s) (sys_kill r s)"
  unfolding sys_kill_def by (intro rep_rules) (auto simp: prod_eq_iff intro: task_send_signal_le)

lemma sys_drop_cap_rep: "rep (kern s) (sys_drop_cap r s)"
  unfolding sys_drop_cap_def using task_drop_cap_le [of "kern s" "r_ebx r"] by (intro rep_rules) simp

lemma sys_sigaction_rep: "rep (kern s) (sys_sigaction r s)"
  unfolding sys_sigaction_def Let_def by (intro rep_rules) (auto intro!: tk_le_step good_other)

lemma on_tasks_rep: "(\<And>r' k'. f r (kern s) = Some (r', k') \<Longrightarrow> tk_le (kern s) k') \<Longrightarrow> rep (kern s) (on_tasks f r s)"
  by (auto simp: on_tasks_def rep_def)

lemma rd_reps: "rep (kern s) (sys_rd_create E r s)" "rep (kern s) (sys_rd_remove E r s)"
  unfolding sys_rd_create_def sys_rd_remove_def Let_def
  by (intro rep_rules; auto dest!: sys_create_same sys_unlink_same intro: same_le)+

lemma path_call_rep: "(\<And>name. neutral (f name)) \<Longrightarrow> rep (kern s) (path_call E f r s)"
  unfolding path_call_def by (intro rep_with_name rep_rules) (auto dest!: neutralD intro: same_le)

lemma open_alloc_rep:
  shows "rep (kern s) (open_file E fd name r s)"
proof -
  note v = fs_neutral
  show ?thesis unfolding open_file_def Let_def
    by (intro rep_rules)
      (auto dest!: neutralD [OF v(4)] neutralD [OF v(1)] new_buf_same intro!: tk_le_step good_set_fd intro: same_le [OF same_trans [OF _ same_trans]] same_le same_trans)
qed

lemma sys_open_rep:
  shows "rep (kern s) (sys_open E r s)"
  unfolding sys_open_def open_named_def by (intro rep_with_name) (auto split: list.split intro!: rep_rules open_alloc_rep tk_le_step good_set_fd)

lemma sys_stat_rep:
  shows "rep (kern s) (sys_stat E r s)"
  unfolding sys_stat_def Let_def
  by (intro rep_with_name rep_rules rep_bytes) (auto dest!: neutralD [OF fs_neutral(4)] intro: same_le)

lemma sys_fsync_rep:
  shows "rep (kern s) (sys_fsync E r s)"
  unfolding sys_fsync_def Let_def
  by (intro rep_with_name rep_rules) (auto dest!: neutralD [OF fs_neutral(2)] intro: same_le)

lemma sys_fat_write_rep:
  shows "rep (kern s) (sys_fat_write E r s)"
  unfolding sys_fat_write_def Let_def
  by (intro rep_with_name rep_rules) (auto dest!: neutralD [OF fs_neutral(2)] intro: same_le)

lemma sys_fat_rename_rep:
  shows "rep (kern s) (sys_fat_rename E r s)"
  unfolding sys_fat_rename_def
  by (intro rep_with_name rep_rules) (auto dest!: neutralD [OF fs_neutral(7)] intro: same_le)

lemma sys_vfs_list_rep:
  shows "rep (kern s) (sys_vfs_list E r s)"
  unfolding sys_vfs_list_def Let_def
  by (intro rep_with_name rep_rules rep_bytes) (auto dest!: neutralD [OF fs_neutral(9)] intro: same_le)

lemma path_reps:
  shows "rep (kern s) (sys_fat_dir E r s)" "rep (kern s) (sys_fat_cd E r s)" "rep (kern s) (sys_fat_mkdir E r s)"
    "rep (kern s) (sys_fat_rmdir E r s)" "rep (kern s) (sys_fat_delete E r s)" "rep (kern s) (sys_vfs_dir E r s)"
proof -
  note v = fs_neutral
  show "rep (kern s) (sys_fat_dir E r s)" unfolding sys_fat_dir_def
    by (intro rep_rules) (auto dest!: neutralD [OF on_fat_neutral] intro: same_le)
  show "rep (kern s) (sys_fat_cd E r s)" unfolding sys_fat_cd_def by (intro path_call_rep on_fat_neutral)
  show "rep (kern s) (sys_fat_mkdir E r s)" "rep (kern s) (sys_fat_rmdir E r s)" "rep (kern s) (sys_fat_delete E r s)"
      "rep (kern s) (sys_vfs_dir E r s)"
    unfolding sys_fat_mkdir_def sys_fat_rmdir_def sys_fat_delete_def sys_vfs_dir_def
    by (intro path_call_rep; auto simp: neutral_def dest: neutralD [OF v(5)] neutralD [OF v(6)] neutralD [OF v(3)] neutralD [OF v(8)])+
qed

section \<open>Address spaces\<close>

lemma k_alloc_page_same: "k_alloc_page k = (a, k') \<Longrightarrow> same k k'"
  by (auto simp: k_alloc_page_def same_def split: prod.splits)

lemma map_owned_same: "same k (map_owned pd va pa flags k)"
  by (simp add: map_owned_def same_def)

lemma map_fresh_same: "map_fresh pd vas k = (x, k') \<Longrightarrow> same k k'"
proof (induction vas arbitrary: k x)
  case (Cons va vas)
  obtain pa k1 where a: "k_alloc_page k = (pa, k1)" by fastforce
  show ?case
  proof (cases "pa = 0")
    case False
    then have "\<exists>y. map_fresh pd vas (map_owned pd va pa PT_FLAGS k1) = (y, k')" using Cons.prems a by (auto split: prod.splits)
    then show ?thesis using Cons.IH k_alloc_page_same [OF a] map_owned_same same_trans by blast
  qed (use Cons.prems a k_alloc_page_same in auto)
qed simp

lemma sys_sbrk_rep: "rep (kern s) (sys_sbrk r s)"
  unfolding sys_sbrk_def Let_def by (intro rep_rules) (auto dest!: map_fresh_same intro: same_le)

lemma new_paging_same: "new_paging k = Some (a, k') \<Longrightarrow> same k k'"
  by (auto simp: new_paging_def same_def split: option.splits if_splits prod.splits dest!: k_malloc_same)

lemma exec_fill_same: "exec_fill pd data sz offs k = Some k' \<Longrightarrow> same k k'"
proof (induction offs arbitrary: k)
  case (Cons off offs)
  then obtain m where "exec_fill pd data sz offs (set_ram m k) = Some k'" by (auto split: option.splits)
  then show ?case using Cons.IH same_prims(8) same_trans by blast
qed simp

lemma clear_pages_same: "same k (clear_pages pd vas k)"
proof -
  have "same k (fold (\<lambda>va k. set_ram (f va k) k) vas k)" for f
  proof (induction vas arbitrary: k)
    case (Cons va vas)
    then show ?case using same_prims(8) same_trans by fastforce
  qed simp
  then show ?thesis by (simp add: clear_pages_def)
qed

lemma exec_build_same:
  assumes "exec_build np data sz k = Some (ok, k')"
  shows "same k k'"
proof -
  let ?n = "unat (exec_map_size sz div 0x1000)"
  obtain x1 k1 where 1: "map_fresh np (pages_from load_addr ?n) k = (x1, k1)" by fastforce
  obtain x2 k2 where 2: "map_fresh np (pages_from stack_base 16) k1 = (x2, k2)" by fastforce
  define k3 where "k3 = (if ld32 (ram (ph k2)) 0x500 \<ge> 0x100000
    then set_ram (map_user_4mb (ld32 (ram (ph k2)) 0x500) (ld32 (ram (ph k2)) 0x500) (pgr k2 np) (ram (ph k2))) k2 else k2)"
  have s1: "same k k1" and s2: "same k k2" using map_fresh_same [OF 1] map_fresh_same [OF 2] same_trans by blast+
  have s3: "same k k3" using s2 same_trans by (auto simp: k3_def)
  consider "k' = delete_paging np k1" | "k' = delete_paging np k2" | "k' = delete_paging np k3"
      | k4 where "exec_fill np data sz (pages_from 0 ?n) k3 = Some k4" "k' = clear_pages np (pages_from stack_base 16) k4"
    using assms 1 2 unfolding exec_build_def Let_def k3_def [symmetric] by (auto split: prod.splits if_splits simp: k3_def [symmetric])
  then show ?thesis
  proof cases
    case 4
    then show ?thesis using same_trans [OF s3 same_trans [OF exec_fill_same clear_pages_same]] by simp
  qed (use s1 s2 s3 same_prims(3) same_trans in blast)+
qed

lemma push_same: "push_all vs x = (sp, k) \<Longrightarrow> same (snd x) k"
proof (induction vs arbitrary: x)
  case (Cons v vs)
  have "same (snd x) (snd (push v x))" by (simp add: push_def same_def split: prod.split)
  then show ?case using Cons same_trans by (auto simp: push_all_def)
qed (simp add: push_all_def)

lemma push_pusha_same: "push_pusha x = (sp, k) \<Longrightarrow> same (snd x) k"
proof -
  assume a: "push_pusha x = (sp, k)"
  obtain sp1 k1 where 1: "push_all [0, 0x20, 0, 0, 0, 0] x = (sp1, k1)" by fastforce
  have p: "same k1 (snd (push v (sp1, k1)))" for v by (simp add: push_def same_def)
  show ?thesis using a 1 push_same [OF 1] push_same [of "[0, 0, 0]" "push (sp1 - 4 - 12) (sp1, k1)" sp k] p same_trans
    by (auto simp: push_pusha_def) blast
qed

lemma exec_switch_le: "tk_le k (exec_switch np k)"
proof -
  let ?c = "current_task k"
  define k1 where "k1 = (if paging (tsk k ?c) \<noteq> 0 \<and> paging (tsk k ?c) \<noteq> kernel_paging k then delete_paging (paging (tsk k ?c)) k else k)"
  define k2 where "k2 = load_paging np (upd ?c (\<lambda>t. t\<lparr>paging := np\<rparr>) k1)"
  have 1: "tk_le k k1" by (simp add: k1_def same_le)
  have 2: "tk_le k k2" unfolding k2_def using tk_le_trans [OF tk_le_trans [OF 1 tk_le_other] same_le [OF same_prims(4)]] by simp
  obtain sp k3 where 3: "push_pusha (push_all [0x23, stack_top, 0x202, 0x2B, load_addr] (kernel_stack (tsk k2 ?c) + KSTACK_SIZE, k2)) = (sp, k3)"
    by fastforce
  have "same k2 (snd (push_all [0x23, stack_top, 0x202, 0x2B, load_addr] (kernel_stack (tsk k2 ?c) + KSTACK_SIZE, k2)))"
    using push_same [of _ "(_, k2)"] by (metis prod.exhaust_sel snd_conv)
  then have "same k2 k3" using push_pusha_same [OF 3] same_trans by blast
  then have "tk_le k k3" using 2 tk_le_same by blast
  moreover have "exec_switch np k = upd ?c (\<lambda>t. t\<lparr>t_eip := load_addr, t_esp := sp, t_eflags := 0x202, user_stack := stack_top,
      user_esp := stack_top, user_ss := 0x23\<rparr>) k3"
    using 3 unfolding exec_switch_def Let_def k1_def [symmetric] k2_def [symmetric] by simp
  ultimately show ?thesis using tk_le_trans [OF _ tk_le_other] by simp
qed

lemma exec_replace_le:
  assumes "exec_replace_address_space E r data sz s = Some (x, s')"
  shows "tk_le (kern s) (kern s')"
proof -
  obtain np k0 where n: "new_paging (kern s) = Some (np, k0)"
    using assms by (auto simp: exec_replace_address_space_def split: option.splits)
  have 0: "tk_le (kern s) k0" using new_paging_same [OF n] same_le by blast
  consider "kern s' = delete_paging np k0" | ok k1 where "exec_build np data sz k0 = Some (ok, k1)" "kern s' = k1 \<or> kern s' = exec_switch np k1"
    using assms n by (auto simp: exec_replace_address_space_def split: option.splits if_splits)
  then show ?thesis
  proof cases
    case 1
    then show ?thesis using 0 same_prims(3) tk_le_same by metis
  next
    case 2
    then have "tk_le (kern s) k1" using 0 exec_build_same tk_le_same by blast
    then show ?thesis using 2(2) exec_switch_le tk_le_trans by metis
  qed
qed

lemma sys_exec_rep:
  shows "rep (kern s) (sys_exec E r s)"
proof -
  note o = neutralD [OF fs_neutral(1)]
  have e: "tk_le (kern s) (kern s4)" if "same (kern s) (kern s1)" "vfs_open (fs_ops E) v p b n s1 = Some (y, s2)"
    "exec_replace_address_space E r bs sz (set_buf_at a bs s2) = Some (x, s4)" for n a s1 v p b y s2 bs sz x s4
    using same_le [OF same_trans [OF that(1) o [OF that(2)]]] exec_replace_le [OF that(3)]
    by (metis set_buf_at_le tk_le_trans)
  show ?thesis unfolding sys_exec_def Let_def
    by (intro rep_with_name rep_rules) (auto dest: e dest!: new_buf_same intro: same_le same_trans o)
qed

lemma sys_exec_fd_rep: "rep (kern s) (sys_exec_fd E r s)"
  unfolding sys_exec_fd_def Let_def by (intro rep_rules) (auto dest: exec_replace_le)

section \<open>Fork\<close>

text \<open>All but one struct as before; that one has at most the caller's capabilities and, if its arrays have their
  lengths and the caller's table is well typed, a well-typed table. It is a new one: when the tasks' structs
  are live in the heap, it is none of them.\<close>

abbreviation tasks_held :: "kst \<Rightarrow> bool" where
  "tasks_held k \<equiv> held (kheap k) (set (all_tasks k))"

definition forked :: "kst \<Rightarrow> u32 \<Rightarrow> kst \<Rightarrow> bool" where
  "forked k child k' =
     (set (all_tasks k') \<subseteq> insert child (set (all_tasks k)) \<and> (tasks_held k \<longrightarrow> child \<notin> set (all_tasks k)) \<and>
      at_most (\<lambda>a. a \<noteq> child) k k' \<and>
      cap_le (task_struct.caps (tsk k' child)) (task_struct.caps (cur k)) \<and>
      (lens (tsk k child) \<longrightarrow> lens (tsk k' child)) \<and>
      (tab_ok (cur k) \<and> lens (tsk k child) \<and> (child \<in> set (all_tasks k) \<longrightarrow> tab_ok (tsk k child)) \<and> child \<in> set (all_tasks k') \<longrightarrow>
        tab_ok (tsk k' child)))"

definition any_le :: "kst \<Rightarrow> kst \<Rightarrow> bool" where
  "any_le k k' = (tk_le k k' \<or> (\<exists>child. forked k child k'))"

lemma forked_after:
  assumes "forked k child k'" "tk_le k' k''"
  shows "forked k child k''"
proof -
  have t: "set (all_tasks k'') \<subseteq> set (all_tasks k')" "\<And>P. at_most P k' k''"
    "cap_le (task_struct.caps (tsk k'' child)) (task_struct.caps (tsk k' child))"
    "lens (tsk k' child) \<Longrightarrow> lens (tsk k'' child)" "tab_ok (tsk k' child) \<Longrightarrow> tab_ok (tsk k'' child)"
    using assms(2) by (simp_all add: tk_le_def at_most_def)
  have "at_most (\<lambda>a. a \<noteq> child) k k''" using assms(1) t(2) at_most_trans by (fastforce simp: forked_def)
  moreover have "cap_le (task_struct.caps (tsk k'' child)) (task_struct.caps (cur k))"
    using assms(1) t(3) cap_le_trans by (auto simp: forked_def)
  ultimately show ?thesis using assms(1) t(1,4,5) unfolding forked_def by blast
qed

lemma any_le_after: "any_le k k' \<Longrightarrow> tk_le k' k'' \<Longrightarrow> any_le k k''"
  unfolding any_le_def using forked_after tk_le_trans by blast

lemma any_le_before: "same k k0 \<Longrightarrow> (tasks_held k \<Longrightarrow> tasks_held k0) \<Longrightarrow> any_le k0 k' \<Longrightarrow> any_le k k'"
  by (auto simp: any_le_def forked_def tk_le_def at_most_def same_def)

lemma k_malloc_tasks:
  assumes "k_malloc n k = Some (a, k')" "tasks_held k"
  shows "tasks_held k'" "a \<noteq> 0 \<Longrightarrow> a \<notin> set (all_tasks k)"
proof -
  have "(if a = 0 then held (kheap k') (set (all_tasks k)) else a \<notin> set (all_tasks k) \<and> held (kheap k') (insert a (set (all_tasks k)))) \<and>
    all_tasks k' = all_tasks k" using k_malloc_owned [OF assms(2,1)] by auto
  then show "tasks_held k'" "a \<noteq> 0 \<Longrightarrow> a \<notin> set (all_tasks k)" by (auto split: if_splits intro: held_mono)
qed

lemma new_paging_tasks: "new_paging k = Some (a, k') \<Longrightarrow> tasks_held k \<Longrightarrow> tasks_held k'"
  by (auto simp: new_paging_def Let_def split: option.splits prod.splits if_splits dest: k_malloc_tasks(1))

lemma fork_pdes_heap: "fork_pdes pa child pdes k = (ok, k') \<Longrightarrow> kheap k' = kheap k"
proof -
  have m: "kheap (map_owned pd va x fl k1) = kheap k1" "k_alloc_page k2 = (y, k3) \<Longrightarrow> kheap k3 = kheap k2" for pd va x fl k1 k2 y k3
    by (auto simp: map_owned_def k_alloc_page_def Let_def split: prod.splits)
  have p: "fork_ptes child pde src ptes k1 = (ok1, k2) \<Longrightarrow> kheap k2 = kheap k1" for src ptes k1 ok1 k2 pde
    by (induction ptes arbitrary: k1) (auto simp: Let_def m(1) set_ram_def split: if_splits prod.splits dest: m(2))
  show "fork_pdes pa child pdes k = (ok, k') \<Longrightarrow> kheap k' = kheap k"
    by (induction pdes arbitrary: k) (auto simp: Let_def set_ram_def split: if_splits prod.splits dest: p)
qed

lemma fork_ptes_same: "fork_ptes child pde src ptes k = (ok, k') \<Longrightarrow> same k k'"
proof (induction ptes arbitrary: k)
  case (Cons pte ptes)
  obtain pa k1 where a: "k_alloc_page k = (pa, k1)" by fastforce
  have s: "same k (map_owned child va pa fl (set_ram m k1))" for va fl m
    using k_alloc_page_same [OF a] map_owned_same same_prims(8) same_trans by meson
  show ?case using Cons.prems a
    by (auto simp: Let_def split: if_splits intro: Cons.IH same_trans [OF s Cons.IH] k_alloc_page_same)
qed simp

lemma fork_pdes_same: "fork_pdes pa child pdes k = (ok, k') \<Longrightarrow> same k k'"
proof (induction pdes arbitrary: k)
  case (Cons pde pdes)
  show ?case using Cons.prems
    by (auto simp: Let_def split: if_splits prod.splits
      intro: Cons.IH same_trans [OF same_prims(8) Cons.IH] same_trans [OF fork_ptes_same Cons.IH] fork_ptes_same)
qed simp

text \<open>The loop over the descriptors: it writes the child's table only.\<close>

definition fd_copy_inv :: "kst \<Rightarrow> u32 \<Rightarrow> nat \<Rightarrow> kst \<Rightarrow> bool" where
  "fd_copy_inv k child i k' =
     (all_tasks k' = all_tasks k \<and> current_task k' = current_task k \<and> (\<forall>a. a \<noteq> child \<longrightarrow> tsk k' a = tsk k a) \<and>
      task_struct.caps (tsk k' child) = task_struct.caps (tsk k child) \<and> (lens (tsk k child) \<longrightarrow> lens (tsk k' child)) \<and>
      (tab_ok (cur k) \<and> tab_ok (tsk k child) \<longrightarrow> tab_ok (tsk k' child)) \<and>
      (tab_ok (cur k) \<and> lens (tsk k child) \<longrightarrow> tab_ok (cur k') \<and> (\<forall>j<i. fd_type (tsk k' child) ! j \<le> 7)))"

lemma fd_copy_trans:
  assumes "fd_copy_inv k child i k1" "fd_copy_inv k1 child 0 k2" "\<forall>j<i. fd_type (tsk k2 child) ! j = fd_type (tsk k1 child) ! j"
  shows "fd_copy_inv k child i k2"
  using assms unfolding fd_copy_inv_def by (cases "child = current_task k") auto

lemma fd_copy_write:
  assumes "fd_copy_inv k child i k1" "i < MAX_FD" "tsk k2 = (tsk k1)(child := t')" "all_tasks k2 = all_tasks k1" "current_task k2 = current_task k1"
    "task_struct.caps t' = task_struct.caps (tsk k1 child)" "fd_type t' = (fd_type (tsk k1 child))[i := fd_type (cur k1) ! i]"
    "lens (tsk k1 child) \<Longrightarrow> lens t'"
  shows "fd_copy_inv k child (Suc i) k2"
proof -
  let ?t = "tsk k1 child" and ?c = "cur k1"
  have tab: "tab_ok t'" if "tab_ok ?c" "tab_ok ?t"
    using that assms(2,7,8) set_update_subset_insert [of "fd_type ?t" i "fd_type ?c ! i"] tab_okD [OF that(1)] by (fastforce simp: tab_ok_def)
  have new: "\<forall>j<Suc i. fd_type t' ! j \<le> 7" if "tab_ok ?c" "lens ?t" "\<forall>j<i. fd_type ?t ! j \<le> 7"
    using that(2,3) assms(2,7) tab_okD(2) [OF that(1) assms(2)] by (auto simp: lens_def nth_list_update less_Suc_eq)
  show ?thesis
  proof (cases "child = current_task k")
    case True
    then show ?thesis using assms(1,3-6,8) tab new unfolding fd_copy_inv_def by (auto dest: tab_okD(1))
  next
    case False
    then have "cur k2 = ?c" "?c = cur k" using assms(1,3,5) by (auto simp: fd_copy_inv_def)
    then show ?thesis using assms(1,3-6,8) tab new unfolding fd_copy_inv_def by (auto dest: tab_okD(1))
  qed
qed

lemma fork_fd_step:
  assumes "fork_fd E child i s = Some (ok, s')" "fd_copy_inv k child i (kern s)" "i < MAX_FD"
  shows "fd_copy_inv k child (Suc i) (kern s')"
proof -
  let ?t = "tsk (kern s) child" and ?b = "fd_buf (ct s) ! i" and ?sz = "fd_size (ct s) ! i" and ?ty = "fd_type (ct s) ! i"
  let ?t1 = "set_fd i ?b ?sz (fd_pos (ct s) ! i) ?ty ?t"
  define s1 where "s1 = onk (upd child (set_fd i ?b ?sz (fd_pos (ct s) ! i) ?ty)) s"
  have t1: "tsk (kern s1) = (tsk (kern s))(child := ?t1)" "all_tasks (kern s1) = all_tasks (kern s)" "current_task (kern s1) = current_task (kern s)"
    by (simp_all add: s1_def upd_def)
  have "\<exists>k2. same (kern s1) k2 \<and> (kern s' = k2 \<or> (\<exists>nb. kern s' = upd child (\<lambda>t. t\<lparr>fd_buf := (fd_buf t)[i := nb]\<rparr>) k2))"
  proof (cases "?ty = 1 \<and> ?b \<noteq> 0")
    case True
    then obtain nb s2 where c: "copy_file_buf E ?b ?sz s1 = Some (nb, s2)"
        "s' = (if nb = 0 then s2 else onk (upd child (\<lambda>t. t\<lparr>fd_buf := (fd_buf t)[i := nb]\<rparr>)) s2)"
      using assms(1) unfolding fork_fd_def Let_def s1_def [symmetric] by (auto split: option.splits if_splits)
    show ?thesis using copy_file_buf_same [OF c(1)] c(2) by (intro exI [of _ "kern s2"]) auto
  next
    case False
    then have "s' = s1 \<or> (\<exists>p. s' = set_pipe ?b p s1)"
      using assms(1) unfolding fork_fd_def Let_def s1_def [symmetric] by (auto split: if_splits)
    then show ?thesis using set_pipe_same same_refl by blast
  qed
  then obtain k2 where k2: "same (kern s1) k2" "kern s' = k2 \<or> (\<exists>nb. kern s' = upd child (\<lambda>t. t\<lparr>fd_buf := (fd_buf t)[i := nb]\<rparr>) k2)" by blast
  have t2: "tsk k2 = (tsk (kern s))(child := ?t1)" "all_tasks k2 = all_tasks (kern s)" "current_task k2 = current_task (kern s)"
    using k2(1) t1 by (simp_all add: same_def)
  have "fd_type ?t1 = (fd_type ?t)[i := ?ty]" "task_struct.caps ?t1 = task_struct.caps ?t" "lens ?t \<Longrightarrow> lens ?t1"
    by (simp_all add: set_fd_def lens_def)
  then have t': "fd_type (tsk (kern s') child) = (fd_type ?t)[i := ?ty]" "task_struct.caps (tsk (kern s') child) = task_struct.caps ?t"
      "lens ?t \<Longrightarrow> lens (tsk (kern s') child)" "tsk (kern s') = (tsk (kern s))(child := tsk (kern s') child)"
      "all_tasks (kern s') = all_tasks (kern s)" "current_task (kern s') = current_task (kern s)"
    using k2(2) t2 by (auto simp: upd_def lens_def)
  show ?thesis by (rule fd_copy_write [OF assms(2,3) t'(4-6,2,1,3)])
qed

lemma unfork_same: "same (kern s) (kern (fold (unfork_fd child) js s))"
proof (induction js arbitrary: s)
  case (Cons j js)
  have "same (kern s) (kern (unfork_fd child j s))" by (simp add: unfork_fd_def Let_def)
  then show ?case using Cons.IH same_trans by fastforce
qed simp

lemma fork_fds_inv:
  assumes "fork_fds E child [i..<MAX_FD] s = Some (ok, s')" "fd_copy_inv k child i (kern s)" "i \<le> MAX_FD"
  shows "fd_copy_inv k child (if ok then MAX_FD else 0) (kern s')"
  using assms
proof (induction "MAX_FD - i" arbitrary: i s)
  case 0
  then show ?case by simp
next
  case (Suc n)
  then have i: "i < MAX_FD" "[i..<MAX_FD] = i # [Suc i..<MAX_FD]" by (auto simp: upt_rec)
  obtain ok1 s1 where f: "fork_fd E child i s = Some (ok1, s1)"
    using Suc.prems(1) unfolding i(2) fork_fds.simps by (cases "fork_fd E child i s") auto
  have s1: "(if ok1 then fork_fds E child [Suc i..<MAX_FD] s1 else Some (False, fold (unfork_fd child) [0..<i] s1)) = Some (ok, s')"
    using Suc.prems(1) unfolding i(2) fork_fds.simps f by (simp only: option.case prod.case)
  note st = fork_fd_step [OF f Suc.prems(2) i(1)]
  show ?case
  proof (cases ok1)
    case True
    then have "fork_fds E child [Suc i..<MAX_FD] s1 = Some (ok, s')" using s1 by simp
    moreover have "n = MAX_FD - Suc i" using Suc.hyps(2) by simp
    ultimately show ?thesis using Suc.hyps(1) st i(1) by simp
  next
    case False
    then have "ok = False" "s' = fold (unfork_fd child) [0..<i] s1" using s1 by auto
    then show ?thesis using st unfork_same [of s1 child "[0..<i]"] by (auto simp: fd_copy_inv_def same_def)
  qed
qed

text \<open>A struct filled by \<open>fork\<close>, its table still to come.\<close>

lemma fork_struct_facts:
  "task_struct.caps (fork_struct r p st pd c par j) = task_struct.caps par" "lens j \<Longrightarrow> lens (fork_struct r p st pd c par j)"
  "tab_ok j \<Longrightarrow> tab_ok (fork_struct r p st pd c par j)" "fd_type (fork_struct r p st pd c par j) = fd_type j"
  by (auto simp: fork_struct_def lens_def tab_ok_def)

lemma fork_forked:
  assumes i: "fd_copy_inv k3 child n k4" and k3: "tsk k3 = (tsk k)(child := fork_struct r p st pd (current_task k) (cur k) (tsk k child))"
      "all_tasks k3 = all_tasks k" "current_task k3 = current_task k"
    and k5: "tsk k5 = (tsk k4)(current_task k := f (cur k4), child := g (if child = current_task k then f (cur k4) else tsk k4 child))"
      "set (all_tasks k5) \<subseteq> insert child (set (all_tasks k))" "child \<in> set (all_tasks k5) \<Longrightarrow> n = MAX_FD \<or> child \<in> set (all_tasks k)"
    and good: "good_upd f" "good_upd g" and new: "tasks_held k \<Longrightarrow> child \<notin> set (all_tasks k)"
  shows "forked k child k5"
proof -
  let ?s = "fork_struct r p st pd (current_task k) (cur k) (tsk k child)"
  have c3: "tsk k3 child = ?s" "cur k3 = (if child = current_task k then ?s else cur k)" using k3 by auto
  have good': "cap_le (task_struct.caps (f t)) (task_struct.caps t)" "cap_le (task_struct.caps (g t)) (task_struct.caps t)" "lens t \<Longrightarrow> lens (f t)"
      "lens t \<Longrightarrow> lens (g t)" "tab_ok t \<Longrightarrow> tab_ok (f t)" "tab_ok t \<Longrightarrow> tab_ok (g t)" for t
    using good by (auto simp: good_upd_def)
  have c4: "task_struct.caps (tsk k4 child) = task_struct.caps (cur k)" "lens (tsk k child) \<Longrightarrow> lens (tsk k4 child)"
      "\<And>a. a \<noteq> child \<Longrightarrow> tsk k4 a = tsk k a" "current_task k4 = current_task k"
    using i k3 c3 fork_struct_facts by (auto simp: fd_copy_inv_def)
  have cur3: "tab_ok (cur k3)" if "tab_ok (cur k)" using that c3(2) fork_struct_facts(3) by (auto split: if_splits)
  have tab: "tab_ok (tsk k4 child)" if "tab_ok (cur k)" "lens (tsk k child)" "n = MAX_FD \<or> tab_ok (tsk k child)"
  proof -
    have l: "lens (tsk k3 child)" "lens (tsk k4 child)"
      using c3(1) fork_struct_facts(2) c4(2) \<open>lens (tsk k child)\<close> by simp_all
    have "\<forall>j<n. fd_type (tsk k4 child) ! j \<le> 7" using i cur3 [OF \<open>tab_ok (cur k)\<close>] l(1) unfolding fd_copy_inv_def by blast
    then have "tab_ok (tsk k4 child)" if "n = MAX_FD" using l(2) that unfolding tab_ok_def lens_def all_set_conv_all_nth by simp
    moreover have "tab_ok (tsk k4 child)" if "tab_ok (tsk k child)"
      using i cur3 [OF \<open>tab_ok (cur k)\<close>] c3(1) fork_struct_facts(3) [OF that] by (auto simp: fd_copy_inv_def)
    ultimately show ?thesis using that(3) by blast
  qed
  have ch: "tsk k5 child = g (if child = current_task k then f (tsk k4 child) else tsk k4 child)" using k5(1) c4(4) by auto
  have "at_most (\<lambda>a. a \<noteq> child) k k5"
    unfolding at_most_def k5(1) using c4(3,4) good'(1,3,5) by simp
  moreover have "cap_le (task_struct.caps (tsk k5 child)) (task_struct.caps (cur k))"
    unfolding ch using c4(1) good'(1,2) cap_le_trans by (cases "child = current_task k") (simp_all, metis+)
  moreover have "lens (tsk k5 child)" if "lens (tsk k child)" using ch c4(2) [OF that] good'(3,4) by auto
  moreover have "tab_ok (tsk k5 child)" if "tab_ok (tsk k4 child)" using ch that good'(5,6) by auto
  ultimately show ?thesis unfolding forked_def using k5(2,3) tab new by blast
qed

lemma fork_task_any:
  assumes "fork_task E r pd s = Some (r', s')"
  shows "any_le (kern s) (kern s')"
proof -
  obtain child k1 st k2 where m: "k_malloc TASK_SIZE (kern s) = Some (child, k1)" "k_malloc KSTACK_SIZE k1 = Some (st, k2)"
    using assms by (auto simp: fork_task_def split: option.splits)
  have k2: "same (kern s) k2" using k_malloc_same [OF m(1)] k_malloc_same [OF m(2)] same_trans by blast
  let ?c = "current_task k2" and ?k = "kern s"
  define k3 where "k3 = upd child (fork_struct r (next_pid k2) st pd ?c (tsk k2 ?c)) (k2\<lparr>next_pid := next_pid k2 + 1, freed := freed k2 - {child}\<rparr>)"
  show ?thesis
  proof (cases "child = 0 \<or> st = 0")
    case True
    then have "kern s' = delete_paging pd (k_free st (k_free child k2))"
      using assms m by (auto simp: fork_task_def ret_def)
    then have "same ?k (kern s')" using k2 by (simp add: same_def k_defs)
    then show ?thesis using same_le by (auto simp: any_le_def)
  next
    case False
    then obtain ok s4 where s4: "fork_fds E child [0..<MAX_FD] (s\<lparr>kern := k3\<rparr>) = Some (ok, s4)"
      and s': "(if ok then fork_link E r child st s4 else fail r (onk (\<lambda>k. delete_paging pd (k_free st (k_free child k))) s4)) = Some (r', s')"
      using assms m by (auto simp: fork_task_def Let_def k3_def [symmetric] split: option.splits)
    have "fd_copy_inv k3 child 0 k3" by (simp add: fd_copy_inv_def)
    then have i: "fd_copy_inv k3 child (if ok then MAX_FD else 0) (kern s4)" using fork_fds_inv [OF s4] by simp
    have f3: "tsk k3 = (tsk ?k)(child := fork_struct r (next_pid k2) st pd (current_task ?k) (cur ?k) (tsk ?k child))"
        "all_tasks k3 = all_tasks ?k" "current_task k3 = current_task ?k"
      using k2 by (simp_all add: k3_def upd_def same_def)
    have f4: "all_tasks (kern s4) = all_tasks ?k" "current_task (kern s4) = current_task ?k"
      using i f3 by (simp_all add: fd_copy_inv_def)
    let ?f = "\<lambda>t :: task_struct. t\<lparr>children := children t @ [child]\<rparr>" and ?g = "\<lambda>t :: task_struct. t\<lparr>t_esp := st + KSTACK_SIZE - 60 + 32\<rparr>"
    have new: "tasks_held ?k \<Longrightarrow> child \<notin> set (all_tasks ?k)" using k_malloc_tasks(2) [OF m(1)] False by blast
    have "forked ?k child (kern s')"
    proof (cases ok)
      case True
      have k: "tsk (kern s') = (tsk (kern s4))(current_task ?k := ?f (cur (kern s4)),
            child := ?g (if child = current_task ?k then ?f (cur (kern s4)) else tsk (kern s4) child))"
          "all_tasks (kern s') = all_tasks (kern s4) @ [child]"
        using s' True f4(2) by (auto simp: fork_link_def Let_def ret_def upd_def set_ram_def all_add_tail_def rq_add_tail_def)
      have g: "good_upd ?f" "good_upd ?g" by (auto intro: good_other)
      show ?thesis by (rule fork_forked [OF i f3 k(1) _ _ g new]) (use True k(2) f4(1) in auto)
    next
      case False
      then have k: "tsk (kern s') = tsk (kern s4)" "all_tasks (kern s') = all_tasks (kern s4)"
        using s' by (auto simp: ret_def k_defs)
      have g: "good_upd id" by (simp add: good_upd_def)
      show ?thesis by (rule fork_forked [OF i f3 _ _ _ g g new]) (use False k f4 in auto)
    qed
    then show ?thesis by (auto simp: any_le_def)
  qed
qed

lemma sys_fork_any:
  assumes "sys_fork E r s = Some (r', s')"
  shows "any_le (kern s) (kern s')"
proof -
  consider "tk_le (kern s) (kern s')"
    | a k1 ok k2 where "new_paging (kern s) = Some (a, k1)" "fork_pdes (paging (ct s)) a (drop 1 entries) k1 = (ok, k2)"
        "kern s' = delete_paging a k2 \<or> fork_task E r a (s\<lparr>kern := k2\<rparr>) = Some (r', s')"
    using assms by (auto simp: sys_fork_def Let_def ret_def split: if_splits option.splits prod.splits)
  then show ?thesis
  proof cases
    case 2
    then have k2: "same (kern s) k2" using new_paging_same fork_pdes_same same_trans by blast
    have h2: "tasks_held (kern s) \<Longrightarrow> tasks_held k2"
      using new_paging_tasks [OF 2(1)] fork_pdes_heap [OF 2(2)] fork_pdes_same [OF 2(2)] by (simp add: same_def)
    show ?thesis using 2(3)
    proof
      assume "kern s' = delete_paging a k2"
      then have "tk_le (kern s) (kern s')" using k2 same_prims(3) same_le same_trans by metis
      then show ?thesis by (simp add: any_le_def)
    next
      assume "fork_task E r a (s\<lparr>kern := k2\<rparr>) = Some (r', s')"
      from fork_task_any [OF this] show ?thesis using any_le_before [OF k2 h2] by simp
    qed
  qed (simp add: any_le_def)
qed

section \<open>Dispatcher and interrupts\<close>

lemmas fd_reps = sys_write_rep sys_fwrite_rep sys_fread_rep sys_close_rep sys_lseek_rep sys_dup_rep sys_dup2_rep sys_pipe_rep
  sys_set_outfd_rep sys_gfx_putc_rep sys_gfx_puts_rep

lemmas other_reps = sys_read_rep simple_reps ioctl_rep sys_kill_rep sys_drop_cap_rep sys_sigaction_rep rd_reps sys_sbrk_rep sys_exec_fd_rep

lemmas vfs_reps = sys_open_rep sys_stat_rep sys_fsync_rep sys_fat_write_rep sys_fat_rename_rep sys_vfs_list_rep path_reps sys_exec_rep

lemma rep_fun_if: "(c \<Longrightarrow> rep k (f r s)) \<Longrightarrow> (\<not> c \<Longrightarrow> rep k (g r s)) \<Longrightarrow> rep k ((if c then f else g) r s)"
  by simp

lemma sys_table_rep:
  assumes "n \<noteq> 24"
  shows "rep (kern s) (sys_table E n r s)"
proof -
  have t: "rep (kern s) (on_tasks sys_sleep r s)" "rep (kern s) (on_tasks sys_waitpid r s)"
    by (auto intro: on_tasks_rep sys_sleep_le sys_waitpid_le)
  show ?thesis unfolding sys_table_def
    by (intro rep_fun_if) (use assms in \<open>simp_all add: fd_reps other_reps vfs_reps t rep_rules\<close>)
qed

text \<open>The state an interrupt leaves behind, whichever way control goes on.\<close>

fun out_sys :: "'d outcome \<Rightarrow> 'd sys" where
  "out_sys (Ret r s) = s"
| "out_sys (Jump r s) = s"
| "out_sys (Boot s) = s"
| "out_sys (Panic s) = s"

lemma lift_resume_sys: "kern (out_sys (lift_resume s x)) = res_kst x"
  by (cases x) (simp_all add: lift_resume_def)

lemma do_exit_le: "do_exit E r code s = Some x \<Longrightarrow> tk_le (kern s) (kern (out_sys x))"
  by (auto simp: do_exit_def exit_log_def Let_def lift_resume_sys split: if_splits dest: task_do_exit_le)

lemma sys_exit_le: "sys_exit E r s = Some x \<Longrightarrow> tk_le (kern s) (kern (out_sys x))"
  unfolding sys_exit_def by (rule tk_le_trans [OF cleanup_le [of "say E _ s", unfolded kern_say] do_exit_le])

lemma and_then_Some:
  "and_then y f = Some x \<longleftrightarrow> (\<exists>z. y = Some z \<and> (case z of Ret r s \<Rightarrow> f r s = Some x | _ \<Rightarrow> x = z))"
  by (auto simp: and_then_def split: option.split outcome.split)

lemma sig_loop_le: "sig_loop E sigs r s = Some x \<Longrightarrow> tk_le (kern s) (kern (out_sys x))"
proof (induction sigs arbitrary: s)
  case (Cons sig sigs)
  let ?clr = "\<lambda>t. t\<lparr>pending_signals := pending_signals t AND NOT (sig_bit sig)\<rparr>"
  define s1 where "s1 = updc ?clr s"
  have 1: "tk_le (kern s) (kern s1)" by (simp add: s1_def tk_le_other)
  have good: "good_upd (\<lambda>t. t\<lparr>sig_saved_eip := e, sig_saved_esp := p\<rparr>)" for e p by (rule good_other) simp_all
  have 3: "tk_le (kern s1) (kern s4)" if "to_user va b n (updc f (say E m s1)) = Some (ok, s4)" "good_upd f" for va b n f m ok s4
    using tk_le_trans [OF tk_le_upd [OF that(2)] same_le [OF to_user_same [OF that(1), unfolded kern_updc]]] by simp
  have exit: "tk_le (kern s1) (kern (out_sys x))" if "do_exit E r code (syscall_cleanup_fds t (say E m s1)) = Some x" for code t m
    using do_exit_le [OF that] cleanup_le [of "say E m s1" t] tk_le_trans by fastforce
  have "tk_le (kern s) (kern (out_sys x)) \<or> tk_le (kern s1) (kern (out_sys x))"
    using Cons.prems unfolding sig_loop.simps Let_def s1_def [symmetric]
    by (auto split: if_splits option.splits dest: exit Cons.IH intro: tk_le_trans tk_le_trans [OF _ Cons.IH] dest!: 3 [OF _ good])
  then show ?case using 1 tk_le_trans by blast
qed auto

lemma check_signals_le: "task_check_signals E r s = Some x \<Longrightarrow> tk_le (kern s) (kern (out_sys x))"
  by (auto simp: task_check_signals_def split: if_splits dest: sig_loop_le)

lemma syscall_handler_any:
  assumes "syscall_handler E r s = Some x"
  shows "any_le (kern s) (kern (out_sys x))" "r_eax r \<noteq> 24 \<Longrightarrow> tk_le (kern s) (kern (out_sys x))"
proof -
  have l: "kern (log_call E r s) = kern s" by (simp add: log_call_def)
  have 24: "sys_table E 24 = sys_fork E" by (simp add: sys_table_def)
  show le: "tk_le (kern s) (kern (out_sys x))" if "r_eax r \<noteq> 24"
    using assms l sys_table_rep [OF that, of "log_call E r s" E r]
    by (auto simp: syscall_handler_def Let_def rep_def split: if_splits dest!: sys_exit_le)
  show "any_le (kern s) (kern (out_sys x))"
  proof (cases "r_eax r = 24")
    case True
    then show ?thesis using assms l sys_fork_any [of E r "log_call E r s"] by (auto simp: syscall_handler_def Let_def 24)
  qed (simp add: le any_le_def)
qed

lemma tick_keys_le: "tick_keys E r s = Some s' \<Longrightarrow> tk_le (kern s) (kern s')"
  by (cases "kb_drain (eports E) (gx_w (scr s)) (gx_h (scr s)) ((hidv s)\<lparr>hw := hwv s\<rparr>)")
    (auto simp: tick_keys_def Let_def case_prod_beta intro!: tk_le_trans [OF task_boost_priority_le task_send_signal_le])

lemma timer_irq_le:
  assumes "timer_irq E r s = Some x"
  shows "tk_le (kern s) (kern (out_sys x))"
proof -
  obtain s1 where s1: "tick_keys E r (onk wake_sleepers (port_out E 0x20 0x20 s)) = Some s1"
    using assms by (auto simp: timer_irq_def split: option.splits)
  define s2 where "s2 = on_scr (mcursor_update (mou (hidv s1))) s1"
  have 2: "tk_le (kern s) (kern s2)"
    using tick_keys_le [OF s1] wake_sleepers_le [of "kern s"] tk_le_trans by (fastforce simp: port_out_def s2_def)
  let ?y = "if r_cs r AND 3 \<noteq> 0 then task_check_signals E r s2 else Some (Ret r s2)"
  have "and_then ?y (\<lambda>r s. map_option (\<lambda>(r', s'). Ret r' s') (on_tasks timer_preempt r s)) = Some x"
    using assms unfolding timer_irq_def s1 s2_def Let_def by (simp only: option.case)
  then obtain y where y: "?y = Some y"
      "case y of Ret r s \<Rightarrow> map_option (\<lambda>(r', s'). Ret r' s') (on_tasks timer_preempt r s) = Some x | _ \<Rightarrow> x = y"
    unfolding and_then_Some by blast
  have "tk_le (kern s2) (kern (out_sys y))" using y(1) check_signals_le by (auto split: if_splits)
  moreover have "tk_le (kern (out_sys y)) (kern (out_sys x))"
    using y(2) by (cases y) (auto simp: on_tasks_def dest: timer_preempt_le)
  ultimately show ?thesis using 2 tk_le_trans by blast
qed

lemma other_irq_le: "other_irq E cr2 r s = Some x \<Longrightarrow> tk_le (kern s) (kern (out_sys x))"
proof -
  assume a: "other_irq E cr2 r s = Some x"
  have u: "tk_le (kern s) (kern (user_fault E cr2 r s))" by (simp add: user_fault_def Let_def task_send_signal_le)
  have p: "kern (port_out E q v t) = kern t" for q v and t :: "'a sys" by (simp add: port_out_def)
  show ?thesis using a u
    by (auto simp: other_irq_def Let_def kernel_panic_def p split: if_splits dest!: check_signals_le intro: tk_le_trans)
qed

lemma run_handler_same: "same (kern s) (kern (run_handler E h s))"
  by (simp add: run_handler_def pit_irq_def kb_irq_def Let_def same_def split: option.split irq.split)

lemma isr_any:
  assumes "c_isr_handler E H cr2 r s = Some x"
  shows "any_le (kern s) (kern (out_sys x))" "r_vec r \<noteq> 0x80 \<or> r_eax r \<noteq> 24 \<Longrightarrow> tk_le (kern s) (kern (out_sys x))"
proof -
  let ?s = "run_handler E (isr_lookup (r_vec r) H) s"
  have h: "same (kern s) (kern ?s)" by (rule run_handler_same)
  have sys: "\<exists>y. syscall_handler E r ?s = Some y \<and> tk_le (kern (out_sys y)) (kern (out_sys x))" if v: "r_vec r = 0x80"
  proof -
    obtain y where y: "syscall_handler E r ?s = Some y"
        "case y of Ret r1 s \<Rightarrow> (if r_cs r AND 3 = 3 then task_check_signals E r1 s else Some (Ret r1 s)) = Some x | _ \<Rightarrow> x = y"
      using assms unfolding c_isr_handler_def Let_def if_P [OF v] and_then_Some by blast
    then show ?thesis by (cases y) (auto split: if_splits dest: check_signals_le)
  qed
  have nosys: "tk_le (kern s) (kern (out_sys x))" if "r_vec r \<noteq> 0x80"
    using assms that h by (auto simp: c_isr_handler_def Let_def split: if_splits dest!: timer_irq_le other_irq_le intro: tk_le_trans same_le)
  show "any_le (kern s) (kern (out_sys x))"
  proof (cases "r_vec r = 0x80")
    case True
    then obtain y where y: "syscall_handler E r ?s = Some y" "tk_le (kern (out_sys y)) (kern (out_sys x))" using sys by blast
    have "kheap (kern ?s) = kheap (kern s)" "all_tasks (kern ?s) = all_tasks (kern s)"
      by (simp_all add: run_handler_def pit_irq_def kb_irq_def Let_def split: option.split irq.split)
    then show ?thesis by (intro any_le_before [OF h _ any_le_after [OF syscall_handler_any(1) [OF y(1)] y(2)]]) simp
  qed (simp add: nosys any_le_def)
  show "tk_le (kern s) (kern (out_sys x))" if "r_vec r \<noteq> 0x80 \<or> r_eax r \<noteq> 24"
  proof (cases "r_vec r = 0x80")
    case True
    then obtain y where y: "syscall_handler E r ?s = Some y" "tk_le (kern (out_sys y)) (kern (out_sys x))" using sys by blast
    have "tk_le (kern ?s) (kern (out_sys y))" using syscall_handler_any(2) [OF y(1)] True that by simp
    then show ?thesis using y(2) same_le [OF h] tk_le_trans by blast
  qed (simp add: nosys)
qed

section \<open>Properties\<close>


text \<open>The sample task gives up \<open>CAP_DISK_WRITE\<close>.\<close>

definition drop_regs :: registers_t where
  "drop_regs = (demo_call CAP_DISK_WRITE 0 0)\<lparr>r_vec := 0x80, r_eax := 43\<rparr>"

lemma demo_drop:
  "\<exists>r' s'. c_isr_handler demo_env driver_handlers 0 drop_regs demo_sys = Some (Ret r' s') \<and>
     kern s' = upd 0x01001014 (\<lambda>t. t\<lparr>task_struct.caps := task_struct.caps t AND NOT CAP_DISK_WRITE\<rparr>) demo_ksys"
proof -
  have h: "isr_lookup 0x80 driver_handlers = None" by (simp add: isr_lookup_def driver_handlers_def register_handler_def no_handlers_def)
  have k: "kern (log_call demo_env drop_regs demo_sys) = demo_ksys" by (simp add: log_call_def)
  have p: "pending_signals (tsk demo_ksys 0x01001014) = 0" by (simp add: demo_ksys_def demo_kst_simps demo_task_def)
  have "sys_table demo_env 43 = sys_drop_cap" by (simp add: sys_table_def)
  then have "syscall_handler demo_env drop_regs demo_sys =
      Some (Ret (drop_regs\<lparr>r_eax := 0\<rparr>) ((log_call demo_env drop_regs demo_sys)\<lparr>kern :=
        upd 0x01001014 (\<lambda>t. t\<lparr>task_struct.caps := task_struct.caps t AND NOT CAP_DISK_WRITE\<rparr>) demo_ksys\<rparr>))"
    using k by (simp add: syscall_handler_def sys_drop_cap_def task_drop_cap_def ret_def Let_def drop_regs_def demo_call_def)
  then show ?thesis using h p
    by (simp add: c_isr_handler_def run_handler_def and_then_def task_check_signals_def Let_def drop_regs_def upd_def)
qed


text \<open>Descriptor tables stay well typed. If every struct's arrays have their declared lengths and the tables of all
  listed tasks hold descriptor types 0 to 7 only, the same is true after any interrupt or system call, for the
  tasks listed then, a forked child included.\<close>

theorem tables_stay_typed:
  assumes "c_isr_handler E H cr2 r s = Some out" "\<forall>a. lens (tsk (kern s) a)" "current_task (kern s) \<in> set (all_tasks (kern s))"
    "\<forall>a \<in> set (all_tasks (kern s)). tab_ok (tsk (kern s) a)"
  shows "(\<forall>a. lens (tsk (kern (out_sys out)) a)) \<and>
    (\<forall>a \<in> set (all_tasks (kern (out_sys out))). tab_ok (tsk (kern (out_sys out)) a))"
proof -
  let ?k = "kern s" and ?k' = "kern (out_sys out)"
  have "any_le ?k ?k'" by (rule isr_any(1) [OF assms(1)])
  then consider "tk_le ?k ?k'" | child where "forked ?k child ?k'" by (auto simp: any_le_def)
  then show ?thesis
  proof cases
    case 1
    then show ?thesis using assms(2,4) by (auto simp: tk_le_def at_most_def)
  next
    case 2
    have o: "lens (tsk ?k' a)" "a \<in> set (all_tasks ?k') \<Longrightarrow> tab_ok (tsk ?k' a)" if "a \<noteq> child" for a
      using 2 that assms(2,4) by (auto simp: forked_def at_most_def)
    have "lens (tsk ?k' child)" "child \<in> set (all_tasks ?k') \<Longrightarrow> tab_ok (tsk ?k' child)"
      using 2 assms(2-4) by (auto simp: forked_def)
    with o show ?thesis by metis
  qed
qed

theorem tables_stay_typed_witness:
  "\<exists>r' s'. c_isr_handler demo_env driver_handlers 0 drop_regs demo_sys = Some (Ret r' s') \<and>
     (\<forall>a \<in> set (all_tasks (kern s')). tab_ok (tsk (kern s') a))"
proof -
  obtain r' s' where s: "c_isr_handler demo_env driver_handlers 0 drop_regs demo_sys = Some (Ret r' s')" using demo_drop by blast
  have t: "tab_ok (tsk demo_ksys a)" for a
  proof -
    have "tab_ok (tsk demo_kst a)" by (simp add: demo_kst_def demo_task_def tab_ok_def lens_def MAX_FD_def)
    then show ?thesis by (auto simp: demo_ksys_def tab_ok_def lens_def MAX_FD_def dest!: subsetD [OF set_update_subset_insert])
  qed
  have "\<forall>a. lens (tsk demo_ksys a)" using t tab_okD(1) by blast
  with tables_stay_typed [OF s] s show ?thesis by (auto simp: t)
qed

end
