(* ===== verification/XE_Signal.thy ===== *)
theory XE_Signal
  imports XE_Frame
begin

text \<open>
  Signals and faults: what \<open>task_check_signals\<close>, \<open>SYS_SIGRETURN\<close>, the page fault branch of \<open>c_isr_handler\<close> and the exit
  path do together.
\<close>

unbundle bit_operations_syntax

section \<open>The signal loop\<close>

definition deliverable :: "task_struct \<Rightarrow> nat \<Rightarrow> bool" where
  "deliverable t sig = (pending_signals t AND sig_bit sig \<noteq> 0 \<and> blocked_signals t AND sig_bit sig = 0)"

text \<open>The signal the loop acts on first.\<close>

definition first_signal :: "task_struct \<Rightarrow> nat \<Rightarrow> bool" where
  "first_signal t sig = (1 \<le> sig \<and> sig \<le> 31 \<and> deliverable t sig \<and> (\<forall>j. 1 \<le> j \<and> j < sig \<longrightarrow> \<not> deliverable t j))"

lemma sig_loop_skip: "\<forall>j \<in> set js. \<not> deliverable (ct s) j \<Longrightarrow> sig_loop E (js @ sigs) r s = sig_loop E sigs r s"
  by (induction js) (auto simp: deliverable_def)

lemma check_signals_first:
  assumes "first_signal (ct s) sig" "current_task (kern s) \<noteq> 0" "pid (ct s) \<noteq> 0"
  shows "task_check_signals E r s = sig_loop E (sig # [Suc sig..<32]) r s"
proof -
  have u: "[1..<32] = [1..<sig] @ sig # [Suc sig..<32]"
    using assms(1) upt_add_eq_append [of 1 sig "32 - sig"] upt_conv_Cons [of sig 32] by (simp add: first_signal_def)
  have j: "\<forall>j \<in> set [1..<sig]. \<not> deliverable (ct s) j" using assms(1) by (simp add: first_signal_def)
  have "pending_signals (ct s) \<noteq> 0" using assms(1) by (auto simp: first_signal_def deliverable_def)
  then have "task_check_signals E r s = sig_loop E [1..<32] r s" using assms(2,3) by (simp only: task_check_signals_def) simp
  then show ?thesis unfolding u sig_loop_skip [OF j] .
qed

abbreviation clear_sig :: "nat \<Rightarrow> task_struct \<Rightarrow> task_struct" where
  "clear_sig sig \<equiv> \<lambda>t. t\<lparr>pending_signals := pending_signals t AND NOT (sig_bit sig)\<rparr>"

section \<open>Cleanup leaves the rest of a struct alone\<close>

lemma cleanup_frame:
  fixes s :: "'d sys" and t :: u32
  defines "k' \<equiv> kern (syscall_cleanup_fds t s)"
  shows "all_tasks k' = all_tasks (kern s)" "current_task k' = current_task (kern s)"
    "children (tsk k' a) = children (tsk (kern s) a)" "parent (tsk k' a) = parent (tsk (kern s) a)"
    "pid (tsk k' a) = pid (tsk (kern s) a)" "state (tsk k' a) = state (tsk (kern s) a)"
proof -
  have one: "same (upd t (set_fd i 0 0 0 0) (kern s)) (kern (cleanup_fd t i s)) \<or> cleanup_fd t i s = s" for i and s :: "'d sys"
    using close_obj_same [of s True "fd_type (tsk (kern s) t) ! i" "fd_buf (tsk (kern s) t) ! i"]
    by (simp add: cleanup_fd_def Let_def same_def upd_def)
  have "all_tasks (kern (fold (cleanup_fd t) js s)) = all_tasks (kern s) \<and> current_task (kern (fold (cleanup_fd t) js s)) = current_task (kern s) \<and>
      children (tsk (kern (fold (cleanup_fd t) js s)) a) = children (tsk (kern s) a) \<and>
      parent (tsk (kern (fold (cleanup_fd t) js s)) a) = parent (tsk (kern s) a) \<and> pid (tsk (kern (fold (cleanup_fd t) js s)) a) = pid (tsk (kern s) a) \<and>
      state (tsk (kern (fold (cleanup_fd t) js s)) a) = state (tsk (kern s) a)" for js and s :: "'d sys"
  proof (induction js arbitrary: s)
    case (Cons j js)
    show ?case using one [of j s] Cons.IH [of "cleanup_fd t j s"] by (auto simp: same_def upd_def set_fd_def)
  qed simp
  then show "all_tasks k' = all_tasks (kern s)" "current_task k' = current_task (kern s)"
    "children (tsk k' a) = children (tsk (kern s) a)" "parent (tsk k' a) = parent (tsk (kern s) a)"
    "pid (tsk k' a) = pid (tsk (kern s) a)" "state (tsk k' a) = state (tsk (kern s) a)"
    by (simp_all add: k'_def syscall_cleanup_fds_def)
qed

text \<open>Clearing a pending bit concerns no other part of the kernel.\<close>

lemma clear_sig_inv: "sys_inv s \<Longrightarrow> sys_inv (updc (clear_sig sig) s)"
  by (erule fd_same_inv) (simp add: fd_same_def same_sched_def upd_def updc_def onk_def)

lemma say_inv: "sys_inv s \<Longrightarrow> sys_inv (say E m s)"
  by (erule fd_same_inv) (rule fd_same_kern_id, simp_all add: say_def set_hw_def)

text \<open>The descriptors go first, then the task; its parent is alive.\<close>

lemma exit_live:
  assumes "sys_inv s" "parent (ct s) \<in> set (all_tasks (kern s))" "pid (tsk (kern s) (parent (ct s))) \<noteq> 0"
    "state (tsk (kern s) (parent (ct s))) \<noteq> TASK_DEAD" "current_task (kern s) \<in> set (children (tsk (kern s) (parent (ct s))))"
  shows "\<exists>r' s'. do_exit E r code (syscall_cleanup_fds (current_task (kern s)) s) = Some (Jump r' s') \<and> kinv (kern s') \<and>
    current_task (kern s) \<notin> set (all_tasks (kern s'))"
proof -
  let ?c = "current_task (kern s)" and ?s = "syscall_cleanup_fds (current_task (kern s)) s"
  note f = cleanup_frame [of ?c s]
  have c: "?c \<in> set (all_tasks (kern s))" "?c \<noteq> 0" using sys_inv_current [OF assms(1)] by simp_all
  have inv: "kinv (kern ?s)" using syscall_cleanup_inv(1) [OF assms(1) c(1)] by (simp add: sys_inv_def)
  have l: "kern (exit_log E code ?s) = kern ?s" by (simp add: exit_log_def Let_def)
  obtain r' k' where x: "task_do_exit r code (kern ?s) = Some (Iret r' k')"
    using exit_parts [OF inv, of code r] assms(2-5) by (auto simp: f)
  note k = task_do_exit_kinv [OF inv x]
  have "do_exit E r code ?s = Some (Jump r' ((exit_log E code ?s)\<lparr>kern := k'\<rparr>))"
    using x l c(2) by (simp add: do_exit_def f(2) Let_def lift_resume_def)
  then show ?thesis using k(1,4) by (simp add: f(2))
qed

section \<open>Properties\<close>

text \<open>C38. A user-mode page fault stops the machine. \<open>c_isr_handler\<close> queues SIGSEGV for the faulting task, but the vector
  is below 0x20, so the handler goes on to \<open>kernel_panic\<close> and the signal is never delivered.\<close>

theorem user_fault_panics:
  assumes "r_vec r = 14" "r_err_code r AND 4 \<noteq> 0" "isr_lookup 14 H = None" "find_task (pid (ct s)) (kern s) = Some (current_task (kern s))"
    "current_task (kern s) \<noteq> 0" "pid (ct s) \<noteq> 0"
  shows "\<exists>s'. c_isr_handler E H cr2 r s = Some (Panic s') \<and> pending_signals (ct s') AND sig_bit SIGSEGV \<noteq> 0"
proof -
  have p: "(x OR push_bit 11 1) AND sig_bit 11 \<noteq> 0" for x :: u32
  proof
    assume z: "(x OR push_bit 11 1) AND sig_bit 11 = 0"
    have "bit ((x OR push_bit 11 1) AND sig_bit 11) 11" by (simp add: sig_bit_def bit_simps)
    then show False unfolding z by simp
  qed
  have k: "kern (user_fault E cr2 r s) = upd (current_task (kern s)) (\<lambda>t. t\<lparr>pending_signals := pending_signals t OR push_bit 11 1\<rparr>) (kern s)"
    using assms(4-6) by (simp add: user_fault_def Let_def task_send_signal_def)
  show ?thesis using assms(1-3) k p
    by (auto simp: c_isr_handler_def run_handler_def other_irq_def kernel_panic_def Let_def upd_def)
qed

theorem user_fault_panics_witness:
  "\<exists>s'. c_isr_handler demo_env driver_handlers 0xDEAD (demo_regs\<lparr>r_vec := 14, r_err_code := 6\<rparr>) demo_sys = Some (Panic s') \<and>
     pending_signals (ct s') AND sig_bit SIGSEGV \<noteq> 0"
proof -
  have h: "isr_lookup 14 driver_handlers = None" by (simp add: isr_lookup_def driver_handlers_def register_handler_def no_handlers_def)
  have p: "pid (tsk demo_ksys a) = (if a = 0x01001014 then 1 else if a = 0x01006014 then 2 else 0)" for a
    by (simp add: demo_ksys_def demo_kst_simps)
  show ?thesis by (rule user_fault_panics) (use h p in \<open>simp_all add: find_task_def\<close>)
qed

text \<open>C10. A terminating signal with its default action ends the task. When SIGINT, SIGKILL, SIGSEGV or SIGTERM is the
  first deliverable signal of a task whose parent is alive, the return to user mode becomes a switch to
  another task: the task is off every list, and the kernel's invariant holds.\<close>

theorem fatal_signal_kills:
  assumes "sys_inv s" "first_signal (ct s) sig" "fatal_sig sig" "sig_handlers (ct s) ! sig = SIG_DFL" "pid (ct s) \<noteq> 0"
    "parent (ct s) \<in> set (all_tasks (kern s))" "pid (tsk (kern s) (parent (ct s))) \<noteq> 0"
    "state (tsk (kern s) (parent (ct s))) \<noteq> TASK_DEAD" "current_task (kern s) \<in> set (children (tsk (kern s) (parent (ct s))))"
  shows "\<exists>r' s'. task_check_signals E r s = Some (Jump r' s') \<and> kinv (kern s') \<and> current_task (kern s) \<notin> set (all_tasks (kern s'))"
proof -
  let ?c = "current_task (kern s)"
  have c: "?c \<noteq> 0" using sys_inv_current [OF assms(1)] by simp
  define m where "m = bytes_of ''signal: killing pid '' @ two_digits (unat (pid (ct s))) @ bytes_of '' with signal '' @ two_digits sig @ [10]"
  define s1 where "s1 = say E m (updc (clear_sig sig) s)"
  have k1: "kern s1 = upd ?c (clear_sig sig) (kern s)" by (simp add: s1_def)
  have inv: "sys_inv s1" unfolding s1_def by (intro say_inv clear_sig_inv assms(1))
  have t1: "current_task (kern s1) = ?c" "all_tasks (kern s1) = all_tasks (kern s)" "parent (tsk (kern s1) a) = parent (tsk (kern s) a)"
      "pid (tsk (kern s1) a) = pid (tsk (kern s) a)" "state (tsk (kern s1) a) = state (tsk (kern s) a)"
      "children (tsk (kern s1) a) = children (tsk (kern s) a)" for a
    by (simp_all add: k1 upd_def)
  have "task_check_signals E r s = do_exit E r (of_nat sig) (syscall_cleanup_fds ?c s1)"
    unfolding check_signals_first [OF assms(2) c assms(5)] sig_loop.simps Let_def
    using assms(2-4) by (simp add: first_signal_def deliverable_def s1_def m_def upd_def)
  then show ?thesis using exit_live [OF inv, of E r "of_nat sig"] assms(6-9) by (simp add: t1)
qed

lemma sig_bit_and: "n \<noteq> j \<Longrightarrow> sig_bit n AND sig_bit j = 0"
  by (rule bit_eqI) (auto simp: sig_bit_def bit_simps)

lemma sig_bit_nonzero: "n < 32 \<Longrightarrow> sig_bit n \<noteq> 0"
proof
  assume "n < 32" and z: "sig_bit n = 0"
  then have "bit (sig_bit n) n" by (simp add: sig_bit_def bit_simps)
  then show False unfolding z by simp
qed

lemma first_signal_single:
  "1 \<le> sig \<Longrightarrow> sig \<le> 31 \<Longrightarrow> pending_signals t = sig_bit sig \<Longrightarrow> blocked_signals t = 0 \<Longrightarrow> first_signal t sig"
  using sig_bit_and [of sig] sig_bit_nonzero [of sig] by (auto simp: first_signal_def deliverable_def)

text \<open>A sample: the child of the sample task runs and has SIGINT pending.\<close>

lemma sys_inv_no_fds:
  assumes "kinv (kern s)" "rdv s = []" "\<And>t. fd_buf (tsk (kern s) t) = replicate MAX_FD 0" "\<And>t. fd_type (tsk (kern s) t) = replicate MAX_FD 0"
    "\<And>t. length (fd_size (tsk (kern s) t)) = MAX_FD" "\<And>t. length (fd_pos (tsk (kern s) t)) = MAX_FD"
  shows "sys_inv s"
proof -
  let ?k = "kern s"
  have no: "slot_obj ?k x = NoObj" if "snd x < MAX_FD" for x using that assms(3) by (simp add: slot_obj_def fobj_of_def)
  have own: "held (kheap ?k) (set (owned ?k))" using kinvD(2) [OF assms(1)] by (simp add: own_wf_def)
  have "addrs (slots ?k) (slot_obj ?k) = {}" using no by (auto simp: addrs_def slots_def)
  then have "obj_inv (slots ?k) (slot_obj ?k) (krefs ?k) (others s) (kheap ?k)"
    by (intro obj_invI) (use no own assms(2) in \<open>auto simp: slots_def others_def rd_addrs_def\<close>)
  moreover have "fd_lens ?k" using assms(3-6) by (simp add: fd_lens_def)
  ultimately show ?thesis using assms(1) by (simp add: sys_inv_def)
qed

definition demo_int_sys :: "pio sys" where
  "demo_int_sys = demo_sys\<lparr>kern := upd 0x01006014 (\<lambda>t. t\<lparr>pending_signals := sig_bit 2\<rparr>) demo_exit_kst\<rparr>"

lemma demo_int_inv: "sys_inv demo_int_sys"
proof -
  have "kinv (kern demo_int_sys)" by (rule kinv_cong [OF demo_exit(1)]) (simp_all add: demo_int_sys_def upd_def)
  then show ?thesis
    by (rule sys_inv_no_fds) (simp_all add: demo_int_sys_def upd_def demo_exit_kst_def demo_kst_simps MAX_FD_def)
qed

theorem fatal_signal_kills_witness:
  "\<exists>r' s'. task_check_signals demo_env demo_regs demo_int_sys = Some (Jump r' s') \<and> 0x01006014 \<notin> set (all_tasks (kern s'))"
proof -
  have k: "kern demo_int_sys = upd 0x01006014 (\<lambda>t. t\<lparr>pending_signals := sig_bit 2\<rparr>) demo_exit_kst" by (simp add: demo_int_sys_def)
  have t: "blocked_signals (tsk demo_exit_kst 0x01006014) = 0" "sig_handlers (tsk demo_exit_kst 0x01006014) = replicate 32 0"
    by (simp_all add: demo_exit_kst_def demo_kst_simps)
  have "first_signal (ct demo_int_sys) 2" using t demo_exit(7) by (intro first_signal_single) (simp_all add: k upd_def)
  from fatal_signal_kills [OF demo_int_inv this, of demo_env demo_regs] t demo_exit show ?thesis
    by (auto simp: k upd_def fatal_sig_def)
qed

text \<open>C12. A handler runs and returns. When the first deliverable signal has a handler in mapped user memory and the user
  stack can be written, the interrupt returns into the handler with the stack lowered by the two words
  of the signal frame, the signal is no longer pending, and a later \<open>SYS_SIGRETURN\<close> resumes at the interrupted
  instruction with the interrupted stack pointer. It does not restore any other register, and \<open>eax\<close> becomes 0.\<close>

theorem signal_handler_roundtrip:
  assumes "first_signal (ct s) sig" "current_task (kern s) \<noteq> 0" "pid (ct s) \<noteq> 0" "r_cs r AND 3 \<noteq> 0"
    "h = sig_handlers (ct s) ! sig" "h \<noteq> SIG_DFL" "h \<noteq> SIG_IGN" "paging (ct s) \<noteq> 0"
    "translate_user (ram (ph (kern s))) (pgr (kern s) (paging (ct s))) h \<noteq> 0"
    "copy_to_user (ram (ph (kern s))) (user_pd s) (r_user_esp r - 8) (Some (words_out [of_nat sig, 0])) 8 = Inr (True, m)"
  shows "\<exists>s'. task_check_signals E r s = Some (Ret (r\<lparr>r_eip := h, r_user_esp := r_user_esp r - 8\<rparr>) s') \<and>
    \<not> deliverable (ct s') sig \<and> ram (ph (kern s')) = m \<and>
    sys_sigreturn r2 s' = Some (r2\<lparr>r_eip := r_eip r, r_user_esp := r_user_esp r, r_eax := 0\<rparr>, s')"
proof -
  let ?c = "current_task (kern s)" and ?save = "\<lambda>t. t\<lparr>sig_saved_eip := r_eip r, sig_saved_esp := r_user_esp r\<rparr>"
  define l where "l = bytes_of ''sig: '' @ [digit sig] @ bytes_of '' -> pid '' @ two_digits (unat (pid (ct s))) @ [10]"
  define s3 where "s3 = updc ?save (say E l (updc (clear_sig sig) s))"
  have k3: "kern s3 = upd ?c ?save (upd ?c (clear_sig sig) (kern s))" by (simp add: s3_def upd_def)
  have u3: "user_pd s3 = user_pd s" "ram (ph (kern s3)) = ram (ph (kern s))"
    by (simp_all add: user_pd_def pd_at_def k3 upd_def s3_def updc_def onk_def say_def set_hw_def)
  have tu: "to_user (r_user_esp r - 8) (words_out [of_nat sig, 0]) 8 s3 = Some (True, onk (set_ram m) s3)"
    using assms(10) u3 by (simp add: to_user_def)
  have "task_check_signals E r s = Some (Ret (r\<lparr>r_eip := h, r_user_esp := r_user_esp r - 8\<rparr>) (onk (set_ram m) s3))"
    unfolding check_signals_first [OF assms(1-3)] sig_loop.simps Let_def
    using assms(1,4-9) tu by (simp add: first_signal_def deliverable_def s3_def l_def upd_def)
  moreover have "\<not> deliverable (ct (onk (set_ram m) s3)) sig"
    by (simp add: deliverable_def k3 set_ram_def upd_def and.assoc)
  ultimately show ?thesis using assms(2) by (simp add: sys_sigreturn_def ret_def k3 set_ram_def upd_def)
qed

definition demo_hand_sys :: "pio sys" where
  "demo_hand_sys = demo_sys\<lparr>kern := upd 0x01001014 (\<lambda>t. t\<lparr>pending_signals := sig_bit 10, sig_handlers := (replicate 32 0)[10 := 0x400200]\<rparr>) demo_ksys\<rparr>"

theorem signal_handler_roundtrip_witness:
  "\<exists>s'. task_check_signals demo_env demo_regs demo_hand_sys =
      Some (Ret (demo_regs\<lparr>r_eip := 0x400200, r_user_esp := 0x43FEF8\<rparr>) s') \<and>
    sys_sigreturn demo_regs s' = Some (demo_regs\<lparr>r_eip := 0x400100, r_user_esp := 0x43FF00, r_eax := 0\<rparr>, s')"
proof -
  have k: "kern demo_hand_sys = upd 0x01001014 (\<lambda>t. t\<lparr>pending_signals := sig_bit 10, sig_handlers := (replicate 32 0)[10 := 0x400200]\<rparr>) demo_ksys"
    by (simp add: demo_hand_sys_def)
  have t: "blocked_signals (tsk demo_ksys 0x01001014) = 0" "pid (tsk demo_ksys 0x01001014) = 1" "paging (tsk demo_ksys 0x01001014) = 7"
      "pgr demo_ksys = (\<lambda>_. demo_pg)"
    by (simp_all add: demo_ksys_def demo_kst_simps)
  have f: "first_signal (ct demo_hand_sys) 10" using t by (intro first_signal_single) (simp_all add: k upd_def)
  have up: "user_pd demo_hand_sys = Some demo_pg" "ram (ph (kern demo_hand_sys)) = demo_ram"
    using t by (simp_all add: user_pd_def current_user_pd_def pd_at_def k upd_def demo_user_pd(2))
  define bs where "bs = words_out [of_nat 10, 0]"
  have w: "length bs = 8" by (simp add: bs_def words_out_def bytes32_def)
  have c: "chunk 0x43FEF8 8 = 8" by (simp add: word_unat_eq_iff unat_chunk)
  have tr: "translate_user demo_ram demo_pg 0x43FEF8 = 0x83FEF8" "translate_user demo_ram demo_pg 0x400200 = 0x800200"
    by (simp_all add: demo_translate)
  have z: "copy_to_loop m demo_pg va [] 0 = Inr (True, m)" for m va by (subst copy_to_loop.simps) simp
  have "copy_to_loop demo_ram demo_pg 0x43FEF8 bs 8 = Inr (True, wr_bytes demo_ram 0x83FEF8 bs)"
    unfolding copy_to_loop.simps [of demo_ram demo_pg _ bs 8] Let_def tr(1) c by (simp add: w z del: copy_to_loop.simps)
  then have "copy_to_user demo_ram (Some demo_pg) 0x43FEF8 (Some bs) 8 = Inr (True, wr_bytes demo_ram 0x83FEF8 bs)"
    by (simp add: copy_to_user_def)
  then have cu: "copy_to_user (ram (ph (kern demo_hand_sys))) (user_pd demo_hand_sys) (r_user_esp demo_regs - 8)
      (Some (words_out [of_nat 10, 0])) 8 = Inr (True, wr_bytes demo_ram 0x83FEF8 bs)"
    unfolding up bs_def by (simp add: demo_regs_def)
  have c1: "current_task (kern demo_hand_sys) = 0x01001014" by (simp add: k upd_def)
  have ct: "pid (ct demo_hand_sys) \<noteq> 0" "sig_handlers (ct demo_hand_sys) ! 10 = 0x400200" "paging (ct demo_hand_sys) \<noteq> 0"
    unfolding c1 using t by (simp_all add: k upd_def)
  have pg: "pgr (kern demo_hand_sys) a = demo_pg" for a using t(4) by (simp add: k upd_def)
  have th: "translate_user (ram (ph (kern demo_hand_sys))) (pgr (kern demo_hand_sys) (paging (ct demo_hand_sys))) 0x400200 \<noteq> 0"
    unfolding pg up(2) tr(2) by simp
  have "\<exists>s'. task_check_signals demo_env demo_regs demo_hand_sys =
        Some (Ret (demo_regs\<lparr>r_eip := 0x400200, r_user_esp := r_user_esp demo_regs - 8\<rparr>) s') \<and>
      \<not> deliverable (ct s') 10 \<and> ram (ph (kern s')) = wr_bytes demo_ram 0x83FEF8 bs \<and>
      sys_sigreturn demo_regs s' = Some (demo_regs\<lparr>r_eip := r_eip demo_regs, r_user_esp := r_user_esp demo_regs, r_eax := 0\<rparr>, s')"
    by (rule signal_handler_roundtrip [OF f _ ct(1) _ ct(2) [symmetric] _ _ ct(3) th cu]) (simp_all add: c1 demo_regs_def)
  moreover have "r_user_esp demo_regs - 8 = 0x43FEF8" "r_eip demo_regs = 0x400100" "r_user_esp demo_regs = 0x43FF00"
    by (simp_all add: demo_regs_def)
  ultimately show ?thesis by metis
qed

end
