(* ===== verification/XE_User.thy ===== *)
theory XE_User
  imports XE_Isr
begin

text \<open>
  Entry into user programs (\<^verbatim>\<open>src/src/kernel/user.cpp\<close>) and the interrupt table
  (\<^verbatim>\<open>src/src/kernel/idt.cpp\<close>).

  The kernel writes a program's arguments while the program's page directory is loaded, so these stores go
  through the page tables: \<open>vst8\<close> fails, as the processor does with a page fault, where the tables have no
  entry. All other memory is reached as in the rest of the model, by its physical address.

  The ESP0 word of the task state segment is the field \<open>tss_esp0\<close> of the kernel state. What the processor
  holds in registers the kernel only reads (GDTR, IDTR, TR, ESP, EBP, EFLAGS) is a parameter.
\<close>

unbundle bit_operations_syntax

section \<open>State\<close>

record 'd usr =
  usys :: "'d sys"
  tss_page :: u32
  g_entry_esp :: u32
  g_user_args :: "u8 list"
  g_ring3_irq_on :: bool

record cpu_now =
  gdtr_base :: u32
  gdtr_limit :: u16
  idtr_base :: u32
  idtr_limit :: u16
  now_tr :: u16
  now_esp :: u32
  now_ebp :: u32
  now_eflags :: u32

definition on_sys :: "('d sys \<Rightarrow> 'd sys) \<Rightarrow> 'd usr \<Rightarrow> 'd usr" where
  "on_sys f u = u\<lparr>usys := f (usys u)\<rparr>"

abbreviation uram :: "'d usr \<Rightarrow> mem" where "uram u \<equiv> ram (ph (kern (usys u)))"

section \<open>Task state segment\<close>

definition user_tss_set_esp0 :: "u32 \<Rightarrow> 'd usr \<Rightarrow> 'd usr" where
  "user_tss_set_esp0 esp0 = on_sys (onk (\<lambda>k. k\<lparr>tss_esp0 := esp0\<rparr>))"

text \<open>\<open>user_init\<close>: an empty segment with the kernel's stack segment and no I/O bitmap, and its address in
  descriptor 6 of the GDT.\<close>

definition tss_image :: "u8 list" where
  "tss_image = replicate 8 0 @ [0x10, 0, 0, 0] @ replicate 90 0 @ [104, 0]"

definition set_tss_base :: "u32 \<Rightarrow> u32 \<Rightarrow> mem \<Rightarrow> mem" where
  "set_tss_base gdt base m =
     m(gdt + 50 := ucast base, gdt + 51 := ucast (drop_bit 8 base), gdt + 52 := ucast (drop_bit 16 base), gdt + 55 := ucast (drop_bit 24 base))"

definition user_init :: "cpu_now \<Rightarrow> 'd usr \<Rightarrow> 'd usr" where
  "user_init c u =
     (case k_alloc_page (kern (usys u)) of (t, k) \<Rightarrow>
        let m = set_tss_base (gdtr_base c) t (wr_bytes (ram (ph k)) t tss_image)
        in user_tss_set_esp0 0x9F000 (u\<lparr>tss_page := t, usys := (usys u)\<lparr>kern := set_ram m k\<rparr>\<rparr>))"

section \<open>The record before the switch\<close>

definition hex_bytes :: "mem \<Rightarrow> u32 \<Rightarrow> nat \<Rightarrow> cstr" where
  "hex_bytes m a n = concat (map (\<lambda>k. put_hex_byte (m (a + of_nat k))) [0..<n])"

text \<open>The walk of the page tables, as the processor does it for the kernel: the entry, and the physical
  address if there is one.\<close>

definition walk :: "mem \<Rightarrow> u32 \<Rightarrow> u32 \<Rightarrow> u32 option" where
  "walk m pdir va =
     (let pde = ld32 m (slot pdir (drop_bit 22 va)) in
      if pde AND 1 = 0 then None
      else if pde AND 0x80 \<noteq> 0 then Some ((pde AND 0xFFC00000) + (va AND 0x3FFFFF))
      else let pte = ld32 m (slot (pde AND 0xFFFFF000) (drop_bit 12 va AND 0x3FF)) in
        if pte AND 1 = 0 then None else Some ((pte AND 0xFFFFF000) + (va AND 0xFFF)))"

definition walk_line :: "mem \<Rightarrow> u32 \<Rightarrow> cstr \<Rightarrow> u32 \<Rightarrow> cstr" where
  "walk_line m pdir tag va =
     (let pde = ld32 m (slot pdir (drop_bit 22 va));
          pte = ld32 m (slot (pde AND 0xFFFFF000) (drop_bit 12 va AND 0x3FF));
          pa = (case walk m pdir va of None \<Rightarrow> 0 | Some a \<Rightarrow> a)
      in bytes_of ''pre-iret: map '' @ tag @ bytes_of '' pde=0x'' @ put_hex_u32 pde @
         (if pde AND 1 = 0 then bytes_of ''  !!PDE-NOT-PRESENT'' @ [10]
          else if pde AND 0x80 \<noteq> 0 then bytes_of '' PA=0x'' @ put_hex_u32 pa @ bytes_of '' (4MB)'' @ [10]
          else bytes_of '' pte=0x'' @ put_hex_u32 pte @
            (if pte AND 1 = 0 then bytes_of ''  !!PTE-NOT-PRESENT'' @ [10]
             else bytes_of '' PA=0x'' @ put_hex_u32 pa @ [10])))"

definition dump_regs :: "cpu_now \<Rightarrow> cpu \<Rightarrow> u32 \<Rightarrow> cstr" where
  "dump_regs c p tss =
     bytes_of ''pre-iret: esp=0x'' @ put_hex_u32 (now_esp c) @ bytes_of '' cr0=0x'' @ put_hex_u32 (cr0 p) @
     bytes_of '' cr4=0x'' @ put_hex_u32 (cr4 p) @ bytes_of '' eflags=0x'' @ put_hex_u32 (now_eflags c) @ [10] @
     bytes_of ''pre-iret: gdtr=0x'' @ put_hex_u32 (gdtr_base c) @ bytes_of '' lim=0x'' @ put_hex_u32 (ucast (gdtr_limit c)) @
     bytes_of '' idtr=0x'' @ put_hex_u32 (idtr_base c) @ bytes_of '' lim=0x'' @ put_hex_u32 (ucast (idtr_limit c)) @
     bytes_of '' tr=0x'' @ put_hex_u32 (ucast (now_tr c)) @ bytes_of '' tss=0x'' @ put_hex_u32 tss @ [10]"

definition dump_gdt :: "mem \<Rightarrow> u32 \<Rightarrow> cstr" where
  "dump_gdt m g =
     bytes_of ''pre-iret: GDT[4] SS/0x23 = '' @ hex_bytes m (g + 32) 8 @ [10] @
     bytes_of ''pre-iret: GDT[5] CS/0x2B = '' @ hex_bytes m (g + 40) 8 @ [10] @
     bytes_of ''pre-iret: GDT[6] TSS/0x30= '' @ hex_bytes m (g + 48) 8 @ [10]"

definition dump_maps :: "mem \<Rightarrow> u32 \<Rightarrow> cpu_now \<Rightarrow> u32 \<Rightarrow> u32 \<Rightarrow> u32 \<Rightarrow> u32 \<Rightarrow> cstr" where
  "dump_maps m pdir c eip ustk tss esp0 =
     concat (map (\<lambda>(tag, va). walk_line m pdir tag va)
       [(bytes_of ''EIP  0x00400000'', eip), (bytes_of ''USTK 0x00440000'', ustk),
        (bytes_of ''KSTK('' @ [0xE5, 0xBD, 0x93, 0xE5, 0x89, 0x8D] @ bytes_of '' esp)'', now_esp c),
        (bytes_of ''GDT '', gdtr_base c), (bytes_of ''IDT '', idtr_base c), (bytes_of ''TSS '', tss),
        (bytes_of ''ESP0(TSS'' @ [0xE6, 0xA0, 0x88, 0xE9, 0xA1, 0xB6] @ bytes_of '')'', esp0)])"

section \<open>Arguments\<close>

definition set_args :: "cstr option \<Rightarrow> u8 list \<Rightarrow> u8 list" where
  "set_args a b = (case a of Some (c # cs) \<Rightarrow> put_at 0 (take 255 (c # cs) @ [0]) b | _ \<Rightarrow> b[0 := 0])"

text \<open>The words of an argument string, at most \<open>n\<close>.\<close>

fun arg_words :: "nat \<Rightarrow> cstr \<Rightarrow> cstr list" where
  "arg_words 0 s = []"
| "arg_words (Suc n) s =
     (let t = dropWhile (\<lambda>c. c = 32) s in
      if t = [] then [] else takeWhile (\<lambda>c. c \<noteq> 32) t # arg_words n (dropWhile (\<lambda>c. c \<noteq> 32) t))"

text \<open>Stores of the kernel through the loaded page directory.\<close>

definition vst8 :: "u32 \<Rightarrow> u32 \<Rightarrow> u8 \<Rightarrow> mem \<Rightarrow> mem option" where
  "vst8 pdir va v m = map_option (\<lambda>pa. m(pa := v)) (walk m pdir va)"

fun vst :: "u32 \<Rightarrow> u32 \<Rightarrow> u8 list \<Rightarrow> mem \<Rightarrow> mem option" where
  "vst pdir va [] m = Some m"
| "vst pdir va (b # bs) m = (case vst8 pdir va b m of None \<Rightarrow> None | Some m1 \<Rightarrow> vst pdir (va + 1) bs m1)"

text \<open>Step 1 of \<open>enter_user_mode\<close>: the strings, from the stack top upwards; their addresses and the end.\<close>

fun put_strings :: "u32 \<Rightarrow> u32 \<Rightarrow> cstr list \<Rightarrow> mem \<Rightarrow> ((u32 list \<times> u32) \<times> mem) option" where
  "put_strings pdir sp [] m = Some (([], sp), m)"
| "put_strings pdir sp (w # ws) m =
     (case vst pdir sp (w @ [0]) m of None \<Rightarrow> None
      | Some m1 \<Rightarrow> map_option (\<lambda>((as, e), m2). ((sp # as, e), m2)) (put_strings pdir (sp + of_nat (length w + 1)) ws m1))"

text \<open>Step 2: a null, the addresses from the last to the first, and their number, pushed downwards.\<close>

fun push_words :: "u32 \<Rightarrow> u32 list \<Rightarrow> u32 \<Rightarrow> mem \<Rightarrow> (u32 \<times> mem) option" where
  "push_words pdir [] sp m = Some (sp, m)"
| "push_words pdir (v # vs) sp m = (case vst pdir (sp - 4) (bytes32 v) m of None \<Rightarrow> None | Some m1 \<Rightarrow> push_words pdir vs (sp - 4) m1)"

definition build_args :: "u32 \<Rightarrow> u32 \<Rightarrow> cstr \<Rightarrow> mem \<Rightarrow> (u32 \<times> mem) option" where
  "build_args pdir ustk args m =
     (case put_strings pdir ustk (arg_words 16 args) m of None \<Rightarrow> None
      | Some ((as, sp), m1) \<Rightarrow> push_words pdir (0 # rev as @ [of_nat (length as)]) (sp AND NOT 3) m1)"

section \<open>The switch\<close>

text \<open>How the program starts: by a far jump in ring 0 (entry, stack), or by \<open>iret\<close> (entry, code segment, flags,
  stack, stack segment).\<close>

datatype start = FarJump u32 u32 | Iret u32 u32 u32 u32 u32

definition enter_log :: "cpu_now \<Rightarrow> u32 \<Rightarrow> u32 \<Rightarrow> u32 \<Rightarrow> 'd usr \<Rightarrow> cstr" where
  "enter_log c eip ustk esp0 u =
     (let k = kern (usys u); m = ram (ph k); r3 = cr3 (cpu k) in
      bytes_of ''enter_user: cr3=0x'' @ put_hex_u32 r3 @ bytes_of '' esp0=0x'' @ put_hex_u32 esp0 @ bytes_of '' entry=0x'' @
      put_hex_u32 eip @ bytes_of '' ustack=0x'' @ put_hex_u32 ustk @ [10] @
      dump_regs c (cpu k) (tss_page u) @ dump_gdt m (gdtr_base c) @ dump_maps m r3 c eip ustk (tss_page u) esp0)"

definition enter_prepare :: "'d env \<Rightarrow> cpu_now \<Rightarrow> u32 \<Rightarrow> u32 \<Rightarrow> u32 \<Rightarrow> cstr option \<Rightarrow> 'd usr \<Rightarrow> 'd usr" where
  "enter_prepare E c eip ustk pd args u =
     (let u1 = u\<lparr>g_entry_esp := now_ebp c, g_user_args := set_args args (g_user_args u)\<rparr>;
          u2 = (if pd \<noteq> 0 then on_sys (\<lambda>s. onk (load_paging pd) (s\<lparr>g_user_pd := pd\<rparr>)) u1 else u1);
          k = kern (usys u2);
          esp0 = (if current_task k \<noteq> 0 \<and> kernel_stack (cur k) \<noteq> 0 then kernel_stack (cur k) + KSTACK_SIZE else 0);
          u3 = (if esp0 \<noteq> 0 then user_tss_set_esp0 esp0 u2
                else on_sys (say E (bytes_of ''enter_user: WARN no kernel stack (TSS ESP0 stale!'' @ [10])) u2)
      in on_sys (say E (enter_log c eip ustk esp0 u3)) u3)"

definition ring0_log :: "u32 \<Rightarrow> cstr" where
  "ring0_log eip =
     bytes_of ''pre-iret: RING0 '' @ [0xE5, 0x85, 0xBC, 0xE5, 0xAE, 0xB9, 0xE6, 0xA8, 0xA1, 0xE5, 0xBC, 0x8F] @ bytes_of '' entry=0x'' @
     put_hex_u32 eip @ bytes_of '' CS=0x18 (int 0x80 '' @ [0xE4, 0xB8, 0x8D, 0xE5, 0x88, 0x87, 0xE6, 0xA0, 0x88] @ bytes_of '')'' @ [10]"

definition irq_log :: "bool \<Rightarrow> cstr" where
  "irq_log b =
     bytes_of ''pre-iret: ring3 IF='' @
     (if b then bytes_of ''1 ('' @ [0xE4, 0xB8, 0xAD, 0xE6, 0x96, 0xAD, 0xE5, 0xBC, 0x80]
      else bytes_of ''0 ('' @ [0xE4, 0xB8, 0xAD, 0xE6, 0x96, 0xAD, 0xE5, 0x85, 0xB3]) @ bytes_of '')'' @ [10]"

text \<open>\<open>None\<close>: the kernel faults while it stores the arguments.\<close>

definition enter_user_mode :: "'d env \<Rightarrow> cpu_now \<Rightarrow> u32 \<Rightarrow> u32 \<Rightarrow> u32 \<Rightarrow> int \<Rightarrow> cstr option \<Rightarrow> 'd usr \<Rightarrow> (start \<times> 'd usr) option" where
  "enter_user_mode E c eip ustk pd argc args u =
     (let u1 = enter_prepare E c eip ustk pd args u in
      if g_ring0_mode (usys u1) then Some (FarJump eip ustk, on_sys (say E (ring0_log eip)) u1)
      else
        let efl = (if g_ring3_irq_on u1 then now_eflags c OR 0x200 else now_eflags c AND NOT 0x200);
            u2 = on_sys (say E (irq_log (g_ring3_irq_on u1))) u1
        in if argc > 0 \<and> g_user_args u2 ! 0 \<noteq> 0 then
             (case build_args (cr3 (cpu (kern (usys u2)))) ustk (cstr_of (g_user_args u2)) (uram u2) of None \<Rightarrow> None
              | Some (sp, m) \<Rightarrow>
                  let u3 = on_sys (onk (set_ram m)) u2
                  in Some (Iret eip 0x2B efl sp 0x23,
                       if current_task (kern (usys u3)) \<noteq> 0 then on_sys (updc (\<lambda>t. t\<lparr>user_esp := sp\<rparr>)) u3 else u3))
           else Some (Iret eip 0x2B efl ustk 0x23, u2))"

section \<open>Interrupt table\<close>

record idt_entry =
  offset_low :: u16
  selector :: u16
  idt_zero :: u8
  idt_flags :: u8
  offset_high :: u16

definition gate :: "u32 \<Rightarrow> u8 \<Rightarrow> idt_entry" where
  "gate a f = \<lparr>offset_low = ucast a, selector = 0x18, idt_zero = 0, idt_flags = f, offset_high = ucast (drop_bit 16 a)\<rparr>"

text \<open>\<open>isr_addrs\<close> and \<open>isr128\<close> are the addresses of the entry stubs.\<close>

definition idt_init :: "(nat \<Rightarrow> u32) \<Rightarrow> u32 \<Rightarrow> idt_entry list" where
  "idt_init isr_addrs isr128 = (map (\<lambda>i. gate (if i < 48 then isr_addrs i else 0) 0x8E) [0..<256])[0x80 := gate isr128 0xEE]"

end
