(* ===== verification/XE_Loader.thy ===== *)
theory XE_Loader
  imports XE_User
begin

text \<open>
  Loading programs from files: \<^verbatim>\<open>src/src/kernel/loader.cpp\<close>, \<^verbatim>\<open>src/src/kernel/elf.cpp\<close> and the start of the
  built-in user shell in \<^verbatim>\<open>src/src/shell/shell.cpp\<close>. A loader runs under the kernel's own page
  directory and stores the image at its physical address, where the program's directory maps it one to one.

  A program that starts does not return to its loader; when it has ended, control comes back behind the call of
  \<open>enter_user_mode\<close>, and the loader cleans up: that part is \<open>load_return\<close>.
\<close>

unbundle bit_operations_syntax

abbreviation (input) USER_LOAD_ADDR :: u32 where "USER_LOAD_ADDR \<equiv> 0x400000"
abbreviation (input) USER_STACK_TOP :: u32 where "USER_STACK_TOP \<equiv> 0x440000"
abbreviation (input) USER_STACK_SZ :: u32 where "USER_STACK_SZ \<equiv> 0x10000"

section \<open>Address space\<close>

definition page_count :: "u32 \<Rightarrow> nat" where
  "page_count n = unat ((n + 0xFFF) div 0x1000)"

definition map_same :: "u32 \<Rightarrow> u32 list \<Rightarrow> kst \<Rightarrow> kst" where
  "map_same pd vas k = k\<lparr>ph := fold (\<lambda>va. map_page va va PT_FLAGS (pgr k pd)) vas (ph k)\<rparr>"

definition map_user_pages :: "u32 \<Rightarrow> u32 \<Rightarrow> u32 \<Rightarrow> kst \<Rightarrow> kst" where
  "map_user_pages pd va n = map_same pd (pages_from va (page_count n))"

definition map_user_fb :: "u32 \<Rightarrow> kst \<Rightarrow> kst" where
  "map_user_fb pd k =
     (let fbaddr = ld32 (ram (ph k)) 0x500 in set_ram (map_user_4mb fbaddr fbaddr (pgr k pd) (ram (ph k))) k)"

text \<open>The program's pages, its stack and the framebuffer.\<close>

definition user_space :: "u32 \<Rightarrow> u32 \<Rightarrow> kst \<Rightarrow> kst" where
  "user_space pd n k =
     map_user_fb pd (map_user_pages pd (USER_STACK_TOP - USER_STACK_SZ) USER_STACK_SZ (map_user_pages pd USER_LOAD_ADDR n k))"

section \<open>Common steps\<close>

fun count_words :: "bool \<Rightarrow> cstr \<Rightarrow> nat" where
  "count_words in_word [] = 0"
| "count_words in_word (c # cs) =
     (if c = 32 then count_words False cs else (if in_word then 0 else 1) + count_words True cs)"

definition count_args :: "cstr \<Rightarrow> int" where
  "count_args s = int (count_words False s)"

definition load_fail :: "'d env \<Rightarrow> cstr \<Rightarrow> 'd usr \<Rightarrow> 'd usr" where
  "load_fail E msg =
     on_sys (\<lambda>s. say E (msg @ [10]) (on_scr (\<lambda>g. set_fg 7 (gfx_putc 10 (gfx_puts msg (set_fg 12 g)))) s))"

text \<open>The outcome of a loader: \<open>-1\<close>, or the program runs.\<close>

datatype 'd loaded = NotLoaded "'d usr" | Started start "'d usr"

definition load_error :: "'d env \<Rightarrow> string \<Rightarrow> 'd usr \<Rightarrow> 'd loaded option" where
  "load_error E msg u = Some (NotLoaded (load_fail E (bytes_of msg) u))"

text \<open>\<open>kmalloc(65536)\<close> and \<open>fat_read_file_buf\<close>: the buffer, the size and the contents.\<close>

definition with_file :: "'d env \<Rightarrow> cstr \<Rightarrow> (u32 \<Rightarrow> int \<Rightarrow> u8 list \<Rightarrow> 'd usr \<Rightarrow> 'd loaded option) \<Rightarrow> 'd usr \<Rightarrow> 'd loaded option" where
  "with_file E path f u =
     (case new_buf E 65536 (usys u) of None \<Rightarrow> None
      | Some (a, s1) \<Rightarrow>
          if a = 0 then load_error E ''loader: out of memory'' (u\<lparr>usys := s1\<rparr>)
          else case on_fat (fat_open (eio E) path (kbuf (kern s1) a) 65536) s1 of None \<Rightarrow> None
               | Some ((sz, bs), s2) \<Rightarrow>
                   let s3 = set_buf_at a bs s2 in
                   if sz \<le> 0 then load_error E ''loader: file not found'' (u\<lparr>usys := onk (k_free a) s3\<rparr>)
                   else f a sz bs (u\<lparr>usys := s3\<rparr>))"

text \<open>The common end: create the task and enter it.\<close>

definition set_running :: "kst \<Rightarrow> kst" where
  "set_running k = (if current_task k \<noteq> 0 then upd (current_task k) (\<lambda>t. t\<lparr>state := TASK_RUNNING\<rparr>) k else k)"

definition args_count :: "cstr option \<Rightarrow> int" where
  "args_count args = (case args of None \<Rightarrow> 0 | Some a \<Rightarrow> count_args a)"

definition launch :: "'d env \<Rightarrow> cpu_now \<Rightarrow> u32 \<Rightarrow> u32 \<Rightarrow> cstr option \<Rightarrow> (u32 \<Rightarrow> 'd sys \<Rightarrow> 'd sys) \<Rightarrow> 'd usr \<Rightarrow> 'd loaded option" where
  "launch E c eip pd args log u =
     (case task_create_user eip USER_STACK_TOP pd (kern (usys u)) of None \<Rightarrow> None
      | Some (tpid, k) \<Rightarrow>
          map_option (\<lambda>(st, u'). Started st u')
            (enter_user_mode E c eip USER_STACK_TOP pd (args_count args) args
              (u\<lparr>usys := onk set_running (log tpid ((usys u)\<lparr>kern := k\<rparr>))\<rparr>)))"

section \<open>Flat binaries\<close>

definition digits5 :: "int \<Rightarrow> cstr" where
  "digits5 n = map (\<lambda>d. of_int (48 + n div d mod 10)) [10000, 1000, 100, 10, 1]"

definition fnv1a :: "u8 list \<Rightarrow> u32" where
  "fnv1a bs = fold (\<lambda>b h. (h XOR ucast b) * 16777619) bs 2166136261"

definition img_log :: "mem \<Rightarrow> nat \<Rightarrow> u32 \<Rightarrow> cstr" where
  "img_log m sz map_sz =
     bytes_of ''img: head='' @ hex_bytes m USER_LOAD_ADDR 16 @
     bytes_of '' fnv_file=0x'' @ put_hex_u32 (fnv1a (rd_bytes m USER_LOAD_ADDR sz)) @
     bytes_of '' fnv_map=0x'' @ put_hex_u32 (fnv1a (rd_bytes m USER_LOAD_ADDR (unat map_sz))) @
     bytes_of '' map_sz=0x'' @ put_hex_u32 map_sz @ [10]"

definition launch_log :: "'d env \<Rightarrow> u32 \<Rightarrow> 'd sys \<Rightarrow> 'd sys" where
  "launch_log E tpid s =
     (let s1 = say E (bytes_of ''launch: task pid='' @ put_hex_u32 tpid @ bytes_of '' kstack=0x'' @
                 put_hex_u32 (if current_task (kern s) \<noteq> 0 then kernel_stack (ct s) else 0) @ [10]) s
      in if sint tpid < 0 then say E (bytes_of ''launch: TASK CREATE FAILED'' @ [10]) s1 else s1)"

text \<open>The memory of a flat program: its bytes, then 64 KiB of zeros; \<open>m\<close> already has the bytes.\<close>

definition clear_bss :: "u32 \<Rightarrow> kst \<Rightarrow> kst" where
  "clear_bss sz k = set_ram (wr_bytes (ram (ph k)) (USER_LOAD_ADDR + sz) (replicate 0x10000 0)) k"

definition start_flat :: "'d env \<Rightarrow> cpu_now \<Rightarrow> u32 \<Rightarrow> cstr option \<Rightarrow> 'd usr \<Rightarrow> 'd loaded option" where
  "start_flat E c sz args u =
     (case new_paging (kern (usys u)) of None \<Rightarrow> None
      | Some (pd, k) \<Rightarrow>
          let s1 = say E (bytes_of ''launch: pd=0x'' @ put_hex_u32 pd @ [10]) ((usys u)\<lparr>kern := k\<rparr>);
              map_sz = sz + 0x10000
          in if USER_LOAD_ADDR + map_sz > USER_STACK_TOP - USER_STACK_SZ
             then load_error E ''loader: program too large'' (u\<lparr>usys := onk (delete_paging pd) s1\<rparr>)
             else
               let s2 = onk (\<lambda>k. clear_bss sz (user_space pd map_sz k)) s1;
                   s3 = say E (img_log (ram (ph (kern s2))) (unat sz) map_sz) s2
               in launch E c USER_LOAD_ADDR pd args (launch_log E) (u\<lparr>usys := s3\<rparr>))"

definition load_flat_binary :: "'d env \<Rightarrow> cpu_now \<Rightarrow> cstr \<Rightarrow> cstr option \<Rightarrow> 'd usr \<Rightarrow> 'd loaded option" where
  "load_flat_binary E c path args u = with_file E path (\<lambda>a sz bs u.
     if length bs < nat sz then None
     else
       let u1 = on_sys (\<lambda>s. say E (bytes_of ''loader: flat binary '' @ digits5 sz @ bytes_of ''B'' @ [10])
             (onk (k_free a) (onk (\<lambda>k. set_ram (wr_bytes (ram (ph k)) USER_LOAD_ADDR (take (nat sz) bs)) k) s))) u
       in start_flat E c (of_int sz) args u1) u"

section \<open>ELF binaries\<close>

definition e_type :: "u8 list \<Rightarrow> u16" where "e_type b = le16 b 16"
definition e_machine :: "u8 list \<Rightarrow> u16" where "e_machine b = le16 b 18"
definition e_entry :: "u8 list \<Rightarrow> u32" where "e_entry b = le32 b 24"
definition e_phoff :: "u8 list \<Rightarrow> u32" where "e_phoff b = le32 b 28"
definition e_phnum :: "u8 list \<Rightarrow> u16" where "e_phnum b = le16 b 44"

record phdr =
  p_type :: u32
  p_offset :: u32
  p_vaddr :: u32
  p_filesz :: u32
  p_memsz :: u32
  p_flags :: u32

text \<open>Program header \<open>i\<close>; \<open>None\<close>: it is not inside of the buffer.\<close>

definition phdr_at :: "u8 list \<Rightarrow> nat \<Rightarrow> phdr option" where
  "phdr_at b i =
     (let o' = unat (e_phoff b) + 32 * i in
      if o' + 32 \<le> length b
      then Some \<lparr>p_type = le32 b o', p_offset = le32 b (o' + 4), p_vaddr = le32 b (o' + 8), p_filesz = le32 b (o' + 16),
             p_memsz = le32 b (o' + 20), p_flags = le32 b (o' + 24)\<rparr>
      else None)"

definition is_elf :: "u8 list \<Rightarrow> bool" where
  "is_elf b = (take 4 b = [0x7F, 0x45, 0x4C, 0x46])"

text \<open>A segment is stored at its virtual address, which is not checked.\<close>

definition copy_len :: "phdr \<Rightarrow> u32 \<Rightarrow> u32" where
  "copy_len p sz = (if p_offset p + p_filesz p > sz then sz - p_offset p else p_filesz p)"

definition load_segment :: "u8 list \<Rightarrow> u32 \<Rightarrow> phdr \<Rightarrow> mem \<Rightarrow> mem option" where
  "load_segment bs sz p m =
     (let n = unat (copy_len p sz); o' = unat (p_offset p) in
      if n \<noteq> 0 \<and> length bs < o' + n then None
      else Some (wr_bytes m (p_vaddr p) (take n (drop o' bs) @ replicate (unat (p_memsz p) - n) 0)))"

fun load_segments :: "'d env \<Rightarrow> u8 list \<Rightarrow> u32 \<Rightarrow> nat list \<Rightarrow> u32 \<Rightarrow> 'd sys \<Rightarrow> (u32 \<times> 'd sys) option" where
  "load_segments E bs sz [] mv s = Some (mv, s)"
| "load_segments E bs sz (i # is') mv s =
     (case phdr_at bs i of None \<Rightarrow> None
      | Some p \<Rightarrow>
          if p_type p \<noteq> 1 \<or> p_flags p AND 3 = 0 then load_segments E bs sz is' mv s
          else
            let seg_end = p_vaddr p + p_memsz p;
                s1 = say E (bytes_of ''elf: seg v=0x'' @ put_hex_u32 (p_vaddr p) @ [10]) s
            in case load_segment bs sz p (ram (ph (kern s1))) of None \<Rightarrow> None
               | Some m \<Rightarrow> load_segments E bs sz is' (if seg_end > mv then seg_end else mv) (onk (set_ram m) s1))"

definition start_elf :: "'d env \<Rightarrow> cpu_now \<Rightarrow> u32 \<Rightarrow> u32 \<Rightarrow> cstr option \<Rightarrow> 'd usr \<Rightarrow> 'd loaded option" where
  "start_elf E c eip mv args u =
     (case new_paging (kern (usys u)) of None \<Rightarrow> None
      | Some (pd, k) \<Rightarrow>
          let u1 = u\<lparr>usys := (usys u)\<lparr>kern := k\<rparr>\<rparr>; n = mv - USER_LOAD_ADDR in
          if n > USER_STACK_TOP - USER_STACK_SZ - USER_LOAD_ADDR
          then load_error E ''elf: program too large'' (on_sys (onk (delete_paging pd)) u1)
          else launch E c eip pd args (\<lambda>_ s. s) (on_sys (onk (user_space pd n)) u1))"

definition load_elf_binary :: "'d env \<Rightarrow> cpu_now \<Rightarrow> cstr \<Rightarrow> cstr option \<Rightarrow> 'd usr \<Rightarrow> 'd loaded option" where
  "load_elf_binary E c path args u = with_file E path (\<lambda>a sz bs u.
     let done = on_sys (onk (k_free a)) u in
     if sz < 52 then load_error E ''elf: file too small'' done
     else if \<not> is_elf bs then load_flat_binary E c path args done
     else if e_type bs \<noteq> 2 then load_error E ''elf: not an executable'' done
     else if e_machine bs \<noteq> 3 then load_error E ''elf: not i386'' done
     else if e_phoff bs = 0 \<or> e_phnum bs = 0 then load_error E ''elf: no program headers'' done
     else
       case load_segments E bs (of_int sz) [0..<unat (e_phnum bs)] 0
              (say E (bytes_of ''elf: entry=0x'' @ put_hex_u32 (e_entry bs) @ [10]) (usys u)) of None \<Rightarrow> None
       | Some (mv, s) \<Rightarrow> start_elf E c (e_entry bs) mv args (u\<lparr>usys := onk (k_free a) s\<rparr>)) u"

definition load_binary :: "'d env \<Rightarrow> cpu_now \<Rightarrow> cstr \<Rightarrow> cstr option \<Rightarrow> 'd usr \<Rightarrow> 'd loaded option" where
  "load_binary = load_elf_binary"

section \<open>The other ELF loader\<close>

text \<open>\<open>ElfLoader::load\<close>, which stores executable segments from physical 16 MiB on. The result is the entry,
  0 for a failure.\<close>

abbreviation (input) ELF_LOAD_PHYS :: u32 where "ELF_LOAD_PHYS \<equiv> 0x01000000"

definition elf_segment :: "u8 list \<Rightarrow> u32 \<Rightarrow> u32 \<Rightarrow> phdr \<Rightarrow> mem \<Rightarrow> mem option" where
  "elf_segment bs sz eip p m =
     (let d = ELF_LOAD_PHYS + (p_vaddr p - eip); n = p_filesz p; o' = unat (p_offset p); fits = (n > 0 \<and> p_offset p + n \<le> sz) in
      if fits \<and> length bs < o' + unat n then None
      else
        let m1 = (if fits then wr_bytes m d (take (unat n) (drop o' bs)) else m)
        in Some (if p_memsz p > n then wr_bytes m1 (d + n) (replicate (unat (p_memsz p - n)) 0) else m1))"

fun elf_segments :: "'d env \<Rightarrow> u8 list \<Rightarrow> u32 \<Rightarrow> u32 \<Rightarrow> nat list \<Rightarrow> 'd sys \<Rightarrow> 'd sys option" where
  "elf_segments E bs sz eip [] s = Some s"
| "elf_segments E bs sz eip (i # is') s =
     (case phdr_at bs i of None \<Rightarrow> None
      | Some p \<Rightarrow>
          if p_type p \<noteq> 1 \<or> p_flags p AND 1 = 0 then elf_segments E bs sz eip is' s
          else
            let s1 = say E (bytes_of ''elf: segment vaddr=0x'' @ put_hex_u32 (p_vaddr p) @ [10]) s
            in case elf_segment bs sz eip p (ram (ph (kern s1))) of None \<Rightarrow> None
               | Some m \<Rightarrow> elf_segments E bs sz eip is' (onk (set_ram m) s1))"

definition elf_load :: "'d env \<Rightarrow> cstr \<Rightarrow> u32 \<Rightarrow> 'd sys \<Rightarrow> (u32 \<times> 'd sys) option" where
  "elf_load E path pd s =
     (case new_buf E 65536 s of None \<Rightarrow> None
      | Some (a, s1) \<Rightarrow>
          if a = 0 then Some (0, say E (bytes_of ''elf: out of memory'' @ [10]) s1)
          else case on_fat (fat_open (eio E) path (kbuf (kern s1) a) 65536) s1 of None \<Rightarrow> None
               | Some ((sz, bs), s2) \<Rightarrow>
                   let s3 = set_buf_at a bs s2; eip = e_entry bs;
                       s4 = say E (bytes_of ''elf: entry=0x'' @ put_hex_u32 eip @ [10]) s3
                   in if sz \<le> 0 \<or> sz < 52 \<or> \<not> is_elf bs \<or> e_type bs \<noteq> 2 \<or> e_machine bs \<noteq> 3 then Some (0, onk (k_free a) s3)
                      else if e_phoff bs = 0 \<or> e_phnum bs = 0 then Some (0, onk (k_free a) s4)
                      else map_option (\<lambda>s5. (eip, onk (\<lambda>k. set_ram (map_user_4mb (eip AND 0xFFC00000) ELF_LOAD_PHYS (pgr k pd) (ram (ph k))) k)
                                                    (onk (k_free a) s5)))
                             (elf_segments E bs (of_int sz) eip [0..<unat (e_phnum bs)] s4))"

section \<open>The built-in shell program and the way back\<close>

definition shell_prompt :: "'d sys \<Rightarrow> gfx \<Rightarrow> gfx" where
  "shell_prompt s g =
     cursor_draw (set_fg 7 (gfx_puts (bytes_of ''> '') (set_fg 10 (gfx_puts (cstr_of (fat_cwd_str 32 (fatv s)))
       (set_fg 11 (gfx_puts (bytes_of ''XEKernel'') (set_fg 10 g)))))))"

definition shell_redraw :: "'d sys \<Rightarrow> 'd sys" where
  "shell_redraw s = on_scr (\<lambda>g. shell_prompt s (gfx_clear 0 g)) s"

definition load_return :: "'d usr \<Rightarrow> 'd usr option" where
  "load_return u =
     map_option (\<lambda>k. u\<lparr>usys := on_scr (gfx_putc 10) (shell_redraw ((usys u)\<lparr>kern := k\<rparr>))\<rparr>) (task_cleanup_user (kern (usys u)))"

text \<open>\<open>blob\<close> is the program linked into the kernel.\<close>

definition shell_launch_user :: "'d env \<Rightarrow> cpu_now \<Rightarrow> u8 list \<Rightarrow> 'd usr \<Rightarrow> 'd loaded option" where
  "shell_launch_user E c blob u =
     (let u1 = on_sys (onk (\<lambda>k. set_ram (wr_bytes (ram (ph k)) 0x400000 blob) k)) u;
          n = (length blob + 0x3FFF) div 0x1000
      in case new_paging (kern (usys u1)) of None \<Rightarrow> None
         | Some (pd, k) \<Rightarrow>
             let k1 = set_ram (wr_bytes (ram (ph k)) (0x400000 + of_nat (length blob)) (replicate (n * 0x1000 - length blob) 0)) k;
                 k2 = map_same pd (pages_from 0x430000 16) (map_same pd (pages_from 0x400000 n) k1)
             in launch E c 0x400000 pd None (\<lambda>_ s. s) (u1\<lparr>usys := (usys u1)\<lparr>kern := k2\<rparr>\<rparr>))"

definition shell_launch_return :: "'d usr \<Rightarrow> 'd usr option" where
  "shell_launch_return u = map_option (\<lambda>k. u\<lparr>usys := (usys u)\<lparr>kern := k\<rparr>\<rparr>) (task_cleanup_user (kern (usys u)))"

end
