(* ===== verification/XE_Space.thy ===== *)
theory XE_Space
  imports XE_Loader
begin

text \<open>
  The user's view of memory that \<open>exec\<close> (\<^verbatim>\<open>src/src/kernel/syscall.cpp\<close>) builds. The lemmas follow a page
  directory through a sequence of \<open>mm_alloc_page\<close> and \<open>map_page\<close>: fresh pages never hold the directory, its tables or
  another user page, so neither later mappings nor writes to other pages disturb what a page holds.
\<close>

unbundle bit_operations_syntax

section \<open>What a mapping writes\<close>

abbreviation (input) frame :: "u32 \<Rightarrow> u32" where "frame a \<equiv> a AND 0xFFFFF000"

lemma st32_other_page: "page_al a \<Longrightarrow> i < 1024 \<Longrightarrow> frame b \<noteq> a \<Longrightarrow> st32 m (slot a i) v b = m b"
  using slot_bytes [of a i 0] slot_bytes [of a i 1] slot_bytes [of a i 2] slot_bytes [of a i 3] by (auto simp: st32_def)

lemma zero_table_other_page:
  assumes "page_al a" "frame b \<noteq> a"
  shows "zero_table a m b = m b"
proof -
  have "fold (\<lambda>i m. st32 m (slot a i) 0) xs m b = m b" if "set xs \<subseteq> {i. i < 1024}" for xs
    using that by (induction xs arbitrary: m) (auto simp: st32_other_page assms)
  then show ?thesis by (simp add: zero_table_def entries_iff subset_eq)
qed

text \<open>The pages that hold the directory and its tables.\<close>

definition spages :: "mem \<Rightarrow> pager \<Rightarrow> u32 set" where
  "spages m pg = insert (page_dir_phys pg) (table_at m pg ` {i. i < 1024 \<and> is_table (get_pde m pg i)})"

lemma tbl_bytes_alt: "a \<in> tbl_bytes m pg \<longleftrightarrow> frame a \<in> spages m pg"
  by (auto simp: tbl_bytes_def spages_def)

lemma spages_taken:
  assumes "pager_wf pg p" "a \<in> spages (ram p) pg"
  shows "taken p a" "page_al a"
  using assms pager_wf_table [OF assms(1)] pager_wfD [OF assms(1)] by (auto simp: spages_def)

definition has_table :: "mem \<Rightarrow> pager \<Rightarrow> u32 \<Rightarrow> bool" where
  "has_table m pg va = is_table (get_pde m pg (drop_bit 22 va))"

lemma spages_cong:
  assumes "\<And>i. i < 1024 \<Longrightarrow> get_pde m' pg i = get_pde m pg i"
  shows "spages m' pg = spages m pg"
proof -
  have "{i. i < 1024 \<and> is_table (get_pde m' pg i)} = {i. i < 1024 \<and> is_table (get_pde m pg i)}" using assms by auto
  then show ?thesis unfolding spages_def by (intro arg_cong [of _ _ "insert _"] image_cong) (auto simp: table_at_def assms)
qed

text \<open>The effect of \<open>map_page\<close> when the page table exists or can be allocated.\<close>

lemma map_page_table:
  fixes fr flags :: u32
  assumes wf: "pager_wf pg p" and tab: "has_table (ram p) pg virt"
  defines "p' \<equiv> map_page virt fr flags pg p"
  shows "pager_wf pg p'" "pmm p' = pmm p" "\<And>i. i < 1024 \<Longrightarrow> get_pde (ram p') pg i = get_pde (ram p) pg i"
    "frame a \<notin> spages (ram p) pg \<Longrightarrow> ram p' a = ram p a"
    "translate_user (ram p') pg va =
       (if drop_bit 12 va = drop_bit 12 virt then if has flags PAGE_USER then frame fr + (va AND 0xFFF) else 0
        else translate_user (ram p) pg va)"
proof -
  let ?a = "table_at (ram p) pg (drop_bit 22 virt)"
  have t: "is_table (get_pde (ram p) pg (drop_bit 22 virt))" using tab by (simp add: has_table_def)
  have e: "p' = p\<lparr>ram := st32 (ram p) (slot ?a (drop_bit 12 virt AND 0x3FF)) (frame fr OR (flags AND 0xFFF) OR PAGE_PRESENT)\<rparr>"
    using t by (simp add: p'_def map_page_def Let_def is_table_def table_at_def)
  show "pager_wf pg p'" using map_leaf(1) [OF wf t, of fr flags] by (simp add: e)
  show "pmm p' = pmm p" by (simp add: e)
  show "get_pde (ram p') pg i = get_pde (ram p) pg i" if "i < 1024" for i using set_leaf(2) [OF wf t that] by (simp add: e)
  show "ram p' a = ram p a" if "frame a \<notin> spages (ram p) pg"
  proof -
    have "?a \<in> spages (ram p) pg" using t dir_index_less by (auto simp: spages_def)
    with that have "frame a \<noteq> ?a" by auto
    then show ?thesis
      using pager_wf_table(3) [OF wf dir_index_less t] table_index_less by (simp add: e st32_other_page)
  qed
  show "translate_user (ram p') pg va =
       (if drop_bit 12 va = drop_bit 12 virt then if has flags PAGE_USER then frame fr + (va AND 0xFFF) else 0
        else translate_user (ram p) pg va)"
    using map_leaf(2) [OF wf t, of fr flags] by (simp add: e)
qed

lemma map_page_new_table:
  fixes fr flags :: u32
  assumes wf: "pager_wf pg p" and tab: "\<not> has_table (ram p) pg virt" and free: "free_pages (pmm p) \<noteq> {}"
  defines "p' \<equiv> map_page virt fr flags pg p"
  obtains pt where "pt \<in> free_pages (pmm p)" "pager_wf pg p'" "mm_inv (pmm p')" "free_pages (pmm p') = free_pages (pmm p) - {pt}"
    "managed (pmm p') = managed (pmm p)" "spages (ram p') pg = insert pt (spages (ram p) pg)"
    "\<And>a. frame a \<notin> spages (ram p') pg \<Longrightarrow> ram p' a = ram p a"
    "\<And>va. has_table (ram p') pg va \<longleftrightarrow> has_table (ram p) pg va \<or> drop_bit 22 va = drop_bit 22 virt"
    "\<And>va. translate_user (ram p') pg va =
       (if drop_bit 12 va = drop_bit 12 virt then if has flags PAGE_USER then frame fr + (va AND 0xFFF) else 0
        else if drop_bit 22 va = drop_bit 22 virt then 0 else translate_user (ram p) pg va)"
proof -
  let ?k = "drop_bit 22 virt"
  obtain pt mm' where al: "mm_alloc_page (pmm p) = (pt, mm')" by (cases "mm_alloc_page (pmm p)")
  note inv = pager_wfD(1) [OF wf]
  have pt: "pt \<noteq> 0" using pages.alloc_null_iff [OF inv] free al by auto
  note fr' = pages.alloc_fresh [OF inv al pt]
  have ptal: "page_al pt" using fr' managed_al [OF inv] pages.free_pool [OF inv] by blast
  have nt: "\<not> is_table (get_pde (ram p) pg ?k)" using tab by (simp add: has_table_def)
  define pde where "pde = pt OR PAGE_PRESENT OR PAGE_RW OR PAGE_USER"
  define q where "q = \<lparr>ram = set_pde (zero_table pt (ram p)) pg ?k pde, pmm = mm'\<rparr>"
  note n = new_table [OF wf al pt nt dir_index_less, folded pde_def]
  have q: "pager_wf pg q" "has_table (ram q) pg virt" using n by (simp_all add: q_def has_table_def)
  have e: "p' = map_page virt fr flags pg q"
    using nt al pt n(2) by (auto simp: p'_def map_page_def Let_def is_table_def q_def pde_def)
  note mt = map_page_table [OF q, where fr = fr and flags = flags, folded e]
  have sq: "spages (ram q) pg = insert pt (spages (ram p) pg)"
  proof -
    have gq: "get_pde (ram q) pg i = (if i = ?k then pde else get_pde (ram p) pg i)" if "i < 1024" for i using n(4) [OF that] by (simp add: q_def)
    have tq: "table_at (ram q) pg ?k = pt" "is_table (get_pde (ram q) pg ?k)" using n(2,3) by (simp_all add: q_def)
    have st: "{i. i < 1024 \<and> is_table (get_pde (ram q) pg i)} = insert ?k {i. i < 1024 \<and> is_table (get_pde (ram p) pg i)}"
      using gq tq(2) dir_index_less [of virt] by (auto split: if_splits)
    have "table_at (ram q) pg ` {i. i < 1024 \<and> is_table (get_pde (ram p) pg i)} =
        table_at (ram p) pg ` {i. i < 1024 \<and> is_table (get_pde (ram p) pg i)}"
      using gq nt by (intro image_cong) (auto simp: table_at_def)
    then show ?thesis unfolding spages_def st image_insert tq(1) by (simp add: insert_commute)
  qed
  have sp: "spages (ram p') pg = spages (ram q) pg" by (rule spages_cong) (rule mt(3))
  show thesis
  proof (rule that)
    show "pt \<in> free_pages (pmm p)" "mm_inv (pmm p')" "free_pages (pmm p') = free_pages (pmm p) - {pt}" "managed (pmm p') = managed (pmm p)"
      using fr' by (auto simp: mt(2) q_def)
    show "pager_wf pg p'" by (rule mt(1))
    show "spages (ram p') pg = insert pt (spages (ram p) pg)" by (simp add: sp sq)
    show "ram p' a = ram p a" if "frame a \<notin> spages (ram p') pg" for a
    proof -
      have a: "frame a \<notin> spages (ram q) pg" "frame a \<noteq> pt" "frame a \<noteq> page_dir_phys pg" using that sp sq by (auto simp: spages_def)
      have "ram p' a = ram q a" by (rule mt(4) [OF a(1)])
      also have "\<dots> = ram p a"
        using a ptal pager_wfD(2) [OF wf] dir_index_less by (simp add: q_def set_pde_def st32_other_page zero_table_other_page)
      finally show ?thesis .
    qed
    show "has_table (ram p') pg va \<longleftrightarrow> has_table (ram p) pg va \<or> drop_bit 22 va = drop_bit 22 virt" for va
      using mt(3) [OF dir_index_less] n(2) n(4) [OF dir_index_less, of va] by (auto simp: has_table_def q_def)
    show "translate_user (ram p') pg va =
       (if drop_bit 12 va = drop_bit 12 virt then if has flags PAGE_USER then frame fr + (va AND 0xFFF) else 0
        else if drop_bit 22 va = drop_bit 22 virt then 0 else translate_user (ram p) pg va)" for va
    proof -
      have "translate_user (ram q) pg va = (if drop_bit 22 va = ?k then 0 else translate_user (ram p) pg va)"
      proof (cases "drop_bit 22 va = ?k")
        case True
        then show ?thesis using n(5) [of va] n(2) by (simp add: q_def translate_user_alt Let_def is_table_def)
      next
        case False
        then show ?thesis using n(4) [OF dir_index_less, of va] n(6) [of va] by (auto simp: q_def intro!: translate_user_cong)
      qed
      then show ?thesis using mt(5) [of va] by simp
    qed
  qed
qed

section \<open>Private pages\<close>

text \<open>Every page that is mapped through a table is an allocated page of its own: not free, neither the directory nor
  a table, and mapped once.\<close>

definition space_ok :: "pager \<Rightarrow> phys \<Rightarrow> bool" where
  "space_ok pg p = (pager_wf pg p \<and>
     (\<forall>va. has_table (ram p) pg va \<and> translate_user (ram p) pg va \<noteq> 0 \<longrightarrow>
        frame (translate_user (ram p) pg va) \<in> managed (pmm p) - free_pages (pmm p) - spages (ram p) pg) \<and>
     (\<forall>va w. has_table (ram p) pg va \<and> has_table (ram p) pg w \<and> translate_user (ram p) pg va \<noteq> 0 \<and> translate_user (ram p) pg w \<noteq> 0 \<and>
        frame (translate_user (ram p) pg va) = frame (translate_user (ram p) pg w) \<longrightarrow> drop_bit 12 va = drop_bit 12 w))"

lemma space_ok_inj:
  assumes "space_ok pg p" "has_table (ram p) pg v" "has_table (ram p) pg w" "translate_user (ram p) pg v \<noteq> 0"
    "translate_user (ram p) pg w \<noteq> 0" "frame (translate_user (ram p) pg v) = frame (translate_user (ram p) pg w)"
  shows "drop_bit 12 v = drop_bit 12 w"
  using assms unfolding space_ok_def by blast

lemma frame_add: "page_al a \<Longrightarrow> frame (a + (w AND 0xFFF)) = a"
proof -
  assume "page_al a"
  then obtain k where k: "unat a = 4096 * k" by (auto simp: page_al_def elim!: dvdE)
  define r where "r = unat (w AND 0xFFF)"
  have r: "r < 4096" by (simp add: r_def unat_page_off)
  have w: "w AND 0xFFF = of_nat r" by (simp add: r_def)
  have "unat (a + of_nat r) = unat a + r" using k r by (intro unat_in_page) simp
  then have "unat (frame (a + of_nat r)) = unat a" using k r by (simp add: frame_mask unat_and_not_mask)
  then show ?thesis unfolding w by (simp add: word_unat_eq_iff)
qed

lemma PT_FLAGS_user [simp]: "bit PT_FLAGS 2" "has PT_FLAGS PAGE_USER"
  by (simp_all add: PT_FLAGS_def bit_or_iff)

lemma pager_wf_alloc:
  assumes "pager_wf pg p" "mm_alloc_page (pmm p) = (a, mm')" "a \<noteq> 0"
  shows "pager_wf pg (p\<lparr>pmm := mm'\<rparr>)"
  using assms(1) pages.alloc_fresh [OF pager_wfD(1) [OF assms(1)] assms(2,3)] by (auto simp: pager_wf_def taken_def)

lemma map_private_page:
  assumes ok: "space_ok pg p" and al: "mm_alloc_page (pmm p) = (pa, mm1)" "pa \<noteq> 0"
    and tab: "has_table (ram p) pg virt \<or> free_pages mm1 \<noteq> {}"
  defines "p' \<equiv> map_page virt pa PT_FLAGS pg (p\<lparr>pmm := mm1\<rparr>)"
  shows "space_ok pg p'"
    "translate_user (ram p') pg w =
       (if drop_bit 12 w = drop_bit 12 virt then pa + (w AND 0xFFF)
        else if drop_bit 22 w = drop_bit 22 virt \<and> \<not> has_table (ram p) pg virt then 0 else translate_user (ram p) pg w)"
    "has_table (ram p') pg w \<longleftrightarrow> has_table (ram p) pg w \<or> drop_bit 22 w = drop_bit 22 virt"
    "pa \<in> free_pages (pmm p)" "frame a \<notin> spages (ram p') pg \<Longrightarrow> ram p' a = ram p a"
    "spages (ram p') pg \<subseteq> spages (ram p) pg \<union> free_pages (pmm p)" "spages (ram p) pg \<subseteq> spages (ram p') pg"
    "managed (pmm p') = managed (pmm p)" "free_pages (pmm p') \<subseteq> free_pages (pmm p) - {pa}"
    "card (free_pages (pmm p)) \<le> card (free_pages (pmm p')) + (if has_table (ram p) pg virt then 1 else 2)"
proof -
  let ?p1 = "p\<lparr>pmm := mm1\<rparr>" and ?T = "translate_user (ram p) pg" and ?T' = "translate_user (ram p') pg"
  have wf: "pager_wf pg p" using ok by (simp add: space_ok_def)
  note f = pages.alloc_fresh [OF pager_wfD(1) [OF wf] al]
  have wf1: "pager_wf pg ?p1" by (rule pager_wf_alloc [OF wf al])
  have paal: "page_al pa" using f managed_al [OF pager_wfD(1) [OF wf]] pages.free_pool [OF pager_wfD(1) [OF wf]] by blast
  have pas: "pa \<notin> spages (ram p) pg" using spages_taken(1) [OF wf] f by (auto simp: taken_def)
  have fin: "finite (free_pages (pmm p))" by (simp add: free_pages_def free_set_def)
  show pf: "pa \<in> free_pages (pmm p)" using f by blast
  have "\<exists>S. spages (ram p') pg = spages (ram p) pg \<union> S \<and> S \<subseteq> free_pages mm1 \<and> free_pages (pmm p') = free_pages mm1 - S \<and>
      card S \<le> (if has_table (ram p) pg virt then 0 else 1) \<and> managed (pmm p') = managed mm1 \<and> pager_wf pg p' \<and>
      (\<forall>a. frame a \<notin> spages (ram p') pg \<longrightarrow> ram p' a = ram p a) \<and>
      (\<forall>w. has_table (ram p') pg w \<longleftrightarrow> has_table (ram p) pg w \<or> drop_bit 22 w = drop_bit 22 virt) \<and>
      (\<forall>w. ?T' w = (if drop_bit 12 w = drop_bit 12 virt then pa + (w AND 0xFFF)
        else if drop_bit 22 w = drop_bit 22 virt \<and> \<not> has_table (ram p) pg virt then 0 else ?T w))"
  proof (cases "has_table (ram p) pg virt")
    case True
    then have t1: "has_table (ram ?p1) pg virt" by simp
    note m = map_page_table [OF wf1 t1, where fr = pa and flags = PT_FLAGS, folded p'_def]
    have h: "has_table (ram p') pg w = has_table (ram p) pg w" for w using m(3) [OF dir_index_less] by (simp add: has_table_def)
    have d: "has_table (ram p) pg w" if "drop_bit 22 w = drop_bit 22 virt" for w using that True by (simp add: has_table_def)
    have s: "spages (ram p') pg = spages (ram p) pg" by (rule spages_cong) (use m(3) in simp)
    show ?thesis
      by (intro exI [of _ "{}"] conjI allI) (use m True h d s page_al_frame_id [OF paal] in auto)
  next
    case False
    then have t1: "\<not> has_table (ram ?p1) pg virt" and f1: "free_pages (pmm ?p1) \<noteq> {}" using tab by auto
    obtain pt where m: "pt \<in> free_pages (pmm ?p1)" "pager_wf pg p'" "mm_inv (pmm p')" "free_pages (pmm p') = free_pages (pmm ?p1) - {pt}"
        "managed (pmm p') = managed (pmm ?p1)" "spages (ram p') pg = insert pt (spages (ram ?p1) pg)"
        "\<And>a. frame a \<notin> spages (ram p') pg \<Longrightarrow> ram p' a = ram ?p1 a"
        "\<And>va. has_table (ram p') pg va \<longleftrightarrow> has_table (ram ?p1) pg va \<or> drop_bit 22 va = drop_bit 22 virt"
        "\<And>va. ?T' va = (if drop_bit 12 va = drop_bit 12 virt then if has PT_FLAGS PAGE_USER then frame pa + (va AND 0xFFF) else 0
          else if drop_bit 22 va = drop_bit 22 virt then 0 else translate_user (ram ?p1) pg va)"
    proof (rule map_page_new_table [OF wf1 t1 f1, where fr = pa and flags = PT_FLAGS, folded p'_def], goal_cases)
      case (1 pt)
      show ?case by (rule 1(1)) (fact 1)+
    qed
    show ?thesis
      by (intro exI [of _ "{pt}"] conjI allI) (use m False page_al_frame_id [OF paal] in auto)
  qed
  then obtain S where S: "spages (ram p') pg = spages (ram p) pg \<union> S" "S \<subseteq> free_pages mm1" "free_pages (pmm p') = free_pages mm1 - S"
      "card S \<le> (if has_table (ram p) pg virt then 0 else 1)" "managed (pmm p') = managed mm1" and wf': "pager_wf pg p'"
    and r: "\<And>a. frame a \<notin> spages (ram p') pg \<Longrightarrow> ram p' a = ram p a"
    and h: "\<And>w. has_table (ram p') pg w \<longleftrightarrow> has_table (ram p) pg w \<or> drop_bit 22 w = drop_bit 22 virt"
    and T: "\<And>w. ?T' w = (if drop_bit 12 w = drop_bit 12 virt then pa + (w AND 0xFFF)
        else if drop_bit 22 w = drop_bit 22 virt \<and> \<not> has_table (ram p) pg virt then 0 else ?T w)" by blast
  show "?T' w = (if drop_bit 12 w = drop_bit 12 virt then pa + (w AND 0xFFF)
        else if drop_bit 22 w = drop_bit 22 virt \<and> \<not> has_table (ram p) pg virt then 0 else ?T w)" by (rule T)
  show "has_table (ram p') pg w \<longleftrightarrow> has_table (ram p) pg w \<or> drop_bit 22 w = drop_bit 22 virt" by (rule h)
  show "ram p' a = ram p a" if "frame a \<notin> spages (ram p') pg" by (rule r [OF that])
  show "spages (ram p') pg \<subseteq> spages (ram p) pg \<union> free_pages (pmm p)" "spages (ram p) pg \<subseteq> spages (ram p') pg"
    "managed (pmm p') = managed (pmm p)" "free_pages (pmm p') \<subseteq> free_pages (pmm p) - {pa}" using S f by auto
  have "card (free_pages mm1 - S) + card S = card (free_pages mm1)"
    using S(2) fin f by (metis card_Diff_subset card_mono finite_Diff finite_subset le_add_diff_inverse2)
  moreover have "card (free_pages mm1) + 1 = card (free_pages (pmm p))"
    using f fin pf by (metis Suc_eq_plus1 card_Suc_Diff1)
  ultimately show "card (free_pages (pmm p)) \<le> card (free_pages (pmm p')) + (if has_table (ram p) pg virt then 1 else 2)"
    using S(3,4) by (simp split: if_splits)
  have old: "frame (?T w) \<in> managed (pmm p) - free_pages (pmm p) - spages (ram p) pg \<and> frame (?T w) \<noteq> pa \<and> has_table (ram p) pg w \<and> ?T w \<noteq> 0 \<and> ?T' w = ?T w"
    if "has_table (ram p') pg w" "?T' w \<noteq> 0" "drop_bit 12 w \<noteq> drop_bit 12 virt" for w
  proof -
    have e: "?T' w = ?T w" "?T w \<noteq> 0" "\<not> (drop_bit 22 w = drop_bit 22 virt \<and> \<not> has_table (ram p) pg virt)" using T [of w] that by (auto split: if_splits)
    then have "has_table (ram p) pg w" using h [of w] that by (auto simp: has_table_def)
    then show ?thesis using e ok pf unfolding space_ok_def by blast
  qed
  have new: "frame (?T' w) = pa" if "drop_bit 12 w = drop_bit 12 virt" for w using that frame_add [OF paal] by (simp add: T)
  show "space_ok pg p'"
    unfolding space_ok_def
  proof (intro conjI allI impI, goal_cases)
    case 1 show ?case by (rule wf')
  next
    case (2 w)
    show ?case
    proof (cases "drop_bit 12 w = drop_bit 12 virt")
      case True
      then show ?thesis using new S f pas pages.free_pool [OF pager_wfD(1) [OF wf]] by auto
    next
      case False
      then show ?thesis using old [of w] 2 S f by auto
    qed
  next
    case (3 v w)
    show ?case
    proof (cases "drop_bit 12 v = drop_bit 12 virt \<or> drop_bit 12 w = drop_bit 12 virt")
      case True
      then show ?thesis using new [of v] new [of w] old [of v] old [of w] 3 by metis
    next
      case False
      then show ?thesis using old [of v] old [of w] 3 ok unfolding space_ok_def by metis
    qed
  qed
qed

text \<open>A write to a page other than the directory and its tables.\<close>

lemma write_page:
  assumes ok: "space_ok pg p" and f: "f \<notin> spages (ram p) pg" and m: "\<And>a. frame a \<noteq> f \<Longrightarrow> m' a = ram p a"
  shows "space_ok pg (p\<lparr>ram := m'\<rparr>)" "translate_user m' pg va = translate_user (ram p) pg va" "spages m' pg = spages (ram p) pg"
    "has_table m' pg va = has_table (ram p) pg va"
proof -
  have wf: "pager_wf pg p" using ok by (simp add: space_ok_def)
  have g: "get_pde m' pg i = get_pde (ram p) pg i" if "i < 1024" for i
    unfolding get_pde_def by (rule ld32_page_cong [OF pager_wfD(2) [OF wf] that]) (use f m in \<open>auto simp: spages_def\<close>)
  show s: "spages m' pg = spages (ram p) pg" by (rule spages_cong [OF g])
  show h: "has_table m' pg va = has_table (ram p) pg va" for va using g [OF dir_index_less] by (simp add: has_table_def)
  show t: "translate_user m' pg va = translate_user (ram p) pg va" for va
    by (rule translate_frame [OF pager_wfD(2) [OF wf]]) (rule m, use f in \<open>auto simp: tbl_bytes_alt\<close>)
  have "pager_wf pg (p\<lparr>ram := m'\<rparr>)" using wf g by (simp add: pager_wf_def table_at_def taken_def)
  then show "space_ok pg (p\<lparr>ram := m'\<rparr>)" using ok by (simp add: space_ok_def s h t)
qed

text \<open>Only the directory's address counts; the list of pages to free on exit does not.\<close>

lemma same_dir:
  assumes "page_dir_phys pg' = page_dir_phys pg"
  shows "get_pde m pg' = get_pde m pg" "translate_user m pg' = translate_user m pg" "spages m pg' = spages m pg"
    "has_table m pg' = has_table m pg" "space_ok pg' p = space_ok pg p" "user_byte m pg' = user_byte m pg"
proof -
  show g: "get_pde m pg' = get_pde m pg" for m by (simp add: get_pde_def assms fun_eq_iff)
  show t: "translate_user m pg' = translate_user m pg" for m by (simp add: translate_user_def g fun_eq_iff)
  have a: "table_at m pg' = table_at m pg" for m by (simp add: table_at_def g fun_eq_iff)
  show s: "spages m pg' = spages m pg" for m by (simp add: spages_def g a assms)
  show h: "has_table m pg' = has_table m pg" for m by (simp add: has_table_def g fun_eq_iff)
  have "pager_wf pg' p = pager_wf pg p" by (simp add: pager_wf_def g a assms)
  then show "space_ok pg' p = space_ok pg p" by (simp add: space_ok_def t s h)
  show "user_byte m pg' = user_byte m pg" by (simp add: user_byte_def t fun_eq_iff)
qed

lemma track_owned_dir [simp]: "page_dir_phys (track_owned a pg) = page_dir_phys pg"
  by (simp add: track_owned_def)

section \<open>Mapping a run of fresh pages\<close>

text \<open>The state after fresh pages have been mapped at the addresses \<open>vas\<close>, all behind directory entry \<open>c\<close>.\<close>

definition pages_mapped :: "u32 \<Rightarrow> u32 \<Rightarrow> u32 list \<Rightarrow> kst \<Rightarrow> kst \<Rightarrow> bool" where
  "pages_mapped pd c vas k k' =
     (let pg = pgr k pd; m = ram (ph k); m' = ram (ph k'); F = free_pages (pmm (ph k)); new = drop_bit 12 ` set vas in
      space_ok (pgr k' pd) (ph k') \<and> page_dir_phys (pgr k' pd) = page_dir_phys pg \<and>
      (\<forall>w. drop_bit 12 w \<in> new \<longrightarrow> translate_user m' pg w \<noteq> 0 \<and> frame (translate_user m' pg w) \<in> F) \<and>
      (\<forall>w. drop_bit 12 w \<notin> new \<longrightarrow>
         translate_user m' pg w = (if vas \<noteq> [] \<and> drop_bit 22 w = c \<and> \<not> has_table m pg w then 0 else translate_user m pg w)) \<and>
      (\<forall>w. has_table m' pg w \<longleftrightarrow> has_table m pg w \<or> vas \<noteq> [] \<and> drop_bit 22 w = c) \<and>
      (\<forall>a. frame a \<notin> spages m' pg \<longrightarrow> m' a = m a) \<and> spages m' pg \<subseteq> spages m pg \<union> F \<and> spages m pg \<subseteq> spages m' pg \<and>
      managed (pmm (ph k')) = managed (pmm (ph k)) \<and> free_pages (pmm (ph k')) \<subseteq> F \<and>
      k' = k\<lparr>ph := ph k', pgr := (pgr k)(pd := pgr k' pd)\<rparr>)"

lemma map_fresh_mapped:
  assumes "space_ok (pgr k pd) (ph k)" "\<forall>va \<in> set vas. drop_bit 22 va = c" "distinct (map (drop_bit 12) vas)"
    "length vas + (if vas = [] \<or> has_table (ram (ph k)) (pgr k pd) (hd vas) then 0 else 1) \<le> card (free_pages (pmm (ph k)))"
  shows "\<exists>k'. map_fresh pd vas k = ((True, length vas), k') \<and> pages_mapped pd c vas k k' \<and>
    card (free_pages (pmm (ph k))) \<le> card (free_pages (pmm (ph k'))) + length vas +
      (if vas = [] \<or> has_table (ram (ph k)) (pgr k pd) (hd vas) then 0 else 1)"
  using assms
proof (induction vas arbitrary: k)
  case Nil
  then show ?case by (auto simp: pages_mapped_def Let_def)
next
  case (Cons va vas)
  let ?pg = "pgr k pd" and ?p = "ph k" and ?h = "has_table (ram (ph k)) (pgr k pd) va"
  have inv: "mm_inv (pmm ?p)" using Cons.prems(1) by (auto simp: space_ok_def pager_wf_def)
  obtain pa mm1 where al: "mm_alloc_page (pmm ?p) = (pa, mm1)" by (cases "mm_alloc_page (pmm ?p)")
  have ne: "free_pages (pmm ?p) \<noteq> {}" using Cons.prems(4) by auto
  then have pa: "pa \<noteq> 0" using pages.alloc_null_iff [OF inv] al by auto
  note f = pages.alloc_fresh [OF inv al pa]
  have fin: "finite (free_pages (pmm ?p))" by (simp add: free_pages_def free_set_def)
  have tab: "?h \<or> free_pages mm1 \<noteq> {}"
  proof (cases ?h)
    case False
    have "card (free_pages mm1) + 1 = card (free_pages (pmm ?p))" using f fin by (metis Suc_eq_plus1 card_Suc_Diff1)
    then show ?thesis using Cons.prems(4) False by auto
  qed simp
  note m = map_private_page [OF Cons.prems(1) al pa tab]
  define k1 where "k1 = map_owned pd va pa PT_FLAGS (k\<lparr>ph := ?p\<lparr>pmm := mm1\<rparr>\<rparr>)"
  have k1: "ph k1 = map_page va pa PT_FLAGS ?pg (?p\<lparr>pmm := mm1\<rparr>)" "page_dir_phys (pgr k1 pd) = page_dir_phys ?pg"
      "k1 = k\<lparr>ph := ph k1, pgr := (pgr k)(pd := pgr k1 pd)\<rparr>"
    by (simp_all add: k1_def map_owned_def)
  note d1 = same_dir [OF k1(2)]
  have mf: "map_fresh pd (va # vas) k = (case map_fresh pd vas k1 of ((ok, n), k2) \<Rightarrow> ((ok, Suc n), k2))"
    using al pa by (simp add: k_alloc_page_def k1_def)
  have sp1: "space_ok (pgr k1 pd) (ph k1)" using m(1) by (simp add: d1 k1(1))
  have h1: "has_table (ram (ph k1)) (pgr k1 pd) (hd vas)" if "vas \<noteq> []"
  proof -
    have "drop_bit 22 (hd vas) = drop_bit 22 va" using Cons.prems(2) that by simp
    then show ?thesis using m(3) by (simp add: d1 k1(1))
  qed
  have len: "length vas \<le> card (free_pages (pmm (ph k1)))" using m(10) Cons.prems(4) unfolding k1(1) by (simp split: if_splits)
  obtain k2 where k2: "map_fresh pd vas k1 = ((True, length vas), k2)" "pages_mapped pd c vas k1 k2"
      "card (free_pages (pmm (ph k1))) \<le> card (free_pages (pmm (ph k2))) + length vas"
    using Cons.IH [OF sp1] Cons.prems(2,3) len h1 by force
  show ?case
  proof (intro exI [of _ k2] conjI)
    show "map_fresh pd (va # vas) k = ((True, length (va # vas)), k2)" using mf k2(1) by simp
    show "card (free_pages (pmm ?p)) \<le> card (free_pages (pmm (ph k2))) + length (va # vas) +
        (if va # vas = [] \<or> has_table (ram ?p) ?pg (hd (va # vas)) then 0 else 1)"
      using m(10) k2(3) unfolding k1(1) [symmetric] by (simp split: if_splits)
    have vc: "drop_bit 22 va = c" using Cons.prems(2) by simp
    note g = k2(2) [unfolded pages_mapped_def Let_def d1]
    have pal: "page_al pa" using f managed_al [OF inv] pages.free_pool [OF inv] by blast
    have T1: "translate_user (ram (ph k1)) ?pg w = (if drop_bit 12 w = drop_bit 12 va then pa + (w AND 0xFFF)
        else if drop_bit 22 w = c \<and> \<not> has_table (ram ?p) ?pg w then 0 else translate_user (ram ?p) ?pg w)" for w
      using m(2) [of w] unfolding k1(1) [symmetric] vc by (auto simp: has_table_def vc)
    have H1: "has_table (ram (ph k1)) ?pg w \<longleftrightarrow> has_table (ram ?p) ?pg w \<or> drop_bit 22 w = c" for w
      using m(3) [of w] unfolding k1(1) [symmetric] vc .
    have na: "drop_bit 12 va \<notin> drop_bit 12 ` set vas" using Cons.prems(3) by auto
    have nz: "pa + (w AND 0xFFF) \<noteq> 0 \<and> frame (pa + (w AND 0xFFF)) = pa" for w
      using frame_add [OF pal, of w] pa by auto
    show "pages_mapped pd c (va # vas) k k2"
      unfolding pages_mapped_def Let_def
    proof (intro conjI allI impI, goal_cases)
      case (3 w)
      then show ?case using g T1 [of w] H1 [of w] na nz m(4,9) unfolding k1(1) [symmetric] by (cases "drop_bit 12 w = drop_bit 12 va") auto
    next
      case (4 w)
      then show ?case using g T1 [of w] H1 [of w] na nz m(4,9) unfolding k1(1) [symmetric] by (cases "drop_bit 12 w = drop_bit 12 va") auto
    next
      case (5 w)
      have "drop_bit 12 w \<notin> set (map (drop_bit 12) vas)" using 5 by auto
      then show ?case using 5 g T1 [of w] H1 [of w] by auto
    next
      case (6 w)
      then show ?case using g H1 [of w] by auto
    next
      case (7 a)
      have "spages (ram (ph k1)) ?pg \<subseteq> spages (ram (ph k2)) ?pg" using g by blast
      with 7 have "frame a \<notin> spages (ram (ph k1)) ?pg" by blast
      then have "ram (ph k1) a = ram ?p a" using m(5) [of a] unfolding k1(1) [symmetric] by blast
      then show ?case using 7 g by simp
    next
      case 12
      have "k2 = k1\<lparr>ph := ph k2, pgr := (pgr k1)(pd := pgr k2 pd)\<rparr>" using g by blast
      also have "\<dots> = k\<lparr>ph := ph k2, pgr := (pgr k)(pd := pgr k2 pd)\<rparr>" by (subst (1 2) k1(3)) simp
      finally show ?case .
    qed (use g m(6,7,8,9) k1(2) in \<open>auto simp: k1(1) [symmetric]\<close>)
  qed
qed

section \<open>Filling pages\<close>

definition fill_pages :: "pager \<Rightarrow> (u32 \<times> u8 list) list \<Rightarrow> mem \<Rightarrow> mem" where
  "fill_pages pg xs m = fold (\<lambda>(va, bs) m. wr_bytes m (translate_user m pg va) bs) xs m"

lemma fill_pages_simps [simp]: "fill_pages pg [] m = m"
  "fill_pages pg ((va, bs) # xs) m = fill_pages pg xs (wr_bytes m (translate_user m pg va) bs)"
  by (simp_all add: fill_pages_def)

lemma page_split:
  assumes "page_al f" "frame b = f"
  shows "b = f + of_nat (unat (b AND 0xFFF))" "unat (b AND 0xFFF) < 4096"
proof -
  have u: "unat b = unat f + unat (b AND 0xFFF)" using assms(2) by (auto simp: frame_mask unat_and_not_mask unat_page_off)
  have "unat (f + of_nat (unat (b AND 0xFFF))) = unat f + unat (b AND 0xFFF)"
    using assms(1) by (intro unat_in_page) (simp add: page_al_def dvd_eq_mod_eq_0 unat_page_off)
  then show "b = f + of_nat (unat (b AND 0xFFF))" using u by (simp only: word_unat_eq_iff)
  show "unat (b AND 0xFFF) < 4096" by (simp add: unat_page_off)
qed

lemma page_off:
  assumes "page_al f" "i < 4096"
  shows "frame (f + of_nat i) = f" "unat ((f + of_nat i) AND 0xFFF) = i"
proof -
  obtain k where k: "unat f = 4096 * k" using assms(1) by (auto simp: page_al_def elim!: dvdE)
  have u: "unat (f + of_nat i) = unat f + i" using k assms(2) by (intro unat_in_page) simp
  show "unat ((f + of_nat i) AND 0xFFF) = i" using u k assms(2) by (simp add: unat_page_off)
  have "unat (frame (f + of_nat i)) = unat f" using u k assms(2) by (simp add: frame_mask unat_and_not_mask)
  then show "frame (f + of_nat i) = f" by (simp add: word_unat_eq_iff)
qed

lemma wr_page:
  assumes "page_al f" "length bs = 4096"
  shows "wr_bytes m f bs b = (if frame b = f then bs ! unat (b AND 0xFFF) else m b)"
proof -
  have w: "fold (\<lambda>i m. m(f + of_nat i := bs ! i)) [0..<n] m b =
      (if frame b = f \<and> unat (b AND 0xFFF) < n then bs ! unat (b AND 0xFFF) else m b)" if "n \<le> 4096" for n
    using that
  proof (induction n)
    case (Suc n)
    have "b = f + of_nat n \<longleftrightarrow> frame b = f \<and> unat (b AND 0xFFF) = n"
      using page_off [OF assms(1), of n] page_split [OF assms(1), of b] Suc.prems by auto
    then show ?case using Suc by auto
  qed simp
  show ?thesis using w [of 4096] page_split(2) [OF assms(1), of b] assms(2) by (auto simp: wr_bytes_def)
qed

lemma translate_base:
  assumes "translate_user m pg va \<noteq> 0" "page_al va"
  shows "page_al (translate_user m pg va)" "frame (translate_user m pg va) = translate_user m pg va"
    "i < 4096 \<Longrightarrow> translate_user m pg (va + of_nat i) = translate_user m pg va + of_nat i"
proof -
  have z: "unat va mod 4096 = 0" using assms(2) by (simp add: page_al_def dvd_eq_mod_eq_0)
  show al: "page_al (translate_user m pg va)" using translate_offset [OF assms(1)] z by (simp add: page_al_def dvd_eq_mod_eq_0)
  then show "frame (translate_user m pg va) = translate_user m pg va" by (rule page_al_frame_id)
  show "translate_user m pg (va + of_nat i) = translate_user m pg va + of_nat i" if "i < 4096"
    using translate_step [OF assms(1), of i] that z by simp
qed

lemma page_number_inj: "page_al a \<Longrightarrow> page_al b \<Longrightarrow> drop_bit 12 a = drop_bit 12 (b :: u32) \<Longrightarrow> a = b"
proof -
  assume al: "page_al a" "page_al b" and e: "drop_bit 12 a = drop_bit 12 b"
  have "unat a div 4096 = unat b div 4096" using e by (simp add: word_unat_eq_iff drop_bit_eq_div unat_div)
  then show "a = b" using al by (auto simp: page_al_def word_unat_eq_iff elim!: dvdE)
qed

lemma fill_pages_spec:
  assumes "space_ok pg (p\<lparr>ram := m\<rparr>)" "distinct (map fst xs)"
    "\<And>va bs. (va, bs) \<in> set xs \<Longrightarrow> page_al va \<and> translate_user m pg va \<noteq> 0 \<and> has_table m pg va \<and> length bs = 4096"
  shows "space_ok pg (p\<lparr>ram := fill_pages pg xs m\<rparr>)" "translate_user (fill_pages pg xs m) pg w = translate_user m pg w"
    "spages (fill_pages pg xs m) pg = spages m pg" "has_table (fill_pages pg xs m) pg w = has_table m pg w"
    "(\<And>va bs. (va, bs) \<in> set xs \<Longrightarrow> frame a \<noteq> translate_user m pg va) \<Longrightarrow> fill_pages pg xs m a = m a"
    "(va, bs) \<in> set xs \<Longrightarrow> frame a = translate_user m pg va \<Longrightarrow> fill_pages pg xs m a = bs ! unat (a AND 0xFFF)"
proof -
  let ?ok = "\<lambda>xs m. space_ok pg (p\<lparr>ram := fill_pages pg xs m\<rparr>) \<and> (\<forall>w. translate_user (fill_pages pg xs m) pg w = translate_user m pg w) \<and>
    spages (fill_pages pg xs m) pg = spages m pg \<and> (\<forall>w. has_table (fill_pages pg xs m) pg w = has_table m pg w) \<and>
    (\<forall>a. (\<forall>va bs. (va, bs) \<in> set xs \<longrightarrow> frame a \<noteq> translate_user m pg va) \<longrightarrow> fill_pages pg xs m a = m a) \<and>
    (\<forall>va bs a. (va, bs) \<in> set xs \<and> frame a = translate_user m pg va \<longrightarrow> fill_pages pg xs m a = bs ! unat (a AND 0xFFF))"
  have "?ok xs m" using assms
  proof (induction xs arbitrary: m)
    case (Cons x xs)
    obtain va bs where x: "x = (va, bs)" by (cases x)
    let ?T = "translate_user m pg"
    have v: "page_al va" "?T va \<noteq> 0" "has_table m pg va" "length bs = 4096" using Cons.prems(3) x by auto
    note tb = translate_base [OF v(2,1)]
    define m1 where "m1 = wr_bytes m (?T va) bs"
    have m1: "m1 b = (if frame b = ?T va then bs ! unat (b AND 0xFFF) else m b)" for b using wr_page [OF tb(1) v(4)] by (simp add: m1_def)
    have ns: "?T va \<notin> spages m pg" using Cons.prems(1) v tb(2) by (auto simp: space_ok_def)
    have "space_ok pg (p\<lparr>ram := m1\<rparr>)" "translate_user m1 pg w = ?T w" "spages m1 pg = spages m pg" "has_table m1 pg w = has_table m pg w" for w
      using write_page [OF Cons.prems(1), of "?T va" m1] ns m1 by auto
    note w = this
    have ne: "?T va' \<noteq> ?T va" if "(va', bs') \<in> set xs" for va' bs'
    proof
      assume e: "?T va' = ?T va"
      have v': "page_al va'" "?T va' \<noteq> 0" "has_table m pg va'" using Cons.prems(3) that by auto
      have "drop_bit 12 va' = drop_bit 12 va" 
        by (rule space_ok_inj [OF Cons.prems(1), unfolded phys.select_convs phys.update_convs, simplified]) (use v v' e in auto)
      then have "va' = va" using page_number_inj v v' by blast
      then show False using Cons.prems(2) that x by force
    qed
    have "?ok xs m1" by (rule Cons.IH [OF w(1)]) (use Cons.prems(2,3) x w in auto)
    note ih = this [unfolded w(2,3,4)]
    have e: "fill_pages pg (x # xs) m = fill_pages pg xs m1" by (simp add: x m1_def)
    show ?case
      unfolding e
    proof (intro conjI allI impI, goal_cases)
      case (5 a)
      then have "\<forall>va bs. (va, bs) \<in> set xs \<longrightarrow> frame a \<noteq> ?T va" "frame a \<noteq> ?T va" unfolding x by (meson list.set_intros)+
      then have "fill_pages pg xs m1 a = m1 a" "frame a \<noteq> ?T va" using ih by blast+
      then show ?case using m1 [of a] by simp
    next
      case (6 va' bs' a)
      show ?case
      proof (cases "(va', bs') \<in> set xs")
        case True
        then show ?thesis using 6 ih by blast
      next
        case False
        then have e: "va' = va" "bs' = bs" using 6 x by auto
        have fa: "frame a = ?T va" using 6 e by simp
        have "\<forall>va bs. (va, bs) \<in> set xs \<longrightarrow> frame a \<noteq> ?T va" unfolding fa using ne by metis
        then have "fill_pages pg xs m1 a = m1 a" using ih by blast
        then show ?thesis using m1 [of a] 6 e by simp
      qed
    qed (use ih in auto)
  qed simp
  then show "space_ok pg (p\<lparr>ram := fill_pages pg xs m\<rparr>)" "translate_user (fill_pages pg xs m) pg w = translate_user m pg w"
    "spages (fill_pages pg xs m) pg = spages m pg" "has_table (fill_pages pg xs m) pg w = has_table m pg w"
    "(\<And>va bs. (va, bs) \<in> set xs \<Longrightarrow> frame a \<noteq> translate_user m pg va) \<Longrightarrow> fill_pages pg xs m a = m a"
    "(va, bs) \<in> set xs \<Longrightarrow> frame a = translate_user m pg va \<Longrightarrow> fill_pages pg xs m a = bs ! unat (a AND 0xFFF)"
    by blast+
qed

section \<open>Runs of pages\<close>

lemma pages_from_nth:
  assumes "page_al base" "unat base + 4096 * n \<le> 2 ^ 32" "i < n"
  shows "unat (base + of_nat i * 0x1000) = unat base + 4096 * i" "page_al (base + of_nat i * 0x1000)"
proof -
  have lt: "unat base + 4096 * i < 2 ^ 32" using assms(2,3) by simp
  have u: "unat (of_nat i * 0x1000 :: u32) = 4096 * i" using lt by (simp add: unat_word_ariths unsigned_of_nat take_bit_nat_eq_self)
  show e: "unat (base + of_nat i * 0x1000) = unat base + 4096 * i" using lt u by (simp add: unat_word_ariths)
  show "page_al (base + of_nat i * 0x1000)" using assms(1) by (simp add: page_al_def e)
qed

lemma set_pages_from: "set (pages_from base n) = {base + of_nat i * 0x1000 |i. i < n}" "length (pages_from base n) = n"
  by (auto simp: pages_from_def)

lemma page_number: "unat (drop_bit 12 (w :: u32)) = unat w div 4096" "unat (drop_bit 22 (w :: u32)) = unat w div 4194304"
  by (simp_all add: drop_bit_eq_div unat_div)

lemma in_pages_from:
  assumes "page_al base" "unat base + 4096 * n \<le> 2 ^ 32"
  shows "drop_bit 12 w \<in> drop_bit 12 ` set (pages_from base n) \<longleftrightarrow> unat base \<le> unat w \<and> unat w < unat base + 4096 * n"
proof -
  obtain b where b: "unat base = 4096 * b" using assms(1) by (auto simp: page_al_def elim!: dvdE)
  have "drop_bit 12 w = drop_bit 12 (base + of_nat i * 0x1000) \<longleftrightarrow> unat w div 4096 = b + i" if "i < n" for i
    using pages_from_nth(1) [OF assms that] b by (simp add: word_unat_eq_iff page_number)
  then have "drop_bit 12 w \<in> drop_bit 12 ` set (pages_from base n) \<longleftrightarrow> (\<exists>i < n. unat w div 4096 = b + i)"
    by (auto simp: set_pages_from)
  also have "\<dots> \<longleftrightarrow> b \<le> unat w div 4096 \<and> unat w div 4096 < b + n" by (auto intro!: exI [of _ "unat w div 4096 - b"])
  also have "\<dots> \<longleftrightarrow> unat base \<le> unat w \<and> unat w < unat base + 4096 * n" unfolding b by (auto simp: less_eq_div_iff_mult_less_eq div_less_iff_less_mult algebra_simps)
  finally show ?thesis .
qed

lemma pages_from_distinct:
  assumes "page_al base" "unat base + 4096 * n \<le> 2 ^ 32"
  shows "distinct (map (drop_bit 12) (pages_from base n))" "distinct (pages_from base n)"
proof -
  show d: "distinct (map (drop_bit 12) (pages_from base n))"
  proof (auto simp: pages_from_def distinct_map inj_on_def)
    fix i j assume "i < n" "j < n" "drop_bit 12 (base + of_nat i * 0x1000) = drop_bit 12 (base + of_nat j * 0x1000)"
    then have "base + of_nat i * 0x1000 = base + of_nat j * 0x1000" using page_number_inj pages_from_nth [OF assms] by blast
    then have "unat base + 4096 * i = unat base + 4096 * j" using pages_from_nth(1) [OF assms] \<open>i < n\<close> \<open>j < n\<close> by metis
    then show "i = j" by simp
  qed
  then show "distinct (pages_from base n)" by (simp add: distinct_map)
qed

lemma dir_one: "drop_bit 22 (w :: u32) = 1 \<longleftrightarrow> 0x400000 \<le> unat w \<and> unat w < 0x800000"
  unfolding word_unat_eq_iff page_number
  using less_eq_div_iff_mult_less_eq [of "4194304 :: nat" 1 "unat w"] div_less_iff_less_mult [of "4194304 :: nat" "unat w" 2] by auto

section \<open>Exec in terms of page fills\<close>

lemma set_ram_simps [simp]: "ph (set_ram m k) = (ph k)\<lparr>ram := m\<rparr>" "pgr (set_ram m k) = pgr k" "set_ram m' (set_ram m k) = set_ram m' k"
  "kernel_stack (tsk (set_ram m k) a) = kernel_stack (tsk k a)" "current_task (set_ram m k) = current_task k"
  by (simp_all add: set_ram_def)

lemma exec_fill_alt:
  assumes "\<And>off. off \<in> set offs \<Longrightarrow> exec_page data sz off \<noteq> None"
  shows "exec_fill pd data sz offs k =
    Some (set_ram (fill_pages (pgr k pd) (map (\<lambda>off. (0x400000 + off, the (exec_page data sz off))) offs) (ram (ph k))) k)"
  using assms
proof (induction offs arbitrary: k)
  case Nil
  then show ?case by (simp add: set_ram_def)
next
  case (Cons off offs)
  then obtain bs where "exec_page data sz off = Some bs" by fastforce
  then show ?case using Cons by simp
qed

lemma clear_pages_alt:
  "clear_pages pd vas k = set_ram (fill_pages (pgr k pd) (map (\<lambda>va. (va, replicate 4096 0)) vas) (ram (ph k))) k"
proof (induction vas arbitrary: k)
  case Nil
  then show ?case by (simp add: clear_pages_def set_ram_def)
next
  case (Cons va vas)
  then show ?case by (simp add: clear_pages_def)
qed

lemma exec_page_bytes:
  assumes "unat sz \<le> length data" "unat off + 4096 < 2 ^ 32"
  obtains bs where "exec_page data sz off = Some bs" "length bs = 4096"
    "\<And>j. j < 4096 \<Longrightarrow> bs ! j = (if unat off + j < unat sz then data ! (unat off + j) else 0)"
proof -
  define n where "n = (if off < sz then (if sz - off > 0x1000 then 0x1000 else sz - off) else 0)"
  have n: "unat n = (if unat off < unat sz then min 4096 (unat sz - unat off) else 0)"
  proof (cases "off < sz")
    case True
    then have "unat (sz - off) = unat sz - unat off" by (intro unat_sub) simp
    then show ?thesis using True by (simp add: n_def word_less_nat_alt)
  qed (simp add: n_def word_less_nat_alt)
  have le: "unat off + unat n \<le> length data \<or> n = 0" using assms(1) n by (auto simp: word_unat_eq_iff)
  define bs where "bs = take (unat n) (drop (unat off) data) @ replicate (4096 - unat n) 0"
  have tl: "length (take (unat n) (drop (unat off) data)) = unat n" using le by auto
  show thesis
  proof (rule that [of bs])
    show "exec_page data sz off = Some bs" using le by (simp add: exec_page_def n_def [symmetric] bs_def Let_def)
    show "length bs = 4096" using tl n by (simp add: bs_def)
    show "bs ! j = (if unat off + j < unat sz then data ! (unat off + j) else 0)" if "j < 4096" for j
    proof (cases "j < unat n")
      case True
      then have "unat off + j < unat sz" using n by (auto split: if_splits)
      then show ?thesis using True tl le n by (auto simp: bs_def nth_append)
    next
      case False
      then have "\<not> unat off + j < unat sz" using n that by (auto split: if_splits)
      then show ?thesis using False tl that by (simp add: bs_def nth_append)
    qed
  qed
qed

text \<open>A 4 MiB page of the framebuffer.\<close>

lemma map_big_page:
  fixes pa :: u32
  assumes ok: "space_ok pg p" and c: "\<not> has_table (ram p) pg va"
  defines "m' \<equiv> map_user_4mb va pa pg (ram p)"
  shows "space_ok pg (p\<lparr>ram := m'\<rparr>)" "has_table m' pg w = has_table (ram p) pg w" "spages m' pg = spages (ram p) pg"
    "drop_bit 22 w \<noteq> drop_bit 22 va \<Longrightarrow> translate_user m' pg w = translate_user (ram p) pg w"
    "frame a \<noteq> page_dir_phys pg \<Longrightarrow> m' a = ram p a"
proof -
  define v where "v = (pa AND 0xFFC00000) OR PAGE_PRESENT OR PAGE_RW OR PAGE_USER OR PAGE_PSE"
  have wf: "pager_wf pg p" using ok by (simp add: space_ok_def)
  note dal = pager_wfD(2) [OF wf]
  have m: "m' = st32 (ram p) (slot (page_dir_phys pg) (drop_bit 22 va)) v" by (simp add: m'_def map_user_4mb_def set_pde_def v_def)
  have v7: "\<not> is_table v" by (simp add: is_table_def v_def bit_or_iff)
  show r: "m' a = ram p a" if "frame a \<noteq> page_dir_phys pg" for a using that dal dir_index_less by (simp add: m st32_other_page)
  have g: "get_pde m' pg i = (if i = drop_bit 22 va then v else get_pde (ram p) pg i)" if "i < 1024" for i
    using that dal dir_index_less by (auto simp: get_pde_def m ld32_st32_slot)
  have it: "is_table (get_pde m' pg i) = is_table (get_pde (ram p) pg i)" if "i < 1024" for i
    using g [OF that] v7 c by (auto simp: has_table_def)
  show h: "has_table m' pg w = has_table (ram p) pg w" for w using it [OF dir_index_less] by (simp add: has_table_def)
  have ta: "table_at m' pg i = table_at (ram p) pg i" if "i < 1024" "is_table (get_pde (ram p) pg i)" for i
    using g [OF that(1)] that(2) c by (auto simp: table_at_def has_table_def)
  have "{i. i < 1024 \<and> is_table (get_pde m' pg i)} = {i. i < 1024 \<and> is_table (get_pde (ram p) pg i)}" using it by auto
  then show s: "spages m' pg = spages (ram p) pg" unfolding spages_def by (intro arg_cong [of _ _ "insert _"] image_cong) (auto simp: ta)
  have l: "lookup m' pg w = lookup (ram p) pg w" if "has_table (ram p) pg w" for w
  proof -
    have t: "is_table (get_pde (ram p) pg (drop_bit 22 w))" using that by (simp add: has_table_def)
    show ?thesis using pager_wf_table [OF wf dir_index_less t] dal ta [OF dir_index_less t]
      by (auto simp: lookup_def m ld32_st32_slot dir_index_less table_index_less)
  qed
  show t: "translate_user m' pg w = translate_user (ram p) pg w" if "drop_bit 22 w \<noteq> drop_bit 22 va" for w
    by (rule translate_user_cong) (use g [OF dir_index_less] that l in \<open>auto simp: has_table_def\<close>)
  have t': "translate_user m' pg w = translate_user (ram p) pg w" if "has_table (ram p) pg w" for w
    by (rule t) (use that c in \<open>auto simp: has_table_def\<close>)
  have "pager_wf pg (p\<lparr>ram := m'\<rparr>)"
    unfolding pager_wf_def
  proof (intro conjI allI impI, goal_cases)
    case (5 i j)
    then show ?case using wf it [of i] it [of j] ta [of i] ta [of j] unfolding pager_wf_def by auto
  qed (use wf it ta in \<open>auto simp: pager_wf_def taken_def\<close>)
  then show "space_ok pg (p\<lparr>ram := m'\<rparr>)"
    unfolding space_ok_def
  proof (intro conjI allI impI, goal_cases)
    case (2 va)
    then show ?case using ok t' [of va] by (auto simp: space_ok_def s h)
  next
    case (3 va w)
    then show ?case using space_ok_inj [OF ok, of va w] t' [of va] t' [of w] by (auto simp: h)
  qed
qed

end
