(* ===== verification/XE_Exec.thy ===== *)
theory XE_Exec
  imports XE_Space
begin

text \<open>
  What a program finds in memory after \<open>exec\<close> (\<^verbatim>\<open>src/src/kernel/syscall.cpp\<close>): the pages are mapped, filled
  and zeroed one after the other, and the user's view of the result is \<open>prog_image\<close>.
\<close>

unbundle bit_operations_syntax

section \<open>The address space of a program\<close>

lemma exec_map_size_pages:
  assumes "unat sz \<le> 0x20000"
  obtains q where "unat (exec_map_size sz) = 4096 * q" "17 \<le> q" "q \<le> 48" "unat sz \<le> 4096 * q" "unat (exec_map_size sz div 0x1000) = q"
proof -
  define d where "d = (unat sz + 4095) div 4096"
  define r where "r = max 1 d"
  have d: "4096 * d \<le> unat sz + 4095" "unat sz + 4095 < 4096 * d + 4096"
    using div_mult_mod_eq [of "unat sz + 4095" 4096] mod_less_divisor [of 4096 "unat sz + 4095"] unfolding d_def by linarith+
  have nm: "NOT 0xFFF = NOT (mask 12 :: u32)" by (simp add: low_mask)
  have up: "unat ((sz + 0xFFF) AND NOT 0xFFF) = 4096 * d"
    unfolding nm unat_and_not_mask using assms by (simp add: unat_word_ariths d_def)
  have r: "unat (if sz < 0x1000 then 0x1000 else (sz + 0xFFF) AND NOT 0xFFF :: u32) = 4096 * r"
  proof (cases "sz < 0x1000")
    case True
    then have "unat sz < 4096" by (simp add: word_less_nat_alt)
    then have "d \<le> 1" using d by linarith
    then show ?thesis using True by (simp add: r_def)
  next
    case False
    then have "4096 \<le> unat sz" by (simp add: word_less_nat_alt)
    then have "1 \<le> d" using d by linarith
    then show ?thesis using False up by (simp add: r_def)
  qed
  have r32: "1 \<le> r" "r \<le> 32" "unat sz \<le> 4096 * r" using d assms unfolding r_def by linarith+
  have m: "unat (exec_map_size sz) = 4096 * (r + 16)" using r r32 unfolding exec_map_size_def by (simp add: unat_word_ariths)
  show thesis by (rule that [of "r + 16"]) (use m r32 in \<open>simp_all add: unat_div\<close>)
qed

text \<open>The bytes of a program of \<open>sz\<close> bytes: its file, zeros up to the end of the mapped area, and a zeroed stack.\<close>

definition prog_image :: "u8 list \<Rightarrow> u32 \<Rightarrow> u32 \<Rightarrow> u8 option" where
  "prog_image data sz w =
     (let i = unat w in
      if 0x400000 \<le> i \<and> i < 0x400000 + unat (exec_map_size sz) then Some (if i - 0x400000 < unat sz then data ! (i - 0x400000) else 0)
      else if 0x430000 \<le> i \<and> i < 0x440000 then Some 0 else None)"

lemma pages_mappedD:
  assumes "pages_mapped pd c vas k k'"
  shows "space_ok (pgr k' pd) (ph k')" "page_dir_phys (pgr k' pd) = page_dir_phys (pgr k pd)"
    "drop_bit 12 w \<in> drop_bit 12 ` set vas \<Longrightarrow> translate_user (ram (ph k')) (pgr k pd) w \<noteq> 0 \<and>
       frame (translate_user (ram (ph k')) (pgr k pd) w) \<in> free_pages (pmm (ph k))"
    "drop_bit 12 w \<notin> drop_bit 12 ` set vas \<Longrightarrow> translate_user (ram (ph k')) (pgr k pd) w =
       (if vas \<noteq> [] \<and> drop_bit 22 w = c \<and> \<not> has_table (ram (ph k)) (pgr k pd) w then 0 else translate_user (ram (ph k)) (pgr k pd) w)"
    "has_table (ram (ph k')) (pgr k pd) w \<longleftrightarrow> has_table (ram (ph k)) (pgr k pd) w \<or> vas \<noteq> [] \<and> drop_bit 22 w = c"
    "frame a \<notin> spages (ram (ph k')) (pgr k pd) \<Longrightarrow> ram (ph k') a = ram (ph k) a"
    "spages (ram (ph k)) (pgr k pd) \<subseteq> spages (ram (ph k')) (pgr k pd)"
    "managed (pmm (ph k')) = managed (pmm (ph k))"
    "free_pages (pmm (ph k')) \<subseteq> free_pages (pmm (ph k))" "k' = k\<lparr>ph := ph k', pgr := (pgr k)(pd := pgr k' pd)\<rparr>"
    "spages (ram (ph k')) (pgr k pd) \<subseteq> spages (ram (ph k)) (pgr k pd) \<union> free_pages (pmm (ph k))"
  using assms unfolding pages_mapped_def Let_def by (elim conjE; (assumption | (erule allE, erule (1) impE) | blast))+

lemma free_in_managed: "free_pages m \<subseteq> managed m"
  by (auto simp: free_pages_def managed_def free_set_def)

lemma space_update_trans:
  assumes "k2 = k1\<lparr>ph := a2, pgr := (pgr k1)(np := b2)\<rparr>" "k1 = k\<lparr>ph := a1, pgr := (pgr k)(np := b1)\<rparr>"
  shows "k2 = k\<lparr>ph := a2, pgr := (pgr k)(np := b2)\<rparr>"
  using assms by simp

lemma set_ram_update:
  assumes "k2 = k\<lparr>ph := p, pgr := g\<rparr>"
  shows "set_ram m k2 = k\<lparr>ph := (ph k2)\<lparr>ram := m\<rparr>, pgr := g\<rparr>"
  using assms by (simp add: set_ram_def)

lemma load_pages: "page_al 0x400000" "page_al 0x430000"
  by (simp_all add: page_al_def)

lemma low_ram_kept:
  assumes "\<And>a. frame a \<notin> spages m' pg \<Longrightarrow> m' a = m a" "0 \<notin> spages m' pg"
  shows "ld32 m' 0x500 = ld32 m 0x500"
proof -
  have "m' (0x500 + of_nat i) = m (0x500 + of_nat i)" if "i < 4" for i
  proof (rule assms(1))
    have "frame (0 + of_nat (0x500 + i)) = 0" by (rule page_off(1)) (use that in \<open>simp_all add: page_al_def\<close>)
    then show "frame (0x500 + of_nat i) \<notin> spages m' pg" using assms(2) by (simp add: add.commute)
  qed
  from this [of 0] this [of 1] this [of 2] this [of 3] show ?thesis by (simp add: ld32_def)
qed

lemma space_ok_spages:
  assumes "space_ok pg p" "a \<in> spages (ram p) pg"
  shows "a \<in> managed (pmm p)" "a \<noteq> 0" "a \<notin> free_pages (pmm p)"
  using assms spages_taken(1) [of pg p a] managed_al [of "pmm p" a] by (auto simp: space_ok_def taken_def pager_wf_def)

lemma run_offset:
  assumes "page_al base" "unat base + 4096 * n \<le> 2 ^ 32" "unat base \<le> unat w" "unat w < unat base + 4096 * n"
  obtains i j where "i < n" "j < 4096" "w = base + of_nat i * 0x1000 + of_nat j" "unat w = unat base + 4096 * i + j"
proof -
  define d i j where "d = unat w - unat base" and "i = d div 4096" and "j = d mod 4096"
  have e: "unat w = unat base + 4096 * i + j" "j < 4096" using assms(3) by (simp_all add: d_def i_def j_def)
  have i: "i < n" using e assms(4) by linarith
  note b = pages_from_nth [OF assms(1,2) i]
  have "unat (base + of_nat i * 0x1000 + of_nat j) = unat base + 4096 * i + j"
    using b e(2) by (subst unat_in_page) (simp_all add: page_al_def dvd_eq_mod_eq_0)
  then have "w = base + of_nat i * 0x1000 + of_nat j" using e(1) by (simp only: word_unat_eq_iff)
  then show thesis using that [of i j] i e by blast
qed

text \<open>One page of a filled run, as the user sees it.\<close>

lemma filled_byte:
  assumes "space_ok pg (p\<lparr>ram := m\<rparr>)" "distinct (map fst xs)"
    "\<And>va bs. (va, bs) \<in> set xs \<Longrightarrow> page_al va \<and> translate_user m pg va \<noteq> 0 \<and> has_table m pg va \<and> length bs = 4096"
    "(va, bs) \<in> set xs" "j < 4096"
  shows "user_byte (fill_pages pg xs m) pg (va + of_nat j) = Some (bs ! j)"
proof -
  have v: "page_al va" "translate_user m pg va \<noteq> 0" using assms(3,4) by blast+
  note f = fill_pages_spec [OF assms(1,2,3)]
  have t: "translate_user (fill_pages pg xs m) pg (va + of_nat j) = translate_user m pg va + of_nat j"
    using translate_base(3) [OF v(2,1) assms(5)] f(2) by simp
  note o = page_off [OF translate_base(1) [OF v(2,1)] assms(5)]
  have "translate_user m pg va + of_nat j \<noteq> 0" using translate_step_nonzero [OF v(2), of j] translate_base(3) [OF v(2,1) assms(5)] v(1) assms(5)
    by (simp add: page_al_def dvd_eq_mod_eq_0)
  moreover have "fill_pages pg xs m (translate_user m pg va + of_nat j) = bs ! j"
    using f(6) [OF _ assms(4) o(1)] o(2) by simp
  ultimately show ?thesis by (simp add: user_byte_def t)
qed

text \<open>The pages that \<open>exec_build\<close> writes, with their contents.\<close>

definition exec_pages :: "u8 list \<Rightarrow> u32 \<Rightarrow> nat \<Rightarrow> (u32 \<times> u8 list) list" where
  "exec_pages data sz q = map (\<lambda>off. (0x400000 + off, the (exec_page data sz off))) (pages_from 0 q) @
     map (\<lambda>va. (va, replicate 4096 0)) (pages_from 0x430000 16)"

lemma code_page:
  assumes "unat sz \<le> length data" "i < q" "q \<le> 48"
  obtains bs where "exec_page data sz (of_nat i * 0x1000) = Some bs" "length bs = 4096"
    "\<And>j. j < 4096 \<Longrightarrow> bs ! j = (if 4096 * i + j < unat sz then data ! (4096 * i + j) else 0)"
proof -
  have u: "unat (of_nat i * 0x1000 :: u32) = 4096 * i"
    using pages_from_nth(1) [of 0 q i] assms by (simp add: page_al_def)
  show thesis
  proof (rule exec_page_bytes [of sz data "of_nat i * 0x1000"], goal_cases)
    case (3 bs)
    then show ?case using that [of bs] by (simp add: u)
  qed (use assms u in simp_all)
qed

lemma exec_pages_in:
  assumes "unat sz \<le> length data" "q \<le> 48" "(va, bs) \<in> set (exec_pages data sz q)"
  shows "page_al va" "length bs = 4096" "va \<in> set (pages_from 0x400000 q) \<union> set (pages_from 0x430000 16)"
proof -
  have b: "unat (0x400000 :: u32) + 4096 * q \<le> 2 ^ 32" "unat (0x430000 :: u32) + 4096 * 16 \<le> 2 ^ 32" using assms(2) by simp_all
  consider i where "i < q" "va = 0x400000 + of_nat i * 0x1000" "bs = the (exec_page data sz (of_nat i * 0x1000))"
    | "va \<in> set (pages_from 0x430000 16)" "bs = replicate 4096 0"
    using assms(3) unfolding exec_pages_def by (auto simp: set_pages_from)
  then have "page_al va \<and> length bs = 4096 \<and> va \<in> set (pages_from 0x400000 q) \<union> set (pages_from 0x430000 16)"
  proof cases
    case 1
    then show ?thesis using code_page [OF assms(1) 1(1) assms(2)] pages_from_nth(2) [OF load_pages(1) b(1) 1(1)]
      by (metis (mono_tags, lifting) UnI1 mem_Collect_eq option.sel set_pages_from(1))
  next
    case 2
    then show ?thesis using pages_from_nth(2) [OF load_pages(2) b(2)] by (auto simp: set_pages_from)
  qed
  then show "page_al va" "length bs = 4096" "va \<in> set (pages_from 0x400000 q) \<union> set (pages_from 0x430000 16)" by blast+
qed

lemma exec_pages_distinct:
  assumes "q \<le> 48"
  shows "distinct (map fst (exec_pages data sz q))"
proof -
  have b: "unat (0x400000 :: u32) + 4096 * q \<le> 2 ^ 32" "unat (0x430000 :: u32) + 4096 * 16 \<le> 2 ^ 32" using assms by simp_all
  have m: "map fst (exec_pages data sz q) = pages_from 0x400000 q @ pages_from 0x430000 16"
    by (simp add: exec_pages_def pages_from_def)
  have "va \<notin> set (pages_from 0x430000 16)" if "va \<in> set (pages_from 0x400000 q)" for va
    using in_pages_from [OF load_pages(1) b(1), of va] in_pages_from [OF load_pages(2) b(2), of va] that assms by auto
  then show ?thesis unfolding m using pages_from_distinct(2) [OF load_pages(1) b(1)] pages_from_distinct(2) [OF load_pages(2) b(2)] by auto
qed

lemma exec_pages_image:
  assumes "unat sz \<le> length data" "unat sz \<le> 4096 * q" "q \<le> 48" "unat (exec_map_size sz) = 4096 * q"
    "0x400000 \<le> unat w \<and> unat w < 0x400000 + 4096 * q \<or> 0x430000 \<le> unat w \<and> unat w < 0x440000"
  obtains va bs j where "(va, bs) \<in> set (exec_pages data sz q)" "j < 4096" "w = va + of_nat j" "prog_image data sz w = Some (bs ! j)"
proof -
  have b: "unat (0x400000 :: u32) + 4096 * q \<le> 2 ^ 32" "unat (0x430000 :: u32) + 4096 * 16 \<le> 2 ^ 32" using assms(3) by simp_all
  show thesis
  proof (cases "0x400000 \<le> unat w \<and> unat w < 0x400000 + 4096 * q")
    case True
    then have r: "unat (0x400000 :: u32) \<le> unat w" "unat w < unat (0x400000 :: u32) + 4096 * q" by simp_all
    obtain i j where ij: "i < q" "j < 4096" "w = 0x400000 + of_nat i * 0x1000 + of_nat j" "unat w = unat (0x400000 :: u32) + 4096 * i + j"
      using run_offset [OF load_pages(1) b(1) r] by metis
    obtain bs where bs: "exec_page data sz (of_nat i * 0x1000) = Some bs"
      "\<And>j. j < 4096 \<Longrightarrow> bs ! j = (if 4096 * i + j < unat sz then data ! (4096 * i + j) else 0)"
      using code_page [OF assms(1) ij(1) assms(3)] by metis
    have "(0x400000 + of_nat i * 0x1000, bs) \<in> set (exec_pages data sz q)"
      unfolding exec_pages_def using ij(1) bs(1) by (force simp: set_pages_from)
    moreover have "prog_image data sz w = Some (bs ! j)" using True ij bs(2) [OF ij(2)] by (simp add: prog_image_def assms(4))
    ultimately show thesis using that ij by blast
  next
    case False
    then have r: "0x430000 \<le> unat w" "unat w < 0x440000" using assms(5) by blast+
    then have r': "unat (0x430000 :: u32) \<le> unat w" "unat w < unat (0x430000 :: u32) + 4096 * 16" by simp_all
    obtain i j where ij: "i < 16" "j < 4096" "w = 0x430000 + of_nat i * 0x1000 + of_nat j"
      using run_offset [OF load_pages(2) b(2) r'] by metis
    have "(0x430000 + of_nat i * 0x1000, replicate 4096 0) \<in> set (exec_pages data sz q)"
      unfolding exec_pages_def using ij(1) by (force simp: set_pages_from)
    moreover have "prog_image data sz w = Some (replicate 4096 0 ! j)" using False r ij(2) by (simp add: prog_image_def Let_def assms(4))
    ultimately show thesis using that ij by blast
  qed
qed

lemma exec_fill_image:
  assumes ok: "space_ok pg (p\<lparr>ram := m\<rparr>)" and q: "unat (exec_map_size sz) = 4096 * q" "q \<le> 48" "unat sz \<le> 4096 * q"
    and d: "unat sz \<le> length data" and h: "\<And>w. drop_bit 22 w = 1 \<Longrightarrow> has_table m pg w" and f: "f \<noteq> 1"
    and t: "\<And>w. drop_bit 22 w \<noteq> f \<Longrightarrow> translate_user m pg w \<noteq> 0 \<longleftrightarrow>
      0x400000 \<le> unat w \<and> unat w < 0x400000 + 4096 * q \<or> 0x430000 \<le> unat w \<and> unat w < 0x440000"
  defines "m' \<equiv> fill_pages pg (exec_pages data sz q) m"
  shows "space_ok pg (p\<lparr>ram := m'\<rparr>)" "translate_user m' pg w = translate_user m pg w"
    "drop_bit 22 w \<noteq> f \<Longrightarrow> user_byte m' pg w = prog_image data sz w" "spages m' pg = spages m pg"
proof -
  have b: "unat (0x400000 :: u32) + 4096 * q \<le> 2 ^ 32" "unat (0x430000 :: u32) + 4096 * 16 \<le> 2 ^ 32" using q(2) by simp_all
  have x: "page_al va \<and> translate_user m pg va \<noteq> 0 \<and> has_table m pg va \<and> length bs = 4096" if "(va, bs) \<in> set (exec_pages data sz q)" for va bs
  proof -
    note e = exec_pages_in [OF d q(2) that]
    have r: "0x400000 \<le> unat va \<and> unat va < 0x400000 + 4096 * q \<or> 0x430000 \<le> unat va \<and> unat va < 0x440000"
      using e(3) in_pages_from [OF load_pages(1) b(1), of va] in_pages_from [OF load_pages(2) b(2), of va] by auto
    then have "drop_bit 22 va = 1" unfolding dir_one using q(2) by linarith
    then show ?thesis using e r h t f by auto
  qed
  note s = fill_pages_spec [OF ok exec_pages_distinct [OF q(2)] x]
  show "space_ok pg (p\<lparr>ram := m'\<rparr>)" unfolding m'_def by (rule s(1))
  show t': "translate_user m' pg w = translate_user m pg w" for w unfolding m'_def by (rule s(2))
  show "spages m' pg = spages m pg" unfolding m'_def by (rule s(3))
  assume w: "drop_bit 22 w \<noteq> f"
  show "user_byte m' pg w = prog_image data sz w"
  proof (cases "translate_user m pg w = 0")
    case True
    then have "\<not> (0x400000 \<le> unat w \<and> unat w < 0x400000 + 4096 * q \<or> 0x430000 \<le> unat w \<and> unat w < 0x440000)" using t [OF w] by blast
    then show ?thesis using True by (auto simp: user_byte_def t' prog_image_def Let_def q(1))
  next
    case False
    then obtain va bs j where v: "(va, bs) \<in> set (exec_pages data sz q)" "j < 4096" "w = va + of_nat j" "prog_image data sz w = Some (bs ! j)"
      using exec_pages_image [OF d q(3,2,1)] t [OF w] by blast
    then show ?thesis unfolding m'_def using filled_byte [OF ok exec_pages_distinct [OF q(2)] x v(1,2)] by simp
  qed
qed

text \<open>The last part of \<open>exec_build\<close>: the framebuffer, the checks and the contents of the pages.\<close>

lemma exec_finish:
  assumes ok: "space_ok (pgr k np) (ph k)" and q: "unat (exec_map_size sz) = 4096 * q" "17 \<le> q" "q \<le> 48" "unat sz \<le> 4096 * q"
    and d: "unat sz \<le> length data" and h: "\<And>w. has_table (ram (ph k)) (pgr k np) w \<longleftrightarrow> drop_bit 22 w = 1"
    and t: "\<And>w. translate_user (ram (ph k)) (pgr k np) w \<noteq> 0 \<longleftrightarrow>
      0x400000 \<le> unat w \<and> unat w < 0x400000 + 4096 * q \<or> 0x430000 \<le> unat w \<and> unat w < 0x440000"
    and fb: "drop_bit 22 fb \<noteq> 1"
  defines "k3 \<equiv> if fb \<ge> 0x100000 then set_ram (map_user_4mb fb fb (pgr k np) (ram (ph k))) k else k"
  shows "translate_user (ram (ph k3)) (pgr k3 np) 0x400000 \<noteq> 0"
    "translate_user (ram (ph k3)) (pgr k3 np) (0x400000 + exec_map_size sz - 4) \<noteq> 0"
    "translate_user (ram (ph k3)) (pgr k3 np) (0x440000 - 4) \<noteq> 0"
    "\<exists>m. map_option (\<lambda>k4. (True, clear_pages np (pages_from 0x430000 16) k4)) (exec_fill np data sz (pages_from 0 q) k3) =
       Some (True, set_ram m k) \<and> space_ok (pgr k np) ((ph k)\<lparr>ram := m\<rparr>) \<and> spages m (pgr k np) = spages (ram (ph k)) (pgr k np) \<and>
       (\<forall>w. drop_bit 22 w \<noteq> drop_bit 22 fb \<longrightarrow>
          translate_user m (pgr k np) w = translate_user (ram (ph k)) (pgr k np) w \<and> user_byte m (pgr k np) w = prog_image data sz w)"
proof -
  let ?pg = "pgr k np"
  define m3 where "m3 = ram (ph k3)"
  have nh: "\<not> has_table (ram (ph k)) ?pg fb" using h fb by blast
  note b = map_big_page [OF ok nh, where pa = fb]
  have k3: "k3 = set_ram m3 k" unfolding m3_def k3_def by (auto simp: set_ram_def)
  have ok3: "space_ok ?pg ((ph k)\<lparr>ram := m3\<rparr>)" unfolding m3_def k3_def using ok b(1) by simp
  have h3: "has_table m3 ?pg w \<longleftrightarrow> drop_bit 22 w = 1" for w unfolding m3_def k3_def using h b(2) by simp
  have e3: "translate_user m3 ?pg w = translate_user (ram (ph k)) ?pg w" if "drop_bit 22 w \<noteq> drop_bit 22 fb" for w
    unfolding m3_def k3_def using b(4) [OF that] by simp
  have s3: "spages m3 ?pg = spages (ram (ph k)) ?pg" unfolding m3_def k3_def using b(3) by simp
  have c: "translate_user m3 ?pg w \<noteq> 0" if "0x400000 \<le> unat w \<and> unat w < 0x400000 + 4096 * q \<or> 0x430000 \<le> unat w \<and> unat w < 0x440000" for w
  proof -
    have "drop_bit 22 w = 1" unfolding dir_one using that q(3) by linarith
    then show ?thesis using e3 [of w] fb t that by auto
  qed
  have u: "unat (0x400000 + exec_map_size sz - 4) = 0x400000 + 4096 * q - 4"
    using q by (subst unat_sub_if_size) (simp add: unat_word_ariths word_le_nat_alt word_size)
  have r3: "ram (ph k3) = m3" "pgr k3 = pgr k" by (simp_all add: k3)
  show "translate_user (ram (ph k3)) (pgr k3 np) 0x400000 \<noteq> 0" "translate_user (ram (ph k3)) (pgr k3 np) (0x440000 - 4) \<noteq> 0"
    using c [of "0x400000"] c [of "0x440000 - 4"] q(2) by (simp_all add: k3)
  show "translate_user (ram (ph k3)) (pgr k3 np) (0x400000 + exec_map_size sz - 4) \<noteq> 0"
    unfolding r3 by (rule c) (use q(2) u in linarith)
  have ex: "exec_page data sz off \<noteq> None" if off: "off \<in> set (pages_from 0 q)" for off
  proof -
    obtain i where i: "i < q" "off = of_nat i * 0x1000" using off by (auto simp: set_pages_from)
    from code_page [OF d i(1) q(3)] obtain bs where "exec_page data sz (of_nat i * 0x1000) = Some bs" by metis
    then show ?thesis using i(2) by simp
  qed
  let ?m = "fill_pages ?pg (exec_pages data sz q) m3"
  have h1: "has_table m3 ?pg w" if "drop_bit 22 w = 1" for w using h3 that by blast
  have t1: "translate_user m3 ?pg w \<noteq> 0 \<longleftrightarrow> 0x400000 \<le> unat w \<and> unat w < 0x400000 + 4096 * q \<or> 0x430000 \<le> unat w \<and> unat w < 0x440000"
    if "drop_bit 22 w \<noteq> drop_bit 22 fb" for w using e3 [OF that] t by simp
  note i = exec_fill_image [OF ok3 q(1,3,4) d h1 fb t1]
  have "map_option (\<lambda>k4. (True, clear_pages np (pages_from 0x430000 16) k4)) (exec_fill np data sz (pages_from 0 q) k3) = Some (True, set_ram ?m k)"
    by (subst exec_fill_alt [OF ex]) (simp_all add: k3 clear_pages_alt exec_pages_def fill_pages_def)
  then show "\<exists>m. map_option (\<lambda>k4. (True, clear_pages np (pages_from 0x430000 16) k4)) (exec_fill np data sz (pages_from 0 q) k3) =
       Some (True, set_ram m k) \<and> space_ok ?pg ((ph k)\<lparr>ram := m\<rparr>) \<and> spages m ?pg = spages (ram (ph k)) ?pg \<and>
       (\<forall>w. drop_bit 22 w \<noteq> drop_bit 22 fb \<longrightarrow>
          translate_user m ?pg w = translate_user (ram (ph k)) ?pg w \<and> user_byte m ?pg w = prog_image data sz w)"
    using i(1-3) e3 trans [OF i(4) s3] by (intro exI [of _ ?m]) auto
qed

lemma run_dir_one:
  assumes "page_al base" "0x400000 \<le> unat base" "unat base + 4096 * n \<le> 0x800000"
  shows "\<forall>va \<in> set (pages_from base n). drop_bit 22 va = 1"
proof
  fix va assume "va \<in> set (pages_from base n)"
  then have "drop_bit 12 va \<in> drop_bit 12 ` set (pages_from base n)" by (rule imageI)
  then have "unat base \<le> unat va" "unat va < unat base + 4096 * n" using in_pages_from [OF assms(1)] assms(3) by auto
  then show "drop_bit 22 va = 1" unfolding dir_one using assms(2,3) by linarith
qed

text \<open>The first part of \<open>exec_build\<close>: the two runs of pages.\<close>

lemma exec_runs:
  assumes ok: "space_ok (pgr k np) (ph k)" and fresh: "\<And>w. translate_user (ram (ph k)) (pgr k np) w = 0"
    "\<And>w. \<not> has_table (ram (ph k)) (pgr k np) w"
    and q: "17 \<le> q" "q \<le> 48" "q + 17 \<le> card (free_pages (pmm (ph k)))"
  obtains k1 k2 where "map_fresh np (pages_from 0x400000 q) k = ((True, q), k1)" "map_fresh np (pages_from 0x430000 16) k1 = ((True, 16), k2)"
    "space_ok (pgr k2 np) (ph k2)" "page_dir_phys (pgr k2 np) = page_dir_phys (pgr k np)"
    "\<And>w. translate_user (ram (ph k2)) (pgr k np) w \<noteq> 0 \<longleftrightarrow>
       0x400000 \<le> unat w \<and> unat w < 0x400000 + 4096 * q \<or> 0x430000 \<le> unat w \<and> unat w < 0x440000"
    "\<And>w. translate_user (ram (ph k2)) (pgr k np) w \<noteq> 0 \<Longrightarrow> frame (translate_user (ram (ph k2)) (pgr k np) w) \<in> free_pages (pmm (ph k))"
    "\<And>w. has_table (ram (ph k2)) (pgr k np) w \<longleftrightarrow> drop_bit 22 w = 1" "ld32 (ram (ph k2)) 0x500 = ld32 (ram (ph k)) 0x500"
    "managed (pmm (ph k2)) = managed (pmm (ph k))" "k2 = k\<lparr>ph := ph k2, pgr := (pgr k)(np := pgr k2 np)\<rparr>"
    "spages (ram (ph k2)) (pgr k np) \<subseteq> spages (ram (ph k)) (pgr k np) \<union> free_pages (pmm (ph k))"
proof -
  let ?pg = "pgr k np" and ?C = "pages_from 0x400000 q" and ?S = "pages_from 0x430000 16"
  let ?F = "free_pages (pmm (ph k))"
  have bC: "unat (0x400000 :: u32) + 4096 * q \<le> 2 ^ 32" and bS: "unat (0x430000 :: u32) + 4096 * 16 \<le> 2 ^ 32" using q by simp_all
  note inC = in_pages_from [OF load_pages(1) bC, simplified] and inS = in_pages_from [OF load_pages(2) bS, simplified]
  have dC: "\<forall>va \<in> set ?C. drop_bit 22 va = 1" by (rule run_dir_one [OF load_pages(1)]) (use q(2) in simp_all)
  have dS: "\<forall>va \<in> set ?S. drop_bit 22 va = 1" by (rule run_dir_one [OF load_pages(2)]) simp_all
  have neC: "?C \<noteq> []" using q by (simp add: pages_from_def)
  have "length ?C + (if ?C = [] \<or> has_table (ram (ph k)) ?pg (hd ?C) then 0 else 1) \<le> card ?F"
    using q by (simp add: set_pages_from)
  note mc = map_fresh_mapped [OF ok dC pages_from_distinct(1) [OF load_pages(1) bC] this]
  obtain k1 where k1: "map_fresh np ?C k = ((True, q), k1)" "pages_mapped np 1 ?C k k1" "card ?F \<le> card (free_pages (pmm (ph k1))) + q + 1"
    using mc fresh(2) neC by (auto simp: set_pages_from)
  note p1 = pages_mappedD [OF k1(2)]
  note e1 = same_dir [OF p1(2)]
  have h1: "has_table (ram (ph k1)) ?pg w \<longleftrightarrow> drop_bit 22 w = 1" for w using p1(5) neC fresh(2) by simp
  have neS: "?S \<noteq> []" by (simp add: pages_from_def)
  then have "has_table (ram (ph k1)) (pgr k1 np) (hd ?S)" unfolding e1 h1 using dS by (simp add: hd_in_set)
  then have "length ?S + (if ?S = [] \<or> has_table (ram (ph k1)) (pgr k1 np) (hd ?S) then 0 else 1) \<le> card (free_pages (pmm (ph k1)))"
    using k1(3) q by (simp add: set_pages_from)
  then obtain k2 where k2: "map_fresh np ?S k1 = ((True, 16), k2)" "pages_mapped np 1 ?S k1 k2"
    using map_fresh_mapped [OF p1(1) dS pages_from_distinct(1) [OF load_pages(2) bS]] by (auto simp: set_pages_from)
  note p2 = pages_mappedD [OF k2(2), unfolded e1]
  define m2 where "m2 = ram (ph k2)"
  have d2: "page_dir_phys (pgr k2 np) = page_dir_phys ?pg" using p2(2) p1(2) by simp
  note e2 = same_dir [OF d2]
  have ok2: "space_ok ?pg (ph k2)" using p2(1) by (simp only: e2(5))
  have T2: "(translate_user m2 ?pg w \<noteq> 0 \<longleftrightarrow> 0x400000 \<le> unat w \<and> unat w < 0x400000 + 4096 * q \<or> 0x430000 \<le> unat w \<and> unat w < 0x440000) \<and>
      (translate_user m2 ?pg w \<noteq> 0 \<longrightarrow> frame (translate_user m2 ?pg w) \<in> ?F)" for w
  proof (cases "drop_bit 12 w \<in> drop_bit 12 ` set ?S")
    case True
    then have "translate_user m2 ?pg w \<noteq> 0" "frame (translate_user m2 ?pg w) \<in> ?F" using p2(3) p1(9) unfolding m2_def by blast+
    then show ?thesis using True unfolding inS by simp
  next
    case False
    have t: "translate_user m2 ?pg w = translate_user (ram (ph k1)) ?pg w" using p2(4) [OF False] h1 unfolding m2_def by simp
    show ?thesis
    proof (cases "drop_bit 12 w \<in> drop_bit 12 ` set ?C")
      case in_C: True
      then show ?thesis using t p1(3) [OF in_C] unfolding inC by simp
    next
      case out: False
      then have "translate_user (ram (ph k1)) ?pg w = 0" using p1(4) [OF out] fresh by simp
      then show ?thesis using t False out unfolding inS inC by simp
    qed
  qed
  have H2: "has_table m2 ?pg w \<longleftrightarrow> drop_bit 22 w = 1" for w using p2(5) [of w] h1 [of w] unfolding m2_def by auto
  have kept: "m2 a = ram (ph k) a" if "frame a \<notin> spages m2 ?pg" for a
  proof -
    have "frame a \<notin> spages (ram (ph k1)) ?pg" using that p2(7) unfolding m2_def by blast
    then show ?thesis using p1(6) p2(6) that unfolding m2_def by simp
  qed
  have z: "0 \<notin> spages m2 ?pg" using space_ok_spages(2) [OF ok2] unfolding m2_def by blast
  have fb2: "ld32 m2 0x500 = ld32 (ram (ph k)) 0x500"
    by (rule low_ram_kept [OF kept z])
  have mg2: "managed (pmm (ph k2)) = managed (pmm (ph k))" using p1(8) p2(8) by simp
  have sp2: "spages m2 ?pg \<subseteq> spages (ram (ph k)) ?pg \<union> ?F" using p1(9,11) p2(11) unfolding m2_def by blast
  show thesis
    by (rule that [OF k1(1) k2(1) p2(1) d2]) (use T2 H2 fb2 mg2 sp2 space_update_trans [OF p2(10) p1(10)] in \<open>auto simp: m2_def\<close>)
qed

lemma exec_build_image:
  assumes ok: "space_ok (pgr k np) (ph k)" and fresh: "\<And>w. translate_user (ram (ph k)) (pgr k np) w = 0"
    "\<And>w. \<not> has_table (ram (ph k)) (pgr k np) w"
    and sz: "unat sz \<le> 0x20000" "unat sz \<le> length data"
    and free: "unat (exec_map_size sz div 0x1000) + 17 \<le> card (free_pages (pmm (ph k)))"
    and fb: "drop_bit 22 (ld32 (ram (ph k)) 0x500) \<noteq> 1"
  shows "\<exists>k'. exec_build np data sz k = Some (True, k') \<and> space_ok (pgr k' np) (ph k') \<and>
    page_dir_phys (pgr k' np) = page_dir_phys (pgr k np) \<and> managed (pmm (ph k')) = managed (pmm (ph k)) \<and>
    k' = k\<lparr>ph := ph k', pgr := (pgr k)(np := pgr k' np)\<rparr> \<and>
    spages (ram (ph k')) (pgr k np) \<subseteq> spages (ram (ph k)) (pgr k np) \<union> free_pages (pmm (ph k)) \<and>
    (\<forall>w. drop_bit 22 w \<noteq> drop_bit 22 (ld32 (ram (ph k)) 0x500) \<longrightarrow>
       user_byte (ram (ph k')) (pgr k np) w = prog_image data sz w \<and>
       (translate_user (ram (ph k')) (pgr k np) w \<noteq> 0 \<longrightarrow> frame (translate_user (ram (ph k')) (pgr k np) w) \<in> free_pages (pmm (ph k))))"
proof -
  obtain q where q: "unat (exec_map_size sz) = 4096 * q" "17 \<le> q" "q \<le> 48" "unat sz \<le> 4096 * q" "unat (exec_map_size sz div 0x1000) = q"
    using exec_map_size_pages [OF sz(1)] by blast
  let ?pg = "pgr k np" and ?fb = "ld32 (ram (ph k)) 0x500"
  have fq: "q + 17 \<le> card (free_pages (pmm (ph k)))" using free q(5) by simp
  obtain k1 k2 where k: "map_fresh np (pages_from 0x400000 q) k = ((True, q), k1)" "map_fresh np (pages_from 0x430000 16) k1 = ((True, 16), k2)"
      "space_ok (pgr k2 np) (ph k2)" "page_dir_phys (pgr k2 np) = page_dir_phys ?pg"
    and T2: "\<And>w. translate_user (ram (ph k2)) ?pg w \<noteq> 0 \<longleftrightarrow>
       0x400000 \<le> unat w \<and> unat w < 0x400000 + 4096 * q \<or> 0x430000 \<le> unat w \<and> unat w < 0x440000"
      "\<And>w. translate_user (ram (ph k2)) ?pg w \<noteq> 0 \<Longrightarrow> frame (translate_user (ram (ph k2)) ?pg w) \<in> free_pages (pmm (ph k))"
    and H2: "\<And>w. has_table (ram (ph k2)) ?pg w \<longleftrightarrow> drop_bit 22 w = 1" and fb2: "ld32 (ram (ph k2)) 0x500 = ?fb"
    and mg2: "managed (pmm (ph k2)) = managed (pmm (ph k))" and kk: "k2 = k\<lparr>ph := ph k2, pgr := (pgr k)(np := pgr k2 np)\<rparr>"
    and sp2: "spages (ram (ph k2)) ?pg \<subseteq> spages (ram (ph k)) ?pg \<union> free_pages (pmm (ph k))"
  proof (rule exec_runs [OF ok fresh q(2,3) fq], goal_cases)
    case (1 k1 k2)
    show ?case by (rule 1(1)) (fact 1)+
  qed
  note e2 = same_dir [OF k(4)]
  note fin = exec_finish [OF k(3) q(1-4) sz(2), unfolded e2, OF H2 T2(1) fb]
  define k3 where "k3 = (if ?fb \<ge> 0x100000 then set_ram (map_user_4mb ?fb ?fb (pgr k2 np) (ram (ph k2))) k2 else k2)"
  note fin3 = fin [folded k3_def]
  obtain m where m: "map_option (\<lambda>k4. (True, clear_pages np (pages_from 0x430000 16) k4)) (exec_fill np data sz (pages_from 0 q) k3) =
      Some (True, set_ram m k2)" "space_ok ?pg ((ph k2)\<lparr>ram := m\<rparr>)" "spages m ?pg = spages (ram (ph k2)) ?pg"
      "\<And>w. drop_bit 22 w \<noteq> drop_bit 22 ?fb \<Longrightarrow> translate_user m ?pg w = translate_user (ram (ph k2)) ?pg w \<and>
         user_byte m ?pg w = prog_image data sz w"
    using fin3(4) by blast
  have b: "exec_build np data sz k = Some (True, set_ram m k2)"
    by (simp only: exec_build_def Let_def q(5) k(1,2) prod.case not_True_eq_False if_False fb2 k3_def [symmetric] fin3(1-3) m(1) HOL.simp_thms)
  have fr: "frame (translate_user m ?pg w) \<in> free_pages (pmm (ph k))" if "drop_bit 22 w \<noteq> drop_bit 22 ?fb" "translate_user m ?pg w \<noteq> 0" for w
    using m(4) [OF that(1)] that(2) T2(2) [of w] by auto
  show ?thesis
    by (intro exI [of _ "set_ram m k2"] conjI allI impI)
      (use b m k(4) mg2 fr sp2 set_ram_update [OF kk, of m] in \<open>simp_all add: e2\<close>)
qed

section \<open>The new directory and the kernel stack\<close>

text \<open>A directory that a new address space can be copied from: only pages of 4 MiB, none of them for user mode.\<close>

definition kernel_dir :: "pager \<Rightarrow> phys \<Rightarrow> bool" where
  "kernel_dir kp p = (taken p (page_dir_phys kp) \<and>
     (\<forall>i < 1024. \<not> is_table (get_pde (ram p) kp i) \<and> \<not> has (get_pde (ram p) kp i) PAGE_USER))"

lemma pager_new_other:
  assumes "pager_new kpo p = (pg, p')" "page_al (page_dir_phys pg)" "frame a \<noteq> page_dir_phys pg"
  shows "ram p' a = ram p a"
proof -
  obtain d mm' where d: "mm_alloc_page (pmm p) = (d, mm')" by (cases "mm_alloc_page (pmm p)")
  have pg: "pg = \<lparr>page_dir_phys = d, owned_phys = []\<rparr>" and r: "ram p' = (case kpo of None \<Rightarrow> zero_table d (ram p)
      | Some kp \<Rightarrow> clone_pdes kp \<lparr>page_dir_phys = d, owned_phys = []\<rparr> (zero_table d (ram p)))"
    using assms(1) d by (auto simp: pager_new_def Let_def)
  have z: "zero_table d (ram p) a = ram p a" using zero_table_other_page assms(2,3) pg by simp
  have f: "fold (\<lambda>i m. if has (get_pde m kp i) PAGE_PRESENT then set_pde m pg i (get_pde m kp i) else m) xs m a = m a"
    if "set xs \<subseteq> {i. i < 1024}" for xs kp m
    using that by (induction xs arbitrary: m) (auto simp: set_pde_def st32_other_page assms(2,3))
  have e: "set entries \<subseteq> {i. i < 1024}" by (auto simp: entries_iff)
  show ?thesis
  proof (cases kpo)
    case None
    then show ?thesis unfolding r using z by simp
  next
    case (Some kp)
    then show ?thesis unfolding r pg [symmetric] using z f [OF e, of kp "zero_table d (ram p)"] by (simp add: clone_pdes_def)
  qed
qed

lemma new_space:
  assumes inv: "mm_inv (pmm p)" "free_pages (pmm p) \<noteq> {}" and kp: "\<And>kp. kpo = Some kp \<Longrightarrow> kernel_dir kp p"
    and new: "pager_new kpo p = (pg, p')"
  shows "space_ok pg p'" "translate_user (ram p') pg w = 0" "\<not> has_table (ram p') pg w" "ld32 (ram p') 0x500 = ld32 (ram p) 0x500"
    "card (free_pages (pmm p)) = Suc (card (free_pages (pmm p')))" "managed (pmm p') = managed (pmm p)"
    "spages (ram p') pg \<union> free_pages (pmm p') \<subseteq> free_pages (pmm p)"
proof -
  have "case kpo of None \<Rightarrow> True | Some kp \<Rightarrow> taken p (page_dir_phys kp) \<and> (\<forall>i < 1024. \<not> is_table (get_pde (ram p) kp i))"
    using kp by (auto simp: kernel_dir_def split: option.splits)
  note n = pager_new_spec [OF inv new this]
  have g: "\<not> is_table (get_pde (ram p') pg i) \<and> \<not> has (get_pde (ram p') pg i) PAGE_USER" if "i < 1024" for i
    unfolding n(7) [OF that] using kp that by (auto simp: kernel_dir_def is_table_def has_def split: option.splits)
  show h: "\<not> has_table (ram p') pg w" for w using g [OF dir_index_less] by (simp add: has_table_def)
  show "translate_user (ram p') pg w = 0"
    using g [OF dir_index_less, of w] by (auto simp: translate_user_def Let_def is_table_def)
  show "space_ok pg p'" using n(6) h by (simp add: space_ok_def)
  have s: "spages (ram p') pg = {page_dir_phys pg}" using g by (auto simp: spages_def)
  show "ld32 (ram p') 0x500 = ld32 (ram p) 0x500"
  proof (rule low_ram_kept)
    show "ram p' a = ram p a" if "frame a \<notin> spages (ram p') pg" for a using pager_new_other [OF new n(5)] that s by simp
    show "0 \<notin> spages (ram p') pg" using s n(2) pages.free_pool [OF inv(1)] pages.null_not_pool [OF inv(1)] by auto
  qed
  show "card (free_pages (pmm p)) = Suc (card (free_pages (pmm p')))"
    unfolding n(3) by (rule card_Suc_Diff1 [symmetric]) (use n(2) in simp_all)
  show "managed (pmm p') = managed (pmm p)" by (rule n(4))
  show "spages (ram p') pg \<union> free_pages (pmm p') \<subseteq> free_pages (pmm p)" using s n(2,3) by auto
qed

text \<open>Words pushed on a kernel stack at \<open>ks\<close> stay inside of it.\<close>

lemma push_all_inside:
  assumes "4 * length vs \<le> n" "n \<le> 8192" "\<And>i. i < 8192 \<Longrightarrow> b \<noteq> ks + of_nat i"
  shows "\<exists>m. push_all vs (ks + of_nat n, k) = (ks + of_nat (n - 4 * length vs), set_ram m k) \<and> m b = ram (ph k) b"
  using assms(1,2)
proof (induction vs arbitrary: n k)
  case Nil
  show ?case by (intro exI [of _ "ram (ph k)"]) (simp add: push_all_def set_ram_def)
next
  case (Cons v vs)
  have a: "ks + of_nat n - 4 = ks + of_nat (n - 4)" using Cons.prems by (simp add: of_nat_diff)
  have "b \<noteq> ks + of_nat (n - 4) + of_nat j" if "j < 4" for j
    using assms(3) [of "n - 4 + j"] Cons.prems that by (simp add: add.assoc)
  from this [of 0] this [of 1] this [of 2] this [of 3]
  have st: "st32 (ram (ph k)) (ks + of_nat (n - 4)) v b = ram (ph k) b" by (simp add: st32_def)
  have p: "4 * length vs \<le> n - 4" "n - 4 \<le> 8192" using Cons.prems by simp_all
  have "ram (ph (set_ram x k)) = x" for x by simp
  with Cons.IH [OF p, of "set_ram (st32 (ram (ph k)) (ks + of_nat (n - 4)) v) k"]
  obtain m where m: "push_all vs (ks + of_nat (n - 4), set_ram (st32 (ram (ph k)) (ks + of_nat (n - 4)) v) k) =
      (ks + of_nat (n - 4 - 4 * length vs), set_ram m k)" "m b = ram (ph k) b"
    unfolding set_ram_simps(3) st by (simp only: st) blast
  then show ?case using Cons.prems
    by (intro exI [of _ m]) (simp add: push_all_def push_def a set_ram_def [symmetric])
qed

lemma push_frame_inside:
  assumes "length vs = 5" "\<And>i. i < 8192 \<Longrightarrow> b \<noteq> ks + of_nat i"
  shows "\<exists>sp m. push_pusha (push_all vs (ks + KSTACK_SIZE, k)) = (sp, set_ram m k) \<and> m b = ram (ph k) b"
proof -
  have e: "push_pusha x = push_all [0, 0, 0] (push_all [fst (push_all [0, 0x20, 0, 0, 0, 0] x) - 4 - 12] (push_all [0, 0x20, 0, 0, 0, 0] x))" for x
    by (simp add: push_pusha_def push_all_def split: prod.split)
  obtain m1 where 1: "push_all vs (ks + of_nat 8192, k) = (ks + of_nat 8172, set_ram m1 k)" "m1 b = ram (ph k) b"
    using push_all_inside [of vs 8192 b ks k] assms by auto
  obtain m2 where 2: "push_all [0, 0x20, 0, 0, 0, 0] (ks + of_nat 8172, set_ram m1 k) = (ks + of_nat 8148, set_ram m2 k)" "m2 b = m1 b"
    using push_all_inside [of "[0, 0x20, 0, 0, 0, 0]" 8172 b ks "set_ram m1 k"] assms(2) by auto
  obtain m3 where 3: "push_all [ks + of_nat 8148 - 4 - 12] (ks + of_nat 8148, set_ram m2 k) = (ks + of_nat 8144, set_ram m3 k)" "m3 b = m2 b"
    using push_all_inside [of "[ks + of_nat 8148 - 4 - 12]" 8148 b ks "set_ram m2 k"] assms(2) by auto
  obtain m4 where 4: "push_all [0, 0, 0] (ks + of_nat 8144, set_ram m3 k) = (ks + of_nat 8132, set_ram m4 k)" "m4 b = m3 b"
    using push_all_inside [of "[0, 0, 0]" 8144 b ks "set_ram m3 k"] assms(2) by auto
  have "push_pusha (push_all vs (ks + of_nat 8192, k)) = (ks + of_nat 8132, set_ram m4 k)"
    by (simp only: e 1 2 3 4 fst_conv)
  then show ?thesis using 1 2 3 4 by (intro exI [of _ "ks + of_nat 8132"] exI [of _ m4]) simp
qed

lemma user_byte_kept:
  assumes ok: "space_ok pg p" and sp: "spages (ram p) pg \<subseteq> A" and m: "\<And>a. frame a \<in> A \<Longrightarrow> m' a = ram p a"
    and w: "translate_user (ram p) pg w \<noteq> 0 \<Longrightarrow> frame (translate_user (ram p) pg w) \<in> A"
  shows "user_byte m' pg w = user_byte (ram p) pg w"
proof -
  have "translate_user m' pg w = translate_user (ram p) pg w"
    by (rule translate_frame) (use ok pager_wfD(2) sp m in \<open>auto simp: space_ok_def tbl_bytes_alt\<close>)
  then show ?thesis using m w by (auto simp: user_byte_def)
qed

lemma exec_switch_kept:
  "\<exists>k'. exec_switch np k = k' \<and> pgr k' = pgr k \<and> current_task k' = current_task k \<and> paging (tsk k' (current_task k)) = np \<and>
     cr3 (cpu k') = page_dir_phys (pgr k np) \<and>
     (\<forall>b. (\<forall>i < 8192. b \<noteq> kernel_stack (tsk k (current_task k)) + of_nat i) \<longrightarrow> ram (ph k') b = ram (ph k) b)"
proof -
  let ?c = "current_task k" and ?o = "paging (tsk k (current_task k))" and ?vs = "[0x23, stack_top, 0x202, 0x2B, load_addr]"
  define k2 where "k2 = load_paging np (upd ?c (\<lambda>t. t\<lparr>paging := np\<rparr>) (if ?o \<noteq> 0 \<and> ?o \<noteq> kernel_paging k then delete_paging ?o k else k))"
  have e: "ram (ph k2) = ram (ph k)" "pgr k2 = pgr k" "current_task k2 = ?c" "kernel_stack (tsk k2 ?c) = kernel_stack (tsk k ?c)"
    "paging (tsk k2 ?c) = np" "cr3 (cpu k2) = page_dir_phys (pgr k np)"
    by (simp_all add: k2_def load_paging_def pager_load_def upd_def delete_paging_def k_free_def pager_delete_def Let_def)
  obtain sp m where m: "push_pusha (push_all ?vs (kernel_stack (tsk k2 ?c) + KSTACK_SIZE, k2)) = (sp, set_ram m k2)"
    using push_frame_form [of ?vs "kernel_stack (tsk k2 ?c) + KSTACK_SIZE" k2] unfolding set_ram_def by blast
  have x: "exec_switch np k = upd ?c (\<lambda>t. t\<lparr>t_eip := load_addr, t_esp := sp, t_eflags := 0x202, user_stack := stack_top, user_esp := stack_top,
      user_ss := 0x23\<rparr>) (set_ram m k2)"
    unfolding exec_switch_def Let_def k2_def [symmetric] m by simp
  have "m b = ram (ph k) b" if b: "\<forall>i < 8192. b \<noteq> kernel_stack (tsk k ?c) + of_nat i" for b
  proof -
    have "b \<noteq> kernel_stack (tsk k2 ?c) + of_nat i" if "i < 8192" for i using b that e(4) by simp
    from push_frame_inside [of ?vs, OF _ this, of k2] m
    obtain m' where m': "set_ram m k2 = set_ram m' k2" "m' b = ram (ph k2) b" by auto
    have "m = m'" using arg_cong [OF m'(1), of "\<lambda>k. ram (ph k)"] by simp
    then show ?thesis using m'(2) e(1) by simp
  qed
  then show ?thesis unfolding x using e by (intro exI [of _ "exec_switch np k"]) (simp add: x upd_def set_ram_def)
qed

text \<open>C11. \<open>exec\<close> succeeds when the pages are there; the new directory is loaded, and the program then finds at every address of its space exactly its
  image: the bytes of the file from 0x400000 on, zeros behind them up to the end of the mapped area, a zeroed
  stack, and nothing mapped elsewhere but the framebuffer's 4 MiB. The frame returns to the program's first
  instruction with an empty stack.\<close>

theorem exec_image:
  assumes "k_malloc PAGING_SIZE (kern s) = Some (np, k1)" "np \<noteq> 0" "mm_inv (pmm (ph (kern s)))"
    and kp: "kernel_paging (kern s) = 0 \<or> kernel_dir (pgr (kern s) (kernel_paging (kern s))) (ph (kern s))"
    and sz: "unat sz \<le> 0x20000" "unat sz \<le> length data"
    and free: "unat (exec_map_size sz div 0x1000) + 18 \<le> card (free_pages (pmm (ph (kern s))))"
    and fb: "fb = ld32 (ram (ph (kern s))) 0x500" "drop_bit 22 fb \<noteq> 1"
    and stk: "\<forall>i < 8192. frame (kernel_stack (ct s) + of_nat i) \<notin> free_pages (pmm (ph (kern s)))"
  shows "\<exists>s'. exec_replace_address_space E r data sz s = Some ((True, exec_regs r), s') \<and>
    current_task (kern s') = current_task (kern s) \<and> paging (ct s') = np \<and> cr3 (cpu (kern s')) = page_dir_phys (pgr (kern s') np) \<and>
    (\<forall>w. drop_bit 22 w \<noteq> drop_bit 22 fb \<longrightarrow> user_byte (ram (ph (kern s'))) (pgr (kern s') np) w = prog_image data sz w)"
proof -
  define kpo where "kpo = (if kernel_paging (kern s) = 0 then None else Some (pgr (kern s) (kernel_paging (kern s))))"
  obtain h where k1: "k1 = (kern s)\<lparr>kheap := h\<rparr>" using assms(1) by (auto simp: k_malloc_def split: option.splits)
  obtain pg p0 where pn: "pager_new kpo (ph (kern s)) = (pg, p0)" by (cases "pager_new kpo (ph (kern s))")
  define k0 where "k0 = k1\<lparr>pgr := (pgr k1)(np := pg), ph := p0\<rparr>"
  have np: "new_paging (kern s) = Some (np, k0)"
    using assms(1,2) pn unfolding new_paging_def k0_def kpo_def by (simp add: k1 split: if_splits)
  have e0: "ph k0 = p0" "pgr k0 np = pg" "current_task k0 = current_task (kern s)" "tsk k0 = tsk (kern s)" by (simp_all add: k0_def k1)
  have ne: "free_pages (pmm (ph (kern s))) \<noteq> {}" using free by auto
  have kd: "kernel_dir q (ph (kern s))" if "kpo = Some q" for q using kp that by (auto simp: kpo_def split: if_splits)
  note n = new_space [OF assms(3) ne kd pn]
  have "unat (exec_map_size sz div 0x1000) + 17 \<le> card (free_pages (pmm (ph k0)))" using free n(5) by (simp add: e0)
  from exec_build_image [of k0 np, unfolded e0, OF n(1,2,3) sz this [unfolded e0]] n(4) fb
  obtain k' where k': "exec_build np data sz k0 = Some (True, k')" "space_ok (pgr k' np) (ph k')" "page_dir_phys (pgr k' np) = page_dir_phys pg"
    "managed (pmm (ph k')) = managed (pmm p0)" "k' = k0\<lparr>ph := ph k', pgr := (pgr k0)(np := pgr k' np)\<rparr>"
    "spages (ram (ph k')) pg \<subseteq> spages (ram p0) pg \<union> free_pages (pmm p0)"
    "\<And>w. drop_bit 22 w \<noteq> drop_bit 22 fb \<Longrightarrow> user_byte (ram (ph k')) pg w = prog_image data sz w \<and>
       (translate_user (ram (ph k')) pg w \<noteq> 0 \<longrightarrow> frame (translate_user (ram (ph k')) pg w) \<in> free_pages (pmm p0))"
    by auto
  have t: "tsk k' = tsk (kern s)" "current_task k' = current_task (kern s)" 
    using arg_cong [OF k'(5), of tsk] arg_cong [OF k'(5), of current_task] e0 by simp_all
  note d = same_dir [OF k'(3)]
  have ms: "\<not> exec_map_size sz > stack_base - load_addr"
  proof -
    obtain q where "unat (exec_map_size sz) = 4096 * q" "q \<le> 48" using exec_map_size_pages [OF sz(1)] by blast
    then show ?thesis by (simp add: word_less_nat_alt)
  qed
  let ?k = "exec_switch np k'"
  let ?A = "free_pages (pmm (ph (kern s)))"
  have A: "spages (ram (ph k')) pg \<subseteq> ?A" "free_pages (pmm p0) \<subseteq> ?A" using k'(6) n(7) by blast+
  have out: "b \<noteq> kernel_stack (tsk k' (current_task k')) + of_nat i" if "frame b \<in> ?A" "i < 8192" for b i
    using stk that t by auto
  have sw: "pgr ?k = pgr k'" "current_task ?k = current_task k'" "paging (tsk ?k (current_task k')) = np"
    "cr3 (cpu ?k) = page_dir_phys (pgr k' np)"
    "\<And>b. \<forall>i < 8192. b \<noteq> kernel_stack (tsk k' (current_task k')) + of_nat i \<Longrightarrow> ram (ph ?k) b = ram (ph k') b"
    using exec_switch_kept [of np k'] by blast+
  have kept: "ram (ph ?k) b = ram (ph k') b" if "frame b \<in> ?A" for b using sw(5) out [OF that] by blast
  have ok': "space_ok pg (ph k')" using k'(2) by (simp only: d)
  have "user_byte (ram (ph ?k)) (pgr ?k np) w = prog_image data sz w" if "drop_bit 22 w \<noteq> drop_bit 22 fb" for w
  proof -
    have "user_byte (ram (ph ?k)) pg w = user_byte (ram (ph k')) pg w"
      by (rule user_byte_kept [OF ok' A(1) kept]) (use k'(7) [OF that] A(2) in auto)
    then show ?thesis using k'(7) [OF that] by (simp add: sw(1) d)
  qed
  moreover have "current_task ?k = current_task (kern s)" "paging (tsk ?k (current_task (kern s))) = np"
    "cr3 (cpu ?k) = page_dir_phys (pgr ?k np)"
    using sw(1-4) t by simp_all
  ultimately show ?thesis
    by (intro exI [of _ "say E (bytes_of ''exec: loaded '' @ put_hex_u32 sz @ bytes_of ''B at 0x400000'' @ [10]) (s\<lparr>kern := ?k\<rparr>)"])
      (use ms in \<open>simp add: exec_replace_address_space_def np k'(1)\<close>)
qed

text \<open>A sample system: 16 MiB of managed memory from 2 MiB on, of which 63 pages are free; the kernel heap with the
  task's kernel stack lies inside, in pages that are taken, as after \<open>mm_init\<close>. The kernel directory is empty.\<close>

definition demo_mm64 :: mm where
  "demo_mm64 = \<lparr>bitmap = \<lambda>b. if b = 0 then 1 else if b < 8 then 0 else 0xFF, total_pages = 4096, free_count = 63,
     first_page = 0x200000, mem_top = 0x1200000\<rparr>"

definition demo_exec_sys :: "pio sys" where
  "demo_exec_sys = demo_sys\<lparr>kern := demo_kst\<lparr>ph := \<lparr>ram = \<lambda>_. 0, pmm = demo_mm64\<rparr>\<rparr>\<rparr>"

lemma demo_mm64_free: "free_set demo_mm64 = {i. i < 64 \<and> i \<noteq> 0}" "card (free_set demo_mm64) = 63"
proof -
  have one: "(1 :: u8) AND push_bit n 1 = of_bool (n = 0)" for n
    by (rule bit_word_eqI) (auto simp: bit_and_iff bit_push_bit_iff bit_1_iff simp del: push_bit_of_1)
  have b: "bm_test (bitmap demo_mm64) i \<longleftrightarrow> i = 0 \<or> \<not> i < 64" for i
  proof -
    have e: "unat (i div 8) = unat i div 8" "unat (i mod 8) = unat i mod 8" by (simp_all add: unat_div unat_mod)
    consider "i div 8 = 0" | "i div 8 \<noteq> 0" "i div 8 < 8" | "i div 8 \<noteq> 0" "\<not> i div 8 < 8" by blast
    then show ?thesis
    proof cases
      case 1
      then have "unat i div 8 = 0" using e(1) by simp
      then have "unat i < 64" "i = 0 \<longleftrightarrow> unat (i mod 8) = 0" using e(2) by (auto simp: unat_eq_zero)
      then show ?thesis using 1 by (simp add: bm_test_def demo_mm64_def one word_less_nat_alt del: push_bit_of_1)
    next
      case 2
      then have "unat i div 8 \<noteq> 0" "unat i div 8 < 8" using e(1) by (simp_all add: word_less_nat_alt unat_eq_zero [symmetric])
      then have "unat i < 64" "i \<noteq> 0" by auto
      then show ?thesis using 2 by (simp add: bm_test_def demo_mm64_def word_less_nat_alt)
    next
      case 3
      then have "\<not> unat i div 8 < 8" using e(1) by (simp add: word_less_nat_alt)
      then have i: "\<not> i < 64" by (simp add: word_less_nat_alt)
      have "unat (i mod 8) < 8" using e(2) by simp
      then have "unat (i mod 8) = 0 \<or> unat (i mod 8) = 1 \<or> unat (i mod 8) = 2 \<or> unat (i mod 8) = 3 \<or> unat (i mod 8) = 4 \<or>
        unat (i mod 8) = 5 \<or> unat (i mod 8) = 6 \<or> unat (i mod 8) = 7" by linarith
      then have "(0xFF :: u8) AND push_bit (unat (i mod 8)) 1 \<noteq> 0" by (elim disjE) (simp_all only:, simp_all)
      then show ?thesis using 3 i by (simp add: bm_test_def demo_mm64_def del: push_bit_of_1)
    qed
  qed
  show f: "free_set demo_mm64 = {i. i < 64 \<and> i \<noteq> 0}"
    by (auto simp: free_set_def b) (simp add: demo_mm64_def word_less_nat_alt)
  have "{i :: u32. i < 64 \<and> i \<noteq> 0} = of_nat ` {1..<64}"
  proof (rule set_eqI)
    fix i :: u32
    have "i \<in> of_nat ` {1..<64} \<longleftrightarrow> 1 \<le> unat i \<and> unat i < 64"
      by (auto simp: unat_of_nat intro: image_eqI [of _ _ "unat i"])
    then show "i \<in> {i. i < 64 \<and> i \<noteq> 0} \<longleftrightarrow> i \<in> of_nat ` {1..<64}"
      by (simp add: word_less_nat_alt Suc_le_eq unat_gt_0 conj_commute)
  qed
  moreover have "inj_on (of_nat :: nat \<Rightarrow> u32) {1..<64}"
    by (rule inj_onI) (auto simp: word_unat_eq_iff unat_of_nat)
  ultimately show "card (free_set demo_mm64) = 63" unfolding f by (simp add: card_image)
qed

lemma demo_mm64_ok: "mm_inv demo_mm64" "card (free_pages demo_mm64) = 63" "taken \<lparr>ram = \<lambda>_. 0, pmm = demo_mm64\<rparr> 0x200000"
  "a \<in> free_pages demo_mm64 \<Longrightarrow> unat a < 0x240000" "0x01002000 \<in> managed demo_mm64"
proof -
  have g: "mm_geom demo_mm64" by (simp add: mm_geom_def demo_mm64_def)
  moreover have "mm_count 0 demo_mm64" by (simp only: mm_count_def demo_mm64_free(2)) (simp add: demo_mm64_def)
  ultimately show "mm_inv demo_mm64" unfolding mm_inv_def by (intro conjI exI [of _ 0]) simp_all
  have i: "inj_on (page_addr demo_mm64) (free_set demo_mm64)"
    by (rule inj_onI) (use page_addr_inj [OF g] in \<open>auto simp: free_set_def\<close>)
  show "card (free_pages demo_mm64) = 63" unfolding free_pages_def card_image [OF i] by (rule demo_mm64_free(2))
  have p: "page_addr demo_mm64 0 = 0x200000" by (simp add: page_addr_def demo_mm64_def)
  have "0x200000 \<notin> free_pages demo_mm64"
  proof
    assume "0x200000 \<in> free_pages demo_mm64"
    then obtain j where j: "j \<in> free_set demo_mm64" "page_addr demo_mm64 0 = page_addr demo_mm64 j"
      unfolding free_pages_def p by blast
    have "0 < total_pages demo_mm64" "j < total_pages demo_mm64" using j(1) by (simp_all add: demo_mm64_def free_set_def)
    from page_addr_inj [OF g this j(2)] j(1) show False by (simp add: demo_mm64_free(1))
  qed
  moreover have "0x200000 \<in> managed demo_mm64" unfolding p [symmetric] by (auto simp: managed_def demo_mm64_def)
  ultimately show "taken \<lparr>ram = \<lambda>_. 0, pmm = demo_mm64\<rparr> 0x200000" by (simp add: taken_def)
  show "unat a < 0x240000" if "a \<in> free_pages demo_mm64"
  proof -
    from that obtain i where i: "i < 64" "a = page_addr demo_mm64 i" by (auto simp: free_pages_def demo_mm64_free(1))
    have "i < total_pages demo_mm64" using i(1) by (simp add: demo_mm64_def word_less_nat_alt)
    from unat_page_addr [OF g this] i show ?thesis by (simp add: demo_mm64_def word_less_nat_alt)
  qed
  have "page_addr demo_mm64 0xE02 = 0x01002000" by (simp add: page_addr_def demo_mm64_def PAGE_SIZE_def)
  moreover have "0xE02 < total_pages demo_mm64" by (simp add: demo_mm64_def)
  ultimately show "0x01002000 \<in> managed demo_mm64" unfolding managed_def by (metis (mono_tags, lifting) imageI mem_Collect_eq)
qed

lemma demo_paging_block: "\<exists>k1. k_malloc PAGING_SIZE (kern demo_exec_sys) = Some (0x0100B014, k1)"
  by (simp add: k_malloc_def kmalloc_def PAGING_SIZE_def HEADER_SIZE_def heap_start_def demo_exec_sys_def demo_kst_def demo_heap_def
      kmalloc_scan.simps)

theorem exec_image_witness:
  "frame (kernel_stack (ct demo_exec_sys)) \<in> managed (pmm (ph (kern demo_exec_sys))) \<and>
   (\<exists>s'. exec_replace_address_space demo_env demo_regs [0x90, 0xC3] 2 demo_exec_sys = Some ((True, exec_regs demo_regs), s') \<and>
     cr3 (cpu (kern s')) = page_dir_phys (pgr (kern s') 0x0100B014) \<and>
     map (user_byte (ram (ph (kern s'))) (pgr (kern s') 0x0100B014)) [0x400000, 0x400001, 0x400002, 0x410FFF, 0x411000, 0x43FFFF, 0x440000] =
       [Some 0x90, Some 0xC3, Some 0, Some 0, None, Some 0, None])"
proof -
  let ?s = "demo_exec_sys"
  obtain k1 where k1: "k_malloc PAGING_SIZE (kern ?s) = Some (0x0100B014, k1)" using demo_paging_block by blast
  have e: "ph (kern ?s) = \<lparr>ram = \<lambda>_. 0, pmm = demo_mm64\<rparr>" "kernel_stack (ct ?s) = 0x01002014" "kernel_paging (kern ?s) = 7"
    "pgr (kern ?s) 7 = \<lparr>page_dir_phys = 0x200000, owned_phys = []\<rparr>" by (simp_all add: demo_exec_sys_def demo_kst_simps)
  have kd: "kernel_dir (pgr (kern ?s) 7) (ph (kern ?s))"
    using demo_mm64_ok(3) by (simp add: e kernel_dir_def get_pde_def is_table_def)
  have "frame (0x01002014 + of_nat i) \<notin> free_pages demo_mm64" if "i < 8192" for i
  proof
    assume "frame (0x01002014 + of_nat i) \<in> free_pages demo_mm64"
    then have "unat (frame (0x01002014 + of_nat i :: u32)) < 0x240000" by (rule demo_mm64_ok(4))
    moreover have "unat (0x01002014 + of_nat i :: u32) = 0x01002014 + i" using that by (simp add: unat_word_ariths unat_of_nat)
    ultimately show False unfolding frame_mask unat_and_not_mask by simp
  qed
  then have stk: "\<forall>i < 8192. frame (kernel_stack (ct ?s) + of_nat i) \<notin> free_pages (pmm (ph (kern ?s)))" by (simp add: e)
  have m: "exec_map_size 2 = 0x11000" by (simp add: exec_map_size_def)
  obtain s' where s': "exec_replace_address_space demo_env demo_regs [0x90, 0xC3] 2 ?s = Some ((True, exec_regs demo_regs), s')"
    "cr3 (cpu (kern s')) = page_dir_phys (pgr (kern s') 0x0100B014)"
    "\<And>w. drop_bit 22 w \<noteq> drop_bit 22 (0 :: u32) \<Longrightarrow> user_byte (ram (ph (kern s'))) (pgr (kern s') 0x0100B014) w = prog_image [0x90, 0xC3] 2 w"
    using exec_image [OF k1 _ _ _ _ _ _ _ _ stk, of 2 "[0x90, 0xC3]" 0 demo_env demo_regs] kd demo_mm64_ok(1,2) by (auto simp: e m)
  have "frame (0x01002014 :: u32) = 0x01002000" by simp
  then show ?thesis using demo_mm64_ok(5)
    by (intro conjI exI [of _ s'] s'(1,2)) (simp_all add: e s'(3) prog_image_def m Let_def)
qed

end
