(* ===== verification/XE_Ufs.thy ===== *)
theory XE_Ufs
  imports XE_Fat12
begin

text \<open>
  The filesystem driver of the user programs, \<^verbatim>\<open>src/src/user/ufs.cpp\<close>: FAT12, FAT16 and FAT32 on raw sectors,
  apart from the kernel's own driver of \<^verbatim>\<open>src/src/fs/fat12.cpp\<close>.

  The device is what the system calls \<open>SYS_DISK_READ\<close> and \<open>SYS_DISK_WRITE\<close> act on, one sector at a time. A sector
  buffer on the stack is the empty list until a read has filled it; an access outside of a buffer, and a chain that
  is followed forever, is \<open>None\<close>. What is printed is recorded as the list of screen calls.
\<close>

unbundle bit_operations_syntax

section \<open>State\<close>

datatype ftype = FAT12 | FAT16 | FAT32

datatype scr_call = SetFg u8 | Chars cstr

record fat_bpb =
  b_bps :: u16
  b_spc :: u8
  b_reserved :: u16
  b_fats :: u8
  b_root_ents :: u16
  b_total16 :: u16
  b_fat16 :: u16
  b_sectors :: u16
  b_fat32_sz :: u32
  b_root_cluster :: u32

record 'd ufs =
  udev :: 'd
  bpb :: fat_bpb
  fat_type :: ftype
  u_data_sec :: u32
  u_fat_sec :: u32
  u_root_sec :: u32
  total_clusters :: u32
  fat_size :: u32
  u_cur :: u32
  u_parent :: u32
  cwd_path :: "u8 list"
  fat_root_cluster :: u32
  ls_sec :: "u8 list"
  screen :: "scr_call list"

definition udisk_read :: "'d blkio \<Rightarrow> u32 \<Rightarrow> u8 list \<Rightarrow> 'd ufs \<Rightarrow> u8 list \<times> 'd ufs" where
  "udisk_read io lba buf s = (case rd io lba (udev s) of ((r, bs), d) \<Rightarrow> (if r = 0 then bs else buf, s\<lparr>udev := d\<rparr>))"

definition udisk_write :: "'d blkio \<Rightarrow> u32 \<Rightarrow> u8 list \<Rightarrow> 'd ufs \<Rightarrow> 'd ufs" where
  "udisk_write io lba bs s = s\<lparr>udev := snd (wr io lba bs (udev s))\<rparr>"

definition u_fg :: "u8 \<Rightarrow> 'd ufs \<Rightarrow> 'd ufs" where
  "u_fg c s = s\<lparr>screen := screen s @ [SetFg c]\<rparr>"

definition u_puts :: "cstr \<Rightarrow> 'd ufs \<Rightarrow> 'd ufs" where
  "u_puts t s = s\<lparr>screen := screen s @ [Chars t]\<rparr>"

definition u_putcs :: "cstr \<Rightarrow> 'd ufs \<Rightarrow> 'd ufs" where
  "u_putcs t s = fold (\<lambda>c. u_puts [c]) t s"

section \<open>Names\<close>

definition uname83_to_str :: "u8 list \<Rightarrow> cstr" where
  "uname83_to_str e =
     (let n = takeWhile (\<lambda>c. c \<noteq> 0x20) (take 8 e);
          m = (if e ! 8 \<noteq> 0x20 then n @ [0x2E] @ takeWhile (\<lambda>c. c \<noteq> 0x20) (take 3 (drop 8 e)) else n)
      in rev (dropWhile (\<lambda>c. c = 0x20) (rev m)))"

definition ustr_to_name83 :: "cstr \<Rightarrow> u8 list" where
  "ustr_to_name83 name =
     (let base = take 8 (takeWhile (\<lambda>c. c \<noteq> 0x2E) name);
          rest = drop (length base) name;
          ext = take 3 (if rest \<noteq> [] \<and> hd rest = 0x2E then tl rest else rest)
      in pad_to 8 (map upcase base) @ pad_to 3 (map upcase ext))"

definition lowc :: "u8 \<Rightarrow> u8" where
  "lowc c = (if 0x41 \<le> c \<and> c \<le> 0x5A then c + 32 else c)"

fun name_eq :: "cstr \<Rightarrow> cstr \<Rightarrow> bool" where
  "name_eq (a # as) (b # bs) = (lowc a = lowc b \<and> name_eq as bs)"
| "name_eq as bs = (as = [] \<and> bs = [])"

section \<open>The allocation table\<close>

definition fat_eoc :: "ftype \<Rightarrow> u32" where
  "fat_eoc t = (case t of FAT12 \<Rightarrow> 0xFF8 | FAT16 \<Rightarrow> 0xFFF8 | FAT32 \<Rightarrow> 0x0FFFFFF8)"

definition fat_eoc_mark :: "ftype \<Rightarrow> u32" where
  "fat_eoc_mark t = (case t of FAT12 \<Rightarrow> 0xFFF | FAT16 \<Rightarrow> 0xFFFF | FAT32 \<Rightarrow> 0x0FFFFFFF)"

text \<open>Byte offset of an entry in the table, the bytes it is read from, its value and its new bytes.\<close>

definition ent_off :: "ftype \<Rightarrow> u32 \<Rightarrow> u32" where
  "ent_off t cl = (case t of FAT12 \<Rightarrow> cl + cl div 2 | FAT16 \<Rightarrow> cl * 2 | FAT32 \<Rightarrow> cl * 4)"

definition ent_len :: "ftype \<Rightarrow> nat" where
  "ent_len t = (case t of FAT12 \<Rightarrow> 2 | FAT16 \<Rightarrow> 2 | FAT32 \<Rightarrow> 4)"

definition ent_val :: "ftype \<Rightarrow> u32 \<Rightarrow> u8 list \<Rightarrow> nat \<Rightarrow> u32" where
  "ent_val t cl b pos =
     (case t of FAT12 \<Rightarrow> ucast (if cl AND 1 \<noteq> 0 then drop_bit 4 (le16 b pos) else le16 b pos AND 0x0FFF)
      | FAT16 \<Rightarrow> ucast (le16 b pos)
      | FAT32 \<Rightarrow> le32 b pos AND 0x0FFFFFFF)"

definition ent_new :: "ftype \<Rightarrow> u32 \<Rightarrow> u8 list \<Rightarrow> nat \<Rightarrow> u32 \<Rightarrow> u8 list" where
  "ent_new t cl b pos x =
     (case t of FAT12 \<Rightarrow>
          bytes16 (if cl AND 1 \<noteq> 0 then (le16 b pos AND 0x000F) OR push_bit 4 (ucast x AND 0xFFF)
            else (le16 b pos AND 0xF000) OR (ucast x AND 0xFFF))
      | FAT16 \<Rightarrow> bytes16 (ucast x)
      | FAT32 \<Rightarrow> bytes32 x)"

definition fat_entry_raw :: "'d blkio \<Rightarrow> u32 \<Rightarrow> 'd ufs \<Rightarrow> (u32 \<times> 'd ufs) option" where
  "fat_entry_raw io cl s =
     (let t = fat_type s; off = ent_off t cl; pos = unat (off mod 512) in
      case udisk_read io (u_fat_sec s + off div 512) [] s of (b, s1) \<Rightarrow>
        if length b < pos + ent_len t then None else Some (ent_val t cl b pos, s1))"

definition read_fat :: "'d blkio \<Rightarrow> u32 \<Rightarrow> 'd ufs \<Rightarrow> (u32 \<times> 'd ufs) option" where
  "read_fat io cl s = do { (v, s1) \<leftarrow> fat_entry_raw io cl s; Some (if fat_eoc (fat_type s) \<le> v then 0 else v, s1) }"

definition uwrite_fat_entry :: "'d blkio \<Rightarrow> u32 \<Rightarrow> u32 \<Rightarrow> 'd ufs \<Rightarrow> 'd ufs option" where
  "uwrite_fat_entry io cl x s =
     (let t = fat_type s; off = ent_off t cl; pos = unat (off mod 512); so = off div 512 in
      case udisk_read io (u_fat_sec s + so) [] s of (b, s1) \<Rightarrow>
        if length b < pos + ent_len t then None
        else let b1 = put_at pos (ent_new t cl b pos x) b
             in Some (fold (\<lambda>i. udisk_write io (u_fat_sec s + of_nat i * fat_size s + so) b1) [1..<unat (b_fats (bpb s))]
                       (udisk_write io (u_fat_sec s + so) b1 s1)))"

fun ufree_scan :: "'d blkio \<Rightarrow> u32 list \<Rightarrow> 'd ufs \<Rightarrow> (u32 \<times> 'd ufs) option" where
  "ufree_scan io [] s = Some (0, s)"
| "ufree_scan io (cl # cls) s =
     (case fat_entry_raw io cl s of None \<Rightarrow> None
      | Some (v, s1) \<Rightarrow>
          if v = 0 then (case uwrite_fat_entry io cl (fat_eoc_mark (fat_type s1)) s1 of None \<Rightarrow> None | Some s2 \<Rightarrow> Some (cl, s2))
          else ufree_scan io cls s1)"

definition max_cl :: "'d ufs \<Rightarrow> u32" where
  "max_cl s = (case fat_type s of FAT12 \<Rightarrow> (fat_size s * 512 * 2) div 3 | FAT16 \<Rightarrow> (fat_size s * 512) div 2 | FAT32 \<Rightarrow> (fat_size s * 512) div 4)"

definition ualloc_cluster :: "'d blkio \<Rightarrow> 'd ufs \<Rightarrow> (u32 \<times> 'd ufs) option" where
  "ualloc_cluster io s = ufree_scan io (map of_nat [2..<unat (min (max_cl s) (total_clusters s + 2))]) s"

definition u_in_chain :: "'d ufs \<Rightarrow> u32 \<Rightarrow> bool" where
  "u_in_chain s cl = (2 \<le> cl \<and> cl < fat_eoc (fat_type s))"

partial_function (option) free_cluster_chain :: "'d blkio \<Rightarrow> u32 \<Rightarrow> 'd ufs \<Rightarrow> 'd ufs option" where
  "free_cluster_chain io cl s =
     (if u_in_chain s cl
      then (case read_fat io cl s of None \<Rightarrow> None
            | Some (nx, s1) \<Rightarrow> (case uwrite_fat_entry io cl 0 s1 of None \<Rightarrow> None | Some s2 \<Rightarrow> free_cluster_chain io nx s2))
      else Some s)"

section \<open>Clusters and directories\<close>

definition ucluster_lba :: "'d ufs \<Rightarrow> u32 \<Rightarrow> nat \<Rightarrow> u32" where
  "ucluster_lba s cl i = u_data_sec s + (cl - 2) * ucast (b_spc (bpb s)) + of_nat i"

definition read_cluster_sector :: "'d blkio \<Rightarrow> u32 \<Rightarrow> nat \<Rightarrow> u8 list \<Rightarrow> 'd ufs \<Rightarrow> u8 list \<times> 'd ufs" where
  "read_cluster_sector io cl i buf s = udisk_read io (ucluster_lba s cl i) buf s"

definition dir_entry_cluster :: "ftype \<Rightarrow> u8 list \<Rightarrow> u32" where
  "dir_entry_cluster t e = (if t = FAT32 then ucast (le16 e 26) OR push_bit 16 (ucast (le16 e 20)) else ucast (le16 e 26))"

text \<open>The number of root directory sectors; the division fails for an unread parameter block.\<close>

definition root_sectors :: "'d ufs \<Rightarrow> nat option" where
  "root_sectors s = (if b_bps (bpb s) = 0 then None else Some (unat (b_root_ents (bpb s)) * 32 div unat (b_bps (bpb s))))"

text \<open>One sector of entries: the first that is in use and fits, the end mark before it, or neither.\<close>

datatype scan = Hit nat | EndMark | NoHit

fun scan_sec :: "(u8 list \<Rightarrow> bool) \<Rightarrow> u8 list \<Rightarrow> nat list \<Rightarrow> scan" where
  "scan_sec P b [] = NoHit"
| "scan_sec P b (i # is') =
     (let e = take 32 (drop i b) in
      if e ! 0 = 0 then EndMark else if e ! 0 = 0xE5 \<or> \<not> P e then scan_sec P b is' else Hit i)"

definition ent_slots :: "nat list" where
  "ent_slots = map (\<lambda>i. 32 * i) [0..<16]"

definition is_dir :: "u8 list \<Rightarrow> bool" where
  "is_dir e = (e ! 11 AND 0x10 \<noteq> 0)"

definition named :: "u8 list \<Rightarrow> u8 list \<Rightarrow> bool" where
  "named fname e = (take 11 e = fname)"

text \<open>The search loop over the root directory: sector index, offset and sector of the entry.\<close>

fun root_find :: "'d blkio \<Rightarrow> (u8 list \<Rightarrow> bool) \<Rightarrow> nat list \<Rightarrow> u8 list \<Rightarrow> 'd ufs \<Rightarrow> ((nat \<times> nat \<times> u8 list) option \<times> 'd ufs) option" where
  "root_find io P [] buf s = Some (None, s)"
| "root_find io P (k # ks) buf s =
     (case udisk_read io (u_root_sec s + of_nat k) buf s of (b, s1) \<Rightarrow>
        if length b \<noteq> 512 then None
        else case scan_sec P b ent_slots of Hit i \<Rightarrow> Some (Some (k, i, b), s1) | EndMark \<Rightarrow> Some (None, s1) | NoHit \<Rightarrow> root_find io P ks b s1)"

text \<open>The same over a directory's clusters, all sectors of each; \<open>n\<close> counts the sectors.\<close>

fun cluster_find :: "'d blkio \<Rightarrow> (u8 list \<Rightarrow> bool) \<Rightarrow> u32 \<Rightarrow> nat list \<Rightarrow> nat \<Rightarrow> u8 list \<Rightarrow> 'd ufs \<Rightarrow> ((scan \<times> nat \<times> u8 list) \<times> 'd ufs) option" where
  "cluster_find io P cl [] n buf s = Some ((NoHit, n, buf), s)"
| "cluster_find io P cl (k # ks) n buf s =
     (case read_cluster_sector io cl k buf s of (b, s1) \<Rightarrow>
        if length b \<noteq> 512 then None
        else case scan_sec P b ent_slots of NoHit \<Rightarrow> cluster_find io P cl ks (Suc n) b s1 | r \<Rightarrow> Some ((r, n, b), s1))"

partial_function (option) sub_find :: "'d blkio \<Rightarrow> (u8 list \<Rightarrow> bool) \<Rightarrow> u32 \<Rightarrow> nat \<Rightarrow> u8 list \<Rightarrow> 'd ufs \<Rightarrow> ((nat \<times> nat \<times> u8 list) option \<times> 'd ufs) option" where
  "sub_find io P cl n buf s =
     (if u_in_chain s cl
      then (case cluster_find io P cl [0..<unat (b_spc (bpb s))] n buf s of None \<Rightarrow> None
            | Some ((r, k, b), s1) \<Rightarrow>
                (case r of Hit i \<Rightarrow> Some (Some (k, i, b), s1)
                 | EndMark \<Rightarrow> Some (None, s1)
                 | NoHit \<Rightarrow> (case read_fat io cl s1 of None \<Rightarrow> None | Some (nx, s2) \<Rightarrow> sub_find io P nx k b s2)))
      else Some (None, s))"

definition dir_search :: "'d blkio \<Rightarrow> (u8 list \<Rightarrow> bool) \<Rightarrow> 'd ufs \<Rightarrow> ((nat \<times> nat \<times> u8 list) option \<times> 'd ufs) option" where
  "dir_search io P s =
     (if u_cur s = 0 then do { n \<leftarrow> root_sectors s; root_find io P [0..<n] [] s } else sub_find io P (u_cur s) 0 [] s)"

text \<open>The sector of the current directory with index \<open>idx\<close>; \<open>None\<close> inside: the chain is shorter.\<close>

partial_function (option) curdir_lba :: "'d blkio \<Rightarrow> u32 \<Rightarrow> nat \<Rightarrow> 'd ufs \<Rightarrow> (u32 option \<times> 'd ufs) option" where
  "curdir_lba io cl idx s =
     (let per = unat (b_spc (bpb s)) in
      if per \<le> idx
      then (case read_fat io cl s of None \<Rightarrow> None
            | Some (nx, s1) \<Rightarrow> if u_in_chain s1 nx then curdir_lba io nx (idx - per) s1 else Some (None, s1))
      else Some (Some (ucluster_lba s cl idx), s))"

definition curdir_sector :: "'d blkio \<Rightarrow> nat \<Rightarrow> 'd ufs \<Rightarrow> (u32 option \<times> 'd ufs) option" where
  "curdir_sector io idx s =
     (if u_cur s = 0 then Some (Some (u_root_sec s + of_nat idx), s) else curdir_lba io (u_cur s) idx s)"

definition read_curdir_sector :: "'d blkio \<Rightarrow> nat \<Rightarrow> 'd ufs \<Rightarrow> (u8 list \<times> 'd ufs) option" where
  "read_curdir_sector io idx s =
     (case curdir_sector io idx s of None \<Rightarrow> None
      | Some (None, s1) \<Rightarrow> Some ([], s1)
      | Some (Some lba, s1) \<Rightarrow> Some (udisk_read io lba [] s1))"

definition write_curdir_sector :: "'d blkio \<Rightarrow> nat \<Rightarrow> u8 list \<Rightarrow> 'd ufs \<Rightarrow> 'd ufs option" where
  "write_curdir_sector io idx b s =
     (case curdir_sector io idx s of None \<Rightarrow> None
      | Some (None, s1) \<Rightarrow> Some s1
      | Some (Some lba, s1) \<Rightarrow> Some (udisk_write io lba b s1))"

text \<open>A free slot: the first entry that is unused or deleted, as sector index and offset.\<close>

fun free_slot :: "u8 list \<Rightarrow> nat list \<Rightarrow> nat option" where
  "free_slot b [] = None"
| "free_slot b (i # is') = (if b ! i = 0 \<or> b ! i = 0xE5 then Some i else free_slot b is')"

fun root_slot :: "'d blkio \<Rightarrow> nat list \<Rightarrow> u8 list \<Rightarrow> 'd ufs \<Rightarrow> ((nat \<times> nat) option \<times> 'd ufs) option" where
  "root_slot io [] buf s = Some (None, s)"
| "root_slot io (k # ks) buf s =
     (case udisk_read io (u_root_sec s + of_nat k) buf s of (b, s1) \<Rightarrow>
        if length b \<noteq> 512 then None
        else case free_slot b ent_slots of Some i \<Rightarrow> Some (Some (k, i), s1) | None \<Rightarrow> root_slot io ks b s1)"

fun cluster_slot :: "'d blkio \<Rightarrow> u32 \<Rightarrow> nat list \<Rightarrow> nat \<Rightarrow> u8 list \<Rightarrow> 'd ufs \<Rightarrow> ((nat option \<times> nat \<times> u8 list) \<times> 'd ufs) option" where
  "cluster_slot io cl [] n buf s = Some ((None, n, buf), s)"
| "cluster_slot io cl (k # ks) n buf s =
     (case read_cluster_sector io cl k buf s of (b, s1) \<Rightarrow>
        if length b \<noteq> 512 then None
        else case free_slot b ent_slots of Some i \<Rightarrow> Some ((Some i, n, b), s1) | None \<Rightarrow> cluster_slot io cl ks (Suc n) b s1)"

partial_function (option) sub_slot :: "'d blkio \<Rightarrow> u32 \<Rightarrow> nat \<Rightarrow> u8 list \<Rightarrow> 'd ufs \<Rightarrow> ((nat \<times> nat) option \<times> 'd ufs) option" where
  "sub_slot io cl n buf s =
     (if u_in_chain s cl
      then (case cluster_slot io cl [0..<unat (b_spc (bpb s))] n buf s of None \<Rightarrow> None
            | Some ((r, k, b), s1) \<Rightarrow>
                (case r of Some i \<Rightarrow> Some (Some (k, i), s1)
                 | None \<Rightarrow> (case read_fat io cl s1 of None \<Rightarrow> None | Some (nx, s2) \<Rightarrow> sub_slot io nx k b s2)))
      else Some (None, s))"

definition dir_find_free_slot :: "'d blkio \<Rightarrow> 'd ufs \<Rightarrow> ((nat \<times> nat) option \<times> 'd ufs) option" where
  "dir_find_free_slot io s =
     (if u_cur s = 0 then do { n \<leftarrow> root_sectors s; root_slot io [0..<n] [] s } else sub_slot io (u_cur s) 0 [] s)"

section \<open>Mounting\<close>

definition parse_bpb :: "u8 list \<Rightarrow> fat_bpb" where
  "parse_bpb b = \<lparr>b_bps = le16 b 11, b_spc = b ! 13, b_reserved = le16 b 14, b_fats = b ! 16, b_root_ents = le16 b 17,
     b_total16 = le16 b 19, b_fat16 = le16 b 22, b_sectors = le16 b 24, b_fat32_sz = le32 b 52, b_root_cluster = le32 b 60\<rparr>"

definition fat_kind :: "u32 \<Rightarrow> ftype" where
  "fat_kind n = (if n < 4085 then FAT12 else if n < 65525 then FAT16 else FAT32)"

definition set_geometry :: "fat_bpb \<Rightarrow> 'd ufs \<Rightarrow> 'd ufs option" where
  "set_geometry p s =
     (let tot = (if b_total16 p \<noteq> 0 then ucast (b_total16 p) else ucast (b_sectors p)) :: u32;
          fsz = (if b_fat16 p \<noteq> 0 then ucast (b_fat16 p) else b_fat32_sz p);
          fats = ucast (b_reserved p) + ucast (b_fats p) * fsz
      in if b_fat16 p \<noteq> 0 \<and> b_bps p = 0 \<or> b_spc p = 0 then None
         else
           let rds = (if b_fat16 p \<noteq> 0 then (ucast (b_root_ents p) * 32 + (ucast (b_bps p) - 1)) div ucast (b_bps p) else 0);
               n = (tot - (fats + rds)) div ucast (b_spc p);
               s1 = s\<lparr>bpb := p, fat_size := fsz, total_clusters := n, fat_type := fat_kind n, u_fat_sec := ucast (b_reserved p)\<rparr>
           in if fat_kind n = FAT32
              then Some (s1\<lparr>u_root_sec := 0, fat_root_cluster := b_root_cluster p, u_cur := b_root_cluster p, u_data_sec := fats\<rparr>)
              else if b_bps p = 0 then None
              else Some (s1\<lparr>u_root_sec := fats, u_data_sec := fats + of_nat (unat (b_root_ents p) * 32 div unat (b_bps p)), fat_root_cluster := 0\<rparr>))"

definition ufs_init :: "'d blkio \<Rightarrow> 'd ufs \<Rightarrow> (int \<times> 'd ufs) option" where
  "ufs_init io s =
     (case rd io 0 (udev s) of ((r, b), d) \<Rightarrow>
        let s1 = s\<lparr>udev := d\<rparr> in
        if r \<noteq> 0 then Some (-1, s1)
        else if length b \<noteq> 512 then None
        else if take 3 (drop 3 b) \<noteq> bytes_of ''XEK'' then Some (-1, s1)
        else map_option (\<lambda>s2. (0, s2)) (set_geometry (parse_bpb b) s1))"

section \<open>Listing\<close>

fun udec_rev :: "nat \<Rightarrow> u32 \<Rightarrow> cstr" where
  "udec_rev 0 t = []"
| "udec_rev (Suc n) t = (if t = 0 then [] else (0x30 + ucast (t mod 10)) # udec_rev n (t div 10))"

definition size_field :: "u32 \<Rightarrow> cstr" where
  "size_field t =
     (if t = 0 then replicate 8 0x20 @ [0x30] else let d = rev (udec_rev 9 t) in replicate (9 - length d) 0x20 @ d)"

definition ascii2 :: "nat \<Rightarrow> cstr" where
  "ascii2 n = [of_nat (0x30 + n div 10), of_nat (0x30 + n mod 10)]"

definition time_field :: "u16 \<Rightarrow> u16 \<Rightarrow> cstr" where
  "time_field ft fd =
     (let h = unat (drop_bit 11 ft AND 0x1F); m = unat (drop_bit 5 ft AND 0x3F);
          y = 1980 + unat (drop_bit 9 fd AND 0x7F); mo = unat (drop_bit 5 fd AND 0xF); d = unat (fd AND 0x1F)
      in [0x20] @ ascii2 (y div 100) @ ascii2 (y mod 100) @ [0x2D] @ ascii2 mo @ [0x2D] @ ascii2 d @ [0x20] @ ascii2 h @ [0x3A] @ ascii2 m)"

definition ls_line :: "u8 list \<Rightarrow> 'd ufs \<Rightarrow> 'd ufs" where
  "ls_line e s =
     (let s1 = u_putcs (if is_dir e then bytes_of ''DIR  '' else replicate 5 0x20) (u_fg (if is_dir e then 11 else 7) s);
          s2 = u_putcs (size_field (le32 e 28)) (u_fg 8 s1);
          ft = le16 e 22; fd = le16 e 24;
          s3 = (if ft \<noteq> 0 \<or> fd \<noteq> 0 then u_putcs (time_field ft fd) (u_puts [0x21] (u_fg 14 s2)) else u_putcs (replicate 17 0x20) (u_fg 8 s2))
      in u_puts [10] (u_putcs (cstr_of (uname83_to_str e)) (u_puts [0x20] (u_fg 15 s3))))"

text \<open>The entries of one sector, at most 16 in all; the flag: the scan is over.\<close>

fun ls_scan :: "u8 list \<Rightarrow> nat list \<Rightarrow> u8 list list \<Rightarrow> bool \<times> u8 list list" where
  "ls_scan b [] es = (False, es)"
| "ls_scan b (i # is') es =
     (if b ! i = 0 then (True, es) else if b ! i = 0xE5 then ls_scan b is' es
      else if 16 \<le> length es then (True, es) else ls_scan b is' (es @ [take 32 (drop i b)]))"

fun ls_root :: "'d blkio \<Rightarrow> nat list \<Rightarrow> u8 list list \<Rightarrow> 'd ufs \<Rightarrow> (u8 list list \<times> 'd ufs) option" where
  "ls_root io [] es s = Some (es, s)"
| "ls_root io (k # ks) es s =
     (case udisk_read io (u_root_sec s + of_nat k) (ls_sec s) s of (b, s1) \<Rightarrow>
        if length b \<noteq> 512 then None
        else case ls_scan b ent_slots es of (stop, es1) \<Rightarrow>
          let s2 = s1\<lparr>ls_sec := b\<rparr> in if stop then Some (es1, s2) else ls_root io ks es1 s2)"

definition ufs_ls :: "'d blkio \<Rightarrow> 'd ufs \<Rightarrow> (int \<times> 'd ufs) option" where
  "ufs_ls io s =
     do { (es, s1) \<leftarrow> (if u_cur s = 0 then do { n \<leftarrow> root_sectors s; ls_root io [0..<n] [] s } else Some ([], s));
          Some (0, u_fg 7 (fold ls_line es s1)) }"

section \<open>The current directory\<close>

definition cwd_len :: "'d ufs \<Rightarrow> nat" where
  "cwd_len s = length (cstr_of (cwd_path s))"

text \<open>The index where the last component of a path of length \<open>n\<close> begins, at least 1.\<close>

fun last_component :: "u8 list \<Rightarrow> nat \<Rightarrow> nat" where
  "last_component p n = (if 1 < n \<and> p ! (n - 1) \<noteq> 0x5C then last_component p (n - 1) else n)"

definition cwd_up :: "u8 list \<Rightarrow> u8 list" where
  "cwd_up p =
     (let len = length (cstr_of p); n = last_component p len in
      if 1 < len then p[(if 1 < n then n - 1 else n) := 0] else put_at 0 [0x5C, 0] p)"

text \<open>One component more; \<open>None\<close>: the final NUL is stored behind the array of 64 characters.\<close>

definition cwd_down :: "cstr \<Rightarrow> u8 list \<Rightarrow> u8 list option" where
  "cwd_down name p =
     (let q = cstr_of p; q1 = (if q \<noteq> [] \<and> last q \<noteq> 0x5C then q @ [0x5C] else q); q2 = q1 @ take (63 - length q1) name in
      if 64 \<le> length q2 then None else Some (put_at 0 (q2 @ [0]) p))"

text \<open>In a subdirectory only the first sector of every cluster is searched.\<close>

definition u_nonzero_chain :: "'d ufs \<Rightarrow> u32 \<Rightarrow> bool" where
  "u_nonzero_chain s cl = (0 < cl \<and> cl < fat_eoc (fat_type s))"

partial_function (option) cd_find :: "'d blkio \<Rightarrow> (u8 list \<Rightarrow> bool) \<Rightarrow> u32 \<Rightarrow> u8 list \<Rightarrow> 'd ufs \<Rightarrow> (u8 list option \<times> 'd ufs) option" where
  "cd_find io P cl buf s =
     (if u_nonzero_chain s cl
      then (case read_cluster_sector io cl 0 buf s of (b, s1) \<Rightarrow>
              if length b \<noteq> 512 then None
              else case scan_sec P b ent_slots of Hit i \<Rightarrow> Some (Some (take 32 (drop i b)), s1) | EndMark \<Rightarrow> Some (None, s1)
                   | NoHit \<Rightarrow> (case read_fat io cl s1 of None \<Rightarrow> None | Some (nx, s2) \<Rightarrow> cd_find io P nx b s2))
      else Some (None, s))"

definition cd_search :: "'d blkio \<Rightarrow> (u8 list \<Rightarrow> bool) \<Rightarrow> 'd ufs \<Rightarrow> (u8 list option \<times> 'd ufs) option" where
  "cd_search io P s =
     (if u_cur s = 0
      then do { n \<leftarrow> root_sectors s; (h, s1) \<leftarrow> root_find io P [0..<n] [] s; Some (map_option (\<lambda>(k, i, b). take 32 (drop i b)) h, s1) }
      else cd_find io P (u_cur s) [] s)"

definition cd_parent :: "'d blkio \<Rightarrow> 'd ufs \<Rightarrow> (int \<times> 'd ufs) option" where
  "cd_parent io s =
     (if u_cur s = 0 then Some (0, s)
      else
        let s1 = s\<lparr>u_cur := u_parent s, cwd_path := cwd_up (cwd_path s)\<rparr> in
        if u_cur s1 = 0 then Some (0, s1\<lparr>u_parent := 0\<rparr>)
        else case read_cluster_sector io (u_cur s1) 0 [] s1 of (b, s2) \<Rightarrow>
          if length b \<noteq> 512 then None else Some (0, s2\<lparr>u_parent := dir_entry_cluster (fat_type s2) (drop 32 b)\<rparr>))"

definition ufs_cd :: "'d blkio \<Rightarrow> cstr \<Rightarrow> 'd ufs \<Rightarrow> (int \<times> 'd ufs) option" where
  "ufs_cd io name s =
     (if name = [] then Some (0, s)
      else if name = [0x5C] \<or> name = [0x2F] then Some (0, s\<lparr>u_cur := 0, u_parent := 0, cwd_path := put_at 0 [0x5C, 0] (cwd_path s)\<rparr>)
      else if name = [0x2E, 0x2E] then cd_parent io s
      else do { (h, s1) \<leftarrow> cd_search io (\<lambda>e. is_dir e \<and> named (ustr_to_name83 name) e) s;
                case h of None \<Rightarrow> Some (-1, s1)
                | Some e \<Rightarrow> do { p \<leftarrow> cwd_down name (cwd_path s1);
                     Some (0, s1\<lparr>u_parent := u_cur s1, u_cur := dir_entry_cluster (fat_type s1) e, cwd_path := p\<rparr>) } })"

definition ufs_cwd :: "nat \<Rightarrow> 'd ufs \<Rightarrow> cstr" where
  "ufs_cwd lim s = take (lim - 1) (cstr_of (cwd_path s))"

section \<open>Reading\<close>

text \<open>The search for a file: entries whose first cluster is 0 are passed over, and in the root directory an end
  mark only ends its sector.\<close>

fun root_file :: "'d blkio \<Rightarrow> (u8 list \<Rightarrow> bool) \<Rightarrow> nat list \<Rightarrow> u8 list \<Rightarrow> 'd ufs \<Rightarrow> (u8 list option \<times> 'd ufs) option" where
  "root_file io P [] buf s = Some (None, s)"
| "root_file io P (k # ks) buf s =
     (case udisk_read io (u_root_sec s + of_nat k) buf s of (b, s1) \<Rightarrow>
        if length b \<noteq> 512 then None
        else case scan_sec P b ent_slots of
            Hit i \<Rightarrow> if dir_entry_cluster (fat_type s1) (take 32 (drop i b)) \<noteq> 0 then Some (Some (take 32 (drop i b)), s1) else root_file io P ks b s1
          | _ \<Rightarrow> root_file io P ks b s1)"

partial_function (option) sub_file :: "'d blkio \<Rightarrow> (u8 list \<Rightarrow> bool) \<Rightarrow> u32 \<Rightarrow> u8 list \<Rightarrow> 'd ufs \<Rightarrow> (u8 list option \<times> 'd ufs) option" where
  "sub_file io P cl buf s =
     (if u_nonzero_chain s cl
      then (case read_cluster_sector io cl 0 buf s of (b, s1) \<Rightarrow>
              if length b \<noteq> 512 then None
              else case read_fat io cl s1 of None \<Rightarrow> None
                   | Some (nx, s2) \<Rightarrow>
                       (case scan_sec P b ent_slots of
                          Hit i \<Rightarrow> if dir_entry_cluster (fat_type s2) (take 32 (drop i b)) \<noteq> 0 then Some (Some (take 32 (drop i b)), s2)
                                   else sub_file io P nx b s2
                        | _ \<Rightarrow> sub_file io P nx b s2))
      else Some (None, s))"

text \<open>The contents: \<open>sz\<close> bytes into a buffer of \<open>lim + 1\<close>; \<open>None\<close> where they do not fit.\<close>

fun read_data_secs :: "'d blkio \<Rightarrow> u32 \<Rightarrow> nat \<Rightarrow> nat \<Rightarrow> nat list \<Rightarrow> u8 list \<Rightarrow> 'd ufs \<Rightarrow> (u8 list \<times> 'd ufs) option" where
  "read_data_secs io cl sz lim [] acc s = Some (acc, s)"
| "read_data_secs io cl sz lim (k # ks) acc s =
     (if length acc < sz
      then (case read_cluster_sector io cl k [] s of (b, s1) \<Rightarrow>
              let chunk = min 512 (sz - length acc) in
              if length b < chunk \<or> lim < length acc + chunk then None
              else read_data_secs io cl sz lim ks (acc @ take chunk b) s1)
      else Some (acc, s))"

partial_function (option) read_data :: "'d blkio \<Rightarrow> u32 \<Rightarrow> nat \<Rightarrow> nat \<Rightarrow> u8 list \<Rightarrow> 'd ufs \<Rightarrow> (u8 list \<times> 'd ufs) option" where
  "read_data io cl sz lim acc s =
     (if u_nonzero_chain s cl \<and> length acc < sz
      then (case read_data_secs io cl sz lim [0..<unat (b_spc (bpb s))] acc s of None \<Rightarrow> None
            | Some (acc1, s1) \<Rightarrow> (case read_fat io cl s1 of None \<Rightarrow> None | Some (nx, s2) \<Rightarrow> read_data io nx sz lim acc1 s2))
      else Some (acc, s))"

definition find_file :: "'d blkio \<Rightarrow> cstr \<Rightarrow> 'd ufs \<Rightarrow> (u8 list option \<times> 'd ufs) option" where
  "find_file io name s =
     (let P = (\<lambda>e. \<not> is_dir e \<and> named (ustr_to_name83 name) e) in
      if u_cur s = 0 then do { n \<leftarrow> root_sectors s; root_file io P [0..<n] [] s } else sub_file io P (u_cur s) [] s)"

definition ufs_read_file :: "'d blkio \<Rightarrow> cstr \<Rightarrow> nat \<Rightarrow> 'd ufs \<Rightarrow> ((int \<times> u8 list) \<times> 'd ufs) option" where
  "ufs_read_file io name lim s =
     do { (h, s1) \<leftarrow> find_file io name s;
          case h of None \<Rightarrow> Some ((-1, []), s1)
          | Some e \<Rightarrow>
              do { (bs, s2) \<leftarrow> read_data io (dir_entry_cluster (fat_type s1) e)
                      (if int lim < sint (le32 e 28) then lim else unat (le32 e 28)) lim [] s1;
                   Some ((int (length bs), bs), s2) } }"

definition ufs_cat :: "'d blkio \<Rightarrow> cstr \<Rightarrow> 'd ufs \<Rightarrow> (int \<times> 'd ufs) option" where
  "ufs_cat io name s =
     do { ((sz, bs), s1) \<leftarrow> ufs_read_file io name 2047 s; Some (if sz \<le> 0 then (-1, s1) else (0, u_puts (cstr_of bs) s1)) }"

definition ufs_size :: "'d blkio \<Rightarrow> cstr \<Rightarrow> 'd ufs \<Rightarrow> (int \<times> 'd ufs) option" where
  "ufs_size io name s =
     (if u_cur s = 0
      then do { n \<leftarrow> root_sectors s; (h, s1) \<leftarrow> root_find io (named (ustr_to_name83 name)) [0..<n] [] s;
                Some (case h of None \<Rightarrow> (-1, s1) | Some (k, i, b) \<Rightarrow> (sint (le32 (take 32 (drop i b)) 28), s1)) }
      else Some (-1, s))"

section \<open>Writing\<close>

text \<open>A chain of \<open>n\<close> clusters more behind \<open>prev\<close>; the first cluster, 0 when the volume is full (then what was
  allocated is free again).\<close>

fun ualloc_chain :: "'d blkio \<Rightarrow> nat \<Rightarrow> u32 \<Rightarrow> u32 \<Rightarrow> 'd ufs \<Rightarrow> (u32 \<times> 'd ufs) option" where
  "ualloc_chain io 0 first prev s = Some (first, s)"
| "ualloc_chain io (Suc n) first prev s =
     (case ualloc_cluster io s of None \<Rightarrow> None
      | Some (cl, s1) \<Rightarrow>
          if cl = 0 then (if first \<noteq> 0 then map_option (\<lambda>s2. (0, s2)) (free_cluster_chain io first s1) else Some (0, s1))
          else case (if prev \<noteq> 0 then uwrite_fat_entry io prev cl s1 else Some s1) of None \<Rightarrow> None
               | Some s2 \<Rightarrow> ualloc_chain io n (if first = 0 then cl else first) cl s2)"

fun write_data_secs :: "'d blkio \<Rightarrow> u32 \<Rightarrow> u8 list \<Rightarrow> nat list \<Rightarrow> nat \<Rightarrow> 'd ufs \<Rightarrow> nat \<times> 'd ufs" where
  "write_data_secs io cl data [] w s = (w, s)"
| "write_data_secs io cl data (k # ks) w s =
     (if w < length data
      then let c = take 512 (drop w data)
           in write_data_secs io cl data ks (w + length c) (udisk_write io (ucluster_lba s cl k) (c @ replicate (512 - length c) 0) s)
      else (w, s))"

partial_function (option) write_data :: "'d blkio \<Rightarrow> u32 \<Rightarrow> u8 list \<Rightarrow> nat \<Rightarrow> 'd ufs \<Rightarrow> 'd ufs option" where
  "write_data io cl data w s =
     (if u_in_chain s cl \<and> w < length data
      then (case write_data_secs io cl data [0..<unat (b_spc (bpb s))] w s of (w1, s1) \<Rightarrow>
              (case read_fat io cl s1 of None \<Rightarrow> None | Some (nx, s2) \<Rightarrow> write_data io nx data w1 s2))
      else Some s)"

text \<open>What \<open>ufs_create\<close> and \<open>ufs_mkdir\<close> store in an entry; its other bytes stay.\<close>

definition cluster_bytes :: "u32 \<Rightarrow> u8 list \<Rightarrow> u8 list" where
  "cluster_bytes cl e = put_at 26 (bytes16 (ucast cl)) (put_at 20 (bytes16 (ucast (drop_bit 16 cl))) e)"

definition put_entry :: "'d blkio \<Rightarrow> nat \<times> nat \<Rightarrow> (u8 list \<Rightarrow> u8 list) \<Rightarrow> 'd ufs \<Rightarrow> 'd ufs option" where
  "put_entry io slot f s =
     (case slot of (k, i) \<Rightarrow>
        do { (b, s1) \<leftarrow> read_curdir_sector io k s;
             if length b \<noteq> 512 then None else write_curdir_sector io k (put_at i (f (take 32 (drop i b))) b) s1 })"

definition new_file_entry :: "u8 list \<Rightarrow> u32 \<Rightarrow> u32 \<Rightarrow> u8 list \<Rightarrow> u8 list" where
  "new_file_entry fname cl sz e = put_at 28 (bytes32 sz) (cluster_bytes cl (put_at 0 (fname @ [0x20, 0]) e))"

definition ufs_create :: "'d blkio \<Rightarrow> cstr \<Rightarrow> u8 list \<Rightarrow> 'd ufs \<Rightarrow> (int \<times> 'd ufs) option" where
  "ufs_create io name data s =
     (if data = [] \<or> 4096 < length data then Some (-1, s)
      else do { (sl, s1) \<leftarrow> dir_find_free_slot io s;
        case sl of None \<Rightarrow> Some (-2, s1)
        | Some slot \<Rightarrow>
            let cpb = unat (b_spc (bpb s1)) * unat (b_bps (bpb s1)) in
            if cpb = 0 then None
            else do { (first, s2) \<leftarrow> ualloc_chain io ((length data + cpb - 1) div cpb) 0 0 s1;
              if first = 0 then Some (-3, s2)
              else do { s3 \<leftarrow> write_data io first data 0 s2;
                s4 \<leftarrow> put_entry io slot (new_file_entry (ustr_to_name83 name) first (of_nat (length data))) s3;
                Some (0, s4) } } })"

text \<open>The entry that a search has found is changed and its sector written back.\<close>

definition put_found :: "'d blkio \<Rightarrow> nat \<times> nat \<times> u8 list \<Rightarrow> u8 list \<Rightarrow> 'd ufs \<Rightarrow> (int \<times> 'd ufs) option" where
  "put_found io h bs s = (case h of (k, i, b) \<Rightarrow> map_option (\<lambda>s1. (0, s1)) (write_curdir_sector io k (put_at i bs b) s))"

definition found_cluster :: "nat \<times> nat \<times> u8 list \<Rightarrow> 'd ufs \<Rightarrow> u32" where
  "found_cluster h s = (case h of (k, i, b) \<Rightarrow> dir_entry_cluster (fat_type s) (take 32 (drop i b)))"

definition ufs_rm :: "'d blkio \<Rightarrow> cstr \<Rightarrow> 'd ufs \<Rightarrow> (int \<times> 'd ufs) option" where
  "ufs_rm io name s =
     do { (h, s1) \<leftarrow> dir_search io (\<lambda>e. \<not> is_dir e \<and> named (ustr_to_name83 name) e) s;
          case h of None \<Rightarrow> Some (-1, s1)
          | Some h \<Rightarrow> do { s2 \<leftarrow> free_cluster_chain io (found_cluster h s1) s1; put_found io h [0xE5] s2 } }"

definition new_dir :: "u32 \<Rightarrow> u32 \<Rightarrow> u8 list" where
  "new_dir cl up =
     (let e = (\<lambda>n c. cluster_bytes c (pad_to 11 n @ [0x10] @ replicate 20 0))
      in e [0x2E] cl @ e [0x2E, 0x2E] up @ replicate 448 0)"

definition ufs_mkdir :: "'d blkio \<Rightarrow> cstr \<Rightarrow> 'd ufs \<Rightarrow> (int \<times> 'd ufs) option" where
  "ufs_mkdir io name s =
     do { (cl, s1) \<leftarrow> ualloc_cluster io s;
          if cl = 0 then Some (-2, s1)
          else do { (sl, s2) \<leftarrow> dir_find_free_slot io (udisk_write io (ucluster_lba s1 cl 0) (new_dir cl (u_cur s1)) s1);
            case sl of None \<Rightarrow> map_option (\<lambda>s3. (-3, s3)) (uwrite_fat_entry io cl 0 s2)
            | Some slot \<Rightarrow> map_option (\<lambda>s3. (0, s3)) (put_entry io slot (\<lambda>e. cluster_bytes cl (put_at 0 (ustr_to_name83 name @ [0x10]) e)) s2) } }"

definition dir_empty :: "u8 list \<Rightarrow> bool" where
  "dir_empty b = (\<forall>i \<in> set (drop 2 ent_slots). b ! i = 0 \<or> b ! i = 0xE5)"

definition ufs_rmdir :: "'d blkio \<Rightarrow> cstr \<Rightarrow> 'd ufs \<Rightarrow> (int \<times> 'd ufs) option" where
  "ufs_rmdir io name s =
     do { (h, s1) \<leftarrow> dir_search io (\<lambda>e. is_dir e \<and> named (ustr_to_name83 name) e) s;
          case h of None \<Rightarrow> Some (-1, s1)
          | Some h \<Rightarrow>
              (case udisk_read io (ucluster_lba s1 (found_cluster h s1) 0) [] s1 of (b, s2) \<Rightarrow>
                 if length b \<noteq> 512 then None
                 else if \<not> dir_empty b then Some (-2, s2)
                 else do { s3 \<leftarrow> free_cluster_chain io (found_cluster h s1) s2; put_found io h [0xE5] s3 }) }"

definition ufs_mv :: "'d blkio \<Rightarrow> cstr \<Rightarrow> cstr \<Rightarrow> 'd ufs \<Rightarrow> (int \<times> 'd ufs) option" where
  "ufs_mv io old_name new_name s =
     do { (h, s1) \<leftarrow> dir_search io (named (ustr_to_name83 old_name)) s;
          case h of None \<Rightarrow> Some (-1, s1) | Some h \<Rightarrow> put_found io h (ustr_to_name83 new_name) s1 }"

end
