(* ===== verification/XE_Ufatab.thy ===== *)
theory XE_Ufatab
  imports XE_Ufs
begin

text \<open>
  The allocation tables of the user driver as maps from clusters to values, for all three widths, and the
  comparison with the kernel's driver on the same volume.
\<close>

unbundle bit_operations_syntax

section \<open>Entries in a sector\<close>

definition ent_mask :: "ftype \<Rightarrow> u32" where
  "ent_mask t = (case t of FAT12 \<Rightarrow> 0xFFF | FAT16 \<Rightarrow> 0xFFFF | FAT32 \<Rightarrow> 0x0FFFFFFF)"

text \<open>Cluster numbers whose offset does not wrap around (\<open>ent_range\<close>) and whose entry is not split over two sectors.\<close>

definition ent_range :: "ftype \<Rightarrow> u32 \<Rightarrow> bool" where
  "ent_range t cl = (case t of FAT12 \<Rightarrow> unat cl < 2 ^ 16 | FAT16 \<Rightarrow> unat cl < 2 ^ 31 | FAT32 \<Rightarrow> unat cl < 2 ^ 30)"

definition ent_split :: "ftype \<Rightarrow> u32 \<Rightarrow> bool" where
  "ent_split t cl = (t = FAT12 \<and> unat (ent_off t cl) mod 512 = 511)"

definition ent_ok :: "ftype \<Rightarrow> u32 \<Rightarrow> bool" where
  "ent_ok t cl = (case t of FAT12 \<Rightarrow> unat cl < 2 ^ 16 \<and> unat (ent_off t cl) mod 512 \<noteq> 511 | FAT16 \<Rightarrow> unat cl < 2 ^ 31 | FAT32 \<Rightarrow> unat cl < 2 ^ 30)"

lemma ent_ok_alt: "ent_ok t cl = (ent_range t cl \<and> \<not> ent_split t cl)"
  by (cases t) (simp_all add: ent_ok_def ent_range_def ent_split_def)

lemma unat_ucast16: "unat (cl :: u32) < 2 ^ 16 \<Longrightarrow> unat (ucast cl :: u16) = unat cl"
  by (simp add: unsigned_ucast_eq take_bit_nat_eq_self)

lemma ent_off12: "unat cl < 2 ^ 16 \<Longrightarrow> unat (ent_off FAT12 cl) = fat_off (ucast cl)"
  by (simp add: ent_off_def fat_off_def unat_ucast16 unat_word_ariths unat_div)

lemma and_one_bit: "cl AND 1 = 0 \<longleftrightarrow> \<not> bit (cl :: 'a :: len word) 0"
  by (metis and_one_eq bit_0 even_iff_mod_2_eq_zero odd_iff_mod_2_eq_one)

lemma odd_cluster: "(cl AND 1 \<noteq> (0 :: u32)) = (ucast cl AND 1 \<noteq> (0 :: u16))"
  by (simp add: and_one_bit bit_ucast_iff)

lemma ent12: "ent_val FAT12 cl b pos = ucast (fat_val (ucast cl) (le16 b pos))"
  "ent_new FAT12 cl b pos x = bytes16 (fat_new (ucast cl) (le16 b pos) (ucast x))"
  by (simp_all add: ent_val_def ent_new_def fat_val_def fat_new_def odd_cluster)

lemma le32_put:
  assumes "pos + 4 \<le> length b"
  shows "le32 (put_at pos (bytes32 w) b) pos = w"
    "p + 4 \<le> pos \<or> pos + 4 \<le> p \<Longrightarrow> le32 (put_at pos (bytes32 w) b) p = le32 b p"
proof -
  have a: "pos + length (bytes32 w) \<le> length b" using assms by (simp add: bytes32_def)
  note p = byte_at_put [OF a]
  have l: "length (bytes32 w) = 4" by (simp add: bytes32_def)
  have "word_cat (word_cat (ucast (drop_bit 24 w) :: u8) (ucast (drop_bit 16 w) :: u8) :: u16) (word_cat (ucast (drop_bit 8 w) :: u8) (ucast w :: u8) :: u16) = w"
    by (rule bit_word_eqI) (auto simp: bit_simps)
  then show "le32 (put_at pos (bytes32 w) b) pos = w" by (simp add: le32_def le16_def p l) (simp add: bytes32_def)
  show "p + 4 \<le> pos \<or> pos + 4 \<le> p \<Longrightarrow> le32 (put_at pos (bytes32 w) b) p = le32 b p"
    by (auto simp: le32_def le16_def p l)
qed

lemma ent_pos:
  assumes "ent_ok t cl"
  shows "unat (ent_off t cl mod 512) + ent_len t \<le> 512"
proof (cases t)
  case FAT12
  then show ?thesis using assms mod_511 [of "unat (ent_off t cl)"] by (simp add: ent_ok_def ent_len_def unat_mod)
next
  case FAT16
  then have "unat (ent_off t cl) = 2 * unat cl" using assms by (simp add: ent_ok_def ent_off_def unat_word_ariths)
  then show ?thesis using FAT16 mod_less_divisor [of 256 "unat cl"] by (simp add: unat_mod ent_len_def mult_mod_right [of 2 "unat cl" 256, simplified, symmetric])
next
  case FAT32
  then have "unat (ent_off t cl) = 4 * unat cl" using assms by (simp add: ent_ok_def ent_off_def unat_word_ariths)
  then show ?thesis using FAT32 mod_less_divisor [of 128 "unat cl"] by (simp add: unat_mod ent_len_def mult_mod_right [of 4 "unat cl" 128, simplified, symmetric])
qed

lemma ent_off_inj:
  assumes "ent_ok t c" "ent_ok t d" "ent_off t c = ent_off t d"
  shows "c = d"
proof (cases t)
  case FAT12
  then have "fat_off (ucast c) = fat_off (ucast d)" using assms ent_off12 [of c] ent_off12 [of d] by (simp add: ent_ok_def)
  then have "(ucast c :: u16) = ucast d" by (rule fat_off_inj)
  then show ?thesis using assms FAT12 unat_ucast16 [of c] unat_ucast16 [of d] by (simp add: ent_ok_def word_unat_eq_iff)
next
  case FAT16
  then show ?thesis using assms by (simp add: ent_ok_def ent_off_def word_unat_eq_iff unat_word_ariths)
next
  case FAT32
  then show ?thesis using assms by (simp add: ent_ok_def ent_off_def word_unat_eq_iff unat_word_ariths)
qed

text \<open>An update of one entry leaves the others in its sector alone.\<close>

lemma ent_update:
  fixes t c d b x
  defines "pos \<equiv> unat (ent_off t c mod 512)" and "p \<equiv> unat (ent_off t d mod 512)"
  assumes len: "length b = 512" and ok: "ent_ok t c" "ent_ok t d" and same: "ent_off t d div 512 = ent_off t c div 512"
  shows "ent_val t d (put_at pos (ent_new t c b pos x) b) p = (if d = c then x AND ent_mask t else ent_val t d b p)"
proof -
  have eq: "d = c" if "p = pos"
  proof -
    have "ent_off t d mod 512 = ent_off t c mod 512" using that by (simp add: p_def pos_def word_unat_eq_iff)
    with same have "ent_off t d = ent_off t c" using div_mult_mod_eq [of "ent_off t d" 512] div_mult_mod_eq [of "ent_off t c" 512] by metis
    then show ?thesis using ent_off_inj ok by blast
  qed
  have fit: "pos + ent_len t \<le> 512" using ent_pos [OF ok(1)] by (simp add: pos_def)
  show ?thesis
  proof (cases t)
    case FAT12
    have u: "unat c < 2 ^ 16" "unat d < 2 ^ 16" using ok FAT12 by (simp_all add: ent_ok_def)
    have q: "pos = fat_off (ucast c) mod 512" "p = fat_off (ucast d) mod 512" "fat_off (ucast d) div 512 = fat_off (ucast c) div 512"
      using arg_cong [OF same, of unat] u FAT12 by (simp_all add: pos_def p_def unat_mod unat_div ent_off12)
    have n: "fat_off (ucast c) mod 512 \<noteq> 511" using fit q(1) FAT12 by (simp add: ent_len_def)
    have "(ucast d :: u16) = ucast c \<longleftrightarrow> d = c" using u unat_ucast16 by (metis word_unat_eq_iff)
    moreover have "(ucast (ucast x AND 0xFFF :: u16) :: u32) = x AND 0xFFF"
    proof -
      have m: "(0xFFF :: u32) = mask 12" by (simp add: mask_eq_exp_minus_1)
      show ?thesis unfolding mask_words16(1) m by (rule bit_word_eqI) (auto simp: bit_simps)
    qed
    ultimately show ?thesis
      using fat_update [OF len n q(3), of "ucast x"] FAT12 unfolding q(1,2) by (simp add: ent12 ent_mask_def)
  next
    case FAT16
    have o16: "unat (ent_off t c) = 2 * unat c" "unat (ent_off t d) = 2 * unat d"
      using ok FAT16 by (simp_all add: ent_ok_def ent_off_def unat_word_ariths)
    have ev: "even pos" "even p" by (simp_all add: pos_def p_def unat_mod o16 dvd_mod_iff)
    have lt: "pos + 1 < length b" using fit len FAT16 by (simp add: ent_len_def)
    have "(ucast (ucast x :: u16) :: u32) = x AND 0xFFFF"
    proof -
      have m: "(0xFFFF :: u32) = mask 16" by (simp add: mask_eq_exp_minus_1)
      show ?thesis unfolding m by (rule bit_word_eqI) (auto simp: bit_simps)
    qed
    moreover have "p \<noteq> pos + 1" "Suc p \<noteq> pos" using ev by auto
    ultimately show ?thesis using le16_put(1) [OF lt, of "ucast x"] le16_put(4) [OF lt, of p "ucast x"] eq FAT16
      by (cases "p = pos") (auto simp: ent_val_def ent_new_def ent_mask_def p_def pos_def)
  next
    case FAT32
    have o32: "unat (ent_off t c) = 4 * unat c" "unat (ent_off t d) = 4 * unat d"
      using ok FAT32 by (simp_all add: ent_ok_def ent_off_def unat_word_ariths)
    have "4 dvd pos" "4 dvd p" by (simp_all add: pos_def p_def unat_mod o32 dvd_mod_iff)
    then have "p = pos \<or> p + 4 \<le> pos \<or> pos + 4 \<le> p" by (auto elim!: dvdE)
    moreover have lt: "pos + 4 \<le> length b" using fit len FAT32 by (simp add: ent_len_def)
    ultimately show ?thesis using le32_put(1) [OF lt, of x] le32_put(2) [OF lt, of p x] eq FAT32
      by (auto simp: ent_val_def ent_new_def ent_mask_def p_def pos_def)
  qed
qed

section \<open>The table on disk\<close>

definition utab :: "(u32 \<Rightarrow> u8 list) \<Rightarrow> 'd ufs \<Rightarrow> u32 \<Rightarrow> u32" where
  "utab v s cl = ent_val (fat_type s) cl (v (u_fat_sec s + ent_off (fat_type s) cl div 512)) (unat (ent_off (fat_type s) cl mod 512))"

definition in_tab :: "'d ufs \<Rightarrow> u32 \<Rightarrow> bool" where
  "in_tab s cl = (ent_ok (fat_type s) cl \<and> unat (ent_off (fat_type s) cl div 512) < unat (fat_size s))"

text \<open>The clusters with an entry in the table, split or not.\<close>

definition in_table :: "'d ufs \<Rightarrow> u32 \<Rightarrow> bool" where
  "in_table s cl = (ent_range (fat_type s) cl \<and> unat (ent_off (fat_type s) cl div 512) < unat (fat_size s))"

lemma in_tab_alt: "in_tab s cl = (in_table s cl \<and> \<not> ent_split (fat_type s) cl)"
  by (auto simp: in_tab_def in_table_def ent_ok_alt)

definition ugeo :: "'d ufs \<Rightarrow> bool" where
  "ugeo s = (1 \<le> unat (b_fats (bpb s)) \<and> unat (u_fat_sec s) + unat (b_fats (bpb s)) * unat (fat_size s) < 2 ^ 28)"

definition same_ufs :: "'d ufs \<Rightarrow> 'd ufs \<Rightarrow> bool" where
  "same_ufs s s' = (\<exists>d. s' = s\<lparr>udev := d\<rparr>)"

lemma same_ufs_simps:
  assumes "same_ufs s s'"
  shows "fat_type s' = fat_type s" "u_fat_sec s' = u_fat_sec s" "fat_size s' = fat_size s" "bpb s' = bpb s" "utab v s' = utab v s"
    "in_tab s' = in_tab s" "ugeo s' = ugeo s" "in_table s' = in_table s"
  using assms by (auto simp: same_ufs_def utab_def in_tab_def ugeo_def in_table_def fun_eq_iff)

lemma same_ufs_refl [simp]: "same_ufs s s"
  unfolding same_ufs_def by (rule exI [of _ "udev s"]) simp

lemma same_ufs_trans: "same_ufs a b \<Longrightarrow> same_ufs b c \<Longrightarrow> same_ufs a c"
  by (auto simp: same_ufs_def)

text \<open>A device whose successful reads return 0, for all sectors with 28-bit numbers.\<close>

locale exact_dev = reliable_dev +
  assumes rd_zero: "good d \<Longrightarrow> valid l \<Longrightarrow> fst (fst (rd io l d)) = 0"
    and valid_28: "unat l < 2 ^ 28 \<Longrightarrow> valid l"
begin

lemma udisk_read_ok:
  assumes "good (udev s)" "unat l < 2 ^ 28"
  shows "\<exists>s'. udisk_read io l buf s = (sec (udev s) l, s') \<and> same_ufs s s' \<and> good (udev s') \<and> sec (udev s') = sec (udev s)"
proof -
  note v = valid_28 [OF assms(2)]
  obtain r bs d where r: "rd io l (udev s) = ((r, bs), d)" by (metis surj_pair)
  then have "r = 0" using rd_zero [OF assms(1) v] by simp
  then show ?thesis using rd_law [OF assms(1) v r] r by (auto simp: udisk_read_def same_ufs_def)
qed

lemma udisk_write_ok:
  assumes "good (udev s)" "unat l < 2 ^ 28" "length bs = 512"
  shows "same_ufs s (udisk_write io l bs s) \<and> good (udev (udisk_write io l bs s)) \<and> sec (udev (udisk_write io l bs s)) = (sec (udev s))(l := bs)"
proof -
  note v = valid_28 [OF assms(2)]
  obtain r d where r: "wr io l bs (udev s) = (r, d)" by (metis surj_pair)
  then have "\<not> r < 0" using wr_ok [OF assms(1) v assms(3)] by simp
  then show ?thesis using wr_law [OF assms(1) v assms(3) r] r by (auto simp: udisk_write_def same_ufs_def)
qed

end

context prompt_drive begin

lemma exact_laws: "exact_dev (ata_io P drive) (disk_sec drv drive) (disk_good lag drv drive) lba28"
proof (intro exact_dev.intro exact_dev_axioms.intro, goal_cases)
  case 1
  show ?case by (rule reliable_laws)
next
  case (2 d l)
  then show ?case using rd_one [of drive d l] by (auto simp: disk_good_def)
next
  case (3 l)
  then show ?case by (simp add: lba28_def)
qed

end

sublocale prompt_drive \<subseteq> exact: exact_dev "ata_io P drive" "disk_sec drv drive" "disk_good lag drv drive" lba28 for drive
  by (rule exact_laws)

context exact_dev
begin

lemma tab_sector:
  assumes "ugeo s" "in_table s cl"
  shows "unat (u_fat_sec s + ent_off (fat_type s) cl div 512) = unat (u_fat_sec s) + unat (ent_off (fat_type s) cl div 512)"
    "unat (u_fat_sec s) + unat (ent_off (fat_type s) cl div 512) < unat (u_fat_sec s) + unat (fat_size s)"
    "unat (u_fat_sec s) + unat (fat_size s) < 2 ^ 28"
proof -
  show l: "unat (u_fat_sec s) + unat (ent_off (fat_type s) cl div 512) < unat (u_fat_sec s) + unat (fat_size s)"
    using assms(2) by (simp add: in_table_def)
  have "1 * unat (fat_size s) \<le> unat (b_fats (bpb s)) * unat (fat_size s)" using assms(1) by (intro mult_right_mono) (auto simp: ugeo_def)
  then show f: "unat (u_fat_sec s) + unat (fat_size s) < 2 ^ 28" using assms(1) unfolding ugeo_def mult_1 by linarith
  from l f show "unat (u_fat_sec s + ent_off (fat_type s) cl div 512) = unat (u_fat_sec s) + unat (ent_off (fat_type s) cl div 512)"
    by (subst unat_word_ariths) simp
qed

lemma split_fails:
  assumes "good (udev s)" "ugeo s" "in_table s cl" "ent_split (fat_type s) cl"
  shows "fat_entry_raw io cl s = None" "uwrite_fat_entry io cl x s = None"
proof -
  note t = tab_sector [OF assms(2,3)]
  have "unat (u_fat_sec s + ent_off (fat_type s) cl div 512) < 2 ^ 28" using t by linarith
  from udisk_read_ok [OF assms(1) this]
  obtain s' where "udisk_read io (u_fat_sec s + ent_off (fat_type s) cl div 512) [] s =
      (sec (udev s) (u_fat_sec s + ent_off (fat_type s) cl div 512), s')" by blast
  then show "fat_entry_raw io cl s = None" "uwrite_fat_entry io cl x s = None"
    using assms(4) sec_len [OF assms(1)]
    by (auto simp: fat_entry_raw_def uwrite_fat_entry_def Let_def ent_split_def ent_len_def unat_mod)
qed

lemma entry_raw_ok:
  assumes "good (udev s)" "ugeo s" "in_tab s cl"
  shows "\<exists>s'. fat_entry_raw io cl s = Some (utab (sec (udev s)) s cl, s') \<and> same_ufs s s' \<and> good (udev s') \<and> sec (udev s') = sec (udev s)"
proof -
  note t = tab_sector [OF assms(2) in_tab_alt [THEN iffD1, OF assms(3), THEN conjunct1]]
  have "unat (u_fat_sec s + ent_off (fat_type s) cl div 512) < 2 ^ 28" using t by linarith
  from udisk_read_ok [OF assms(1) this]
  obtain s' where "udisk_read io (u_fat_sec s + ent_off (fat_type s) cl div 512) [] s =
      (sec (udev s) (u_fat_sec s + ent_off (fat_type s) cl div 512), s')"
    "same_ufs s s'" "good (udev s')" "sec (udev s') = sec (udev s)" by blast
  then show ?thesis using ent_pos [of "fat_type s" cl] assms(3) sec_len [OF assms(1)]
    by (auto simp: fat_entry_raw_def Let_def utab_def in_tab_def)
qed

lemma write_ucopies:
  assumes "good (udev s1)" "ugeo s" "so < fat_size s" "length b = 512" "n \<le> unat (b_fats (bpb s))"
  shows "\<exists>s'. fold (\<lambda>i. udisk_write io (u_fat_sec s + of_nat i * fat_size s + so) b) [1..<n] s1 = s' \<and> same_ufs s1 s' \<and> good (udev s') \<and>
    (\<forall>l. unat l < unat (u_fat_sec s) + unat (fat_size s) \<longrightarrow> sec (udev s') l = sec (udev s1) l)"
  using assms(5)
proof (induction n)
  case (Suc n)
  then obtain s2 where s2: "fold (\<lambda>i. udisk_write io (u_fat_sec s + of_nat i * fat_size s + so) b) [1..<n] s1 = s2" "same_ufs s1 s2" "good (udev s2)"
      "\<forall>l. unat l < unat (u_fat_sec s) + unat (fat_size s) \<longrightarrow> sec (udev s2) l = sec (udev s1) l" by auto
  show ?case
  proof (cases "1 \<le> n")
    case True
    let ?k = "u_fat_sec s + of_nat n * fat_size s + so"
    have so: "unat so < unat (fat_size s)" using assms(3) by (simp add: word_less_nat_alt)
    have "Suc n * unat (fat_size s) \<le> unat (b_fats (bpb s)) * unat (fat_size s)" using Suc.prems by (intro mult_right_mono) auto
    then have hi: "unat (u_fat_sec s) + n * unat (fat_size s) + unat so < 2 ^ 28" using assms(2) so by (simp add: ugeo_def)
    have "n < 256" using Suc.prems unsigned_less [of "b_fats (bpb s)", where 'a = nat] by simp
    then have n: "unat (of_nat n :: u32) = n" by (simp add: unat_of_nat)
    have k: "unat ?k = unat (u_fat_sec s) + n * unat (fat_size s) + unat so"
      using hi by (simp add: unat_word_ariths n)
    have "1 * unat (fat_size s) \<le> n * unat (fat_size s)" using True by (intro mult_right_mono) auto
    then have lo: "unat (u_fat_sec s) + unat (fat_size s) \<le> unat ?k" unfolding k mult_1 by linarith
    have k28: "unat ?k < 2 ^ 28" using hi k by simp
    have e: "fold (\<lambda>i. udisk_write io (u_fat_sec s + of_nat i * fat_size s + so) b) [1..<Suc n] s1 = udisk_write io ?k b s2"
      using True s2(1) by simp
    show ?thesis unfolding e using udisk_write_ok [OF s2(3) k28 assms(4)] s2(2,4) same_ufs_trans lo by fastforce
  qed (use s2 in \<open>auto simp: not_le\<close>)
qed (use assms(1) in auto)

lemma uwrite_entry_ok:
  assumes "good (udev s)" "ugeo s" "in_tab s cl"
  shows "\<exists>s'. uwrite_fat_entry io cl x s = Some s' \<and> same_ufs s s' \<and> good (udev s') \<and>
    (\<forall>d. in_tab s d \<longrightarrow> utab (sec (udev s')) s d = (if d = cl then x AND ent_mask (fat_type s) else utab (sec (udev s)) s d))"
proof -
  let ?t = "fat_type s"
  define k where "k = u_fat_sec s + ent_off ?t cl div 512"
  define pos where "pos = unat (ent_off ?t cl mod 512)"
  define b where "b = sec (udev s) k"
  define b1 where "b1 = put_at pos (ent_new ?t cl b pos x) b"
  note t = tab_sector [OF assms(2) in_tab_alt [THEN iffD1, OF assms(3), THEN conjunct1], folded k_def]
  have k28: "unat k < 2 ^ 28" using t by linarith
  obtain s1 where s1: "udisk_read io k [] s = (b, s1)" "same_ufs s s1" "good (udev s1)" "sec (udev s1) = sec (udev s)"
    using udisk_read_ok [OF assms(1) k28] by (auto simp: b_def)
  have len: "length b = 512" unfolding b_def by (rule sec_len [OF assms(1)])
  have pos: "pos + ent_len ?t \<le> 512" using ent_pos assms(3) by (simp add: pos_def in_tab_def)
  have "length (ent_new ?t cl b pos x) = ent_len ?t" by (cases ?t) (simp_all add: ent_new_def ent_len_def bytes32_def)
  then have len1: "length b1 = 512" using len pos by (simp add: b1_def)
  let ?s2 = "udisk_write io k b1 s1"
  note w = udisk_write_ok [OF s1(3) k28 len1]
  have so: "ent_off ?t cl div 512 < fat_size s" using assms(3) by (simp add: in_tab_def word_less_nat_alt)
  obtain s3 where s3: "fold (\<lambda>i. udisk_write io (u_fat_sec s + of_nat i * fat_size s + ent_off ?t cl div 512) b1) [1..<unat (b_fats (bpb s))] ?s2 = s3"
      "same_ufs ?s2 s3" "good (udev s3)" "\<forall>l. unat l < unat (u_fat_sec s) + unat (fat_size s) \<longrightarrow> sec (udev s3) l = sec (udev ?s2) l"
    using write_ucopies [OF _ assms(2) so len1, of ?s2 "unat (b_fats (bpb s))"] w by blast
  have e: "uwrite_fat_entry io cl x s = Some s3"
    using s1(1) s3(1) len pos unfolding uwrite_fat_entry_def Let_def k_def [symmetric] pos_def [symmetric]
    by (simp add: b1_def [symmetric])
  have "utab (sec (udev s3)) s d = (if d = cl then x AND ent_mask ?t else utab (sec (udev s)) s d)" if d: "in_tab s d" for d
  proof -
    define j where "j = u_fat_sec s + ent_off ?t d div 512"
    note tj = tab_sector [OF assms(2) in_tab_alt [THEN iffD1, OF d, THEN conjunct1], folded j_def]
    have v: "sec (udev s3) j = (if j = k then b1 else sec (udev s) j)" using s3(4) w s1(4) tj by auto
    show ?thesis
    proof (cases "j = k")
      case True
      then have "ent_off ?t d div 512 = ent_off ?t cl div 512" by (simp add: j_def k_def)
      from ent_update [OF len _ _ this, of x] assms(3) d True v show ?thesis
        by (simp add: utab_def j_def [symmetric] b1_def pos_def b_def in_tab_def)
    next
      case False
      then have "d \<noteq> cl" by (auto simp: j_def k_def)
      then show ?thesis using v False by (simp add: utab_def j_def [symmetric])
    qed
  qed
  then show ?thesis using e s3(2,3) same_ufs_trans s1(2) w by blast
qed

end

section \<open>Where the code leaves its buffers\<close>

text \<open>A path that fills its array: entering one more directory stores the final NUL behind it.\<close>

lemma cwd_overflow: "length (cstr_of p) = 63 \<Longrightarrow> last (cstr_of p) \<noteq> 0x5C \<Longrightarrow> cwd_down name p = None"
  by (auto simp: cwd_down_def Let_def)

text \<open>Inside of a subdirectory \<open>ufs_ls\<close> prints no entry and \<open>ufs_size\<close> finds no file.\<close>

lemma subdirectory_looks_empty: "u_cur s \<noteq> 0 \<Longrightarrow> ufs_ls io s = Some (0, u_fg 7 s)" "u_cur s \<noteq> 0 \<Longrightarrow> ufs_size io name s = Some (-1, s)"
  by (simp_all add: ufs_ls_def ufs_size_def)

section \<open>Properties\<close>

text \<open>C39. The user driver's table is a map for all three widths of entries, except for the FAT12 entries that are split over
  two sectors: on a working drive a write of any other cluster's entry succeeds, the entry then reads as the bits of the value
  that the width holds, and no other entry changes. Reading or writing a split entry leaves the 512-byte sector buffer.\<close>

theorem user_fat_roundtrip:
  assumes "prompt_drive P lag drv" "disk_good lag drv drive (udev s)" "ugeo s" "in_table s cl"
  shows "if ent_split (fat_type s) cl
    then uwrite_fat_entry (ata_io P drive) cl x s = None \<and> fat_entry_raw (ata_io P drive) cl s = None
    else \<exists>s'. uwrite_fat_entry (ata_io P drive) cl x s = Some s' \<and>
      (\<forall>d. in_table s d \<longrightarrow> (if ent_split (fat_type s) d then fat_entry_raw (ata_io P drive) d s' = None
         else \<exists>s''. fat_entry_raw (ata_io P drive) d s' =
           Some (if d = cl then x AND ent_mask (fat_type s) else utab (disk_sec drv drive (udev s)) s d, s'')))"
proof (cases "ent_split (fat_type s) cl")
  case True
  with exact_dev.split_fails [OF prompt_drive.exact_laws [OF assms(1)] assms(2-4)] show ?thesis by simp
next
  case False
  note ex = prompt_drive.exact_laws [OF assms(1), of drive]
  have "in_tab s cl" using assms(4) False by (simp add: in_tab_alt)
  then obtain s' where s': "uwrite_fat_entry (ata_io P drive) cl x s = Some s'" "same_ufs s s'" "disk_good lag drv drive (udev s')"
      "\<forall>d. in_tab s d \<longrightarrow> utab (disk_sec drv drive (udev s')) s d = (if d = cl then x AND ent_mask (fat_type s) else utab (disk_sec drv drive (udev s)) s d)"
    using exact_dev.uwrite_entry_ok [OF ex assms(2,3), of cl x] by blast
  note e = same_ufs_simps [OF s'(2)]
  have "if ent_split (fat_type s) d then fat_entry_raw (ata_io P drive) d s' = None else \<exists>s''. fat_entry_raw (ata_io P drive) d s' =
       Some (if d = cl then x AND ent_mask (fat_type s) else utab (disk_sec drv drive (udev s)) s d, s'')" if d: "in_table s d" for d
  proof (cases "ent_split (fat_type s) d")
    case True
    then show ?thesis using exact_dev.split_fails(1) [OF ex s'(3), of d] assms(3) e d by simp
  next
    case False
    with d have "in_tab s d" by (simp add: in_tab_alt)
    then show ?thesis using exact_dev.entry_raw_ok [OF ex s'(3), of d] assms(3) s'(4) e False by auto
  qed
  with s'(1) False show ?thesis by auto
qed

definition demo_ufs :: "pio ufs" where
  "demo_ufs = \<lparr>udev = demo_pio, bpb = \<lparr>b_bps = 512, b_spc = 1, b_reserved = 1, b_fats = 2, b_root_ents = 112, b_total16 = 2880, b_fat16 = 9,
     b_sectors = 18, b_fat32_sz = 0, b_root_cluster = 0\<rparr>, fat_type = FAT12, u_data_sec = 26, u_fat_sec = 1, u_root_sec = 19,
     total_clusters = 2854, fat_size = 9, u_cur = 0, u_parent = 0, cwd_path = 0x5C # replicate 63 0, fat_root_cluster = 0,
     ls_sec = replicate 512 0, screen = []\<rparr>"

lemma demo_ufs_ok: "disk_good at_once as_is 1 (udev demo_ufs)" "ugeo demo_ufs" "in_table demo_ufs 5" "\<not> ent_split FAT12 5"
  "in_table demo_ufs 341" "ent_split FAT12 341" "fat_type demo_ufs = FAT12"
  by (simp_all add: demo_ufs_def demo_pio_def disk_good_def disk_ready_def drive_ok_def ugeo_def in_table_def ent_range_def ent_split_def ent_off_def)

theorem user_fat_roundtrip_witness:
  "\<exists>s'. uwrite_fat_entry (ata_io pio_ports 1) 5 0x1ABC demo_ufs = Some s' \<and>
     (\<exists>s''. fat_entry_raw (ata_io pio_ports 1) 5 s' = Some (0xABC, s'')) \<and> fat_entry_raw (ata_io pio_ports 1) 341 s' = None"
proof -
  from user_fat_roundtrip [OF instant.prompt_drive_axioms demo_ufs_ok(1-3), of "0x1ABC", unfolded demo_ufs_ok(7)] demo_ufs_ok(4)
  obtain s' where s': "uwrite_fat_entry (ata_io pio_ports 1) 5 0x1ABC demo_ufs = Some s'"
    and r: "\<forall>d. in_table demo_ufs d \<longrightarrow> (if ent_split FAT12 d then fat_entry_raw (ata_io pio_ports 1) d s' = None
         else \<exists>s''. fat_entry_raw (ata_io pio_ports 1) d s' =
           Some (if d = 5 then 0x1ABC AND ent_mask FAT12 else utab (disk_sec as_is 1 (udev demo_ufs)) demo_ufs d, s''))" by auto
  from r [rule_format, OF demo_ufs_ok(3)] r [rule_format, OF demo_ufs_ok(5)] s' demo_ufs_ok(4,6) show ?thesis by (simp add: ent_mask_def)
qed

text \<open>The two drivers on one volume.\<close>

definition same_volume :: "'d fatfs \<Rightarrow> 'd ufs \<Rightarrow> bool" where
  "same_volume k u = (fat_type u = FAT12 \<and> start_sec k = uint (u_fat_sec u) \<and> fat_secs k = uint (fat_size u) \<and> num_fat k = b_fats (bpb u))"

lemma same_volume_ok:
  assumes "same_volume k u" "fat_geo k"
  shows "ugeo u" "in_fat k cl \<Longrightarrow> in_table u (ucast cl)" "ent_split (fat_type u) (ucast cl) = split_entry cl"
    "utab v u (ucast cl) = ucast (tab v k cl)"
proof -
  have r: "uint (u_fat_sec u) + uint (b_fats (bpb u)) * uint (fat_size u) < 2 ^ 28" "1 \<le> b_fats (bpb u)"
    using assms unfolding same_volume_def fat_geo_def by auto
  then have "int (unat (u_fat_sec u) + unat (b_fats (bpb u)) * unat (fat_size u)) < int (2 ^ 28)" by simp
  then show "ugeo u" unfolding of_nat_less_iff using r(2) by (simp add: ugeo_def word_le_nat_alt)
  have l16: "unat cl < 2 ^ 16" using unsigned_less [of cl, where 'a = nat] by simp
  then have "take_bit 32 (unat cl) = unat cl" by (intro take_bit_nat_eq_self) simp
  then have u: "unat (ucast cl :: u32) = unat cl" by (simp add: unsigned_ucast_eq)
  then have l: "unat (ucast cl :: u32) < 2 ^ 16" using l16 by simp
  have c: "(ucast (ucast cl :: u32) :: u16) = cl" by (rule bit_word_eqI) (auto simp: bit_simps)
  note o12 = ent_off12 [OF l, unfolded c]
  have t: "fat_type u = FAT12" using assms(1) by (simp add: same_volume_def)
  show "in_table u (ucast cl)" if "in_fat k cl"
  proof -
    have "int (fat_off cl div 512) < int (unat (fat_size u))" using that assms(1) by (simp add: in_fat_def same_volume_def)
    then show ?thesis using l unfolding of_nat_less_iff by (simp add: in_table_def ent_range_def t o12 unat_div)
  qed
  show "ent_split (fat_type u) (ucast cl) = split_entry cl" by (simp add: ent_split_def split_entry_def t o12)
  have "u_fat_sec u + ent_off FAT12 (ucast cl) div 512 = of_int (start_sec k + int (fat_off cl div 512))"
  proof -
    have "ent_off FAT12 (ucast cl) div 512 = of_nat (fat_off cl div 512)"
      by (simp add: word_unat_eq_iff unat_div o12 unat_of_nat) (use unsigned_less [of "ent_off FAT12 (ucast cl) div 512", where 'a = nat] in \<open>simp add: unat_div o12\<close>)
    then show ?thesis using assms(1) by (simp add: same_volume_def)
  qed
  then show "utab v u (ucast cl) = ucast (tab v k cl)" by (simp add: utab_def tab_def t ent12 c unat_mod o12)
qed

text \<open>C40. The kernel's driver and the user's driver agree on a FAT12 volume: what the kernel writes into the table through its
  block cache, a program that reads the raw sectors afterwards finds there, for every written and every read entry of the
  table that is not split over two sectors. Both drivers leave their sector buffers at a split entry.\<close>

theorem user_reads_kernel_table:
  assumes "prompt_drive P lag drv" "disk_healthy lag drv drive (fbc k)" "fat_geo k" "in_fat k cl" "same_volume k u"
  shows "if split_entry cl
    then write_fat_entry (ata_io P drive) cl x k = None \<and> fat_entry_raw (ata_io P drive) (ucast cl) (u\<lparr>udev := dev (fbc k)\<rparr>) = None
    else \<exists>k'. write_fat_entry (ata_io P drive) cl x k = Some k' \<and>
      (\<forall>d. in_fat k d \<longrightarrow> (if split_entry d then fat_entry_raw (ata_io P drive) (ucast d) (u\<lparr>udev := dev (fbc k')\<rparr>) = None
         else \<exists>u'. fat_entry_raw (ata_io P drive) (ucast d) (u\<lparr>udev := dev (fbc k')\<rparr>) =
           Some (ucast (if d = cl then x AND 0xFFF else tab (disk_vol drv drive (fbc k)) k d), u')))"
proof -
  note fl = prompt_drive.fat_laws [OF assms(1), of drive] and ex = prompt_drive.exact_laws [OF assms(1), of drive]
  have sv: "same_volume k (u\<lparr>udev := d\<rparr>)" for d using assms(5) by (simp add: same_volume_def)
  note s = same_volume_ok [OF sv assms(3)]
  show ?thesis
  proof (cases "split_entry cl")
    case True
    have "disk_good lag drv drive (udev (u\<lparr>udev := dev (fbc k)\<rparr>))" using assms(2) by (simp add: coherent_def)
    from exact_dev.split_fails(1) [OF ex this s(1) s(2) [OF assms(4)]] fat_store.split_entry_fails(2) [OF fl assms(2-4) True] True s(3)
    show ?thesis by simp
  next
    case False
    have "cl_ok k cl" using assms(4) False by (simp add: cl_ok_alt)
    then obtain k' where k': "write_fat_entry (ata_io P drive) cl x k = Some k'" "disk_healthy lag drv drive (fbc k')"
        "\<forall>d. cl_ok k d \<longrightarrow> tab (disk_vol drv drive (fbc k')) k d = (if d = cl then x AND 0xFFF else tab (disk_vol drv drive (fbc k)) k d)"
      using fat_store.write_fat_entry_ok [OF fl assms(2,3), of cl x] by blast
    let ?u = "u\<lparr>udev := dev (fbc k')\<rparr>"
    have h: "disk_good lag drv drive (udev ?u)" using k'(2) by (simp add: coherent_def)
    have "if split_entry d then fat_entry_raw (ata_io P drive) (ucast d) ?u = None else \<exists>u'. fat_entry_raw (ata_io P drive) (ucast d) ?u =
         Some (ucast (if d = cl then x AND 0xFFF else tab (disk_vol drv drive (fbc k)) k d), u')" if d: "in_fat k d" for d
    proof (cases "split_entry d")
      case True
      then show ?thesis using exact_dev.split_fails(1) [OF ex h s(1) s(2) [OF d]] s(3) by simp
    next
      case False
      then have "in_tab ?u (ucast d)" "cl_ok k d" using s(2) [OF d] s(3) d by (simp_all add: in_tab_alt cl_ok_alt)
      from exact_dev.entry_raw_ok [OF ex h s(1) this(1)] k'(3) this(2) False show ?thesis by (auto simp: s(4))
    qed
    with k'(1) False show ?thesis by auto
  qed
qed

theorem user_reads_kernel_table_witness:
  "\<exists>k' u'. write_fat_entry (ata_io pio_ports 1) 2 0x1ABC demo_fat = Some k' \<and>
     fat_entry_raw (ata_io pio_ports 1) 2 (demo_ufs\<lparr>fat_size := 1, udev := dev (fbc k')\<rparr>) = Some (0xABC, u')"
proof -
  have sv: "same_volume demo_fat (demo_ufs\<lparr>fat_size := 1\<rparr>)" by (simp add: same_volume_def demo_fat_def demo_ufs_def)
  from user_reads_kernel_table [OF instant.prompt_drive_axioms demo_fat_ok(1-3) sv, of "0x1ABC"] demo_fat_ok(4)
  obtain k' where k': "write_fat_entry (ata_io pio_ports 1) 2 0x1ABC demo_fat = Some k'"
    and r: "\<forall>d. in_fat demo_fat d \<longrightarrow> (if split_entry d then fat_entry_raw (ata_io pio_ports 1) (ucast d) (demo_ufs\<lparr>fat_size := 1, udev := dev (fbc k')\<rparr>) = None
         else \<exists>u'. fat_entry_raw (ata_io pio_ports 1) (ucast d) (demo_ufs\<lparr>fat_size := 1, udev := dev (fbc k')\<rparr>) =
           Some (ucast (if d = 2 then 0x1ABC AND 0xFFF else tab (disk_vol as_is 1 (fbc demo_fat)) demo_fat d), u'))" by auto
  from r [rule_format, OF demo_fat_ok(3)] k' demo_fat_ok(4) show ?thesis by auto
qed

end
