(* ===== verification/XE_Shell.thy ===== *)
theory XE_Shell
  imports XE_Loader
begin

text \<open>
  The kernel's own shell, \<^verbatim>\<open>src/src/shell/shell.cpp\<close>: one round of \<open>shell_loop\<close> reads a line and runs its command.
  Messages are UTF-8, written out as bytes. A command continues with the next round, starts a program, or stops
  the machine. \<open>None\<close>: the code does not return or leaves a buffer.
\<close>

unbundle bit_operations_syntax

record 'd sh =
  shu :: "'d usr"
  copybuf :: "u8 list"

datatype 'd sh_step = Continue "'d sh" | RunProg start "'d sh" | Reset "'d sh" | Halted "'d sh"

definition on_shu :: "('d sys \<Rightarrow> 'd sys) \<Rightarrow> 'd sh \<Rightarrow> 'd sh" where
  "on_shu f h = h\<lparr>shu := on_sys f (shu h)\<rparr>"

abbreviation ssys :: "'d sh \<Rightarrow> 'd sys" where "ssys h \<equiv> usys (shu h)"

text \<open>A step of the system with a result.\<close>

definition sh_call :: "('d sys \<Rightarrow> ('a \<times> 'd sys) option) \<Rightarrow> 'd sh \<Rightarrow> ('a \<times> 'd sh) option" where
  "sh_call f h = map_option (\<lambda>(x, s). (x, h\<lparr>shu := (shu h)\<lparr>usys := s\<rparr>\<rparr>)) (f (ssys h))"

section \<open>Output\<close>

definition sh_scr :: "(gfx \<Rightarrow> gfx) \<Rightarrow> 'd sh \<Rightarrow> 'd sh" where
  "sh_scr f = on_shu (on_scr f)"

text \<open>\<open>set_fg(c); puts_utf8(t); set_fg(LGRAY)\<close>\<close>

definition colored :: "u8 \<Rightarrow> cstr \<Rightarrow> 'd sh \<Rightarrow> 'd sh" where
  "colored c t = sh_scr (\<lambda>g. set_fg 7 (puts_utf8 t (set_fg c g)))"

abbreviation red :: "cstr \<Rightarrow> 'd sh \<Rightarrow> 'd sh" where "red \<equiv> colored 12"
abbreviation green :: "cstr \<Rightarrow> 'd sh \<Rightarrow> 'd sh" where "green \<equiv> colored 10"

definition m_ok :: cstr where
  "m_ok = [0xE6, 0x88, 0x90, 0xE5, 0x8A, 0x9F, 10]"

definition m_failed :: cstr where
  "m_failed = [0xE5, 0xA4, 0xB1, 0xE8, 0xB4, 0xA5, 10]"

definition m_not_found :: cstr where
  "m_not_found = [0xE6, 0x9C, 0xAA, 0xE6, 0x89, 0xBE, 0xE5, 0x88, 0xB0, 0xE3, 0x80, 0x82, 10]"

section \<open>Parsing\<close>

definition is_digit :: "u8 \<Rightarrow> bool" where "is_digit c = (0x30 \<le> c \<and> c \<le> 0x39)"

definition is_hex :: "u8 \<Rightarrow> bool" where
  "is_hex c = (is_digit c \<or> 0x61 \<le> c \<and> c \<le> 0x66 \<or> 0x41 \<le> c \<and> c \<le> 0x46)"

definition hex_value :: "u8 \<Rightarrow> u32" where
  "hex_value c = (if is_digit c then ucast (c - 0x30) else if 0x61 \<le> c \<and> c \<le> 0x66 then ucast (c - 0x61) + 10 else ucast (c - 0x41) + 10)"

definition parse_u32 :: "cstr \<Rightarrow> u32" where
  "parse_u32 s = fold (\<lambda>c v. v * 10 + ucast (c - 0x30)) (takeWhile is_digit s) 0"

definition parse_hex :: "cstr \<Rightarrow> u32" where
  "parse_hex s = fold (\<lambda>c v. push_bit 4 v OR hex_value c) (takeWhile is_hex s) 0"

definition skip_blanks :: "cstr \<Rightarrow> cstr" where
  "skip_blanks = dropWhile (\<lambda>c. c = 0x20)"

text \<open>The first word, cut at 63 characters, and what follows it.\<close>

definition first_arg :: "cstr \<Rightarrow> cstr \<times> cstr" where
  "first_arg a = (let n = take 63 (takeWhile (\<lambda>c. c \<noteq> 0x20) a) in (n, skip_blanks (drop (length n) a)))"

section \<open>Information\<close>

definition help_text :: "cstr list" where
  "help_text =
    [bytes_of ''  HELP        '' @ [0xE5, 0xB8, 0xAE, 0xE5, 0x8A, 0xA9, 10],
     bytes_of ''  CLEAR       '' @ [0xE6, 0xB8, 0x85, 0xE5, 0xB1, 0x8F, 10],
     bytes_of ''  INFO        '' @ [0xE7, 0xB3, 0xBB, 0xE7, 0xBB, 0x9F, 0xE4, 0xBF, 0xA1, 0xE6, 0x81, 0xAF, 10],
     bytes_of ''  MEM         '' @ [0xE5, 0x86, 0x85, 0xE5, 0xAD, 0x98, 0xE7, 0xBB, 0x9F, 0xE8, 0xAE, 0xA1, 10],
     bytes_of ''  DISK ID     '' @ [0xE7, 0xA3, 0x81, 0xE7, 0x9B, 0x98, 0xE8, 0xAF, 0x86, 0xE5, 0x88, 0xAB, 10],
     bytes_of ''  DISK R      '' @ [0xE8, 0xAF, 0xBB, 0xE6, 0x89, 0x87, 0xE5, 0x8C, 0xBA, 10],
     bytes_of ''  DISK W      '' @ [0xE5, 0x86, 0x99, 0xE5, 0xAD, 0x97, 0xE8, 0x8A, 0x82, 10],
     bytes_of ''  LS          '' @ [0xE5, 0x88, 0x97, 0xE5, 0x87, 0xBA, 0xE6, 0x96, 0x87, 0xE4, 0xBB, 0xB6, 10],
     bytes_of ''  CAT         '' @ [0xE6, 0x9F, 0xA5, 0xE7, 0x9C, 0x8B, 0xE6, 0x96, 0x87, 0xE4, 0xBB, 0xB6, 10],
     bytes_of ''  CD          '' @ [0xE5, 0x88, 0x87, 0xE6, 0x8D, 0xA2, 0xE7, 0x9B, 0xAE, 0xE5, 0xBD, 0x95, 10],
     bytes_of ''  MKDIR       '' @ [0xE5, 0x88, 0x9B, 0xE5, 0xBB, 0xBA, 0xE7, 0x9B, 0xAE, 0xE5, 0xBD, 0x95, 10],
     bytes_of ''  RMDIR       '' @ [0xE5, 0x88, 0xA0, 0xE9, 0x99, 0xA4, 0xE7, 0x9B, 0xAE, 0xE5, 0xBD, 0x95, 10],
     bytes_of ''  CP          '' @ [0xE5, 0xA4, 0x8D, 0xE5, 0x88, 0xB6, 0xE6, 0x96, 0x87, 0xE4, 0xBB, 0xB6, 10],
     bytes_of ''  MV          '' @ [0xE9, 0x87, 0x8D, 0xE5, 0x91, 0xBD, 0xE5, 0x90, 0x8D, 10],
     bytes_of ''  RM          '' @ [0xE5, 0x88, 0xA0, 0xE9, 0x99, 0xA4, 0xE6, 0x96, 0x87, 0xE4, 0xBB, 0xB6, 10],
     bytes_of ''  CREATE      '' @ [0xE5, 0x88, 0x9B, 0xE5, 0xBB, 0xBA, 0xE6, 0x96, 0x87, 0xE4, 0xBB, 0xB6, 10],
     bytes_of ''  MOUSE       '' @ [0xE9, 0xBC, 0xA0, 0xE6, 0xA0, 0x87, 0xE5, 0x9D, 0x90, 0xE6, 0xA0, 0x87, 10],
     bytes_of ''  RUN         '' @ [0xE8, 0xBF, 0x90, 0xE8, 0xA1, 0x8C, 0xE7, 0xA8, 0x8B, 0xE5, 0xBA, 0x8F, 10],
     bytes_of ''  ECHO        '' @ [0xE5, 0x9B, 0x9E, 0xE6, 0x98, 0xBE, 10],
     bytes_of ''  REBOOT      '' @ [0xE9, 0x87, 0x8D, 0xE5, 0x90, 0xAF, 10],
     bytes_of ''  SHUTDOWN    '' @ [0xE5, 0x85, 0xB3, 0xE6, 0x9C, 0xBA, 10],
     bytes_of ''  USERSH      '' @ [0xE7, 0x94, 0xA8, 0xE6, 0x88, 0xB7, 0xE6, 0x80, 0x81] @ bytes_of '' Shell'' @ [10],
     bytes_of ''  EXT2DIR     ext2 '' @ [0xE7, 0x9B, 0xAE, 0xE5, 0xBD, 0x95, 0xE5, 0x88, 0x97, 0xE8, 0xA1, 0xA8, 10],
     bytes_of ''  EXT2CAT     ext2 '' @ [0xE6, 0x96, 0x87, 0xE4, 0xBB, 0xB6, 0xE6, 0x9F, 0xA5, 0xE7, 0x9C, 0x8B, 10]]"

definition cmd_help :: "'d sh \<Rightarrow> 'd sh" where
  "cmd_help h = sh_scr (\<lambda>g. fold puts_utf8 help_text (set_fg 7 (puts_utf8 ([0xE5, 0x8F, 0xAF, 0xE7, 0x94, 0xA8, 0xE5, 0x91, 0xBD, 0xE4, 0xBB, 0xA4] @ bytes_of '':'' @ [10]) (set_fg 11 g)))) h"

definition info_text :: "cstr list" where
  "info_text =
    [[0xE6, 0x9E, 0xB6, 0xE6, 0x9E, 0x84] @ bytes_of '': x86 32 '' @ [0xE4, 0xBD, 0x8D, 0xE4, 0xBF, 0x9D, 0xE6, 0x8A, 0xA4, 0xE6, 0xA8, 0xA1, 0xE5, 0xBC, 0x8F, 10],
     [0xE5, 0x90, 0xAF, 0xE5, 0x8A, 0xA8] @ bytes_of '': MBR -> Stage2 -> '' @ [0xE5, 0x86, 0x85, 0xE6, 0xA0, 0xB8, 10],
     [0xE5, 0x88, 0x86, 0xE9, 0xA1, 0xB5] @ bytes_of '': 4KB '' @ [0xE9, 0xA1, 0xB5] @ bytes_of '' '' @ [0xE6, 0xA0, 0x87, 0xE8, 0xAF, 0x86, 0xE6, 0x98, 0xA0, 0xE5, 0xB0, 0x84, 10],
     [0xE6, 0x96, 0x87, 0xE4, 0xBB, 0xB6, 0xE7, 0xB3, 0xBB, 0xE7, 0xBB, 0x9F] @ bytes_of '': FAT12 | '' @ [0xE5, 0xAE, 0x9A, 0xE6, 0x97, 0xB6, 0xE5, 0x99, 0xA8] @ bytes_of '': PIT 100Hz'' @ [10],
     [0xE8, 0xBE, 0x93, 0xE5, 0x85, 0xA5] @ bytes_of '': '' @ [0xE9, 0x94, 0xAE, 0xE7, 0x9B, 0x98, 0xE4, 0xB8, 0xAD, 0xE6, 0x96, 0xAD] @ bytes_of '' + PS/2 '' @ [0xE9, 0xBC, 0xA0, 0xE6, 0xA0, 0x87, 10],
     [0xE5, 0xAE, 0x89, 0xE5, 0x85, 0xA8] @ bytes_of '': Ring 3 + TSS'' @ [10]]"

definition cmd_info :: "'d sh \<Rightarrow> 'd sh" where
  "cmd_info h = sh_scr (\<lambda>g. fold puts_utf8 info_text (set_fg 7 (puts_utf8 (bytes_of ''XEKernelOS v0.2.0 - XEKernel'' @ [10]) (set_fg 11 g)))) h"

definition cmd_mem :: "'d sh \<Rightarrow> 'd sh" where
  "cmd_mem h =
     (let n = mm_free_count (pmm (ph (kern (ssys h))))
      in sh_scr (\<lambda>g. gfx_puts (rev (dec_num n) @ [10]) (puts_utf8 ([0xE7, 0xA9, 0xBA, 0xE9, 0x97, 0xB2, 0xE9, 0xA1, 0xB5] @ bytes_of '': '') g)) h)"

definition cmd_mouse :: "'d sh \<Rightarrow> 'd sh" where
  "cmd_mouse h =
     (case mouse_get (mou (hidv (ssys h))) of (x, y, b) \<Rightarrow>
        sh_scr (\<lambda>g. set_fg 7 (gfx_putc 10 (gfx_puts (put_hex_u32 b) (gfx_puts (bytes_of '' BTN='') (gfx_puts (put_hex_u32 (of_int y))
          (gfx_puts (bytes_of '' Y='') (gfx_puts (put_hex_u32 (of_int x)) (puts_utf8 ([0xE9, 0xBC, 0xA0, 0xE6, 0xA0, 0x87] @ bytes_of '': X='') (set_fg 11 g)))))))))  h)"

definition cmd_echo :: "cstr \<Rightarrow> 'd sh \<Rightarrow> 'd sh" where
  "cmd_echo t = sh_scr (\<lambda>g. gfx_putc 10 (gfx_puts t g))"

section \<open>Disk\<close>

text \<open>An identification string: the words' bytes, high byte first, without trailing blanks.\<close>

definition ident_string :: "u16 list \<Rightarrow> nat \<Rightarrow> nat \<Rightarrow> cstr" where
  "ident_string ws i n =
     (let t = concat (map (\<lambda>w. [ucast (drop_bit 8 w), ucast w]) (take n (drop i ws)))
      in cstr_of (hd t # rev (dropWhile (\<lambda>c. c = 0x20) (rev (tl t)))))"

definition ident_line :: "cstr \<Rightarrow> u8 \<Rightarrow> cstr \<Rightarrow> gfx \<Rightarrow> gfx" where
  "ident_line l c v g = gfx_putc 10 (gfx_puts v (set_fg c (puts_utf8 l (set_fg 8 g))))"

definition cmd_disk_id :: "'d env \<Rightarrow> 'd sh \<Rightarrow> 'd sh option" where
  "cmd_disk_id E h =
     (case ata_identify (eports E) (edrive E) (hwv (ssys h)) of None \<Rightarrow> None
      | Some ((r, ws), d) \<Rightarrow>
          let h1 = on_shu (set_hw d) h in
          if r = -1 then Some (red (bytes_of ''ATA: '' @ [0xE6, 0x97, 0xA0, 0xE7, 0xA3, 0x81, 0xE7, 0x9B, 0x98, 0xE3, 0x80, 0x82, 10]) h1)
          else if r = -2 then Some (red (bytes_of ''ATA '' @ [0xE8, 0xAE, 0xBE, 0xE5, 0xA4, 0x87, 0xE5, 0xBF, 0x99, 0xE3, 0x80, 0x82, 10]) h1)
          else if r = -3 then Some (red (bytes_of ''ATAPI '' @ [0xE8, 0xAE, 0xBE, 0xE5, 0xA4, 0x87, 0xEF, 0xBC, 0x88, 0xE9, 0x9D, 0x9E, 0xE7, 0xA1, 0xAC, 0xE7, 0x9B, 0x98, 0xEF, 0xBC, 0x89, 0xE3, 0x80, 0x82, 10]) h1)
          else if r = -4 then Some (red (bytes_of ''ATA '' @ [0xE8, 0xAF, 0x86, 0xE5, 0x88, 0xAB, 0xE9, 0x94, 0x99, 0xE8, 0xAF, 0xAF, 0xE3, 0x80, 0x82, 10]) h1)
          else if length ws < 256 then None
          else
            let sectors = word_cat (ws ! 61) (ws ! 60) :: u32
            in Some (sh_scr (\<lambda>g. set_fg 7 (ident_line ([0xE6, 0x89, 0x87, 0xE5, 0x8C, 0xBA, 0xE6, 0x95, 0xB0] @ bytes_of '':   '') 14 (put_hex_u32 sectors)
                 (ident_line ([0xE5, 0xBA, 0x8F, 0xE5, 0x88, 0x97, 0xE5, 0x8F, 0xB7] @ bytes_of '':   '') 15 (ident_string ws 10 10)
                 (ident_line ([0xE5, 0x9E, 0x8B, 0xE5, 0x8F, 0xB7] @ bytes_of '':     '') 15 (ident_string ws 27 20) g)))) h1))"

definition dump_row :: "u8 list \<Rightarrow> nat \<Rightarrow> gfx \<Rightarrow> gfx" where
  "dump_row b row g =
     (let xs = take 16 (drop (row * 16) b);
          g1 = gfx_puts (bytes_of '': '') (gfx_put_hex_byte (of_nat (row * 16)) (gfx_put_hex_byte (of_nat (row * 16 div 256)) (set_fg 8 g)));
          hex = (\<lambda>col g. let g1 = gfx_putc 0x20 (gfx_put_hex_byte (xs ! col) g) in if col = 7 then gfx_putc 0x20 g1 else g1);
          g2 = set_fg 7 (gfx_putc 0x20 (fold hex [0..<16] (set_fg 15 g1)))
      in gfx_putc 10 (fold (\<lambda>c. gfx_putc (if 32 \<le> c \<and> c < 127 then c else 0x2E)) xs g2))"

definition hex_dump :: "u32 \<Rightarrow> u8 list \<Rightarrow> gfx \<Rightarrow> gfx" where
  "hex_dump lba b g =
     set_fg 7 (fold (dump_row b) [0..<32]
       (gfx_puts [0x3A, 10] (gfx_puts (put_hex_u32 lba) (gfx_puts (bytes_of ''LBA '') (set_fg 14 g)))))"

text \<open>A sector read into \<open>hex_buf\<close>: \<open>None\<close> inside is a read error.\<close>

definition sh_sector :: "'d env \<Rightarrow> u32 \<Rightarrow> 'd sh \<Rightarrow> u8 list option \<times> 'd sh" where
  "sh_sector E lba h =
     (case ata_read (eports E) (edrive E) lba 1 (hwv (ssys h)) of ((r, ws), d) \<Rightarrow>
        (if r = 0 then Some (bytes_of_words ws) else None, on_shu (set_hw d) h))"

definition m_read_error :: cstr where
  "m_read_error = bytes_of ''ATA '' @ [0xE8, 0xAF, 0xBB, 0xE9, 0x94, 0x99, 0xE8, 0xAF, 0xAF, 0xE3, 0x80, 0x82, 10]"

definition cmd_disk_read :: "'d env \<Rightarrow> cstr \<Rightarrow> 'd sh \<Rightarrow> 'd sh" where
  "cmd_disk_read E args h =
     (let lba = parse_u32 args in
      case sh_sector E lba h of (None, h1) \<Rightarrow> red m_read_error h1 | (Some b, h1) \<Rightarrow> sh_scr (hex_dump lba b) h1)"

definition cmd_disk_write :: "'d env \<Rightarrow> cstr \<Rightarrow> 'd sh \<Rightarrow> 'd sh" where
  "cmd_disk_write E args h =
     (let a1 = skip_blanks args; lba = parse_u32 a1;
          a2 = skip_blanks (dropWhile is_digit a1); off = parse_hex a2;
          a3 = skip_blanks (dropWhile is_hex a2); val = ucast (parse_hex a3) :: u8
      in if 512 \<le> off then red ([0xE5, 0x81, 0x8F, 0xE7, 0xA7, 0xBB, 0xE9, 0x94, 0x99, 0xE3, 0x80, 0x82, 10]) h
         else case sh_sector E lba h of (None, h1) \<Rightarrow> red m_read_error h1
              | (Some b, h1) \<Rightarrow>
                  (case ata_write (eports E) (edrive E) lba 1 (words_of_bytes (b[unat off := val])) (hwv (ssys h1)) of (r, d) \<Rightarrow>
                     let h2 = on_shu (set_hw d) h1 in
                     if r \<noteq> 0 then red (bytes_of ''ATA '' @ [0xE5, 0x86, 0x99, 0xE9, 0x94, 0x99, 0xE8, 0xAF, 0xAF, 0xE3, 0x80, 0x82, 10]) h2
                     else sh_scr (\<lambda>g. set_fg 7 (gfx_putc 10 (gfx_put_hex_byte (ucast off) (gfx_puts (bytes_of ''+0x'') (gfx_puts (put_hex_u32 lba)
                            (puts_utf8 (bytes_of '' '' @ [0xE4, 0xBA, 0x8E] @ bytes_of '' LBA '') (gfx_put_hex_byte val (puts_utf8 ([0xE5, 0xB7, 0xB2, 0xE5, 0x86, 0x99, 0xE5, 0x85, 0xA5] @ bytes_of '' 0x'') (set_fg 10 g))))))))) h2))"

section \<open>Files\<close>

text \<open>A command that takes a name, with its reply to an empty one.\<close>

definition with_arg :: "cstr \<Rightarrow> (cstr \<Rightarrow> 'd sh \<Rightarrow> 'd sh option) \<Rightarrow> cstr \<Rightarrow> 'd sh \<Rightarrow> 'd sh option" where
  "with_arg usage f args h = (let a = skip_blanks args in if a = [] then Some (red usage h) else f a h)"

definition cmd_ls :: "'d env \<Rightarrow> 'd sh \<Rightarrow> 'd sh option" where
  "cmd_ls E h = map_option snd (sh_call (\<lambda>s. vfs_dir (vfsE E) (mtab s) (Some (bytes_of ''/'')) s) h)"

definition cmd_cd :: "'d env \<Rightarrow> cstr \<Rightarrow> 'd sh \<Rightarrow> 'd sh option" where
  "cmd_cd E args h =
     (let a = skip_blanks args in
      if a = [] then map_option snd (sh_call (on_fat (fat_cd (eio E) [0x5C])) h)
      else map_option (\<lambda>(r, h1). if r = -1 then red m_not_found h1 else h1) (sh_call (on_fat (fat_cd (eio E) a)) h))"

definition cmd_mkdir :: "'d env \<Rightarrow> cstr \<Rightarrow> 'd sh \<Rightarrow> 'd sh option" where
  "cmd_mkdir E = with_arg ([0xE7, 0x94, 0xA8, 0xE6, 0xB3, 0x95] @ bytes_of '': MKDIR <'' @ [0xE5, 0x90, 0x8D] @ bytes_of ''>'' @ [10]) (\<lambda>a h.
     map_option (\<lambda>(r, h1). if r = -1 then red ([0xE5, 0xB7, 0xB2, 0xE5, 0xAD, 0x98, 0xE5, 0x9C, 0xA8, 0xE3, 0x80, 0x82, 10]) h1 else if r = -2 then red ([0xE7, 0xA3, 0x81, 0xE7, 0x9B, 0x98, 0xE5, 0xB7, 0xB2, 0xE6, 0xBB, 0xA1, 0xE3, 0x80, 0x82, 10]) h1
       else if r \<noteq> 0 then red ([0xE5, 0x88, 0x9B, 0xE5, 0xBB, 0xBA, 0xE7, 0x9B, 0xAE, 0xE5, 0xBD, 0x95, 0xE5, 0xA4, 0xB1, 0xE8, 0xB4, 0xA5, 0xE3, 0x80, 0x82, 10]) h1 else green m_ok h1) (sh_call (on_fat (fat_mkdir (eio E) a)) h))"

definition cmd_cat :: "'d env \<Rightarrow> cstr \<Rightarrow> 'd sh \<Rightarrow> 'd sh option" where
  "cmd_cat E = with_arg ([0xE7, 0x94, 0xA8, 0xE6, 0xB3, 0x95] @ bytes_of '': CAT <'' @ [0xE6, 0x96, 0x87, 0xE4, 0xBB, 0xB6, 0xE5, 0x90, 0x8D] @ bytes_of ''>'' @ [10]) (\<lambda>a h.
     map_option (\<lambda>(r, h1). if r \<noteq> 0 then red ([0xE6, 0x96, 0x87, 0xE4, 0xBB, 0xB6, 0xE6, 0x9C, 0xAA, 0xE6, 0x89, 0xBE, 0xE5, 0x88, 0xB0, 0xE3, 0x80, 0x82, 10]) h1 else sh_scr (gfx_putc 10) h1) (sh_call (on_fat (fat_cat (eio E) a)) h))"

definition cmd_create :: "'d env \<Rightarrow> cstr \<Rightarrow> 'd sh \<Rightarrow> 'd sh option" where
  "cmd_create E = (let usage = [0xE7, 0x94, 0xA8, 0xE6, 0xB3, 0x95] @ bytes_of '': CREATE <'' @ [0xE5, 0x90, 0x8D] @ bytes_of ''> <'' @ [0xE5, 0x86, 0x85, 0xE5, 0xAE, 0xB9] @ bytes_of ''>'' @ [10] in with_arg usage (\<lambda>a h.
     case first_arg a of (name, data) \<Rightarrow>
       if data = [] then Some (red usage h)
       else map_option (\<lambda>(r, h1). if r = 0 then green m_ok h1 else red m_failed h1)
              (sh_call (on_fat (fat_write_file (eio E) name data (of_nat (length data)))) h)))"

definition cmd_rm :: "'d env \<Rightarrow> cstr \<Rightarrow> 'd sh \<Rightarrow> 'd sh option" where
  "cmd_rm E = with_arg ([0xE7, 0x94, 0xA8, 0xE6, 0xB3, 0x95] @ bytes_of '': RM <'' @ [0xE6, 0x96, 0x87, 0xE4, 0xBB, 0xB6, 0xE5, 0x90, 0x8D] @ bytes_of ''>'' @ [10]) (\<lambda>a h.
     map_option (\<lambda>(r, h1). if r = 0 then green m_ok h1 else red m_not_found h1) (sh_call (on_fat (fat_remove (eio E) a)) h))"

definition cmd_rmdir :: "'d env \<Rightarrow> cstr \<Rightarrow> 'd sh \<Rightarrow> 'd sh option" where
  "cmd_rmdir E = with_arg ([0xE7, 0x94, 0xA8, 0xE6, 0xB3, 0x95] @ bytes_of '': RMDIR <'' @ [0xE7, 0x9B, 0xAE, 0xE5, 0xBD, 0x95] @ bytes_of ''>'' @ [10]) (\<lambda>a h.
     map_option (\<lambda>(r, h1). if r = -1 then red m_not_found h1 else if r = -2 then red ([0xE7, 0x9B, 0xAE, 0xE5, 0xBD, 0x95, 0xE9, 0x9D, 0x9E, 0xE7, 0xA9, 0xBA, 0xE3, 0x80, 0x82, 10]) h1 else green m_ok h1)
       (sh_call (on_fat (fat_rmdir (eio E) a)) h))"

definition cmd_cp :: "'d env \<Rightarrow> cstr \<Rightarrow> 'd sh \<Rightarrow> 'd sh option" where
  "cmd_cp E = (let usage = [0xE7, 0x94, 0xA8, 0xE6, 0xB3, 0x95] @ bytes_of '': CP <'' @ [0xE6, 0xBA, 0x90] @ bytes_of ''> <'' @ [0xE7, 0x9B, 0xAE, 0xE6, 0xA0, 0x87] @ bytes_of ''>'' @ [10] in with_arg usage (\<lambda>a h.
     case first_arg a of (name, dst) \<Rightarrow>
       if dst = [] then Some (red usage h)
       else do { ((sz, bs), h1) \<leftarrow> sh_call (on_fat (fat_open (eio E) name (copybuf h) 4096)) h;
                 let h2 = h1\<lparr>copybuf := bs\<rparr>; n = min sz 4096 in
                 if sz < 0 then Some (red ([0xE6, 0xBA, 0x90, 0xE6, 0x96, 0x87, 0xE4, 0xBB, 0xB6, 0xE6, 0x9C, 0xAA, 0xE6, 0x89, 0xBE, 0xE5, 0x88, 0xB0, 0xE3, 0x80, 0x82, 10]) h2)
                 else if length bs < nat n then None
                 else map_option (\<lambda>(r, h3). if r \<noteq> 0 then red ([0xE5, 0xA4, 0x8D, 0xE5, 0x88, 0xB6, 0xE5, 0xA4, 0xB1, 0xE8, 0xB4, 0xA5, 0xE3, 0x80, 0x82, 10]) h3 else green m_ok h3)
                        (sh_call (on_fat (fat_write_file (eio E) dst (take (nat n) bs) (of_int n))) h2) }))"

definition cmd_mv :: "'d env \<Rightarrow> cstr \<Rightarrow> 'd sh \<Rightarrow> 'd sh option" where
  "cmd_mv E = (let usage = [0xE7, 0x94, 0xA8, 0xE6, 0xB3, 0x95] @ bytes_of '': MV <'' @ [0xE5, 0x8E, 0x9F, 0xE5, 0x90, 0x8D] @ bytes_of ''> <'' @ [0xE6, 0x96, 0xB0, 0xE5, 0x90, 0x8D] @ bytes_of ''>'' @ [10] in with_arg usage (\<lambda>a h.
     case first_arg a of (name, dst) \<Rightarrow>
       if dst = [] then Some (red usage h)
       else map_option (\<lambda>(r, h1). if r \<noteq> 0 then red m_not_found h1 else green m_ok h1) (sh_call (on_fat (fat_rename (eio E) name dst)) h)))"

definition cmd_ext2dir :: "'d env \<Rightarrow> cstr \<Rightarrow> 'd sh \<Rightarrow> 'd sh option" where
  "cmd_ext2dir E path h = map_option snd (sh_call (ext2_dir E path) h)"

text \<open>The number of characters printed is the size of the file, which can exceed the buffer.\<close>

definition cmd_ext2cat :: "'d env \<Rightarrow> cstr \<Rightarrow> 'd sh \<Rightarrow> 'd sh option" where
  "cmd_ext2cat E path h =
     do { (a, h1) \<leftarrow> sh_call (new_buf E 65536) h;
          if a = 0 then Some (sh_scr (puts_utf8 (bytes_of ''ext2cat: OOM'' @ [10])) h1)
          else do { ((sz, bs), h2) \<leftarrow> sh_call (\<lambda>s. on_e2 (\<lambda>fs. e2_open (eio E) fs path (kbuf (kern s) a) 65536) s) h1;
                    if sz < 0 then Some (on_shu (onk (k_free a)) (red (bytes_of ''ext2cat: file not found'' @ [10]) h2))
                    else if length bs < nat sz then None
                    else Some (on_shu (onk (k_free a)) (sh_scr (\<lambda>g. set_fg 7 (gfx_putc 10 (fold gfx_putc (take (nat sz) bs) (set_fg 15 g)))) h2)) } }"

section \<open>Programs\<close>

definition sh_loaded :: "('d usr \<Rightarrow> 'd loaded option) \<Rightarrow> ('d sh \<Rightarrow> 'd sh) \<Rightarrow> 'd sh \<Rightarrow> 'd sh_step option" where
  "sh_loaded f err h =
     map_option (\<lambda>l. case l of NotLoaded u \<Rightarrow> Continue (err (h\<lparr>shu := u\<rparr>)) | Started st u \<Rightarrow> RunProg st (h\<lparr>shu := u\<rparr>)) (f (shu h))"

text \<open>The whole rest of the line is the name of the file, and its arguments.\<close>

definition cmd_run :: "'d env \<Rightarrow> cpu_now \<Rightarrow> cstr \<Rightarrow> 'd sh \<Rightarrow> 'd sh_step option" where
  "cmd_run E c args h =
     (let a = skip_blanks args in
      if a = [] then Some (Continue (red ([0xE7, 0x94, 0xA8, 0xE6, 0xB3, 0x95] @ bytes_of '': RUN <'' @ [0xE6, 0x96, 0x87, 0xE4, 0xBB, 0xB6, 0xE5, 0x90, 0x8D] @ bytes_of ''>'' @ [10]) h))
      else sh_loaded (load_binary E c a (Some a)) (red ([0xE7, 0xA8, 0x8B, 0xE5, 0xBA, 0x8F, 0xE5, 0x8A, 0xA0, 0xE8, 0xBD, 0xBD, 0xE5, 0xA4, 0xB1, 0xE8, 0xB4, 0xA5, 0xE3, 0x80, 0x82, 10])) h)"

definition cmd_usersh :: "'d env \<Rightarrow> cpu_now \<Rightarrow> u8 list \<Rightarrow> 'd sh \<Rightarrow> 'd sh_step option" where
  "cmd_usersh E c blob h = sh_loaded (shell_launch_user E c blob) (\<lambda>h. h) (sh_scr (gfx_clear 0) h)"

text \<open>What the shell does when the program has ended.\<close>

definition usersh_return :: "'d sh \<Rightarrow> 'd sh option" where
  "usersh_return h = map_option (\<lambda>u. sh_scr (gfx_putc 10) (on_shu shell_redraw (h\<lparr>shu := u\<rparr>))) (shell_launch_return (shu h))"

definition run_return :: "'d sh \<Rightarrow> 'd sh option" where
  "run_return h = map_option (\<lambda>u. h\<lparr>shu := u\<rparr>) (load_return (shu h))"

definition cmd_reboot :: "'d env \<Rightarrow> 'd sh \<Rightarrow> 'd sh_step" where
  "cmd_reboot E h = Reset (on_shu (\<lambda>s. set_hw (outb (eports E) 0x64 0xFE (hwv s)) s) (colored 14 ([0xE9, 0x87, 0x8D, 0xE5, 0x90, 0xAF, 0xE4, 0xB8, 0xAD] @ bytes_of ''...'' @ [10]) h))"

definition cmd_shutdown :: "'d sh \<Rightarrow> 'd sh_step" where
  "cmd_shutdown h = Halted (colored 14 ([0xE5, 0xB7, 0xB2, 0xE5, 0x81, 0x9C, 0xE6, 0x9C, 0xBA, 0xE3, 0x80, 0x82, 10]) h)"

section \<open>The command line\<close>

text \<open>The words of the command table in the order of the comparisons: a whole line, or a prefix with its rest.\<close>

definition line_is :: "string \<Rightarrow> cstr \<Rightarrow> bool" where
  "line_is w l = (strcmp_ci l (bytes_of w) = 0)"

definition line_has :: "string \<Rightarrow> cstr \<Rightarrow> bool" where
  "line_has w l = (strncmp_ci l (bytes_of w) (length w) = 0)"

definition shell_command :: "'d env \<Rightarrow> cpu_now \<Rightarrow> u8 list \<Rightarrow> cstr \<Rightarrow> 'd sh \<Rightarrow> 'd sh_step option" where
  "shell_command E c blob l h =
     (let go = map_option Continue in
      if line_is ''HELP'' l then go (Some (cmd_help h))
      else if line_is ''CLEAR'' l then go (Some (sh_scr (gfx_clear 0) h))
      else if line_is ''INFO'' l then go (Some (cmd_info h))
      else if line_is ''MEM'' l then go (Some (cmd_mem h))
      else if line_is ''DISK ID'' l then go (cmd_disk_id E h)
      else if line_has ''DISK R'' l then go (Some (cmd_disk_read E (drop 6 l) h))
      else if line_has ''DISK W'' l then go (Some (cmd_disk_write E (drop 6 l) h))
      else if line_is ''LS'' l then go (cmd_ls E h)
      else if line_has ''CD '' l then go (cmd_cd E (drop 3 l) h)
      else if line_is ''CD'' l then go (cmd_cd E [0x5C] h)
      else if line_is ''MKDIR'' l then go (cmd_mkdir E [] h)
      else if line_has ''MKDIR '' l then go (cmd_mkdir E (drop 6 l) h)
      else if line_is ''CAT'' l then go (cmd_cat E [] h)
      else if line_has ''CAT '' l then go (cmd_cat E (drop 4 l) h)
      else if line_is ''MOUSE'' l then go (Some (cmd_mouse h))
      else if line_is ''RUN'' l then cmd_run E c [] h
      else if line_has ''RUN '' l then cmd_run E c (drop 4 l) h
      else if line_is ''CREATE'' l then go (cmd_create E [] h)
      else if line_has ''CREATE '' l then go (cmd_create E (drop 7 l) h)
      else if line_is ''RM'' l then go (cmd_rm E [] h)
      else if line_has ''RM '' l then go (cmd_rm E (drop 3 l) h)
      else if line_has ''ECHO'' l then go (Some (cmd_echo (skip_blanks (drop 4 l)) h))
      else if line_is ''RMDIR'' l then go (cmd_rmdir E [] h)
      else if line_has ''RMDIR '' l then go (cmd_rmdir E (drop 6 l) h)
      else if line_is ''CP'' l then go (cmd_cp E [] h)
      else if line_has ''CP '' l then go (cmd_cp E (drop 3 l) h)
      else if line_is ''MV'' l then go (cmd_mv E [] h)
      else if line_has ''MV '' l then go (cmd_mv E (drop 3 l) h)
      else if line_is ''REBOOT'' l then Some (cmd_reboot E h)
      else if line_is ''SHUTDOWN'' l then Some (cmd_shutdown h)
      else if line_is ''USERSH'' l then cmd_usersh E c blob h
      else if line_is ''EXT2DIR'' l then go (cmd_ext2dir E (bytes_of ''/'') h)
      else if line_has ''EXT2DIR '' l then go (cmd_ext2dir E (drop 8 l) h)
      else if line_has ''EXT2CAT '' l then go (cmd_ext2cat E (drop 8 l) h)
      else go (Some (red ([0xE6, 0x9C, 0xAA, 0xE7, 0x9F, 0xA5, 0xE5, 0x91, 0xBD, 0xE4, 0xBB, 0xA4, 0xE3, 0x80, 0x82, 0xE8, 0xBE, 0x93, 0xE5, 0x85, 0xA5] @ bytes_of '' HELP '' @ [0xE6, 0x9F, 0xA5, 0xE7, 0x9C, 0x8B, 0xE5, 0xB8, 0xAE, 0xE5, 0x8A, 0xA9, 0xE3, 0x80, 0x82, 10]) h)))"

definition shell_round :: "'d env \<Rightarrow> cpu_now \<Rightarrow> u8 list \<Rightarrow> 'd sh \<Rightarrow> 'd sh_step option" where
  "shell_round E c blob h =
     (let h1 = sh_scr (\<lambda>g. mcursor_update (mou (hidv (ssys h))) (shell_prompt (ssys h) g)) h in
      do { (l, h2) \<leftarrow> sh_call (\<lambda>s. on_hid (kb_readline (eports E) (gx_w (scr s)) (gx_h (scr s)) gfx_putc 64) s) h1;
           let h3 = sh_scr cursor_erase h2 in if l = [] then Some (Continue h3) else shell_command E c blob l h3 })"

end
