(* ===== verification/Spec2Isabelle.thy ===== *)
theory Spec2Isabelle
  imports XE_Signal XE_Exec XE_Ufatab XE_Shell
begin

text \<open>
  Verification of XEKernelOS, a 32-bit x86 kernel in C++ with a FAT12 and an ext2 filesystem, a shell and user programs.
  All sources named below are under \<^verbatim>\<open>src/src/\<close>; a function of the code has the same name here unless it clashes with
  another one, and then a prefix (\<open>fat_\<close>, \<open>e2_\<close>, \<open>rd_\<close>, \<open>u\<close> for the user driver).

  \<^bold>\<open>The program.\<close> Memory comes from two allocators: pages from a bitmap (\<^verbatim>\<open>kernel/mm.cpp\<close>) and kernel objects from a
  first-fit heap (\<^verbatim>\<open>lib/heap.cpp\<close>). Page directories (\<^verbatim>\<open>kernel/paging.cpp\<close>) are built from pages; the kernel reaches user memory
  only by walking them (\<^verbatim>\<open>lib/uaccess.cpp\<close>). Tasks (\<^verbatim>\<open>kernel/task.cpp\<close>) are heap objects on intrusive lists (\<^verbatim>\<open>lib/list.h\<close>); an
  interrupt saves the registers of the running task in a frame, and \<open>schedule\<close> switches tasks by exchanging the frame. Every entry
  into the kernel is \<open>c_isr_handler\<close> (\<^verbatim>\<open>kernel/isr.cpp\<close>): timer, devices, faults and, for vector 0x80, the 51 system calls of
  \<^verbatim>\<open>kernel/syscall.cpp\<close>; before it returns to a program it delivers signals. System calls on files go through a task's descriptor
  table and the mount table (\<^verbatim>\<open>fs/vfs.cpp\<close>) to the ram disk, to FAT12 or to ext2, the last two over a cache of 64 sectors
  (\<^verbatim>\<open>drivers/bcache.cpp\<close>) and the ATA driver (\<^verbatim>\<open>drivers/ata.cpp\<close>). Programs print on the screen (\<^verbatim>\<open>drivers/gfx.cpp\<close>) and read the
  event ring that keyboard and mouse fill. A user program has a second FAT driver of its own on raw sectors (\<^verbatim>\<open>user/ufs.cpp\<close>).

  \<^bold>\<open>Theories, from the bottom up.\<close>
  \<^item> \<open>XE_Prelude\<close>: words of \<^verbatim>\<open>lib/types.h\<close>, C strings, byte memory, shared lemmas.
  \<^item> \<open>XE_List\<close> (\<^verbatim>\<open>lib/list.h\<close>): the pointer operations on a store of \<open>next\<close> and \<open>prev\<close> fields; \<open>dll\<close> is the ring of a list
    in both directions. The locale \<open>entry_queue\<close> is what the scheduler uses of it.
  \<^item> \<open>XE_Heap\<close> (\<^verbatim>\<open>lib/heap.cpp\<close>): \<open>kmalloc\<close> and \<open>kfree\<close> with every write of a block header; \<open>heap_inv\<close> says that the blocks tile
    the heap, \<open>heap_live\<close> gives the regions in use. Locale \<open>allocator\<close>.
  \<^item> \<open>XE_Mm\<close> (\<^verbatim>\<open>kernel/mm.cpp\<close>): the page bitmap, its counters and the reservations of \<open>mm_init\<close>. Locale \<open>page_source\<close>.
  \<^item> \<open>XE_Paging\<close> (\<^verbatim>\<open>kernel/paging.cpp\<close>, \<^verbatim>\<open>paging.h\<close>): directories and tables in byte memory; a directory is a partial map of pages.
  \<^item> \<open>XE_Uaccess\<close> (\<^verbatim>\<open>lib/uaccess.cpp\<close>): the three copy functions, equal to byte-wise copies over the user's address space.
  \<^item> \<open>XE_Task\<close>, \<open>XE_Sched\<close> (\<^verbatim>\<open>kernel/task.cpp\<close>, \<^verbatim>\<open>task.h\<close>, timer part of \<^verbatim>\<open>isr.cpp\<close>): task structs, \<open>schedule\<close>, exit, waiting,
    sleeping; \<open>kinv\<close> is the invariant of the queues, of the ownership of heap objects and of the parent links.
  \<^item> \<open>XE_Vfs\<close> (\<^verbatim>\<open>fs/vfs.cpp\<close>, \<^verbatim>\<open>lib/strutil.cpp\<close>), \<open>XE_Ramdisk\<close> (\<^verbatim>\<open>fs/ramdisk.cpp\<close>).
  \<^item> \<open>XE_Ata\<close> (\<^verbatim>\<open>drivers/ata.cpp\<close>), \<open>XE_Bcache\<close> (\<^verbatim>\<open>drivers/bcache.cpp\<close>), \<open>XE_Fat12\<close> (\<^verbatim>\<open>fs/fat12.cpp\<close>), \<open>XE_Ext2\<close> (\<^verbatim>\<open>fs/ext2.cpp\<close>).
  \<^item> \<open>XE_Input\<close> (\<^verbatim>\<open>drivers/input.cpp\<close>, \<^verbatim>\<open>keyboard.cpp\<close>, \<^verbatim>\<open>mouse.cpp\<close>, \<^verbatim>\<open>serial.cpp\<close>, \<^verbatim>\<open>pic.cpp\<close>, \<^verbatim>\<open>pit.cpp\<close>), \<open>XE_Gfx\<close>
    (\<^verbatim>\<open>drivers/gfx.cpp\<close>, lookup of \<^verbatim>\<open>font_cn_load.cpp\<close>).
  \<^item> \<open>XE_Sys\<close>: the state system calls work on. \<open>XE_Fd\<close>, \<open>XE_Fdinv\<close>: descriptors, pipes, the ownership of their objects.
    \<open>XE_Proc\<close>: \<open>sbrk\<close>, \<open>fork\<close>, \<open>exec\<close>, signal delivery. \<open>XE_Syscall\<close>: the other calls and the dispatcher \<open>syscall_handler\<close>.
  \<^item> \<open>XE_Isr\<close> (\<^verbatim>\<open>kernel/isr.cpp\<close>, \<^verbatim>\<open>panic.cpp\<close>): \<open>c_isr_handler\<close>. \<open>XE_Frame\<close>: what an interrupt may change in task structs.
    \<open>XE_Signal\<close>: signals and faults through the whole handler.
  \<^item> \<open>XE_User\<close> (\<^verbatim>\<open>kernel/user.cpp\<close>, \<^verbatim>\<open>idt.cpp\<close>), \<open>XE_Loader\<close> (\<^verbatim>\<open>kernel/loader.cpp\<close>, \<^verbatim>\<open>elf.cpp\<close>), \<open>XE_Space\<close>, \<open>XE_Exec\<close> (the
    address space \<open>exec\<close> builds), \<open>XE_Shell\<close> (\<^verbatim>\<open>shell/shell.cpp\<close>).
  \<^item> \<open>XE_Ufs\<close>, \<open>XE_Ufatab\<close> (\<^verbatim>\<open>user/ufs.cpp\<close>): the user's driver and its tables, compared with the kernel's.
\<close>

text \<open>
  \<^bold>\<open>How state and control are modelled.\<close> A component's static variables are a record, its functions take and return it. Integers
  have the width of the code and wrap around; C \<open>int\<close>s are \<open>int\<close>, with \<open>i32\<close> where a sum can leave the range. \<open>None\<close> is the
  result of an operation that does not return (an endless search or chain, a halted machine) or whose behaviour is undefined (a store
  outside of a buffer, a division by zero, a null pointer); error codes are ordinary results. The state of the kernel, \<open>kst\<close>, keeps
  the objects of the heap by type (task structs, paging managers, pipes, file buffers), each at the address \<open>kmalloc\<close> returned;
  the headers of the heap, page directories, tables, user pages and kernel stacks are memory. Consequently a store is represented in the
  store of its own type. The code has one way for a program to store elsewhere, text output redirected to a
  device descriptor, and the model gives it no result, so that properties on system calls speak of all others; the last property of
  \<open>XE_Fdinv\<close> shows that a program without capabilities gets there. A freed struct keeps its contents until its memory is used
  again; \<open>freed\<close> and \<open>stale\<close> record that one was read, which happens at every exit.

  \<^bold>\<open>Loops.\<close> Loops over an array are structural recursion or \<open>fold\<close>; loops that may not end are
  \<open>partial_function (option)\<close>, and the properties prove that they do end where that is claimed. Fuel
  occurs in \<open>ata_wait_loop\<close> only, where it is the 100000 polls of the code.

  \<^bold>\<open>Parameters.\<close> The hardware below the I/O ports is the record \<open>ports\<close>. What the disk driver relies on is the locale
  \<open>pio_drive\<close>: the registers, transfer and errors of a 28-bit PIO drive that may stay busy, or slow to ask for data, between any two
  steps as long as a wait of the driver covers it. The driver issues commands without looking at BSY, so \<open>prompt_drive\<close>, which
  the cache and the filesystems need, adds that the drive is ready again after each transfer; \<open>read_after_write_lost\<close> shows the
  driver fail on one that is not. Both locales are interpreted on concrete drives, one that is ready at once and one with delays. The
  contents of fresh heap blocks and of stack buffers before their first write, the entry stubs, the registers the kernel only reads and
  the bitmap fonts are parameters without assumptions.

  \<^bold>\<open>What the lemmas show.\<close> Allocators: well-formedness is kept, results are fresh and disjoint, failure changes nothing. Paging and user
  access: a directory refines a map, a new one gives the program nothing, the destructor returns exactly its pages, page-wise copies
  equal byte-wise ones. Tasks: the invariant \<open>kinv\<close> under every operation, the choice of the next task, no starvation, exit with
  exactly the freed objects, sleeping. Kernel interface: capabilities are never gained, objects behind descriptors are never freed
  twice, pipes are queues, signals are delivered and returned from, \<open>exec\<close> builds exactly the image. Storage: the ram disk
  refines a map, the driver reads what it wrote, the cache agrees with the disk, FAT tables are maps but for entries split over two
  sectors, both FAT drivers agree. Screen and input: nothing is drawn outside of the frame buffer, loops end, rings are bounded queues.
  Several properties show faults of the code: a terminator behind \<open>g_ubin\<close>, closing one end of a shared pipe, a struct read after it
  was freed, a panic where a signal was meant, table entries that leave the sector buffer, the store through a device
  descriptor. Theorems without a number state further faults and limits (\<open>kmalloc_wraps\<close>, \<open>dup2_leaves_dangling\<close>, \<open>fill_rect_overflow\<close>,
  \<open>bc_write_error_lost\<close>, \<open>vfs_resolve_no_boundary\<close>, \<open>ramdisk_long_name_lost\<close>, \<open>cwd_overflow\<close>).

  \<^bold>\<open>Bounds in hypotheses.\<close> A request to the heap is at most \<open>2^32 - 21\<close> bytes, since the rounding of the size wraps beyond; a
  rectangle's edges fit an \<open>int\<close>, and a line's coordinates lie within \<open>2^28\<close>, so that its error term does not overflow; a tick
  to wake up at is not 0, which the kernel reads as not sleeping; the exiting task of the properties on exit has a living parent; sector
  numbers fit 28 bits.

  \<^bold>\<open>What is not modelled.\<close> Assembly (boot code, entry stubs, context switch instructions): the C handlers take the frame it builds.
  \<^verbatim>\<open>kernel/kernel.cpp\<close> calls the initialisation functions in order. \<^verbatim>\<open>PitTimer::sleep\<close> waits for interrupts. The
  loading of the Chinese font, most log output, and the colours of listings are left out. Of the user programs the filesystem driver is
  modelled; the window system \<^verbatim>\<open>user/desktop.cpp\<close>, the shell \<^verbatim>\<open>user/ushell.cpp\<close>, the demonstration programs and the
  call stubs in \<^verbatim>\<open>user/usys.h\<close> and \<^verbatim>\<open>libc.h\<close> are clients of the system calls, which are modelled on the kernel's side.
\<close>

end
